(* ===== verification/Prelude.thy ===== *)
theory Prelude
  imports Main "HOL-Library.Word"
begin

text \<open>
  Shared vocabulary of the development: the machine integer types of the C code, the
  wrap-around comparison of 32-bit clocks (\<^verbatim>\<open>src/generic/timer_irq.c\<close>), the result
  type of firmware code that may leave through \<^verbatim>\<open>shutdown()\<close>, and the generic
  lemmas on words and lists that the components use.
\<close>

unbundle bit_operations_syntax

section \<open>Machine integers\<close>

type_synonym u8 = "8 word"
type_synonym u16 = "16 word"
type_synonym u32 = "32 word"
type_synonym u64 = "64 word"

named_theorems fw_simps \<open>rewriting of firmware computations\<close>
named_theorems fw_keeps \<open>invariant preservation of firmware computations\<close>

text \<open>C's integer division truncates towards zero.\<close>

definition c_div :: "int \<Rightarrow> int \<Rightarrow> int" where
  "c_div n d = sgn n * sgn d * (\<bar>n\<bar> div \<bar>d\<bar>)"

section \<open>Clock comparison\<close>

text \<open>
  \<open>timer_is_before t1 t2\<close> is \<^verbatim>\<open>(int32_t)(time1 - time2) < 0\<close>: the difference is
  taken modulo \<open>2 ^ 32\<close> and read as a signed number.
\<close>

definition timer_is_before :: "u32 \<Rightarrow> u32 \<Rightarrow> bool" where
  "timer_is_before time1 time2 \<longleftrightarrow> sint (time1 - time2) < 0"

text \<open>The distance of a clock from a base, a number below \<open>2 ^ 32\<close>.\<close>

definition off :: "u32 \<Rightarrow> u32 \<Rightarrow> nat" where
  "off b t = unat (t - b)"

section \<open>Firmware computations\<close>

text \<open>
  Firmware code runs on a state \<open>'s\<close>.  It returns a value, or leaves by the
  \<^verbatim>\<open>longjmp\<close> of \<^verbatim>\<open>sched_shutdown()\<close> with a reason (\<open>Shut\<close>), or does
  not complete: it dereferences a null pointer, accesses an array out of range or never
  returns (\<open>Stuck\<close>).  The state changes made before the exit persist.
\<close>

type_synonym reason = string

datatype stop = Shut reason | Stuck

type_synonym ('s, 'a) fw = "'s \<Rightarrow> (stop + 'a) \<times> 's"

definition ret :: "'a \<Rightarrow> ('s, 'a) fw" where
  "ret x s = (Inr x, s)"

definition shutdown :: "reason \<Rightarrow> ('s, 'a) fw" where
  "shutdown msg s = (Inl (Shut msg), s)"

definition stuck :: "('s, 'a) fw" where
  "stuck s = (Inl Stuck, s)"

definition bnd :: "('s, 'a) fw \<Rightarrow> ('a \<Rightarrow> ('s, 'b) fw) \<Rightarrow> ('s, 'b) fw" where
  "bnd m f s = (case m s of (Inl e, s') \<Rightarrow> (Inl e, s') | (Inr x, s') \<Rightarrow> f x s')"

definition thn :: "('s, 'a) fw \<Rightarrow> ('s, 'b) fw \<Rightarrow> ('s, 'b) fw" where
  "thn m n = bnd m (\<lambda>_. n)"

definition upd :: "('s \<Rightarrow> 's) \<Rightarrow> ('s, unit) fw" where
  "upd f s = (Inr (), f s)"

definition gets :: "('s \<Rightarrow> 'a) \<Rightarrow> ('s, 'a) fw" where
  "gets f s = (Inr (f s), s)"

definition shutdown_if :: "bool \<Rightarrow> reason \<Rightarrow> ('s, unit) fw" where
  "shutdown_if c msg = (if c then shutdown msg else ret ())"

fun iterate :: "nat \<Rightarrow> ('s, 'a) fw \<Rightarrow> ('s, unit) fw" where
  "iterate 0 m = ret ()"
| "iterate (Suc n) m = thn (iterate n m) (thn m (ret ()))"

lemma ret_run [fw_simps]: "ret x s = (Inr x, s)"
  by (simp add: ret_def)

lemma shutdown_run [fw_simps]: "shutdown msg s = (Inl (Shut msg), s)"
  by (simp add: shutdown_def)

lemma stuck_run [fw_simps]: "stuck s = (Inl Stuck, s)"
  by (simp add: stuck_def)

lemma upd_run [fw_simps]: "upd f s = (Inr (), f s)"
  by (simp add: upd_def)

lemma gets_run [fw_simps]: "gets f s = (Inr (f s), s)"
  by (simp add: gets_def)

lemma bnd_Inl [fw_simps]: "m s = (Inl e, s') \<Longrightarrow> bnd m f s = (Inl e, s')"
  by (simp add: bnd_def)

lemma bnd_Inr [fw_simps]: "m s = (Inr x, s') \<Longrightarrow> bnd m f s = f x s'"
  by (simp add: bnd_def)

lemma thn_run [fw_simps]: "thn m n s = bnd m (\<lambda>_. n) s"
  by (simp add: thn_def)

lemma shutdown_if_run [fw_simps]:
  "shutdown_if c msg s = (if c then (Inl (Shut msg), s) else (Inr (), s))"
  by (simp add: shutdown_if_def ret_def shutdown_def)

lemmas fw_unfold = bnd_def thn_def upd_def gets_def ret_def shutdown_def stuck_def shutdown_if_def

text \<open>A predicate that a computation keeps, whether it returns or shuts down.\<close>

definition keeps :: "('s \<Rightarrow> bool) \<Rightarrow> ('s, 'a) fw \<Rightarrow> bool" where
  "keeps P m \<longleftrightarrow> (\<forall>s. P s \<longrightarrow> P (snd (m s)))"

lemma keepsI: "(\<And>s. P s \<Longrightarrow> P (snd (m s))) \<Longrightarrow> keeps P m"
  by (simp add: keeps_def)

lemma keepsD: "keeps P m \<Longrightarrow> P s \<Longrightarrow> P (snd (m s))"
  by (simp add: keeps_def)

lemma keeps_ret [fw_keeps]: "keeps P (ret x)"
  by (simp add: keeps_def ret_def)

lemma keeps_shutdown [fw_keeps]: "keeps P (shutdown msg)"
  by (simp add: keeps_def shutdown_def)

lemma keeps_stuck [fw_keeps]: "keeps P stuck"
  by (simp add: keeps_def stuck_def)

lemma keeps_gets [fw_keeps]: "keeps P (gets f)"
  by (simp add: keeps_def gets_def)

lemma keeps_shutdown_if [fw_keeps]: "keeps P (shutdown_if c msg)"
  by (simp add: shutdown_if_def keeps_ret keeps_shutdown)

lemma keeps_upd: "(\<And>s. P s \<Longrightarrow> P (f s)) \<Longrightarrow> keeps P (upd f)"
  by (simp add: keeps_def upd_def)

lemma keeps_bnd [fw_keeps]:
  assumes "keeps P m" and "\<And>x. keeps P (f x)"
  shows "keeps P (bnd m f)"
proof (rule keepsI)
  fix s assume "P s"
  with assms(1) have "P (snd (m s))" by (rule keepsD)
  with assms(2) show "P (snd (bnd m f s))"
    by (cases "m s"; cases "fst (m s)") (auto simp: bnd_def dest: keepsD)
qed

lemma keeps_thn [fw_keeps]: "keeps P m \<Longrightarrow> keeps P n \<Longrightarrow> keeps P (thn m n)"
  by (simp add: thn_def keeps_bnd)

lemma keeps_if [fw_keeps]: "keeps P m \<Longrightarrow> keeps P n \<Longrightarrow> keeps P (if c then m else n)"
  by simp

lemma keeps_case_option [fw_keeps]:
  "keeps P m \<Longrightarrow> (\<And>x. keeps P (f x)) \<Longrightarrow> keeps P (case z of None \<Rightarrow> m | Some x \<Rightarrow> f x)"
  by (cases z) auto

section \<open>Bits of words\<close>

text \<open>The masks of the wire protocol, bit by bit, and extensionality of words.\<close>

lemma bit_0x7f [simp]: "bit (0x7f :: int) n \<longleftrightarrow> n < 7"
proof -
  have "(0x7f :: int) = mask 7" by (simp add: mask_numeral)
  then show ?thesis by (simp only: bit_mask_iff) auto
qed

lemma bit_0x80 [simp]: "bit (0x80 :: int) n \<longleftrightarrow> n = 7"
proof -
  have "(0x80 :: int) = 2 ^ 7" by simp
  then show ?thesis by (simp only: bit_exp_iff) auto
qed

lemma bit_0x60 [simp]: "bit (0x60 :: int) n \<longleftrightarrow> n = 5 \<or> n = 6"
proof -
  have *: "(0x60 :: int) = push_bit 5 (mask 2)" by (simp add: push_bit_eq_mult mask_numeral)
  show ?thesis unfolding * bit_push_bit_iff bit_mask_iff by auto
qed
lemma bit_0xff [simp]: "bit (0xff :: int) n \<longleftrightarrow> n < 8"
proof -
  have "(0xff :: int) = mask 8" by (simp add: mask_numeral)
  then show ?thesis by (simp only: bit_mask_iff) auto
qed

lemmas word_bits = bit_or_iff bit_and_iff bit_push_bit_iff
  bit_drop_bit_eq bit_ucast_iff

lemma word_eq_bits: "w = (w' :: 'a::len word) \<longleftrightarrow> (\<forall>n < LENGTH('a). bit w n = bit w' n)"
  by (auto intro: bit_word_eqI)

lemma and60_iff: "7 < LENGTH('a) \<Longrightarrow> (c AND 0x60 = (0x60 :: 'a::len word)) \<longleftrightarrow> bit c 5 \<and> bit c 6"
  by (auto simp: word_eq_bits word_bits dest: spec [of _ 5] spec [of _ 6])

lemma and_hi_bit: "(w AND 0x80 = (0 :: 'a::len word)) \<longleftrightarrow> \<not> bit w 7"
  by (auto simp: word_eq_bits word_bits dest: spec [of _ 7] bit_imp_le_length)

lemma xor_cancel: "a XOR c = b XOR c \<longleftrightarrow> a = (b :: 'a::len word)"
  by (metis xor.assoc xor_self_eq xor.right_neutral)

lemma or_and_absorb: "(x OR m) AND m = (m :: 'a::len word)"
  by (rule bit_word_eqI) (auto simp: bit_simps)

lemma unat_of_nat_small: "n < 2 ^ LENGTH('a) \<Longrightarrow> unat (of_nat n :: 'a::len word) = n"
  by (simp add: unat_of_nat)

lemma drop_nth_step: "i < length xs \<Longrightarrow> Suc i = j \<Longrightarrow> drop i xs = xs ! i # drop j xs"
  by (auto simp: Cons_nth_drop_Suc)

section \<open>Narrowing and widening\<close>

lemma ucast_wi:
  "LENGTH('b) \<le> LENGTH('a) \<Longrightarrow>
    (ucast (word_of_int k :: 'a::len word) :: 'b::len word) = word_of_int k"
  by (rule bit_word_eqI) (simp add: bit_ucast_iff bit_word_of_int_iff)
lemma ucast_down_diff:
  assumes "LENGTH('b) \<le> LENGTH('a)"
  shows "(ucast (x - y :: 'a::len word) :: 'b::len word) = ucast x - ucast y"
proof -
  have "x - y = word_of_int (uint x - uint y)" by simp
  then have "(ucast (x - y) :: 'b word) = word_of_int (uint x - uint y)"
    using ucast_wi [OF assms, of "uint x - uint y"] by simp
  then show ?thesis by simp
qed
lemma ucast_down_up:
  "LENGTH('b) \<le> LENGTH('a) \<Longrightarrow> (ucast (ucast (x :: 'b::len word) :: 'a::len word) :: 'b word) = x"
  by (rule bit_word_eqI) (auto simp add: bit_ucast_iff dest: bit_imp_le_length)

lemma unat_ucast_up:
  "LENGTH('a) \<le> LENGTH('b) \<Longrightarrow> unat (ucast (x :: 'a::len word) :: 'b::len word) = unat x"
proof -
  assume a: "LENGTH('a) \<le> LENGTH('b)"
  have "unat x < 2 ^ LENGTH('a)" by simp
  also have "\<dots> \<le> 2 ^ LENGTH('b)" using a by (intro power_increasing) simp_all
  finally show ?thesis by (simp add: unsigned_ucast_eq take_bit_nat_eq_self)
qed

lemma sint_of_int_small: "- (2 ^ 31) \<le> k \<Longrightarrow> k < 2 ^ 31 \<Longrightarrow> sint (word_of_int k :: 32 word) = k"
  by (simp add: signed_of_int signed_take_bit_int_eq_self)

lemma scast_ucast_small:
  assumes "- (2 ^ 31) \<le> sint d" and "sint d < 2 ^ 31"
  shows "scast (ucast d :: 32 word) = (d :: 64 word)"
proof -
  have "(ucast d :: 32 word) = word_of_int (sint d)"
    using ucast_wi [of "sint d", where 'a=64 and 'b=32] by simp
  then have "sint (ucast d :: 32 word) = sint d"
    using sint_of_int_small [OF assms] by (simp only:)
  then have "(scast (ucast d :: 32 word) :: 64 word) = word_of_int (sint d)"
    by (metis of_int_sint)
  then show ?thesis by simp
qed
section \<open>Clocks in a window of \<open>2 ^ 31\<close> ticks\<close>

lemma unat_lt32: "unat (w :: u32) < 2 ^ 32"
  using unsigned_less [of w] by simp

lemma off_lt: "off b t < 2 ^ 32"
  unfolding off_def by (rule unat_lt32)

lemma sint_neg_unat: "sint (w :: u32) < 0 \<longleftrightarrow> 2 ^ 31 \<le> unat w"
proof -
  have "sint w < 0 \<longleftrightarrow> odd (unat w div 2 ^ 31)"
    using bit_last_iff [of w] bit_unsigned_iff [of w 31, where 'a = nat] by (simp add: bit_iff_odd)
  moreover have "unat w div 2 ^ 31 \<in> {0, 1}"
    using unat_lt32 [of w] by auto
  ultimately show ?thesis by auto
qed

lemma before_off:
  "timer_is_before x y \<longleftrightarrow>
    (off b x < off b y \<and> off b y - off b x \<le> 2 ^ 31) \<or>
    (off b y < off b x \<and> off b x - off b y \<ge> 2 ^ 31)"
proof -
  have d: "x - y = (x - b) - (y - b)" by simp
  have "unat ((x - b) - (y - b)) =
      (if off b y \<le> off b x then off b x - off b y else off b x + 2 ^ 32 - off b y)"
    unfolding off_def unat_sub_if' by simp
  then show ?thesis unfolding timer_is_before_def sint_neg_unat d
    using off_lt [of b x] off_lt [of b y] by auto
qed

lemma before_window:
  "off b x < 2 ^ 31 \<Longrightarrow> off b y < 2 ^ 31 \<Longrightarrow> timer_is_before x y \<longleftrightarrow> off b x < off b y"
  using before_off [of x y b] by auto

lemma off_far: "off b p < 2 ^ 31 \<Longrightarrow> off b (p + 0x80000000) = off b p + 2 ^ 31"
proof -
  assume a: "off b p < 2 ^ 31"
  have "p + 0x80000000 - b = (p - b) + 0x80000000" by simp
  then show ?thesis using a unfolding off_def by (simp only: unat_word_ariths) simp
qed

lemma before_far:
  "off b x < 2 ^ 31 \<Longrightarrow> off b p < 2 ^ 31 \<Longrightarrow>
    timer_is_before x (p + 0x80000000) \<longleftrightarrow> off b p \<le> off b x"
  using before_off [of x "p + 0x80000000" b] by (auto simp: off_far)

lemma before_self [simp]: "\<not> timer_is_before x x"
  by (simp add: timer_is_before_def)

section \<open>Linked lists\<close>

text \<open>\<open>chain nx ts\<close>: following \<^verbatim>\<open>next\<close> from the first node visits exactly \<open>ts\<close>.\<close>

definition chain :: "('n \<Rightarrow> 'n option) \<Rightarrow> 'n list \<Rightarrow> bool" where
  "chain nx ts \<longleftrightarrow> ts \<noteq> [] \<and> map nx ts = map Some (tl ts) @ [None]"

definition links :: "('n \<Rightarrow> 'n option) \<Rightarrow> 'n list \<Rightarrow> 'n \<Rightarrow> bool" where
  "links nx xs y \<longleftrightarrow> map nx xs = map Some (tl (xs @ [y]))"

lemma chain_single [simp]: "chain nx [t] \<longleftrightarrow> nx t = None"
  by (simp add: chain_def)

lemma chain_Cons2 [simp]: "chain nx (t # u # ts) \<longleftrightarrow> nx t = Some u \<and> chain nx (u # ts)"
  by (auto simp: chain_def)

lemma links_simps [simp]:
  "links nx [] y"
  "links nx (x # xs) y \<longleftrightarrow> nx x = Some (hd (xs @ [y])) \<and> links nx xs y"
  by (auto simp: links_def neq_Nil_conv) (cases xs; auto)+

lemma chain_split: "chain nx (xs @ y # ys) \<longleftrightarrow> links nx xs y \<and> chain nx (y # ys)"
proof (induction xs)
  case (Cons x xs)
  then show ?case by (cases xs) auto
qed simp

lemma links_split: "links nx (xs @ x # ys) y \<longleftrightarrow> links nx xs x \<and> links nx (x # ys) y"
  by (induction xs) (auto simp: hd_append)

lemma links_upd [simp]: "t \<notin> set xs \<Longrightarrow> links (nx(t := v)) xs y \<longleftrightarrow> links nx xs y"
  by (simp add: links_def)

lemma chain_upd [simp]: "t \<notin> set xs \<Longrightarrow> chain (nx(t := v)) xs \<longleftrightarrow> chain nx xs"
  by (simp add: chain_def)

lemma chain_cong: "(\<And>x. x \<in> set ns \<Longrightarrow> f x = g x) \<Longrightarrow> chain f ns = chain g ns"
  unfolding chain_def by (metis map_cong)

lemma chain_insert:
  assumes "chain nx (xs @ p # x # ys)" and "distinct (xs @ p # x # ys)"
    and "t \<notin> set (xs @ p # x # ys)"
  shows "chain (nx(t := Some x, p := Some t)) (xs @ p # t # x # ys)"
  using assms by (auto simp: chain_split)

lemma chain_delete:
  assumes "chain nx (xs @ p # d # x # ys)" and "distinct (xs @ p # d # x # ys)"
  shows "chain (nx(p := nx d)) (xs @ p # x # ys)"
  using assms by (auto simp: chain_split)

lemma chain_unique:
  "chain nx xs \<Longrightarrow> chain nx ys \<Longrightarrow> hd xs = hd ys \<Longrightarrow> xs = ys"
proof (induction xs arbitrary: ys)
  case Nil
  then show ?case by (simp add: chain_def)
next
  case (Cons x xs)
  obtain zs where ys: "ys = x # zs" using Cons.prems by (cases ys) (auto simp: chain_def)
  show ?case
  proof (cases xs; cases zs)
    fix a as c cs assume e: "xs = a # as" "zs = c # cs"
    have "a = c" using Cons.prems unfolding ys e by simp
    then show ?thesis using Cons.prems Cons.IH [of zs] unfolding ys e by simp
  qed (use Cons.prems ys in auto)
qed

section \<open>Sorted insertion\<close>

definition insort_after :: "('a \<Rightarrow> nat) \<Rightarrow> 'a \<Rightarrow> 'a list \<Rightarrow> 'a list" where
  "insort_after k t ts = takeWhile (\<lambda>x. k x \<le> k t) ts @ t # dropWhile (\<lambda>x. k x \<le> k t) ts"

lemma insort_after_simps [simp]:
  "insort_after k t [] = [t]"
  "insort_after k t (x # ts) = (if k x \<le> k t then x # insort_after k t ts else t # x # ts)"
  by (simp_all add: insort_after_def)

lemma set_insort_after [simp]: "set (insort_after k t ts) = insert t (set ts)"
  by (induction ts) auto

lemma distinct_insort_after [simp]:
  "distinct (insort_after k t ts) \<longleftrightarrow> t \<notin> set ts \<and> distinct ts"
  by (induction ts) auto

lemma insort_after_not_Nil [simp]: "insort_after k t ts \<noteq> []"
  by (cases ts) simp_all

lemma sorted_insort_after:
  "sorted (map k ts) \<Longrightarrow> sorted (map k (insort_after k t ts))"
  by (induction ts) auto

lemma insort_after_append:
  "\<forall>x\<in>set xs. k x \<le> k t \<Longrightarrow> insort_after k t (xs @ ys) = xs @ insort_after k t ys"
  by (induction xs) auto

lemma last_insort_after:
  "ts \<noteq> [] \<Longrightarrow> k t < k (last ts) \<Longrightarrow> last (insort_after k t ts) = last ts"
  by (induction ts) auto

lemma tl_insort_after: "k (hd ts) \<le> k t \<Longrightarrow> ts \<noteq> [] \<Longrightarrow> insort_after k t ts = hd ts # insort_after k t (tl ts)"
  by (cases ts) simp_all

end
