(* ===== verification/Codec.thy ===== *)
theory Codec
  imports Prelude
begin

text \<open>
  The two interfaces of the wire protocol.  \<open>codec\<close> is what the message layer needs from
  the integer coders: the reader takes back exactly what the writer produced and leaves the
  rest of the input.  \<open>checksum\<close> is what the framing needs from the CRC: a running value
  whose step loses neither the old value nor the byte; \<open>burst_checksum\<close> adds the law for
  two bytes in a row.
\<close>

section \<open>Writers and readers\<close>

fun read_many :: "('b list \<Rightarrow> ('v \<times> 'b list) option) \<Rightarrow> nat \<Rightarrow> 'b list \<Rightarrow> ('v list \<times> 'b list) option"
where
  "read_many dec 0 bs = Some ([], bs)"
| "read_many dec (Suc n) bs =
    (case dec bs of None \<Rightarrow> None
     | Some (v, r) \<Rightarrow> map_option (\<lambda>(vs, r'). (v # vs, r')) (read_many dec n r))"

locale codec =
  fixes enc :: "'v \<Rightarrow> 'b list"
    and dec :: "'b list \<Rightarrow> ('v \<times> 'b list) option"
    and ok :: "'v \<Rightarrow> bool"
  assumes dec_enc: "ok v \<Longrightarrow> dec (enc v @ r) = Some (v, r)"
begin

lemma enc_prefix_free:
  assumes "ok v" and "ok w" and "enc v @ r = enc w @ r'"
  shows "v = w \<and> r = r'"
proof -
  have "Some (v, r) = Some (w, r')"
    by (metis assms dec_enc)
  then show ?thesis by simp
qed

lemma read_many_enc:
  "list_all ok vs \<Longrightarrow> read_many dec (length vs) (concat (map enc vs) @ r) = Some (vs, r)"
  by (induction vs) (simp_all add: dec_enc)

lemma concat_inj:
  assumes "list_all ok vs" and "list_all ok ws" and "length vs = length ws"
    and "concat (map enc vs) @ r = concat (map enc ws) @ r'"
  shows "vs = ws \<and> r = r'"
proof -
  have "Some (vs, r) = Some (ws, r')"
    by (metis assms read_many_enc)
  then show ?thesis by simp
qed

end

section \<open>Running checksums\<close>

locale checksum =
  fixes step :: "'c \<Rightarrow> 'b \<Rightarrow> 'c" and init :: 'c
  assumes step_inj_acc: "step c b = step c' b \<Longrightarrow> c = c'"
    and step_inj_data: "step c b = step c b' \<Longrightarrow> b = b'"
begin

lemma foldl_inj: "foldl step c bs = foldl step c' bs \<Longrightarrow> c = c'"
  by (induction bs arbitrary: c c') (auto dest: step_inj_acc)

lemma change_detected:
  "foldl step init (xs @ a # ys) = foldl step init (xs @ a' # ys) \<Longrightarrow> a = a'"
  by (auto dest!: foldl_inj step_inj_data)

end

locale burst_checksum = checksum +
  assumes step_inj_two: "step (step c a) b = step (step c a') b' \<Longrightarrow> a = a' \<and> b = b'"
begin

lemma burst_detected:
  "foldl step init (xs @ [a, b] @ ys) = foldl step init (xs @ [a', b'] @ ys) \<Longrightarrow>
    a = a' \<and> b = b'"
  by (auto dest!: foldl_inj step_inj_two)

end

end
