(* ===== verification/Vlq.thy ===== *)
theory Vlq
  imports Codec
begin

text \<open>
  Variable length quantities, the integer encoding of the Klipper wire protocol:
  \<^verbatim>\<open>encode_int\<close>, \<^verbatim>\<open>parse_int\<close>, \<^verbatim>\<open>encode_msgid\<close> and
  \<^verbatim>\<open>command_parse_msgid\<close> of the firmware (\<^verbatim>\<open>src/command.c\<close>).  A write through
  the moving pointer \<^verbatim>\<open>p\<close> is the list of bytes written; a read consumes the list of
  bytes that remain, and \<open>None\<close> stands for a read past the end of that list.
\<close>

section \<open>Definitions\<close>

definition encode_int :: "u32 \<Rightarrow> u8 list" where
  "encode_int v =
    (let sv = sint v;
         f4 = [ucast (v AND 0x7f)];
         f3 = (ucast (drop_bit 7 v AND 0x7f) OR 0x80) # f4;
         f2 = (ucast (drop_bit 14 v AND 0x7f) OR 0x80) # f3;
         f1 = (ucast (drop_bit 21 v AND 0x7f) OR 0x80) # f2;
         f0 = (ucast (drop_bit 28 v) OR 0x80) # f1
     in if sv < 3 * 2 ^ 5 \<and> - (2 ^ 5) \<le> sv then f4
        else if sv < 3 * 2 ^ 12 \<and> - (2 ^ 12) \<le> sv then f3
        else if sv < 3 * 2 ^ 19 \<and> - (2 ^ 19) \<le> sv then f2
        else if sv < 3 * 2 ^ 26 \<and> - (2 ^ 26) \<le> sv then f1
        else f0)"

fun parse_loop :: "u8 \<Rightarrow> u32 \<Rightarrow> u8 list \<Rightarrow> (u32 \<times> u8 list) option" where
  "parse_loop c v p =
    (if c AND 0x80 = 0 then Some (v, p)
     else case p of [] \<Rightarrow> None
       | c' # p' \<Rightarrow> parse_loop c' (push_bit 7 v OR ucast (c' AND 0x7f)) p')"

fun parse_int :: "u8 list \<Rightarrow> (u32 \<times> u8 list) option" where
  "parse_int [] = None"
| "parse_int (c # p) =
    (let v = ucast (c AND 0x7f) in
     parse_loop c (if c AND 0x60 = 0x60 then v OR (- 0x20) else v) p)"


definition encode_msgid :: "u16 \<Rightarrow> u8 list" where
  "encode_msgid encoded_msgid =
    (if encoded_msgid \<ge> 0x80 then [ucast (drop_bit 7 encoded_msgid) OR 0x80] else [])
    @ [ucast (encoded_msgid AND 0x7f)]"

fun command_parse_msgid :: "u8 list \<Rightarrow> (u16 \<times> u8 list) option" where
  "command_parse_msgid [] = None"
| "command_parse_msgid (c # p) =
    (if ucast c AND (0x80 :: u16) \<noteq> 0 then
       (case p of [] \<Rightarrow> None
        | c' # p' \<Rightarrow> Some (push_bit 7 (ucast c AND 0x7f) OR ucast c', p'))
     else Some (ucast c, p))"

declare parse_loop.simps [simp del]


lemma sext_small: "- 32 \<le> sint x \<Longrightarrow> sint x < 96 \<Longrightarrow>
   (if x AND 0x60 = 0x60 then (x AND 0x7f) OR - 0x20 else x AND 0x7f) = (x :: u32)"
proof -
  assume a: "- 32 \<le> sint x" "sint x < 96"
  have "\<forall>i\<in>set (map (\<lambda>n. int n - 32) [0..<128]). (let x = word_of_int i :: u32 in 
    (if x AND 0x60 = 0x60 then (x AND 0x7f) OR - 0x20 else x AND 0x7f) = x)"
    by code_simp
  moreover have "sint x \<in> set (map (\<lambda>n. int n - 32) [0..<128])"
    using a by (auto intro: image_eqI [where x = "nat (sint x + 32)"])
  ultimately have "let x = word_of_int (sint x) :: u32 in 
    (if x AND 0x60 = 0x60 then (x AND 0x7f) OR - 0x20 else x AND 0x7f) = x" by blast
  then show ?thesis by simp
qed

lemma shift_in: "n < 25 \<Longrightarrow> push_bit 7 (signed_drop_bit (n + 7) v) OR (drop_bit n v AND 0x7f)
   = signed_drop_bit n (v :: u32)"
  by (rule bit_word_eqI)
    (auto simp: word_bits bit_signed_drop_bit_iff)

lemma sdb_mask: "n + 7 \<le> 32 \<Longrightarrow> drop_bit n v AND 0x7f = signed_drop_bit n v AND (0x7f :: u32)"
  by (rule bit_word_eqI)
    (auto simp: word_bits bit_signed_drop_bit_iff)



lemma cont_byte: 
   "(ucast (x AND 0x7f :: u32) OR 0x80) AND 0x80 \<noteq> (0::u8)"
   "ucast ((ucast (x AND 0x7f) OR 0x80) AND 0x7f :: u8) = (x AND 0x7f :: u32)"
   "((ucast (x AND 0x7f) OR 0x80) AND 0x60 = (0x60::u8)) = (x AND 0x60 = 0x60)"
    by (auto simp: and_hi_bit and60_iff word_bits intro!: bit_word_eqI)

lemma last_byte: 
   "ucast (x AND 0x7f :: u32) AND 0x80 = (0::u8)"
   "ucast (ucast (x AND 0x7f) AND 0x7f :: u8) = (x AND 0x7f :: u32)"
   "(ucast (x AND 0x7f) AND 0x60 = (0x60::u8)) = (x AND 0x60 = 0x60)"
    by (auto simp: and_hi_bit and60_iff word_bits intro!: bit_word_eqI)

lemma bit_28: "\<not> n < 4 \<Longrightarrow> \<not> bit (x :: u32) (28 + n)"
  using bit_imp_le_length [of x "28 + n"] by auto

lemma top_byte: 
   "(ucast (drop_bit 28 x :: u32) OR 0x80) AND 0x80 \<noteq> (0::u8)"
   "ucast ((ucast (drop_bit 28 x) OR 0x80) AND 0x7f :: u8) = (drop_bit 28 x :: u32)"
   "(ucast (drop_bit 28 x :: u32) OR 0x80) AND 0x60 \<noteq> (0x60::u8)"
proof -
  show "(ucast (drop_bit 28 x :: u32) OR 0x80) AND 0x80 \<noteq> (0::u8)"
    by (simp add: and_hi_bit word_bits)
  show "ucast ((ucast (drop_bit 28 x) OR 0x80) AND 0x7f :: u8) = (drop_bit 28 x :: u32)"
  proof (rule bit_word_eqI)
    fix n
    show "bit (ucast ((ucast (drop_bit 28 x) OR 0x80) AND 0x7f :: u8) :: u32) n = bit (drop_bit 28 x) n"
      by (cases "n < 4") (auto simp: word_bits bit_28)
  qed
  show "(ucast (drop_bit 28 x :: u32) OR 0x80) AND 0x60 \<noteq> (0x60::u8)"
    using bit_28 [of 5 x] by (auto simp: and60_iff word_bits)
qed

lemma parse_cont: "c AND 0x80 \<noteq> 0 \<Longrightarrow> parse_loop c v (c' # p) = parse_loop c' (push_bit 7 v OR ucast (c' AND 0x7f)) p"
  by (simp add: parse_loop.simps)

lemma parse_last: "c AND 0x80 = 0 \<Longrightarrow> parse_loop c v p = Some (v, p)"
  by (simp add: parse_loop.simps)

lemma range_div: 
  assumes "- (32 * 2 ^ k) \<le> sint (v :: u32)" "sint v < 96 * 2 ^ k"
  shows "-32 \<le> sint (signed_drop_bit k v)" "sint (signed_drop_bit k v) < 96"
proof -
  have "-32 = ((- 32) * 2 ^ k) div (2 ^ k :: int)" by (subst nonzero_mult_div_cancel_right) simp_all
  also have "\<dots> \<le> sint v div 2 ^ k" using assms(1) by (intro zdiv_mono1) simp_all
  finally show "-32 \<le> sint (signed_drop_bit k v)" 
     by (simp add: sint_signed_drop_bit_eq drop_bit_eq_div)
  have "sint v div 2 ^ k * 2 ^ k \<le> sint v"
    by (simp flip: minus_mod_eq_div_mult)
  with assms(2) have "sint v div 2 ^ k * 2 ^ k < 96 * 2 ^ k" by linarith
  then have "sint v div 2 ^ k < 96" by simp
  then show "sint (signed_drop_bit k v) < 96"
    by (simp add: sint_signed_drop_bit_eq drop_bit_eq_div)
qed

lemma parse_one_byte: 
  assumes "- 32 \<le> sint (v :: u32)" "sint v < 96"
  shows "parse_int (ucast (v AND 0x7f) # r) = Some (v, r)"
  using sext_small [OF assms] by (simp only: parse_int.simps Let_def last_byte parse_last)

lemma lead_byte: 
  assumes "- (32 * 2 ^ k) \<le> sint (v :: u32)" "sint v < 96 * 2 ^ k" "k + 7 \<le> 32"
  shows "parse_int ((ucast (drop_bit k v AND 0x7f) OR 0x80) # p)
   = parse_loop (ucast (drop_bit k v AND 0x7f) OR 0x80) (signed_drop_bit k v) p"
proof -
  let ?x = "signed_drop_bit k v"
  have "(if ?x AND 0x60 = 0x60 then (?x AND 0x7f) OR - 0x20 else ?x AND 0x7f) = ?x"
    by (rule sext_small [OF range_div [OF assms(1,2)]])
  then show ?thesis
    by (simp only: parse_int.simps cont_byte Let_def sdb_mask [OF assms(3)])
qed

lemma mid_byte: "n < 25 \<Longrightarrow> c AND 0x80 \<noteq> 0 \<Longrightarrow> parse_loop c (signed_drop_bit (n + 7) v) ((ucast (drop_bit n v AND 0x7f :: u32) OR 0x80) # p)
  = parse_loop (ucast (drop_bit n v AND 0x7f) OR 0x80) (signed_drop_bit n v) p"
  by (simp add: parse_cont cont_byte shift_in)

lemma end_byte: "c AND 0x80 \<noteq> 0 \<Longrightarrow> parse_loop c (signed_drop_bit 7 v) (ucast (v AND 0x7f :: u32) # p)
  = Some (v, p)"
  using shift_in [of 0 v] by (simp add: parse_cont parse_last last_byte )

lemma first_of_five: "parse_int ((ucast (drop_bit 28 v :: u32) OR 0x80) # p) = parse_loop (ucast (drop_bit 28 v) OR 0x80) (drop_bit 28 v) p"
  by (simp only: parse_int.simps top_byte Let_def if_False)

lemma second_of_five: "push_bit 7 (drop_bit 28 v) OR (drop_bit 21 v AND 0x7f) = (drop_bit 21 v :: u32)"
  "push_bit 7 (drop_bit 21 v) OR (drop_bit 14 v AND 0x7f) = (drop_bit 14 v :: u32)"
  "push_bit 7 (drop_bit 14 v) OR (drop_bit 7 v AND 0x7f) = (drop_bit 7 v :: u32)"
  "push_bit 7 (drop_bit 7 v) OR (v AND 0x7f) = (v :: u32)"
  by (rule bit_word_eqI, auto simp: word_bits)+

lemmas mid_bytes = mid_byte [of 7, simplified] mid_byte [of 14, simplified]

declare parse_int.simps(2) [simp del]

lemma parse_encode_int: "parse_int (encode_int v @ r) = Some (v, r)"
proof -
  have 5: "parse_int ([ucast (drop_bit 28 v) OR 0x80, ucast (drop_bit 21 v AND 0x7f) OR 0x80, 
    ucast (drop_bit 14 v AND 0x7f) OR 0x80, ucast (drop_bit 7 v AND 0x7f) OR 0x80, ucast (v AND 0x7f)] @ r) = Some (v, r)"
    unfolding append_Cons append_Nil first_of_five parse_cont [OF top_byte(1)] cont_byte second_of_five
    parse_cont [OF cont_byte(1)] last_byte 
   by (simp add: parse_last [OF last_byte(1)])
  have 4: "parse_int ([ucast (drop_bit 21 v AND 0x7f) OR 0x80, 
    ucast (drop_bit 14 v AND 0x7f) OR 0x80, ucast (drop_bit 7 v AND 0x7f) OR 0x80, ucast (v AND 0x7f)] @ r) = Some (v, r)"
    if "sint v < 3 * 2 ^ 26" "- (2 ^ 26) \<le> sint v"
    using that by (simp add: lead_byte mid_bytes end_byte cont_byte(1))
  have 3: "parse_int ([ucast (drop_bit 14 v AND 0x7f) OR 0x80, ucast (drop_bit 7 v AND 0x7f) OR 0x80, ucast (v AND 0x7f)] @ r) = Some (v, r)"
    if "sint v < 3 * 2 ^ 19" "- (2 ^ 19) \<le> sint v"
    using that by (simp add: lead_byte mid_bytes end_byte cont_byte(1))
  have 2: "parse_int ([ucast (drop_bit 7 v AND 0x7f) OR 0x80, ucast (v AND 0x7f)] @ r) = Some (v, r)"
    if "sint v < 3 * 2 ^ 12" "- (2 ^ 12) \<le> sint v"
    using that by (simp add: lead_byte end_byte cont_byte(1))
  have 1: "parse_int ([ucast (v AND 0x7f)] @ r) = Some (v, r)"
    if "sint v < 3 * 2 ^ 5" "- (2 ^ 5) \<le> sint v"
    using that parse_one_byte [of v r] by simp
  show ?thesis unfolding encode_int_def Let_def
    using 1 2 3 4 5 by (simp only: split: if_split) blast
qed

lemma parse_encode_msgid: assumes "m < 0x4000" shows "command_parse_msgid (encode_msgid m @ r) = Some (m, r)"
proof -
  have hi: "\<not> bit m (14 + n)" for n
  proof -
    have "m = take_bit 14 m" using assms less_mask_eq [of m 14]
      by (simp add: take_bit_eq_mask)
    then show ?thesis by (metis bit_take_bit_iff not_add_less1)
  qed
  show ?thesis
  proof (cases "m \<ge> 0x80")
    case True
    have "bit (ucast (ucast (drop_bit 7 m) OR 0x80 :: u8) :: u16) 7" by (simp add: word_bits)
    moreover have "push_bit 7 (ucast (ucast (drop_bit 7 m) OR 0x80 :: u8) AND 0x7f) OR ucast (ucast (m AND 0x7f) :: u8) = m"
    proof (rule bit_word_eqI)
      fix n :: nat
      show "bit (push_bit 7 (ucast (ucast (drop_bit 7 m) OR 0x80 :: u8) AND 0x7f) OR ucast (ucast (m AND 0x7f) :: u8) :: u16) n = bit m n"
       using hi [of "n - 14"] unfolding word_bits by (cases "n < 14") auto
    qed
    ultimately show ?thesis using True by (simp add: encode_msgid_def and_hi_bit)
  next
    case False
    then have e: "m = take_bit 7 m" using less_mask_eq [of m 7]
      by (simp add: take_bit_eq_mask not_le)
    have lo: "\<not> bit m (7 + n)" for n using e by (metis bit_take_bit_iff not_add_less1)
    have "ucast (ucast (m AND 0x7f) :: u8) = m"
    proof (rule bit_word_eqI)
      fix n :: nat
      show "bit (ucast (ucast (m AND 0x7f) :: u8) :: u16) n = bit m n"
       using lo [of "n - 7"] by (cases "n < 7") (auto simp: word_bits)
    qed
    with False lo [of 0] show ?thesis
       by (simp add: encode_msgid_def and_hi_bit)
  qed
qed

lemma encode_int_bytes: "\<exists>bs b. encode_int v = bs @ [b] \<and> length bs \<le> 4 \<and> (\<forall>c\<in>set bs. bit c 7) \<and> \<not> bit b 7"
proof -
  show ?thesis unfolding encode_int_def Let_def 
   by (auto simp: word_bits)
qed

lemma parse_loop_shorter: "parse_loop c v p = Some (w, r) \<Longrightarrow> length r \<le> length p"
proof (induction p arbitrary: c v)
  case Nil
  then show ?case by (simp add: parse_loop.simps split: if_splits)
next
  case (Cons d p)
  then show ?case by (fastforce simp: parse_loop.simps [of c] split: if_splits)
qed

lemma parse_int_shorter: "parse_int p = Some (v, r) \<Longrightarrow> length r < length p"
  by (cases p) (auto simp: parse_int.simps Let_def less_Suc_eq_le dest: parse_loop_shorter)

lemma parse_msgid_shorter: "command_parse_msgid p = Some (m, r) \<Longrightarrow> length r < length p"
  by (cases p) (auto split: if_splits list.splits)

lemma encode_msgid_not_Nil [simp]: "encode_msgid m \<noteq> []"
  by (simp add: encode_msgid_def)

section \<open>The ids of the data dictionary\<close>

text \<open>
  The id under which the data dictionary lists a message, and by which the host finds its format
  (\<^verbatim>\<open>convert_encoded_msgid\<close> of \<^verbatim>\<open>scripts/buildcommands.py\<close>): the signed number with these low 7 or
  14 bits.
\<close>

definition dictionary_msgid :: "u16 \<Rightarrow> u32" where
  "dictionary_msgid encoded_msgid =
    (let e = uint encoded_msgid in
     word_of_int (if e < 0x60 then e else if e < 0x80 then e - 0x80 else if e < 0x3000 then e else e - 0x4000))"

lemma first_byte:
  assumes "h < 128" and "c = of_nat h \<or> c = of_nat h OR (0x80 :: u8)"
  shows "(if c AND 0x60 = 0x60 then ucast (c AND 0x7f) OR - 0x20 else ucast (c AND 0x7f)) =
    (word_of_int (if h < 96 then int h else int h - 128) :: u32)"
proof -
  have "\<forall>h\<in>set [0..<128]. \<forall>c\<in>set [of_nat h, of_nat h OR (0x80 :: u8)].
    (if c AND 0x60 = 0x60 then ucast (c AND 0x7f) OR - 0x20 else ucast (c AND 0x7f)) =
    (word_of_int (if h < 96 then int h else int h - 128) :: u32)"
    by code_simp
  moreover have "h \<in> set [0..<128]" "c \<in> set [of_nat h, of_nat h OR (0x80 :: u8)]" using assms by simp_all
  ultimately show ?thesis by blast
qed

lemma next_byte:
  assumes "l < 128"
  shows "ucast ((of_nat l :: u8) AND 0x7f) = (of_nat l :: u32)" "(of_nat l :: u8) AND 0x80 = 0" "(of_nat l OR 0x80 :: u8) AND 0x80 \<noteq> 0"
proof -
  have "\<forall>l\<in>set [0..<128]. ucast ((of_nat l :: u8) AND 0x7f) = (of_nat l :: u32) \<and> (of_nat l :: u8) AND 0x80 = 0 \<and>
      (of_nat l OR 0x80 :: u8) AND 0x80 \<noteq> 0" by code_simp
  then show "ucast ((of_nat l :: u8) AND 0x7f) = (of_nat l :: u32)" "(of_nat l :: u8) AND 0x80 = 0" "(of_nat l OR 0x80 :: u8) AND 0x80 \<noteq> 0"
    using assms by simp_all
qed

lemma shifted_or_low: "l < 128 \<Longrightarrow> push_bit 7 (x :: u32) OR of_nat l = x * 128 + of_nat l"
proof -
  assume l: "l < 128"
  have "(push_bit 7 x AND of_nat l) = 0"
  proof (rule bit_word_eqI)
    fix n
    have "l = take_bit 7 l" using l by (simp add: take_bit_eq_mod)
    then have "\<not> bit l n" if "n \<ge> 7" using that by (metis bit_take_bit_iff not_less)
    then show "bit (push_bit 7 x AND of_nat l) n = bit 0 n" by (auto simp: word_bits bit_of_nat_iff)
  qed
  then have "push_bit 7 x OR of_nat l = push_bit 7 x + of_nat l" by (simp add: disjunctive_add_eq_or)
  then show ?thesis by (simp add: push_bit_eq_mult)
qed

lemma parse_dictionary_msgid:
  assumes "m < 0x4000"
  shows "parse_int (encode_msgid m) = Some (dictionary_msgid m, [])"
proof -
  define h l where "h = unat m div 128" and "l = unat m mod 128"
  have m: "unat m = h * 128 + l" "h < 128" "l < 128"
    using assms by (simp_all add: h_def l_def word_less_nat_alt div_less_iff_less_mult)
  have u: "uint m = int h * 128 + int l" using arg_cong [OF m(1), of int] by simp
  have low: "m AND 0x7f = take_bit 7 m" by (simp add: take_bit_eq_mask mask_eq_exp_minus_1)
  have "unat (m AND 0x7f) = l" unfolding low unsigned_take_bit_eq l_def by (simp add: take_bit_eq_mod)
  moreover have "unat (drop_bit 7 m) = h" unfolding unat_drop_bit_eq h_def by (simp add: drop_bit_eq_div)
  ultimately have lo: "ucast (m AND 0x7f) = (of_nat l :: u8)" and hi: "ucast (drop_bit 7 m) = (of_nat h :: u8)"
    by (metis of_nat_unat)+
  show ?thesis
  proof (cases "m \<ge> 0x80")
    case True
    then have h: "1 \<le> h" using m by (simp add: word_le_nat_alt)
    have "parse_int (encode_msgid m) = Some (push_bit 7 (word_of_int (if h < 96 then int h else int h - 128)) OR of_nat l, [])"
    proof -
      have e: "encode_msgid m = [of_nat h OR 0x80, of_nat l]" using True by (simp add: encode_msgid_def lo hi)
      show ?thesis
        unfolding e parse_int.simps Let_def first_byte [OF m(2) disjI2 [OF refl]] parse_cont [OF next_byte(3) [OF m(2)]]
          parse_last [OF next_byte(2) [OF m(3)]] next_byte(1) [OF m(3)] ..
    qed
    also have "push_bit 7 (word_of_int (if h < 96 then int h else int h - 128)) OR of_nat l = dictionary_msgid m"
      unfolding shifted_or_low [OF m(3)] using h m(3) by (simp add: dictionary_msgid_def u Let_def)
    finally show ?thesis .
  next
    case False
    then have h: "h = 0" using m by (simp add: word_le_nat_alt)
    have "parse_int (encode_msgid m) = Some (word_of_int (if l < 96 then int l else int l - 128), [])"
    proof -
      have e: "encode_msgid m = [of_nat l]" using False by (simp add: encode_msgid_def lo)
      show ?thesis
        unfolding e parse_int.simps Let_def first_byte [OF m(3) disjI1 [OF refl]] parse_last [OF next_byte(2) [OF m(3)]] ..
    qed
    then show ?thesis using m(3) by (simp add: dictionary_msgid_def u h Let_def)
  qed
qed

text \<open>
  Different messages have different ids, up to the last 32 of the 14-bit numbers, whose ids are those of the
  one byte forms from \<open>0x60\<close> on.
\<close>

lemma dictionary_msgid_collides: "dictionary_msgid 0x60 = dictionary_msgid 0x3fe0"
  by (simp add: dictionary_msgid_def)

lemma dictionary_msgid_inj:
  assumes "m < 0x3fe0" and "k < 0x3fe0" and "dictionary_msgid m = dictionary_msgid k"
  shows "m = k"
proof -
  let ?v = "\<lambda>e. if e < 0x60 then e else if e < 0x80 then e - 0x80 else if e < 0x3000 then e else e - (0x4000 :: int)"
  have r: "0 \<le> uint m" "uint m < 0x3fe0" "0 \<le> uint k" "uint k < 0x3fe0" using assms(1,2) by (simp_all add: word_less_def)
  have v: "- (2 ^ 31) \<le> ?v e" "?v e < 2 ^ 31" if "0 \<le> e" "e < 0x3fe0" for e using that by auto
  have "word_of_int (?v (uint m)) = (word_of_int (?v (uint k)) :: u32)" using assms(3) by (simp add: dictionary_msgid_def Let_def)
  then have "sint (word_of_int (?v (uint m)) :: u32) = sint (word_of_int (?v (uint k)) :: u32)" by (rule arg_cong)
  then have "?v (uint m) = ?v (uint k)"
    by (simp only: sint_of_int_small [OF v [OF r(1,2)]] sint_of_int_small [OF v [OF r(3,4)]])
  moreover have "?v a = ?v b \<Longrightarrow> 0 \<le> a \<Longrightarrow> a < 0x3fe0 \<Longrightarrow> 0 \<le> b \<Longrightarrow> b < 0x3fe0 \<Longrightarrow> a = b" for a b
    by (auto split: if_splits)
  ultimately have "uint m = uint k" using r by blast
  then show ?thesis by (simp only: word_uint_eq_iff)
qed

section \<open>The coders satisfy the codec interface\<close>

interpretation vlq: codec encode_int parse_int "\<lambda>_. True"
  by unfold_locales (rule parse_encode_int)

interpretation msgid: codec encode_msgid command_parse_msgid "\<lambda>m. m < 0x4000"
  by unfold_locales (rule parse_encode_msgid)

end
