(* ===== verification/Crc16.thy ===== *)
theory Crc16
  imports Codec
begin

text \<open>
  The CRC-16 of the wire protocol: \<^verbatim>\<open>crc16_ccitt\<close> of
  \<^verbatim>\<open>src/generic/crc16_ccitt.c\<close> and its copy \<^verbatim>\<open>msgblock_crc16_ccitt\<close> in
  \<^verbatim>\<open>klippy/chelper/msgblock.c\<close>.  The loop over the buffer is a fold of one step.  The
  step is injective in the running value and in the byte, so a change of one byte always
  changes the checksum.
\<close>

section \<open>Definitions\<close>

definition crc_step :: "u16 \<Rightarrow> u8 \<Rightarrow> u16" where
  "crc_step crc d =
    (let data = d XOR ucast (crc AND 0xff);
         data = data XOR push_bit 4 data
     in (push_bit 8 (ucast data) OR drop_bit 8 crc) XOR ucast (drop_bit 4 data)
         XOR push_bit 3 (ucast data))"

definition crc16_ccitt :: "u8 list \<Rightarrow> u16" where
  "crc16_ccitt buf = foldl crc_step 0xffff buf"

text \<open>The copy of the checksum in the host library \<^verbatim>\<open>msgblock.c\<close>.\<close>

fun msgblock_crc_loop :: "u16 \<Rightarrow> u8 list \<Rightarrow> u16" where
  "msgblock_crc_loop crc [] = crc"
| "msgblock_crc_loop crc (d # buf) =
    (let data = d XOR ucast (crc AND 0xff);
         data = data XOR push_bit 4 data
     in msgblock_crc_loop ((push_bit 8 (ucast data) OR drop_bit 8 crc)
          XOR ucast (drop_bit 4 data) XOR push_bit 3 (ucast data)) buf)"

definition msgblock_crc16_ccitt :: "u8 list \<Rightarrow> u16" where
  "msgblock_crc16_ccitt buf = msgblock_crc_loop 0xffff buf"

text \<open>
  The two byte permutations the step is made of: \<open>mixb\<close> is \<^verbatim>\<open>data ^= data << 4\<close>,
  and \<open>hib\<close> is what the step leaves in the upper byte.
\<close>

definition mixb :: "u8 \<Rightarrow> u8" where
  "mixb d = d XOR push_bit 4 d"

definition hib :: "u8 \<Rightarrow> u8" where
  "hib d = d XOR drop_bit 5 d"

section \<open>The step is injective\<close>

lemma mixb_inv: "mixb (mixb d) = d"
  unfolding mixb_def by (rule bit_word_eqI) (auto simp: bit_xor_iff bit_push_bit_iff)

lemma hib_inv: "hib (hib d) = d"
  unfolding hib_def
  by (rule bit_word_eqI) (auto simp: bit_xor_iff bit_drop_bit_eq dest: bit_imp_le_length)

lemma crc_low_byte: "ucast (crc AND 0xff :: u16) = (ucast crc :: u8)"
  by (rule bit_word_eqI) (auto simp: bit_and_iff bit_ucast_iff)

lemma crc_step_hi: "ucast (drop_bit 8 (crc_step crc a)) = hib (mixb (a XOR ucast crc))"
  unfolding crc_step_def Let_def mixb_def [symmetric] hib_def crc_low_byte
  by (intro bit_word_eqI) (auto simp: bit_xor_iff word_bits dest: bit_imp_le_length)

lemma crc_step_lo: "crc_step crc a = crc_step crc' b \<Longrightarrow> a XOR ucast crc = b XOR ucast crc'"
  by (metis crc_step_hi hib_inv mixb_inv)

lemma crc_step_upper:
  assumes "crc_step crc a = crc_step crc' b"
  shows "drop_bit 8 crc = drop_bit 8 crc'"
proof -
  let ?d = "mixb (b XOR ucast crc')"
  have eq: "push_bit 8 (ucast ?d) OR drop_bit 8 crc = push_bit 8 (ucast ?d) OR drop_bit 8 crc'"
    using assms unfolding crc_step_def Let_def mixb_def [symmetric] crc_low_byte
      crc_step_lo [OF assms] xor_cancel .
  show ?thesis
  proof (rule bit_word_eqI)
    fix n :: nat
    show "bit (drop_bit 8 crc) n = bit (drop_bit 8 crc') n"
      using arg_cong [OF eq, of "\<lambda>w. bit w n"] bit_imp_le_length [of crc "8 + n"]
        bit_imp_le_length [of crc' "8 + n"]
      by (cases "n < 8") (auto simp: word_bits)
  qed
qed

lemma crc_step_inj_data: "crc_step crc a = crc_step crc b \<Longrightarrow> a = b"
  by (drule crc_step_lo) (simp add: xor_cancel)

lemma word16_split: "drop_bit 8 c = drop_bit 8 c' \<Longrightarrow> (ucast c :: u8) = ucast c' \<Longrightarrow> c = (c' :: u16)"
proof (rule bit_word_eqI)
  fix n :: nat
  assume hi: "drop_bit 8 c = drop_bit 8 c'" and lo: "(ucast c :: u8) = ucast c'"
  show "bit c n = bit c' n"
    using arg_cong [OF hi, of "\<lambda>w. bit w (n - 8)"] arg_cong [OF lo, of "\<lambda>w. bit w n"]
    by (cases "n < 8") (auto simp: word_bits)
qed

lemma crc_step_inj_crc: "crc_step crc a = crc_step crc' a \<Longrightarrow> crc = crc'"
  by (metis crc_step_lo crc_step_upper word16_split xor.commute xor_cancel)

lemma crc_two_bytes_inj:
  assumes "crc_step (crc_step crc a) b = crc_step (crc_step crc a') b'"
  shows "a = a' \<and> b = b'"
proof -
  from crc_step_upper [OF assms]
  have "(ucast (drop_bit 8 (crc_step crc a)) :: u8) = ucast (drop_bit 8 (crc_step crc a'))"
    by simp
  then have "a = a'" by (metis crc_step_hi hib_inv mixb_inv xor_cancel)
  with assms show ?thesis by (auto dest: crc_step_inj_data)
qed

interpretation crc: burst_checksum crc_step "0xffff"
  by unfold_locales (fact crc_step_inj_crc crc_step_inj_data crc_two_bytes_inj)+

lemma crc_burst_detected:
  assumes "crc16_ccitt (xs @ [a, b] @ ys) = crc16_ccitt (xs @ [a', b'] @ ys)"
  shows "a = a' \<and> b = b'"
  using assms unfolding crc16_ccitt_def by (rule crc.burst_detected)

lemma crc_byte_detected:
  "crc16_ccitt (xs @ a # ys) = crc16_ccitt (xs @ a' # ys) \<Longrightarrow> a = a'"
  unfolding crc16_ccitt_def by (rule crc.change_detected)

section \<open>The two copies agree\<close>

lemma msgblock_crc_loop_foldl: "msgblock_crc_loop crc bs = foldl crc_step crc bs"
  by (induction crc bs rule: msgblock_crc_loop.induct) (simp_all add: crc_step_def Let_def)

lemma msgblock_crc16_eq [simp]: "msgblock_crc16_ccitt = crc16_ccitt"
  by (rule ext) (simp add: msgblock_crc16_ccitt_def crc16_ccitt_def msgblock_crc_loop_foldl)

end
