(* ===== verification/Board.thy ===== *)
theory Board
  imports Prelude
begin

text \<open>
  The environment of the firmware: the hardware clock, the input and output pins and the
  console link, as the board interface of \<^verbatim>\<open>src/generic/misc.h\<close>,
  \<^verbatim>\<open>src/generic/gpio.h\<close> and \<^verbatim>\<open>src/command.h\<close> presents them.  The clock and
  the input pins are read through counters into arbitrary sequences, so that two reads may
  differ in any way; the transmitted messages are kept in order.  \<^verbatim>\<open>command_sendf\<close> and
  \<^verbatim>\<open>sendf_shutdown\<close> of \<^verbatim>\<open>src/command.c\<close> are modelled here, because every
  component sends through them.
\<close>

datatype msg_arg = A_int u32 | A_bytes "u8 list"

type_synonym message = "string \<times> msg_arg list"

record board =
  bd_freq :: u32
  bd_kicks :: nat
  bd_ptr :: nat
  bd_pool :: nat
  bd_clock :: "nat \<Rightarrow> u32"
  bd_clock_reads :: nat
  bd_inputs :: "u32 \<Rightarrow> nat \<Rightarrow> u8"
  bd_input_reads :: nat
  bd_outputs :: "u32 \<Rightarrow> bool"
  bd_pin_ok :: "u32 \<Rightarrow> bool"
  bd_console :: "message list"
  bd_in_sendf :: u8

text \<open>A board with a free-running clock, all inputs low and nothing sent, for examples.\<close>

definition idle_board :: board where
  "idle_board = \<lparr>bd_freq = 16000000, bd_kicks = 0, bd_ptr = 4, bd_pool = 0x1000, bd_clock = (\<lambda>n. of_nat (100 * n)), bd_clock_reads = 0, bd_inputs = (\<lambda>_ _. 0),
    bd_input_reads = 0, bd_outputs = (\<lambda>_. False), bd_pin_ok = (\<lambda>_. True), bd_console = [],
    bd_in_sendf = 0\<rparr>"

section \<open>Clock and pins\<close>

definition timer_read_time :: "('a board_scheme, u32) fw" where
  "timer_read_time s =
    (Inr (bd_clock s (bd_clock_reads s)), s\<lparr>bd_clock_reads := Suc (bd_clock_reads s)\<rparr>)"

text \<open>
  \<^verbatim>\<open>timer_from_us\<close> multiplies by the clock frequency in MHz, a constant of the build;
  \<^verbatim>\<open>timer_kick\<close> makes the board raise its timer interrupt again.
\<close>

definition timer_from_us :: "u32 \<Rightarrow> 'a board_scheme \<Rightarrow> u32" where
  "timer_from_us us s = us * (bd_freq s div 1000000)"

definition timer_kick :: "('a board_scheme, unit) fw" where
  "timer_kick = upd (\<lambda>s. s\<lparr>bd_kicks := Suc (bd_kicks s)\<rparr>)"

definition gpio_in_read :: "u32 \<Rightarrow> ('a board_scheme, u8) fw" where
  "gpio_in_read pin s =
    (Inr (bd_inputs s pin (bd_input_reads s)), s\<lparr>bd_input_reads := Suc (bd_input_reads s)\<rparr>)"

definition gpio_out_write :: "u32 \<Rightarrow> bool \<Rightarrow> ('a board_scheme, unit) fw" where
  "gpio_out_write pin val = upd (\<lambda>s. s\<lparr>bd_outputs := (bd_outputs s)(pin := val)\<rparr>)"

definition gpio_out_toggle :: "u32 \<Rightarrow> ('a board_scheme, unit) fw" where
  "gpio_out_toggle pin = upd (\<lambda>s. s\<lparr>bd_outputs := (bd_outputs s)(pin := \<not> bd_outputs s pin)\<rparr>)"

definition gpio_out_setup :: "u32 \<Rightarrow> bool \<Rightarrow> ('a board_scheme, u32) fw" where
  "gpio_out_setup pin val =
    bnd (gets (\<lambda>s. bd_pin_ok s pin)) (\<lambda>ok.
    thn (shutdown_if (\<not> ok) ''Not an output pin'')
    (thn (gpio_out_write pin val) (ret pin)))"

definition gpio_in_setup :: "u32 \<Rightarrow> u32 \<Rightarrow> ('a board_scheme, u32) fw" where
  "gpio_in_setup pin pull_up =
    bnd (gets (\<lambda>s. bd_pin_ok s pin)) (\<lambda>ok.
    thn (shutdown_if (\<not> ok) ''Not a valid input pin'') (ret pin))"

section \<open>Dynamic memory\<close>

text \<open>
  The memory pool of \<^verbatim>\<open>src/generic/alloc.c\<close>: 20 KB at the address \<open>bd_pool\<close>;
  \<open>bd_ptr\<close> is the size and alignment of a pointer.
\<close>

definition dynmem_start :: "'a board_scheme \<Rightarrow> nat" where
  "dynmem_start s = bd_pool s"

definition dynmem_end :: "'a board_scheme \<Rightarrow> nat" where
  "dynmem_end s = bd_pool s + 20 * 1024"

definition ALIGN :: "nat \<Rightarrow> nat \<Rightarrow> nat" where
  "ALIGN x a = (x + a - 1) div a * a"

section \<open>Console output\<close>

text \<open>\<^verbatim>\<open>console_sendf\<close> is the board's transmit routine.\<close>

definition console_sendf :: "message \<Rightarrow> 'a board_scheme \<Rightarrow> 'a board_scheme" where
  "console_sendf m s = s\<lparr>bd_console := bd_console s @ [m]\<rparr>"

definition command_sendf :: "message \<Rightarrow> 'a board_scheme \<Rightarrow> 'a board_scheme" where
  "command_sendf m s =
    (if bd_in_sendf s \<noteq> 0 then s
     else (let s1 = s\<lparr>bd_in_sendf := 1\<rparr>;
               s2 = console_sendf m s1
           in s2\<lparr>bd_in_sendf := 0\<rparr>))"

definition sendf_shutdown :: "'a board_scheme \<Rightarrow> 'a board_scheme" where
  "sendf_shutdown s = s\<lparr>bd_in_sendf := 0\<rparr>"

definition sendf :: "string \<Rightarrow> msg_arg list \<Rightarrow> ('a board_scheme, unit) fw" where
  "sendf fmt args = upd (command_sendf (fmt, args))"

text \<open>Sending leaves everything but the console unchanged, and never queues two messages.\<close>

lemma command_sendf_idle:
  "bd_in_sendf s = 0 \<Longrightarrow> command_sendf m s = s\<lparr>bd_console := bd_console s @ [m]\<rparr>"
  by (simp add: command_sendf_def console_sendf_def Let_def)

lemma command_sendf_busy: "bd_in_sendf s \<noteq> 0 \<Longrightarrow> command_sendf m s = s"
  by (simp add: command_sendf_def)

lemma command_sendf_fields [simp]:
  "bd_in_sendf (command_sendf m s) = bd_in_sendf s"
  "bd_outputs (command_sendf m s) = bd_outputs s"
  "bd_clock (command_sendf m s) = bd_clock s"
  "bd_clock_reads (command_sendf m s) = bd_clock_reads s"
  "board.more (command_sendf m s) = board.more s"
  by (simp_all add: command_sendf_def console_sendf_def Let_def)

lemma timer_read_time_run [fw_simps]:
  "timer_read_time s =
    (Inr (bd_clock s (bd_clock_reads s)), s\<lparr>bd_clock_reads := Suc (bd_clock_reads s)\<rparr>)"
  by (simp add: timer_read_time_def)

lemma gpio_in_read_run [fw_simps]:
  "gpio_in_read pin s =
    (Inr (bd_inputs s pin (bd_input_reads s)), s\<lparr>bd_input_reads := Suc (bd_input_reads s)\<rparr>)"
  by (simp add: gpio_in_read_def)

lemmas board_run [fw_simps] = timer_kick_def gpio_out_write_def gpio_out_toggle_def gpio_out_setup_def
  gpio_in_setup_def sendf_def

end
