(* ===== verification/Command.thy ===== *)
theory Command
  imports Vlq Crc16 Board
begin

text \<open>
  Message blocks of the firmware side (\<^verbatim>\<open>src/command.c\<close>): encoding of outgoing
  messages, parsing of incoming parameters, framing, and the search for the next message
  block in the receive buffer.  A buffer is the list of its bytes and a pointer into it an
  index.  \<open>None\<close> is undefined behaviour of C (a read or a write outside the buffer, a
  vararg of the wrong kind); \<open>Inl\<close> is a shutdown.
\<close>

section \<open>Constants and types\<close>

definition MESSAGE_MIN :: nat where "MESSAGE_MIN = 5"
definition MESSAGE_MAX :: nat where "MESSAGE_MAX = 64"
definition MESSAGE_HEADER_SIZE :: nat where "MESSAGE_HEADER_SIZE = 2"
definition MESSAGE_TRAILER_SIZE :: nat where "MESSAGE_TRAILER_SIZE = 3"
definition MESSAGE_POS_LEN :: nat where "MESSAGE_POS_LEN = 0"
definition MESSAGE_POS_SEQ :: nat where "MESSAGE_POS_SEQ = 1"
definition MESSAGE_TRAILER_CRC :: nat where "MESSAGE_TRAILER_CRC = 3"
definition MESSAGE_TRAILER_SYNC :: nat where "MESSAGE_TRAILER_SYNC = 1"
definition MESSAGE_PAYLOAD_MAX :: nat where "MESSAGE_PAYLOAD_MAX = MESSAGE_MAX - MESSAGE_MIN"
definition MESSAGE_SEQ_MASK :: u8 where "MESSAGE_SEQ_MASK = 0x0f"
definition MESSAGE_DEST :: u8 where "MESSAGE_DEST = 0x10"
definition MESSAGE_SYNC :: u8 where "MESSAGE_SYNC = 0x7E"

lemmas message_consts = MESSAGE_MIN_def MESSAGE_MAX_def MESSAGE_HEADER_SIZE_def
  MESSAGE_TRAILER_SIZE_def MESSAGE_POS_LEN_def MESSAGE_POS_SEQ_def MESSAGE_TRAILER_CRC_def
  MESSAGE_TRAILER_SYNC_def MESSAGE_PAYLOAD_MAX_def MESSAGE_SEQ_MASK_def MESSAGE_DEST_def
  MESSAGE_SYNC_def

datatype ptype = PT_uint32 | PT_int32 | PT_uint16 | PT_int16 | PT_byte
  | PT_string | PT_progmem_buffer | PT_buffer

fun is_int_ptype :: "ptype \<Rightarrow> bool" where
  "is_int_ptype PT_string = False"
| "is_int_ptype PT_progmem_buffer = False"
| "is_int_ptype PT_buffer = False"
| "is_int_ptype _ = True"

record command_encoder =
  ce_encoded_msgid :: u16
  ce_max_size :: nat
  ce_param_types :: "ptype list"

datatype varg = VA_int u32 | VA_str "u8 list" | VA_buf u32 "u8 list"

section \<open>Encoding a message\<close>

text \<open>Store bytes at an index; \<open>None\<close> when they do not fit the buffer.\<close>

definition buf_put :: "u8 list \<Rightarrow> nat \<Rightarrow> u8 list \<Rightarrow> u8 list option" where
  "buf_put buf p bs =
    (if p + length bs \<le> length buf then Some (take p buf @ bs @ drop (p + length bs) buf)
     else None)"

fun encode_params ::
  "u8 list \<Rightarrow> nat \<Rightarrow> nat \<Rightarrow> ptype list \<Rightarrow> varg list \<Rightarrow> (reason + u8 list \<times> nat) option"
where
  "encode_params buf p maxend [] args = Some (Inr (buf, p))"
| "encode_params buf p maxend (t # ts) args =
    (if p > maxend then Some (Inl ''Message encode error'')
     else if is_int_ptype t then
       (case args of
          VA_int v # rest \<Rightarrow>
            Option.bind (buf_put buf p (encode_int v)) (\<lambda>buf'.
              encode_params buf' (p + length (encode_int v)) maxend ts rest)
        | _ \<Rightarrow> None)
     else if t = PT_string then
       (case args of
          VA_str s # rest \<Rightarrow>
            (let bs = take (maxend - (p + 1)) (takeWhile (\<lambda>c. c \<noteq> 0) s) in
            Option.bind (buf_put buf p (of_nat (length bs) # bs)) (\<lambda>buf'.
              encode_params buf' (p + 1 + length bs) maxend ts rest))
        | _ \<Rightarrow> None)
     else
       (case args of
          VA_buf n s # rest \<Rightarrow>
            (let v = (if unat n > maxend - p then maxend - p else unat n) in
            if length s < v then None
            else Option.bind (buf_put buf p (of_nat v # take v s)) (\<lambda>buf'.
              encode_params buf' (p + 1 + v) maxend ts rest))
        | _ \<Rightarrow> None))"

definition command_encodef ::
  "u8 list \<Rightarrow> command_encoder \<Rightarrow> varg list \<Rightarrow> (reason + u8 list \<times> nat) option" where
  "command_encodef buf ce args =
    (let max_size = ce_max_size ce in
     if max_size \<le> MESSAGE_MIN then Some (Inr (buf, max_size))
     else
       (let p = MESSAGE_HEADER_SIZE;
            maxend = p + (max_size - MESSAGE_MIN);
            hd_bytes = encode_msgid (ce_encoded_msgid ce)
        in Option.bind (buf_put buf p hd_bytes) (\<lambda>buf1.
           Option.bind (encode_params buf1 (p + length hd_bytes) maxend (ce_param_types ce) args)
             (\<lambda>r. case r of Inl e \<Rightarrow> Some (Inl e)
                | Inr (buf2, p2) \<Rightarrow> Some (Inr (buf2, p2 + MESSAGE_TRAILER_SIZE))))))"

definition command_add_frame :: "u8 \<Rightarrow> u8 list \<Rightarrow> nat \<Rightarrow> u8 list option" where
  "command_add_frame next_seq buf msglen =
    (if msglen < MESSAGE_MIN \<or> length buf < msglen then None
     else
       (let buf = buf[MESSAGE_POS_LEN := of_nat msglen];
            buf = buf[MESSAGE_POS_SEQ := next_seq];
            crc = crc16_ccitt (take (msglen - MESSAGE_TRAILER_SIZE) buf);
            buf = buf[msglen - MESSAGE_TRAILER_CRC + 0 := ucast (drop_bit 8 crc)];
            buf = buf[msglen - MESSAGE_TRAILER_CRC + 1 := ucast crc];
            buf = buf[msglen - MESSAGE_TRAILER_SYNC := MESSAGE_SYNC]
        in Some buf))"

definition command_encode_and_frame ::
  "u8 \<Rightarrow> u8 list \<Rightarrow> command_encoder \<Rightarrow> varg list \<Rightarrow> (reason + u8 list \<times> nat) option" where
  "command_encode_and_frame next_seq buf ce args =
    Option.bind (command_encodef buf ce args) (\<lambda>r. case r of
      Inl e \<Rightarrow> Some (Inl e)
    | Inr (buf', msglen) \<Rightarrow>
        Option.bind (command_add_frame next_seq buf' msglen) (\<lambda>buf''.
          Some (Inr (buf'', msglen))))"

section \<open>Parsing the parameters of a command\<close>

fun command_parsef ::
  "u8 list \<Rightarrow> nat \<Rightarrow> nat \<Rightarrow> ptype list \<Rightarrow> (reason + nat \<times> u32 list) option" where
  "command_parsef buf p maxend [] = Some (Inr (p, []))"
| "command_parsef buf p maxend (t # ts) =
    (if p > maxend then Some (Inl ''Command parser error'')
     else if is_int_ptype t then
       (case parse_int (drop p buf) of
          None \<Rightarrow> None
        | Some (v, rest) \<Rightarrow>
            Option.bind (command_parsef buf (length buf - length rest) maxend ts)
              (\<lambda>r. Some (map_sum id (\<lambda>(q, args). (q, v # args)) r)))
     else if t = PT_buffer then
       (if p \<ge> length buf then None
        else
          (let len = unat (buf ! p) in
           if p + 1 + len > maxend then Some (Inl ''Command parser error'')
           else Option.bind (command_parsef buf (p + 1 + len) maxend ts)
             (\<lambda>r. Some (map_sum id
                (\<lambda>(q, args). (q, of_nat len # of_nat (p + 1) # args)) r))))
     else Some (Inl ''Command parser error''))"

section \<open>Finding the next message block\<close>

record command_s = board +
  next_sequence :: u8
  sync_state :: u8

text \<open>The initial state: block numbers start at \<^verbatim>\<open>MESSAGE_DEST\<close>, no resynchronisation.\<close>

definition idle_command_s :: command_s where
  "idle_command_s = board.extend idle_board \<lparr>next_sequence = MESSAGE_DEST, sync_state = 0\<rparr>"

definition CF_NEED_SYNC :: u8 where "CF_NEED_SYNC = 1"
definition CF_NEED_VALID :: u8 where "CF_NEED_VALID = 2"

text \<open>The message without content that acknowledges, or refuses, a block.\<close>

definition encode_acknak :: message where
  "encode_acknak = (''acknak'', [])"

fun memchr :: "u8 list \<Rightarrow> u8 \<Rightarrow> nat option" where
  "memchr [] c = None"
| "memchr (b # bs) c = (if b = c then Some 0 else map_option Suc (memchr bs c))"

definition find_block_nak ::
  "nat \<Rightarrow> 'a command_s_scheme \<Rightarrow> int \<times> nat \<times> 'a command_s_scheme" where
  "find_block_nak pop s = (- 1, pop, command_sendf encode_acknak s)"

definition find_block_need_sync ::
  "u8 list \<Rightarrow> 'a command_s_scheme \<Rightarrow> int \<times> nat \<times> 'a command_s_scheme" where
  "find_block_need_sync buf s =
    (let (pop, s1) = (case memchr buf MESSAGE_SYNC of
            Some i \<Rightarrow> (i + 1, s\<lparr>sync_state := sync_state s AND NOT CF_NEED_SYNC\<rparr>)
          | None \<Rightarrow> (length buf, s))
     in if sync_state s1 AND CF_NEED_VALID \<noteq> 0 then (- 1, pop, s1)
        else find_block_nak pop (s1\<lparr>sync_state := sync_state s1 OR CF_NEED_VALID\<rparr>))"

definition find_block_error ::
  "u8 list \<Rightarrow> 'a command_s_scheme \<Rightarrow> int \<times> nat \<times> 'a command_s_scheme" where
  "find_block_error buf s =
    (if buf ! 0 = MESSAGE_SYNC then (- 1, 1, s)
     else find_block_need_sync buf (s\<lparr>sync_state := sync_state s OR CF_NEED_SYNC\<rparr>))"

definition command_find_block ::
  "u8 list \<Rightarrow> 'a command_s_scheme \<Rightarrow> int \<times> nat \<times> 'a command_s_scheme" where
  "command_find_block buf s =
    (let buf_len = length buf in
     if buf_len \<noteq> 0 \<and> sync_state s AND CF_NEED_SYNC \<noteq> 0 then find_block_need_sync buf s
     else if buf_len < MESSAGE_MIN then (0, 0, s)
     else let msglen = unat (buf ! MESSAGE_POS_LEN) in
     if msglen < MESSAGE_MIN \<or> msglen > MESSAGE_MAX then find_block_error buf s
     else let msgseq = buf ! MESSAGE_POS_SEQ in
     if msgseq AND NOT MESSAGE_SEQ_MASK \<noteq> MESSAGE_DEST then find_block_error buf s
     else if buf_len < msglen then (0, 0, s)
     else if buf ! (msglen - MESSAGE_TRAILER_SYNC) \<noteq> MESSAGE_SYNC then find_block_error buf s
     else let msgcrc = (push_bit 8 (ucast (buf ! (msglen - MESSAGE_TRAILER_CRC))) :: u16)
                        OR ucast (buf ! (msglen - MESSAGE_TRAILER_CRC + 1));
              crc = crc16_ccitt (take (msglen - MESSAGE_TRAILER_SIZE) buf) in
     if crc \<noteq> msgcrc then find_block_error buf s
     else let s1 = s\<lparr>sync_state := sync_state s AND NOT CF_NEED_VALID\<rparr> in
     if msgseq \<noteq> next_sequence s1 then find_block_nak msglen s1
     else (1, msglen,
       s1\<lparr>next_sequence := ((msgseq + 1) AND MESSAGE_SEQ_MASK) OR MESSAGE_DEST\<rparr>))"

section \<open>Frames\<close>

text \<open>The wire format as an abstract value: header, payload, checksum and sync byte.\<close>

definition frame_body :: "u8 \<Rightarrow> u8 list \<Rightarrow> u8 list" where
  "frame_body seq payload = of_nat (length payload + 5) # seq # payload"

definition mk_frame :: "u8 \<Rightarrow> u8 list \<Rightarrow> u8 list" where
  "mk_frame seq payload =
    frame_body seq payload @
    [ucast (drop_bit 8 (crc16_ccitt (frame_body seq payload))),
     ucast (crc16_ccitt (frame_body seq payload)), MESSAGE_SYNC]"

definition seq_ok :: "u8 \<Rightarrow> bool" where
  "seq_ok seq \<longleftrightarrow> seq AND NOT MESSAGE_SEQ_MASK = MESSAGE_DEST"

definition block_ok :: "u8 list \<Rightarrow> nat \<Rightarrow> bool" where
  "block_ok buf msglen \<longleftrightarrow>
    msglen = unat (buf ! 0) \<and> 5 \<le> msglen \<and> msglen \<le> 64 \<and> msglen \<le> length buf \<and>
    seq_ok (buf ! 1) \<and> buf ! (msglen - 1) = MESSAGE_SYNC \<and>
    crc16_ccitt (take (msglen - 3) buf)
      = (push_bit 8 (ucast (buf ! (msglen - 3))) :: u16) OR ucast (buf ! (msglen - 3 + 1))"

lemma length_mk_frame [simp]: "length (mk_frame seq payload) = length payload + 5"
  by (simp add: mk_frame_def frame_body_def)

lemma crc_bytes_iff:
  "(c :: u16) = push_bit 8 (ucast (a :: u8)) OR ucast (b :: u8)
    \<longleftrightarrow> a = ucast (drop_bit 8 c) \<and> b = ucast c"
proof
  assume c: "c = push_bit 8 (ucast a) OR ucast b"
  have "\<not> bit b (8 + n)" for n
    using bit_imp_le_length [of b "8 + n"] by auto
  then have "bit a n = bit (ucast (drop_bit 8 c) :: u8) n"
    and "bit b n = bit (ucast c :: u8) n" if "n < 8" for n
    using that unfolding c by (auto simp: word_bits)
  then show "a = ucast (drop_bit 8 c) \<and> b = ucast c"
    by (auto simp: word_eq_bits)
next
  assume a: "a = ucast (drop_bit 8 c) \<and> b = ucast c"
  show "c = push_bit 8 (ucast a) OR ucast b"
  proof (rule bit_word_eqI)
    fix n :: nat
    show "bit c n = bit (push_bit 8 (ucast a) OR ucast b :: u16) n"
      using a bit_imp_le_length [of c n] by (cases "n < 8") (auto simp: word_bits)
  qed
qed

lemma frame_prefix:
  assumes "length payload \<le> 59"
  shows "block_ok (mk_frame seq payload @ rest) (length payload + 5) \<longleftrightarrow> seq_ok seq"
proof -
  have "unat (of_nat (length payload + 5) :: u8) = length payload + 5"
    using assms by (intro unat_of_nat_small) simp
  then show ?thesis
    using assms unfolding block_ok_def crc_bytes_iff
    by (auto simp: mk_frame_def frame_body_def nth_append)
qed

lemma block_ok_frame:
  assumes "block_ok buf n"
  shows "\<exists>payload rest. length payload = n - 5 \<and> buf = mk_frame (buf ! 1) payload @ rest"
proof -
  obtain m where m: "n = m + 5"
    using assms le_Suc_ex [of 5 n] by (auto simp: block_ok_def)
  have n: "n \<le> length buf" "n = unat (buf ! 0)"
    using assms by (auto simp: block_ok_def)
  obtain b0 t where t: "buf = b0 # t" using n(1) m by (cases buf) auto
  obtain b1 t' where "t = b1 # t'" using n(1) m t by (cases t) auto
  with t have buf: "buf = b0 # b1 # t'" by simp
  define payload where "payload = take m t'"
  have len: "length payload = n - 5" using n(1) m buf by (simp add: payload_def)
  have b0: "b0 = of_nat n" using n(2) buf by simp
  have "n - 3 = Suc (Suc m)" using m by simp
  then have body: "take (n - 3) buf = frame_body (buf ! 1) payload"
    using buf b0 len m by (simp add: frame_body_def payload_def)
  have tail: "drop (n - 3) buf = buf ! (n - 3) # buf ! (n - 2) # buf ! (n - 1) # drop n buf"
    using n(1) m drop_nth_step [of "n - 3" buf "n - 2"] drop_nth_step [of "n - 2" buf "n - 1"]
      drop_nth_step [of "n - 1" buf n] by simp
  have "n - 3 + 1 = n - 2" using m by simp
  have "buf ! (n - 1) = MESSAGE_SYNC"
    and crc: "buf ! (n - 3) = ucast (drop_bit 8 (crc16_ccitt (take (n - 3) buf)))"
      "buf ! (n - 3 + 1) = ucast (crc16_ccitt (take (n - 3) buf))"
    using assms unfolding block_ok_def crc_bytes_iff by blast+
  have "buf = take (n - 3) buf @ drop (n - 3) buf" by simp
  also have "\<dots> = mk_frame (buf ! 1) payload @ drop n buf"
    unfolding tail mk_frame_def body [symmetric]
    using \<open>buf ! (n - 1) = MESSAGE_SYNC\<close> \<open>n - 3 + 1 = n - 2\<close> crc by simp
  finally show ?thesis using len by blast
qed

lemma frame_writes:
  assumes "buf = h0 # h1 # payload @ [t0, t1, t2] @ rest"
  shows "command_add_frame seq buf (length payload + 5) = Some (mk_frame seq payload @ rest)"
proof -
  have "[t0, t1, t2] @ rest = t0 # t1 # t2 # rest" by simp
  with assms have "buf = h0 # h1 # payload @ t0 # t1 # t2 # rest" by simp
  then show ?thesis
    by (simp add: command_add_frame_def mk_frame_def frame_body_def message_consts Let_def
        list_update_append)
qed

section \<open>Properties of the block search\<close>

definition synced :: "'a command_s_scheme \<Rightarrow> bool" where
  "synced s \<longleftrightarrow> sync_state s AND CF_NEED_SYNC = 0"

definition seq_after :: "u8 \<Rightarrow> u8" where
  "seq_after seq = ((seq + 1) AND MESSAGE_SEQ_MASK) OR MESSAGE_DEST"

lemma find_block_ok:
  assumes "synced s" and "block_ok buf n"
  shows "command_find_block buf s =
    (let s1 = s\<lparr>sync_state := sync_state s AND NOT CF_NEED_VALID\<rparr> in
     if buf ! 1 \<noteq> next_sequence s then find_block_nak n s1
     else (1, n, s1\<lparr>next_sequence := seq_after (buf ! 1)\<rparr>))"
  using assms
  by (auto simp: command_find_block_def block_ok_def synced_def seq_after_def seq_ok_def
      message_consts Let_def)

lemma find_block_reject:
  assumes "\<not> block_ok buf (unat (buf ! 0))"
  shows "command_find_block buf s = (0, 0, s)
    \<or> (buf \<noteq> [] \<and> command_find_block buf s = find_block_error buf s)
    \<or> (buf \<noteq> [] \<and> command_find_block buf s = find_block_need_sync buf s)"
  using assms
  by (auto simp: command_find_block_def block_ok_def seq_ok_def message_consts Let_def)

lemma memchr_Some: "memchr bs c = Some i \<Longrightarrow> i < length bs \<and> bs ! i = c \<and> c \<notin> set (take i bs)"
  by (induction bs arbitrary: i) (auto split: if_splits)

lemma memchr_None: "memchr bs c = None \<longleftrightarrow> c \<notin> set bs"
  by (induction bs) auto

lemma need_sync_progress:
  "buf \<noteq> [] \<Longrightarrow> find_block_need_sync buf s = (r, pop, s') \<Longrightarrow>
    r = - 1 \<and> 0 < pop \<and> pop \<le> length buf \<and> next_sequence s' = next_sequence s"
  by (auto simp: find_block_need_sync_def find_block_nak_def Let_def command_sendf_def
      console_sendf_def dest!: memchr_Some split: option.splits if_splits)

lemma error_progress:
  assumes "buf \<noteq> []" and "find_block_error buf s = (r, pop, s')"
  shows "r = - 1 \<and> 0 < pop \<and> pop \<le> length buf \<and> next_sequence s' = next_sequence s"
  using assms need_sync_progress [OF assms(1), of "s\<lparr>sync_state := sync_state s OR CF_NEED_SYNC\<rparr>"]
  by (cases "buf ! 0 = MESSAGE_SYNC") (auto simp: find_block_error_def Suc_le_eq)

lemma unsynced_block:
  assumes "\<not> synced s"
  shows "command_find_block buf s =
    (if buf = [] then (0, 0, s) else find_block_need_sync buf s)"
  using assms by (simp add: command_find_block_def synced_def message_consts Let_def)

lemma reject_result:
  assumes "\<not> block_ok buf (unat (buf ! 0)) \<or> \<not> synced s"
    and "command_find_block buf s = (r, pop, s')"
  shows "(r, pop, s') = (0, 0, s) \<or>
    (r = - 1 \<and> 0 < pop \<and> pop \<le> length buf \<and> next_sequence s' = next_sequence s)"
proof (cases "synced s")
  case True
  with assms(1) have "\<not> block_ok buf (unat (buf ! 0))" by simp
  from find_block_reject [OF this, of s] assms(2) show ?thesis
    by (metis error_progress need_sync_progress)
next
  case False
  with assms(2) show ?thesis
    by (cases "buf = []") (auto simp: unsynced_block dest: need_sync_progress)
qed

lemma need_sync_console:
  "case find_block_need_sync buf s of (r, pop, s') \<Rightarrow>
    bd_console s' \<in> {bd_console s, bd_console s @ [encode_acknak]}"
  by (auto simp: find_block_need_sync_def find_block_nak_def Let_def command_sendf_def
      console_sendf_def split: option.splits)

lemma error_console:
  "case find_block_error buf s of (r, pop, s') \<Rightarrow>
    bd_console s' \<in> {bd_console s, bd_console s @ [encode_acknak]}"
  using need_sync_console [of "s\<lparr>sync_state := sync_state s OR CF_NEED_SYNC\<rparr>" buf]
  by (simp add: find_block_error_def)

lemma reject_console:
  assumes "\<not> block_ok buf (unat (buf ! 0)) \<or> \<not> synced s"
  shows "case command_find_block buf s of (r, pop, s') \<Rightarrow>
    bd_console s' \<in> {bd_console s, bd_console s @ [encode_acknak]}"
proof (cases "synced s")
  case True
  with assms have "\<not> block_ok buf (unat (buf ! 0))" by simp
  from find_block_reject [OF this, of s]
  consider "command_find_block buf s = (0, 0, s)"
    | "command_find_block buf s = find_block_error buf s"
    | "command_find_block buf s = find_block_need_sync buf s" by blast
  then show ?thesis
    using error_console [of s buf] need_sync_console [of s buf] by cases simp_all
next
  case False
  then show ?thesis
    using need_sync_console [of s buf] by (cases "buf = []") (simp_all add: unsynced_block)
qed

lemma find_block_accept:
  "fst (command_find_block buf s) = 1 \<longleftrightarrow>
    synced s \<and> block_ok buf (unat (buf ! 0)) \<and> buf ! 1 = next_sequence s"
proof (cases "synced s \<and> block_ok buf (unat (buf ! 0))")
  case True
  then show ?thesis
    using find_block_ok [of s buf "unat (buf ! 0)"] by (simp add: Let_def find_block_nak_def)
next
  case False
  obtain r pop s' where "command_find_block buf s = (r, pop, s')" by (metis prod_cases3)
  with False reject_result [of buf s r pop s'] show ?thesis by auto
qed

section \<open>Encoding and parsing of parameters\<close>

definition encode_ints :: "u32 list \<Rightarrow> u8 list" where
  "encode_ints vs = concat (map encode_int vs)"

lemma encode_ints_simps [simp]:
  "encode_ints [] = []"
  "encode_ints (v # vs) = encode_int v @ encode_ints vs"
  by (simp_all add: encode_ints_def)

lemma buf_put_at:
  "buf = pre @ old @ rest \<Longrightarrow> length pre = p \<Longrightarrow> length old = length bs \<Longrightarrow>
    buf_put buf p bs = Some (pre @ bs @ rest)"
  by (simp add: buf_put_def)

lemma buf_put_length: "buf_put buf p bs = Some buf' \<Longrightarrow> length buf' = length buf"
  by (auto simp: buf_put_def split: if_splits)

text \<open>The bytes of the arguments of a message, when none is cut short.\<close>

fun arg_bytes :: "ptype \<Rightarrow> varg \<Rightarrow> u8 list option" where
  "arg_bytes t (VA_int v) = (if is_int_ptype t then Some (encode_int v) else None)"
| "arg_bytes t (VA_str s) =
    (let bs = takeWhile (\<lambda>c. c \<noteq> 0) s in if t = PT_string then Some (of_nat (length bs) # bs) else None)"
| "arg_bytes t (VA_buf n s) =
    (if (t = PT_buffer \<or> t = PT_progmem_buffer) \<and> unat n \<le> length s
     then Some (of_nat (unat n) # take (unat n) s) else None)"

fun args_bytes :: "ptype list \<Rightarrow> varg list \<Rightarrow> u8 list option" where
  "args_bytes [] [] = Some []"
| "args_bytes (t # ts) (a # args) =
    Option.bind (arg_bytes t a) (\<lambda>bs. map_option ((@) bs) (args_bytes ts args))"
| "args_bytes _ _ = None"

definition message_payload :: "command_encoder \<Rightarrow> varg list \<Rightarrow> u8 list option" where
  "message_payload ce args =
    map_option ((@) (encode_msgid (ce_encoded_msgid ce))) (args_bytes (ce_param_types ce) args)"

lemma args_bytes_ints:
  "list_all is_int_ptype ts \<Longrightarrow> length ts = length vs \<Longrightarrow> args_bytes ts (map VA_int vs) = Some (encode_ints vs)"
proof (induction ts arbitrary: vs)
  case (Cons t ts)
  then show ?case by (cases vs) auto
qed simp

lemma encode_params_one:
  assumes "arg_bytes t a = Some bs" and "p + length bs \<le> maxend"
  shows "encode_params buf p maxend (t # ts) (a # args) =
    Option.bind (buf_put buf p bs) (\<lambda>buf'. encode_params buf' (p + length bs) maxend ts args)"
proof (cases a)
  case (VA_int v)
  then show ?thesis using assms by (cases t) simp_all
next
  case (VA_str s)
  let ?z = "takeWhile (\<lambda>c. c \<noteq> 0) s"
  have t: "t = PT_string" and bs: "bs = of_nat (length ?z) # ?z" using assms(1) VA_str by (simp_all add: Let_def split: if_splits)
  then have "take (maxend - Suc p) ?z = ?z" using assms(2) by simp
  then show ?thesis using assms(2) t bs VA_str by (simp add: Let_def)
next
  case (VA_buf n s)
  have t: "t = PT_buffer \<or> t = PT_progmem_buffer" and n: "unat n \<le> length s" and bs: "bs = of_nat (unat n) # take (unat n) s"
    using assms(1) VA_buf by (simp_all split: if_splits)
  have "\<not> is_int_ptype t" "t \<noteq> PT_string" "\<not> unat n > maxend - p" "\<not> p > maxend" "length bs = Suc (unat n)"
    using t n bs assms(2) by auto
  then show ?thesis using n VA_buf by (simp add: bs Let_def)
qed

lemma encode_params_bytes:
  assumes "args_bytes ts args = Some bs" and "p + length bs \<le> maxend" and "maxend \<le> length buf"
  shows "encode_params buf p maxend ts args = Some (Inr (take p buf @ bs @ drop (p + length bs) buf, p + length bs))"
  using assms
proof (induction ts args arbitrary: buf p bs rule: args_bytes.induct)
  case (2 t ts a args)
  obtain b cs where b: "arg_bytes t a = Some b" "args_bytes ts args = Some cs" "bs = b @ cs"
    using "2.prems"(1) by (auto simp: bind_eq_Some_conv)
  let ?buf = "take p buf @ b @ drop (p + length b) buf"
  have len: "length ?buf = length buf" using "2.prems"(2,3) b(3) by simp
  have "encode_params ?buf (p + length b) maxend ts args =
    Some (Inr (take (p + length b) ?buf @ cs @ drop (p + length b + length cs) ?buf, p + length b + length cs))"
    using "2.prems"(2,3) b len by (intro "2.IH" [OF b(1,2)]) auto
  then show ?case
    unfolding encode_params_one [OF b(1), of p maxend] using "2.prems" b
    by (subst encode_params_one [OF b(1)]) (auto simp: buf_put_def ac_simps)
qed simp_all

lemma encode_and_frame_bytes:
  assumes "message_payload ce args = Some payload"
    and "length payload + 5 \<le> ce_max_size ce" and "ce_max_size ce \<le> length buf"
  shows "command_encode_and_frame seq buf ce args =
    Some (Inr (mk_frame seq payload @ drop (length payload + 5) buf, length payload + 5))"
proof -
  let ?id = "encode_msgid (ce_encoded_msgid ce)" and ?mx = "ce_max_size ce"
  obtain bs where bs: "args_bytes (ce_param_types ce) args = Some bs" "payload = ?id @ bs"
    using assms(1) by (auto simp: message_payload_def)
  have big: "5 < ?mx" using bs(2) assms(2) by (auto simp: encode_msgid_def)
  let ?b1 = "take 2 buf @ ?id @ drop (2 + length ?id) buf"
  have put: "buf_put buf 2 ?id = Some ?b1"
    using bs(2) assms(2,3) by (simp add: buf_put_def)
  let ?p = "2 + length ?id"
  have mx: "2 + (?mx - 5) = ?mx - 3" using big by simp
  have "encode_params ?b1 ?p (?mx - 3) (ce_param_types ce) args =
    Some (Inr (take ?p ?b1 @ bs @ drop (?p + length bs) ?b1, ?p + length bs))"
    using assms(2,3) bs big by (intro encode_params_bytes) auto
  moreover have "take ?p ?b1 = take 2 buf @ ?id"
    and "drop (?p + length bs) ?b1 = drop (2 + length payload) buf"
    using bs(2) assms(2,3) by (simp_all add: ac_simps numeral_2_eq_2)
  ultimately have enc: "command_encodef buf ce args =
    Some (Inr (take 2 buf @ payload @ drop (2 + length payload) buf, length payload + 5))"
    using bs(2) big put mx
    unfolding command_encodef_def message_consts Let_def mx by simp
  obtain h0 h1 where hd: "take 2 buf = [h0, h1]"
    using assms(3) big by (cases buf; cases "tl buf") (auto simp: numeral_2_eq_2)
  have tl: "drop (2 + length payload) buf = buf ! (2 + length payload) #
      buf ! (3 + length payload) # buf ! (4 + length payload) # drop (length payload + 5) buf"
    using assms(2,3) drop_nth_step [of "2 + length payload" buf "3 + length payload"]
      drop_nth_step [of "3 + length payload" buf "4 + length payload"]
      drop_nth_step [of "4 + length payload" buf "length payload + 5"] by simp
  have "command_add_frame seq (take 2 buf @ payload @ drop (2 + length payload) buf)
      (length payload + 5) = Some (mk_frame seq payload @ drop (length payload + 5) buf)"
    unfolding hd tl by (rule frame_writes) simp
  with enc show ?thesis by (simp add: command_encode_and_frame_def)
qed

lemma encode_and_frame_ints:
  assumes "list_all is_int_ptype (ce_param_types ce)" and "length (ce_param_types ce) = length vs"
    and "payload = encode_msgid (ce_encoded_msgid ce) @ encode_ints vs"
    and "length payload + 5 \<le> ce_max_size ce" and "ce_max_size ce \<le> length buf"
  shows "command_encode_and_frame seq buf ce (map VA_int vs) =
    Some (Inr (mk_frame seq payload @ drop (length payload + 5) buf, length payload + 5))"
  by (rule encode_and_frame_bytes [OF _ assms(4,5)]) (simp add: message_payload_def args_bytes_ints [OF assms(1,2)] assms(3))

lemma parsef_ints:
  assumes "list_all is_int_ptype ts" and "length ts = length vs"
    and "drop p buf = encode_ints vs @ rest" and "p + length (encode_ints vs) \<le> maxend"
    and "p \<le> length buf"
  shows "command_parsef buf p maxend ts = Some (Inr (p + length (encode_ints vs), vs))"
  using assms
proof (induction ts arbitrary: p vs)
  case Nil
  then show ?case by simp
next
  case (Cons t ts)
  then obtain v vs' where vs: "vs = v # vs'" by (cases vs) auto
  have d: "drop (p + length (encode_int v)) buf = encode_ints vs' @ rest"
  proof -
    have "drop (p + length (encode_int v)) buf = drop (length (encode_int v)) (drop p buf)"
      by (simp add: add.commute)
    then show ?thesis using Cons.prems(3) vs by simp
  qed
  have len: "length buf - length (encode_ints vs' @ rest) = p + length (encode_int v)"
    using arg_cong [OF d, of length] arg_cong [OF Cons.prems(3), of length] Cons.prems(5) vs by simp
  have "command_parsef buf (p + length (encode_int v)) maxend ts
     = Some (Inr (p + length (encode_int v) + length (encode_ints vs'), vs'))"
    using Cons.prems vs d len by (intro Cons.IH) auto
  then show ?case
    using Cons.prems vs len by (simp add: parse_encode_int add.assoc)
qed

section \<open>Reads stay inside the buffer\<close>

lemma parse_loop_bounded:
  assumes "i < length (c # p)" and "\<not> bit ((c # p) ! i) 7"
  shows "\<exists>v' r. parse_loop c v p = Some (v', r) \<and> length r \<le> length p \<and> length p \<le> length r + i"
  using assms
proof (induction p arbitrary: c v i)
  case Nil
  then show ?case by (simp add: parse_loop.simps and_hi_bit)
next
  case (Cons d p)
  show ?case
  proof (cases "bit c 7")
    case True
    then obtain k where k: "i = Suc k" using Cons.prems by (cases i) auto
    then have "\<exists>v' r. parse_loop d (push_bit 7 v OR ucast (d AND 0x7f)) p = Some (v', r)
        \<and> length r \<le> length p \<and> length p \<le> length r + k"
      using Cons.prems by (intro Cons.IH) auto
    with True k show ?thesis by (fastforce simp: parse_loop.simps [of c] and_hi_bit)
  next
    case False
    then show ?thesis by (simp add: parse_loop.simps [of c] and_hi_bit)
  qed
qed

lemma parse_int_bounded:
  assumes "p \<le> q" and "q < length buf" and "\<not> bit (buf ! q) 7"
  shows "\<exists>v r. parse_int (drop p buf) = Some (v, r) \<and>
    p < length buf - length r \<and> length buf - length r \<le> q + 1"
proof -
  obtain c t where ct: "drop p buf = c # t"
    using assms by (cases "drop p buf") auto
  have "(c # t) ! (q - p) = buf ! q" using assms ct by (metis le_add_diff_inverse nth_drop order.strict_trans1 less_imp_le)
  moreover have "q - p < length (c # t)" using assms arg_cong [OF ct, of length] by simp
  ultimately obtain v r where "parse_int (c # t) = Some (v, r)"
    and "length r \<le> length t" "length t \<le> length r + (q - p)"
    using parse_loop_bounded [of "q - p" c t] assms(3) by (fastforce simp: parse_int.simps Let_def)
  moreover have "length buf = p + length (c # t)"
    using assms arg_cong [OF ct, of length] by simp
  ultimately show ?thesis using assms(1) unfolding ct by (intro exI conjI) auto
qed

lemma bind_Some_None: "Option.bind x (\<lambda>r. Some (f r)) = None \<longleftrightarrow> x = None"
  by (cases x) simp_all

lemma parsef_defined:
  assumes "maxend \<le> q" and "q < length buf" and "\<not> bit (buf ! q) 7"
  shows "command_parsef buf p maxend ts \<noteq> None"
proof (induction ts arbitrary: p)
  case Nil
  then show ?case by simp
next
  case (Cons t ts)
  show ?case
  proof (cases "p > maxend")
    case False
    then obtain v r where "parse_int (drop p buf) = Some (v, r)"
      using parse_int_bounded [of p q buf] assms by auto
    then show ?thesis
      using False assms Cons.IH by (simp add: Let_def bind_Some_None del: not_None_eq)
  qed simp
qed

section \<open>Correctness of the firmware side\<close>

text \<open>
  C9: the block search accepts exactly the frames of the protocol.  It returns 1, a length to pop and
  a new state if and only if the receiver is synchronised, the buffer starts with a frame that carries
  the expected sequence number, the length is that of the frame, and the new state expects the
  next sequence number and is otherwise unchanged but for the cleared NEED_VALID flag.
\<close>

theorem find_block_accepts_frames:
  "command_find_block buf s = (1, pop, s') \<longleftrightarrow>
    synced s \<and> seq_ok (next_sequence s) \<and>
    (\<exists>payload rest. length payload \<le> MESSAGE_PAYLOAD_MAX \<and>
      buf = mk_frame (next_sequence s) payload @ rest \<and> pop = length payload + MESSAGE_MIN) \<and>
    s' = s\<lparr>sync_state := sync_state s AND NOT CF_NEED_VALID,
      next_sequence := ((next_sequence s + 1) AND MESSAGE_SEQ_MASK) OR MESSAGE_DEST\<rparr>"
  (is "?L \<longleftrightarrow> ?R")
proof
  assume L: ?L
  then have acc: "synced s" "block_ok buf (unat (buf ! 0))" "buf ! 1 = next_sequence s"
    using find_block_accept [of buf s] by auto
  obtain payload rest where p: "length payload = unat (buf ! 0) - 5"
    "buf = mk_frame (buf ! 1) payload @ rest"
    using block_ok_frame [OF acc(2)] by blast
  have n: "unat (buf ! 0) = length payload + 5" "length payload \<le> 59" "seq_ok (buf ! 1)"
    using p(1) acc(2) by (auto simp: block_ok_def)
  have "pop = length payload + 5" "s' = s\<lparr>sync_state := sync_state s AND NOT CF_NEED_VALID,
        next_sequence := seq_after (next_sequence s)\<rparr>"
    using L find_block_ok [OF acc(1,2)] acc(3) n(1) by (simp_all add: Let_def)
  then show ?R
    using acc p(2) n unfolding seq_after_def message_consts by auto
next
  assume R: ?R
  then obtain payload rest where p: "length payload \<le> 59" "buf = mk_frame (next_sequence s) payload @ rest"
      "pop = length payload + 5" by (auto simp: message_consts)
  have ok: "block_ok buf (length payload + 5)" unfolding p(2) using frame_prefix [OF p(1)] R by blast
  have "buf ! 1 = next_sequence s" unfolding p(2) by (simp add: mk_frame_def frame_body_def)
  then show ?L using find_block_ok [OF conjunct1 [OF R] ok] R p(3) by (simp add: Let_def seq_after_def message_consts)
qed

text \<open>
  The block search always makes progress.  When it neither accepts a block nor asks for
  more data it drops at least one byte and never more than it was given, keeps the expected
  sequence number, and acknowledges with at most one message; when it asks for more data the
  state is unchanged.
\<close>

theorem find_block_progress:
  "case command_find_block buf s of (r, pop, s') \<Rightarrow>
    (if r = 0 then pop = 0 \<and> s' = s
     else 0 < pop \<and> pop \<le> length buf \<and>
       (r = 1 \<or> r = - 1 \<and> next_sequence s' = next_sequence s)) \<and>
    bd_console s' \<in> {bd_console s, bd_console s @ [encode_acknak]}"
proof (cases "synced s \<and> block_ok buf (unat (buf ! 0))")
  case True
  then have "5 \<le> unat (buf ! 0)" "unat (buf ! 0) \<le> length buf" by (simp_all add: block_ok_def)
  with True show ?thesis
    using find_block_ok [of s buf "unat (buf ! 0)"]
    by (auto simp: Let_def find_block_nak_def command_sendf_def console_sendf_def)
next
  case False
  obtain r pop s' where e: "command_find_block buf s = (r, pop, s')" by (metis prod_cases3)
  with False have "(r, pop, s') = (0, 0, s) \<or>
    (r = - 1 \<and> 0 < pop \<and> pop \<le> length buf \<and> next_sequence s' = next_sequence s)"
    using reject_result [of buf s r pop s'] by auto
  moreover have "bd_console s' \<in> {bd_console s, bd_console s @ [encode_acknak]}"
    using reject_console [of buf s] False e by auto
  ultimately show ?thesis using e by auto
qed

text \<open>
  The parameter parser stays inside the message block.  On a buffer that starts with a
  valid block, parsing any parameter list from any position of the block is defined behaviour,
  whatever the payload bytes are: it returns arguments or leaves with a shutdown.
\<close>

theorem parsef_in_bounds:
  assumes "block_ok buf n"
  shows "command_parsef buf p (n - MESSAGE_TRAILER_SIZE) ts \<noteq> None"
proof -
  have "n - 3 \<le> n - 1" "n - 1 < length buf" "\<not> bit (buf ! (n - 1)) 7"
    using assms by (auto simp: block_ok_def message_consts)
  then show ?thesis unfolding message_consts by (rule parsef_defined)
qed

theorem parsef_in_bounds_witness:
  "block_ok (mk_frame 0x10 [0xff, 0xff]) 7 \<and>
    command_parsef (mk_frame 0x10 [0xff, 0xff]) 2 (7 - MESSAGE_TRAILER_SIZE)
      [PT_uint32, PT_buffer] \<noteq> None"
proof -
  have "seq_ok 0x10" by (simp add: seq_ok_def message_consts)
  then have "block_ok (mk_frame 0x10 [0xff, 0xff]) 7"
    using frame_prefix [of "[0xff, 0xff]" "0x10" "[]"] by simp
  then show ?thesis using parsef_in_bounds by blast
qed

text \<open>
  A message of integers is encoded into one frame.  For an encoder whose parameters are all
  integers and whose payload fits the maximum size, \<open>command_encode_and_frame\<close> writes the
  frame of the message id and the integers at the start of the buffer, reports its length, and
  leaves the rest of the buffer alone.
\<close>

theorem encode_and_frame_writes_frame:
  assumes "list_all is_int_ptype (ce_param_types ce)" and "length (ce_param_types ce) = length vs"
    and "payload = encode_msgid (ce_encoded_msgid ce) @ encode_ints vs"
    and "length payload + MESSAGE_MIN \<le> ce_max_size ce" and "ce_max_size ce \<le> length buf"
  shows "command_encode_and_frame seq buf ce (map VA_int vs) =
    Some (Inr (mk_frame seq payload @ drop (length payload + MESSAGE_MIN) buf,
      length payload + MESSAGE_MIN))"
  using assms unfolding message_consts by (rule encode_and_frame_ints)

definition example_encoder :: command_encoder where
  "example_encoder = \<lparr>ce_encoded_msgid = 0x42, ce_max_size = 16,
    ce_param_types = [PT_byte, PT_uint32]\<rparr>"

theorem encode_and_frame_writes_frame_witness:
  "command_encode_and_frame 0x11 (replicate 64 0) example_encoder (map VA_int [7, 0xffffffff]) =
    Some (Inr (mk_frame 0x11 [0x42, 7, 0x7f] @ replicate 56 0, 8))"
proof -
  have e: "[0x42, 7, 0x7f] = encode_msgid (ce_encoded_msgid example_encoder)
      @ encode_ints [7, 0xffffffff]"
    by (simp add: encode_msgid_def encode_int_def example_encoder_def)
  have "list_all is_int_ptype (ce_param_types example_encoder)"
    and "length (ce_param_types example_encoder) = length [7, 0xffffffff :: u32]"
    and "length [0x42, 7, 0x7f :: u8] + MESSAGE_MIN \<le> ce_max_size example_encoder"
    and "ce_max_size example_encoder \<le> length (replicate 64 (0 :: u8))"
    by (simp_all add: example_encoder_def message_consts)
  from encode_and_frame_writes_frame [OF this(1,2) e this(3,4), of "0x11"]
  show ?thesis by (simp add: message_consts)
qed

end
