(* ===== verification/Msgblock.thy ===== *)
theory Msgblock
  imports Command
begin

text \<open>
  The host side of the wire protocol (\<^verbatim>\<open>klippy/chelper/msgblock.c\<close>): the host's
  copies of the integer coder, the check that a receive buffer starts with a block, the
  decoder of a block of integers, the construction of queued messages and the extension of
  a 32-bit clock.  As in the firmware model, \<open>None\<close> is a read or a write outside a buffer.
\<close>

section \<open>The integer coder of the host\<close>

definition host_encode_int :: "u32 \<Rightarrow> u8 list" where
  "host_encode_int v =
    (let sv = sint v;
         f4 = sv < 3 * 2 ^ 5 \<and> sv \<ge> - (2 ^ 5);
         f3 = f4 \<or> sv < 3 * 2 ^ 12 \<and> sv \<ge> - (2 ^ 12);
         f2 = f3 \<or> sv < 3 * 2 ^ 19 \<and> sv \<ge> - (2 ^ 19);
         f1 = f2 \<or> sv < 3 * 2 ^ 26 \<and> sv \<ge> - (2 ^ 26)
     in (if f1 then [] else [ucast (drop_bit 28 v) OR 0x80]) @
        (if f2 then [] else [ucast (drop_bit 21 v AND 0x7f) OR 0x80]) @
        (if f3 then [] else [ucast (drop_bit 14 v AND 0x7f) OR 0x80]) @
        (if f4 then [] else [ucast (drop_bit 7 v AND 0x7f) OR 0x80]) @
        [ucast (v AND 0x7f)])"

text \<open>The reader works on the message and the index of the next byte.\<close>

definition buf_get :: "u8 list \<Rightarrow> nat \<Rightarrow> u8 option" where
  "buf_get buf p = (if p < length buf then Some (buf ! p) else None)"

function host_parse_loop :: "u8 list \<Rightarrow> u8 \<Rightarrow> u32 \<Rightarrow> nat \<Rightarrow> (u32 \<times> nat) option" where
  "host_parse_loop buf c v p =
    (if c AND 0x80 \<noteq> 0 then
       (case buf_get buf p of None \<Rightarrow> None
        | Some c' \<Rightarrow> host_parse_loop buf c' (push_bit 7 v OR ucast (c' AND 0x7f)) (p + 1))
     else Some (v, p))"
  by pat_completeness auto
termination
  by (relation "measure (\<lambda>(buf, _, _, p). length buf - p)")
    (auto simp: buf_get_def split: if_splits)

definition host_parse_int :: "u8 list \<Rightarrow> nat \<Rightarrow> (u32 \<times> nat) option" where
  "host_parse_int buf p =
    (case buf_get buf p of None \<Rightarrow> None
     | Some c \<Rightarrow>
         (let v = ucast (c AND 0x7f);
              v = (if c AND 0x60 = 0x60 then v OR (- 0x20) else v)
          in host_parse_loop buf c v (p + 1)))"

section \<open>Checking and decoding a block\<close>

text \<open>
  \<^verbatim>\<open>msgblock_check\<close> returns the number of bytes of a valid block, 0 when more data is
  needed, or minus the number of bytes to discard, together with the new \<^verbatim>\<open>need_sync\<close>.
\<close>

definition msgblock_check_error :: "u8 list \<Rightarrow> int \<times> u8" where
  "msgblock_check_error buf =
    (case memchr buf MESSAGE_SYNC of
       Some i \<Rightarrow> (- int (i + 1), 0)
     | None \<Rightarrow> (- int (length buf), 1))"

definition msgblock_check :: "u8 \<Rightarrow> u8 list \<Rightarrow> int \<times> u8" where
  "msgblock_check need_sync buf =
    (let buf_len = length buf in
     if buf_len < MESSAGE_MIN then (0, need_sync)
     else if need_sync \<noteq> 0 then msgblock_check_error buf
     else let msglen = unat (buf ! MESSAGE_POS_LEN) in
     if msglen < MESSAGE_MIN \<or> msglen > MESSAGE_MAX then msgblock_check_error buf
     else let msgseq = buf ! MESSAGE_POS_SEQ in
     if msgseq AND NOT MESSAGE_SEQ_MASK \<noteq> MESSAGE_DEST then msgblock_check_error buf
     else if buf_len < msglen then (0, need_sync)
     else if buf ! (msglen - MESSAGE_TRAILER_SYNC) \<noteq> MESSAGE_SYNC then msgblock_check_error buf
     else let msgcrc = (push_bit 8 (ucast (buf ! (msglen - MESSAGE_TRAILER_CRC))) :: u16)
                        OR ucast (buf ! (msglen - MESSAGE_TRAILER_CRC + 1));
              crc = msgblock_crc16_ccitt (take (msglen - MESSAGE_TRAILER_SIZE) buf) in
     if crc \<noteq> msgcrc then msgblock_check_error buf
     else (int msglen, need_sync))"

text \<open>\<open>decode_loop n p end msg\<close> reads \<open>n\<close> integers; \<open>Inl\<close> is the early \<^verbatim>\<open>return -1\<close>.\<close>

fun decode_loop :: "nat \<Rightarrow> nat \<Rightarrow> nat \<Rightarrow> u8 list \<Rightarrow> (u32 list + u32 list \<times> nat) option" where
  "decode_loop 0 p e msg = Some (Inr ([], p))"
| "decode_loop (Suc n) p e msg =
    (if p \<ge> e then Some (Inl [])
     else (case host_parse_int msg p of None \<Rightarrow> None
       | Some (v, q) \<Rightarrow>
           Option.bind (decode_loop n q e msg) (\<lambda>r. Some
             (map_sum (\<lambda>vs. v # vs) (\<lambda>(vs, q'). (v # vs, q')) r))))"

definition msgblock_decode :: "nat \<Rightarrow> u8 list \<Rightarrow> nat \<Rightarrow> (int \<times> u32 list) option" where
  "msgblock_decode data_len msg msg_len =
    (let p = MESSAGE_HEADER_SIZE; e = msg_len - MESSAGE_TRAILER_SIZE in
     Option.bind (decode_loop data_len p e msg) (\<lambda>r. Some (case r of
       Inl vs \<Rightarrow> (- 1, vs)
     | Inr (vs, q) \<Rightarrow> (if q \<noteq> e then - 1 else 0, vs))))"

section \<open>Queued messages\<close>

record queue_message =
  qm_len :: int
  qm_msg :: "u8 list"
  qm_min_clock :: u64
  qm_req_clock :: u64
  qm_notify_id :: u64

text \<open>The bytes a message holds.\<close>

definition qm_payload :: "queue_message \<Rightarrow> u8 list" where
  "qm_payload qm = take (nat (qm_len qm)) (qm_msg qm)"

definition message_alloc :: queue_message where
  "message_alloc = \<lparr>qm_len = 0, qm_msg = replicate MESSAGE_MAX 0, qm_min_clock = 0,
    qm_req_clock = 0, qm_notify_id = 0\<rparr>"

definition message_fill :: "u8 list \<Rightarrow> nat \<Rightarrow> queue_message option" where
  "message_fill data len =
    (let qm = message_alloc in
     if length data < len then None
     else Option.bind (buf_put (qm_msg qm) 0 (take len data)) (\<lambda>m.
       Some (qm\<lparr>qm_msg := m, qm_len := int len\<rparr>)))"

fun host_encode_loop :: "u8 list \<Rightarrow> nat \<Rightarrow> u32 list \<Rightarrow> (u8 list \<times> nat option) option" where
  "host_encode_loop msg p [] = Some (msg, Some p)"
| "host_encode_loop msg p (d # ds) =
    Option.bind (buf_put msg p (host_encode_int d)) (\<lambda>msg'.
      (let p' = p + length (host_encode_int d) in
       if p' > MESSAGE_PAYLOAD_MAX then Some (msg', None)
       else host_encode_loop msg' p' ds))"

definition message_alloc_and_encode :: "u32 list \<Rightarrow> queue_message option" where
  "message_alloc_and_encode data =
    (let qm = message_alloc in
     Option.bind (host_encode_loop (qm_msg qm) 0 data) (\<lambda>(m, r). Some (case r of
       Some p \<Rightarrow> qm\<lparr>qm_msg := m, qm_len := int p\<rparr>
     | None \<Rightarrow> qm\<lparr>qm_msg := m, qm_len := 0\<rparr>)))"

section \<open>Clock extension\<close>

text \<open>\<^verbatim>\<open>clock_from_clock32\<close>: the signed 32-bit distance added to the last 64-bit clock.\<close>

definition clock_from_clock32 :: "u64 \<Rightarrow> u32 \<Rightarrow> u64" where
  "clock_from_clock32 last_clock clock32 =
    last_clock + scast (ucast (ucast clock32 - last_clock :: u64) :: u32)"

section \<open>The host coder agrees with the firmware coder\<close>

lemma host_encode_int_eq [simp]: "host_encode_int = encode_int"
  by (rule ext) (auto simp: host_encode_int_def encode_int_def Let_def)

declare host_parse_loop.simps [simp del]

lemma host_parse_loop_eq:
  "p \<le> length buf \<Longrightarrow> host_parse_loop buf c v p =
    map_option (\<lambda>(w, r). (w, length buf - length r)) (parse_loop c v (drop p buf))"
proof (induction buf c v p rule: host_parse_loop.induct)
  case (1 buf c v p)
  show ?case
  proof (cases "c AND 0x80 \<noteq> 0 \<and> p < length buf")
    case True
    then have "drop p buf = buf ! p # drop (p + 1) buf" by (simp add: drop_nth_step)
    with True 1 show ?thesis
      by (simp add: host_parse_loop.simps [of buf c] parse_cont buf_get_def)
  next
    case False
    with 1(2) show ?thesis
      by (cases "c AND 0x80 = 0")
        (auto simp: host_parse_loop.simps [of buf c] parse_loop.simps buf_get_def)
  qed
qed

lemma host_parse_int_eq:
  "p \<le> length buf \<Longrightarrow> host_parse_int buf p =
    map_option (\<lambda>(w, r). (w, length buf - length r)) (parse_int (drop p buf))"
proof (cases "p < length buf")
  case True
  then have "drop p buf = buf ! p # drop (p + 1) buf" by (simp add: drop_nth_step)
  with True show ?thesis
    by (simp add: host_parse_int_def buf_get_def parse_int.simps Let_def host_parse_loop_eq)
qed (simp add: host_parse_int_def buf_get_def)

section \<open>Block check\<close>

lemma check_error_result:
  assumes "buf \<noteq> []"
  shows "msgblock_check_error buf = (r, ns) \<Longrightarrow> r < 0 \<and> - r \<le> int (length buf) \<and>
    (ns = 0 \<longleftrightarrow> MESSAGE_SYNC \<in> set buf)"
  using assms unfolding msgblock_check_error_def
  by (cases "memchr buf MESSAGE_SYNC")
    (auto dest!: memchr_Some simp: memchr_None in_set_conv_nth)

lemma check_valid:
  "fst (msgblock_check ns buf) > 0 \<longleftrightarrow> ns = 0 \<and> block_ok buf (unat (buf ! 0))"
proof -
  have err: "\<not> fst (msgblock_check_error buf) > 0"
    by (simp add: msgblock_check_error_def split: option.splits)
  show ?thesis
    using err by (auto simp: msgblock_check_def block_ok_def seq_ok_def message_consts Let_def
        simp del: of_nat_unat)
qed

lemma check_value:
  "block_ok buf n \<Longrightarrow> msgblock_check 0 buf = (int n, 0)"
  by (auto simp: msgblock_check_def block_ok_def seq_ok_def message_consts Let_def)

lemma check_range:
  assumes "msgblock_check ns buf = (r, ns')"
  shows "\<bar>r\<bar> \<le> int (length buf) \<and> (r \<ge> 0 \<longrightarrow> ns' = ns)"
proof (cases "r > 0")
  case True
  then have b: "ns = 0" "block_ok buf (unat (buf ! 0))"
    using check_valid [of ns buf] assms by auto
  then show ?thesis
    using check_value [OF b(2)] assms by (auto simp: block_ok_def simp del: of_nat_unat)
next
  case False
  then have "(r, ns') = (0, ns) \<or> (buf \<noteq> [] \<and> msgblock_check_error buf = (r, ns'))"
    using assms unfolding msgblock_check_def Let_def
    by (auto simp: message_consts simp del: of_nat_unat split: if_splits)
  then show ?thesis using check_error_result [of buf r ns'] by auto
qed

section \<open>Decoding what was encoded\<close>

lemma host_parse_at:
  assumes "drop p buf = encode_int v @ rest" and "p \<le> length buf"
  shows "host_parse_int buf p = Some (v, p + length (encode_int v))"
proof -
  have "length buf = p + length (encode_int v) + length rest"
    using assms(2) arg_cong [OF assms(1), of length] by simp
  then show ?thesis using assms by (simp add: host_parse_int_eq parse_encode_int)
qed

lemma encode_int_pos [simp]: "0 < length (encode_int v)"
  using encode_int_bytes [of v] by auto

lemma encode_int_le5: "length (encode_int v) \<le> 5"
  using encode_int_bytes [of v] by auto

lemma decode_loop_ints:
  assumes "drop p buf = encode_ints vs @ rest" and "p \<le> length buf"
    and "e = p + length (encode_ints vs)"
  shows "decode_loop (length vs) p e buf = Some (Inr (vs, e))"
  using assms
proof (induction vs arbitrary: p)
  case Nil
  then show ?case by simp
next
  case (Cons v vs)
  let ?q = "p + length (encode_int v)"
  have at: "host_parse_int buf p = Some (v, ?q)"
    using Cons.prems by (intro host_parse_at) simp_all
  have "drop ?q buf = drop (length (encode_int v)) (drop p buf)" by (simp add: add.commute)
  then have "drop ?q buf = encode_ints vs @ rest" using Cons.prems(1) by simp
  moreover have "?q \<le> length buf"
    using arg_cong [OF Cons.prems(1), of length] Cons.prems(2) by simp
  ultimately have "decode_loop (length vs) ?q e buf = Some (Inr (vs, e))"
    using Cons.prems(3) by (intro Cons.IH) simp_all
  moreover have "p < e" using Cons.prems(3) encode_int_pos [of v] by (simp add: add_pos_nonneg)
  ultimately show ?case using at by simp
qed

lemma decode_frame:
  "msgblock_decode (length vs) (mk_frame seq (encode_ints vs)) (length (encode_ints vs) + 5)
    = Some (0, vs)"
proof -
  let ?f = "mk_frame seq (encode_ints vs)"
  have "drop 2 ?f = encode_ints vs @ drop (length (encode_ints vs) + 2) ?f"
    by (simp add: mk_frame_def frame_body_def)
  then have "decode_loop (length vs) 2 (2 + length (encode_ints vs)) ?f =
      Some (Inr (vs, 2 + length (encode_ints vs)))"
    by (intro decode_loop_ints) simp_all
  then show ?thesis by (simp add: msgblock_decode_def message_consts Let_def)
qed

lemma decode_loop_defined:
  assumes "e \<le> q" and "q < length buf" and "\<not> bit (buf ! q) 7"
  shows "decode_loop n p e buf \<noteq> None"
proof (induction n arbitrary: p)
  case (Suc n)
  show ?case
  proof (cases "p \<ge> e")
    case False
    then obtain v r where "parse_int (drop p buf) = Some (v, r)"
      using parse_int_bounded [of p q buf] assms by auto
    then have "host_parse_int buf p = Some (v, length buf - length r)"
      using False assms by (simp add: host_parse_int_eq)
    with False Suc.IH show ?thesis by (simp add: bind_Some_None del: not_None_eq)
  qed simp
qed simp

section \<open>Queued messages\<close>

lemma host_encode_loop_fits:
  assumes "p + length (encode_ints vs) \<le> 59" and "length msg = 64"
  shows "host_encode_loop msg p vs =
    Some (take p msg @ encode_ints vs @ drop (p + length (encode_ints vs)) msg,
      Some (p + length (encode_ints vs)))"
  using assms
proof (induction vs arbitrary: msg p)
  case (Cons v vs)
  let ?q = "p + length (encode_int v)"
  let ?m = "take p msg @ encode_int v @ drop ?q msg"
  have "host_encode_loop ?m ?q vs =
    Some (take ?q ?m @ encode_ints vs @ drop (?q + length (encode_ints vs)) ?m,
      Some (?q + length (encode_ints vs)))"
    using Cons.prems by (intro Cons.IH) simp_all
  with Cons.prems show ?case
    by (simp add: buf_put_def message_consts Let_def ac_simps)
qed simp

lemma host_encode_loop_overflow:
  assumes "p \<le> 59" and "59 < p + length (encode_ints vs)" and "length msg = 64"
  shows "\<exists>m. host_encode_loop msg p vs = Some (m, None)"
  using assms
proof (induction vs arbitrary: msg p)
  case (Cons v vs)
  let ?q = "p + length (encode_int v)"
  have put: "buf_put msg p (encode_int v) = Some (take p msg @ encode_int v @ drop ?q msg)"
    using Cons.prems encode_int_le5 [of v] by (simp add: buf_put_def)
  show ?case
  proof (cases "?q \<le> 59")
    case True
    then have "\<exists>m. host_encode_loop (take p msg @ encode_int v @ drop ?q msg) ?q vs = Some (m, None)"
      using Cons.prems by (intro Cons.IH) simp_all
    with put True show ?thesis by (simp add: message_consts)
  next
    case False
    with put show ?thesis by (simp add: message_consts)
  qed
qed simp

lemma alloc_and_encode_result:
  "\<exists>qm. message_alloc_and_encode vs = Some qm \<and>
    (if length (encode_ints vs) \<le> 59
     then qm_len qm = int (length (encode_ints vs)) \<and>
       take (length (encode_ints vs)) (qm_msg qm) = encode_ints vs
     else qm_len qm = 0)"
proof (cases "length (encode_ints vs) \<le> 59")
  case True
  then show ?thesis
    using host_encode_loop_fits [of 0 vs "replicate 64 0"]
    by (simp add: message_alloc_and_encode_def message_alloc_def message_consts)
next
  case False
  then show ?thesis
    using host_encode_loop_overflow [of 0 vs "replicate 64 0"]
    by (auto simp: message_alloc_and_encode_def message_alloc_def message_consts)
qed

section \<open>Clock extension recovers the full clock\<close>

lemma clock_extend:
  assumes "- (2 ^ 31) \<le> sint (clock - last_clock)" and "sint (clock - last_clock) < 2 ^ 31"
  shows "clock_from_clock32 last_clock (ucast clock) = clock"
proof -
  have "(ucast (ucast (ucast clock :: u32) - last_clock :: u64) :: u32) = ucast (clock - last_clock)"
    by (simp add: ucast_down_diff ucast_down_up)
  with scast_ucast_small [OF assms] show ?thesis
    by (simp add: clock_from_clock32_def)
qed

section \<open>Correctness of the host side\<close>

text \<open>
  The host's block check accepts exactly the frames.  It returns a positive count if and
  only if no resynchronisation is pending and the buffer starts with a frame, and the count is
  the length of that frame; otherwise it asks for more data without a change, or discards up
  to the first sync byte, or the whole buffer when there is none.
\<close>

theorem check_accepts_frames:
  "case msgblock_check need_sync buf of (r, need_sync') \<Rightarrow>
    (r > 0 \<longleftrightarrow> need_sync = 0 \<and> (\<exists>seq payload rest. seq_ok seq \<and>
      length payload \<le> MESSAGE_PAYLOAD_MAX \<and> buf = mk_frame seq payload @ rest \<and>
      r = int (length payload + MESSAGE_MIN))) \<and>
    \<bar>r\<bar> \<le> int (length buf) \<and>
    (if r \<ge> 0 then need_sync' = need_sync
     else if MESSAGE_SYNC \<in> set buf then need_sync' = 0 \<and>
       MESSAGE_SYNC \<notin> set (take (nat (- r) - 1) buf) \<and> buf ! (nat (- r) - 1) = MESSAGE_SYNC
     else need_sync' = 1 \<and> nat (- r) = length buf)"
proof -
  obtain r ns' where e: "msgblock_check need_sync buf = (r, ns')" by fastforce
  have accept: "need_sync = 0 \<and> (\<exists>seq payload rest. seq_ok seq \<and> length payload \<le> 59 \<and>
      buf = mk_frame seq payload @ rest \<and> r = int (length payload + 5))" if "r > 0"
  proof -
    have b: "need_sync = 0" "block_ok buf (unat (buf ! 0))"
      using that check_valid [of need_sync buf] e by auto
    obtain payload rest where p: "length payload = unat (buf ! 0) - 5"
      "buf = mk_frame (buf ! 1) payload @ rest"
      using block_ok_frame [OF b(2)] by blast
    have n: "unat (buf ! 0) = length payload + 5" "length payload \<le> 59" "seq_ok (buf ! 1)"
      using p(1) b(2) by (auto simp: block_ok_def)
    have "r = int (length payload + 5)"
      using check_value [OF b(2)] e b(1) unfolding n(1) by simp
    then show ?thesis using b(1) p(2) n by blast
  qed
  have discard: "if MESSAGE_SYNC \<in> set buf then ns' = 0 \<and>
        MESSAGE_SYNC \<notin> set (take (nat (- r) - 1) buf) \<and> buf ! (nat (- r) - 1) = MESSAGE_SYNC
      else ns' = 1 \<and> nat (- r) = length buf" if "r < 0"
  proof -
    have "msgblock_check_error buf = (r, ns')"
      using that e unfolding msgblock_check_def Let_def
      by (auto split: if_splits)
    then show ?thesis
      by (cases "memchr buf MESSAGE_SYNC")
        (auto simp: msgblock_check_error_def memchr_None nat_add_distrib in_set_conv_nth
          dest!: memchr_Some)
  qed
  show ?thesis
    using e accept discard check_range [OF e] by (auto simp: message_consts)
qed

text \<open>
  Building a queued message from integers never writes outside the message buffer.  It
  yields the concatenated encodings when they fit a payload, and an empty message otherwise.
\<close>

theorem alloc_and_encode_correct:
  "\<exists>qm. message_alloc_and_encode data = Some qm \<and>
    (if length (concat (map encode_int data)) \<le> MESSAGE_PAYLOAD_MAX
     then qm_len qm = int (length (concat (map encode_int data))) \<and>
       take (nat (qm_len qm)) (qm_msg qm) = concat (map encode_int data)
     else qm_len qm = 0)"
  using alloc_and_encode_result [of data]
  by (auto simp: message_consts encode_ints_def split: if_splits)

text \<open>
  A 32-bit clock read from the micro-controller is extended to the right 64-bit clock, as
  long as it is less than \<open>2 ^ 31\<close> ticks away from the last known clock, also across a
  wrap of the low word.
\<close>

theorem clock_from_clock32_correct:
  assumes "- (2 ^ 31) \<le> sint (clock - last_clock)" and "sint (clock - last_clock) < 2 ^ 31"
  shows "clock_from_clock32 last_clock (ucast clock) = clock"
  using assms by (rule clock_extend)

theorem clock_from_clock32_correct_witness:
  "clock_from_clock32 0x1fffffff0 (ucast (0x200000010 :: u64)) = 0x200000010"
  by (rule clock_from_clock32_correct) simp_all

end
