(* ===== verification/Sched.thy ===== *)
theory Sched
  imports Command
begin

text \<open>
  The scheduler (\<^verbatim>\<open>src/sched.c\<close>): the linked list of timers with its periodic,
  sentinel and deleted timers, the wake flags of tasks and the shutdown state.  A timer is
  named by its address; \<^verbatim>\<open>next\<close> and \<^verbatim>\<open>waketime\<close> of all timers are two
  maps, and \<open>None\<close> is the null pointer.  The callback of a user timer is the parameter
  \<open>func\<close> of the dispatcher.  Interrupts are masked while the list changes, so every
  operation is one atomic step.
\<close>

section \<open>State\<close>

text \<open>\<open>T_obj oid k\<close> is the \<open>k\<close>-th timer embedded in the object with that id.\<close>

datatype timer_id = T_periodic | T_sentinel | T_deleted | T_obj nat nat

datatype sf = SF_DONE | SF_RESCHEDULE

record sched_s = command_s +
  tm_next :: "timer_id \<Rightarrow> timer_id option"
  tm_wake :: "timer_id \<Rightarrow> u32"
  timer_list :: timer_id
  last_insert :: timer_id
  tasks_status :: int
  shutdown_status :: u8
  shutdown_reason :: reason
  task_wakes :: "string \<Rightarrow> u8"
  timer_repeat_until :: u32

abbreviation set_next :: "timer_id \<Rightarrow> timer_id option \<Rightarrow> 'a sched_s_scheme \<Rightarrow> 'a sched_s_scheme" where
  "set_next t n s \<equiv> s\<lparr>tm_next := (tm_next s)(t := n)\<rparr>"

abbreviation set_wake :: "timer_id \<Rightarrow> u32 \<Rightarrow> 'a sched_s_scheme \<Rightarrow> 'a sched_s_scheme" where
  "set_wake t w s \<equiv> s\<lparr>tm_wake := (tm_wake s)(t := w)\<rparr>"

definition TS_IDLE :: int where "TS_IDLE = - 1"
definition TS_REQUESTED :: int where "TS_REQUESTED = 0"
definition TS_RUNNING :: int where "TS_RUNNING = 1"

text \<open>The static initialisers of the timers and of \<^verbatim>\<open>SchedStatus\<close>.\<close>

definition sched_init :: "command_s \<Rightarrow> sched_s" where
  "sched_init s = command_s.extend s
    \<lparr>tm_next = (\<lambda>_. None)(T_periodic := Some T_sentinel),
     tm_wake = (\<lambda>_. 0)(T_sentinel := 0x80000000),
     timer_list = T_periodic, last_insert = T_periodic,
     tasks_status = 0, shutdown_status = 0, shutdown_reason = '''', task_wakes = (\<lambda>_. 0),
     timer_repeat_until = 0\<rparr>"

section \<open>Tasks\<close>

definition sched_wake_tasks :: "('a sched_s_scheme, unit) fw" where
  "sched_wake_tasks = upd (\<lambda>s. s\<lparr>tasks_status := TS_REQUESTED\<rparr>)"

definition sched_tasks_busy :: "('a sched_s_scheme, bool) fw" where
  "sched_tasks_busy = gets (\<lambda>s. tasks_status s \<ge> TS_REQUESTED)"

definition sched_wake_task :: "string \<Rightarrow> ('a sched_s_scheme, unit) fw" where
  "sched_wake_task w =
    thn sched_wake_tasks (upd (\<lambda>s. s\<lparr>task_wakes := (task_wakes s)(w := 1)\<rparr>))"

definition sched_check_wake :: "string \<Rightarrow> ('a sched_s_scheme, bool) fw" where
  "sched_check_wake w =
    bnd (gets (\<lambda>s. task_wakes s w)) (\<lambda>f.
    if f = 0 then ret False
    else thn (upd (\<lambda>s. s\<lparr>task_wakes := (task_wakes s)(w := 0)\<rparr>)) (ret True))"

section \<open>Shutdown state\<close>

definition sched_is_shutdown :: "('a sched_s_scheme, bool) fw" where
  "sched_is_shutdown = gets (\<lambda>s. shutdown_status s \<noteq> 0)"

definition sched_clear_shutdown :: "('a sched_s_scheme, unit) fw" where
  "sched_clear_shutdown =
    bnd (gets shutdown_status) (\<lambda>st.
    thn (shutdown_if (st = 0) ''Shutdown cleared when not shutdown'')
    (if st = 2 then ret ()
     else upd (\<lambda>s. s\<lparr>shutdown_status := 0\<rparr>)))"

definition sched_report_shutdown :: "('a sched_s_scheme, unit) fw" where
  "sched_report_shutdown s =
    sendf ''is_shutdown static_string_id=%hu'' [A_bytes (map of_char (shutdown_reason s))] s"

definition sched_try_shutdown :: "reason \<Rightarrow> ('a sched_s_scheme, unit) fw" where
  "sched_try_shutdown reason =
    bnd (gets shutdown_status) (\<lambda>st. if st = 0 then shutdown reason else ret ())"

section \<open>Timers\<close>

text \<open>
  The search loop of \<^verbatim>\<open>insert_timer\<close>: it follows \<^verbatim>\<open>next\<close> until it meets a timer
  that is due later and returns that timer with its predecessor.  \<open>None\<close> is the null
  dereference at the end of the list, or a loop that never ends.
\<close>

partial_function (option) insert_loop ::
  "(timer_id \<Rightarrow> timer_id option) \<Rightarrow> (timer_id \<Rightarrow> u32) \<Rightarrow> u32 \<Rightarrow> timer_id \<Rightarrow> (timer_id \<times> timer_id) option"
where
  "insert_loop nx wk waketime prev =
    (case nx prev of None \<Rightarrow> None
     | Some pos \<Rightarrow>
         if timer_is_before waketime (wk pos) then Some (prev, pos)
         else insert_loop nx wk waketime pos)"

definition insert_timer :: "timer_id \<Rightarrow> timer_id \<Rightarrow> u32 \<Rightarrow> ('a sched_s_scheme, unit) fw" where
  "insert_timer pos t waketime s =
    (case insert_loop (tm_next s) (tm_wake s) waketime pos of
       None \<Rightarrow> (Inl Stuck, s)
     | Some (prev, pos') \<Rightarrow> (Inr (), set_next prev (Some t) (set_next t (Some pos') s)))"

definition sched_add_timer :: "timer_id \<Rightarrow> ('a sched_s_scheme, unit) fw" where
  "sched_add_timer add =
    bnd (gets (\<lambda>s. tm_wake s add)) (\<lambda>waketime.
    bnd (gets timer_list) (\<lambda>tl.
    bnd (gets (\<lambda>s. tm_wake s tl)) (\<lambda>tl_waketime.
    if timer_is_before waketime tl_waketime then
      bnd timer_read_time (\<lambda>now.
      thn (if timer_is_before waketime now then sched_try_shutdown ''Timer too close'' else ret ())
      (thn (upd (\<lambda>s. if tl = T_deleted then set_next add (tm_next s T_deleted) s
                     else set_next add (Some tl) s))
      (thn (upd (set_wake T_deleted waketime))
      (thn (upd (set_next T_deleted (Some add)))
      (thn (upd (\<lambda>s. s\<lparr>timer_list := T_deleted\<rparr>)) timer_kick)))))
    else insert_timer tl add waketime)))"

text \<open>The search of \<^verbatim>\<open>sched_del_timer\<close>; it stops at the end of the list.\<close>

partial_function (option) del_loop ::
  "(timer_id \<Rightarrow> timer_id option) \<Rightarrow> timer_id \<Rightarrow> timer_id \<Rightarrow> (timer_id option) option"
where
  "del_loop nx del pos =
    (case nx pos of None \<Rightarrow> Some None
     | Some p \<Rightarrow> if p = del then Some (Some pos) else del_loop nx del p)"

definition sched_del_timer :: "timer_id \<Rightarrow> ('a sched_s_scheme, unit) fw" where
  "sched_del_timer del =
    bnd (gets timer_list) (\<lambda>tl.
    thn (if tl = del then
           thn (upd (\<lambda>s. set_wake T_deleted (tm_wake s del) s))
           (thn (upd (\<lambda>s. set_next T_deleted (tm_next s del) s))
           (upd (\<lambda>s. s\<lparr>timer_list := T_deleted\<rparr>)))
         else
           bnd (gets tm_next) (\<lambda>nx.
           case del_loop nx del tl of
             None \<Rightarrow> stuck
           | Some None \<Rightarrow> ret ()
           | Some (Some pos) \<Rightarrow> upd (\<lambda>s. set_next pos (tm_next s del) s)))
    (upd (\<lambda>s. if last_insert s = del then s\<lparr>last_insert := T_periodic\<rparr> else s)))"

section \<open>Timer events\<close>

definition periodic_event :: "('a sched_s_scheme, sf) fw" where
  "periodic_event =
    thn sched_wake_tasks
    (thn (upd (\<lambda>s. set_wake T_periodic (tm_wake s T_periodic + timer_from_us 100000 s) s))
    (thn (upd (\<lambda>s. set_wake T_sentinel (tm_wake s T_periodic + 0x80000000) s))
    (ret SF_RESCHEDULE)))"

definition sentinel_event :: "('a sched_s_scheme, sf) fw" where
  "sentinel_event = shutdown ''sentinel timer called''"

definition deleted_event :: "('a sched_s_scheme, sf) fw" where
  "deleted_event = ret SF_DONE"

fun timer_func :: "(nat \<Rightarrow> nat \<Rightarrow> ('a sched_s_scheme, sf) fw) \<Rightarrow> timer_id \<Rightarrow> ('a sched_s_scheme, sf) fw" where
  "timer_func func T_periodic = periodic_event"
| "timer_func func T_sentinel = sentinel_event"
| "timer_func func T_deleted = deleted_event"
| "timer_func func (T_obj oid k) = func oid k"

text \<open>A dereference of \<^verbatim>\<open>t->next\<close>.\<close>

definition next_of :: "timer_id \<Rightarrow> ('a sched_s_scheme, timer_id) fw" where
  "next_of t = bnd (gets (\<lambda>s. tm_next s t)) (\<lambda>n. case n of None \<Rightarrow> stuck | Some x \<Rightarrow> ret x)"

text \<open>The update of the list after the callback of \<open>t\<close> returned \<open>res\<close>.\<close>

definition timer_update :: "timer_id \<Rightarrow> sf \<Rightarrow> ('a sched_s_scheme, u32) fw" where
  "timer_update t res =
    bnd (gets (\<lambda>s. tm_wake s t)) (\<lambda>updated_waketime.
    bnd (next_of t) (\<lambda>nt.
    bnd (gets (\<lambda>s. tm_wake s nt)) (\<lambda>nt_waketime.
    if res = SF_DONE then
      thn (upd (\<lambda>s. s\<lparr>timer_list := nt\<rparr>))
      (thn (upd (\<lambda>s. if last_insert s = t then s\<lparr>last_insert := nt\<rparr> else s))
      (ret nt_waketime))
    else if \<not> timer_is_before updated_waketime nt_waketime then
      thn (upd (\<lambda>s. s\<lparr>timer_list := nt\<rparr>))
      (bnd (gets last_insert) (\<lambda>pos.
      bnd (gets (\<lambda>s. tm_wake s pos)) (\<lambda>pos_waketime.
      thn (insert_timer (if timer_is_before updated_waketime pos_waketime then nt else pos)
             t updated_waketime)
      (thn (upd (\<lambda>s. s\<lparr>last_insert := t\<rparr>))
      (ret nt_waketime)))))
    else ret updated_waketime)))"

definition sched_timer_dispatch ::
  "(nat \<Rightarrow> nat \<Rightarrow> ('a sched_s_scheme, sf) fw) \<Rightarrow> ('a sched_s_scheme, u32) fw" where
  "sched_timer_dispatch func =
    bnd (gets timer_list) (\<lambda>t. bnd (timer_func func t) (timer_update t))"

definition sched_timer_reset :: "('a sched_s_scheme, unit) fw" where
  "sched_timer_reset =
    thn (upd (\<lambda>s. s\<lparr>timer_list := T_deleted\<rparr>))
    (thn (upd (\<lambda>s. set_wake T_deleted (tm_wake s T_periodic) s))
    (thn (upd (\<lambda>s. set_next T_deleted (Some T_periodic) (s\<lparr>last_insert := T_periodic\<rparr>)))
    (thn (upd (set_next T_periodic (Some T_sentinel)))
    timer_kick)))"

text \<open>
  The shutdown entry of \<^verbatim>\<open>sched_main\<close>; \<open>shutdownfuncs\<close> is the generated call of all
  functions declared with \<^verbatim>\<open>DECL_SHUTDOWN\<close>.
\<close>

definition run_shutdown :: "('a sched_s_scheme, unit) fw \<Rightarrow> reason \<Rightarrow> ('a sched_s_scheme, unit) fw" where
  "run_shutdown shutdownfuncs reason =
    bnd timer_read_time (\<lambda>cur.
    thn (upd (\<lambda>s. if shutdown_status s = 0 then s\<lparr>shutdown_reason := reason\<rparr> else s))
    (thn (upd (\<lambda>s. s\<lparr>shutdown_status := 2\<rparr>))
    (thn sched_timer_reset
    (thn shutdownfuncs
    (thn (upd (\<lambda>s. s\<lparr>shutdown_status := 1\<rparr>))
    (bnd (gets shutdown_reason) (\<lambda>r.
    sendf ''shutdown clock=%u static_string_id=%hu''
      [A_int cur, A_bytes (map of_char r)])))))))"

section \<open>The search loops on a linked list\<close>

lemma insert_loop_list:
  assumes "chain nx (p # as @ x # bs)" and "\<forall>a\<in>set as. \<not> timer_is_before w (wk a)"
    and "timer_is_before w (wk x)"
  shows "insert_loop nx wk w p = Some (last (p # as), x)"
  using assms
proof (induction as arbitrary: p)
  case Nil
  then show ?case by (subst insert_loop.simps) simp
next
  case (Cons a as)
  then show ?case by (subst insert_loop.simps) simp
qed

lemma del_loop_found:
  "chain nx (p # as @ d # bs) \<Longrightarrow> d \<notin> set as \<Longrightarrow> del_loop nx d p = Some (Some (last (p # as)))"
proof (induction as arbitrary: p)
  case Nil
  then show ?case by (subst del_loop.simps) simp
next
  case (Cons a as)
  then show ?case by (subst del_loop.simps) auto
qed

lemma del_loop_absent:
  "chain nx (p # as) \<Longrightarrow> d \<notin> set as \<Longrightarrow> del_loop nx d p = Some None"
proof (induction as arbitrary: p)
  case Nil
  then show ?case by (subst del_loop.simps) simp
next
  case (Cons a as)
  then show ?case by (subst del_loop.simps) auto
qed

section \<open>The timer queue\<close>

definition key :: "u32 \<Rightarrow> 'a sched_s_scheme \<Rightarrow> timer_id \<Rightarrow> nat" where
  "key b s t = off b (tm_wake s t)"

text \<open>
  \<open>queue_ok b ts s\<close>: the list \<open>ts\<close> is linked, ends with the sentinel and is sorted by due
  time, all times but the sentinel's being less than \<open>2 ^ 31\<close> ticks after \<open>b\<close>.
\<close>

definition queue_ok :: "u32 \<Rightarrow> timer_id list \<Rightarrow> 'a sched_s_scheme \<Rightarrow> bool" where
  "queue_ok b ts s \<longleftrightarrow>
    chain (tm_next s) ts \<and> distinct ts \<and> last ts = T_sentinel \<and>
    (\<forall>t\<in>set ts - {T_sentinel}. key b s t < 2 ^ 31) \<and> sorted (map (key b s) ts)"

definition far_ok :: "u32 \<Rightarrow> 'a sched_s_scheme \<Rightarrow> bool" where
  "far_ok b s \<longleftrightarrow> tm_wake s T_sentinel = tm_wake s T_periodic + 0x80000000 \<and>
    key b s T_periodic < 2 ^ 31"

definition timers :: "u32 \<Rightarrow> timer_id list \<Rightarrow> 'a sched_s_scheme \<Rightarrow> bool" where
  "timers b ts s \<longleftrightarrow> queue_ok b ts s \<and> far_ok b s \<and> hd ts = timer_list s \<and>
    T_periodic \<in> set ts \<and> T_deleted \<notin> set (tl ts) \<and>
    last_insert s \<in> set ts - {T_sentinel, T_deleted}"

lemma key_sentinel: "far_ok b s \<Longrightarrow> key b s T_sentinel = key b s T_periodic + 2 ^ 31"
  by (simp add: far_ok_def key_def off_far)

lemma before_key:
  assumes "far_ok b s" and "off b w < 2 ^ 31" and "x = T_sentinel \<or> key b s x < 2 ^ 31"
  shows "timer_is_before w (tm_wake s x) \<longleftrightarrow>
    (if x = T_sentinel then key b s T_periodic \<le> off b w else off b w < key b s x)"
  using assms before_far [of b w "tm_wake s T_periodic"] before_window [of b w "tm_wake s x"]
  by (auto simp: far_ok_def key_def)

text \<open>The search from a timer that is not due later finds the place of the sorted insertion.\<close>

lemma insert_place:
  assumes q: "queue_ok b (pre @ p # xs) s" and f: "far_ok b s"
    and w: "tm_wake s t = w" "key b s t < 2 ^ 31" and p: "key b s p \<le> key b s t"
    and per: "T_periodic \<in> set (pre @ p # xs) \<or> t = T_periodic"
    and t: "t \<notin> set (pre @ p # xs)"
  shows "\<exists>s'. insert_timer p t w s = (Inr (), s') \<and>
    (\<exists>nx. s' = s\<lparr>tm_next := nx\<rparr> \<and> chain nx (insort_after (key b s) t (pre @ p # xs)))"
proof -
  let ?k = "key b s"
  have srt: "sorted (map ?k (pre @ p # xs))" and win: "\<forall>y\<in>set (pre @ p # xs) - {T_sentinel}. ?k y < 2 ^ 31"
    and ch: "chain (tm_next s) (pre @ p # xs)" and dis: "distinct (pre @ p # xs)"
    and lst: "last (pre @ p # xs) = T_sentinel"
    using q by (auto simp: queue_ok_def)
  have ks: "?k t < ?k T_sentinel" using key_sentinel [OF f] w(2) by simp
  then have "p \<noteq> T_sentinel" using p by auto
  then have xs: "xs \<noteq> []" "last xs = T_sentinel" using lst by (auto split: if_splits)
  define as where "as = takeWhile (\<lambda>y. ?k y \<le> ?k t) xs"
  have "dropWhile (\<lambda>y. ?k y \<le> ?k t) xs \<noteq> []"
    using xs ks last_in_set [OF xs(1)] by (auto simp: not_le)
  then obtain x bs where xb: "dropWhile (\<lambda>y. ?k y \<le> ?k t) xs = x # bs" by (cases "dropWhile (\<lambda>y. ?k y \<le> ?k t) xs") auto
  then have split: "xs = as @ x # bs" unfolding as_def by (metis takeWhile_dropWhile_id)
  have kx: "?k t < ?k x" using xb by (simp add: dropWhile_eq_Cons_conv)
  have ws: "off b w = ?k t" using w(1) by (simp add: key_def)
  have as_le: "\<not> timer_is_before w (tm_wake s a)" if "a \<in> set as" for a
  proof -
    have "?k a \<le> ?k t" using that unfolding as_def by (meson set_takeWhileD)
    moreover have "a \<in> set xs" using that unfolding as_def by (meson set_takeWhileD)
    ultimately show ?thesis using before_key [OF f, of w a] win w(2) ks ws by auto
  qed
  have lo: "\<forall>y\<in>set (pre @ p # as). ?k y \<le> ?k t"
    using srt p by (auto simp: sorted_append as_def dest: set_takeWhileD)
  have "timer_is_before w (tm_wake s x)"
  proof (cases "x = T_sentinel")
    case True
    have "?k T_periodic \<le> ?k t"
    proof (cases "t = T_periodic")
      case False
      with per have "T_periodic \<in> set (pre @ p # as @ x # bs)" unfolding split by simp
      moreover have "bs = []"
      proof (rule ccontr)
        assume "bs \<noteq> []"
        then have "T_sentinel \<in> set bs"
          using xs(2) last_in_set [of bs] unfolding split by simp
        with dis True show False unfolding split by simp
      qed
      ultimately show ?thesis using lo True by auto
    qed simp
    then show ?thesis using before_key [OF f, of w x] True w(2) ws by simp
  next
    case False
    have "x \<in> set xs" unfolding split by simp
    then show ?thesis using before_key [OF f, of w x] False win w(2) ws kx by auto
  qed
  moreover have "chain (tm_next s) (p # as @ x # bs)"
    using ch unfolding split by (simp add: chain_split)
  ultimately have il: "insert_loop (tm_next s) (tm_wake s) w p = Some (last (p # as), x)"
    using as_le by (intro insert_loop_list) auto
  let ?q = "last (p # as)"
  obtain zs where zs: "pre @ p # as = zs @ [?q]" by (metis append_butlast_last_id append_is_Nil_conv last_appendR list.discI)
  have whole: "pre @ p # xs = zs @ ?q # x # bs" using zs unfolding split by (metis append.assoc append_Cons append_Nil)
  have "insort_after ?k t (pre @ p # xs) = (pre @ p # as) @ t # x # bs"
    using insort_after_append [OF lo, of "x # bs"] kx unfolding split by simp
  then have ins: "insort_after ?k t (pre @ p # xs) = zs @ ?q # t # x # bs" unfolding zs by simp
  show ?thesis
    unfolding insert_timer_def il
    using chain_insert [of "tm_next s" zs ?q x bs t] ch dis t ins unfolding whole
    by (auto intro!: exI)
qed

text \<open>The timers that will fire: all of the list but the placeholder of a deleted head.\<close>

definition pending :: "timer_id list \<Rightarrow> timer_id list" where
  "pending ts = filter (\<lambda>t. t \<noteq> T_deleted) ts"

lemma pending_simps [simp]:
  "pending [] = []"
  "pending (t # ts) = (if t = T_deleted then pending ts else t # pending ts)"
  "T_deleted \<notin> set ts \<Longrightarrow> pending ts = ts"
  by (auto simp: pending_def intro: filter_True)

lemma timers_hd:
  assumes "timers b ts s"
  obtains xs where "ts = timer_list s # xs" "timer_list s \<noteq> T_sentinel" "xs \<noteq> []"
    "key b s (timer_list s) < 2 ^ 31" "T_deleted \<notin> set xs" "tm_next s (timer_list s) = Some (hd xs)"
    "chain (tm_next s) xs"
proof -
  have q: "chain (tm_next s) ts" "distinct ts" "last ts = T_sentinel" "hd ts = timer_list s"
    "T_periodic \<in> set ts" "T_deleted \<notin> set (tl ts)"
    "\<forall>t\<in>set ts - {T_sentinel}. key b s t < 2 ^ 31"
    using assms by (auto simp: timers_def queue_ok_def)
  obtain h xs where ts: "ts = h # xs" using q(1) by (cases ts) (auto simp: chain_def)
  have h: "h = timer_list s" using q(4) ts by simp
  have "h \<noteq> T_sentinel"
  proof
    assume "h = T_sentinel"
    with q(2,3) ts have "xs = []" by (metis distinct.simps(2) last_ConsR last_in_set)
    with q(5) ts \<open>h = T_sentinel\<close> show False by simp
  qed
  moreover from this have "xs \<noteq> []" using q(3) ts by auto
  ultimately show thesis using that [of xs] ts h q by (cases xs) auto
qed

lemma before_head:
  assumes "timers b ts s" and "off b w < 2 ^ 31"
  shows "timer_is_before w (tm_wake s (timer_list s)) \<longleftrightarrow> off b w < key b s (timer_list s)"
proof -
  obtain xs where "timer_list s \<noteq> T_sentinel" "key b s (timer_list s) < 2 ^ 31"
    using timers_hd [OF assms(1)] by metis
  moreover have "far_ok b s" using assms(1) by (simp add: timers_def)
  ultimately show ?thesis using before_key [of b s w "timer_list s"] assms(2) by simp
qed

lemma queue_ok_insort:
  assumes q: "queue_ok b ts s" and f: "far_ok b s" and t: "t \<notin> set ts" "key b s t < 2 ^ 31"
    and nx: "chain nx (insort_after (key b s) t ts)" and s': "tm_next s' = nx" "tm_wake s' = tm_wake s"
  shows "queue_ok b (insort_after (key b s) t ts) s'"
proof -
  have k: "key b s' = key b s" by (rule ext) (simp add: key_def s')
  have "ts \<noteq> []" using q by (auto simp: queue_ok_def chain_def)
  moreover have "key b s t < key b s (last ts)" using q key_sentinel [OF f] t(2) by (simp add: queue_ok_def)
  ultimately show ?thesis
    using q t nx unfolding queue_ok_def k s'(1)
    by (auto simp: last_insort_after sorted_insort_after)
qed

lemma add_timer_early:
  assumes tm: "timers b ts s" and a: "add \<notin> set ts" "add \<notin> {T_periodic, T_sentinel, T_deleted}"
    and w: "key b s add < key b s (timer_list s)"
    and s': "s' = s\<lparr>tm_next := (tm_next s)(add := if timer_list s = T_deleted then tm_next s T_deleted
        else Some (timer_list s), T_deleted := Some add), tm_wake := (tm_wake s)(T_deleted := tm_wake s add),
        timer_list := T_deleted, bd_kicks := k, bd_clock_reads := n\<rparr>"
  shows "\<exists>ts'. timers b ts' s' \<and> pending ts' = insort_after (key b s) add (pending ts)"
proof -
  obtain xs where ts: "ts = timer_list s # xs" "timer_list s \<noteq> T_sentinel" "xs \<noteq> []"
    "key b s (timer_list s) < 2 ^ 31" "T_deleted \<notin> set xs" "tm_next s (timer_list s) = Some (hd xs)"
    "chain (tm_next s) xs"
    using timers_hd [OF tm] by metis
  let ?rest = "if timer_list s = T_deleted then xs else ts"
  have per: "T_periodic \<in> set ?rest" using tm ts(1) by (auto simp: timers_def)
  have li: "last_insert s \<in> set ?rest - {T_sentinel, T_deleted}" using tm ts(1) by (auto simp: timers_def)
  have q: "chain (tm_next s) ts" "distinct ts" "last ts = T_sentinel" "sorted (map (key b s) ts)"
     "\<forall>t\<in>set ts - {T_sentinel}. key b s t < 2 ^ 31" using tm by (auto simp: timers_def queue_ok_def)
  have d: "T_deleted \<notin> set ?rest" using ts(1,5) by auto
  have k: "key b s' x = (if x = T_deleted then key b s add else key b s x)" for x
    by (simp add: key_def s')
  have km: "map (key b s') ?rest = map (key b s) ?rest" using d by (auto simp: k)
  have cr: "chain (tm_next s) ?rest" and nr: "?rest \<noteq> []" using q(1) ts(1,3,7) by auto
  have ge: "\<forall>y\<in>set ts. key b s (timer_list s) \<le> key b s y" using q(4) unfolding ts(1) by simp
  have lo: "\<forall>y\<in>set ?rest. key b s add < key b s y" using ge w ts(1) by (fastforce split: if_splits)
  have "tm_next s' add = Some (hd ?rest)" "tm_next s' T_deleted = Some add"
    using a(2) ts(1,6) by (auto simp: s')
  moreover have "chain (tm_next s') ?rest"
    using cr d a(1) ts(1) by (auto simp: s' split: if_splits)
  ultimately have "chain (tm_next s') (T_deleted # add # ?rest)"
    using nr by (cases ?rest) auto
  moreover have "distinct (T_deleted # add # ?rest)" using q(2) a d ts(1) by auto
  moreover have "last (T_deleted # add # ?rest) = T_sentinel" using q(3) ts by auto
  moreover have "sorted (map (key b s') (T_deleted # add # ?rest))"
  proof -
    have "sorted (map (key b s') ?rest)" unfolding km using q(4) ts(1) by auto
    moreover have "\<forall>y\<in>set ?rest. key b s add \<le> key b s' y" using lo d by (auto simp: k less_imp_le)
    moreover have "key b s' T_deleted = key b s add" "key b s' add = key b s add" using k by auto
    ultimately show ?thesis by (auto split: if_splits)
  qed
  moreover have "\<forall>t\<in>set (T_deleted # add # ?rest) - {T_sentinel}. key b s' t < 2 ^ 31"
    using q(5) w ts(1,4) by (auto simp: k)
  ultimately have "queue_ok b (T_deleted # add # ?rest) s'" unfolding queue_ok_def by blast
  moreover have "far_ok b s'" using tm by (auto simp: timers_def far_ok_def k) (auto simp: s')
  ultimately have "timers b (T_deleted # add # ?rest) s'"
    using per li d a unfolding timers_def by (auto simp: s')
  moreover have "pending (T_deleted # add # ?rest) = insort_after (key b s) add (pending ts)"
  proof -
    have "pending ts = ?rest" using ts(1,5) by auto
    moreover have "insort_after (key b s) add ?rest = add # ?rest"
      using nr lo by (cases ?rest) auto
    ultimately show ?thesis using d a(2) by simp
  qed
  ultimately show ?thesis by blast
qed

lemma add_timer_late:
  assumes tm: "timers b ts s" and a: "add \<notin> set ts" "add \<notin> {T_periodic, T_sentinel, T_deleted}"
    and w: "key b s (timer_list s) \<le> key b s add" "key b s add < 2 ^ 31"
  shows "\<exists>s' ts'. insert_timer (timer_list s) add (tm_wake s add) s = (Inr (), s') \<and>
    (\<exists>nx. s' = s\<lparr>tm_next := nx\<rparr>) \<and>
    timers b ts' s' \<and> pending ts' = insort_after (key b s) add (pending ts)"
proof -
  obtain xs where ts: "ts = timer_list s # xs" "T_deleted \<notin> set xs"
    using timers_hd [OF tm] by metis
  have q: "queue_ok b ts s" "far_ok b s" "T_periodic \<in> set ts"
    using tm by (auto simp: timers_def)
  obtain s' nx where ins: "insert_timer (timer_list s) add (tm_wake s add) s = (Inr (), s')"
    "s' = s\<lparr>tm_next := nx\<rparr>" "chain nx (insort_after (key b s) add ts)"
    using insert_place [of b "[]" "timer_list s" xs s add] q a(1) w unfolding ts(1) by auto
  let ?ts = "insort_after (key b s) add ts"
  have "queue_ok b ?ts s'"
    using queue_ok_insort [OF q(1,2) a(1) w(2) ins(3), of s'] ins(2) by simp
  moreover have "far_ok b s'" using q(2) ins(2) by (simp add: far_ok_def key_def)
  moreover have "?ts = timer_list s # insort_after (key b s) add xs" using w(1) unfolding ts(1) by simp
  ultimately have "timers b ?ts s'"
    using tm a ts(2) ins(2) unfolding timers_def ts(1) by auto
  moreover have "pending ?ts = insort_after (key b s) add (pending ts)"
    using w(1) a(2) ts(2) unfolding ts(1) by auto
  ultimately show ?thesis using ins by blast
qed

text \<open>
  Adding a timer: a sorted insertion, or a shutdown when the timer is due before every other
  timer and already past.
\<close>

lemma add_timer_ok:
  assumes tm: "timers b ts s" and a: "add \<notin> set ts" "add \<notin> {T_periodic, T_sentinel, T_deleted}"
    and w: "key b s add < 2 ^ 31"
  shows "(\<exists>s' ts'. sched_add_timer add s = (Inr (), s') \<and> timers b ts' s' \<and>
      pending ts' = insort_after (key b s) add (pending ts) \<and>
      (\<forall>t. t \<noteq> T_deleted \<longrightarrow> tm_wake s' t = tm_wake s t)) \<or>
    (shutdown_status s = 0 \<and> timer_is_before (tm_wake s add) (bd_clock s (bd_clock_reads s)) \<and>
      key b s add < key b s (timer_list s) \<and>
      sched_add_timer add s = (Inl (Shut ''Timer too close''), snd (timer_read_time s)))"
proof (cases "key b s add < key b s (timer_list s)")
  case early: True
  then have bf: "timer_is_before (tm_wake s add) (tm_wake s (timer_list s))"
    using before_head [OF tm, of "tm_wake s add"] w by (simp add: key_def)
  show ?thesis
  proof (cases "timer_is_before (tm_wake s add) (bd_clock s (bd_clock_reads s)) \<and> shutdown_status s = 0")
    case True
    then show ?thesis
      using bf early
      by (simp add: sched_add_timer_def fw_unfold timer_read_time_def sched_try_shutdown_def)
  next
    case False
    let ?s = "s\<lparr>tm_next := (tm_next s)(add := if timer_list s = T_deleted then tm_next s T_deleted
        else Some (timer_list s), T_deleted := Some add), tm_wake := (tm_wake s)(T_deleted := tm_wake s add),
        timer_list := T_deleted, bd_kicks := Suc (bd_kicks s), bd_clock_reads := Suc (bd_clock_reads s)\<rparr>"
    have "sched_add_timer add s = (Inr (), ?s)"
      using bf False
      by (auto simp add: sched_add_timer_def fw_unfold timer_read_time_def sched_try_shutdown_def timer_kick_def)
    with add_timer_early [OF tm a early refl, of "Suc (bd_clock_reads s)" "Suc (bd_kicks s)"]
    show ?thesis by auto
  qed
next
  case False
  then have "\<not> timer_is_before (tm_wake s add) (tm_wake s (timer_list s))"
    using before_head [OF tm, of "tm_wake s add"] w by (simp add: key_def)
  then have "sched_add_timer add s = insert_timer (timer_list s) add (tm_wake s add) s"
    by (simp add: sched_add_timer_def fw_unfold)
  with add_timer_late [OF tm a _ w] False show ?thesis by (auto simp: not_less)
qed

lemma del_timer_middle:
  assumes tm: "timers b ts s" and d: "del \<in> set (tl ts)" "del \<notin> {T_periodic, T_sentinel}"
    and s': "tm_next s' = (tm_next s)(p := tm_next s del)" "tm_wake s' = tm_wake s"
      "timer_list s' = timer_list s" "last_insert s' = (if last_insert s = del then T_periodic else last_insert s)"
    and p: "ts = xs @ p # del # ys"
  shows "timers b (remove1 del ts) s'"
proof -
  have q: "chain (tm_next s) ts" "distinct ts" "last ts = T_sentinel" "sorted (map (key b s) ts)"
     "\<forall>t\<in>set ts - {T_sentinel}. key b s t < 2 ^ 31" "hd ts = timer_list s" "T_periodic \<in> set ts"
     "T_deleted \<notin> set (tl ts)" "far_ok b s"
    using tm by (auto simp: timers_def queue_ok_def)
  have k: "key b s' = key b s" by (rule ext) (simp add: key_def s')
  have "ys \<noteq> []" using q(3) d(2) unfolding p by auto
  then obtain y zs where ys: "ys = y # zs" by (cases ys) auto
  have r: "remove1 del ts = xs @ p # y # zs" using q(2) unfolding p ys by (auto simp: remove1_append)
  have "chain (tm_next s') (remove1 del ts)"
    unfolding r s' using q(1,2) unfolding p ys by (rule chain_delete)
  moreover have "last (remove1 del ts) = T_sentinel"
    unfolding r using q(3) unfolding p ys by simp
  ultimately have "queue_ok b (remove1 del ts) s'"
    using q unfolding queue_ok_def k by (auto simp: sorted_map_remove1)
  moreover have "far_ok b s'" using q(9) by (simp add: far_ok_def key_def s')
  moreover have "hd (remove1 del ts) = timer_list s'" unfolding r s' using q(6) unfolding p by (cases xs) auto
  moreover have "set (remove1 del ts) = set ts - {del}" using q(2) by simp
  moreover have "T_deleted \<notin> set (tl (remove1 del ts))" unfolding r using q(8) unfolding p ys by (cases xs) auto
  ultimately show ?thesis using tm d(2) s'(4) by (auto simp: timers_def)
qed

lemma del_timer_ok:
  assumes tm: "timers b ts s" and d: "del \<notin> {T_periodic, T_sentinel, T_deleted}"
  shows "\<exists>s' ts'. sched_del_timer del s = (Inr (), s') \<and> timers b ts' s' \<and>
    pending ts' = remove1 del (pending ts) \<and> (\<forall>t. t \<noteq> T_deleted \<longrightarrow> tm_wake s' t = tm_wake s t)"
proof -
  obtain xs where ts: "ts = timer_list s # xs" "timer_list s \<noteq> T_sentinel" "xs \<noteq> []"
    "key b s (timer_list s) < 2 ^ 31" "T_deleted \<notin> set xs" "tm_next s (timer_list s) = Some (hd xs)"
    "chain (tm_next s) xs"
    using timers_hd [OF tm] by metis
  have q: "chain (tm_next s) ts" "distinct ts" "far_ok b s" 
    "last_insert s \<in> set ts - {T_sentinel, T_deleted}"
    using tm by (auto simp: timers_def queue_ok_def)
  let ?li = "\<lambda>s. if last_insert s = del then s\<lparr>last_insert := T_periodic\<rparr> else s"
  consider "timer_list s = del" | "timer_list s \<noteq> del" "del \<in> set xs" | "timer_list s \<noteq> del" "del \<notin> set xs"
    by blast
  then show ?thesis
  proof cases
    case 1
    define s1 where "s1 = ?li (s\<lparr>tm_wake := (tm_wake s)(T_deleted := tm_wake s del),
      tm_next := (tm_next s)(T_deleted := tm_next s del), timer_list := T_deleted\<rparr>)"
    have e: "sched_del_timer del s = (Inr (), s1)"
      using 1 d by (simp add: sched_del_timer_def fw_unfold s1_def)
    have s1: "tm_wake s1 = (tm_wake s)(T_deleted := tm_wake s del)" "timer_list s1 = T_deleted"
      "tm_next s1 = (tm_next s)(T_deleted := tm_next s del)"
      "last_insert s1 = (if last_insert s = del then T_periodic else last_insert s)"
      by (simp_all add: s1_def)
    have k: "key b s1 t = (if t = T_deleted then key b s del else key b s t)" for t
      by (simp add: key_def s1)
    have km: "map (key b s1) xs = map (key b s) xs" using ts(5) by (auto simp: k)
    have qq: "sorted (map (key b s) ts)" "last ts = T_sentinel" "\<forall>t\<in>set ts - {T_sentinel}. key b s t < 2 ^ 31"
       "T_periodic \<in> set ts"
      using tm by (auto simp: timers_def queue_ok_def)
    have "sorted (map (key b s1) (T_deleted # xs))" 
      using qq(1) 1 unfolding ts(1) list.map km by (simp add: k)
    moreover have "chain (tm_next s1) (T_deleted # xs)"
      using ts 1 by (cases xs) (auto simp: s1)
    moreover have "distinct (T_deleted # xs)" "last (T_deleted # xs) = T_sentinel" using q(2) ts qq(2) by auto
    moreover have "\<forall>t\<in>set (T_deleted # xs) - {T_sentinel}. key b s1 t < 2 ^ 31"
       using qq(3) ts 1 unfolding k by auto
    ultimately have "queue_ok b (T_deleted # xs) s1" unfolding queue_ok_def by blast
    moreover have "far_ok b s1" using q(3) by (auto simp: far_ok_def key_def s1)
    ultimately have "timers b (T_deleted # xs) s1" 
      using q(4) qq(4) 1 d ts unfolding timers_def by (auto simp: s1)
    moreover have "pending (T_deleted # xs) = remove1 del (pending ts)" using ts 1 d by simp
    ultimately show ?thesis using e s1(1) by auto
  next
    case 2
    obtain as ys where xs: "xs = as @ del # ys" "del \<notin> set as" using split_list_first [OF 2(2)] by blast
    let ?p = "last (timer_list s # as)"
    obtain zs where zs: "timer_list s # as = zs @ [?p]" by (metis append_butlast_last_id list.discI)
    have p: "ts = zs @ ?p # del # ys" using zs unfolding ts(1) xs(1) by (metis append.assoc append_Cons append_Nil)
    let ?s = "?li (s\<lparr>tm_next := (tm_next s)(?p := tm_next s del)\<rparr>)"
    have "del_loop (tm_next s) del (timer_list s) = Some (Some ?p)"
      using q(1) xs by (intro del_loop_found) (auto simp: ts(1))
    then have e: "sched_del_timer del s = (Inr (), ?s)"
      using 2 by (simp add: sched_del_timer_def fw_unfold)
    have "del \<in> set (tl ts)" using 2(2) ts(1) by simp
    then have "timers b (remove1 del ts) ?s"
      using d by (intro del_timer_middle [OF tm _ _ _ _ _ _ p]) auto
    moreover have "pending (remove1 del ts) = remove1 del (pending ts)"
      using d by (simp add: pending_def filter_remove1)
    ultimately show ?thesis using e by (intro exI conjI) (assumption | simp)+
  next
    case 3
    then have "del_loop (tm_next s) del (timer_list s) = Some None"
      using q(1) by (intro del_loop_absent [where as = xs]) (auto simp: ts(1))
    moreover have "last_insert s \<noteq> del" using q(4) 3 ts(1) by auto
    ultimately have "sched_del_timer del s = (Inr (), s)"
      using 3 by (simp add: sched_del_timer_def fw_unfold)
    moreover have "remove1 del (pending ts) = pending ts"
      using 3 ts(1) by (intro remove1_idem) (auto simp: pending_def)
    ultimately show ?thesis using tm by auto
  qed
qed

section \<open>Dispatching a timer\<close>

text \<open>
  The state when the callback of the head \<open>t\<close> has returned: \<open>rest\<close> is the queue behind it.
  The callback may have added and deleted other timers and moved its own due time.
\<close>

definition running :: "u32 \<Rightarrow> timer_id \<Rightarrow> timer_id list \<Rightarrow> sf \<Rightarrow> 'a sched_s_scheme \<Rightarrow> bool" where
  "running b t rest res s \<longleftrightarrow>
    chain (tm_next s) (t # rest) \<and> t \<notin> set rest \<and> queue_ok b rest s \<and> far_ok b s \<and>
    t \<noteq> T_sentinel \<and> T_deleted \<notin> set rest \<and> T_periodic \<in> set (t # rest) \<and>
    last_insert s \<in> set (t # rest) - {T_sentinel, T_deleted} \<and>
    (if res = SF_DONE then t \<noteq> T_periodic
     else timer_list s = t \<and> t \<noteq> T_deleted \<and> key b s t < 2 ^ 31)"

lemma running_rest:
  assumes "running b t rest res s"
  obtains ys where "rest = hd rest # ys" "tm_next s t = Some (hd rest)" "chain (tm_next s) rest"
    "hd rest = T_sentinel \<Longrightarrow> t = T_periodic"
proof -
  have r: "chain (tm_next s) (t # rest)" "queue_ok b rest s" "T_periodic \<in> set (t # rest)"
    using assms by (auto simp: running_def)
  then obtain h ys where h: "rest = h # ys" by (cases rest) (auto simp: queue_ok_def chain_def)
  have "t = T_periodic" if "h = T_sentinel"
  proof -
    have "ys = []"
      using that r(2) h by (auto simp: queue_ok_def split: if_splits) (metis last_in_set)
    then show ?thesis using r(3) h that by simp
  qed
  then show thesis using that [of ys] h r(1) by simp
qed

lemma queue_ok_cong:
  "tm_next s' = tm_next s \<Longrightarrow> tm_wake s' = tm_wake s \<Longrightarrow> queue_ok b ts s' = queue_ok b ts s"
proof -
  assume "tm_next s' = tm_next s" "tm_wake s' = tm_wake s"
  then have "key b s' = key b s" by (intro ext) (simp add: key_def)
  with \<open>tm_next s' = tm_next s\<close> show ?thesis by (simp add: queue_ok_def)
qed

lemma far_ok_cong: "tm_wake s' = tm_wake s \<Longrightarrow> far_ok b s' = far_ok b s"
  by (simp add: far_ok_def key_def)

lemma update_done:
  assumes r: "running b t rest SF_DONE s"
  shows "\<exists>s'. timer_update t SF_DONE s = (Inr (tm_wake s (hd rest)), s') \<and> timers b rest s' \<and>
    tm_wake s' = tm_wake s \<and> timer_list s' = hd rest"
proof -
  obtain ys where rest: "rest = hd rest # ys" "tm_next s t = Some (hd rest)"
    "hd rest = T_sentinel \<Longrightarrow> t = T_periodic"
    using running_rest [OF r] by metis
  define s' where "s' = (let s1 = s\<lparr>timer_list := hd rest\<rparr> in
    if last_insert s1 = t then s1\<lparr>last_insert := hd rest\<rparr> else s1)"
  have s': "tm_wake s' = tm_wake s" "tm_next s' = tm_next s" "timer_list s' = hd rest"
    "last_insert s' = (if last_insert s = t then hd rest else last_insert s)"
    by (simp_all add: s'_def Let_def)
  have e: "timer_update t SF_DONE s = (Inr (tm_wake s (hd rest)), s')"
    using rest(2) by (simp add: timer_update_def next_of_def fw_unfold s'_def Let_def)
  have "hd rest \<in> set rest" using rest(1) by (metis list.set_intros(1))
  moreover have "set (tl rest) \<subseteq> set rest" by (cases rest) auto
  ultimately have "timers b rest s'"
    using r rest queue_ok_cong [of s' s b rest] far_ok_cong [of s' s b] s'
    unfolding timers_def running_def by auto
  then show ?thesis using e s' by auto
qed

lemma not_before_head:
  assumes r: "running b t rest SF_RESCHEDULE s"
  shows "timer_is_before (tm_wake s t) (tm_wake s (hd rest)) \<longleftrightarrow> key b s t < key b s (hd rest)"
proof -
  obtain ys where rest: "rest = hd rest # ys" "hd rest = T_sentinel \<Longrightarrow> t = T_periodic"
    using running_rest [OF r] by metis
  have q: "queue_ok b rest s" "far_ok b s" "key b s t < 2 ^ 31" using r by (auto simp: running_def)
  have "hd rest \<in> set rest" using rest(1) by (metis list.set_intros(1))
  then have "hd rest = T_sentinel \<or> key b s (hd rest) < 2 ^ 31" using q(1) by (auto simp: queue_ok_def)
  then show ?thesis
    using before_key [OF q(2), of "tm_wake s t" "hd rest"] q(3) rest(2) key_sentinel [OF q(2)]
    by (auto simp flip: key_def)
qed

lemma reinsert:
  assumes r: "running b t rest SF_RESCHEDULE s" and h: "key b s (hd rest) \<le> key b s t"
    and s1: "s1 = s\<lparr>timer_list := hd rest\<rparr>"
    and pos: "pos = (if timer_is_before (tm_wake s t) (tm_wake s (last_insert s)) then hd rest else last_insert s)"
  shows "\<exists>nx. insert_timer pos t (tm_wake s t) s1 = (Inr (), s1\<lparr>tm_next := nx\<rparr>) \<and>
    chain nx (insort_after (key b s) t rest)"
proof -
  have q: "queue_ok b rest s" "far_ok b s" "key b s t < 2 ^ 31" "t \<notin> set rest"
    "T_periodic \<in> set rest \<or> t = T_periodic" "last_insert s \<in> set (t # rest) - {T_sentinel, T_deleted}"
    using r by (auto simp: running_def)
  have q1: "queue_ok b rest s1" "far_ok b s1" 
    using q(1,2) queue_ok_cong [of s1 s b rest] far_ok_cong [of s1 s b] by (auto simp: s1)
  have k1: "key b s1 = key b s" by (rule ext) (simp add: s1 key_def)
  obtain ys where rest: "rest = hd rest # ys" "tm_next s t = Some (hd rest)"
    using running_rest [OF r] by metis
  have at: "\<exists>nx. insert_timer p t (tm_wake s t) s1 = (Inr (), s1\<lparr>tm_next := nx\<rparr>) \<and>
    chain nx (insort_after (key b s) t rest)" if p: "p \<in> set rest" "key b s p \<le> key b s t" for p
  proof -
    obtain pre xs where sp: "rest = pre @ p # xs" using split_list [OF p(1)] by blast
    show ?thesis
      using insert_place [of b pre p xs s1 t "tm_wake s t"] q1 q(3-5) p(2) unfolding sp k1
      by (auto simp: s1)
  qed
  have hd: "hd rest \<in> set rest" using rest(1) by (metis list.set_intros(1))
  show ?thesis
  proof (cases "pos = t")
    case True
    have "\<not> timer_is_before (tm_wake s t) (tm_wake s (hd rest))"
      using not_before_head [OF r] h by simp
    then have "insert_loop (tm_next s1) (tm_wake s1) (tm_wake s t) t
        = insert_loop (tm_next s1) (tm_wake s1) (tm_wake s t) (hd rest)"
      using rest(2) by (subst insert_loop.simps) (simp add: s1)
    then have "insert_timer t t (tm_wake s t) s1 = insert_timer (hd rest) t (tm_wake s t) s1"
      by (simp add: insert_timer_def)
    then show ?thesis using at [OF hd h] True by simp
  next
    case False
    have "pos \<in> set rest" using False q(6) hd by (auto simp: pos split: if_splits)
    moreover have "key b s pos \<le> key b s t"
    proof (cases "timer_is_before (tm_wake s t) (tm_wake s (last_insert s))")
      case False
      then have "last_insert s \<in> set rest - {T_sentinel}" using \<open>pos \<noteq> t\<close> q(6) by (auto simp: pos)
      then have "key b s (last_insert s) < 2 ^ 31" using q(1) by (auto simp: queue_ok_def)
      with False show ?thesis
        using before_key [OF q(2), of "tm_wake s t" "last_insert s"] q(3,6) by (auto simp: pos simp flip: key_def)
    qed (use h pos in auto)
    ultimately show ?thesis by (rule at)
  qed
qed

lemma update_reschedule:
  assumes r: "running b t rest SF_RESCHEDULE s"
  shows "\<exists>s'. timer_update t SF_RESCHEDULE s = (Inr (tm_wake s (timer_list s')), s') \<and>
    timers b (insort_after (key b s) t rest) s' \<and> tm_wake s' = tm_wake s"
proof -
  have q: "queue_ok b rest s" "far_ok b s" "key b s t < 2 ^ 31" "t \<notin> set rest"
    "T_periodic \<in> set (t # rest)" "last_insert s \<in> set (t # rest) - {T_sentinel, T_deleted}"
    "timer_list s = t" "t \<noteq> T_deleted" "t \<noteq> T_sentinel" "T_deleted \<notin> set rest" "chain (tm_next s) (t # rest)"
    using r by (auto simp: running_def)
  obtain ys where rest: "rest = hd rest # ys" "tm_next s t = Some (hd rest)"
    using running_rest [OF r] by metis
  show ?thesis
  proof (cases "key b s t < key b s (hd rest)")
    case True
    then have ins: "insort_after (key b s) t rest = t # rest" using rest(1) by (metis insort_after_simps(2) not_less)
    have "timer_update t SF_RESCHEDULE s = (Inr (tm_wake s t), s)"
      using rest(2) not_before_head [OF r] True by (simp add: timer_update_def next_of_def fw_unfold)
    moreover have "queue_ok b (t # rest) s"
    proof -
      have "sorted (map (key b s) (t # rest))"
        using True q(1) by (cases rest) (auto simp: queue_ok_def)
      then show ?thesis using q rest unfolding queue_ok_def by auto
    qed
    ultimately show ?thesis using q ins unfolding timers_def by auto
  next
    case False
    let ?pos = "if timer_is_before (tm_wake s t) (tm_wake s (last_insert s)) then hd rest else last_insert s"
    let ?s1 = "s\<lparr>timer_list := hd rest\<rparr>"
    obtain nx where nx: "insert_timer ?pos t (tm_wake s t) ?s1 = (Inr (), ?s1\<lparr>tm_next := nx\<rparr>)"
      "chain nx (insort_after (key b s) t rest)"
      using reinsert [OF r _ refl refl] False by auto
    let ?s2 = "?s1\<lparr>tm_next := nx, last_insert := t\<rparr>"
    have e: "timer_update t SF_RESCHEDULE s = (Inr (tm_wake s (hd rest)), ?s2)"
      using rest(2) not_before_head [OF r] False nx(1)
      by (simp add: timer_update_def next_of_def fw_unfold split: if_splits)
    have "queue_ok b (insort_after (key b s) t rest) ?s2"
      using queue_ok_insort [OF q(1,2,4,3) nx(2), of ?s2] by simp
    moreover have "far_ok b ?s2" using q(2) far_ok_cong [of ?s2 s b] by simp
    moreover have "insort_after (key b s) t rest = hd rest # insort_after (key b s) t ys"
      using False rest(1) by (metis insort_after_simps(2) not_less)
    moreover have "T_deleted \<notin> set ys" using q(10) rest(1) by (metis list.set_intros(2))
    moreover have "set rest = insert (hd rest) (set ys)" using rest(1) by (metis list.simps(15))
    ultimately have "timers b (insort_after (key b s) t rest) ?s2"
      using q unfolding timers_def by auto
    then show ?thesis using e by auto
  qed
qed

lemma periodic_running:
  assumes tm: "timers b ts s" and t: "timer_list s = T_periodic"
    and w: "off b (tm_wake s T_periodic + timer_from_us 100000 s) < 2 ^ 31"
  shows "\<exists>s'. periodic_event s = (Inr SF_RESCHEDULE, s') \<and>
    running b T_periodic (tl ts) SF_RESCHEDULE s' \<and>
    tm_wake s' = (tm_wake s)(T_periodic := tm_wake s T_periodic + timer_from_us 100000 s,
      T_sentinel := tm_wake s T_periodic + timer_from_us 100000 s + 0x80000000)"
proof -
  obtain xs where ts: "ts = T_periodic # xs" "xs \<noteq> []" "T_deleted \<notin> set xs"
    "tm_next s T_periodic = Some (hd xs)" "chain (tm_next s) xs"
    using timers_hd [OF tm] t by metis
  let ?w = "tm_wake s T_periodic + timer_from_us 100000 s"
  define s' where "s' = s\<lparr>tasks_status := TS_REQUESTED,
    tm_wake := (tm_wake s)(T_periodic := ?w, T_sentinel := ?w + 0x80000000)\<rparr>"
  have e: "periodic_event s = (Inr SF_RESCHEDULE, s')"
    by (simp add: periodic_event_def sched_wake_tasks_def fw_unfold timer_from_us_def s'_def)
  have q: "queue_ok b ts s" "last_insert s \<in> set ts - {T_sentinel, T_deleted}"
    using tm by (auto simp: timers_def)
  have d: "T_periodic \<notin> set xs" "distinct xs" "last xs = T_sentinel" "sorted (map (key b s) xs)"
    "\<forall>t\<in>set xs - {T_sentinel}. key b s t < 2 ^ 31"
    using q(1) ts(2) unfolding ts(1) by (auto simp: queue_ok_def)
  have f: "far_ok b s'" using w by (simp add: far_ok_def key_def s'_def)
  have k: "key b s' t = key b s t" if "t \<in> set xs - {T_sentinel}" for t
    using that d(1) by (auto simp: key_def s'_def)
  have xs: "xs = butlast xs @ [T_sentinel]" using d(3) ts(2) by (metis append_butlast_last_id)
  have nb: "T_sentinel \<notin> set (butlast xs)" using d(2) xs by (metis distinct_append distinct.simps not_distinct_conv_prefix)
  have bl: "set (butlast xs) \<subseteq> set xs - {T_sentinel}" using nb in_set_butlastD by fastforce
  have "sorted (map (key b s') xs)"
  proof -
    have eq: "map (key b s') (butlast xs) = map (key b s) (butlast xs)" using bl k by auto
    have "sorted (map (key b s') (butlast xs))" unfolding eq using d(4) by (subst (asm) xs) (simp add: sorted_append)
    moreover have "key b s' y \<le> key b s' T_sentinel" if "y \<in> set (butlast xs)" for y
    proof -
      have "y \<in> set xs - {T_sentinel}" using that bl by blast
      then have "key b s' y < 2 ^ 31" using d(5) k by auto
      then show ?thesis using key_sentinel [OF f] by simp
    qed
    ultimately have "sorted (map (key b s') (butlast xs) @ [key b s' T_sentinel])"
      by (auto simp: sorted_append)
    then show ?thesis by (subst xs) simp
  qed
  then have "queue_ok b xs s'"
    using d k ts(5) unfolding queue_ok_def by (auto simp: s'_def)
  moreover have "chain (tm_next s') (T_periodic # xs)" using ts by (cases xs) (auto simp: s'_def)
  ultimately have "running b T_periodic xs SF_RESCHEDULE s'"
    using f d(1) ts q(2) t w unfolding running_def by (auto simp: s'_def key_def)
  then show ?thesis using e ts(1) by (auto simp: s'_def)
qed

lemma deleted_running:
  assumes tm: "timers b ts s" and t: "timer_list s = T_deleted"
  shows "deleted_event s = (Inr SF_DONE, s) \<and> running b T_deleted (tl ts) SF_DONE s"
proof -
  obtain xs where ts: "ts = T_deleted # xs" "xs \<noteq> []" "T_deleted \<notin> set xs"
    "tm_next s T_deleted = Some (hd xs)" "chain (tm_next s) xs"
    using timers_hd [OF tm] t by metis
  then show ?thesis
    using tm unfolding timers_def running_def ts(1) queue_ok_def
    by (auto simp: deleted_event_def ret_def)
qed

text \<open>
  What the dispatcher relies on: a user callback that returns leaves the queue behind its own
  timer in order, and a timer it asks to reschedule inside the window.
\<close>

locale timer_callbacks =
  fixes func :: "nat \<Rightarrow> nat \<Rightarrow> ('a sched_s_scheme, sf) fw" and ok :: "'a sched_s_scheme \<Rightarrow> bool"
    and b :: u32
  assumes callback_running: "timers b ts s \<Longrightarrow> ok s \<Longrightarrow> timer_list s = T_obj oid k \<Longrightarrow>
    func oid k s = (Inr res, s') \<Longrightarrow> \<exists>rest. running b (T_obj oid k) rest res s'"
    and callback_total: "timers b ts s \<Longrightarrow> ok s \<Longrightarrow> timer_list s = T_obj oid k \<Longrightarrow>
    fst (func oid k s) \<noteq> Inl Stuck"
begin

lemma dispatch_queue:
  assumes tm: "timers b ts s" and ok: "ok s"
    and w: "timer_list s = T_periodic \<Longrightarrow> off b (tm_wake s T_periodic + timer_from_us 100000 s) < 2 ^ 31"
  shows "case sched_timer_dispatch func s of
      (Inr next, s') \<Rightarrow> (\<exists>ts'. timers b ts' s') \<and> next = tm_wake s' (timer_list s')
    | (Inl stop, s') \<Rightarrow> stop \<noteq> Stuck"
proof -
  have fin: "case timer_update t res s1 of (Inr next, s') \<Rightarrow>
      (\<exists>ts'. timers b ts' s') \<and> next = tm_wake s' (timer_list s') | (Inl stop, s') \<Rightarrow> stop \<noteq> Stuck"
    if "running b t rest res s1" for t rest res s1
  proof (cases res)
    case SF_DONE
    then show ?thesis using update_done [of b t rest s1] that by (auto intro!: exI [of _ rest])
  next
    case SF_RESCHEDULE
    then show ?thesis using update_reschedule [of b t rest s1] that
      by (auto intro!: exI [of _ "insort_after (key b s1) t rest"])
  qed
  show ?thesis
  proof (cases "timer_list s")
    case T_periodic
    then show ?thesis
      using periodic_running [OF tm T_periodic w] fin
      by (fastforce simp: sched_timer_dispatch_def bnd_def gets_def)
  next
    case T_sentinel
    then show ?thesis using timers_hd [OF tm] by metis
  next
    case T_deleted
    then show ?thesis
      using deleted_running [OF tm T_deleted] fin
      by (fastforce simp: sched_timer_dispatch_def bnd_def gets_def)
  next
    case (T_obj oid k)
    obtain r s1 where f: "func oid k s = (r, s1)" by fastforce
    show ?thesis
    proof (cases r)
      case (Inl e)
      then show ?thesis using callback_total [OF tm ok T_obj] f T_obj
        by (simp add: sched_timer_dispatch_def bnd_def gets_def)
    next
      case (Inr res)
      then obtain rest where "running b (T_obj oid k) rest res s1"
        using callback_running [OF tm ok T_obj] f by blast
      from fin [OF this] show ?thesis using f T_obj Inr
        by (simp add: sched_timer_dispatch_def bnd_def gets_def)
    qed
  qed
qed

end

section \<open>Shutdown\<close>

lemma reset_timers:
  assumes f: "far_ok b s" and n: "tm_next s T_sentinel = None"
  shows "\<exists>s'. sched_timer_reset s = (Inr (), s') \<and> timers b [T_deleted, T_periodic, T_sentinel] s' \<and>
    tm_wake s' = (tm_wake s)(T_deleted := tm_wake s T_periodic) \<and>
    shutdown_status s' = shutdown_status s \<and> shutdown_reason s' = shutdown_reason s"
  using assms key_sentinel [OF f]
  by (auto simp: sched_timer_reset_def fw_unfold timer_kick_def timers_def queue_ok_def far_ok_def
      key_def)

lemma timers_sentinel:
  assumes "timers b ts s"
  shows "far_ok b s \<and> tm_next s T_sentinel = None"
proof -
  have c: "chain (tm_next s) ts" "last ts = T_sentinel" "far_ok b s"
    using assms by (auto simp: timers_def queue_ok_def)
  then have "ts = butlast ts @ [T_sentinel]" by (metis append_butlast_last_id chain_def)
  then show ?thesis using c chain_split [of "tm_next s" "butlast ts" T_sentinel "[]"] by simp
qed

text \<open>A new shutdown records its reason; a shutdown during another one keeps the first reason.\<close>

lemma run_shutdown_result:
  assumes tm: "timers b ts s"
    and sf: "\<And>s1. timers b [T_deleted, T_periodic, T_sentinel] s1 \<Longrightarrow> shutdown_status s1 = 2 \<Longrightarrow>
      \<exists>s2. shutdownfuncs s1 = (Inr (), s2) \<and> (\<exists>ts2. timers b ts2 s2) \<and>
        shutdown_reason s2 = shutdown_reason s1"
  shows "\<exists>s' ts'. run_shutdown shutdownfuncs r s = (Inr (), s') \<and> timers b ts' s' \<and>
    shutdown_status s' = 1 \<and>
    shutdown_reason s' = (if shutdown_status s = 0 then r else shutdown_reason s)"
proof -
  define r0 where "r0 = (if shutdown_status s = 0 then r else shutdown_reason s)"
  define s0 where "s0 = s\<lparr>bd_clock_reads := Suc (bd_clock_reads s), shutdown_reason := r0,
    shutdown_status := 2\<rparr>"
  have f: "far_ok b s0" "tm_next s0 T_sentinel = None"
    using timers_sentinel [OF tm] far_ok_cong [of s0 s b] by (simp_all add: s0_def)
  obtain s1 where s1: "sched_timer_reset s0 = (Inr (), s1)"
    "timers b [T_deleted, T_periodic, T_sentinel] s1" "shutdown_status s1 = 2" "shutdown_reason s1 = r0"
    using reset_timers [OF f] by (auto simp: s0_def)
  obtain s2 ts2 where s2: "shutdownfuncs s1 = (Inr (), s2)" "timers b ts2 s2" "shutdown_reason s2 = r0"
    using sf [OF s1(2,3)] s1(4) by auto
  define s3 where "s3 = command_sendf (''shutdown clock=%u static_string_id=%hu'',
    [A_int (bd_clock s (bd_clock_reads s)), A_bytes (map of_char r0)]) (s2\<lparr>shutdown_status := 1\<rparr>)"
  have e: "run_shutdown shutdownfuncs r s = (Inr (), s3)"
    using s1(1) s2(1,3)
    by (simp add: run_shutdown_def fw_unfold timer_read_time_def sendf_def s0_def s3_def r0_def
        split: if_splits)
  have s3: "tm_next s3 = tm_next s2" "tm_wake s3 = tm_wake s2" "timer_list s3 = timer_list s2"
    "last_insert s3 = last_insert s2" "shutdown_status s3 = 1" "shutdown_reason s3 = r0"
    using s2(3) by (simp_all add: s3_def command_sendf_def console_sendf_def Let_def)
  have "timers b ts2 s3"
    using s2(2) queue_ok_cong [of s3 s2 b ts2] far_ok_cong [of s3 s2 b] s3 by (simp add: timers_def)
  then show ?thesis using e s3 unfolding r0_def by blast
qed

section \<open>What the timer operations leave alone\<close>

text \<open>The state without the timer list, its kicks and the count of clock reads.\<close>

definition detimer :: "'a sched_s_scheme \<Rightarrow> 'a sched_s_scheme" where
  "detimer s = s\<lparr>tm_next := (\<lambda>_. None), tm_wake := (\<lambda>_. 0), timer_list := T_periodic,
    last_insert := T_periodic, bd_kicks := 0, bd_clock_reads := 0\<rparr>"

lemma del_timer_frame: "detimer (snd (sched_del_timer t s)) = detimer s"
  by (auto simp: sched_del_timer_def fw_unfold detimer_def split: option.splits)

lemma del_timer_head: "timer_list s \<noteq> t \<Longrightarrow> timer_list (snd (sched_del_timer t s)) = timer_list s"
  by (auto simp: sched_del_timer_def fw_unfold split: option.splits)

lemma add_timer_frame: "detimer (snd (sched_add_timer t s)) = detimer s"
  by (auto simp: sched_add_timer_def insert_timer_def sched_try_shutdown_def timer_read_time_def
      timer_kick_def fw_unfold detimer_def split: option.splits prod.splits)

lemma set_wake_frame: "detimer (set_wake t w s) = detimer s"
  by (simp add: detimer_def)

lemma timers_cong:
  assumes "tm_next s' = tm_next s" and "timer_list s' = timer_list s" and "last_insert s' = last_insert s"
    and "\<And>t. t \<in> insert T_periodic (set ts) \<Longrightarrow> tm_wake s' t = tm_wake s t"
  shows "timers b ts s' = timers b ts s"
proof (cases "T_sentinel \<in> set ts")
  case True
  have k: "key b s' t = key b s t" if "t \<in> insert T_periodic (set ts)" for t
    using assms(4) [OF that] by (simp add: key_def)
  then have "map (key b s') ts = map (key b s) ts" by simp
  moreover have "far_ok b s' = far_ok b s"
    using assms(4) k True unfolding far_ok_def by (metis insertI1 insertI2)
  moreover have "(\<forall>t\<in>set ts - {T_sentinel}. key b s' t < 2 ^ 31) =
      (\<forall>t\<in>set ts - {T_sentinel}. key b s t < 2 ^ 31)" using k by (metis DiffD1 insertI2)
  ultimately show ?thesis unfolding timers_def queue_ok_def assms(1-3) by (simp only:)
next
  case False
  then have "\<not> queue_ok b ts s" "\<not> queue_ok b ts s'"
    by (auto simp: queue_ok_def chain_def dest: last_in_set)
  then show ?thesis by (simp add: timers_def)
qed

section \<open>Properties\<close>

text \<open>
  C15: adding a timer is a sorted insertion.  On a well-formed list, a timer due within the window
  of the list is inserted behind every timer that is not due later, so that timers with equal
  times run in the order they were added, and no other due time changes; or the timer is already
  past and earlier than the head of the list, and the machine shuts down with
  \<^verbatim>\<open>Timer too close\<close>.
\<close>

theorem sched_add_timer_sorted:
  assumes "timers b ts s" and "add \<notin> set ts" and "add \<notin> {T_periodic, T_sentinel, T_deleted}"
    and "key b s add < 2 ^ 31"
  shows "(\<exists>s' ts'. sched_add_timer add s = (Inr (), s') \<and> timers b ts' s' \<and>
      pending ts' = insort_after (key b s) add (pending ts) \<and>
      (\<forall>t. t \<noteq> T_deleted \<longrightarrow> tm_wake s' t = tm_wake s t)) \<or>
    (shutdown_status s = 0 \<and> timer_is_before (tm_wake s add) (bd_clock s (bd_clock_reads s)) \<and>
      key b s add < key b s (timer_list s) \<and>
      sched_add_timer add s = (Inl (Shut ''Timer too close''), snd (timer_read_time s)))"
  by (rule add_timer_ok [OF assms])

definition example_sched_s :: sched_s where
  "example_sched_s = (sched_init idle_command_s)\<lparr>tm_wake := (\<lambda>_. 0)(T_sentinel := 0x80000000,
     T_obj 3 0 := 500, T_obj 4 0 := 700),
     tm_next := (\<lambda>_. None)(T_periodic := Some (T_obj 4 0), T_obj 4 0 := Some T_sentinel)\<rparr>"

lemma example_timers: "timers 0 [T_periodic, T_obj 4 0, T_sentinel] example_sched_s"
  by (simp add: timers_def queue_ok_def far_ok_def key_def off_def example_sched_s_def sched_init_def
      idle_command_s_def idle_board_def command_s.defs board.defs)

lemma example_keys:
  "key 0 example_sched_s (T_obj 3 0) = 500" "key 0 example_sched_s (T_obj 4 0) = 700"
  "key 0 example_sched_s T_periodic = 0" "key 0 example_sched_s T_sentinel = 0x80000000"
  "timer_list example_sched_s = T_periodic"
  by (simp_all add: key_def off_def example_sched_s_def sched_init_def command_s.defs)

theorem sched_add_timer_sorted_witness:
  "\<exists>s' ts'. sched_add_timer (T_obj 3 0) example_sched_s = (Inr (), s') \<and>
    pending ts' = [T_periodic, T_obj 3 0, T_obj 4 0, T_sentinel] \<and> timers 0 ts' s'"
  using sched_add_timer_sorted [OF example_timers, of "T_obj 3 0"] by (auto simp: example_keys pending_def)

text \<open>
  C16: deleting a timer removes exactly that timer.  On a well-formed list the operation always
  returns, also for a timer that is not pending; the list stays well formed and the order of the
  other timers and their due times do not change.
\<close>

theorem sched_del_timer_removes:
  assumes "timers b ts s" and "del \<notin> {T_periodic, T_sentinel, T_deleted}"
  shows "\<exists>s' ts'. sched_del_timer del s = (Inr (), s') \<and> timers b ts' s' \<and>
    pending ts' = remove1 del (pending ts) \<and> del \<notin> set ts' \<and>
    (\<forall>t. t \<noteq> T_deleted \<longrightarrow> tm_wake s' t = tm_wake s t)"
proof -
  obtain s' ts' where s': "sched_del_timer del s = (Inr (), s')" "timers b ts' s'"
    "pending ts' = remove1 del (pending ts)" "\<forall>t. t \<noteq> T_deleted \<longrightarrow> tm_wake s' t = tm_wake s t"
    using del_timer_ok [OF assms] by blast
  have "distinct (pending ts)" using assms(1) by (auto simp: timers_def queue_ok_def pending_def)
  then have "del \<notin> set (pending ts')" using s'(3) by simp
  then have "del \<notin> set ts'" using assms(2) by (auto simp: pending_def)
  with s' show ?thesis by blast
qed

theorem sched_del_timer_removes_witness:
  "\<exists>s' ts'. sched_del_timer (T_obj 4 0) example_sched_s = (Inr (), s') \<and> timers 0 ts' s' \<and>
    pending ts' = [T_periodic, T_sentinel]"
  using sched_del_timer_removes [OF example_timers, of "T_obj 4 0"] by (auto simp: pending_def)

end
