(* ===== verification/Basecmd.thy ===== *)
theory Basecmd
  imports Sched
begin

text \<open>
  Basic commands (\<^verbatim>\<open>src/basecmd.c\<close>): the allocator of the memory pool, the pool of
  move nodes and the move queues, object ids, the configuration and its reset, timing
  statistics and the miscellaneous commands.  A pointer into the pool is an address; the
  \<^verbatim>\<open>next\<close> fields of the move nodes are one map from addresses, so that queues that
  share nodes would be seen.  A handler receives its decoded arguments as a list.
\<close>

section \<open>State\<close>

text \<open>The payload of a move node: the structs that start with \<^verbatim>\<open>struct move_node\<close>.\<close>

datatype move_data = MD_none
  | MD_stepper (md_interval: u32) (md_add: u16) (md_count: u16) (md_flags: u8)
  | MD_digital (md_waketime: u32) (md_on_duration: u32)
  | MD_pwm (md_waketime: u32) (md_value: u16)

record move_queue_head =
  mq_first :: "nat option"
  mq_last :: "nat option"

type_synonym oid_type = string

record basecmd_s = sched_s +
  alloc_end :: nat
  move_free_list :: "nat option"
  move_list :: nat
  move_count :: u16
  move_item_size :: u8
  mv_next :: "nat \<Rightarrow> nat option"
  mv_data :: "nat \<Rightarrow> move_data"
  oids :: "oid_type option list option"
  oid_data :: "nat \<Rightarrow> nat"
  oid_count :: u8
  config_crc :: u32
  stats_send_time :: u32
  stats_send_time_high :: u32
  stats_count :: u32
  stats_sum :: u32
  stats_sumsq :: u32

section \<open>Allocation\<close>

definition alloc_init :: "('a basecmd_s_scheme, unit) fw" where
  "alloc_init = upd (\<lambda>s. s\<lparr>alloc_end := ALIGN (dynmem_start s) (bd_ptr s)\<rparr>)"

definition alloc_chunk :: "nat \<Rightarrow> ('a basecmd_s_scheme, nat) fw" where
  "alloc_chunk sz =
    bnd (gets (\<lambda>s. alloc_end s + sz > dynmem_end s)) (\<lambda>full.
    thn (shutdown_if full ''alloc_chunk failed'')
    (bnd (gets alloc_end) (\<lambda>data.
    thn (upd (\<lambda>s. s\<lparr>alloc_end := alloc_end s + ALIGN sz (bd_ptr s)\<rparr>))
    (ret data))))"

text \<open>The counting loop of \<^verbatim>\<open>alloc_chunks\<close>: how many of \<open>count\<close> items fit behind \<open>p\<close>.\<close>

fun alloc_loop :: "nat \<Rightarrow> nat \<Rightarrow> nat \<Rightarrow> nat \<Rightarrow> nat" where
  "alloc_loop sz 0 p e = 0"
| "alloc_loop sz (Suc count) p e =
    (if p + sz \<le> e then Suc (alloc_loop sz count (p + sz) e) else 0)"

definition alloc_chunks :: "nat \<Rightarrow> nat \<Rightarrow> ('a basecmd_s_scheme, nat \<times> u16) fw" where
  "alloc_chunks sz count =
    bnd (gets (\<lambda>s. alloc_loop sz count (alloc_end s) (dynmem_end s))) (\<lambda>can_alloc.
    thn (shutdown_if (can_alloc = 0) ''alloc_chunks failed'')
    (bnd (alloc_chunk (can_alloc * sz)) (\<lambda>data.
    ret (data, of_nat can_alloc))))"

section \<open>Move queue\<close>

definition is_finalized :: "'a basecmd_s_scheme \<Rightarrow> bool" where
  "is_finalized s \<longleftrightarrow> move_count s \<noteq> 0"

definition move_free :: "nat \<Rightarrow> ('a basecmd_s_scheme, unit) fw" where
  "move_free m =
    upd (\<lambda>s. s\<lparr>mv_next := (mv_next s)(m := move_free_list s), move_free_list := Some m\<rparr>)"

definition move_alloc :: "('a basecmd_s_scheme, nat) fw" where
  "move_alloc =
    bnd (gets move_free_list) (\<lambda>mf. case mf of
      None \<Rightarrow> shutdown ''Move queue overflow''
    | Some m \<Rightarrow> thn (upd (\<lambda>s. s\<lparr>move_free_list := mv_next s m\<rparr>)) (ret m))"

definition move_queue_empty :: "move_queue_head \<Rightarrow> bool" where
  "move_queue_empty mh \<longleftrightarrow> mq_first mh = None"

definition move_queue_first :: "move_queue_head \<Rightarrow> nat option" where
  "move_queue_first mh = mq_first mh"

text \<open>Pushing returns the new head and whether the queue was empty.\<close>

definition move_queue_push ::
  "nat \<Rightarrow> move_queue_head \<Rightarrow> ('a basecmd_s_scheme, move_queue_head \<times> bool) fw" where
  "move_queue_push m mh =
    thn (upd (\<lambda>s. s\<lparr>mv_next := (mv_next s)(m := None)\<rparr>))
    (if mq_first mh \<noteq> None then
       (case mq_last mh of
          None \<Rightarrow> stuck
        | Some l \<Rightarrow> thn (upd (\<lambda>s. s\<lparr>mv_next := (mv_next s)(l := Some m)\<rparr>))
            (ret (mh\<lparr>mq_last := Some m\<rparr>, False)))
     else ret (mh\<lparr>mq_first := Some m, mq_last := Some m\<rparr>, True))"

definition move_queue_pop ::
  "move_queue_head \<Rightarrow> ('a basecmd_s_scheme, move_queue_head \<times> nat) fw" where
  "move_queue_pop mh =
    (case mq_first mh of
       None \<Rightarrow> stuck
     | Some mn \<Rightarrow> bnd (gets (\<lambda>s. mv_next s mn)) (\<lambda>n. ret (mh\<lparr>mq_first := n\<rparr>, mn)))"

definition move_queue_clear :: "move_queue_head \<Rightarrow> move_queue_head" where
  "move_queue_clear mh = mh\<lparr>mq_first := None\<rparr>"

definition move_queue_setup :: "nat \<Rightarrow> ('a basecmd_s_scheme, move_queue_head) fw" where
  "move_queue_setup sz =
    bnd (gets is_finalized) (\<lambda>fin.
    thn (shutdown_if (sz > 255 \<or> fin) ''Invalid move request size'')
    (thn (upd (\<lambda>s. if sz > unat (move_item_size s) then s\<lparr>move_item_size := of_nat sz\<rparr> else s))
    (ret \<lparr>mq_first = None, mq_last = None\<rparr>)))"

text \<open>The address of the \<open>i\<close>-th node of the pool.\<close>

definition node_at :: "'a basecmd_s_scheme \<Rightarrow> nat \<Rightarrow> nat" where
  "node_at s i = move_list s + i * unat (move_item_size s)"

fun move_reset_loop :: "nat \<Rightarrow> nat \<Rightarrow> 'a basecmd_s_scheme \<Rightarrow> 'a basecmd_s_scheme" where
  "move_reset_loop i 0 s = s"
| "move_reset_loop i (Suc n) s =
    move_reset_loop (i + 1) n
      (s\<lparr>mv_next := (mv_next s)(node_at s i := Some (node_at s (i + 1)))\<rparr>)"

definition move_reset :: "('a basecmd_s_scheme, unit) fw" where
  "move_reset =
    bnd (gets move_count) (\<lambda>n.
    if n = 0 then ret ()
    else
      thn (upd (move_reset_loop 0 (unat n - 1)))
      (upd (\<lambda>s. s\<lparr>mv_next := (mv_next s)(node_at s (unat n - 1) := None),
        move_free_list := Some (move_list s)\<rparr>)))"

definition move_finalize :: "('a basecmd_s_scheme, unit) fw" where
  "move_finalize =
    bnd (gets is_finalized) (\<lambda>fin.
    thn (shutdown_if fin ''Already finalized'')
    (bnd (gets bd_ptr) (\<lambda>node_size.
    thn (move_queue_setup node_size)
    (bnd (gets move_item_size) (\<lambda>sz.
    bnd (alloc_chunks (unat sz) 1024) (\<lambda>(data, avail).
    thn (upd (\<lambda>s. s\<lparr>move_list := data, move_count := avail\<rparr>))
    move_reset))))))"

section \<open>Object ids\<close>

definition oid_lookup :: "u8 \<Rightarrow> oid_type \<Rightarrow> ('a basecmd_s_scheme, nat) fw" where
  "oid_lookup oid type =
    bnd (gets (\<lambda>s. (oid_count s, oids s))) (\<lambda>(count, tab).
    if oid \<ge> count then shutdown ''Invalid oid type''
    else (case tab of
        None \<Rightarrow> stuck
      | Some ts \<Rightarrow>
          if unat oid \<ge> length ts then stuck
          else if ts ! unat oid \<noteq> Some type then shutdown ''Invalid oid type''
          else ret (unat oid)))"

text \<open>
  A new object is cleared, with the timers embedded in it; the other fields are cleared by the
  component that owns the object.
\<close>

definition clear_timers :: "nat \<Rightarrow> 'a basecmd_s_scheme \<Rightarrow> 'a basecmd_s_scheme" where
  "clear_timers oid s = s
    \<lparr>tm_next := (\<lambda>t. case t of T_obj i k \<Rightarrow> if i = oid then None else tm_next s t | _ \<Rightarrow> tm_next s t),
     tm_wake := (\<lambda>t. case t of T_obj i k \<Rightarrow> if i = oid then 0 else tm_wake s t | _ \<Rightarrow> tm_wake s t)\<rparr>"

definition oid_alloc :: "u8 \<Rightarrow> oid_type \<Rightarrow> nat \<Rightarrow> ('a basecmd_s_scheme, nat) fw" where
  "oid_alloc oid type sz =
    bnd (gets (\<lambda>s. (oid_count s, oids s, is_finalized s))) (\<lambda>(count, tab, fin).
    if oid \<ge> count then shutdown ''Can't assign oid''
    else (case tab of
        None \<Rightarrow> stuck
      | Some ts \<Rightarrow>
          if unat oid \<ge> length ts then stuck
          else if ts ! unat oid \<noteq> None \<or> fin then shutdown ''Can't assign oid''
          else
            thn (upd (\<lambda>s. s\<lparr>oids := Some (ts[unat oid := Some type])\<rparr>))
            (bnd (alloc_chunk sz) (\<lambda>data.
            thn (upd (clear_timers (unat oid)))
            (thn (upd (\<lambda>s. s\<lparr>oid_data := (oid_data s)(unat oid := data)\<rparr>))
            (ret (unat oid)))))))"

text \<open>
  The search of \<^verbatim>\<open>oid_next\<close>, with the 8-bit increment written out; it ends because
  \<^verbatim>\<open>oid_count\<close> is at most 255.
\<close>

function oid_next_loop :: "oid_type option list \<Rightarrow> u8 \<Rightarrow> oid_type \<Rightarrow> u8 \<Rightarrow> u8 option" where
  "oid_next_loop ts count type oid =
    (if oid \<ge> count then None
     else if ts ! unat oid = Some type then Some oid
     else oid_next_loop ts count type (oid + 1))"
  by pat_completeness auto
termination
proof (relation "measure (\<lambda>(_, count, _, oid). unat count - unat oid)")
  fix ts :: "oid_type option list" and count :: u8 and type :: oid_type and oid :: u8
  assume a: "\<not> count \<le> oid"
  then have lt: "unat oid < unat count" by (simp add: word_less_nat_alt not_le)
  moreover have "unat count < 256" using unsigned_less [of count] by simp
  ultimately have "unat (oid + 1) = unat oid + 1" by (simp add: unat_word_ariths)
  with lt show "((ts, count, type, oid + 1), (ts, count, type, oid))
      \<in> measure (\<lambda>(_, count, _, oid). unat count - unat oid)"
    by simp
qed simp

definition oid_next :: "u8 \<Rightarrow> oid_type \<Rightarrow> 'a basecmd_s_scheme \<Rightarrow> u8 option" where
  "oid_next i type s =
    oid_next_loop (case oids s of None \<Rightarrow> [] | Some ts \<Rightarrow> ts) (oid_count s) type (i + 1)"

text \<open>
  The macro \<^verbatim>\<open>foreach_oid\<close>: visit every object of a type, from the position \<open>-1\<close>.
  The position grows with every visit, so 256 rounds are enough.
\<close>

fun foreach_loop ::
  "nat \<Rightarrow> u8 \<Rightarrow> oid_type \<Rightarrow> (nat \<Rightarrow> ('a basecmd_s_scheme, unit) fw) \<Rightarrow> ('a basecmd_s_scheme, unit) fw"
where
  "foreach_loop 0 pos type body = stuck"
| "foreach_loop (Suc fuel) pos type body =
    bnd (gets (oid_next pos type)) (\<lambda>n. case n of
      None \<Rightarrow> ret ()
    | Some oid \<Rightarrow> thn (body (unat oid)) (foreach_loop fuel oid type body))"

definition foreach_oid ::
  "oid_type \<Rightarrow> (nat \<Rightarrow> ('a basecmd_s_scheme, unit) fw) \<Rightarrow> ('a basecmd_s_scheme, unit) fw" where
  "foreach_oid type body = foreach_loop 256 (- 1) type body"

definition command_allocate_oids :: "u32 list \<Rightarrow> ('a basecmd_s_scheme, unit) fw" where
  "command_allocate_oids args = (case args of
      [a0] \<Rightarrow>
        bnd (gets oids) (\<lambda>tab.
        thn (shutdown_if (tab \<noteq> None) ''oids already allocated'')
        (let count = ucast a0 :: u8 in
        bnd (gets (\<lambda>s. 2 * bd_ptr s * unat count)) (\<lambda>sz.
        thn (alloc_chunk sz)
        (upd (\<lambda>s. s\<lparr>oids := Some (replicate (unat count) None), oid_count := count\<rparr>)))))
    | _ \<Rightarrow> stuck)"

section \<open>Configuration\<close>

definition command_get_config :: "u32 list \<Rightarrow> ('a basecmd_s_scheme, unit) fw" where
  "command_get_config args s =
    sendf ''config is_config=%c crc=%u is_shutdown=%c move_count=%hu''
      [A_int (if is_finalized s then 1 else 0), A_int (config_crc s),
       A_int (if shutdown_status s \<noteq> 0 then 1 else 0), A_int (ucast (move_count s))] s"

definition command_finalize_config :: "u32 list \<Rightarrow> ('a basecmd_s_scheme, unit) fw" where
  "command_finalize_config args = (case args of
      [crc] \<Rightarrow> thn move_finalize (upd (\<lambda>s. s\<lparr>config_crc := crc\<rparr>))
    | _ \<Rightarrow> stuck)"

definition config_reset :: "u32 list \<Rightarrow> ('a basecmd_s_scheme, unit) fw" where
  "config_reset args =
    bnd sched_is_shutdown (\<lambda>sd.
    thn (shutdown_if (\<not> sd) ''config_reset only available when shutdown'')
    (thn (upd (\<lambda>s. s\<lparr>config_crc := 0, oid_count := 0, oids := None, move_free_list := None,
       move_list := 0, move_count := 0, move_item_size := 0\<rparr>))
    (thn alloc_init
    (thn sched_timer_reset
    sched_clear_shutdown))))"

section \<open>Timing and load statistics\<close>

definition command_get_clock :: "u32 list \<Rightarrow> ('a basecmd_s_scheme, unit) fw" where
  "command_get_clock args = bnd timer_read_time (\<lambda>now. sendf ''clock clock=%u'' [A_int now])"

definition command_get_uptime :: "u32 list \<Rightarrow> ('a basecmd_s_scheme, unit) fw" where
  "command_get_uptime args =
    bnd timer_read_time (\<lambda>cur.
    bnd (gets (\<lambda>s. stats_send_time_high s + (if cur < stats_send_time s then 1 else 0))) (\<lambda>high.
    sendf ''uptime high=%u clock=%u'' [A_int high, A_int cur]))"

definition SUMSQ_BASE :: u32 where "SUMSQ_BASE = 256"

definition DIV_ROUND_UP :: "u32 \<Rightarrow> u32 \<Rightarrow> u32" where
  "DIV_ROUND_UP n d = (n + d - 1) div d"

definition next_sumsq :: "u32 \<Rightarrow> u32 \<Rightarrow> u32" where
  "next_sumsq sumsq diff =
    (let nextsumsq =
       (if diff \<le> 0xffff then sumsq + DIV_ROUND_UP (diff * diff) SUMSQ_BASE
        else if diff \<le> 0xfffff then sumsq + DIV_ROUND_UP diff SUMSQ_BASE * diff
        else 0xffffffff)
     in if nextsumsq < sumsq then 0xffffffff else nextsumsq)"

definition stats_update :: "u32 \<Rightarrow> u32 \<Rightarrow> ('a basecmd_s_scheme, unit) fw" where
  "stats_update start cur =
    (let diff = cur - start in
    thn (upd (\<lambda>s. s\<lparr>stats_count := stats_count s + 1, stats_sum := stats_sum s + diff,
      stats_sumsq := next_sumsq (stats_sumsq s) diff\<rparr>))
    (bnd (gets (\<lambda>s. timer_is_before cur (stats_send_time s + timer_from_us 5000000 s))) (\<lambda>early.
    if early then ret ()
    else
      bnd (gets (\<lambda>s. (stats_count s, stats_sum s, stats_sumsq s))) (\<lambda>(c, su, sq).
      thn (sendf ''stats count=%u sum=%u sumsq=%u'' [A_int c, A_int su, A_int sq])
      (upd (\<lambda>s. s\<lparr>stats_send_time_high := stats_send_time_high s +
            (if cur < stats_send_time s then 1 else 0),
          stats_send_time := cur, stats_count := 0, stats_sum := 0, stats_sumsq := 0\<rparr>))))))"

section \<open>Miscellaneous commands\<close>

definition command_emergency_stop :: "u32 list \<Rightarrow> ('a basecmd_s_scheme, unit) fw" where
  "command_emergency_stop args = shutdown ''Command request''"

definition command_clear_shutdown :: "u32 list \<Rightarrow> ('a basecmd_s_scheme, unit) fw" where
  "command_clear_shutdown args = sched_clear_shutdown"

text \<open>\<open>identify_data\<close> is the compressed data dictionary that the build generates.\<close>

definition command_identify :: "u8 list \<Rightarrow> u32 list \<Rightarrow> ('a basecmd_s_scheme, unit) fw" where
  "command_identify identify_data args = (case args of
      [offset, a1] \<Rightarrow>
        (let count = ucast a1 :: u8;
             isize = of_nat (length identify_data) :: u32;
             count = (if offset \<ge> isize then 0
                      else if offset + ucast count > isize then ucast (isize - offset)
                      else count)
         in sendf ''identify_response offset=%u data=%.*s''
              [A_int offset, A_bytes (take (unat count) (drop (unat offset) identify_data))])
    | _ \<Rightarrow> stuck)"

section \<open>Move queues as an interface\<close>

text \<open>
  What the users of a move queue rely on: a queue represents a list of nodes; push appends a
  node and tells whether the queue was empty, pop removes the first one.
\<close>

fun push_all :: "('n \<Rightarrow> 'q \<Rightarrow> ('s, 'q \<times> bool) fw) \<Rightarrow> 'n list \<Rightarrow> 'q \<Rightarrow> ('s, 'q) fw" where
  "push_all push [] q = ret q"
| "push_all push (m # ms) q = bnd (push m q) (\<lambda>(q', _). push_all push ms q')"

fun pop_many :: "('q \<Rightarrow> ('s, 'q \<times> 'n) fw) \<Rightarrow> nat \<Rightarrow> 'q \<Rightarrow> ('s, 'q \<times> 'n list) fw" where
  "pop_many pop 0 q = ret (q, [])"
| "pop_many pop (Suc n) q =
    bnd (pop q) (\<lambda>(q1, m). bnd (pop_many pop n q1) (\<lambda>(q2, ms). ret (q2, m # ms)))"

locale fifo =
  fixes rep :: "'s \<Rightarrow> 'q \<Rightarrow> 'n list \<Rightarrow> bool"
    and empty :: "'q \<Rightarrow> bool"
    and push :: "'n \<Rightarrow> 'q \<Rightarrow> ('s, 'q \<times> bool) fw"
    and pop :: "'q \<Rightarrow> ('s, 'q \<times> 'n) fw"
  assumes empty_rep: "rep s q ns \<Longrightarrow> empty q \<longleftrightarrow> ns = []"
    and push_rep: "rep s q ns \<Longrightarrow> m \<notin> set ns \<Longrightarrow>
      \<exists>s' q'. push m q s = (Inr (q', ns = []), s') \<and> rep s' q' (ns @ [m])"
    and pop_rep: "rep s q (n # ns) \<Longrightarrow>
      \<exists>s' q'. pop q s = (Inr (q', n), s') \<and> rep s' q' ns"
begin

lemma push_all_rep:
  assumes "rep s q ns" and "distinct (ns @ ms)"
  shows "\<exists>s' q'. push_all push ms q s = (Inr q', s') \<and> rep s' q' (ns @ ms)"
  using assms
proof (induction ms arbitrary: s q ns)
  case Nil
  then show ?case by (simp add: ret_def)
next
  case (Cons m ms)
  then obtain s1 q1 where p: "push m q s = (Inr (q1, ns = []), s1)" "rep s1 q1 (ns @ [m])"
    using push_rep [of s q ns m] by auto
  then obtain s2 q2 where "push_all push ms q1 s1 = (Inr q2, s2)" "rep s2 q2 ((ns @ [m]) @ ms)"
    using Cons.IH [OF p(2)] Cons.prems(2) by auto
  with p show ?case by (simp add: bnd_def)
qed

lemma pop_many_rep:
  assumes "rep s q (ms @ ns)"
  shows "\<exists>s' q'. pop_many pop (length ms) q s = (Inr (q', ms), s') \<and> rep s' q' ns"
  using assms
proof (induction ms arbitrary: s q)
  case Nil
  then show ?case by (simp add: ret_def)
next
  case (Cons m ms)
  then obtain s1 q1 where p: "pop q s = (Inr (q1, m), s1)" "rep s1 q1 (ms @ ns)"
    using pop_rep [of s q m "ms @ ns"] by auto
  then obtain s2 q2 where "pop_many pop (length ms) q1 s1 = (Inr (q2, ms), s2)" "rep s2 q2 ns"
    using Cons.IH by blast
  with p show ?case by (simp add: bnd_def ret_def)
qed

lemma fifo_order:
  assumes "rep s q []" and "distinct ms"
  shows "\<exists>s' q'. bnd (push_all push ms q) (pop_many pop (length ms)) s = (Inr (q', ms), s') \<and>
    rep s' q' []"
proof -
  obtain s1 q1 where p: "push_all push ms q s = (Inr q1, s1)" "rep s1 q1 (ms @ [])"
    using push_all_rep [OF assms(1), of ms] assms(2) by auto
  then show ?thesis using pop_many_rep [OF p(2)] by (auto simp: bnd_def)
qed

end

section \<open>Queues of the model\<close>

definition mq_rep :: "'a basecmd_s_scheme \<Rightarrow> move_queue_head \<Rightarrow> nat list \<Rightarrow> bool" where
  "mq_rep s mh ns \<longleftrightarrow> distinct ns \<and>
    (if ns = [] then mq_first mh = None
     else mq_first mh = Some (hd ns) \<and> mq_last mh = Some (last ns) \<and> chain (mv_next s) ns)"

lemma mq_push_rep:
  assumes r: "mq_rep s mh ns" and m: "m \<notin> set ns"
  shows "\<exists>nx mh'. move_queue_push m mh s = (Inr (mh', ns = []), s\<lparr>mv_next := nx\<rparr>) \<and>
    mq_rep (s\<lparr>mv_next := nx\<rparr>) mh' (ns @ [m]) \<and> (\<forall>x. x \<notin> set (m # ns) \<longrightarrow> nx x = mv_next s x)"
proof (cases "ns = []")
  case True
  with r show ?thesis
    by (auto simp: move_queue_push_def fw_unfold mq_rep_def)
next
  case False
  then obtain xs l where ns: "ns = xs @ [l]" by (metis append_butlast_last_id)
  let ?nx = "(mv_next s)(m := None, l := Some m)"
  have "chain (mv_next s) (xs @ [l])" "distinct (xs @ [l])" "mq_last mh = Some l"
    using r ns by (auto simp: mq_rep_def)
  then have "chain ?nx (xs @ [l, m])" using m ns by (auto simp: chain_split)
  then have "mq_rep (s\<lparr>mv_next := ?nx\<rparr>) (mh\<lparr>mq_last := Some m\<rparr>) (ns @ [m])"
    using r m ns by (auto simp: mq_rep_def hd_append)
  moreover have "move_queue_push m mh s = (Inr (mh\<lparr>mq_last := Some m\<rparr>, ns = []), s\<lparr>mv_next := ?nx\<rparr>)"
    using r ns by (auto simp: move_queue_push_def fw_unfold mq_rep_def split: option.splits)
  ultimately show ?thesis using ns by (intro exI conjI) auto
qed

lemma mq_pop_rep:
  assumes r: "mq_rep s mh (n # ns)"
  shows "\<exists>mh'. move_queue_pop mh s = (Inr (mh', n), s) \<and> mq_rep s mh' ns"
  using r by (cases ns) (auto simp: move_queue_pop_def fw_unfold mq_rep_def)

interpretation mq: fifo mq_rep move_queue_empty move_queue_push move_queue_pop
proof
  fix s q ns
  show "mq_rep s q ns \<Longrightarrow> move_queue_empty q \<longleftrightarrow> ns = []"
    by (auto simp: mq_rep_def move_queue_empty_def split: if_splits)
next
  fix s :: "'a basecmd_s_scheme" and q ns m
  assume "mq_rep s q ns" "m \<notin> set ns"
  from mq_push_rep [OF this] show "\<exists>s' q'. move_queue_push m q s = (Inr (q', ns = []), s') \<and>
      mq_rep s' q' (ns @ [m])" by blast
next
  fix s :: "'a basecmd_s_scheme" and q n ns
  assume "mq_rep s q (n # ns)"
  from mq_pop_rep [OF this] show "\<exists>s' q'. move_queue_pop q s = (Inr (q', n), s') \<and> mq_rep s' q' ns"
    by blast
qed

section \<open>The pool of nodes\<close>

definition free_rep :: "'a basecmd_s_scheme \<Rightarrow> nat list \<Rightarrow> bool" where
  "free_rep s ns \<longleftrightarrow> distinct ns \<and>
    (if ns = [] then move_free_list s = None
     else move_free_list s = Some (hd ns) \<and> chain (mv_next s) ns)"

text \<open>The nodes of the pool, and a pool split into the free list and the live queues.\<close>

definition nodes :: "'a basecmd_s_scheme \<Rightarrow> nat list" where
  "nodes s = map (node_at s) [0..<unat (move_count s)]"

definition pool_ok :: "'a basecmd_s_scheme \<Rightarrow> nat list \<Rightarrow> nat list list \<Rightarrow> bool" where
  "pool_ok s free qs \<longleftrightarrow> free_rep s free \<and> distinct (free @ concat qs) \<and>
    set (free @ concat qs) = set (nodes s)"

lemma move_alloc_rep:
  "free_rep s (m # ns) \<Longrightarrow> \<exists>s'. move_alloc s = (Inr m, s') \<and> s' = s\<lparr>move_free_list := mv_next s m\<rparr> \<and>
    free_rep s' ns"
  by (cases ns) (auto simp: move_alloc_def fw_unfold free_rep_def)

lemma move_alloc_empty:
  "free_rep s [] \<Longrightarrow> move_alloc s = (Inl (Shut ''Move queue overflow''), s)"
  by (simp add: move_alloc_def fw_unfold free_rep_def)

lemma move_free_rep:
  "free_rep s ns \<Longrightarrow> m \<notin> set ns \<Longrightarrow> \<exists>s'. move_free m s = (Inr (), s') \<and>
    s' = s\<lparr>mv_next := (mv_next s)(m := move_free_list s), move_free_list := Some m\<rparr> \<and>
    free_rep s' (m # ns)"
  by (cases ns) (auto simp: move_free_def fw_unfold free_rep_def)

lemma free_rep_cong:
  assumes "move_free_list s' = move_free_list s" and "\<And>x. x \<in> set ns \<Longrightarrow> mv_next s' x = mv_next s x"
  shows "free_rep s' ns = free_rep s ns"
  using assms(1) chain_cong [OF assms(2)] by (simp add: free_rep_def)

lemma mq_rep_cong:
  assumes "\<And>x. x \<in> set ns \<Longrightarrow> mv_next s' x = mv_next s x"
  shows "mq_rep s' mh ns = mq_rep s mh ns"
  using chain_cong [OF assms] by (simp add: mq_rep_def)

subsection \<open>Resetting the pool\<close>

lemma reset_loop_frame:
  "node_at (move_reset_loop i n s) = node_at s" "move_count (move_reset_loop i n s) = move_count s"
  "move_list (move_reset_loop i n s) = move_list s"
  "move_item_size (move_reset_loop i n s) = move_item_size s"
  "bd_pool (move_reset_loop i n s) = bd_pool s"
  "shutdown_status (move_reset_loop i n s) = shutdown_status s"
  "shutdown_reason (move_reset_loop i n s) = shutdown_reason s"
  by (induction i n s rule: move_reset_loop.induct) (auto simp: node_at_def)

lemma reset_loop_next:
  assumes "0 < move_item_size s"
  shows "mv_next (move_reset_loop i n s) (node_at s j) =
    (if i \<le> j \<and> j < i + n then Some (node_at s (j + 1)) else mv_next s (node_at s j))"
  using assms
proof (induction i n s rule: move_reset_loop.induct)
  case (2 i n s)
  have inj: "node_at s x = node_at s y \<longleftrightarrow> x = y" for x y
    using 2(2) by (auto simp: node_at_def word_less_nat_alt)
  let ?s = "s\<lparr>mv_next := (mv_next s)(node_at s i := Some (node_at s (i + 1)))\<rparr>"
  have na: "node_at ?s = node_at s" by (rule ext) (simp add: node_at_def)
  show ?case using 2(1) 2(2) unfolding move_reset_loop.simps na by (auto simp: inj)
qed auto

lemma move_reset_pool:
  assumes "0 < move_item_size s" and "0 < move_count s"
  shows "\<exists>s'. move_reset s = (Inr (), s') \<and> pool_ok s' (nodes s') [] \<and>
    move_count s' = move_count s \<and> move_list s' = move_list s \<and>
    move_item_size s' = move_item_size s \<and> bd_pool s' = bd_pool s"
proof -
  let ?n = "unat (move_count s) - 1"
  have n: "unat (move_count s) = Suc ?n" using assms(2) by (simp add: word_less_nat_alt)
  let ?s1 = "move_reset_loop 0 ?n s"
  define s' where "s' = ?s1\<lparr>mv_next := (mv_next ?s1)(node_at s ?n := None), move_free_list := Some (move_list s)\<rparr>"
  have inj: "node_at s x = node_at s y \<longleftrightarrow> x = y" for x y
    using assms(1) by (auto simp: node_at_def word_less_nat_alt)
  have e: "move_reset s = (Inr (), s')"
    using assms(2) by (simp add: move_reset_def fw_unfold s'_def reset_loop_frame)
  have na: "node_at s' = node_at s" by (rule ext) (simp add: node_at_def s'_def reset_loop_frame)
  have nx: "mv_next s' (node_at s j) = (if j = ?n then None else Some (node_at s (j + 1)))" if "j \<le> ?n" for j
    using that reset_loop_next [OF assms(1), of 0 ?n j] by (auto simp: s'_def inj)
  have nodes: "nodes s' = map (node_at s) [0..<Suc ?n]"
    using n by (simp only: nodes_def na) (simp add: s'_def reset_loop_frame)
  have "chain (mv_next s') (map (node_at s) [0..<Suc ?n])"
  proof -
    have "map (mv_next s') (map (node_at s) [0..<Suc ?n]) = map (\<lambda>j. Some (node_at s (j + 1))) [0..<?n] @ [None]"
      using nx by (simp del: upt_Suc add: upt_Suc_append)
    also have "\<dots> = map Some (tl (map (node_at s) [0..<Suc ?n])) @ [None]"
      by (simp del: upt_Suc add: map_tl [symmetric] tl_upt map_Suc_upt [symmetric])
    finally show ?thesis by (simp add: chain_def)
  qed
  moreover have "distinct (map (node_at s) [0..<Suc ?n])"
    by (simp add: distinct_map inj_on_def inj del: upt_Suc)
  moreover have "move_free_list s' = Some (hd (map (node_at s) [0..<Suc ?n]))"
    by (simp add: s'_def node_at_def hd_map del: upt_Suc)
  ultimately have "free_rep s' (nodes s')" unfolding free_rep_def nodes by simp
  then have "pool_ok s' (nodes s') []" by (simp add: pool_ok_def free_rep_def)
  then show ?thesis using e by (auto simp: s'_def reset_loop_frame)
qed

section \<open>Allocation stays inside the pool\<close>

lemma ALIGN_ge: "0 < a \<Longrightarrow> x \<le> ALIGN x a"
proof -
  assume a: "0 < a"
  have "x \<le> (x + a - 1) - (x + a - 1) mod a" using a mod_less_divisor [OF a, of "x + a - 1"] by linarith
  then show ?thesis by (simp add: ALIGN_def minus_mod_eq_div_mult)
qed

lemma alloc_chunk_cases:
  "alloc_chunk sz s =
    (if alloc_end s + sz > dynmem_end s then (Inl (Shut ''alloc_chunk failed''), s)
     else (Inr (alloc_end s), s\<lparr>alloc_end := alloc_end s + ALIGN sz (bd_ptr s)\<rparr>))"
  by (simp add: alloc_chunk_def fw_unfold)

lemma alloc_loop_bounds:
  "p \<le> e \<Longrightarrow> alloc_loop sz count p e \<le> count \<and> p + alloc_loop sz count p e * sz \<le> e \<and>
    (alloc_loop sz count p e = count \<or> e < p + Suc (alloc_loop sz count p e) * sz)"
proof (induction sz count p e rule: alloc_loop.induct)
  case (2 sz count p e)
  then show ?case by (cases "p + sz \<le> e") (auto simp: algebra_simps)
qed auto

lemma move_finalize_ok:
  assumes "\<not> is_finalized s" and "0 < bd_ptr s" and "bd_ptr s \<le> 255" and "alloc_end s \<le> dynmem_end s"
  defines "isz \<equiv> max (bd_ptr s) (unat (move_item_size s))"
  shows "(dynmem_end s < alloc_end s + isz \<and>
      (\<exists>s'. move_finalize s = (Inl (Shut ''alloc_chunks failed''), s'))) \<or>
    (\<exists>s'. move_finalize s = (Inr (), s') \<and> pool_ok s' (nodes s') [] \<and> is_finalized s' \<and>
      unat (move_count s') \<le> 1024 \<and>
      (\<forall>m\<in>set (nodes s'). alloc_end s \<le> m \<and> m + isz \<le> dynmem_end s') \<and>
      (\<forall>m\<in>set (nodes s'). \<forall>m'\<in>set (nodes s'). m \<noteq> m' \<longrightarrow> m + isz \<le> m' \<or> m' + isz \<le> m))"
proof -
  define s1 where "s1 = (if bd_ptr s > unat (move_item_size s) then s\<lparr>move_item_size := of_nat (bd_ptr s)\<rparr> else s)"
  have isz: "unat (move_item_size s1) = isz" 
    using assms(3) unat_of_nat_small [of "bd_ptr s", where 'a = 8] by (auto simp: s1_def isz_def max_def)
  have s1: "alloc_end s1 = alloc_end s" "dynmem_end s1 = dynmem_end s" "bd_ptr s1 = bd_ptr s" "move_count s1 = move_count s"
    by (auto simp: s1_def dynmem_end_def)
  define n where "n = alloc_loop isz 1024 (alloc_end s) (dynmem_end s)"
  have n: "n \<le> 1024" "alloc_end s + n * isz \<le> dynmem_end s" "n = 1024 \<or> dynmem_end s < alloc_end s + Suc n * isz"
    using alloc_loop_bounds [OF assms(4), of isz 1024] by (auto simp: n_def)
  have run: "move_finalize s = bnd (alloc_chunks isz 1024) (\<lambda>(data, avail).
    thn (upd (\<lambda>s. s\<lparr>move_list := data, move_count := avail\<rparr>)) move_reset) s1"
    using assms(1,3) isz s1(4)
    by (simp add: move_finalize_def move_queue_setup_def is_finalized_def fw_unfold s1_def)
  show ?thesis
  proof (cases "n = 0")
    case True
    then have "alloc_chunks isz 1024 s1 = (Inl (Shut ''alloc_chunks failed''), s1)"
      using s1 by (simp add: alloc_chunks_def fw_unfold n_def)
    then show ?thesis using run n(3) True by (simp add: bnd_def)
  next
    case False
    define s2 where "s2 = s1\<lparr>alloc_end := alloc_end s + ALIGN (n * isz) (bd_ptr s), move_list := alloc_end s, move_count := of_nat n\<rparr>"
    have mc: "unat (of_nat n :: u16) = n" using n(1) by (intro unat_of_nat_small) simp
    have "alloc_chunks isz 1024 s1 = (Inr (alloc_end s, of_nat n), s1\<lparr>alloc_end := alloc_end s + ALIGN (n * isz) (bd_ptr s)\<rparr>)"
      using s1 False n(2) by (simp add: alloc_chunks_def fw_unfold n_def alloc_chunk_cases)
    then have run2: "move_finalize s = move_reset s2" using run by (simp add: fw_unfold s2_def)
    have p: "0 < move_item_size s2" "0 < move_count s2"
      using isz assms(2) False mc by (auto simp: s2_def isz_def word_less_nat_alt)
    obtain s' where s': "move_reset s2 = (Inr (), s')" "pool_ok s' (nodes s') []"
       "move_count s' = of_nat n" "move_list s' = alloc_end s" "move_item_size s' = move_item_size s1"
       "dynmem_end s' = dynmem_end s"
      using move_reset_pool [OF p] s1(2) by (auto simp: s2_def dynmem_end_def s1_def)
    have nodes: "nodes s' = map (\<lambda>i. alloc_end s + i * isz) [0..<n]"
      using s' mc isz by (simp add: nodes_def node_at_def)
    have "\<forall>m\<in>set (nodes s'). alloc_end s \<le> m \<and> m + isz \<le> dynmem_end s'"
    proof
      fix m assume "m \<in> set (nodes s')"
      then have "\<exists>i<n. m = alloc_end s + i * isz" unfolding nodes by auto
      then obtain i where i: "m = alloc_end s + i * isz" "i < n" by blast
      then have "Suc i * isz \<le> n * isz" by (intro mult_le_mono1) simp
      then show "alloc_end s \<le> m \<and> m + isz \<le> dynmem_end s'" using i n(2) s'(6) by simp
    qed
    moreover have "\<forall>m\<in>set (nodes s'). \<forall>m'\<in>set (nodes s'). m \<noteq> m' \<longrightarrow> m + isz \<le> m' \<or> m' + isz \<le> m"
    proof (intro ballI impI)
      fix m m' assume "m \<in> set (nodes s')" "m' \<in> set (nodes s')" "m \<noteq> m'"
      then obtain i j where ij: "m = alloc_end s + i * isz" "m' = alloc_end s + j * isz" "i \<noteq> j"
        unfolding nodes by auto
      then consider "Suc i \<le> j" | "Suc j \<le> i" by linarith
      then show "m + isz \<le> m' \<or> m' + isz \<le> m"
      proof cases
        case 1
        then have "Suc i * isz \<le> j * isz" by (rule mult_le_mono1)
        then show ?thesis using ij by simp
      next
        case 2
        then have "Suc j * isz \<le> i * isz" by (rule mult_le_mono1)
        then show ?thesis using ij by simp
      qed
    qed
    ultimately show ?thesis using run2 s' n(1) mc False by (auto simp: is_finalized_def)
  qed
qed

section \<open>Object ids\<close>

definition oids_ok :: "'a basecmd_s_scheme \<Rightarrow> bool" where
  "oids_ok s \<longleftrightarrow> (case oids s of None \<Rightarrow> oid_count s = 0 | Some ts \<Rightarrow> length ts = unat (oid_count s))"

declare oid_next_loop.simps [simp del]

lemma oid_next_loop_find:
  "length ts = unat count \<Longrightarrow> oid_next_loop ts count type oid =
    map_option of_nat (find (\<lambda>j. ts ! j = Some type) [unat oid..<unat count])"
proof (induction ts count type oid rule: oid_next_loop.induct)
  case (1 ts count type oid)
  show ?case
  proof (cases "oid \<ge> count")
    case True
    then show ?thesis by (simp add: oid_next_loop.simps [of _ _ _ oid] word_le_nat_alt)
  next
    case False
    then have lt: "unat oid < unat count" by (simp add: word_less_nat_alt not_le)
    then have s: "[unat oid..<unat count] = unat oid # [Suc (unat oid)..<unat count]" by (rule upt_conv_Cons)
    have "unat count < 256" using unsigned_less [of count] by simp
    with lt have u: "unat (oid + 1) = Suc (unat oid)" by (simp add: unat_word_ariths)
    show ?thesis
      using False 1 by (simp add: oid_next_loop.simps [of _ _ _ oid] s u)
  qed
qed

lemma oid_lookup_cases:
  assumes "oids_ok s"
  shows "oid_lookup oid type s =
    (if \<exists>ts. oids s = Some ts \<and> unat oid < length ts \<and> ts ! unat oid = Some type
     then (Inr (unat oid), s) else (Inl (Shut ''Invalid oid type''), s))"
  using assms unfolding oids_ok_def
  by (auto simp: oid_lookup_def fw_unfold word_le_nat_alt word_less_nat_alt not_le split: option.splits)

lemma oid_alloc_cases:
  assumes "oids_ok s" and "oid_alloc oid type sz s = (r, s')"
  shows "oids_ok s' \<and> r \<noteq> Inl Stuck \<and>
    (r = Inr (unat oid) \<longrightarrow> (\<exists>ts. oids s = Some ts \<and> unat oid < length ts \<and> ts ! unat oid = None \<and>
      \<not> is_finalized s \<and> oids s' = Some (ts[unat oid := Some type]) \<and>
      oid_data s' (unat oid) = alloc_end s \<and> alloc_end s + sz \<le> dynmem_end s))"
  using assms unfolding oids_ok_def
  by (auto simp: oid_alloc_def clear_timers_def fw_unfold word_le_nat_alt word_less_nat_alt not_le
      alloc_chunk_cases dynmem_end_def split: option.splits if_splits)

section \<open>Statistics\<close>

lemma uptime_split:
  assumes S: "unat h * 2 ^ 32 + unat t \<le> T" "T < unat h * 2 ^ 32 + unat t + 2 ^ 32" "T < 2 ^ 64"
    and c: "c = (of_nat T :: u32)"
  shows "unat (h + (if c < t then 1 else 0) :: u32) * 2 ^ 32 + unat c = T"
proof -
  have uc: "unat c = T mod 2 ^ 32" unfolding c by (simp add: unat_of_nat)
  have ut: "unat t < 2 ^ 32" by (rule unat_lt32)
  have ltc: "c < t \<longleftrightarrow> T mod 2 ^ 32 < unat t" by (simp add: word_less_nat_alt uc)
  define q where "q = T div 2 ^ 32"
  have T: "T = q * 2 ^ 32 + T mod 2 ^ 32" by (simp add: q_def)
  have m: "T mod 2 ^ 32 < 2 ^ 32" by simp
  have q64: "q < 2 ^ 32" unfolding q_def using S(3) by (simp add: less_mult_imp_div_less)
  have qq: "q = unat h + (if T mod 2 ^ 32 < unat t then 1 else 0)"
  proof -
    define r where "r = T mod 2 ^ 32"
    have "unat h * 4294967296 + unat t \<le> q * 4294967296 + r"
      and "q * 4294967296 + r < unat h * 4294967296 + unat t + 4294967296"
      and "r < 4294967296" "unat t < 4294967296"
      using S(1,2) T m ut unfolding r_def by simp_all
    then show ?thesis unfolding r_def [symmetric] by (cases "r < unat t") simp_all
  qed
  then have "unat (h + (if c < t then 1 else 0)) = q"
    using q64 by (auto simp: ltc unat_word_ariths)
  then show ?thesis using T uc by simp
qed

definition sq_inc :: "nat \<Rightarrow> nat" where
  "sq_inc d = (if d \<le> 0xffff then (d * d + 255) div 256
    else if d \<le> 0xfffff then (d + 255) div 256 * d else 2 ^ 32 - 1)"

lemma sat_add:
  assumes "unat (a :: u32) = n"
  shows "unat (if q + a < q then 0xffffffff else q + a) = min (2 ^ 32 - 1) (unat q + n)"
proof -
  have b: "unat q < 2 ^ 32" "n < 2 ^ 32" using unat_lt32 [of q] unat_lt32 [of a] assms by auto
  have u: "unat (q + a) = (if unat q + n < 2 ^ 32 then unat q + n else unat q + n - 2 ^ 32)"
    using b by (simp add: unat_word_ariths assms mod_if)
  show ?thesis using b u by (auto simp: word_less_nat_alt)
qed

lemma div_round_up_nat:
  "unat n + 255 < 2 ^ 32 \<Longrightarrow> unat (DIV_ROUND_UP n SUMSQ_BASE) = (unat n + 255) div 256"
proof -
  assume a: "unat n + 255 < 2 ^ 32"
  have "n + 256 - 1 = 255 + n" by simp
  moreover have "unat (255 + n) = unat n + 255" using a by (simp add: unat_word_ariths)
  ultimately show ?thesis by (simp add: DIV_ROUND_UP_def SUMSQ_BASE_def unat_div_distrib)
qed

lemma next_sumsq_sat: "unat (next_sumsq q d) = min (2 ^ 32 - 1) (unat q + sq_inc (unat d))"
proof -
  consider "unat d \<le> 0xffff" | "0xffff < unat d" "unat d \<le> 0xfffff" | "0xfffff < unat d" by linarith
  then show ?thesis
  proof cases
    case 1
    have "unat d * unat d \<le> 0xffff * 0xffff" using 1 by (intro mult_le_mono)
    moreover from this have "unat (d * d) = unat d * unat d" by (simp add: unat_word_ariths)
    ultimately have "unat (DIV_ROUND_UP (d * d) SUMSQ_BASE) = sq_inc (unat d)"
      using 1 div_round_up_nat [of "d * d"] by (simp add: sq_inc_def)
    from sat_add [OF this] 1 show ?thesis
      by (simp add: next_sumsq_def Let_def word_le_nat_alt)
  next
    case 2
    then have r: "unat (DIV_ROUND_UP d SUMSQ_BASE) = (unat d + 255) div 256"
      by (intro div_round_up_nat) simp
    have "(unat d + 255) div 256 \<le> 0x1000" using 2 by auto
    then have "(unat d + 255) div 256 * unat d \<le> 0x1000 * 0xfffff" using 2 by (intro mult_le_mono) simp_all
    then have "unat (DIV_ROUND_UP d SUMSQ_BASE * d) = sq_inc (unat d)"
      using 2 r by (simp add: unat_word_ariths sq_inc_def)
    from sat_add [OF this] 2 show ?thesis
      by (simp add: next_sumsq_def Let_def word_le_nat_alt)
  next
    case 3
    then show ?thesis using unat_lt32 [of q]
      by (simp add: next_sumsq_def Let_def word_le_nat_alt word_less_nat_alt sq_inc_def)
  qed
qed

section \<open>Correctness of the basic commands\<close>

text \<open>An idle firmware before configuration, for examples.\<close>

definition idle_basecmd_s :: basecmd_s where
  "idle_basecmd_s = sched_s.extend (sched_init idle_command_s)
    \<lparr>alloc_end = 0x1000, move_free_list = None, move_list = 0, move_count = 0, move_item_size = 0,
     mv_next = (\<lambda>_. None), mv_data = (\<lambda>_. MD_none), oids = None, oid_data = (\<lambda>_. 0), oid_count = 0,
     config_crc = 0, stats_send_time = 0, stats_send_time_high = 0, stats_count = 0,
     stats_sum = 0, stats_sumsq = 0\<rparr>"

lemmas idle_defs = idle_basecmd_s_def sched_init_def idle_command_s_def idle_board_def
  sched_s.defs command_s.defs board.defs

text \<open>
  A move queue is first-in first-out.  Pushing any distinct nodes on an empty queue and
  popping as many returns exactly those nodes in the order they were pushed, and leaves the
  queue empty; neither operation meets a null pointer.
\<close>

theorem move_queue_fifo:
  assumes "mq_rep s mh []" and "distinct ms"
  shows "\<exists>s' mh'. bnd (push_all move_queue_push ms mh) (pop_many move_queue_pop (length ms)) s
      = (Inr (mh', ms), s') \<and> move_queue_empty mh'"
  using mq.fifo_order [OF assms] mq.empty_rep by blast

theorem move_queue_fifo_witness:
  "\<exists>s' mh'. bnd (push_all move_queue_push [8, 24, 16] \<lparr>mq_first = None, mq_last = None\<rparr>)
      (pop_many move_queue_pop (length [8, 24, 16 :: nat])) idle_basecmd_s
      = (Inr (mh', [8, 24, 16]), s') \<and> move_queue_empty mh'"
  by (rule move_queue_fifo) (simp_all add: mq_rep_def)

text \<open>
  C35: finalising the configuration builds the pool of move nodes.  Unless not even one node
  fits, the free list then holds between 1 and 1024 nodes, every node lies inside the dynamic
  memory behind everything allocated before, no two nodes overlap, and each is large enough
  for every move type that was set up.
\<close>

theorem move_finalize_builds_pool:
  assumes "\<not> is_finalized s" and "0 < bd_ptr s" and "bd_ptr s \<le> 255" and "alloc_end s \<le> dynmem_end s"
    and "isz = max (bd_ptr s) (unat (move_item_size s))"
  shows "(dynmem_end s < alloc_end s + isz \<and>
      (\<exists>s'. move_finalize s = (Inl (Shut ''alloc_chunks failed''), s'))) \<or>
    (\<exists>s'. move_finalize s = (Inr (), s') \<and> pool_ok s' (nodes s') [] \<and> is_finalized s' \<and>
      unat (move_count s') \<le> 1024 \<and>
      (\<forall>m\<in>set (nodes s'). alloc_end s \<le> m \<and> m + isz \<le> dynmem_end s') \<and>
      (\<forall>m\<in>set (nodes s'). \<forall>m'\<in>set (nodes s'). m \<noteq> m' \<longrightarrow> m + isz \<le> m' \<or> m' + isz \<le> m))"
  using move_finalize_ok [OF assms(1-4)] unfolding assms(5) .

theorem move_finalize_builds_pool_witness:
  "\<exists>s'. move_finalize idle_basecmd_s = (Inr (), s') \<and> pool_ok s' (nodes s') []"
proof -
  have f: "\<not> is_finalized idle_basecmd_s" "0 < bd_ptr idle_basecmd_s" "bd_ptr idle_basecmd_s \<le> 255"
    "alloc_end idle_basecmd_s \<le> dynmem_end idle_basecmd_s"
    "4 = max (bd_ptr idle_basecmd_s) (unat (move_item_size idle_basecmd_s))"
    "\<not> dynmem_end idle_basecmd_s < alloc_end idle_basecmd_s + 4"
    by (simp_all add: idle_defs is_finalized_def dynmem_end_def)
  from move_finalize_builds_pool [OF f(1-5)] show ?thesis
    by (elim disjE exE conjE) (erule notE [OF f(6)], intro exI conjI)
qed

text \<open>
  The pool of nodes is conserved.  When the free list and the live nodes partition the
  pool, \<open>move_alloc\<close> moves one node from the free list to the live nodes, or shuts down when
  the list is empty, and \<open>move_free\<close> moves a live node back; no node is lost or handed out
  twice.
\<close>

theorem move_pool_conserved:
  assumes "pool_ok s free ([m] # qs)"
  shows "(\<exists>s'. move_free m s = (Inr (), s') \<and> pool_ok s' (m # free) qs) \<and>
    (case free of
       [] \<Rightarrow> move_alloc s = (Inl (Shut ''Move queue overflow''), s)
     | n # free' \<Rightarrow> \<exists>s'. move_alloc s = (Inr n, s') \<and> pool_ok s' free' ([n] # [m] # qs))"
proof -
  have p: "free_rep s free" "distinct (free @ m # concat qs)" "set (free @ m # concat qs) = set (nodes s)"
    using assms by (auto simp: pool_ok_def)
  have nd: "nodes (s\<lparr>mv_next := nx, move_free_list := fl\<rparr>) = nodes s" for nx fl
    by (simp add: nodes_def node_at_def)
  have nd': "nodes (s\<lparr>move_free_list := fl\<rparr>) = nodes s" for fl
    by (simp add: nodes_def node_at_def)
  have "\<exists>s'. move_free m s = (Inr (), s') \<and> pool_ok s' (m # free) qs"
  proof -
    obtain s' where s': "move_free m s = (Inr (), s')" "free_rep s' (m # free)"
      "s' = s\<lparr>mv_next := (mv_next s)(m := move_free_list s), move_free_list := Some m\<rparr>"
      using move_free_rep [OF p(1), of m] p(2) by auto
    moreover have "nodes s' = nodes s" unfolding s'(3) by (rule nd)
    ultimately have "pool_ok s' (m # free) qs" using p(2,3) by (auto simp: pool_ok_def)
    with s'(1) show ?thesis by blast
  qed
  moreover have "case free of
       [] \<Rightarrow> move_alloc s = (Inl (Shut ''Move queue overflow''), s)
     | n # free' \<Rightarrow> \<exists>s'. move_alloc s = (Inr n, s') \<and> pool_ok s' free' ([n] # [m] # qs)"
  proof (cases free)
    case Nil
    with p(1) show ?thesis by (simp add: move_alloc_empty)
  next
    case (Cons n free')
    then show ?thesis using move_alloc_rep [of s n free'] p nd' by (auto simp: pool_ok_def)
  qed
  ultimately show ?thesis ..
qed

theorem move_pool_conserved_witness:
  "pool_ok (idle_basecmd_s\<lparr>move_count := 2, move_item_size := 8, move_list := 0x1000,
      move_free_list := Some 0x1008\<rparr>) [0x1008] ([0x1000] # []) \<and>
    (\<exists>s'. move_free 0x1000 (idle_basecmd_s\<lparr>move_count := 2, move_item_size := 8, move_list := 0x1000,
      move_free_list := Some 0x1008\<rparr>) = (Inr (), s') \<and> pool_ok s' [0x1000, 0x1008] [])"
proof -
  let ?s = "idle_basecmd_s\<lparr>move_count := 2, move_item_size := 8, move_list := 0x1000,
      move_free_list := Some 0x1008\<rparr>"
  have ok: "pool_ok ?s [0x1008] ([0x1000] # [])"
    by (auto simp: pool_ok_def free_rep_def nodes_def node_at_def idle_basecmd_s_def sched_s.defs
        upt_rec)
  from move_pool_conserved [OF this] ok show ?thesis by blast
qed

text \<open>
  C36: Object ids are assigned once and looked up by type.  After \<open>oid_alloc\<close> succeeds, the id
  resolves for the same type, is refused for every other type, refuses a second assignment, and
  the storage it got lies inside the pool; \<open>oid_next\<close> continues with the next id of a type.
\<close>

theorem oid_alloc_lookup:
  assumes "oids_ok s" and "oid_alloc oid type sz s = (Inr d, s')"
  shows "oid_lookup oid type s' = (Inr (unat oid), s') \<and>
    (type' \<noteq> type \<longrightarrow> oid_lookup oid type' s' = (Inl (Shut ''Invalid oid type''), s')) \<and>
    oid_alloc oid type' sz' s' = (Inl (Shut ''Can't assign oid''), s') \<and>
    oid_data s' (unat oid) + sz \<le> dynmem_end s \<and>
    oid_next i type s' = map_option of_nat
      (find (\<lambda>j. the (oids s') ! j = Some type) [unat (i + 1)..<unat (oid_count s')])"
proof -
  have d: "d = unat oid"
    using assms(2) by (auto simp: oid_alloc_def fw_unfold alloc_chunk_cases split: option.splits if_splits)
  obtain ts where ts: "oids_ok s'" "unat oid < length ts" "oids s' = Some (ts[unat oid := Some type])"
    "oid_data s' (unat oid) = alloc_end s" "alloc_end s + sz \<le> dynmem_end s"
    using oid_alloc_cases [OF assms(1), of oid type sz "Inr d" s'] assms(2) d by auto
  have len: "length ts = unat (oid_count s')" using ts(1,3) by (simp add: oids_ok_def)
  have "oid_alloc oid type' sz' s' = (Inl (Shut ''Can't assign oid''), s')"
    using ts(2,3) by (simp add: oid_alloc_def fw_unfold)
  then show ?thesis
    using ts len oid_lookup_cases [OF ts(1)] oid_next_loop_find [of "ts[unat oid := Some type]" "oid_count s'"]
    by (auto simp: oid_next_def)
qed

theorem oid_alloc_lookup_witness:
  "\<exists>s s' d. command_allocate_oids [3] idle_basecmd_s = (Inr (), s) \<and>
    oid_alloc 1 ''stepper'' 64 s = (Inr d, s') \<and> oid_lookup 1 ''stepper'' s' = (Inr 1, s')"
proof -
  define s where "s = idle_basecmd_s\<lparr>oids := Some (replicate 3 None), oid_count := 3, alloc_end := 0x1018\<rparr>"
  have 1: "command_allocate_oids [3] idle_basecmd_s = (Inr (), s)"
    by (simp add: command_allocate_oids_def fw_unfold alloc_chunk_cases s_def idle_defs
        dynmem_end_def ALIGN_def)
  have "\<exists>s' d. oid_alloc 1 ''stepper'' 64 s = (Inr d, s')"
    by (simp add: oid_alloc_def fw_unfold alloc_chunk_cases s_def idle_defs
        dynmem_end_def is_finalized_def word_le_nat_alt)
  then obtain s' d where 2: "oid_alloc 1 ''stepper'' 64 s = (Inr d, s')" by blast
  have "oids_ok s" by (simp add: oids_ok_def s_def)
  from oid_alloc_lookup [OF this 2] 1 2 show ?thesis by auto
qed

text \<open>
  The reported uptime is the full 64-bit clock.  If the last statistics time is at most
  \<open>2 ^ 32\<close> ticks before the true clock \<open>T\<close>, \<open>get_uptime\<close> reports the two halves of \<open>T\<close>.
\<close>

theorem uptime_is_clock:
  assumes "unat (stats_send_time_high s) * 2 ^ 32 + unat (stats_send_time s) \<le> T"
    and "T < unat (stats_send_time_high s) * 2 ^ 32 + unat (stats_send_time s) + 2 ^ 32"
    and "T < 2 ^ 64" and "bd_clock s (bd_clock_reads s) = of_nat T" and "bd_in_sendf s = 0"
  shows "\<exists>s' high low. command_get_uptime args s = (Inr (), s') \<and>
    bd_console s' = bd_console s @ [(''uptime high=%u clock=%u'', [A_int high, A_int low])] \<and>
    unat high * 2 ^ 32 + unat low = T"
  using uptime_split [OF assms(1-3), of "of_nat T"] assms(4,5)
  by (auto simp: command_get_uptime_def fw_unfold timer_read_time_def sendf_def command_sendf_idle)

theorem uptime_is_clock_witness:
  "\<exists>s' high low. command_get_uptime [] (idle_basecmd_s\<lparr>stats_send_time := 0xfffffff0,
      bd_clock := (\<lambda>_. 16)\<rparr>) = (Inr (), s') \<and>
    bd_console s' = [(''uptime high=%u clock=%u'', [A_int high, A_int low])] \<and>
    unat high * 2 ^ 32 + unat low = 2 ^ 32 + 16"
  using uptime_is_clock [of "idle_basecmd_s\<lparr>stats_send_time := 0xfffffff0, bd_clock := (\<lambda>_. 16)\<rparr>"
      "2 ^ 32 + 16" "[]"]
  by (simp add: idle_defs)

text \<open>
  The load statistics do not wrap.  The sum of squares grows by the rounded-up scaled square
  of the task time without intermediate overflow, and saturates at the largest 32-bit value.
\<close>

theorem sumsq_saturates:
  "unat (next_sumsq sumsq diff) = min (2 ^ 32 - 1) (unat sumsq +
    (if unat diff \<le> 0xffff then (unat diff * unat diff + 255) div 256
     else if unat diff \<le> 0xfffff then (unat diff + 255) div 256 * unat diff else 2 ^ 32 - 1))"
  using next_sumsq_sat unfolding sq_inc_def .

end
