(* ===== verification/Dispatch.thy ===== *)
theory Dispatch
  imports Basecmd
begin

text \<open>
  Command routing (\<^verbatim>\<open>src/command.c\<close>, second part) and the main loop
  (\<^verbatim>\<open>run_tasks\<close> and \<^verbatim>\<open>sched_main\<close> of \<^verbatim>\<open>src/sched.c\<close>).  The table of
  commands is generated by the build and is a parameter; so are the generated calls of the
  task functions and of the shutdown functions.
\<close>

section \<open>Dispatching the commands of a block\<close>

definition HF_IN_SHUTDOWN :: u8 where "HF_IN_SHUTDOWN = 1"

datatype 's command_parser = Command_parser
  (cp_param_types: "ptype list") (cp_flags: u8) (cp_func: "u32 list \<Rightarrow> ('s, unit) fw")

definition command_lookup_parser ::
  "'a sched_s_scheme command_parser list \<Rightarrow> u16 \<Rightarrow> ('a sched_s_scheme, 'a sched_s_scheme command_parser) fw"
where
  "command_lookup_parser command_index cmdid =
    (if cmdid = 0 \<or> unat cmdid \<ge> length command_index then shutdown ''Invalid command''
     else ret (command_index ! unat cmdid))"

text \<open>
  One pass of the loop of \<^verbatim>\<open>command_dispatch\<close> from index \<open>p\<close>; it returns the new index.
  While the firmware is shut down, only commands flagged for it are executed.  What the timers do when
  interrupts are polled before each command is not modelled.
\<close>

definition dispatch_one ::
  "'a sched_s_scheme command_parser list \<Rightarrow> u8 list \<Rightarrow> nat \<Rightarrow> nat \<Rightarrow> ('a sched_s_scheme, nat) fw" where
  "dispatch_one command_index buf msgend p =
    (case command_parse_msgid (drop p buf) of
       None \<Rightarrow> stuck
     | Some (cmdid, rest) \<Rightarrow>
         bnd (command_lookup_parser command_index cmdid) (\<lambda>cp.
         case command_parsef buf (length buf - length rest) msgend (cp_param_types cp) of
           None \<Rightarrow> stuck
         | Some (Inl msg) \<Rightarrow> shutdown msg
         | Some (Inr (p', args)) \<Rightarrow>
             bnd sched_is_shutdown (\<lambda>sd.
             if sd \<and> cp_flags cp AND HF_IN_SHUTDOWN = 0 then thn sched_report_shutdown (ret p')
             else thn (cp_func cp args) (ret p'))))"

text \<open>
  The whole loop.  Every pass moves \<open>p\<close> forward by at least the message id, so
  \<open>msgend\<close> passes are enough.
\<close>

fun dispatch_loop ::
  "nat \<Rightarrow> 'a sched_s_scheme command_parser list \<Rightarrow> u8 list \<Rightarrow> nat \<Rightarrow> nat \<Rightarrow> ('a sched_s_scheme, unit) fw"
where
  "dispatch_loop 0 command_index buf msgend p = (if p < msgend then stuck else ret ())"
| "dispatch_loop (Suc fuel) command_index buf msgend p =
    (if p < msgend then
       bnd (dispatch_one command_index buf msgend p) (dispatch_loop fuel command_index buf msgend)
     else ret ())"

definition command_dispatch ::
  "'a sched_s_scheme command_parser list \<Rightarrow> u8 list \<Rightarrow> nat \<Rightarrow> ('a sched_s_scheme, unit) fw" where
  "command_dispatch command_index buf msglen =
    (let p = MESSAGE_HEADER_SIZE; msgend = msglen - MESSAGE_TRAILER_SIZE in
     dispatch_loop msgend command_index buf msgend p)"

definition command_send_ack :: "('a sched_s_scheme, unit) fw" where
  "command_send_ack = upd (command_sendf encode_acknak)"

definition command_find_and_dispatch ::
  "'a sched_s_scheme command_parser list \<Rightarrow> u8 list \<Rightarrow> ('a sched_s_scheme, int \<times> nat) fw" where
  "command_find_and_dispatch command_index buf s =
    (case command_find_block buf s of (r, pop_count, s1) \<Rightarrow>
       if r > 0 then
         thn (command_dispatch command_index buf pop_count)
         (thn command_send_ack (ret (r, pop_count))) s1
       else (Inr (r, pop_count), s1))"

section \<open>Main loop\<close>

text \<open>
  One pass of \<^verbatim>\<open>run_tasks\<close>.  \<open>irq_poll\<close> and \<open>irq_wait\<close> are the board's hooks that
  run pending interrupts; the sleep loop waits at most \<open>fuel\<close> times, and running out of it is
  \<open>Stuck\<close>.
\<close>

fun sleep_loop :: "('a basecmd_s_scheme, unit) fw \<Rightarrow> nat \<Rightarrow> ('a basecmd_s_scheme, unit) fw" where
  "sleep_loop irq_wait 0 = stuck"
| "sleep_loop irq_wait (Suc fuel) =
    thn irq_wait (bnd (gets tasks_status) (\<lambda>st.
      if st \<noteq> TS_REQUESTED then sleep_loop irq_wait fuel else ret ()))"

definition run_tasks_pass ::
  "('a basecmd_s_scheme, unit) fw \<Rightarrow> ('a basecmd_s_scheme, unit) fw \<Rightarrow> nat \<Rightarrow>
   ('a basecmd_s_scheme, unit) fw \<Rightarrow> u32 \<Rightarrow> ('a basecmd_s_scheme, u32) fw" where
  "run_tasks_pass irq_poll irq_wait fuel taskfuncs start =
    thn irq_poll
    (bnd (gets tasks_status) (\<lambda>st.
    bnd (if st \<noteq> TS_REQUESTED then
           bnd timer_read_time (\<lambda>t0.
           bnd (gets tasks_status) (\<lambda>st'.
           thn (if st' \<noteq> TS_REQUESTED then
                  thn (upd (\<lambda>s. s\<lparr>tasks_status := TS_IDLE\<rparr>)) (sleep_loop irq_wait fuel)
                else ret ())
           (bnd timer_read_time (\<lambda>t1. ret (start - t0 + t1)))))
         else ret start) (\<lambda>start'.
    thn (upd (\<lambda>s. s\<lparr>tasks_status := TS_RUNNING\<rparr>))
    (thn taskfuncs
    (bnd timer_read_time (\<lambda>cur.
    thn (stats_update start' cur) (ret cur)))))))"

text \<open>
  The control flow of \<^verbatim>\<open>sched_main\<close> after initialisation.  \<open>Loop\<close> is the task loop with
  its start time, \<open>Enter r\<close> is the return of \<^verbatim>\<open>setjmp\<close> with the reason of a shutdown.
\<close>

datatype main_mode = Loop u32 | Enter reason

inductive main_step ::
  "('a basecmd_s_scheme, unit) fw \<Rightarrow> ('a basecmd_s_scheme, unit) fw \<Rightarrow> nat \<Rightarrow>
   ('a basecmd_s_scheme, unit) fw \<Rightarrow> ('a basecmd_s_scheme, unit) fw \<Rightarrow>
   main_mode \<times> 'a basecmd_s_scheme \<Rightarrow> main_mode \<times> 'a basecmd_s_scheme \<Rightarrow> bool"
  for poll wait fuel tasks sfuncs
where
  task_pass: "run_tasks_pass poll wait fuel tasks start s = (Inr cur, s') \<Longrightarrow>
    main_step poll wait fuel tasks sfuncs (Loop start, s) (Loop cur, s')"
| task_shutdown: "run_tasks_pass poll wait fuel tasks start s = (Inl (Shut r), s') \<Longrightarrow>
    main_step poll wait fuel tasks sfuncs (Loop start, s) (Enter r, s')"
| shutdown_done: "run_shutdown sfuncs r s = (Inr (), s') \<Longrightarrow>
    timer_read_time s' = (Inr now, s'') \<Longrightarrow>
    main_step poll wait fuel tasks sfuncs (Enter r, s) (Loop now, s'')"
| shutdown_again: "run_shutdown sfuncs r s = (Inl (Shut r'), s') \<Longrightarrow>
    main_step poll wait fuel tasks sfuncs (Enter r, s) (Enter r', s')"

inductive_cases main_step_loopE: "main_step poll wait fuel tasks sfuncs (Loop start, s) c'"
inductive_cases main_step_enterE: "main_step poll wait fuel tasks sfuncs (Enter r, s) c'"

section \<open>Dispatching a well-formed block\<close>

text \<open>The commands of a block as the host wrote them: message ids and integer arguments.\<close>

type_synonym call = "u16 \<times> u32 list"

definition encode_calls :: "call list \<Rightarrow> u8 list" where
  "encode_calls cs = concat (map (\<lambda>(m, vs). encode_msgid m @ encode_ints vs) cs)"

definition exec_call ::
  "'a sched_s_scheme command_parser list \<Rightarrow> call \<Rightarrow> ('a sched_s_scheme, unit) fw" where
  "exec_call idx c =
    (case c of (m, vs) \<Rightarrow> bnd sched_is_shutdown (\<lambda>sd.
       if sd \<and> cp_flags (idx ! unat m) AND HF_IN_SHUTDOWN = 0 then sched_report_shutdown
       else cp_func (idx ! unat m) vs))"

fun exec_calls ::
  "'a sched_s_scheme command_parser list \<Rightarrow> call list \<Rightarrow> ('a sched_s_scheme, unit) fw" where
  "exec_calls idx [] = ret ()"
| "exec_calls idx (c # cs) = thn (exec_call idx c) (exec_calls idx cs)"

definition call_ok :: "'a sched_s_scheme command_parser list \<Rightarrow> call \<Rightarrow> bool" where
  "call_ok idx c \<longleftrightarrow>
    (case c of (m, vs) \<Rightarrow> 0 < m \<and> m < 0x4000 \<and> unat m < length idx \<and>
       list_all is_int_ptype (cp_param_types (idx ! unat m)) \<and>
       length (cp_param_types (idx ! unat m)) = length vs)"

lemma encode_calls_simps [simp]:
  "encode_calls [] = []"
  "encode_calls ((m, vs) # cs) = encode_msgid m @ encode_ints vs @ encode_calls cs"
  by (simp_all add: encode_calls_def)

lemma bnd_assoc: "bnd (bnd m f) g = bnd m (\<lambda>x. bnd (f x) g)"
  by (rule ext) (simp add: bnd_def split: prod.splits sum.splits)

lemma bnd_ret [simp]: "bnd (ret x) f = f x"
  by (rule ext) (simp add: bnd_def ret_def)

lemma bnd_if: "bnd (if c then m else n) f = (if c then bnd m f else bnd n f)"
  by simp

lemma dispatch_one_call:
  assumes c: "call_ok idx (m, vs)"
    and d: "drop p buf = encode_msgid m @ encode_ints vs @ rest" and p: "p \<le> length buf"
    and e: "p + length (encode_msgid m @ encode_ints vs) \<le> msgend"
  shows "dispatch_one idx buf msgend p =
    thn (exec_call idx (m, vs)) (ret (p + length (encode_msgid m @ encode_ints vs)))"
proof -
  let ?q = "p + length (encode_msgid m)" and ?cp = "idx ! unat m"
  have len: "length buf = ?q + length (encode_ints vs @ rest)"
    using arg_cong [OF d, of length] p by simp
  have msgid: "command_parse_msgid (drop p buf) = Some (m, encode_ints vs @ rest)"
    unfolding d using c by (intro parse_encode_msgid) (simp add: call_ok_def)
  have "drop ?q buf = drop (length (encode_msgid m)) (drop p buf)" by (simp add: add.commute)
  then have "drop ?q buf = encode_ints vs @ rest" unfolding d by simp
  then have pf: "command_parsef buf ?q msgend (cp_param_types ?cp)
      = Some (Inr (?q + length (encode_ints vs), vs))"
    using c e len by (intro parsef_ints) (auto simp: call_ok_def)
  have look: "command_lookup_parser idx m = ret ?cp"
    using c by (auto simp: command_lookup_parser_def call_ok_def)
  have "length buf - length (encode_ints vs @ rest) = ?q" using len by simp
  then show ?thesis
    using msgid pf look unfolding dispatch_one_def exec_call_def thn_def
    by (simp add: bnd_assoc bnd_if add.assoc)
qed

lemma dispatch_loop_calls:
  assumes "list_all (call_ok idx) cs" and "drop p buf = encode_calls cs @ rest" and "p \<le> length buf"
    and "msgend = p + length (encode_calls cs)" and "msgend \<le> p + fuel"
  shows "dispatch_loop fuel idx buf msgend p = exec_calls idx cs"
  using assms
proof (induction cs arbitrary: p fuel)
  case Nil
  then show ?case by (cases fuel) simp_all
next
  case (Cons c cs)
  obtain m vs where c: "c = (m, vs)" by fastforce
  let ?n = "length (encode_msgid m @ encode_ints vs)"
  have pos: "0 < ?n" by (simp add: encode_msgid_def)
  then obtain f where f: "fuel = Suc f" using Cons.prems(4,5) c by (cases fuel) auto
  have "drop (p + ?n) buf = drop ?n (drop p buf)" by (simp add: add.commute)
  then have d: "drop (p + ?n) buf = encode_calls cs @ rest" using Cons.prems(2) c by simp
  have one: "dispatch_one idx buf msgend p = thn (exec_call idx (m, vs)) (ret (p + ?n))"
    using Cons.prems c by (intro dispatch_one_call) simp_all
  have "dispatch_loop f idx buf msgend (p + ?n) = exec_calls idx cs"
  proof (rule Cons.IH [OF _ d])
    show "p + ?n \<le> length buf"
      using arg_cong [OF Cons.prems(2), of length] Cons.prems(3) c by simp
    show "msgend \<le> p + ?n + f" using Cons.prems(5) f pos by linarith
  qed (use Cons.prems c in simp_all)
  moreover have "p < msgend" using Cons.prems(4) c by simp
  ultimately show ?case using one c f by (simp add: thn_def bnd_assoc)
qed

lemma find_and_dispatch_calls:
  assumes "synced s" and "seq_ok (next_sequence s)" and "list_all (call_ok idx) cs"
    and "length (encode_calls cs) \<le> 59" and "buf = mk_frame (next_sequence s) (encode_calls cs) @ rest"
  shows "command_find_and_dispatch idx buf s =
    thn (exec_calls idx cs) (thn command_send_ack (ret (1, length (encode_calls cs) + 5)))
      (s\<lparr>sync_state := sync_state s AND NOT CF_NEED_VALID, next_sequence := seq_after (next_sequence s)\<rparr>)"
proof -
  let ?n = "length (encode_calls cs)"
  have ok: "block_ok buf (?n + 5)"
    unfolding assms(5) using frame_prefix [OF assms(4)] assms(2) by blast
  have b1: "buf ! 1 = next_sequence s" unfolding assms(5) by (simp add: mk_frame_def frame_body_def)
  have fb: "command_find_block buf s = (1, ?n + 5,
      s\<lparr>sync_state := sync_state s AND NOT CF_NEED_VALID, next_sequence := seq_after (next_sequence s)\<rparr>)"
    using find_block_ok [OF assms(1) ok] b1 by (simp add: Let_def)
  have "drop 2 buf = encode_calls cs @ drop (?n + 2) buf"
    unfolding assms(5) by (simp add: mk_frame_def frame_body_def)
  then have "dispatch_loop (?n + 2) idx buf (?n + 2) 2 = exec_calls idx cs"
    using assms(3) ok by (intro dispatch_loop_calls) (auto simp: block_ok_def)
  then have "command_dispatch idx buf (?n + 5) = exec_calls idx cs"
    by (simp add: command_dispatch_def message_consts)
  then show ?thesis using fb by (simp add: command_find_and_dispatch_def)
qed

section \<open>The loop always ends\<close>

lemma map_sum_InrD: "map_sum f g r = Inr y \<Longrightarrow> \<exists>x. r = Inr x \<and> y = g x"
  by (cases r) auto

lemma parsef_advances:
  "command_parsef buf p maxend ts = Some (Inr (q, args)) \<Longrightarrow> p \<le> length buf \<Longrightarrow> maxend \<le> length buf \<Longrightarrow>
    p \<le> q \<and> q \<le> length buf"
proof (induction ts arbitrary: p args)
  case (Cons t ts)
  show ?case
  proof (cases "is_int_ptype t")
    case True
    then obtain v rest r where v: "parse_int (drop p buf) = Some (v, rest)"
      "command_parsef buf (length buf - length rest) maxend ts = Some r" "map_sum id (\<lambda>(q, args). (q, v # args)) r = Inr (q, args)"
      using Cons.prems(1) by (auto split: if_splits option.splits bind_splits)
    then obtain args' where "r = Inr (q, args')" by (cases r) auto
    moreover have "length rest \<le> length buf - p" using parse_int_shorter [OF v(1)] by simp
    ultimately show ?thesis using Cons.IH [of "length buf - length rest" args'] v(2) Cons.prems(2,3) by auto
  next
    case False
    then obtain args' where r: "p + 1 + unat (buf ! p) \<le> maxend"
      "command_parsef buf (p + 1 + unat (buf ! p)) maxend ts = Some (Inr (q, args'))"
      using Cons.prems(1)
      by (auto simp: Let_def split: if_splits bind_splits dest!: map_sum_InrD)
    then show ?thesis
      using Cons.IH [of "p + 1 + unat (buf ! p)" args'] Cons.prems(3) by auto
  qed
qed simp

text \<open>
  The arguments that a handler gets for its parameter types: one per integer; for a buffer its length and
  its position, which together stay before \<open>e\<close>.
\<close>

fun args_fit :: "nat \<Rightarrow> ptype list \<Rightarrow> u32 list \<Rightarrow> bool" where
  "args_fit e [] args \<longleftrightarrow> args = []"
| "args_fit e (t # ts) args \<longleftrightarrow>
    (if is_int_ptype t then args \<noteq> [] \<and> args_fit e ts (tl args)
     else t = PT_buffer \<and> 2 \<le> length args \<and> unat (args ! 1) + unat (args ! 0) \<le> e \<and> args_fit e ts (drop 2 args))"

lemma parsef_args_fit:
  "command_parsef buf p e ts = Some (Inr (q, args)) \<Longrightarrow> e \<le> 64 \<Longrightarrow> args_fit e ts args"
proof (induction ts arbitrary: p args)
  case (Cons t ts)
  show ?case
  proof (cases "is_int_ptype t")
    case True
    then obtain v rest r where v: "command_parsef buf (length buf - length rest) e ts = Some r"
        "map_sum id (\<lambda>(q, args). (q, v # args)) r = Inr (q, args)" "parse_int (drop p buf) = Some (v, rest)"
      using Cons.prems(1) by (auto split: if_splits option.splits bind_splits)
    then obtain args' where "r = Inr (q, args')" "args = v # args'" by (cases r) auto
    then show ?thesis using Cons.IH v(1) Cons.prems(2) True by simp
  next
    case False
    then obtain args' where r: "t = PT_buffer" "p + 1 + unat (buf ! p) \<le> e"
      "command_parsef buf (p + 1 + unat (buf ! p)) e ts = Some (Inr (q, args'))"
      "args = of_nat (unat (buf ! p)) # of_nat (p + 1) # args'"
      using Cons.prems(1)
      by (auto simp: Let_def split: if_splits bind_splits dest!: map_sum_InrD)
    have "unat (of_nat (p + 1) :: u32) = p + 1" "unat (of_nat (unat (buf ! p)) :: u32) = unat (buf ! p)"
      using r(2) Cons.prems(2) by (intro unat_of_nat_small; simp)+
    then show ?thesis using Cons.IH [OF r(3) Cons.prems(2)] r(1,2,4) False by (simp add: numeral_2_eq_2)
  qed
qed simp

text \<open>A computation that returns to a state with \<open>P\<close>, or shuts down; it is not stuck.\<close>

definition completes :: "('s \<Rightarrow> bool) \<Rightarrow> ('s, 'a) fw \<Rightarrow> 's \<Rightarrow> bool" where
  "completes P m s \<longleftrightarrow> (case m s of (Inr _, s') \<Rightarrow> P s' | (Inl e, s') \<Rightarrow> e \<noteq> Stuck)"

text \<open>The handlers of a table do so for all the arguments they can get, and so does the report of a shutdown.\<close>

definition table_completes :: "('a sched_s_scheme \<Rightarrow> bool) \<Rightarrow> nat \<Rightarrow> 'a sched_s_scheme command_parser list \<Rightarrow> bool" where
  "table_completes P e idx \<longleftrightarrow>
    (\<forall>i args s. 0 < i \<and> i < length idx \<and> args_fit e (cp_param_types (idx ! i)) args \<and> P s \<longrightarrow>
      completes P (cp_func (idx ! i) args) s) \<and>
    (\<forall>s. P s \<longrightarrow> completes P sched_report_shutdown s)"

lemma dispatch_one_advances:
  assumes ok: "block_ok buf n" and p: "p < n - 3" and total: "table_completes P (n - 3) idx" and P: "P s"
  shows "case dispatch_one idx buf (n - 3) p s of
      (Inr q, s') \<Rightarrow> p < q \<and> q \<le> length buf \<and> P s' | (Inl e, s') \<Rightarrow> e \<noteq> Stuck"
proof -
  have n: "n \<le> length buf" "5 \<le> n" "n \<le> 64" using ok by (auto simp: block_ok_def)
  have "2 \<le> length (drop p buf)" using p n by simp
  then obtain c c' t where d: "drop p buf = c # c' # t"
    by (metis One_nat_def Suc_1 Suc_le_length_iff)
  then obtain m rest where m: "command_parse_msgid (drop p buf) = Some (m, rest)" by fastforce
  let ?q = "length buf - length rest"
  have "length rest < length (drop p buf)" using parse_msgid_shorter [OF m] .
  then have q: "p < ?q" "?q \<le> length buf" using p n by auto
  show ?thesis
  proof (cases "m = 0 \<or> unat m \<ge> length idx")
    case True
    then show ?thesis using m by (simp add: dispatch_one_def command_lookup_parser_def fw_unfold)
  next
    case False
    then have look: "command_lookup_parser idx m = ret (idx ! unat m)" "0 < unat m" "unat m < length idx"
      by (auto simp: command_lookup_parser_def unat_gt_0)
    have "command_parsef buf ?q (n - 3) (cp_param_types (idx ! unat m)) \<noteq> None"
      using ok n by (intro parsef_defined [where q = "n - 1"]) (auto simp: block_ok_def message_consts)
    then obtain r where r: "command_parsef buf ?q (n - 3) (cp_param_types (idx ! unat m)) = Some r" by auto
    show ?thesis
    proof (cases r)
      case (Inl e)
      then show ?thesis using m look r by (simp add: dispatch_one_def fw_unfold)
    next
      case (Inr z)
      obtain p' args where z: "z = (p', args)" by fastforce
      have "?q \<le> p' \<and> p' \<le> length buf" using parsef_advances [of buf ?q] r Inr z q n by auto
      then have "p < p'" "p' \<le> length buf" using q by auto
      moreover have "args_fit (n - 3) (cp_param_types (idx ! unat m)) args"
        using parsef_args_fit [of buf ?q "n - 3"] r Inr z n by simp
      then have "completes P (cp_func (idx ! unat m) args) s" "completes P sched_report_shutdown s"
        using total look(2,3) P unfolding table_completes_def by blast+
      ultimately show ?thesis
        using m look r Inr z
        by (auto simp: dispatch_one_def fw_unfold sched_is_shutdown_def completes_def split: sum.splits prod.splits)
    qed
  qed
qed

lemma dispatch_loop_total:
  assumes ok: "block_ok buf n" and total: "table_completes P (n - 3) idx"
  shows "n - 3 \<le> p + fuel \<Longrightarrow> P s \<Longrightarrow> completes P (dispatch_loop fuel idx buf (n - 3) p) s"
proof (induction fuel arbitrary: p s)
  case (Suc fuel)
  show ?case
  proof (cases "p < n - 3")
    case True
    obtain r s' where r: "dispatch_one idx buf (n - 3) p s = (r, s')" by fastforce
    then have one: "case r of Inr q \<Rightarrow> p < q \<and> P s' | Inl e \<Rightarrow> e \<noteq> Stuck"
      using dispatch_one_advances [OF ok True total Suc.prems(2)] by (auto split: sum.splits)
    show ?thesis
    proof (cases r)
      case (Inr q)
      then have "completes P (dispatch_loop fuel idx buf (n - 3) q) s'" using one Suc by simp
      then show ?thesis using True r Inr by (simp add: completes_def bnd_def)
    qed (use True r one in \<open>simp add: completes_def bnd_def\<close>)
  qed (use Suc.prems in \<open>simp add: completes_def ret_def\<close>)
qed (simp add: completes_def ret_def)

section \<open>Correctness of the dispatcher\<close>

text \<open>
  C32: a block sent by the host runs its commands.  On a synchronised receiver, a frame with the
  expected sequence number whose payload encodes a list of calls runs exactly those calls in
  order, each with its arguments, except that a call without the shutdown flag is answered with
  the shutdown report while the firmware is shut down; then it acknowledges and pops the frame.
\<close>

theorem host_calls_are_executed:
  assumes "synced s" and "seq_ok (next_sequence s)" and "list_all (call_ok idx) cs"
    and "length (encode_calls cs) \<le> MESSAGE_PAYLOAD_MAX"
  shows "command_find_and_dispatch idx (mk_frame (next_sequence s) (encode_calls cs) @ rest) s =
    thn (exec_calls idx cs) (thn command_send_ack (ret (1, length (encode_calls cs) + MESSAGE_MIN)))
      (s\<lparr>sync_state := sync_state s AND NOT CF_NEED_VALID,
        next_sequence := ((next_sequence s + 1) AND MESSAGE_SEQ_MASK) OR MESSAGE_DEST\<rparr>)"
  using find_and_dispatch_calls [OF assms(1-3) _ refl, of rest] assms(4)
  by (simp add: message_consts seq_after_def)

definition example_table :: "basecmd_s command_parser list" where
  "example_table = [Command_parser [] 0 (\<lambda>_. stuck),
    Command_parser [PT_byte] 0 command_allocate_oids,
    Command_parser [] HF_IN_SHUTDOWN command_get_clock]"

theorem host_calls_are_executed_witness:
  "\<exists>s'. command_find_and_dispatch example_table
      (mk_frame 0x10 (encode_calls [(1, [3]), (2, [])]) @ []) idle_basecmd_s = (Inr (1, 8), s') \<and>
    oid_count s' = 3 \<and>
    bd_console s' = [(''clock clock=%u'', [A_int 0]), encode_acknak]"
proof -
  have c: "list_all (call_ok example_table) [(1, [3]), (2, [])]"
    by (simp add: call_ok_def example_table_def word_less_nat_alt)
  have l: "length (encode_calls [(1, [3]), (2, [])]) = 3"
    by (simp add: encode_msgid_def encode_int_def word_le_nat_alt)
  have s: "synced idle_basecmd_s" "next_sequence idle_basecmd_s = 0x10" "seq_ok 0x10"
    by (simp_all add: synced_def idle_defs seq_ok_def message_consts)
  note e = host_calls_are_executed [OF s(1) _ c, of "[]", unfolded s(2) l]
  show ?thesis
    using e [OF s(3)]
    by (simp add: message_consts exec_call_def example_table_def command_allocate_oids_def
        command_get_clock_def command_send_ack_def sched_is_shutdown_def fw_unfold alloc_chunk_cases
        timer_read_time_def sendf_def command_sendf_idle idle_defs dynmem_end_def)
qed

text \<open>
  C33: dispatching a received block always ends and stays inside the block, whatever bytes its
  payload holds.  When each handler of the table returns or shuts down, and keeps an invariant \<open>P\<close>, for the
  arguments its parameter types can give it (as many as they ask for, and buffers that lie inside the
  block), then so does \<open>command_dispatch\<close>: it is never stuck, and when it returns \<open>P\<close> holds.
\<close>

theorem command_dispatch_total:
  assumes "block_ok buf msglen" and "table_completes P (msglen - MESSAGE_TRAILER_SIZE) idx" and "P s"
  shows "completes P (command_dispatch idx buf msglen) s"
  using dispatch_loop_total [of buf msglen P idx 2 "msglen - 3" s] assms
  by (simp add: command_dispatch_def message_consts Let_def)

text \<open>The commands of \<^verbatim>\<open>src/basecmd.c\<close> with their parameters; none has the number 0.\<close>

definition base_table :: "u8 list \<Rightarrow> 'a basecmd_s_scheme command_parser list" where
  "base_table identify_data = [Command_parser [] 0 (\<lambda>_. stuck),
    Command_parser [PT_byte] 0 command_allocate_oids,
    Command_parser [] HF_IN_SHUTDOWN command_get_config,
    Command_parser [PT_uint32] 0 command_finalize_config,
    Command_parser [] HF_IN_SHUTDOWN command_get_clock,
    Command_parser [] HF_IN_SHUTDOWN command_get_uptime,
    Command_parser [] HF_IN_SHUTDOWN command_emergency_stop,
    Command_parser [] HF_IN_SHUTDOWN command_clear_shutdown,
    Command_parser [PT_uint32, PT_byte] HF_IN_SHUTDOWN (command_identify identify_data)]"

text \<open>The table of objects has the size that was allocated.\<close>

definition oids_fit :: "oid_type option list option \<Rightarrow> u8 \<Rightarrow> bool" where
  "oids_fit tab count \<longleftrightarrow> (case tab of None \<Rightarrow> count = 0 | Some ts \<Rightarrow> length ts = unat count)"

definition oids_ok :: "'a basecmd_s_scheme \<Rightarrow> bool" where
  "oids_ok s \<longleftrightarrow> oids_fit (oids s) (oid_count s)"

lemma command_sendf_oids [simp]: "oids (command_sendf m s) = oids s" "oid_count (command_sendf m s) = oid_count s"
  by (simp_all add: command_sendf_def console_sendf_def Let_def)

lemma move_reset_loop_oids [simp]: "oids (move_reset_loop i n s) = oids s" "oid_count (move_reset_loop i n s) = oid_count s"
  by (induction n arbitrary: i s) simp_all

lemma completes_bnd:
  assumes "completes P m s" and "\<And>x s'. P s' \<Longrightarrow> completes P (f x) s'"
  shows "completes P (bnd m f) s"
proof -
  obtain r s1 where r: "m s = (r, s1)" by fastforce
  show ?thesis
  proof (cases r)
    case (Inr x)
    then have "completes P (f x) s1" using assms r by (simp add: completes_def)
    then show ?thesis using r Inr by (simp add: completes_def bnd_def)
  qed (use assms(1) r in \<open>simp add: completes_def bnd_def\<close>)
qed

lemma completes_thn:
  "completes P m s \<Longrightarrow> (\<And>s'. P s' \<Longrightarrow> completes P n s') \<Longrightarrow> completes P (thn m n) s"
  unfolding thn_def by (rule completes_bnd)

lemma completes_simps:
  "completes P (ret x) s = P s" "completes P (gets g) s = P s" "completes P (upd h) s = P (h s)"
  "completes P (shutdown msg) s" "completes P (shutdown_if c msg) s = (c \<or> P s)"
  by (simp_all add: completes_def ret_def gets_def upd_def shutdown_def shutdown_if_def)

lemma completes_if: "(c \<Longrightarrow> completes P m s) \<Longrightarrow> (\<not> c \<Longrightarrow> completes P n s) \<Longrightarrow> completes P (if c then m else n) s"
  by simp

lemmas completes_intros = completes_bnd completes_thn completes_if

lemma completes_sendf: "oids_ok s \<Longrightarrow> completes oids_ok (sendf f vs) s"
  by (simp add: completes_def sendf_def fw_unfold oids_ok_def)

lemma completes_read_time: "oids_ok s \<Longrightarrow> completes oids_ok timer_read_time s"
  by (simp add: completes_def timer_read_time_def fw_unfold oids_ok_def)

lemma alloc_chunk_completes: "oids_ok s \<Longrightarrow> completes oids_ok (alloc_chunk sz) s"
  by (simp add: completes_def alloc_chunk_cases oids_ok_def)

lemma finalize_completes: "oids_ok s \<Longrightarrow> completes oids_ok move_finalize s"
  unfolding move_finalize_def move_queue_setup_def alloc_chunks_def move_reset_def
  by (auto intro!: completes_intros alloc_chunk_completes simp: completes_simps split: prod.split)
    (simp_all add: oids_ok_def)

lemma base_table_completes:
  fixes identify_data :: "u8 list"
  shows "table_completes (oids_ok :: 'a basecmd_s_scheme \<Rightarrow> bool) e (base_table identify_data)"
  unfolding table_completes_def
proof (intro conjI allI impI, elim conjE)
  fix i args and s :: "'a basecmd_s_scheme"
  let ?t = "base_table identify_data :: 'a basecmd_s_scheme command_parser list"
  assume i: "0 < i" "i < length ?t" and a: "args_fit e (cp_param_types (?t ! i)) args" and P: "oids_ok s"
  have "i \<in> {1, 2, 3, 4, 5, 6, 7, 8}" using i by (auto simp: base_table_def)
  then show "completes oids_ok (cp_func (?t ! i) args) s"
  proof (elim insertE emptyE)
    assume "i = 1"
    then obtain v where "args = [v]" using a by (auto simp: base_table_def neq_Nil_conv)
    then show ?thesis using P \<open>i = 1\<close>
      by (auto simp: base_table_def command_allocate_oids_def completes_simps Let_def intro!: completes_intros alloc_chunk_completes)
        (simp add: oids_ok_def oids_fit_def)
  next
    assume "i = 2"
    then show ?thesis using completes_sendf [OF P] by (simp add: base_table_def completes_def command_get_config_def)
  next
    assume "i = 3"
    then obtain v where "args = [v]" using a by (auto simp: base_table_def neq_Nil_conv)
    then show ?thesis using finalize_completes [OF P] \<open>i = 3\<close>
      by (auto simp: base_table_def command_finalize_config_def completes_simps intro!: completes_intros) (simp add: oids_ok_def)
  next
    assume "i = 4"
    then show ?thesis using P
      by (auto simp: base_table_def command_get_clock_def intro!: completes_intros completes_sendf completes_read_time)
  next
    assume "i = 5"
    then show ?thesis using P
      by (auto simp: base_table_def command_get_uptime_def completes_simps intro!: completes_intros completes_sendf completes_read_time)
  next
    assume "i = 6"
    then show ?thesis by (simp add: base_table_def command_emergency_stop_def completes_simps)
  next
    assume "i = 7"
    then show ?thesis using P
      by (auto simp: base_table_def command_clear_shutdown_def sched_clear_shutdown_def completes_simps intro!: completes_intros)
        (simp add: oids_ok_def)
  next
    assume "i = 8"
    then obtain v w where "args = [v, w]" using a by (auto simp: base_table_def neq_Nil_conv numeral_2_eq_2)
    then show ?thesis using completes_sendf [OF P] \<open>i = 8\<close>
      by (simp add: base_table_def completes_def command_identify_def Let_def)
  qed
next
  fix s :: "'a basecmd_s_scheme" assume "oids_ok s"
  then show "completes oids_ok sched_report_shutdown s"
    using completes_sendf [of s] by (simp add: completes_def sched_report_shutdown_def)
qed

text \<open>A block with the allocation of 3 ids and then an unknown command.\<close>

theorem command_dispatch_total_witness:
  "completes oids_ok (command_dispatch (base_table [1, 2, 3]) (mk_frame 0x1f [1, 3, 0x45]) 8) idle_basecmd_s"
proof (rule command_dispatch_total [OF _ base_table_completes])
  have "seq_ok 0x1f" by (simp add: seq_ok_def message_consts)
  then show "block_ok (mk_frame 0x1f [1, 3, 0x45]) 8"
    using frame_prefix [of "[1, 3, 0x45]" "0x1f" "[]"] by simp
qed (simp add: oids_ok_def oids_fit_def idle_defs)

text \<open>
  While the firmware is shut down, a command without the shutdown flag is not executed: its
  dispatch only sends the report of the shutdown reason.
\<close>

theorem shutdown_blocks_commands:
  assumes "shutdown_status s \<noteq> 0" and "cp_flags (idx ! unat m) AND HF_IN_SHUTDOWN = 0"
    and "call_ok idx (m, vs)" and "drop p buf = encode_msgid m @ encode_ints vs @ rest"
    and "p \<le> length buf" and "p + length (encode_msgid m @ encode_ints vs) \<le> msgend"
  shows "dispatch_one idx buf msgend p s =
    (Inr (p + length (encode_msgid m @ encode_ints vs)),
     command_sendf (''is_shutdown static_string_id=%hu'', [A_bytes (map of_char (shutdown_reason s))]) s)"
  using dispatch_one_call [OF assms(3-6)] assms(1,2)
  by (simp add: exec_call_def fw_unfold sched_is_shutdown_def sched_report_shutdown_def sendf_def)

theorem shutdown_blocks_commands_witness:
  "dispatch_one example_table (mk_frame 0x10 (encode_calls [(1, [3])])) 4 2
      (idle_basecmd_s\<lparr>shutdown_status := 1, shutdown_reason := ''x''\<rparr>) =
    (Inr (2 + length (encode_msgid 1 @ encode_ints [3])),
     command_sendf (''is_shutdown static_string_id=%hu'', [A_bytes [of_char (CHR ''x'')]])
       (idle_basecmd_s\<lparr>shutdown_status := 1, shutdown_reason := ''x''\<rparr>))"
  using shutdown_blocks_commands [of "idle_basecmd_s\<lparr>shutdown_status := 1, shutdown_reason := ''x''\<rparr>"
      example_table 1 "[3]" 2 "mk_frame 0x10 (encode_calls [(1, [3])])"
      "drop 4 (mk_frame 0x10 (encode_calls [(1, [3])]))" 4]
  by (simp add: example_table_def call_ok_def word_less_nat_alt mk_frame_def frame_body_def encode_msgid_def encode_int_def
      word_le_nat_alt)

text \<open>
  The reason that a shutdown in progress will report: the new one unless one is recorded.
\<close>

definition latched :: "reason \<Rightarrow> 'a sched_s_scheme \<Rightarrow> reason" where
  "latched r s = (if shutdown_status s = 0 then r else shutdown_reason s)"

lemma run_shutdown_latches:
  assumes k: "\<And>R. keeps (\<lambda>s. shutdown_status s = 2 \<and> shutdown_reason s = R) sfuncs"
    and e: "run_shutdown sfuncs r s = (res, s')"
  shows "shutdown_reason s' = latched r s \<and>
    shutdown_status s' = (if res = Inr () then 1 else 2)"
proof -
  define s0 where "s0 = s\<lparr>bd_clock_reads := Suc (bd_clock_reads s), shutdown_reason := latched r s,
    shutdown_status := 2\<rparr>"
  obtain s1 where s1: "sched_timer_reset s0 = (Inr (), s1)" "shutdown_status s1 = 2"
    "shutdown_reason s1 = latched r s"
    by (simp add: sched_timer_reset_def fw_unfold timer_kick_def s0_def)
  obtain q s2 where s2: "sfuncs s1 = (q, s2)" by fastforce
  have "shutdown_status s2 = 2 \<and> shutdown_reason s2 = latched r s"
    using keepsD [OF k [of "latched r s"], of s1] s1 s2 by simp
  moreover have "run_shutdown sfuncs r s =
    (case q of Inl x \<Rightarrow> (Inl x, s2) | Inr _ \<Rightarrow> (Inr (), command_sendf
      (''shutdown clock=%u static_string_id=%hu'',
        [A_int (bd_clock s (bd_clock_reads s)), A_bytes (map of_char (shutdown_reason s2))])
      (s2\<lparr>shutdown_status := 1\<rparr>)))"
    using s1(1) s2
    by (cases q) (simp_all add: run_shutdown_def fw_unfold timer_read_time_def sendf_def s0_def latched_def
        split: if_splits)
  ultimately show ?thesis
    using e by (cases q) (auto simp: command_sendf_def console_sendf_def Let_def)
qed

text \<open>
  C34: the first shutdown reason wins.  A step of the main loop that processes a shutdown either
  completes it, with the state marked as shut down, or is interrupted by another shutdown and
  starts over; in both cases the recorded reason is the one of the first shutdown.  The shutdown
  handlers may do anything but change the scheduler's shutdown fields.
\<close>

theorem shutdown_reason_latched:
  assumes "main_step poll wait fuel tasks sfuncs (Enter r, s) (mode, s')"
    and "\<And>R. keeps (\<lambda>s. shutdown_status s = 2 \<and> shutdown_reason s = R) sfuncs"
  shows "(\<exists>now. mode = Loop now \<and> shutdown_status s' = 1 \<and> shutdown_reason s' = latched r s) \<or>
    (\<exists>r'. mode = Enter r' \<and> latched r' s' = latched r s)"
  using assms(1)
  by (auto elim!: main_step_enterE dest!: run_shutdown_latches [OF assms(2)]
      simp: latched_def [of _ s'] timer_read_time_def)

theorem shutdown_reason_latched_witness:
  "\<exists>mode s'. main_step (ret ()) (ret ()) 0 (ret ()) move_reset (Enter ''later'',
      idle_basecmd_s\<lparr>shutdown_status := 1, shutdown_reason := ''first''\<rparr>) (mode, s') \<and>
    shutdown_reason s' = ''first''"
proof -
  let ?s = "idle_basecmd_s\<lparr>shutdown_status := 1, shutdown_reason := ''first''\<rparr>"
  have k: "keeps (\<lambda>s. shutdown_status s = 2 \<and> shutdown_reason s = R) move_reset" for R
    by (auto simp: keeps_def move_reset_def fw_unfold reset_loop_frame)
  obtain s1 where s1: "run_shutdown move_reset ''later'' ?s = (Inr (), s1)"
    by (simp add: run_shutdown_def sched_timer_reset_def move_reset_def fw_unfold timer_kick_def
        timer_read_time_def sendf_def idle_defs)
  obtain now s2 where "timer_read_time s1 = (Inr now, s2)" by (simp add: timer_read_time_def)
  then have "main_step (ret ()) (ret ()) 0 (ret ()) move_reset (Enter ''later'', ?s) (Loop now, s2)"
    by (rule shutdown_done [OF s1])
  from this shutdown_reason_latched [OF this k] show ?thesis by (auto simp: latched_def)
qed

end
