(* ===== verification/Trsync.thy ===== *)
theory Trsync
  imports Dispatch
begin

text \<open>
  Trigger synchronisation (\<^verbatim>\<open>src/trsync.c\<close>): a trigger that fires once, runs the
  registered stop signals, and is reported to the host.  The two embedded timers of the
  trigger with id \<open>oid\<close> are \<open>T_obj oid 0\<close> (report) and \<open>T_obj oid 1\<close> (expire); a signal
  is named by the object that embeds it.  The signal callbacks are called through the
  parameter \<open>cb\<close>.
\<close>

section \<open>State\<close>

datatype trsync_cb = CB_stepper_stop

record trsync =
  ts_report_ticks :: u32
  ts_signals :: "nat option"
  ts_flags :: u8
  ts_trigger_reason :: u8
  ts_expire_reason :: u8

definition zero_trsync :: trsync where
  "zero_trsync = \<lparr>ts_report_ticks = 0, ts_signals = None, ts_flags = 0, ts_trigger_reason = 0,
    ts_expire_reason = 0\<rparr>"

record trsync_s = basecmd_s +
  trsyncs :: "nat \<Rightarrow> trsync"
  sig_next :: "nat \<Rightarrow> nat option"
  sig_func :: "nat \<Rightarrow> trsync_cb option"

definition TSF_CAN_TRIGGER :: u8 where "TSF_CAN_TRIGGER = 1"
definition TSF_REPORT :: u8 where "TSF_REPORT = 4"

abbreviation trsync_upd :: "nat \<Rightarrow> (trsync \<Rightarrow> trsync) \<Rightarrow> ('a trsync_s_scheme, unit) fw" where
  "trsync_upd ts f \<equiv> upd (\<lambda>s. s\<lparr>trsyncs := (trsyncs s)(ts := f (trsyncs s ts))\<rparr>)"

abbreviation report_time :: "nat \<Rightarrow> timer_id" where "report_time ts \<equiv> T_obj ts 0"
abbreviation expire_time :: "nat \<Rightarrow> timer_id" where "expire_time ts \<equiv> T_obj ts 1"

section \<open>Triggering\<close>

text \<open>
  The loop that takes the signals off the list and calls them.  A signal belongs to one object,
  so there are at most 255 of them.
\<close>

fun signal_loop ::
  "nat \<Rightarrow> (trsync_cb \<Rightarrow> nat \<Rightarrow> u8 \<Rightarrow> ('a trsync_s_scheme, unit) fw) \<Rightarrow> nat \<Rightarrow> u8 \<Rightarrow>
   ('a trsync_s_scheme, unit) fw"
where
  "signal_loop fuel cb ts reason =
    bnd (gets (\<lambda>s. ts_signals (trsyncs s ts))) (\<lambda>sig. case sig of
      None \<Rightarrow> ret ()
    | Some tss \<Rightarrow> (case fuel of 0 \<Rightarrow> stuck
        | Suc fuel' \<Rightarrow>
            bnd (gets (\<lambda>s. sig_func s tss)) (\<lambda>func.
            thn (upd (\<lambda>s. s\<lparr>trsyncs := (trsyncs s)(ts := (trsyncs s ts)\<lparr>ts_signals := sig_next s tss\<rparr>)\<rparr>))
            (thn (upd (\<lambda>s. s\<lparr>sig_next := (sig_next s)(tss := None)\<rparr>))
            (thn (upd (\<lambda>s. s\<lparr>sig_func := (sig_func s)(tss := None)\<rparr>))
            (thn (case func of None \<Rightarrow> stuck | Some f \<Rightarrow> cb f tss reason)
            (signal_loop fuel' cb ts reason)))))))"

definition trsync_do_trigger ::
  "(trsync_cb \<Rightarrow> nat \<Rightarrow> u8 \<Rightarrow> ('a trsync_s_scheme, unit) fw) \<Rightarrow> nat \<Rightarrow> u8 \<Rightarrow>
   ('a trsync_s_scheme, unit) fw" where
  "trsync_do_trigger cb ts reason =
    bnd (gets (\<lambda>s. ts_flags (trsyncs s ts))) (\<lambda>flags.
    if flags AND TSF_CAN_TRIGGER = 0 then ret ()
    else
      thn (trsync_upd ts (\<lambda>t. t\<lparr>ts_trigger_reason := reason,
        ts_flags := (flags AND NOT TSF_CAN_TRIGGER) OR TSF_REPORT\<rparr>))
      (thn (signal_loop 255 cb ts reason)
      (sched_wake_task ''trsync_wake'')))"

definition trsync_expire_event ::
  "(trsync_cb \<Rightarrow> nat \<Rightarrow> u8 \<Rightarrow> ('a trsync_s_scheme, unit) fw) \<Rightarrow> nat \<Rightarrow> ('a trsync_s_scheme, sf) fw" where
  "trsync_expire_event cb ts =
    bnd (gets (\<lambda>s. ts_expire_reason (trsyncs s ts))) (\<lambda>r.
    thn (trsync_do_trigger cb ts r) (ret SF_DONE))"

definition trsync_report_event :: "nat \<Rightarrow> ('a trsync_s_scheme, sf) fw" where
  "trsync_report_event ts =
    thn (trsync_upd ts (\<lambda>t. t\<lparr>ts_flags := ts_flags t OR TSF_REPORT\<rparr>))
    (thn (sched_wake_task ''trsync_wake'')
    (thn (upd (\<lambda>s. set_wake (report_time ts)
        (tm_wake s (report_time ts) + ts_report_ticks (trsyncs s ts)) s))
    (ret SF_RESCHEDULE)))"

section \<open>Commands\<close>

definition command_config_trsync :: "nat \<Rightarrow> u32 list \<Rightarrow> ('a trsync_s_scheme, unit) fw" where
  "command_config_trsync sizeof_ts args = (case args of
      [a0] \<Rightarrow> bnd (oid_alloc (ucast a0) ''trsync'' sizeof_ts) (\<lambda>ts.
        upd (\<lambda>s. s\<lparr>trsyncs := (trsyncs s)(ts := zero_trsync)\<rparr>))
    | _ \<Rightarrow> stuck)"

definition trsync_oid_lookup :: "u8 \<Rightarrow> ('a trsync_s_scheme, nat) fw" where
  "trsync_oid_lookup oid = oid_lookup oid ''trsync''"

definition trsync_add_signal :: "nat \<Rightarrow> nat \<Rightarrow> trsync_cb \<Rightarrow> ('a trsync_s_scheme, unit) fw" where
  "trsync_add_signal ts tss func =
    bnd (gets (\<lambda>s. sig_func s tss)) (\<lambda>f.
    thn (shutdown_if (f \<noteq> None) ''Can't add signal that is already active'')
    (thn (upd (\<lambda>s. s\<lparr>sig_func := (sig_func s)(tss := Some func)\<rparr>))
    (thn (upd (\<lambda>s. s\<lparr>sig_next := (sig_next s)(tss := ts_signals (trsyncs s ts))\<rparr>))
    (trsync_upd ts (\<lambda>t. t\<lparr>ts_signals := Some tss\<rparr>)))))"

text \<open>The loop of \<^verbatim>\<open>trsync_clear\<close> that unregisters the signals from \<open>tss\<close> on.\<close>

fun clear_signals :: "nat \<Rightarrow> nat option \<Rightarrow> ('a trsync_s_scheme, unit) fw" where
  "clear_signals fuel None = ret ()"
| "clear_signals 0 (Some tss) = stuck"
| "clear_signals (Suc fuel) (Some tss) =
    bnd (gets (\<lambda>s. sig_next s tss)) (\<lambda>next.
    thn (upd (\<lambda>s. s\<lparr>sig_func := (sig_func s)(tss := None)\<rparr>))
    (thn (upd (\<lambda>s. s\<lparr>sig_next := (sig_next s)(tss := None)\<rparr>))
    (clear_signals fuel next)))"

definition trsync_clear :: "nat \<Rightarrow> ('a trsync_s_scheme, unit) fw" where
  "trsync_clear ts =
    thn (sched_del_timer (report_time ts))
    (thn (sched_del_timer (expire_time ts))
    (bnd (gets (\<lambda>s. ts_signals (trsyncs s ts))) (\<lambda>tss.
    thn (clear_signals 255 tss)
    (trsync_upd ts (\<lambda>t. t\<lparr>ts_signals := None, ts_flags := 0, ts_trigger_reason := 0,
      ts_expire_reason := 0\<rparr>)))))"

definition command_trsync_start :: "u32 list \<Rightarrow> ('a trsync_s_scheme, unit) fw" where
  "command_trsync_start args = (case args of
      [oid, report_clock, report_ticks, expire_reason] \<Rightarrow>
        bnd (trsync_oid_lookup (ucast oid)) (\<lambda>ts.
        thn (trsync_clear ts)
        (thn (trsync_upd ts (\<lambda>t. t\<lparr>ts_flags := TSF_CAN_TRIGGER\<rparr>))
        (thn (upd (set_wake (report_time ts) report_clock))
        (thn (trsync_upd ts (\<lambda>t. t\<lparr>ts_report_ticks := report_ticks\<rparr>))
        (thn (if report_ticks \<noteq> 0 then sched_add_timer (report_time ts) else ret ())
        (trsync_upd ts (\<lambda>t. t\<lparr>ts_expire_reason := ucast expire_reason\<rparr>)))))))
    | _ \<Rightarrow> stuck)"

definition command_trsync_set_timeout :: "u32 list \<Rightarrow> ('a trsync_s_scheme, unit) fw" where
  "command_trsync_set_timeout args = (case args of
      [oid, clock] \<Rightarrow>
        bnd (trsync_oid_lookup (ucast oid)) (\<lambda>ts.
        bnd (gets (\<lambda>s. ts_flags (trsyncs s ts))) (\<lambda>flags.
        if flags AND TSF_CAN_TRIGGER \<noteq> 0 then
          thn (sched_del_timer (expire_time ts))
          (thn (upd (set_wake (expire_time ts) clock))
          (sched_add_timer (expire_time ts)))
        else ret ()))
    | _ \<Rightarrow> stuck)"

definition trsync_report :: "u8 \<Rightarrow> u8 \<Rightarrow> u8 \<Rightarrow> u32 \<Rightarrow> ('a trsync_s_scheme, unit) fw" where
  "trsync_report oid flags reason clock =
    sendf ''trsync_state oid=%c can_trigger=%c trigger_reason=%c clock=%u''
      [A_int (ucast oid), A_int (if flags AND TSF_CAN_TRIGGER \<noteq> 0 then 1 else 0),
       A_int (ucast reason), A_int clock]"

definition command_trsync_trigger ::
  "(trsync_cb \<Rightarrow> nat \<Rightarrow> u8 \<Rightarrow> ('a trsync_s_scheme, unit) fw) \<Rightarrow> u32 list \<Rightarrow>
   ('a trsync_s_scheme, unit) fw" where
  "command_trsync_trigger cb args = (case args of
      [a0, reason] \<Rightarrow>
        (let oid = ucast a0 in
        bnd (trsync_oid_lookup oid) (\<lambda>ts.
        thn (trsync_do_trigger cb ts (ucast reason))
        (thn (sched_del_timer (report_time ts))
        (thn (sched_del_timer (expire_time ts))
        (thn (trsync_upd ts (\<lambda>t. t\<lparr>ts_flags := 0\<rparr>))
        (bnd (gets (\<lambda>s. ts_trigger_reason (trsyncs s ts))) (\<lambda>r.
        trsync_report oid 0 r 0)))))))
    | _ \<Rightarrow> stuck)"

definition trsync_task :: "('a trsync_s_scheme, unit) fw" where
  "trsync_task =
    bnd (sched_check_wake ''trsync_wake'') (\<lambda>w.
    if \<not> w then ret ()
    else foreach_oid ''trsync'' (\<lambda>ts.
      bnd (gets (\<lambda>s. ts_flags (trsyncs s ts))) (\<lambda>fl.
      if fl AND TSF_REPORT = 0 then ret ()
      else
        bnd timer_read_time (\<lambda>time.
        bnd (gets (\<lambda>s. ts_trigger_reason (trsyncs s ts))) (\<lambda>trigger_reason.
        bnd (gets (\<lambda>s. ts_flags (trsyncs s ts))) (\<lambda>flags.
        thn (trsync_upd ts (\<lambda>t. t\<lparr>ts_flags := flags AND NOT TSF_REPORT\<rparr>))
        (trsync_report (of_nat ts) flags trigger_reason time)))))))"

definition trsync_shutdown :: "('a trsync_s_scheme, unit) fw" where
  "trsync_shutdown = foreach_oid ''trsync'' trsync_clear"

section \<open>Firing a trigger\<close>

declare signal_loop.simps [simp del]

text \<open>\<open>ls\<close> are the registered signals of the trigger \<open>ts\<close>, the latest first.\<close>

definition sig_rep :: "'a trsync_s_scheme \<Rightarrow> nat \<Rightarrow> nat list \<Rightarrow> bool" where
  "sig_rep s ts ls \<longleftrightarrow> distinct ls \<and> (\<forall>x\<in>set ls. sig_func s x \<noteq> None) \<and>
    (if ls = [] then ts_signals (trsyncs s ts) = None
     else ts_signals (trsyncs s ts) = Some (hd ls) \<and> chain (sig_next s) ls)"

lemma sig_rep_Cons:
  "sig_rep s ts (x # ls) \<longleftrightarrow> x \<notin> set ls \<and> sig_func s x \<noteq> None \<and> ts_signals (trsyncs s ts) = Some x \<and>
    sig_next s x = (if ls = [] then None else Some (hd ls)) \<and> distinct ls \<and>
    (\<forall>x\<in>set ls. sig_func s x \<noteq> None) \<and> (ls \<noteq> [] \<longrightarrow> chain (sig_next s) ls)"
  by (cases ls) (auto simp: sig_rep_def)

lemma add_signal_rep:
  assumes "sig_rep s ts ls" and "tss \<notin> set ls"
  shows "trsync_add_signal ts tss f s = (if sig_func s tss \<noteq> None
      then (Inl (Shut ''Can't add signal that is already active''), s)
      else (Inr (), s\<lparr>sig_func := (sig_func s)(tss := Some f), 
        sig_next := (sig_next s)(tss := ts_signals (trsyncs s ts)),
        trsyncs := (trsyncs s)(ts := (trsyncs s ts)\<lparr>ts_signals := Some tss\<rparr>)\<rparr>)) \<and>
    (sig_func s tss = None \<longrightarrow> sig_rep (snd (trsync_add_signal ts tss f s)) ts (tss # ls))"
  using assms unfolding sig_rep_Cons
  by (auto simp: trsync_add_signal_def fw_unfold sig_rep_def)

text \<open>
  What a trigger relies on: a signal callback returns, keeps the state invariant, achieves the
  effect \<open>done\<close> for its signal and does not touch the triggers.
\<close>

locale trsync_signals =
  fixes cb :: "trsync_cb \<Rightarrow> nat \<Rightarrow> u8 \<Rightarrow> ('a trsync_s_scheme, unit) fw"
    and inv :: "'a trsync_s_scheme \<Rightarrow> bool" and good :: "nat \<Rightarrow> bool"
    and effect :: "nat \<Rightarrow> 'a trsync_s_scheme \<Rightarrow> bool"
  assumes cb_returns: "inv s \<Longrightarrow> good x \<Longrightarrow> \<exists>s'. cb f x r s = (Inr (), s') \<and> inv s' \<and> effect x s' \<and>
      (\<forall>y. effect y s \<longrightarrow> effect y s') \<and> trsyncs s' = trsyncs s \<and> sig_next s' = sig_next s \<and>
      sig_func s' = sig_func s"
    and inv_frame: "inv (s\<lparr>trsyncs := t\<rparr>) = inv s" "inv (s\<lparr>sig_next := n\<rparr>) = inv s"
      "inv (s\<lparr>sig_func := g\<rparr>) = inv s" "inv (s\<lparr>tasks_status := v, task_wakes := w\<rparr>) = inv s"
    and effect_frame: "effect x (s\<lparr>trsyncs := t\<rparr>) = effect x s" "effect x (s\<lparr>sig_next := n\<rparr>) = effect x s"
      "effect x (s\<lparr>sig_func := g\<rparr>) = effect x s" "effect x (s\<lparr>tasks_status := v, task_wakes := w\<rparr>) = effect x s"
begin

lemma signal_loop_run:
  assumes "inv s" and "sig_rep s ts ls" and "\<forall>x\<in>set ls. good x" and "length ls \<le> fuel"
  shows "\<exists>s'. signal_loop fuel cb ts r s = (Inr (), s') \<and> inv s' \<and> (\<forall>x\<in>set ls. effect x s') \<and>
    (\<forall>x. effect x s \<longrightarrow> effect x s') \<and>
    trsyncs s' = (trsyncs s)(ts := (trsyncs s ts)\<lparr>ts_signals := None\<rparr>) \<and>
    sig_func s' = (\<lambda>x. if x \<in> set ls then None else sig_func s x)"
  using assms
proof (induction ls arbitrary: s fuel)
  case Nil
  then have "ts_signals (trsyncs s ts) = None" by (simp add: sig_rep_def)
  moreover from this have "(trsyncs s)(ts := (trsyncs s ts)\<lparr>ts_signals := None\<rparr>) = trsyncs s" by auto
  ultimately show ?case using Nil(1) by (simp add: signal_loop.simps fw_unfold)
next
  case (Cons x ls)
  obtain f where f: "fuel = Suc f" using Cons.prems(4) by (cases fuel) auto
  have x: "x \<notin> set ls" "ts_signals (trsyncs s ts) = Some x"
    "sig_next s x = (if ls = [] then None else Some (hd ls))" "distinct ls"
    "\<forall>y\<in>set ls. sig_func s y \<noteq> None" "ls \<noteq> [] \<longrightarrow> chain (sig_next s) ls"
    using Cons.prems(2) unfolding sig_rep_Cons by blast+
  obtain g where g: "sig_func s x = Some g" using Cons.prems(2) unfolding sig_rep_Cons by blast
  define s1 where "s1 = s\<lparr>trsyncs := (trsyncs s)(ts := (trsyncs s ts)\<lparr>ts_signals := sig_next s x\<rparr>),
    sig_next := (sig_next s)(x := None), sig_func := (sig_func s)(x := None)\<rparr>"
  have i1: "inv s1" using Cons.prems(1) by (simp add: s1_def inv_frame)
  have e1: "effect y s1 = effect y s" for y by (simp add: s1_def effect_frame)
  obtain s2 where s2: "cb g x r s1 = (Inr (), s2)" "inv s2" "effect x s2" "\<forall>y. effect y s1 \<longrightarrow> effect y s2"
    "trsyncs s2 = trsyncs s1" "sig_next s2 = sig_next s1" "sig_func s2 = sig_func s1"
    using cb_returns [OF i1] Cons.prems(3) by (metis list.set_intros(1))
  have r2: "sig_rep s2 ts ls" using x unfolding sig_rep_def s2(5-7) by (auto simp: s1_def)
  have l: "\<forall>x\<in>set ls. good x" "length ls \<le> f" using Cons.prems(3,4) f by auto
  obtain s' where
    s': "signal_loop f cb ts r s2 = (Inr (), s')" "inv s'" "\<forall>y\<in>set ls. effect y s'"
    "\<forall>y. effect y s2 \<longrightarrow> effect y s'"
    "trsyncs s' = (trsyncs s2)(ts := (trsyncs s2 ts)\<lparr>ts_signals := None\<rparr>)"
    "sig_func s' = (\<lambda>y. if y \<in> set ls then None else sig_func s2 y)"
    using Cons.IH [OF s2(2) r2 l] by blast
  have "signal_loop fuel cb ts r s = (Inr (), s')"
    using x(2) g s2(1) s'(1) by (simp add: f signal_loop.simps [of "Suc f"] fw_unfold s1_def del: fun_upd_apply)
  moreover have "trsyncs s' = (trsyncs s)(ts := (trsyncs s ts)\<lparr>ts_signals := None\<rparr>)"
    by (auto simp: s'(5) s2(5) s1_def)
  moreover have "sig_func s' = (\<lambda>y. if y \<in> set (x # ls) then None else sig_func s y)"
    by (auto simp: s'(6) s2(7) s1_def)
  ultimately show ?case using s'(2-4) s2(3,4) e1 by (intro exI [of _ s']) auto
qed

lemma do_trigger_run:
  assumes "inv s" and "sig_rep s ts ls" and "\<forall>x\<in>set ls. good x" and "length ls \<le> 255"
  shows "\<exists>s'. trsync_do_trigger cb ts r s = (Inr (), s') \<and> inv s' \<and>
    (\<forall>x. effect x s \<longrightarrow> effect x s') \<and>
    (if ts_flags (trsyncs s ts) AND TSF_CAN_TRIGGER = 0 then s' = s
     else (\<forall>x\<in>set ls. effect x s' \<and> sig_func s' x = None) \<and> task_wakes s' ''trsync_wake'' = 1 \<and>
       trsyncs s' = (trsyncs s)(ts := (trsyncs s ts)\<lparr>ts_signals := None, ts_trigger_reason := r,
         ts_flags := (ts_flags (trsyncs s ts) AND NOT TSF_CAN_TRIGGER) OR TSF_REPORT\<rparr>))"
proof (cases "ts_flags (trsyncs s ts) AND TSF_CAN_TRIGGER = 0")
  case True
  then show ?thesis using assms(1) by (simp add: trsync_do_trigger_def fw_unfold)
next
  case False
  define s1 where "s1 = s\<lparr>trsyncs := (trsyncs s)(ts := (trsyncs s ts)\<lparr>ts_trigger_reason := r,
    ts_flags := (ts_flags (trsyncs s ts) AND NOT TSF_CAN_TRIGGER) OR TSF_REPORT\<rparr>)\<rparr>"
  have i1: "inv s1" using assms(1) by (simp add: s1_def inv_frame)
  have e1: "effect y s1 = effect y s" for y by (simp add: s1_def effect_frame)
  have r1: "sig_rep s1 ts ls" using assms(2) by (simp add: s1_def sig_rep_def cong: if_cong)
  obtain s2 where
    s2: "signal_loop 255 cb ts r s1 = (Inr (), s2)" "inv s2" "\<forall>y\<in>set ls. effect y s2"
    "\<forall>y. effect y s1 \<longrightarrow> effect y s2"
    "trsyncs s2 = (trsyncs s1)(ts := (trsyncs s1 ts)\<lparr>ts_signals := None\<rparr>)"
    "sig_func s2 = (\<lambda>y. if y \<in> set ls then None else sig_func s1 y)"
    using signal_loop_run [OF i1 r1 assms(3,4)] by blast
  show ?thesis
    using False s2 e1
    by (auto simp: trsync_do_trigger_def fw_unfold s1_def sched_wake_task_def sched_wake_tasks_def
        inv_frame effect_frame)
qed

end

definition idle_trsync_s :: trsync_s where
  "idle_trsync_s = basecmd_s.extend idle_basecmd_s
    \<lparr>trsyncs = (\<lambda>_. zero_trsync), sig_next = (\<lambda>_. None), sig_func = (\<lambda>_. None)\<rparr>"

end
