(* ===== verification/Stepper.thy ===== *)
theory Stepper
  imports Trsync
begin

text \<open>
  Stepper motors (\<^verbatim>\<open>src/stepper.c\<close>): the queue of moves of a stepper, the three
  variants of the step event, the commands and the stop callback.  The build configuration
  that selects a variant is part of the state.  The timer of the stepper with id \<open>oid\<close> is
  \<open>T_obj oid 0\<close>.
\<close>

section \<open>State\<close>

datatype stepper_func = SE_null | SE_full

record stepper =
  st_func :: stepper_func
  st_interval :: u32
  st_add :: u16
  st_count :: u32
  st_next_step_time :: u32
  st_step_pulse_ticks :: u32
  st_step_pin :: u32
  st_dir_pin :: u32
  st_position :: u32
  st_mq :: move_queue_head
  st_flags :: u8

definition zero_stepper :: stepper where
  "zero_stepper = \<lparr>st_func = SE_null, st_interval = 0, st_add = 0, st_count = 0,
    st_next_step_time = 0, st_step_pulse_ticks = 0, st_step_pin = 0, st_dir_pin = 0,
    st_position = 0, st_mq = \<lparr>mq_first = None, mq_last = None\<rparr>, st_flags = 0\<rparr>"

record stepper_s = trsync_s +
  steppers :: "nat \<Rightarrow> stepper"
  cfg_inline_hack :: bool
  cfg_both_edge :: bool
  cfg_mach_avr :: bool

definition HAVE_EDGE_OPTIMIZATION :: "'a stepper_s_scheme \<Rightarrow> bool" where
  "HAVE_EDGE_OPTIMIZATION s \<longleftrightarrow> cfg_inline_hack s \<and> cfg_both_edge s"

definition HAVE_AVR_OPTIMIZATION :: "'a stepper_s_scheme \<Rightarrow> bool" where
  "HAVE_AVR_OPTIMIZATION s \<longleftrightarrow> cfg_inline_hack s \<and> \<not> cfg_both_edge s \<and> cfg_mach_avr s"

definition HAVE_SINGLE_SCHEDULE :: "'a stepper_s_scheme \<Rightarrow> bool" where
  "HAVE_SINGLE_SCHEDULE s \<longleftrightarrow> HAVE_EDGE_OPTIMIZATION s \<or> HAVE_AVR_OPTIMIZATION s"

definition MF_DIR :: u8 where "MF_DIR = 1"
definition POSITION_BIAS :: u32 where "POSITION_BIAS = 0x40000000"
definition SF_LAST_DIR :: u8 where "SF_LAST_DIR = 1"
definition SF_NEXT_DIR :: u8 where "SF_NEXT_DIR = 2"
definition SF_INVERT_STEP :: u8 where "SF_INVERT_STEP = 4"
definition SF_NEED_RESET :: u8 where "SF_NEED_RESET = 8"
definition SF_SINGLE_SCHED :: u8 where "SF_SINGLE_SCHED = 16"
definition SF_HAVE_ADD :: u8 where "SF_HAVE_ADD = 32"
definition AVR_STEP_INSNS :: u32 where "AVR_STEP_INSNS = 40"

lemmas stepper_flags = MF_DIR_def SF_LAST_DIR_def SF_NEXT_DIR_def SF_INVERT_STEP_def
  SF_NEED_RESET_def SF_SINGLE_SCHED_def SF_HAVE_ADD_def

abbreviation stepper_upd :: "nat \<Rightarrow> (stepper \<Rightarrow> stepper) \<Rightarrow> ('a stepper_s_scheme, unit) fw" where
  "stepper_upd st f \<equiv> upd (\<lambda>s. s\<lparr>steppers := (steppers s)(st := f (steppers s st))\<rparr>)"

abbreviation step_time :: "nat \<Rightarrow> timer_id" where "step_time st \<equiv> T_obj st 0"

definition single_sched :: "nat \<Rightarrow> 'a stepper_s_scheme \<Rightarrow> bool" where
  "single_sched st s \<longleftrightarrow>
    HAVE_SINGLE_SCHEDULE s \<and> st_flags (steppers s st) AND SF_SINGLE_SCHED \<noteq> 0"

section \<open>Step events\<close>

text \<open>Take the next move from the queue; its node goes back to the pool.\<close>

definition stepper_load_next :: "nat \<Rightarrow> ('a stepper_s_scheme, sf) fw" where
  "stepper_load_next st =
    bnd (gets (\<lambda>s. st_mq (steppers s st))) (\<lambda>mq.
    if move_queue_empty mq then
      thn (stepper_upd st (\<lambda>x. x\<lparr>st_count := 0\<rparr>)) (ret SF_DONE)
    else
      bnd (move_queue_pop mq) (\<lambda>(mq', mn).
      thn (stepper_upd st (\<lambda>x. x\<lparr>st_mq := mq'\<rparr>))
      (bnd (gets (\<lambda>s. mv_data s mn)) (\<lambda>m. case m of
        MD_stepper m_interval m_add m_count m_flags \<Rightarrow>
          thn (stepper_upd st (\<lambda>x. x\<lparr>st_add := m_add, st_interval := m_interval + scast m_add\<rparr>))
          (bnd (gets (single_sched st)) (\<lambda>single.
          thn (if single then
                 thn (upd (\<lambda>s. set_wake (step_time st) (tm_wake s (step_time st) + m_interval) s))
                 (bnd (gets HAVE_AVR_OPTIMIZATION) (\<lambda>avr.
                 thn (if avr then stepper_upd st (\<lambda>x. x\<lparr>st_flags :=
                        (if m_add \<noteq> 0 then st_flags x OR SF_HAVE_ADD
                         else st_flags x AND NOT SF_HAVE_ADD)\<rparr>)
                      else ret ())
                 (stepper_upd st (\<lambda>x. x\<lparr>st_count := ucast m_count\<rparr>))))
               else
                 thn (stepper_upd st (\<lambda>x. x\<lparr>st_next_step_time := st_next_step_time x + m_interval\<rparr>))
                 (thn (upd (\<lambda>s. set_wake (step_time st) (st_next_step_time (steppers s st)) s))
                 (stepper_upd st (\<lambda>x. x\<lparr>st_count := ucast m_count * 2\<rparr>))))
          (thn (if m_flags AND MF_DIR \<noteq> 0 then
                  thn (stepper_upd st (\<lambda>x. x\<lparr>st_position := - st_position x + ucast m_count\<rparr>))
                  (bnd (gets (\<lambda>s. st_dir_pin (steppers s st))) gpio_out_toggle)
                else stepper_upd st (\<lambda>x. x\<lparr>st_position := st_position x + ucast m_count\<rparr>))
          (thn (move_free mn) (ret SF_RESCHEDULE)))))
      | _ \<Rightarrow> stuck))))"

definition stepper_event_edge :: "nat \<Rightarrow> ('a stepper_s_scheme, sf) fw" where
  "stepper_event_edge st =
    bnd (gets (\<lambda>s. st_step_pin (steppers s st))) (\<lambda>pin.
    thn (gpio_out_toggle pin)
    (bnd (gets (\<lambda>s. st_count (steppers s st) - 1)) (\<lambda>count.
    if count \<noteq> 0 then
      thn (stepper_upd st (\<lambda>x. x\<lparr>st_count := count\<rparr>))
      (thn (upd (\<lambda>s. set_wake (step_time st)
          (tm_wake s (step_time st) + st_interval (steppers s st)) s))
      (thn (stepper_upd st (\<lambda>x. x\<lparr>st_interval := st_interval x + scast (st_add x)\<rparr>))
      (ret SF_RESCHEDULE)))
    else stepper_load_next st)))"

text \<open>The AVR variant works on the low half of the 32-bit counter.\<close>

definition low_half :: "u32 \<Rightarrow> u16" where
  "low_half c = ucast c"

definition set_low_half :: "u32 \<Rightarrow> u16 \<Rightarrow> u32" where
  "set_low_half c h = (c AND 0xffff0000) OR ucast h"

definition stepper_event_avr :: "nat \<Rightarrow> ('a stepper_s_scheme, sf) fw" where
  "stepper_event_avr st =
    bnd (gets (\<lambda>s. st_step_pin (steppers s st))) (\<lambda>pin.
    thn (gpio_out_toggle pin)
    (bnd (gets (\<lambda>s. low_half (st_count (steppers s st)) - 1)) (\<lambda>count.
    if count \<noteq> 0 then
      thn (stepper_upd st (\<lambda>x. x\<lparr>st_count := set_low_half (st_count x) count\<rparr>))
      (thn (upd (\<lambda>s. set_wake (step_time st)
          (tm_wake s (step_time st) + st_interval (steppers s st)) s))
      (thn (gpio_out_toggle pin)
      (thn (stepper_upd st (\<lambda>x. if st_flags x AND SF_HAVE_ADD \<noteq> 0
          then x\<lparr>st_interval := st_interval x + scast (st_add x)\<rparr> else x))
      (ret SF_RESCHEDULE))))
    else
      bnd (stepper_load_next st) (\<lambda>r.
      thn (gpio_out_toggle pin) (ret r)))))"

definition reschedule_min :: "nat \<Rightarrow> u32 \<Rightarrow> ('a stepper_s_scheme, sf) fw" where
  "reschedule_min st min_next_time =
    thn (upd (set_wake (step_time st) min_next_time)) (ret SF_RESCHEDULE)"

definition stepper_event_full :: "nat \<Rightarrow> ('a stepper_s_scheme, sf) fw" where
  "stepper_event_full st =
    bnd (gets (\<lambda>s. st_step_pin (steppers s st))) (\<lambda>pin.
    thn (gpio_out_toggle pin)
    (bnd timer_read_time (\<lambda>curtime.
    bnd (gets (\<lambda>s. curtime + st_step_pulse_ticks (steppers s st))) (\<lambda>min_next_time.
    thn (stepper_upd st (\<lambda>x. x\<lparr>st_count := st_count x - 1\<rparr>))
    (bnd (gets (\<lambda>s. st_count (steppers s st))) (\<lambda>count.
    if count AND 1 \<noteq> 0 then reschedule_min st min_next_time
    else if count \<noteq> 0 then
      thn (stepper_upd st (\<lambda>x. x\<lparr>st_next_step_time := st_next_step_time x + st_interval x\<rparr>))
      (thn (stepper_upd st (\<lambda>x. x\<lparr>st_interval := st_interval x + scast (st_add x)\<rparr>))
      (bnd (gets (\<lambda>s. st_next_step_time (steppers s st))) (\<lambda>nst.
      if timer_is_before nst min_next_time then reschedule_min st min_next_time
      else thn (upd (set_wake (step_time st) nst)) (ret SF_RESCHEDULE))))
    else
      bnd (stepper_load_next st) (\<lambda>r.
      bnd (gets (\<lambda>s. tm_wake s (step_time st))) (\<lambda>w.
      if r = SF_DONE \<or> \<not> timer_is_before w min_next_time then ret r
      else
        bnd (gets (\<lambda>s. sint (w - min_next_time) < sint (- timer_from_us 1000 s))) (\<lambda>far.
        thn (shutdown_if far ''Stepper too far in past'')
        (reschedule_min st min_next_time))))))))))"

definition stepper_event :: "nat \<Rightarrow> ('a stepper_s_scheme, sf) fw" where
  "stepper_event st =
    bnd (gets (\<lambda>s. (HAVE_EDGE_OPTIMIZATION s, HAVE_AVR_OPTIMIZATION s))) (\<lambda>(edge, avr).
    if edge then stepper_event_edge st
    else if avr then stepper_event_avr st
    else stepper_event_full st)"

section \<open>Commands\<close>

definition command_config_stepper :: "nat \<Rightarrow> nat \<Rightarrow> u32 list \<Rightarrow> ('a stepper_s_scheme, unit) fw" where
  "command_config_stepper sizeof_stepper sizeof_move args = (case args of
      [oid, a_step_pin, a_dir_pin, a_invert, a_ticks] \<Rightarrow>
        bnd (oid_alloc (ucast oid) ''stepper'' sizeof_stepper) (\<lambda>st.
        let invert_step = sint (ucast a_invert :: u8) in
        thn (upd (\<lambda>s. s\<lparr>steppers := (steppers s)(st := zero_stepper
            \<lparr>st_flags := (if invert_step > 0 then SF_INVERT_STEP else 0)\<rparr>),
          sig_next := (sig_next s)(st := None), sig_func := (sig_func s)(st := None)\<rparr>))
        (bnd (gpio_out_setup a_step_pin (invert_step > 0)) (\<lambda>step_pin.
        bnd (gpio_out_setup a_dir_pin False) (\<lambda>dir_pin.
        thn (stepper_upd st (\<lambda>x. x\<lparr>st_step_pin := step_pin, st_dir_pin := dir_pin,
          st_position := - POSITION_BIAS, st_step_pulse_ticks := a_ticks\<rparr>))
        (bnd (move_queue_setup sizeof_move) (\<lambda>mq.
        thn (stepper_upd st (\<lambda>x. x\<lparr>st_mq := mq\<rparr>))
        (bnd (gets (\<lambda>s. (HAVE_EDGE_OPTIMIZATION s, HAVE_AVR_OPTIMIZATION s, cfg_inline_hack s)))
          (\<lambda>(edge, avr, hack).
        if edge then
          (if a_ticks = 0 \<and> invert_step < 0
           then stepper_upd st (\<lambda>x. x\<lparr>st_flags := st_flags x OR SF_SINGLE_SCHED\<rparr>)
           else stepper_upd st (\<lambda>x. x\<lparr>st_func := SE_full\<rparr>))
        else if avr then
          (if a_ticks \<le> AVR_STEP_INSNS
           then stepper_upd st (\<lambda>x. x\<lparr>st_flags := st_flags x OR SF_SINGLE_SCHED\<rparr>)
           else stepper_upd st (\<lambda>x. x\<lparr>st_func := SE_full\<rparr>))
        else if \<not> hack then stepper_upd st (\<lambda>x. x\<lparr>st_func := SE_full\<rparr>)
        else ret ()))))))))
    | _ \<Rightarrow> stuck)"

text \<open>The timer callback: \<^verbatim>\<open>t->func\<close>, or the inlined \<^verbatim>\<open>stepper_event\<close> when it is null.\<close>

definition stepper_timer :: "nat \<Rightarrow> ('a stepper_s_scheme, sf) fw" where
  "stepper_timer st =
    bnd (gets (\<lambda>s. (st_func (steppers s st), cfg_inline_hack s))) (\<lambda>(f, hack).
    case f of SE_full \<Rightarrow> stepper_event_full st
    | SE_null \<Rightarrow> if hack then stepper_event st else stuck)"

definition stepper_oid_lookup :: "u8 \<Rightarrow> ('a stepper_s_scheme, nat) fw" where
  "stepper_oid_lookup oid = oid_lookup oid ''stepper''"

definition command_queue_step :: "u32 list \<Rightarrow> ('a stepper_s_scheme, unit) fw" where
  "command_queue_step args = (case args of
      [oid, interval, count, add] \<Rightarrow>
        bnd (stepper_oid_lookup (ucast oid)) (\<lambda>st.
        bnd move_alloc (\<lambda>m.
        let m_count = ucast count :: u16 in
        thn (shutdown_if (m_count = 0) ''Invalid count parameter'')
        (bnd (gets (\<lambda>s. st_flags (steppers s st))) (\<lambda>flags.
        let turn = ((flags AND SF_LAST_DIR \<noteq> 0) \<noteq> (flags AND SF_NEXT_DIR \<noteq> 0));
            flags = (if turn then flags XOR SF_LAST_DIR else flags);
            m_flags = (if turn then MF_DIR else 0)
        in
        thn (upd (\<lambda>s. s\<lparr>mv_data := (mv_data s)(m := MD_stepper interval (ucast add) m_count m_flags)\<rparr>))
        (bnd (gets (\<lambda>s. (st_count (steppers s st), st_mq (steppers s st)))) (\<lambda>(cnt, mq).
        if cnt \<noteq> 0 then
          thn (stepper_upd st (\<lambda>x. x\<lparr>st_flags := flags\<rparr>))
          (bnd (move_queue_push m mq) (\<lambda>(mq', _).
          stepper_upd st (\<lambda>x. x\<lparr>st_mq := mq'\<rparr>)))
        else if flags AND SF_NEED_RESET \<noteq> 0 then move_free m
        else
          thn (stepper_upd st (\<lambda>x. x\<lparr>st_flags := flags\<rparr>))
          (bnd (move_queue_push m mq) (\<lambda>(mq', _).
          thn (stepper_upd st (\<lambda>x. x\<lparr>st_mq := mq'\<rparr>))
          (thn (stepper_load_next st)
          (sched_add_timer (step_time st)))))))))))
    | _ \<Rightarrow> stuck)"

definition command_set_next_step_dir :: "u32 list \<Rightarrow> ('a stepper_s_scheme, unit) fw" where
  "command_set_next_step_dir args = (case args of
      [oid, dir] \<Rightarrow>
        bnd (stepper_oid_lookup (ucast oid)) (\<lambda>st.
        let nextdir = (if dir \<noteq> 0 then SF_NEXT_DIR else 0) in
        stepper_upd st (\<lambda>x. x\<lparr>st_flags := (st_flags x AND NOT SF_NEXT_DIR) OR nextdir\<rparr>))
    | _ \<Rightarrow> stuck)"

definition command_reset_step_clock :: "u32 list \<Rightarrow> ('a stepper_s_scheme, unit) fw" where
  "command_reset_step_clock args = (case args of
      [oid, waketime] \<Rightarrow>
        bnd (stepper_oid_lookup (ucast oid)) (\<lambda>st.
        bnd (gets (\<lambda>s. st_count (steppers s st))) (\<lambda>count.
        thn (shutdown_if (count \<noteq> 0) ''Can't reset time when stepper active'')
        (thn (stepper_upd st (\<lambda>x. x\<lparr>st_next_step_time := waketime\<rparr>))
        (thn (upd (set_wake (step_time st) waketime))
        (stepper_upd st (\<lambda>x. x\<lparr>st_flags := st_flags x AND NOT SF_NEED_RESET\<rparr>))))))
    | _ \<Rightarrow> stuck)"

definition stepper_get_position :: "nat \<Rightarrow> 'a stepper_s_scheme \<Rightarrow> u32" where
  "stepper_get_position st s =
    (let x = steppers s st;
         position = st_position x -
           (if single_sched st s then st_count x else st_count x div 2)
     in if position AND 0x80000000 \<noteq> 0 then - position else position)"

definition command_stepper_get_position :: "u32 list \<Rightarrow> ('a stepper_s_scheme, unit) fw" where
  "command_stepper_get_position args = (case args of
      [a0] \<Rightarrow>
        bnd (stepper_oid_lookup (ucast a0)) (\<lambda>st.
        bnd (gets (stepper_get_position st)) (\<lambda>position.
        sendf ''stepper_position oid=%c pos=%i''
          [A_int (ucast (ucast a0 :: u8)), A_int (position - POSITION_BIAS)]))
    | _ \<Rightarrow> stuck)"

text \<open>
  The loop of \<^verbatim>\<open>stepper_stop\<close> that returns the queued moves to the pool.  A queue holds at
  most the 1024 nodes of the pool.
\<close>

fun free_moves :: "nat \<Rightarrow> nat \<Rightarrow> ('a stepper_s_scheme, unit) fw" where
  "free_moves fuel st =
    bnd (gets (\<lambda>s. st_mq (steppers s st))) (\<lambda>mq.
    if move_queue_empty mq then ret ()
    else (case fuel of 0 \<Rightarrow> stuck
      | Suc fuel' \<Rightarrow>
          bnd (move_queue_pop mq) (\<lambda>(mq', mn).
          thn (stepper_upd st (\<lambda>x. x\<lparr>st_mq := mq'\<rparr>))
          (thn (move_free mn)
          (free_moves fuel' st)))))"

definition stepper_stop :: "nat \<Rightarrow> u8 \<Rightarrow> ('a stepper_s_scheme, unit) fw" where
  "stepper_stop st reason =
    thn (sched_del_timer (step_time st))
    (thn (stepper_upd st (\<lambda>x. x\<lparr>st_next_step_time := 0\<rparr>))
    (thn (upd (set_wake (step_time st) 0))
    (thn (upd (\<lambda>s. s\<lparr>steppers := (steppers s)(st := (steppers s st)
        \<lparr>st_position := - stepper_get_position st s\<rparr>)\<rparr>))
    (thn (stepper_upd st (\<lambda>x. x\<lparr>st_count := 0,
        st_flags := (st_flags x AND (SF_INVERT_STEP OR SF_SINGLE_SCHED)) OR SF_NEED_RESET\<rparr>))
    (bnd (gets (\<lambda>s. steppers s st)) (\<lambda>x.
    thn (gpio_out_write (st_dir_pin x) False)
    (bnd (gets (\<lambda>s. HAVE_EDGE_OPTIMIZATION s \<and> st_flags x AND SF_SINGLE_SCHED \<noteq> 0)) (\<lambda>keep.
    thn (if keep then ret ()
         else gpio_out_write (st_step_pin x) (st_flags x AND SF_INVERT_STEP \<noteq> 0))
    (free_moves 1024 st)))))))))"

text \<open>The signal callbacks of the firmware.\<close>

fun trsync_callback :: "trsync_cb \<Rightarrow> nat \<Rightarrow> u8 \<Rightarrow> ('a stepper_s_scheme, unit) fw" where
  "trsync_callback CB_stepper_stop st reason = stepper_stop st reason"

definition command_stepper_stop_on_trigger :: "u32 list \<Rightarrow> ('a stepper_s_scheme, unit) fw" where
  "command_stepper_stop_on_trigger args = (case args of
      [oid, trsync_oid] \<Rightarrow>
        bnd (stepper_oid_lookup (ucast oid)) (\<lambda>st.
        bnd (trsync_oid_lookup (ucast trsync_oid)) (\<lambda>ts.
        trsync_add_signal ts st CB_stepper_stop))
    | _ \<Rightarrow> stuck)"

definition stepper_shutdown :: "('a stepper_s_scheme, unit) fw" where
  "stepper_shutdown = foreach_oid ''stepper'' (\<lambda>st.
    thn (stepper_upd st (\<lambda>x. x\<lparr>st_mq := move_queue_clear (st_mq x)\<rparr>))
    (stepper_stop st 0))"

section \<open>Step timing\<close>

text \<open>The due time of the \<open>n\<close>-th step of a move, modulo \<open>2 ^ 32\<close>.\<close>

definition step_offset :: "u32 \<Rightarrow> u16 \<Rightarrow> nat \<Rightarrow> u32" where
  "step_offset interval add n = of_nat n * interval + of_nat (n * (n - 1) div 2) * scast add"

lemma triangle_Suc: "Suc n * (Suc n - 1) div 2 = n * (n - 1) div 2 + n"
  by (cases n) simp_all

lemma step_offset_Suc:
  "step_offset interval add (Suc n) =
    step_offset interval add n + (interval + of_nat n * scast add)"
  unfolding step_offset_def triangle_Suc by (simp add: algebra_simps)

lemmas cfg_defs = HAVE_SINGLE_SCHEDULE_def HAVE_EDGE_OPTIMIZATION_def HAVE_AVR_OPTIMIZATION_def

lemma edge_step:
  assumes "st_count (steppers s st) - 1 \<noteq> 0"
  shows "stepper_event_edge st s = (Inr SF_RESCHEDULE, s
    \<lparr>bd_outputs := (bd_outputs s)(st_step_pin (steppers s st) := \<not> bd_outputs s (st_step_pin (steppers s st))),
     tm_wake := (tm_wake s)(step_time st := tm_wake s (step_time st) + st_interval (steppers s st)),
     steppers := (steppers s)(st := (steppers s st)\<lparr>st_count := st_count (steppers s st) - 1,
       st_interval := st_interval (steppers s st) + scast (st_add (steppers s st))\<rparr>)\<rparr>)"
  using assms by (simp add: stepper_event_edge_def fw_unfold gpio_out_toggle_def)

lemma of_nat_less_count: "Suc n < unat (c :: u32) \<Longrightarrow> c - of_nat n - 1 \<noteq> 0"
proof
  assume a: "Suc n < unat c" "c - of_nat n - 1 = 0"
  have "unat (of_nat (Suc n) :: u32) = Suc n"
    using a(1) unat_lt32 [of c] by (intro unat_of_nat_small) simp
  moreover have "c = of_nat (Suc n)" using a(2) by (simp add: algebra_simps)
  ultimately show False using a(1) by simp
qed

lemma edge_steps:
  assumes "n < unat (st_count (steppers s st))"
  shows "\<exists>s'. iterate n (stepper_event_edge st) s = (Inr (), s') \<and>
    tm_wake s' (step_time st) = tm_wake s (step_time st) +
      step_offset (st_interval (steppers s st)) (st_add (steppers s st)) n \<and>
    steppers s' st = (steppers s st)\<lparr>st_count := st_count (steppers s st) - of_nat n,
      st_interval := st_interval (steppers s st) + of_nat n * scast (st_add (steppers s st))\<rparr> \<and>
    bd_outputs s' (st_step_pin (steppers s st)) = (bd_outputs s (st_step_pin (steppers s st)) \<noteq> odd n) \<and>
    single_sched st s' = single_sched st s"
  using assms
proof (induction n)
  case 0
  then show ?case by (simp add: ret_def step_offset_def)
next
  case (Suc n)
  then have "n < unat (st_count (steppers s st))" by simp
  from Suc.IH [OF this] obtain s' where s': "iterate n (stepper_event_edge st) s = (Inr (), s')"
    "tm_wake s' (step_time st) = tm_wake s (step_time st) +
      step_offset (st_interval (steppers s st)) (st_add (steppers s st)) n"
    "steppers s' st = (steppers s st)\<lparr>st_count := st_count (steppers s st) - of_nat n,
      st_interval := st_interval (steppers s st) + of_nat n * scast (st_add (steppers s st))\<rparr>"
    "bd_outputs s' (st_step_pin (steppers s st)) = (bd_outputs s (st_step_pin (steppers s st)) \<noteq> odd n)"
    "single_sched st s' = single_sched st s"
    by blast
  have nz: "st_count (steppers s' st) - 1 \<noteq> 0"
    using of_nat_less_count [OF Suc.prems] by (simp add: s'(3))
  show ?case
    using s' edge_step [OF nz]
    by (simp add: fw_unfold step_offset_Suc algebra_simps single_sched_def cfg_defs)
qed

text \<open>
  A step of the double scheduled variant is a pair of events.  Whatever the clock reads, the
  intended time of the next step does not drift.
\<close>

lemma full_unstep:
  assumes "even (st_count (steppers s st))"
  shows "\<exists>s'. stepper_event_full st s = (Inr SF_RESCHEDULE, s') \<and>
    steppers s' st = (steppers s st)\<lparr>st_count := st_count (steppers s st) - 1\<rparr> \<and>
    bd_outputs s' = (bd_outputs s)(st_step_pin (steppers s st) := \<not> bd_outputs s (st_step_pin (steppers s st)))"
  using assms
  by (simp add: stepper_event_full_def fw_unfold gpio_out_toggle_def timer_read_time_def
      reschedule_min_def and_one_eq mod2_eq_if)

lemma full_step:
  assumes "odd (st_count (steppers s st))" and "st_count (steppers s st) \<noteq> 1"
  shows "\<exists>s'. stepper_event_full st s = (Inr SF_RESCHEDULE, s') \<and>
    steppers s' st = (steppers s st)\<lparr>st_count := st_count (steppers s st) - 1,
      st_next_step_time := st_next_step_time (steppers s st) + st_interval (steppers s st),
      st_interval := st_interval (steppers s st) + scast (st_add (steppers s st))\<rparr> \<and>
    bd_outputs s' = (bd_outputs s)(st_step_pin (steppers s st) := \<not> bd_outputs s (st_step_pin (steppers s st)))"
proof -
  have "st_count (steppers s st) - 1 \<noteq> 0" using assms(2) by simp
  then show ?thesis
    using assms(1)
    by (simp add: stepper_event_full_def fw_unfold gpio_out_toggle_def timer_read_time_def
        reschedule_min_def and_one_eq mod2_eq_if)
qed

lemma even_double: "even (of_nat (2 * n) :: u32)"
  by simp

lemma full_steps:
  assumes "st_count (steppers s st) = of_nat (2 * c)" and "n < c" and "c < 2 ^ 16"
  shows "\<exists>s'. iterate (2 * n) (stepper_event_full st) s = (Inr (), s') \<and>
    steppers s' st = (steppers s st)\<lparr>st_count := of_nat (2 * (c - n)),
      st_next_step_time := st_next_step_time (steppers s st) +
        step_offset (st_interval (steppers s st)) (st_add (steppers s st)) n,
      st_interval := st_interval (steppers s st) + of_nat n * scast (st_add (steppers s st))\<rparr> \<and>
    bd_outputs s' (st_step_pin (steppers s st)) = bd_outputs s (st_step_pin (steppers s st))"
  using assms(2)
proof (induction n)
  case 0
  then show ?case using assms(1) by (simp add: ret_def step_offset_def)
next
  case (Suc n)
  then have "n < c" by simp
  from Suc.IH [OF this] obtain s' where s': "iterate (2 * n) (stepper_event_full st) s = (Inr (), s')"
    "steppers s' st = (steppers s st)\<lparr>st_count := of_nat (2 * (c - n)),
      st_next_step_time := st_next_step_time (steppers s st) +
        step_offset (st_interval (steppers s st)) (st_add (steppers s st)) n,
      st_interval := st_interval (steppers s st) + of_nat n * scast (st_add (steppers s st))\<rparr>"
    "bd_outputs s' (st_step_pin (steppers s st)) = bd_outputs s (st_step_pin (steppers s st))"
    by blast
  have "even (st_count (steppers s' st))" by (simp add: s'(2))
  from full_unstep [OF this] obtain s1 where s1: "stepper_event_full st s' = (Inr SF_RESCHEDULE, s1)"
    "steppers s1 st = (steppers s' st)\<lparr>st_count := st_count (steppers s' st) - 1\<rparr>"
    "bd_outputs s1 = (bd_outputs s')(st_step_pin (steppers s' st) := \<not> bd_outputs s' (st_step_pin (steppers s' st)))"
    by blast
  obtain d where d: "c - n = Suc (Suc d)" using Suc.prems by (metis Suc_diff_Suc Suc_lessD)
  have "unat (of_nat (2 * Suc (Suc d)) :: u32) = 2 * Suc (Suc d)"
    using d assms(3) by (intro unat_of_nat_small) simp
  then have "of_nat (2 * Suc (Suc d)) \<noteq> (2 :: u32)"
  proof -
    assume u: "unat (of_nat (2 * Suc (Suc d)) :: u32) = 2 * Suc (Suc d)"
    show ?thesis
    proof
      assume "of_nat (2 * Suc (Suc d)) = (2 :: u32)"
      with u have "unat (2 :: u32) = 2 * Suc (Suc d)" by (simp only:)
      then show False by simp
    qed
  qed
  then have "of_nat (2 * Suc (Suc d)) - 1 \<noteq> (1 :: u32)" by (simp add: diff_eq_eq)
  then have "odd (st_count (steppers s1 st))" "st_count (steppers s1 st) \<noteq> 1"
    using d by (simp_all add: s1(2) s'(2))
  from full_step [OF this] obtain s2 where s2: "stepper_event_full st s1 = (Inr SF_RESCHEDULE, s2)"
    "steppers s2 st = (steppers s1 st)\<lparr>st_count := st_count (steppers s1 st) - 1,
      st_next_step_time := st_next_step_time (steppers s1 st) + st_interval (steppers s1 st),
      st_interval := st_interval (steppers s1 st) + scast (st_add (steppers s1 st))\<rparr>"
    "bd_outputs s2 = (bd_outputs s1)(st_step_pin (steppers s1 st) := \<not> bd_outputs s1 (st_step_pin (steppers s1 st)))"
    by blast
  have cd: "c - Suc n = Suc d" using d by simp
  show ?case
    using s' s1 s2 d cd by (simp add: fw_unfold step_offset_Suc algebra_simps)
qed

section \<open>Position tracking\<close>

text \<open>
  The position counter is negated while the motor runs backwards; \<open>real_pos\<close> undoes that.
\<close>

definition real_pos :: "u32 \<Rightarrow> u32" where
  "real_pos p = (if p AND 0x80000000 \<noteq> 0 then - p else p)"

lemma top_bit: "(p :: u32) AND 0x80000000 \<noteq> 0 \<longleftrightarrow> 2 ^ 31 \<le> unat p"
proof -
  have "bit (0x80000000 :: int) n \<longleftrightarrow> n = 31" for n
  proof -
    have "(0x80000000 :: int) = 2 ^ 31" by simp
    then show ?thesis by (simp only: bit_exp_iff) auto
  qed
  then have "p AND 0x80000000 = 0 \<longleftrightarrow> \<not> bit p 31"
    by (auto simp: word_eq_bits word_bits dest: spec [of _ 31])
  also have "bit p 31 \<longleftrightarrow> sint p < 0" using bit_last_iff [of p] by simp
  finally show ?thesis by (simp add: sint_neg_unat)
qed

lemma real_pos_forward: "unat q + n < 2 ^ 31 \<Longrightarrow> unat (real_pos (q + of_nat n)) = unat q + n"
proof -
  assume a: "unat q + n < 2 ^ 31"
  have "unat (of_nat n :: u32) = n" using a by (intro unat_of_nat_small) simp
  then have "unat (q + of_nat n) = unat q + n" using a by (simp add: unat_word_ariths)
  moreover from this have "(q + of_nat n) AND 0x80000000 = 0"
    using a top_bit [of "q + of_nat n"] by simp
  ultimately show ?thesis by (simp add: real_pos_def)
qed

lemma unat_neg: "x \<noteq> 0 \<Longrightarrow> unat (- x :: u32) = 2 ^ 32 - unat x"
proof -
  assume "x \<noteq> 0"
  then have "\<not> unat x \<le> unat (0 :: u32)" by (simp add: unat_eq_0)
  then show ?thesis using unat_sub_if' [of 0 x] by simp
qed

lemma real_pos_backward:
  "n < unat r \<Longrightarrow> unat r \<le> 2 ^ 31 \<Longrightarrow> unat (real_pos (- r + of_nat n)) = unat r - n"
proof -
  assume a: "n < unat r" "unat r \<le> 2 ^ 31"
  have n: "unat (of_nat n :: u32) = n" using a by (intro unat_of_nat_small) simp
  define x where "x = r - of_nat n"
  have d: "unat x = unat r - n"
    unfolding x_def using a n by (simp add: unat_sub word_le_nat_alt)
  have m: "- r + of_nat n = - x" by (simp add: x_def)
  have "x \<noteq> 0" using d a by auto
  then have "2 ^ 31 \<le> unat (- x)" using d a(2) by (simp add: unat_neg)
  then have "(- x) AND 0x80000000 \<noteq> 0" using top_bit [of "- x"] by blast
  then show ?thesis unfolding m real_pos_def by (simp add: d)
qed

definition untaken :: "nat \<Rightarrow> 'a stepper_s_scheme \<Rightarrow> u32" where
  "untaken st s = (if single_sched st s then st_count (steppers s st) else st_count (steppers s st) div 2)"

lemma get_position_real:
  "stepper_get_position st s = real_pos (st_position (steppers s st) - untaken st s)"
  by (simp add: stepper_get_position_def real_pos_def untaken_def Let_def)

lemma real_pos_neg: "unat p \<noteq> 0 \<Longrightarrow> unat p \<noteq> 2 ^ 31 \<Longrightarrow> real_pos (- p) = real_pos p"
proof -
  assume a: "unat p \<noteq> 0" "unat p \<noteq> 2 ^ 31"
  then have "p \<noteq> 0" by auto
  then have "unat (- p) = 2 ^ 32 - unat p" by (rule unat_neg)
  then show ?thesis
    using a unat_lt32 [of p] top_bit [of p] top_bit [of "- p"] by (auto simp: real_pos_def)
qed

section \<open>Loading a move\<close>

text \<open>The effect of taking a move from the queue, on every field that it changes.\<close>

definition loaded ::
  "bool \<Rightarrow> move_queue_head \<Rightarrow> u32 \<Rightarrow> u16 \<Rightarrow> u16 \<Rightarrow> u8 \<Rightarrow> stepper \<Rightarrow> stepper" where
  "loaded single mq' iv ad c fl x =
    (let x1 = x\<lparr>st_mq := mq', st_add := ad, st_interval := iv + scast ad\<rparr>;
         x2 = (if single then x1\<lparr>st_count := ucast c\<rparr>
               else x1\<lparr>st_next_step_time := st_next_step_time x + iv, st_count := ucast c * 2\<rparr>)
     in x2\<lparr>st_position := (if fl AND MF_DIR \<noteq> 0 then - st_position x else st_position x) + ucast c\<rparr>)"

lemma cfg_frame [simp]:
  "HAVE_EDGE_OPTIMIZATION (s\<lparr>steppers := g\<rparr>) = HAVE_EDGE_OPTIMIZATION s"
  "HAVE_AVR_OPTIMIZATION (s\<lparr>steppers := g\<rparr>) = HAVE_AVR_OPTIMIZATION s"
  "HAVE_SINGLE_SCHEDULE (s\<lparr>steppers := g\<rparr>) = HAVE_SINGLE_SCHEDULE s"
  "HAVE_EDGE_OPTIMIZATION (s\<lparr>tm_wake := w\<rparr>) = HAVE_EDGE_OPTIMIZATION s"
  "HAVE_AVR_OPTIMIZATION (s\<lparr>tm_wake := w\<rparr>) = HAVE_AVR_OPTIMIZATION s"
  "HAVE_SINGLE_SCHEDULE (s\<lparr>tm_wake := w\<rparr>) = HAVE_SINGLE_SCHEDULE s"
  by (simp_all add: HAVE_EDGE_OPTIMIZATION_def HAVE_AVR_OPTIMIZATION_def HAVE_SINGLE_SCHEDULE_def)

lemma load_next_run:
  assumes q: "mq_rep s (st_mq (steppers s st)) (m # ns)" and d: "mv_data s m = MD_stepper iv ad c fl"
    and avr: "\<not> HAVE_AVR_OPTIMIZATION s"
  shows "\<exists>s' mq'. stepper_load_next st s = (Inr SF_RESCHEDULE, s') \<and>
    steppers s' = (steppers s)(st := loaded (single_sched st s) mq' iv ad c fl (steppers s st)) \<and>
    mq_rep s mq' ns \<and> mv_next s' = (mv_next s)(m := move_free_list s) \<and> move_free_list s' = Some m \<and>
    tm_wake s' = (tm_wake s)(step_time st := if single_sched st s then tm_wake s (step_time st) + iv
      else st_next_step_time (steppers s st) + iv) \<and>
    tm_next s' = tm_next s \<and> timer_list s' = timer_list s \<and> last_insert s' = last_insert s \<and>
    cfg_inline_hack s' = cfg_inline_hack s \<and> cfg_both_edge s' = cfg_both_edge s \<and>
    cfg_mach_avr s' = cfg_mach_avr s"
proof -
  obtain mq' where p: "move_queue_pop (st_mq (steppers s st)) s = (Inr (mq', m), s)" "mq_rep s mq' ns"
    using mq_pop_rep [OF q] by blast
  have ne: "\<not> move_queue_empty (st_mq (steppers s st))" using mq.empty_rep [OF q] by simp
  show ?thesis
    using p ne d avr
    by (cases "HAVE_SINGLE_SCHEDULE s \<and> st_flags (steppers s st) AND SF_SINGLE_SCHED \<noteq> 0";
        cases "fl AND MF_DIR \<noteq> 0")
      (auto simp: stepper_load_next_def fw_unfold single_sched_def gpio_out_toggle_def move_free_def
          loaded_def)
qed

lemma load_keeps_position:
  assumes q: "mq_rep s (st_mq (steppers s st)) (m # ns)" and d: "mv_data s m = MD_stepper iv ad c fl"
    and avr: "\<not> HAVE_AVR_OPTIMIZATION s" and idle: "st_count (steppers s st) = 0"
    and p: "unat (st_position (steppers s st)) \<notin> {0, 2 ^ 31}"
    and e: "stepper_load_next st s = (r, s')"
  shows "stepper_get_position st s' = stepper_get_position st s \<and> untaken st s' = ucast c"
proof -
  obtain s1 mq' where s1: "stepper_load_next st s = (Inr SF_RESCHEDULE, s1)"
    "steppers s1 = (steppers s)(st := loaded (single_sched st s) mq' iv ad c fl (steppers s st))"
    "cfg_inline_hack s1 = cfg_inline_hack s" "cfg_both_edge s1 = cfg_both_edge s"
    "cfg_mach_avr s1 = cfg_mach_avr s"
    using load_next_run [OF q d avr] by auto
  have s': "s1 = s'" using s1(1) e by simp
  have ss: "single_sched st s' = single_sched st s"
    using s1 unfolding s' by (simp add: single_sched_def cfg_defs loaded_def Let_def)
  have "unat c < 65536" using unsigned_less [of c] by simp
  then have "unat (ucast c * 2 :: u32) = 2 * unat c"
    by (simp add: unat_word_ariths unat_ucast_up)
  then have "(ucast c * 2 :: u32) div 2 = ucast c"
    by (simp add: word_unat_eq_iff unat_div_distrib unat_ucast_up)
  then have u: "untaken st s' = ucast c"
    using s1(2) unfolding s' untaken_def ss by (simp add: loaded_def Let_def)
  have u0: "untaken st s = 0" using idle by (simp add: untaken_def)
  have "st_position (steppers s' st) - ucast c =
      (if fl AND MF_DIR \<noteq> 0 then - st_position (steppers s st) else st_position (steppers s st))"
    using s1(2) unfolding s' by (simp add: loaded_def Let_def)
  then show ?thesis
    using u u0 p real_pos_neg [of "st_position (steppers s st)"] by (simp add: get_position_real)
qed

lemma edge_position:
  assumes sg: "single_sched st s" and n: "n < unat (st_count (steppers s st))"
    and q: "q = st_position (steppers s st) - st_count (steppers s st)"
    and room: "if q AND 0x80000000 = 0 then unat q + n < 2 ^ 31 else n < unat (- q)"
  shows "\<exists>s'. iterate n (stepper_event_edge st) s = (Inr (), s') \<and>
    unat (stepper_get_position st s') = (if q AND 0x80000000 = 0
      then unat (stepper_get_position st s) + n else unat (stepper_get_position st s) - n)"
proof -
  obtain s' where s': "iterate n (stepper_event_edge st) s = (Inr (), s')"
    "steppers s' st = (steppers s st)\<lparr>st_count := st_count (steppers s st) - of_nat n,
      st_interval := st_interval (steppers s st) + of_nat n * scast (st_add (steppers s st))\<rparr>"
    "single_sched st s' = single_sched st s"
    using edge_steps [OF n] by blast
  have g: "stepper_get_position st s = real_pos q" using sg by (simp add: get_position_real untaken_def q)
  have g': "stepper_get_position st s' = real_pos (q + of_nat n)"
    using sg s' by (simp add: get_position_real untaken_def q algebra_simps)
  show ?thesis
  proof (cases "q AND 0x80000000 = 0")
    case True
    then have "unat (real_pos (q + of_nat n)) = unat q + n" using room by (intro real_pos_forward) simp
    then show ?thesis using s'(1) g g' True by (simp add: real_pos_def)
  next
    case False
    then have "2 ^ 31 \<le> unat q" using top_bit [of q] by simp
    moreover from this have "q \<noteq> 0" by auto
    ultimately have "unat (- q) \<le> 2 ^ 31" by (simp add: unat_neg)
    then have "unat (real_pos (- (- q) + of_nat n)) = unat (- q) - n"
      using False room by (intro real_pos_backward) simp_all
    then show ?thesis using s'(1) g g' False by (simp add: real_pos_def)
  qed
qed

section \<open>Stopping\<close>

declare free_moves.simps [simp del]

lemma free_moves_run:
  assumes "mq_rep s (st_mq (steppers s st)) ns" and "free_rep s fs" and "distinct (ns @ fs)"
    and "length ns \<le> fuel"
  shows "\<exists>mq' nx fl. free_moves fuel st s = (Inr (), s\<lparr>steppers := (steppers s)(st := (steppers s st)\<lparr>st_mq := mq'\<rparr>),
      mv_next := nx, move_free_list := fl\<rparr>) \<and>
    free_rep (s\<lparr>mv_next := nx, move_free_list := fl\<rparr>) (rev ns @ fs) \<and> move_queue_empty mq' \<and>
    (\<forall>x. x \<notin> set ns \<longrightarrow> nx x = mv_next s x)"
  using assms
proof (induction ns arbitrary: s fs fuel)
  case Nil
  then have "move_queue_empty (st_mq (steppers s st))" using mq.empty_rep by blast
  then show ?case using Nil
    by (intro exI [of _ "st_mq (steppers s st)"] exI [of _ "mv_next s"] exI [of _ "move_free_list s"])
      (simp add: free_moves.simps fw_unfold)
next
  case (Cons m ns)
  obtain f where f: "fuel = Suc f" using Cons.prems(4) by (cases fuel) auto
  obtain mq1 where p: "move_queue_pop (st_mq (steppers s st)) s = (Inr (mq1, m), s)" "mq_rep s mq1 ns"
    using mq_pop_rep [OF Cons.prems(1)] by blast
  have ne: "\<not> move_queue_empty (st_mq (steppers s st))" using mq.empty_rep [OF Cons.prems(1)] by simp
  define s1 where "s1 = s\<lparr>steppers := (steppers s)(st := (steppers s st)\<lparr>st_mq := mq1\<rparr>),
    mv_next := (mv_next s)(m := move_free_list s), move_free_list := Some m\<rparr>"
  have e: "free_moves fuel st s = free_moves f st s1"
    using ne p(1) unfolding f
    by (simp add: free_moves.simps [of "Suc f"] fw_unfold move_free_def s1_def)
  have m: "m \<notin> set ns" using Cons.prems(3) by simp
  have q1: "mq_rep s1 (st_mq (steppers s1 st)) ns"
  proof -
    have "mv_next s1 x = mv_next s x" if "x \<in> set ns" for x using that m by (auto simp: s1_def)
    then have "mq_rep s1 mq1 ns" using mq_rep_cong [of ns s1 s] p(2) by blast
    then show ?thesis by (simp add: s1_def)
  qed
  have f1: "free_rep s1 (m # fs)"
    using Cons.prems(2,3) by (cases fs) (auto simp: free_rep_def s1_def)
  have d1: "distinct (ns @ m # fs)" "length ns \<le> f" using Cons.prems(3,4) f by auto
  obtain mq' nx fl where ih: "free_moves f st s1 = (Inr (), s1\<lparr>steppers :=
      (steppers s1)(st := (steppers s1 st)\<lparr>st_mq := mq'\<rparr>), mv_next := nx, move_free_list := fl\<rparr>)"
    "free_rep (s1\<lparr>mv_next := nx, move_free_list := fl\<rparr>) (rev ns @ m # fs)" "move_queue_empty mq'"
    "\<forall>x. x \<notin> set ns \<longrightarrow> nx x = mv_next s1 x"
    using Cons.IH [OF q1 f1 d1] by blast
  have "free_moves fuel st s = (Inr (), s\<lparr>steppers := (steppers s)(st := (steppers s st)\<lparr>st_mq := mq'\<rparr>),
      mv_next := nx, move_free_list := fl\<rparr>)"
    unfolding e ih(1) by (simp add: s1_def)
  moreover have "free_rep (s\<lparr>mv_next := nx, move_free_list := fl\<rparr>) (rev (m # ns) @ fs)"
    using ih(2) by (simp add: free_rep_def)
  moreover have "\<forall>x. x \<notin> set (m # ns) \<longrightarrow> nx x = mv_next s x" using ih(4) by (simp add: s1_def)
  ultimately show ?case using ih(3) by blast
qed


text \<open>
  The effect of a stop: the timer is not pending, the reported position is kept, the stepper
  waits for a new clock, and all its queued moves are back in the pool.
\<close>

lemma stepper_stop_run:
  assumes tm: "timers b ts s" and q: "mq_rep s (st_mq (steppers s st)) ns" and fr: "free_rep s fs"
    and d: "distinct (ns @ fs)" "length ns \<le> 1024"
  shows "\<exists>s' ts'. stepper_stop st r s = (Inr (), s') \<and> timers b ts' s' \<and>
    pending ts' = remove1 (step_time st) (pending ts) \<and> free_rep s' (rev ns @ fs) \<and>
    st_position (steppers s' st) = - stepper_get_position st s \<and> st_count (steppers s' st) = 0 \<and>
    move_queue_empty (st_mq (steppers s' st)) \<and>
    st_flags (steppers s' st) = (st_flags (steppers s st) AND (SF_INVERT_STEP OR SF_SINGLE_SCHED)) OR SF_NEED_RESET \<and>
    (\<forall>i. i \<noteq> st \<longrightarrow> steppers s' i = steppers s i) \<and>
    (\<forall>x. x \<notin> set ns \<longrightarrow> mv_next s' x = mv_next s x) \<and>
    (timer_list s \<noteq> step_time st \<longrightarrow> timer_list s' = timer_list s) \<and>
    trsyncs s' = trsyncs s \<and> sig_next s' = sig_next s \<and> sig_func s' = sig_func s"
proof -
  obtain s1 ts1 where s1: "sched_del_timer (step_time st) s = (Inr (), s1)" "timers b ts1 s1"
    "pending ts1 = remove1 (step_time st) (pending ts)"
    using del_timer_ok [OF tm, of "step_time st"] by auto
  have h1: "timer_list s \<noteq> step_time st \<Longrightarrow> timer_list s1 = timer_list s"
    using del_timer_head [of s "step_time st"] s1(1) by simp
  have fr1: "detimer s1 = detimer s" using del_timer_frame [of "step_time st" s] s1(1) by simp
  have f1: "steppers s1 = steppers s" "mv_next s1 = mv_next s" "move_free_list s1 = move_free_list s"
    "trsyncs s1 = trsyncs s" "sig_next s1 = sig_next s" "sig_func s1 = sig_func s"
    "cfg_inline_hack s1 = cfg_inline_hack s" "cfg_both_edge s1 = cfg_both_edge s"
    "cfg_mach_avr s1 = cfg_mach_avr s"
    using arg_cong [OF fr1, of steppers] arg_cong [OF fr1, of mv_next] arg_cong [OF fr1, of move_free_list]
      arg_cong [OF fr1, of trsyncs] arg_cong [OF fr1, of sig_next] arg_cong [OF fr1, of sig_func]
      arg_cong [OF fr1, of cfg_inline_hack] arg_cong [OF fr1, of cfg_both_edge] arg_cong [OF fr1, of cfg_mach_avr]
    by (simp_all add: detimer_def)
  have nin: "step_time st \<notin> set ts1"
  proof -
    have "distinct (pending ts)" using tm by (auto simp: timers_def queue_ok_def pending_def)
    then have "step_time st \<notin> set (pending ts1)" using s1(3) by simp
    then show ?thesis by (simp add: pending_def)
  qed
  define x where "x = (steppers s st)\<lparr>st_next_step_time := 0, st_position := - stepper_get_position st s,
    st_count := 0, st_flags := (st_flags (steppers s st) AND (SF_INVERT_STEP OR SF_SINGLE_SCHED)) OR SF_NEED_RESET\<rparr>"
  define outs where "outs = (let out1 = (bd_outputs s1)(st_dir_pin x := False) in
    if HAVE_EDGE_OPTIMIZATION s \<and> st_flags x AND SF_SINGLE_SCHED \<noteq> 0 then out1
    else out1(st_step_pin x := (st_flags x AND SF_INVERT_STEP \<noteq> 0)))"
  define s2 where "s2 = s1\<lparr>tm_wake := (tm_wake s1)(step_time st := 0), steppers := (steppers s1)(st := x),
    bd_outputs := outs\<rparr>"
  have gp: "stepper_get_position st (s1\<lparr>steppers := (steppers s)(st := (steppers s st)\<lparr>st_next_step_time := 0\<rparr>),
      tm_wake := w\<rparr>) = stepper_get_position st s" for w
  proof -
    have "single_sched st (s1\<lparr>steppers := (steppers s)(st := (steppers s st)\<lparr>st_next_step_time := 0\<rparr>),
      tm_wake := w\<rparr>) = single_sched st s"
      using f1 by (simp add: single_sched_def cfg_defs)
    then show ?thesis by (simp add: stepper_get_position_def Let_def)
  qed
  have e: "stepper_stop st r s = free_moves 1024 st s2"
    using s1(1) f1 gp
    by (simp add: stepper_stop_def fw_unfold gpio_out_write_def s2_def x_def outs_def Let_def cfg_defs)
  have q2: "mq_rep s2 (st_mq (steppers s2 st)) ns"
    using q f1 by (simp add: s2_def x_def mq_rep_def)
  have fr2: "free_rep s2 fs" using fr f1 by (simp add: s2_def free_rep_def)
  obtain mq' nx fl where fm: "free_moves 1024 st s2 = (Inr (), s2\<lparr>steppers :=
      (steppers s2)(st := (steppers s2 st)\<lparr>st_mq := mq'\<rparr>), mv_next := nx, move_free_list := fl\<rparr>)"
    "free_rep (s2\<lparr>mv_next := nx, move_free_list := fl\<rparr>) (rev ns @ fs)" "move_queue_empty mq'"
    "\<forall>x. x \<notin> set ns \<longrightarrow> nx x = mv_next s2 x"
    using free_moves_run [OF q2 fr2 d] by blast
  define s3 where "s3 = s2\<lparr>steppers := (steppers s2)(st := (steppers s2 st)\<lparr>st_mq := mq'\<rparr>),
    mv_next := nx, move_free_list := fl\<rparr>"
  have "timers b ts1 s3"
    using s1(2) nin by (subst timers_cong [of s3 s1]) (auto simp: s3_def s2_def)
  moreover have "free_rep s3 (rev ns @ fs)" using fm(2) by (simp add: s3_def free_rep_def cong: if_cong)
  moreover have "stepper_stop st r s = (Inr (), s3)" unfolding e fm(1) s3_def ..
  ultimately show ?thesis
    using s1(3) fm(3,4) f1 h1
    by (intro exI [of _ s3] exI [of _ ts1]) (simp add: s3_def s2_def x_def)
qed

section \<open>Stopping on a trigger\<close>

text \<open>
  The state in which triggers may fire: the timer list is well formed, with the timer \<open>h\<close> at its
  head when a timer is being dispatched, and the move nodes are shared out among the free list and
  the queues of the steppers.
\<close>

definition shared_out :: "nat list \<Rightarrow> (nat \<Rightarrow> nat list) \<Rightarrow> 'a stepper_s_scheme \<Rightarrow> bool" where
  "shared_out fs qs s \<longleftrightarrow> free_rep s fs \<and>
    (\<forall>st. mq_rep s (st_mq (steppers s st)) (qs st) \<and> distinct (qs st @ fs) \<and> length (qs st) \<le> 1024) \<and>
    (\<forall>st st'. st \<noteq> st' \<longrightarrow> set (qs st) \<inter> set (qs st') = {})"

definition stop_inv :: "u32 \<Rightarrow> timer_id option \<Rightarrow> 'a stepper_s_scheme \<Rightarrow> bool" where
  "stop_inv b h s \<longleftrightarrow> (\<exists>ts. timers b ts s) \<and> (h = None \<or> h = Some (timer_list s)) \<and>
    (\<exists>fs qs. shared_out fs qs s)"

definition stopped :: "u32 \<Rightarrow> nat \<Rightarrow> 'a stepper_s_scheme \<Rightarrow> bool" where
  "stopped b st s \<longleftrightarrow> st_count (steppers s st) = 0 \<and> move_queue_empty (st_mq (steppers s st)) \<and>
    st_flags (steppers s st) AND SF_NEED_RESET \<noteq> 0 \<and> (\<forall>ts. timers b ts s \<longrightarrow> step_time st \<notin> set ts)"

lemma timers_unique: "timers b ts s \<Longrightarrow> timers b ts' s \<Longrightarrow> ts = ts'"
  by (rule chain_unique [of "tm_next s"]) (simp_all add: timers_def queue_ok_def)

lemma stop_frames [simp]:
  "timers b ts (s\<lparr>trsyncs := t\<rparr>) = timers b ts s" "timers b ts (s\<lparr>sig_next := n\<rparr>) = timers b ts s"
  "timers b ts (s\<lparr>sig_func := g\<rparr>) = timers b ts s"
  "timers b ts (s\<lparr>tasks_status := v, task_wakes := w\<rparr>) = timers b ts s"
  "shared_out fs qs (s\<lparr>trsyncs := t\<rparr>) = shared_out fs qs s"
  "shared_out fs qs (s\<lparr>sig_next := n\<rparr>) = shared_out fs qs s"
  "shared_out fs qs (s\<lparr>sig_func := g\<rparr>) = shared_out fs qs s"
  "shared_out fs qs (s\<lparr>tasks_status := v, task_wakes := w\<rparr>) = shared_out fs qs s"
  by (rule timers_cong; simp)+ (simp_all add: shared_out_def free_rep_def mq_rep_def cong: if_cong)

lemma need_reset: "(f OR SF_NEED_RESET) AND SF_NEED_RESET \<noteq> 0"
  by (simp add: SF_NEED_RESET_def bit_eq_iff bit_simps) (auto intro: exI [of _ 3])

lemma pending_set: "timers b ts s \<Longrightarrow> T_obj i k \<in> set ts \<longleftrightarrow> T_obj i k \<in> set (pending ts)"
  by (auto simp: pending_def)

lemma stepper_stop_shared:
  assumes so: "shared_out fs qs s" and tm: "timers b ts s"
  shows "\<exists>s' ts'. stepper_stop st r s = (Inr (), s') \<and> timers b ts' s' \<and>
    pending ts' = remove1 (step_time st) (pending ts) \<and> 
    shared_out (rev (qs st) @ fs) (qs(st := [])) s' \<and> stopped b st s' \<and>
    (\<forall>i. stopped b i s \<longrightarrow> stopped b i s') \<and>
    (timer_list s \<noteq> step_time st \<longrightarrow> timer_list s' = timer_list s) \<and>
    trsyncs s' = trsyncs s \<and> sig_next s' = sig_next s \<and> sig_func s' = sig_func s"
proof -
  have q: "mq_rep s (st_mq (steppers s st)) (qs st)" "free_rep s fs" "distinct (qs st @ fs)" "length (qs st) \<le> 1024"
    using so by (auto simp: shared_out_def)
  obtain s' ts' where s': "stepper_stop st r s = (Inr (), s')" "timers b ts' s'"
    "pending ts' = remove1 (step_time st) (pending ts)" "free_rep s' (rev (qs st) @ fs)"
    "st_count (steppers s' st) = 0" "move_queue_empty (st_mq (steppers s' st))"
    "st_flags (steppers s' st) = (st_flags (steppers s st) AND (SF_INVERT_STEP OR SF_SINGLE_SCHED)) OR SF_NEED_RESET"
    "\<forall>i. i \<noteq> st \<longrightarrow> steppers s' i = steppers s i" "\<forall>x. x \<notin> set (qs st) \<longrightarrow> mv_next s' x = mv_next s x"
    "timer_list s \<noteq> step_time st \<longrightarrow> timer_list s' = timer_list s"
    "trsyncs s' = trsyncs s" "sig_next s' = sig_next s" "sig_func s' = sig_func s"
    using stepper_stop_run [OF tm q, of r] by (elim exE conjE) (rule that; assumption)
  have dp: "distinct (pending ts)" using tm by (auto simp: timers_def queue_ok_def pending_def)
  have "step_time st \<notin> set ts'" using dp s'(3) pending_set [OF s'(2)] by simp
  then have e: "stopped b st s'"
    using s'(5,6) need_reset timers_unique [OF s'(2)] unfolding stopped_def s'(7) by metis
  have k: "stopped b i s'" if "stopped b i s" for i
  proof (cases "i = st")
    case False
    have "step_time i \<notin> set ts" using that tm by (auto simp: stopped_def)
    then have "step_time i \<notin> set ts'"
      using s'(3) pending_set [OF tm] pending_set [OF s'(2)] by (metis notin_set_remove1)
    then have "\<forall>us. timers b us s' \<longrightarrow> step_time i \<notin> set us" using timers_unique [OF s'(2)] by blast
    then show ?thesis using that False s'(8) by (simp add: stopped_def)
  qed (simp add: e)
  have m: "mq_rep s' (st_mq (steppers s' i)) ((qs(st := [])) i)" for i
  proof (cases "i = st")
    case True
    then show ?thesis using s'(6) by (simp add: mq_rep_def move_queue_empty_def)
  next
    case False
    have "set (qs i) \<inter> set (qs st) = {}" using so False by (auto simp: shared_out_def)
    then have "\<And>x. x \<in> set (qs i) \<Longrightarrow> mv_next s' x = mv_next s x" using s'(9) by auto
    then show ?thesis using mq_rep_cong [of "qs i" s' s] so False s'(8) by (auto simp: shared_out_def)
  qed
  have dj: "set (qs i) \<inter> set (qs j) = {}" if "i \<noteq> j" for i j
    using so that by (simp add: shared_out_def)
  have "distinct ((qs(st := [])) i @ rev (qs st) @ fs)" "length ((qs(st := [])) i) \<le> 1024" for i
    using so dj [of i st] q(3) by (cases "i = st"; simp add: shared_out_def; blast)+
  moreover have "set ((qs(st := [])) i) \<inter> set ((qs(st := [])) j) = {}" if "i \<noteq> j" for i j
    using dj [OF that] by simp
  ultimately have "shared_out (rev (qs st) @ fs) (qs(st := [])) s'"
    using s'(4) m unfolding shared_out_def by blast
  then show ?thesis using s' e k by (intro exI [of _ s'] exI [of _ ts']) simp
qed

interpretation stop: trsync_signals trsync_callback "stop_inv b h" "\<lambda>st. h \<noteq> Some (step_time st)" "stopped b"
  for b h
proof unfold_locales
  fix s x f r assume a: "stop_inv b h s" "h \<noteq> Some (step_time x)"
  obtain ts fs qs where t: "timers b ts s" "shared_out fs qs s" "h = None \<or> h = Some (timer_list s)"
    using a(1) by (auto simp: stop_inv_def)
  have f: "trsync_callback f x r = stepper_stop x r" by (cases f) simp
  obtain s' ts' where s': "stepper_stop x r s = (Inr (), s')" "timers b ts' s'"
    "shared_out (rev (qs x) @ fs) (qs(x := [])) s'" "stopped b x s'" "\<forall>i. stopped b i s \<longrightarrow> stopped b i s'"
    "timer_list s \<noteq> step_time x \<longrightarrow> timer_list s' = timer_list s"
    "trsyncs s' = trsyncs s" "sig_next s' = sig_next s" "sig_func s' = sig_func s"
    using stepper_stop_shared [OF t(2,1), of x r] by blast
  have "stop_inv b h s'" using s'(2,3,6) t(3) a(2) unfolding stop_inv_def by auto
  then show "\<exists>s'. trsync_callback f x r s = (Inr (), s') \<and> stop_inv b h s' \<and> stopped b x s' \<and>
      (\<forall>y. stopped b y s \<longrightarrow> stopped b y s') \<and> trsyncs s' = trsyncs s \<and> sig_next s' = sig_next s \<and>
      sig_func s' = sig_func s"
    unfolding f using s' by blast
qed (simp_all add: stop_inv_def stopped_def)

section \<open>Properties\<close>

text \<open>A machine with two moves in the queue of its stepper \<open>x\<close>, built with or without edge stepping.\<close>

definition queued_stepper_s :: "bool \<Rightarrow> u8 \<Rightarrow> stepper_s" where
  "queued_stepper_s edge flags = trsync_s.extend (idle_trsync_s
      \<lparr>mv_next := (\<lambda>_. None)(8 := Some 24),
       mv_data := (\<lambda>_. MD_none)(8 := MD_stepper 1000 10 5 MF_DIR, 24 := MD_stepper 800 (- 10) 4 0)\<rparr>)
    \<lparr>steppers = (\<lambda>_. zero_stepper)(2 := zero_stepper\<lparr>st_step_pin := 3, st_dir_pin := 4,
       st_position := - POSITION_BIAS, st_mq := \<lparr>mq_first = Some 8, mq_last = Some 24\<rparr>, st_flags := flags\<rparr>),
     cfg_inline_hack = edge, cfg_both_edge = edge, cfg_mach_avr = False\<rparr>"

lemmas queued_defs = queued_stepper_s_def idle_trsync_s_def idle_defs basecmd_s.defs trsync_s.defs
  zero_stepper_def POSITION_BIAS_def

lemma queued_stepper:
  "mq_rep (queued_stepper_s e f) (st_mq (steppers (queued_stepper_s e f) 2)) [8, 24]"
  "mv_data (queued_stepper_s e f) 8 = MD_stepper 1000 10 5 MF_DIR"
  "st_count (steppers (queued_stepper_s e f) 2) = 0"
  "st_position (steppers (queued_stepper_s e f) 2) = 0xC0000000"
  "st_next_step_time (steppers (queued_stepper_s e f) 2) = 0"
  "st_flags (steppers (queued_stepper_s e f) 2) = f"
  "HAVE_EDGE_OPTIMIZATION (queued_stepper_s e f) = e" "\<not> HAVE_AVR_OPTIMIZATION (queued_stepper_s e f)"
  "tm_wake (queued_stepper_s e f) (step_time 2) = 0"
  by (simp_all add: queued_defs mq_rep_def cfg_defs)

lemma queued_single:
  "single_sched 2 (queued_stepper_s True SF_SINGLE_SCHED)" "\<not> single_sched 2 (queued_stepper_s False 0)"
  by (simp_all add: single_sched_def queued_stepper HAVE_SINGLE_SCHEDULE_def stepper_flags)

lemma edge_not_avr: "HAVE_EDGE_OPTIMIZATION s \<Longrightarrow> \<not> HAVE_AVR_OPTIMIZATION s"
  by (simp add: cfg_defs)

lemma step_offset_load:
  "iv + step_offset (iv + scast ad) ad n = step_offset iv ad (Suc n)"
proof (induction n)
  case (Suc n)
  then show ?case by (simp add: step_offset_Suc algebra_simps)
qed (simp add: step_offset_def)

lemma load_state:
  assumes q: "mq_rep s (st_mq (steppers s st)) (m # ns)" and d: "mv_data s m = MD_stepper iv ad c fl"
    and avr: "\<not> HAVE_AVR_OPTIMIZATION s"
  obtains s' mq' where "stepper_load_next st s = (Inr SF_RESCHEDULE, s')"
    "steppers s' st = loaded (single_sched st s) mq' iv ad c fl (steppers s st)"
    "tm_wake s' (step_time st) = (if single_sched st s then tm_wake s (step_time st) + iv
      else st_next_step_time (steppers s st) + iv)"
    "single_sched st s' = single_sched st s"
proof -
  obtain s' mq' where s': "stepper_load_next st s = (Inr SF_RESCHEDULE, s')"
    "steppers s' = (steppers s)(st := loaded (single_sched st s) mq' iv ad c fl (steppers s st))"
    "tm_wake s' = (tm_wake s)(step_time st := if single_sched st s then tm_wake s (step_time st) + iv
      else st_next_step_time (steppers s st) + iv)"
    "cfg_inline_hack s' = cfg_inline_hack s" "cfg_both_edge s' = cfg_both_edge s"
    "cfg_mach_avr s' = cfg_mach_avr s"
    using load_next_run [OF q d avr] by auto
  have "single_sched st s' = single_sched st s"
    using s' by (simp add: single_sched_def cfg_defs loaded_def Let_def)
  with s' show ?thesis by (intro that [of s' mq']) simp_all
qed

text \<open>
  C14: step times of a queued move, single scheduled.  After a move with interval \<open>iv\<close>, increment
  \<open>ad\<close> and \<open>c\<close> steps is taken from the queue, the \<open>k\<close>-th following step event sets the timer to
  the reference time plus \<open>(k+1)*iv + (k+1)*k/2*ad\<close>, modulo \<open>2 ^ 32\<close>, for every \<open>k < c\<close>; each event
  toggles the step pin once and leaves \<open>c - k\<close> steps to take.
\<close>

theorem edge_move_step_times:
  assumes "mq_rep s (st_mq (steppers s st)) (m # ns)" and "mv_data s m = MD_stepper iv ad c fl"
    and "HAVE_EDGE_OPTIMIZATION s" and "single_sched st s" and "k < unat c"
  shows "\<exists>s1 s'. stepper_load_next st s = (Inr SF_RESCHEDULE, s1) \<and>
    iterate k (stepper_event_edge st) s1 = (Inr (), s') \<and>
    tm_wake s' (step_time st) = tm_wake s (step_time st) +
      of_nat (Suc k) * iv + of_nat (Suc k * k div 2) * scast ad \<and>
    st_count (steppers s' st) = ucast c - of_nat k \<and>
    bd_outputs s' (st_step_pin (steppers s st)) = (bd_outputs s1 (st_step_pin (steppers s st)) \<noteq> odd k)"
proof -
  obtain s1 mq' where s1: "stepper_load_next st s = (Inr SF_RESCHEDULE, s1)"
    "steppers s1 st = loaded (single_sched st s) mq' iv ad c fl (steppers s st)"
    "tm_wake s1 (step_time st) = (if single_sched st s then tm_wake s (step_time st) + iv
      else st_next_step_time (steppers s st) + iv)"
    using load_state [OF assms(1,2) edge_not_avr [OF assms(3)]] by metis
  have f: "st_count (steppers s1 st) = ucast c" "st_interval (steppers s1 st) = iv + scast ad"
    "st_add (steppers s1 st) = ad" "st_step_pin (steppers s1 st) = st_step_pin (steppers s st)"
    using s1(2) assms(4) by (simp_all add: loaded_def Let_def)
  have "k < unat (st_count (steppers s1 st))" using assms(5) by (simp add: f unat_ucast_up)
  from edge_steps [OF this] obtain s' where s': "iterate k (stepper_event_edge st) s1 = (Inr (), s')"
    "tm_wake s' (step_time st) = tm_wake s1 (step_time st) + step_offset (iv + scast ad) ad k"
    "st_count (steppers s' st) = ucast c - of_nat k"
    "bd_outputs s' (st_step_pin (steppers s st)) = (bd_outputs s1 (st_step_pin (steppers s st)) \<noteq> odd k)"
    unfolding f by (elim exE conjE) (rule that; simp)
  have "tm_wake s' (step_time st) = tm_wake s (step_time st) + step_offset iv ad (Suc k)"
    using s'(2) s1(3) assms(4) step_offset_load [of iv ad k] by (simp add: add.assoc)
  then show ?thesis
    using s1(1) s' by (intro exI conjI) (assumption | simp add: step_offset_def add.assoc)+
qed

theorem edge_move_step_times_witness:
  "\<exists>s1 s'. stepper_load_next 2 (queued_stepper_s True SF_SINGLE_SCHED) = (Inr SF_RESCHEDULE, s1) \<and>
    iterate 3 (stepper_event_edge 2) s1 = (Inr (), s') \<and> tm_wake s' (step_time 2) = 4060"
  using edge_move_step_times [where k = 3, OF queued_stepper(1,2) _ queued_single(1)]
  by (auto simp: queued_stepper)

text \<open>
  Step times of a queued move, double scheduled.  Each step is a pair of events, and the clock
  read in them has no influence on the intended time: the \<open>k\<close>-th step after the first is due at
  the reference time plus \<open>(k+1)*iv + (k+1)*k/2*ad\<close>, for every \<open>k < c\<close>, so late events do not
  make later steps drift, and the step pin is back at its level after every pair.
\<close>

theorem full_move_step_times:
  assumes "mq_rep s (st_mq (steppers s st)) (m # ns)" and "mv_data s m = MD_stepper iv ad c fl"
    and "\<not> HAVE_AVR_OPTIMIZATION s" and "\<not> single_sched st s" and "k < unat c"
  shows "\<exists>s1 s'. stepper_load_next st s = (Inr SF_RESCHEDULE, s1) \<and>
    iterate (2 * k) (stepper_event_full st) s1 = (Inr (), s') \<and>
    st_next_step_time (steppers s' st) = st_next_step_time (steppers s st) +
      of_nat (Suc k) * iv + of_nat (Suc k * k div 2) * scast ad \<and>
    st_count (steppers s' st) = of_nat (2 * (unat c - k)) \<and>
    bd_outputs s' (st_step_pin (steppers s st)) = bd_outputs s1 (st_step_pin (steppers s st))"
proof -
  obtain s1 mq' where s1: "stepper_load_next st s = (Inr SF_RESCHEDULE, s1)"
    "steppers s1 st = loaded (single_sched st s) mq' iv ad c fl (steppers s st)"
    using load_state [OF assms(1-3)] by metis
  have f: "st_interval (steppers s1 st) = iv + scast ad"
    "st_add (steppers s1 st) = ad" "st_step_pin (steppers s1 st) = st_step_pin (steppers s st)"
    "st_next_step_time (steppers s1 st) = st_next_step_time (steppers s st) + iv"
    using s1(2) assms(4) by (simp_all add: loaded_def Let_def)
  have c: "st_count (steppers s1 st) = of_nat (2 * unat c)"
    using s1(2) assms(4) by (simp add: loaded_def Let_def)
  have "unat c < 2 ^ 16" using unsigned_less [of c] by simp
  from full_steps [OF c assms(5) this] obtain s' where
    s': "iterate (2 * k) (stepper_event_full st) s1 = (Inr (), s')"
    "st_next_step_time (steppers s' st) = st_next_step_time (steppers s st) + iv + step_offset (iv + scast ad) ad k"
    "st_count (steppers s' st) = of_nat (2 * (unat c - k))"
    "bd_outputs s' (st_step_pin (steppers s st)) = bd_outputs s1 (st_step_pin (steppers s st))"
    unfolding f by auto
  have "st_next_step_time (steppers s' st) = st_next_step_time (steppers s st) + step_offset iv ad (Suc k)"
    using s'(2) step_offset_load [of iv ad k] by (simp add: add.assoc)
  then show ?thesis
    using s1(1) s' by (intro exI conjI) (assumption | simp add: step_offset_def add.assoc)+
qed

theorem full_move_step_times_witness:
  "\<exists>s1 s'. stepper_load_next 2 (queued_stepper_s False 0) = (Inr SF_RESCHEDULE, s1) \<and>
    iterate (2 * 4) (stepper_event_full 2) s1 = (Inr (), s') \<and>
    st_next_step_time (steppers s' 2) = 5100"
  using full_move_step_times [where k = 4, OF queued_stepper(1,2,8) queued_single(2)]
  by (auto simp: queued_stepper)

text \<open>
  The position counts the steps.  A stepper at rest that loads a move and takes \<open>k\<close> of its
  steps reports its old position plus \<open>k\<close>, or minus \<open>k\<close> when the move runs backwards; the direction
  is the sign of the internal counter, flipped by a move that changes direction.
\<close>

theorem position_counts_steps:
  assumes "mq_rep s (st_mq (steppers s st)) (m # ns)" and "mv_data s m = MD_stepper iv ad c fl"
    and "HAVE_EDGE_OPTIMIZATION s" and "single_sched st s" and "st_count (steppers s st) = 0"
    and "p = st_position (steppers s st)" and "unat p \<notin> {0, 2 ^ 31}"
    and "q = (if fl AND MF_DIR \<noteq> 0 then - p else p)" and "k < unat c"
    and "if q AND 0x80000000 = 0 then unat q + k < 2 ^ 31 else k < unat (- q)"
  shows "\<exists>s'. bnd (stepper_load_next st) (\<lambda>_. iterate k (stepper_event_edge st)) s = (Inr (), s') \<and>
    unat (stepper_get_position st s') = (if q AND 0x80000000 = 0
      then unat (stepper_get_position st s) + k else unat (stepper_get_position st s) - k)"
proof -
  note avr = edge_not_avr [OF assms(3)]
  obtain s1 mq' where s1: "stepper_load_next st s = (Inr SF_RESCHEDULE, s1)"
    "steppers s1 st = loaded (single_sched st s) mq' iv ad c fl (steppers s st)"
    "single_sched st s1 = single_sched st s"
    using load_state [OF assms(1,2) avr] by metis
  have k: "k < unat (st_count (steppers s1 st))"
    and q: "q = st_position (steppers s1 st) - st_count (steppers s1 st)"
    using s1(2) assms(4,6,8,9) by (simp_all add: loaded_def Let_def unat_ucast_up)
  have "stepper_get_position st s1 = stepper_get_position st s"
    using load_keeps_position [OF assms(1,2) avr assms(5) _ s1(1)] assms(6,7) by simp
  moreover have "single_sched st s1" using s1(3) assms(4) by simp
  ultimately show ?thesis
    using edge_position [OF _ k q assms(10)] s1(1) by (simp add: bnd_def split del: if_split cong: if_cong)
qed

theorem position_counts_steps_witness:
  "\<exists>s'. bnd (stepper_load_next 2) (\<lambda>_. iterate 4 (stepper_event_edge 2)) (queued_stepper_s True SF_SINGLE_SCHED)
      = (Inr (), s') \<and> unat (stepper_get_position 2 s') = 0x40000004"
proof -
  have u: "unat (0xC0000000 :: u32) \<notin> {0, 2 ^ 31}"
    "0x40000000 = (if MF_DIR AND MF_DIR \<noteq> 0 then - 0xC0000000 else 0xC0000000 :: u32)"
    "4 < unat (5 :: u16)"
    "if 0x40000000 AND 0x80000000 = (0 :: u32) then unat (0x40000000 :: u32) + 4 < 2 ^ 31
     else 4 < unat (- 0x40000000 :: u32)"
    by (simp_all add: MF_DIR_def)
  have "stepper_get_position 2 (queued_stepper_s True SF_SINGLE_SCHED) = 0x40000000"
    by (simp add: stepper_get_position_def queued_stepper Let_def)
  then show ?thesis
    using position_counts_steps [OF queued_stepper(1,2) _ queued_single(1) queued_stepper(3)
        queued_stepper(4) [symmetric] u]
    by (simp add: queued_stepper)
qed

lemma trigger_flags:
  "((f AND NOT TSF_CAN_TRIGGER) OR TSF_REPORT) AND TSF_CAN_TRIGGER = 0"
  "((f AND NOT TSF_CAN_TRIGGER) OR TSF_REPORT) AND TSF_REPORT \<noteq> 0"
proof -
  show "((f AND NOT TSF_CAN_TRIGGER) OR TSF_REPORT) AND TSF_CAN_TRIGGER = 0"
    by (rule bit_word_eqI)
      (auto simp: bit_simps TSF_CAN_TRIGGER_def TSF_REPORT_def bit_1_iff)
  show "((f AND NOT TSF_CAN_TRIGGER) OR TSF_REPORT) AND TSF_REPORT \<noteq> 0"
    unfolding or_and_absorb by (simp add: TSF_REPORT_def)
qed

text \<open>
  C3: a trigger stops every registered stepper, once.  When a trigger that can fire is triggered,
  every stepper registered with it is stopped: no step left, its queue empty, its timer not
  pending, and it accepts no move before its clock is reset.  The trigger records the reason,
  asks for a report and cannot fire again: a second trigger changes nothing.  The timer list
  stays well formed and no move node is lost.
\<close>

theorem trigger_stops_steppers:
  assumes "stop_inv b None s" and "sig_rep s ts ls" and "length ls \<le> 255"
    and "ts_flags (trsyncs s ts) AND TSF_CAN_TRIGGER \<noteq> 0"
  shows "\<exists>s'. trsync_do_trigger trsync_callback ts r s = (Inr (), s') \<and> stop_inv b None s' \<and>
    (\<forall>st\<in>set ls. stopped b st s') \<and> sig_rep s' ts [] \<and>
    ts_trigger_reason (trsyncs s' ts) = r \<and> ts_flags (trsyncs s' ts) AND TSF_REPORT \<noteq> 0 \<and>
    task_wakes s' ''trsync_wake'' = 1 \<and>
    trsync_do_trigger trsync_callback ts r2 s' = (Inr (), s')"
proof -
  obtain s' where s': "trsync_do_trigger trsync_callback ts r s = (Inr (), s')" "stop_inv b None s'"
    "\<forall>x\<in>set ls. stopped b x s'" "task_wakes s' ''trsync_wake'' = 1"
    "trsyncs s' ts = (trsyncs s ts)\<lparr>ts_signals := None, ts_trigger_reason := r,
         ts_flags := (ts_flags (trsyncs s ts) AND NOT TSF_CAN_TRIGGER) OR TSF_REPORT\<rparr>"
    using stop.do_trigger_run [OF assms(1,2) _ assms(3), of r] assms(4) by auto
  have f: "ts_flags (trsyncs s' ts) AND TSF_CAN_TRIGGER = 0" "ts_flags (trsyncs s' ts) AND TSF_REPORT \<noteq> 0"
    using trigger_flags [of "ts_flags (trsyncs s ts)"] by (simp_all only: s'(5)) simp_all
  moreover have "trsync_do_trigger trsync_callback ts r2 s' = (Inr (), s')"
    using f(1) by (simp add: trsync_do_trigger_def fw_unfold)
  ultimately show ?thesis using s' by (intro exI [of _ s']) (simp add: sig_rep_def)
qed

lemma queued_stop_inv: "stop_inv 0 None (queued_stepper_s e f)"
proof -
  have "timers 0 [T_periodic, T_sentinel] (queued_stepper_s e f)"
    by (simp add: timers_def queue_ok_def far_ok_def key_def off_def queued_defs)
  moreover have "shared_out [] ((\<lambda>_. [])(2 := [8, 24])) (queued_stepper_s e f)"
    by (auto simp: shared_out_def free_rep_def mq_rep_def queued_defs)
  ultimately show ?thesis unfolding stop_inv_def by blast
qed

theorem trigger_stops_steppers_witness:
  "\<exists>s'. trsync_do_trigger trsync_callback 5 4 ((queued_stepper_s True SF_SINGLE_SCHED)
      \<lparr>trsyncs := (\<lambda>_. zero_trsync\<lparr>ts_flags := TSF_CAN_TRIGGER, ts_signals := Some 2\<rparr>),
       sig_func := (\<lambda>_. Some CB_stepper_stop)\<rparr>) = (Inr (), s') \<and> stopped 0 2 s'"
proof -
  define s where "s = (queued_stepper_s True SF_SINGLE_SCHED)
      \<lparr>trsyncs := (\<lambda>_. zero_trsync\<lparr>ts_flags := TSF_CAN_TRIGGER, ts_signals := Some 2\<rparr>),
       sig_func := (\<lambda>_. Some CB_stepper_stop)\<rparr>"
  have a: "stop_inv 0 None s" "sig_rep s 5 [2]" "length [2 :: nat] \<le> 255"
    "ts_flags (trsyncs s 5) AND TSF_CAN_TRIGGER \<noteq> 0"
    using queued_stop_inv [of True SF_SINGLE_SCHED]
    by (simp_all add: s_def stop_inv_def sig_rep_def TSF_CAN_TRIGGER_def)
      (simp add: queued_defs)
  from trigger_stops_steppers [OF a, of 4 0] show ?thesis unfolding s_def [symmetric] by auto
qed

end
