(* ===== verification/Endstop.thy ===== *)
theory Endstop
  imports Stepper
begin

text \<open>
  End stops (\<^verbatim>\<open>src/endstop.c\<close>): a timer samples a pin until it matches the wanted level
  in \<open>sample_count\<close> successive samples and then fires a trigger.  The timer of the end stop
  with id \<open>oid\<close> is \<open>T_obj oid 0\<close>; the theory ends with the timer callbacks of a homing move,
  for which the laws of the timer dispatcher are established.
\<close>

section \<open>State\<close>

datatype endstop_func = ES_event | ES_oversample

record endstop =
  es_func :: endstop_func
  es_pin :: u32
  es_rest_time :: u32
  es_sample_time :: u32
  es_nextwake :: u32
  es_ts :: "nat option"
  es_flags :: u8
  es_sample_count :: u8
  es_trigger_count :: u8
  es_trigger_reason :: u8

definition zero_endstop :: endstop where
  "zero_endstop = \<lparr>es_func = ES_event, es_pin = 0, es_rest_time = 0, es_sample_time = 0,
    es_nextwake = 0, es_ts = None, es_flags = 0, es_sample_count = 0, es_trigger_count = 0,
    es_trigger_reason = 0\<rparr>"

record endstop_s = stepper_s +
  endstops :: "nat \<Rightarrow> endstop"

definition ESF_PIN_HIGH :: u8 where "ESF_PIN_HIGH = 1"
definition ESF_HOMING :: u8 where "ESF_HOMING = 2"

abbreviation endstop_upd :: "nat \<Rightarrow> (endstop \<Rightarrow> endstop) \<Rightarrow> ('a endstop_s_scheme, unit) fw" where
  "endstop_upd e f \<equiv> upd (\<lambda>s. s\<lparr>endstops := (endstops s)(e := f (endstops s e))\<rparr>)"

abbreviation endstop_time :: "nat \<Rightarrow> timer_id" where "endstop_time e \<equiv> T_obj e 0"

section \<open>Sampling\<close>

text \<open>The test \<^verbatim>\<open>(val ? ~e->flags : e->flags) & ESF_PIN_HIGH\<close>: the pin does not match.\<close>

definition no_match :: "u8 \<Rightarrow> u8 \<Rightarrow> bool" where
  "no_match flags val \<longleftrightarrow> (if val \<noteq> 0 then NOT flags else flags) AND ESF_PIN_HIGH \<noteq> 0"

definition endstop_oversample_event :: "nat \<Rightarrow> ('a endstop_s_scheme, sf) fw" where
  "endstop_oversample_event e =
    bnd (gets (\<lambda>s. endstops s e)) (\<lambda>x.
    bnd (gpio_in_read (es_pin x)) (\<lambda>val.
    if no_match (es_flags x) val then
      thn (endstop_upd e (\<lambda>x. x\<lparr>es_func := ES_event\<rparr>))
      (thn (upd (set_wake (endstop_time e) (es_nextwake x)))
      (thn (endstop_upd e (\<lambda>x. x\<lparr>es_trigger_count := es_sample_count x\<rparr>))
      (ret SF_RESCHEDULE)))
    else
      (let count = es_trigger_count x - 1 in
      if count = 0 then
        thn (case es_ts x of None \<Rightarrow> stuck
             | Some ts \<Rightarrow> trsync_do_trigger trsync_callback ts (es_trigger_reason x))
        (ret SF_DONE)
      else
        thn (endstop_upd e (\<lambda>x. x\<lparr>es_trigger_count := count\<rparr>))
        (thn (upd (\<lambda>s. set_wake (endstop_time e) (tm_wake s (endstop_time e) + es_sample_time x) s))
        (ret SF_RESCHEDULE)))))"

definition endstop_event :: "nat \<Rightarrow> ('a endstop_s_scheme, sf) fw" where
  "endstop_event e =
    bnd (gets (\<lambda>s. endstops s e)) (\<lambda>x.
    bnd (gpio_in_read (es_pin x)) (\<lambda>val.
    bnd (gets (\<lambda>s. tm_wake s (endstop_time e) + es_rest_time x)) (\<lambda>nextwake.
    if no_match (es_flags x) val then
      thn (upd (set_wake (endstop_time e) nextwake)) (ret SF_RESCHEDULE)
    else
      thn (endstop_upd e (\<lambda>x. x\<lparr>es_nextwake := nextwake\<rparr>))
      (thn (endstop_upd e (\<lambda>x. x\<lparr>es_func := ES_oversample\<rparr>))
      (endstop_oversample_event e)))))"

text \<open>The timer callback: \<^verbatim>\<open>e->time.func\<close>.\<close>

definition endstop_timer :: "nat \<Rightarrow> ('a endstop_s_scheme, sf) fw" where
  "endstop_timer e =
    bnd (gets (\<lambda>s. es_func (endstops s e))) (\<lambda>f. case f of
      ES_event \<Rightarrow> endstop_event e | ES_oversample \<Rightarrow> endstop_oversample_event e)"

section \<open>Commands\<close>

definition command_config_endstop :: "nat \<Rightarrow> u32 list \<Rightarrow> ('a endstop_s_scheme, unit) fw" where
  "command_config_endstop sizeof_endstop args = (case args of
      [oid, pin, pull_up] \<Rightarrow>
        bnd (oid_alloc (ucast oid) ''endstop'' sizeof_endstop) (\<lambda>e.
        thn (upd (\<lambda>s. s\<lparr>endstops := (endstops s)(e := zero_endstop)\<rparr>))
        (bnd (gpio_in_setup pin pull_up) (\<lambda>p.
        endstop_upd e (\<lambda>x. x\<lparr>es_pin := p\<rparr>))))
    | _ \<Rightarrow> stuck)"

definition command_endstop_home :: "u32 list \<Rightarrow> ('a endstop_s_scheme, unit) fw" where
  "command_endstop_home args = (case args of
      [oid, clock, sample_ticks, sample_count, rest_ticks, pin_value, trsync_oid, trigger_reason] \<Rightarrow>
        bnd (oid_lookup (ucast oid) ''endstop'') (\<lambda>e.
        thn (sched_del_timer (endstop_time e))
        (thn (upd (set_wake (endstop_time e) clock))
        (thn (endstop_upd e (\<lambda>x. x\<lparr>es_sample_time := sample_ticks, es_sample_count := ucast sample_count\<rparr>))
        (if (ucast sample_count :: u8) = 0 then
           endstop_upd e (\<lambda>x. x\<lparr>es_ts := None, es_flags := 0\<rparr>)
         else
           thn (endstop_upd e (\<lambda>x. x\<lparr>es_rest_time := rest_ticks, es_func := ES_event,
             es_trigger_count := ucast sample_count,
             es_flags := ESF_HOMING OR (if pin_value \<noteq> 0 then ESF_PIN_HIGH else 0)\<rparr>))
           (bnd (trsync_oid_lookup (ucast trsync_oid)) (\<lambda>ts.
           thn (endstop_upd e (\<lambda>x. x\<lparr>es_ts := Some ts, es_trigger_reason := ucast trigger_reason\<rparr>))
           (sched_add_timer (endstop_time e))))))))
    | _ \<Rightarrow> stuck)"

definition command_endstop_query_state :: "u32 list \<Rightarrow> ('a endstop_s_scheme, unit) fw" where
  "command_endstop_query_state args = (case args of
      [a0] \<Rightarrow>
        (let oid = ucast a0 :: u8 in
        bnd (oid_lookup oid ''endstop'') (\<lambda>e.
        bnd (gets (\<lambda>s. endstops s e)) (\<lambda>x.
        bnd (gpio_in_read (es_pin x)) (\<lambda>v.
        sendf ''endstop_state oid=%c homing=%c next_clock=%u pin_value=%c''
          [A_int (ucast oid), A_int (if es_flags x AND ESF_HOMING \<noteq> 0 then 1 else 0),
           A_int (es_nextwake x), A_int (ucast v)]))))
    | _ \<Rightarrow> stuck)"

section \<open>Samples before a trigger\<close>

text \<open>
  The sampling phase of an end stop: events that ask to be scheduled again.
\<close>

inductive sampling :: "nat \<Rightarrow> 'a endstop_s_scheme \<Rightarrow> 'a endstop_s_scheme \<Rightarrow> bool" for e s where
  start: "sampling e s s"
| event: "sampling e s s1 \<Longrightarrow> endstop_timer e s1 = (Inr SF_RESCHEDULE, s2) \<Longrightarrow> sampling e s s2"


text \<open>The pin read \<open>i\<close> of the end stop matches.\<close>

definition match_at :: "nat \<Rightarrow> 'a endstop_s_scheme \<Rightarrow> nat \<Rightarrow> bool" where
  "match_at e s i \<longleftrightarrow> \<not> no_match (es_flags (endstops s e)) (bd_inputs s (es_pin (endstops s e)) i)"

text \<open>
  The invariant of the sampling phase: either the next event starts over, or \<open>j\<close> events of the
  \<open>n\<close> needed have matched, the first of them with two reads.
\<close>

definition samples_ok :: "nat \<Rightarrow> nat \<Rightarrow> 'a endstop_s_scheme \<Rightarrow> bool" where
  "samples_ok e n s \<longleftrightarrow> es_sample_count (endstops s e) = of_nat n \<and> (case es_func (endstops s e) of
      ES_event \<Rightarrow> es_trigger_count (endstops s e) = of_nat n
    | ES_oversample \<Rightarrow> \<exists>j. 0 < j \<and> j < n \<and> es_trigger_count (endstops s e) = of_nat (n - j) \<and>
        Suc j \<le> bd_input_reads s \<and> (\<forall>i < Suc j. match_at e s (bd_input_reads s - Suc i)))"

lemma count_dec: "j < n \<Longrightarrow> of_nat (n - j) - 1 = (of_nat (n - Suc j) :: u8)"
  by (metis Suc_diff_Suc add_diff_cancel_left' of_nat_Suc)

lemma count_zero:
  assumes "n < 256" and "j < n"
  shows "(of_nat (n - j) - 1 = (0 :: u8)) = (Suc j = n)"
proof -
  have "unat (of_nat (n - Suc j) :: u8) = n - Suc j"
    using assms(1) by (intro unat_of_nat_small) simp
  then have "(of_nat (n - Suc j) = (0 :: u8)) = (n - Suc j = 0)" by (metis unat_eq_0)
  then show ?thesis unfolding count_dec [OF assms(2)] using assms(2) by auto
qed

lemma oversample_event_cases:
  "endstop_oversample_event e s =
    (if \<not> match_at e s (bd_input_reads s) then
       (Inr SF_RESCHEDULE, s\<lparr>bd_input_reads := Suc (bd_input_reads s),
         endstops := (endstops s)(e := (endstops s e)\<lparr>es_func := ES_event,
           es_trigger_count := es_sample_count (endstops s e)\<rparr>),
         tm_wake := (tm_wake s)(endstop_time e := es_nextwake (endstops s e))\<rparr>)
     else if es_trigger_count (endstops s e) - 1 = 0 then
       thn (case es_ts (endstops s e) of None \<Rightarrow> stuck
         | Some ts \<Rightarrow> trsync_do_trigger trsync_callback ts (es_trigger_reason (endstops s e)))
       (ret SF_DONE) (s\<lparr>bd_input_reads := Suc (bd_input_reads s)\<rparr>)
     else
       (Inr SF_RESCHEDULE, s\<lparr>bd_input_reads := Suc (bd_input_reads s),
         endstops := (endstops s)(e := (endstops s e)\<lparr>es_trigger_count := es_trigger_count (endstops s e) - 1\<rparr>),
         tm_wake := (tm_wake s)(endstop_time e := tm_wake s (endstop_time e) + es_sample_time (endstops s e))\<rparr>))"
  by (simp add: endstop_oversample_event_def match_at_def Let_def fw_unfold gpio_in_read_def)

lemma event_cases:
  "endstop_event e s =
    (let s1 = s\<lparr>bd_input_reads := Suc (bd_input_reads s)\<rparr>;
         nw = tm_wake s (endstop_time e) + es_rest_time (endstops s e)
     in if \<not> match_at e s (bd_input_reads s) then (Inr SF_RESCHEDULE, set_wake (endstop_time e) nw s1)
     else endstop_oversample_event e (s1\<lparr>endstops := (endstops s)(e := (endstops s e)\<lparr>es_nextwake := nw,
       es_func := ES_oversample\<rparr>)\<rparr>))"
  by (simp add: endstop_event_def match_at_def Let_def fw_unfold gpio_in_read_def)

text \<open>Any oversampling event after \<open>j\<close> matching events, with the reads before it.\<close>

lemma oversample_step:
  assumes n: "n < 256" "j < n" and c: "es_trigger_count (endstops s e) = of_nat (n - j)"
    "es_sample_count (endstops s e) = of_nat n" "es_func (endstops s e) = ES_oversample"
    and m: "Suc j \<le> bd_input_reads s" "\<forall>i < Suc j. match_at e s (bd_input_reads s - Suc i)"
    and e: "endstop_oversample_event e s = (Inr r, s')"
  shows "if r = SF_DONE then Suc j = n \<and> match_at e s (bd_input_reads s) else samples_ok e n s'"
proof (cases "match_at e s (bd_input_reads s)")
  case False
  then show ?thesis using e c by (auto simp: oversample_event_cases samples_ok_def)
next
  case True
  note z = count_zero [OF n]
  show ?thesis
  proof (cases "Suc j = n")
    case fire: True
    then show ?thesis using e z True unfolding oversample_event_cases c(1)
      by (auto simp: fw_unfold split: prod.splits sum.splits)
  next
    case False
    have m': "match_at e s (Suc (bd_input_reads s) - Suc i)" if "i < Suc (Suc j)" for i
      using that True m(2) m(1) by (cases i) auto
    have r: "r = SF_RESCHEDULE" "s' = s\<lparr>bd_input_reads := Suc (bd_input_reads s),
         endstops := (endstops s)(e := (endstops s e)\<lparr>es_trigger_count := of_nat (n - j) - 1\<rparr>),
         tm_wake := (tm_wake s)(endstop_time e := tm_wake s (endstop_time e) + es_sample_time (endstops s e))\<rparr>"
      using e z True False unfolding oversample_event_cases c(1) by auto
    have "match_at e s' = match_at e s" by (rule ext) (simp add: match_at_def r)
    then have "samples_ok e n s'"
      using c n False m(1) m' by (auto simp: samples_ok_def r count_dec intro!: exI [of _ "Suc j"])
    then show ?thesis using r by simp
  qed
qed

lemma sample_step:
  assumes n: "0 < n" "n < 256" and so: "samples_ok e n s" and ev: "endstop_timer e s = (Inr r, s')"
    and R: "R = (if es_func (endstops s e) = ES_event then 2 else 1) + bd_input_reads s"
  shows "if r = SF_DONE then Suc n \<le> R \<and> (\<forall>i \<le> n. match_at e s (R - Suc i)) else samples_ok e n s'"
proof (cases "es_func (endstops s e)")
  case ES_oversample
  then obtain j where j: "0 < j" "j < n" "es_trigger_count (endstops s e) = of_nat (n - j)"
    "es_sample_count (endstops s e) = of_nat n"
    "Suc j \<le> bd_input_reads s" "\<forall>i < Suc j. match_at e s (bd_input_reads s - Suc i)"
    using so by (auto simp: samples_ok_def)
  have "endstop_oversample_event e s = (Inr r, s')"
    using ev ES_oversample by (simp add: endstop_timer_def fw_unfold)
  note st = oversample_step [OF n(2) j(2-4) ES_oversample j(5,6) this]
  have "match_at e s (R - Suc i)" if "Suc j = n" "i \<le> n" "match_at e s (bd_input_reads s)" for i
    using that j(5,6) R ES_oversample by (cases i) auto
  then show ?thesis using st j(5) R ES_oversample by auto
next
  case ES_event
  have c: "es_trigger_count (endstops s e) = of_nat n" "es_sample_count (endstops s e) = of_nat n"
    using so ES_event by (auto simp: samples_ok_def)
  have v: "endstop_event e s = (Inr r, s')" using ev ES_event by (simp add: endstop_timer_def fw_unfold)
  show ?thesis
  proof (cases "match_at e s (bd_input_reads s)")
    case False
    then show ?thesis using v c ES_event by (auto simp: event_cases samples_ok_def)
  next
    case True
    define s1 where "s1 = s\<lparr>bd_input_reads := Suc (bd_input_reads s), endstops := (endstops s)(e := (endstops s e)
      \<lparr>es_nextwake := tm_wake s (endstop_time e) + es_rest_time (endstops s e), es_func := ES_oversample\<rparr>)\<rparr>"
    have s1: "endstop_oversample_event e s1 = (Inr r, s')" using v True by (simp add: event_cases s1_def)
    have m: "match_at e s1 = match_at e s" by (rule ext) (simp add: match_at_def s1_def)
    have "if r = SF_DONE then Suc 0 = n \<and> match_at e s1 (bd_input_reads s1) else samples_ok e n s'"
      using True by (intro oversample_step [OF n(2) n(1) _ _ _ _ _ s1]) (simp_all add: m, simp_all add: s1_def c)
    then show ?thesis using True R ES_event by (auto simp: m) (auto simp: s1_def le_Suc_eq)
  qed
qed

lemma sampling_ok: "sampling e s s' \<Longrightarrow> 0 < n \<Longrightarrow> n < 256 \<Longrightarrow> samples_ok e n s \<Longrightarrow> samples_ok e n s'"
proof (induction rule: sampling.induct)
  case (event s1 s2)
  then show ?case using sample_step [of n e s1 SF_RESCHEDULE s2] by simp
qed

section \<open>Timer callbacks of a homing move\<close>

text \<open>
  The call \<^verbatim>\<open>t->func(t)\<close> for the timers of the objects that take part in a homing move,
  by the type of the object that embeds the timer.
\<close>

definition oid_type_of :: "nat \<Rightarrow> 'a basecmd_s_scheme \<Rightarrow> oid_type option" where
  "oid_type_of i s = (case oids s of None \<Rightarrow> None | Some ts \<Rightarrow> if i < length ts then ts ! i else None)"

definition homing_timer :: "nat \<Rightarrow> nat \<Rightarrow> ('a endstop_s_scheme, sf) fw" where
  "homing_timer i k =
    bnd (gets (oid_type_of i)) (\<lambda>ty.
    if ty = Some ''stepper'' \<and> k = 0 then stepper_timer i
    else if ty = Some ''trsync'' \<and> k = 0 then trsync_report_event i
    else if ty = Some ''trsync'' \<and> k = 1 then trsync_expire_event trsync_callback i
    else if ty = Some ''endstop'' \<and> k = 0 then endstop_timer i
    else stuck)"

text \<open>A callback that only moves its own due time.\<close>

definition own_timer :: "timer_id \<Rightarrow> 'a sched_s_scheme \<Rightarrow> 'a sched_s_scheme \<Rightarrow> bool" where
  "own_timer t s0 s \<longleftrightarrow> tm_next s = tm_next s0 \<and> timer_list s = timer_list s0 \<and>
    last_insert s = last_insert s0 \<and> (\<forall>x. x \<noteq> t \<longrightarrow> tm_wake s x = tm_wake s0 x)"

lemma own_running:
  assumes tm: "timers b ts s" and t: "timer_list s = T_obj i k" and o: "own_timer (T_obj i k) s s'"
    and w: "res = SF_RESCHEDULE \<Longrightarrow> off b (tm_wake s' (T_obj i k)) < 2 ^ 31"
  shows "running b (T_obj i k) (tl ts) res s'"
proof -
  obtain xs where ts: "ts = T_obj i k # xs" "xs \<noteq> []" "T_deleted \<notin> set xs"
    "tm_next s (T_obj i k) = Some (hd xs)" "chain (tm_next s) xs"
    using timers_hd [OF tm] t by metis
  have q: "queue_ok b ts s" "far_ok b s" "T_periodic \<in> set ts" "last_insert s \<in> set ts - {T_sentinel, T_deleted}"
    using tm by (auto simp: timers_def)
  have d: "T_obj i k \<notin> set xs" using q(1) ts(1) by (simp add: queue_ok_def)
  have k: "key b s' x = key b s x" if "x \<noteq> T_obj i k" for x
    using o that by (simp add: own_timer_def key_def)
  have e: "\<forall>x\<in>set xs. key b s' x = key b s x" using k d by metis
  then have m: "map (key b s') xs = map (key b s) xs" by simp
  have "queue_ok b xs s'"
    using q(1) ts o e unfolding queue_ok_def own_timer_def m by auto
  moreover have "far_ok b s'" using q(2) o k by (simp add: far_ok_def own_timer_def)
  moreover have "chain (tm_next s') (T_obj i k # xs)" using ts o by (cases xs) (auto simp: own_timer_def)
  ultimately show ?thesis
    using ts q(3,4) d o w t unfolding running_def
    by (cases res) (auto simp: own_timer_def key_def)
qed

lemma own_timer_self [simp]: "own_timer t s s"
  by (simp add: own_timer_def)

lemma own_timer_keeps [fw_keeps]:
  "keeps (own_timer t s0) (upd (\<lambda>s. set_wake t (w s) s))"
  "keeps (own_timer t s0) timer_read_time" "keeps (own_timer t s0) (gpio_out_toggle pin)"
  "keeps (own_timer t s0) (gpio_in_read pin)"
  by (simp_all add: keeps_def own_timer_def upd_def timer_read_time_def gpio_out_toggle_def gpio_in_read_def)

lemma own_stepper_upd [fw_keeps]: "keeps (own_timer t s0) (upd (\<lambda>s. s\<lparr>steppers := f s\<rparr>))"
  by (simp add: keeps_def own_timer_def upd_def)

lemma own_endstop_upd [fw_keeps]: "keeps (own_timer t s0) (upd (\<lambda>s. s\<lparr>endstops := f s\<rparr>))"
  by (simp add: keeps_def own_timer_def upd_def)

lemma own_trsync_upd [fw_keeps]: "keeps (own_timer t s0) (upd (\<lambda>s. s\<lparr>trsyncs := f s\<rparr>))"
  by (simp add: keeps_def own_timer_def upd_def)

lemma own_moves [fw_keeps]:
  "keeps (own_timer t s0) (move_queue_pop mq)" "keeps (own_timer t s0) (move_free m)"
  by (simp_all add: keeps_def own_timer_def move_queue_pop_def move_free_def fw_unfold split: option.split)

lemma own_wake_task [fw_keeps]: "keeps (own_timer t s0) (sched_wake_task w)"
  by (simp add: keeps_def own_timer_def sched_wake_task_def sched_wake_tasks_def fw_unfold)

lemma load_next_own [fw_keeps]: "keeps (own_timer (step_time st) s0) (stepper_load_next st)"
  unfolding stepper_load_next_def
  by (auto intro!: fw_keeps split: prod.split move_data.split)

lemma stepper_timer_own: "keeps (own_timer (step_time st) s0) (stepper_timer st)"
  unfolding stepper_timer_def stepper_event_def stepper_event_edge_def stepper_event_avr_def
    stepper_event_full_def reschedule_min_def
  by (auto intro!: fw_keeps split: prod.split stepper_func.split)

lemma report_event_own: "keeps (own_timer (report_time ts) s0) (trsync_report_event ts)"
  unfolding trsync_report_event_def by (auto intro!: fw_keeps)

text \<open>Events that meet a queue of stepper moves do not get stuck.\<close>

definition stepper_ready :: "nat \<Rightarrow> nat list \<Rightarrow> 'a stepper_s_scheme \<Rightarrow> bool" where
  "stepper_ready st ns s \<longleftrightarrow> mq_rep s (st_mq (steppers s st)) ns \<and>
    (\<forall>m\<in>set ns. \<exists>iv ad c fl. mv_data s m = MD_stepper iv ad c fl) \<and>
    (st_func (steppers s st) = SE_full \<or> cfg_inline_hack s)"

lemma load_next_returns:
  assumes "stepper_ready st ns s"
  shows "\<exists>r s'. stepper_load_next st s = (Inr r, s')"
proof (cases ns)
  case Nil
  then have "move_queue_empty (st_mq (steppers s st))"
    using assms mq.empty_rep unfolding stepper_ready_def by blast
  then show ?thesis by (simp add: stepper_load_next_def fw_unfold)
next
  case (Cons m ms)
  then have q: "mq_rep s (st_mq (steppers s st)) (m # ms)" using assms by (simp add: stepper_ready_def)
  obtain iv ad c fl where d: "mv_data s m = MD_stepper iv ad c fl"
    using assms Cons by (auto simp: stepper_ready_def)
  obtain mq' where p: "move_queue_pop (st_mq (steppers s st)) s = (Inr (mq', m), s)"
    using mq_pop_rep [OF q] by blast
  have ne: "\<not> move_queue_empty (st_mq (steppers s st))" using mq.empty_rep [OF q] by simp
  show ?thesis
    using p d ne by (simp add: stepper_load_next_def fw_unfold gpio_out_toggle_def move_free_def)
qed

lemma ready_frame:
  assumes "stepper_ready st ns s" and "mv_next s' = mv_next s" and "mv_data s' = mv_data s"
    and "st_mq (steppers s' st) = st_mq (steppers s st)" "st_func (steppers s' st) = st_func (steppers s st)"
    and "cfg_inline_hack s' = cfg_inline_hack s"
  shows "stepper_ready st ns s'"
  using assms mq_rep_cong [of ns s' s] by (simp add: stepper_ready_def)

lemma stepper_timer_not_stuck:
  assumes r: "stepper_ready st ns s"
  shows "fst (stepper_timer st s) \<noteq> Inl Stuck"
proof -
  define out where "out = (bd_outputs s)(st_step_pin (steppers s st) := \<not> bd_outputs s (st_step_pin (steppers s st)))"
  have edge: "fst (stepper_event_edge st s) \<noteq> Inl Stuck"
  proof -
    have "stepper_ready st ns (s\<lparr>bd_outputs := out\<rparr>)" by (rule ready_frame [OF r]) simp_all
    from load_next_returns [OF this] show ?thesis
      by (auto simp: stepper_event_edge_def fw_unfold gpio_out_toggle_def out_def)
  qed
  have avr: "fst (stepper_event_avr st s) \<noteq> Inl Stuck"
  proof -
    have "stepper_ready st ns (s\<lparr>bd_outputs := out\<rparr>)" by (rule ready_frame [OF r]) simp_all
    from load_next_returns [OF this] show ?thesis
      by (auto simp: stepper_event_avr_def fw_unfold gpio_out_toggle_def out_def)
  qed
  have full: "fst (stepper_event_full st s) \<noteq> Inl Stuck"
  proof -
    have "stepper_ready st ns (s\<lparr>bd_outputs := out, bd_clock_reads := Suc (bd_clock_reads s), steppers := (steppers s)(st :=
        (steppers s st)\<lparr>st_count := st_count (steppers s st) - 1\<rparr>)\<rparr>)"
      by (rule ready_frame [OF r]) simp_all
    from load_next_returns [OF this] show ?thesis
      by (auto simp: stepper_event_full_def reschedule_min_def fw_unfold gpio_out_toggle_def
          timer_read_time_def out_def split: if_splits)
  qed
  show ?thesis using r edge avr full
    by (auto simp: stepper_timer_def stepper_event_def stepper_ready_def fw_unfold split: stepper_func.split)
qed

text \<open>Triggers that fire inside a timer callback.\<close>

definition trigger_ready :: "u32 \<Rightarrow> nat \<Rightarrow> 'a stepper_s_scheme \<Rightarrow> bool" where
  "trigger_ready b ts s \<longleftrightarrow> stop_inv b (Some (timer_list s)) s \<and>
    (\<exists>ls. sig_rep s ts ls \<and> length ls \<le> 255 \<and> (\<forall>x\<in>set ls. timer_list s \<noteq> step_time x))"

lemma trigger_running:
  assumes "trigger_ready b ts s" and t: "timer_list s = T_obj i k"
  shows "\<exists>s' rest. trsync_do_trigger trsync_callback ts r s = (Inr (), s') \<and>
    running b (T_obj i k) rest SF_DONE s'"
proof -
  obtain ls where ls: "stop_inv b (Some (timer_list s)) s" "sig_rep s ts ls" "length ls \<le> 255"
    "\<forall>x\<in>set ls. Some (timer_list s) \<noteq> Some (step_time x)"
    using assms(1) by (auto simp: trigger_ready_def)
  obtain s' where s': "trsync_do_trigger trsync_callback ts r s = (Inr (), s')"
    "stop_inv b (Some (timer_list s)) s'"
    using stop.do_trigger_run [OF ls(1,2,4,3), of r] by blast
  obtain us where "timers b us s'" "timer_list s' = T_obj i k" using s'(2) t by (auto simp: stop_inv_def)
  from own_running [OF this own_timer_self, of SF_DONE] s'(1) show ?thesis by auto
qed

lemma trigger_ready_frame [simp]:
  "trigger_ready b ts (s\<lparr>bd_input_reads := n\<rparr>) = trigger_ready b ts s"
  "trigger_ready b ts ((s' :: 'a endstop_s_scheme)\<lparr>endstops := es\<rparr>) = trigger_ready b ts s'"
proof -
  have t: "timers b us (s\<lparr>bd_input_reads := n\<rparr>) = timers b us s"
    "timers b us (s'\<lparr>endstops := es\<rparr>) = timers b us s'" for us
    by (rule timers_cong; simp)+
  show "trigger_ready b ts (s\<lparr>bd_input_reads := n\<rparr>) = trigger_ready b ts s"
    "trigger_ready b ts (s'\<lparr>endstops := es\<rparr>) = trigger_ready b ts s'"
    by (simp_all add: trigger_ready_def stop_inv_def shared_out_def free_rep_def mq_rep_def sig_rep_def t
        cong: if_cong)
qed

text \<open>
  An end stop event moves its own timer or fires its trigger.
\<close>

lemma oversample_running:
  assumes tm: "timers b us s" and t: "timer_list s = endstop_time e"
    and ts: "es_ts (endstops s e) = Some ts" "trigger_ready b ts s"
    and w: "fst (endstop_oversample_event e s) = Inr SF_RESCHEDULE \<Longrightarrow>
      off b (tm_wake (snd (endstop_oversample_event e s)) (endstop_time e)) < 2 ^ 31"
  shows "\<exists>r s' rest. endstop_oversample_event e s = (Inr r, s') \<and> running b (endstop_time e) rest r s'"
proof (cases "match_at e s (bd_input_reads s) \<and> es_trigger_count (endstops s e) - 1 = 0")
  case True
  define s1 where "s1 = s\<lparr>bd_input_reads := Suc (bd_input_reads s)\<rparr>"
  have "trigger_ready b ts s1" "timer_list s1 = endstop_time e" using ts(2) t by (simp_all add: s1_def)
  from trigger_running [OF this, of "es_trigger_reason (endstops s e)"] True ts(1) show ?thesis
    by (auto simp: oversample_event_cases fw_unfold s1_def)
next
  case False
  then have "\<exists>s'. endstop_oversample_event e s = (Inr SF_RESCHEDULE, s') \<and> own_timer (endstop_time e) s s'"
    unfolding oversample_event_cases
    by (cases "match_at e s (bd_input_reads s)") (auto simp: own_timer_def)
  then obtain s' where s': "endstop_oversample_event e s = (Inr SF_RESCHEDULE, s')"
    "own_timer (endstop_time e) s s'" by blast
  then show ?thesis using own_running [OF tm t s'(2)] w by auto
qed

lemma endstop_running:
  assumes tm: "timers b us s" and t: "timer_list s = endstop_time e"
    and ts: "es_ts (endstops s e) = Some ts" "trigger_ready b ts s"
    and w: "fst (endstop_timer e s) = Inr SF_RESCHEDULE \<Longrightarrow>
      off b (tm_wake (snd (endstop_timer e s)) (endstop_time e)) < 2 ^ 31"
  shows "\<exists>r s' rest. endstop_timer e s = (Inr r, s') \<and> running b (endstop_time e) rest r s'"
proof (cases "es_func (endstops s e)")
  case ES_oversample
  then have "endstop_timer e s = endstop_oversample_event e s" by (simp add: endstop_timer_def fw_unfold)
  then show ?thesis using oversample_running [OF tm t ts] w by simp
next
  case ES_event
  then have ev: "endstop_timer e s = endstop_event e s" by (simp add: endstop_timer_def fw_unfold)
  show ?thesis
  proof (cases "match_at e s (bd_input_reads s)")
    case False
    then obtain s' where s': "endstop_timer e s = (Inr SF_RESCHEDULE, s')" "own_timer (endstop_time e) s s'"
      unfolding ev by (auto simp: event_cases own_timer_def Let_def)
    then show ?thesis using own_running [OF tm t s'(2)] w by auto
  next
    case True
    define s1 where "s1 = s\<lparr>bd_input_reads := Suc (bd_input_reads s), endstops := (endstops s)(e := (endstops s e)
      \<lparr>es_nextwake := tm_wake s (endstop_time e) + es_rest_time (endstops s e), es_func := ES_oversample\<rparr>)\<rparr>"
    have e1: "endstop_timer e s = endstop_oversample_event e s1"
      unfolding ev using True by (simp add: event_cases s1_def Let_def)
    have "timers b us s1" using tm by (subst timers_cong [of s1 s]) (simp_all add: s1_def)
    moreover have "timer_list s1 = endstop_time e" "es_ts (endstops s1 e) = Some ts" "trigger_ready b ts s1"
      using t ts by (simp_all add: s1_def)
    ultimately show ?thesis using oversample_running [of b us s1 e ts] w unfolding e1 by simp
  qed
qed

text \<open>What the timer at the head of the list needs before it is dispatched.\<close>

definition callback_ready :: "u32 \<Rightarrow> nat \<Rightarrow> nat \<Rightarrow> 'a endstop_s_scheme \<Rightarrow> bool" where
  "callback_ready b i k s \<longleftrightarrow> (case oid_type_of i s of None \<Rightarrow> False | Some ty \<Rightarrow>
    if ty = ''stepper'' then k = 0 \<and> (\<exists>ns. stepper_ready i ns s)
    else if ty = ''trsync'' then k = 0 \<or> k = 1 \<and> trigger_ready b i s
    else ty = ''endstop'' \<and> k = 0 \<and> (\<exists>ts. es_ts (endstops s i) = Some ts \<and> trigger_ready b ts s))"

definition homing_ok :: "u32 \<Rightarrow> 'a endstop_s_scheme \<Rightarrow> bool" where
  "homing_ok b s \<longleftrightarrow> (\<forall>i k. timer_list s = T_obj i k \<longrightarrow> callback_ready b i k s \<and>
    (fst (homing_timer i k s) = Inr SF_RESCHEDULE \<longrightarrow>
     off b (tm_wake (snd (homing_timer i k s)) (T_obj i k)) < 2 ^ 31))"

lemma expire_running:
  assumes "trigger_ready b ts s" and "timer_list s = expire_time ts"
  shows "\<exists>s' rest. trsync_expire_event trsync_callback ts s = (Inr SF_DONE, s') \<and>
    running b (expire_time ts) rest SF_DONE s'"
  using trigger_running [OF assms, of "ts_expire_reason (trsyncs s ts)"]
  by (auto simp: trsync_expire_event_def fw_unfold)

text \<open>The two laws of the dispatcher, for each kind of callback.\<close>

definition callback_fine :: "u32 \<Rightarrow> nat \<Rightarrow> nat \<Rightarrow> ('a sched_s_scheme, sf) fw \<Rightarrow> 'a sched_s_scheme \<Rightarrow> bool" where
  "callback_fine b i k f s \<longleftrightarrow> fst (f s) \<noteq> Inl Stuck \<and>
    (\<forall>res s'. f s = (Inr res, s') \<longrightarrow> (\<exists>rest. running b (T_obj i k) rest res s'))"

lemma own_callback_fine:
  assumes tm: "timers b us s" and t: "timer_list s = T_obj i k" and ns: "fst (f s) \<noteq> Inl Stuck"
    and o: "keeps (own_timer (T_obj i k) s) f"
    and w: "fst (f s) = Inr SF_RESCHEDULE \<Longrightarrow> off b (tm_wake (snd (f s)) (T_obj i k)) < 2 ^ 31"
  shows "callback_fine b i k f s"
  using own_running [OF tm t] keepsD [OF o own_timer_self] ns w unfolding callback_fine_def
  by (metis fst_conv snd_conv)

lemma callback_fineI: "f s = (Inr r, s') \<Longrightarrow> running b (T_obj i k) rest r s' \<Longrightarrow> callback_fine b i k f s"
  by (auto simp: callback_fine_def)

lemma report_not_stuck: "fst (trsync_report_event i s) \<noteq> Inl Stuck"
  by (simp add: trsync_report_event_def sched_wake_task_def sched_wake_tasks_def fw_unfold)

lemma homing_timer_cases:
  assumes "oid_type_of i s = Some ty"
  shows "homing_timer i k s =
    (if ty = ''stepper'' \<and> k = 0 then stepper_timer i s
     else if ty = ''trsync'' \<and> k = 0 then trsync_report_event i s
     else if ty = ''trsync'' \<and> k = 1 then trsync_expire_event trsync_callback i s
     else if ty = ''endstop'' \<and> k = 0 then endstop_timer i s else stuck s)"
  using assms by (simp add: homing_timer_def bnd_def gets_def)

lemma callback_fine_cong: "f s = g s \<Longrightarrow> callback_fine b i k f s = callback_fine b i k g s"
  by (simp add: callback_fine_def)

lemma homing_fine:
  assumes tm: "timers b us s" and t: "timer_list s = T_obj i k" and rd: "callback_ready b i k s"
    and w: "fst (homing_timer i k s) = Inr SF_RESCHEDULE \<Longrightarrow>
      off b (tm_wake (snd (homing_timer i k s)) (T_obj i k)) < 2 ^ 31"
  shows "callback_fine b i k (homing_timer i k) s"
proof -
  obtain ty where ty: "oid_type_of i s = Some ty" using rd by (auto simp: callback_ready_def split: option.splits)
  note hc = homing_timer_cases [OF ty, of k]
  consider (st) ns where "ty = ''stepper''" "k = 0" "stepper_ready i ns s" | (rep) "ty = ''trsync''" "k = 0"
    | (ex) "ty = ''trsync''" "k = 1" "trigger_ready b i s"
    | (es) ts where "ty = ''endstop''" "k = 0" "es_ts (endstops s i) = Some ts" "trigger_ready b ts s"
    using rd ty unfolding callback_ready_def
    by (cases "ty = ''stepper''"; cases "ty = ''trsync''") auto
  then show ?thesis
  proof cases
    case st
    then have f: "homing_timer i k s = stepper_timer i s" using hc by simp
    show ?thesis unfolding callback_fine_cong [of "homing_timer i k" s "stepper_timer i", OF f]
      by (rule own_callback_fine [where f = "stepper_timer i", OF tm t stepper_timer_not_stuck [OF st(3)]])
        (use w f st(2) stepper_timer_own in simp_all)
  next
    case rep
    then have f: "homing_timer i k s = trsync_report_event i s" using hc by simp
    show ?thesis unfolding callback_fine_cong [of "homing_timer i k" s "trsync_report_event i", OF f]
      by (rule own_callback_fine [where f = "trsync_report_event i", OF tm t report_not_stuck]) (use w f rep(2) report_event_own in simp_all)
  next
    case ex
    then have f: "homing_timer i k s = trsync_expire_event trsync_callback i s" using hc by simp
    have "timer_list s = expire_time i" using t ex(2) by simp
    from expire_running [OF ex(3) this]
    have "callback_fine b i 1 (trsync_expire_event trsync_callback i) s"
      by (elim exE conjE) (rule callback_fineI; assumption)
    then show ?thesis
      using callback_fine_cong [of "homing_timer i k" s "trsync_expire_event trsync_callback i", OF f] ex(2)
      by simp
  next
    case es
    then have f: "homing_timer i k s = endstop_timer i s" using hc by simp
    have t0: "timer_list s = endstop_time i" using t es(2) by simp
    have "\<exists>r s' rest. endstop_timer i s = (Inr r, s') \<and> running b (endstop_time i) rest r s'"
      by (rule endstop_running [OF tm t0 es(3,4)]) (use w f es(2) in simp)
    then have "callback_fine b i 0 (endstop_timer i) s"
      by (elim exE conjE) (rule callback_fineI; assumption)
    then show ?thesis
      using callback_fine_cong [of "homing_timer i k" s "endstop_timer i", OF f] es(2) by simp
  qed
qed

interpretation homing: timer_callbacks homing_timer "homing_ok b" b for b
proof unfold_locales
  fix us i k and s :: "'a endstop_s_scheme"
  assume tm: "timers b us s" and ok: "homing_ok b s" and t: "timer_list s = T_obj i k"
  have "callback_fine b i k (homing_timer i k) s"
    by (rule homing_fine [OF tm t]) (use ok t in \<open>simp_all add: homing_ok_def\<close>)
  then show "fst (homing_timer i k s) \<noteq> Inl Stuck"
    and "\<And>res s'. homing_timer i k s = (Inr res, s') \<Longrightarrow> \<exists>rest. running b (T_obj i k) rest res s'"
    by (simp_all add: callback_fine_def)
qed

section \<open>Properties\<close>

lemma done_trigger:
  assumes "endstop_timer e s = (Inr SF_DONE, s')"
  shows "\<exists>ts n es. es_ts (endstops s e) = Some ts \<and>
    trsync_do_trigger trsync_callback ts (es_trigger_reason (endstops s e))
      (s\<lparr>bd_input_reads := n, endstops := es\<rparr>) = (Inr (), s')"
proof -
  have o: "\<exists>ts. es_ts (endstops s1 e) = Some ts \<and>
      trsync_do_trigger trsync_callback ts (es_trigger_reason (endstops s1 e))
        (s1\<lparr>bd_input_reads := Suc (bd_input_reads s1)\<rparr>) = (Inr (), s')"
    if "endstop_oversample_event e s1 = (Inr SF_DONE, s')" for s1
    using that unfolding oversample_event_cases
    by (auto simp: fw_unfold split: if_splits option.splits prod.splits sum.splits)
  show ?thesis
  proof (cases "es_func (endstops s e)")
    case ES_oversample
    then have "endstop_oversample_event e s = (Inr SF_DONE, s')"
      using assms by (simp add: endstop_timer_def fw_unfold)
    from o [OF this] obtain ts where "es_ts (endstops s e) = Some ts"
      "trsync_do_trigger trsync_callback ts (es_trigger_reason (endstops s e))
        (s\<lparr>bd_input_reads := Suc (bd_input_reads s), endstops := endstops s\<rparr>) = (Inr (), s')" by auto
    then show ?thesis by blast
  next
    case ES_event
    then have "endstop_event e s = (Inr SF_DONE, s')" using assms by (simp add: endstop_timer_def fw_unfold)
    then have "endstop_oversample_event e (s\<lparr>bd_input_reads := Suc (bd_input_reads s), endstops := (endstops s)(e :=
      (endstops s e)\<lparr>es_nextwake := tm_wake s (endstop_time e) + es_rest_time (endstops s e),
       es_func := ES_oversample\<rparr>)\<rparr>) = (Inr SF_DONE, s')"
      by (simp add: event_cases Let_def split: if_splits)
    from o [OF this] obtain ts es where "es_ts (endstops s e) = Some ts"
      "trsync_do_trigger trsync_callback ts (es_trigger_reason (endstops s e))
        (s\<lparr>endstops := es, bd_input_reads := Suc (Suc (bd_input_reads s))\<rparr>) = (Inr (), s')" by auto
    moreover have "s\<lparr>endstops := es, bd_input_reads := n\<rparr> = s\<lparr>bd_input_reads := n, endstops := es\<rparr>" for n
      by simp
    ultimately show ?thesis by metis
  qed
qed

text \<open>
  C4: an end stop triggers only after enough matching samples.  Homing with a sample count \<open>n\<close>
  starts in the search state; whatever the pin does in between, when an event ends the sampling by
  firing the trigger, the last \<open>n + 1\<close> reads of the pin all matched the wanted level, without a
  mismatch among them.
\<close>

theorem endstop_needs_samples:
  assumes "0 < n" and "n < 256" and "es_func (endstops s e) = ES_event"
    and "es_sample_count (endstops s e) = of_nat n" and "es_trigger_count (endstops s e) = of_nat n"
    and "sampling e s s1" and "endstop_timer e s1 = (Inr SF_DONE, s2)"
    and "R = (if es_func (endstops s1 e) = ES_event then 2 else 1) + bd_input_reads s1"
  shows "Suc n \<le> R \<and> (\<forall>i \<le> n. \<not> no_match (es_flags (endstops s1 e))
    (bd_inputs s1 (es_pin (endstops s1 e)) (R - Suc i)))"
proof -
  have "samples_ok e n s" using assms(3-5) by (simp add: samples_ok_def)
  then have "samples_ok e n s1" using sampling_ok [OF assms(6,1,2)] by simp
  from sample_step [OF assms(1,2) this assms(7,8)] show ?thesis by (simp add: match_at_def)
qed

definition example_endstop_s :: "endstop \<Rightarrow> endstop_s" where
  "example_endstop_s x = stepper_s.extend (queued_stepper_s True SF_SINGLE_SCHED)
    \<lparr>endstops = (\<lambda>_. zero_endstop)(7 := x)\<rparr>"

lemmas example_endstop_defs = example_endstop_s_def queued_defs stepper_s.defs zero_endstop_def

theorem endstop_needs_samples_witness:
  "let s = example_endstop_s (zero_endstop\<lparr>es_sample_count := 1, es_trigger_count := 1, es_ts := Some 5\<rparr>) in
    fst (endstop_timer 7 s) = Inr SF_DONE \<and> (\<forall>i \<le> (1 :: nat). \<not> no_match 0 (bd_inputs s 0 (2 - Suc i)))"
proof -
  define s where "s = example_endstop_s (zero_endstop\<lparr>es_sample_count := 1, es_trigger_count := 1, es_ts := Some 5\<rparr>)"
  have s: "es_func (endstops s 7) = ES_event" "es_sample_count (endstops s 7) = of_nat 1"
    "es_trigger_count (endstops s 7) = of_nat 1" "es_ts (endstops s 7) = Some 5" "es_flags (endstops s 7) = 0"
    "es_pin (endstops s 7) = 0" "bd_inputs s = (\<lambda>_ _. 0)" "bd_input_reads s = 0" "trsyncs s = (\<lambda>_. zero_trsync)"
    by (simp_all add: s_def example_endstop_defs)
  have "fst (endstop_timer 7 s) = Inr SF_DONE"
    using s by (simp add: endstop_timer_def fw_unfold event_cases oversample_event_cases match_at_def no_match_def
        trsync_do_trigger_def zero_trsync_def Let_def)
  then obtain s2 where "endstop_timer 7 s = (Inr SF_DONE, s2)" by (metis prod.collapse)
  from endstop_needs_samples [OF _ _ s(1-3) sampling.start this refl] s(5-8) this show ?thesis
    by (simp add: s_def [symmetric])
qed

text \<open>
  An end stop that fires stops the motors.  When a dispatched end stop event fires a trigger
  that can still fire, every stepper registered with that trigger is stopped when the event
  returns, the trigger holds the end stop's reason, and it will be reported to the host.
\<close>

theorem endstop_stops_steppers:
  assumes "endstop_timer e s = (Inr SF_DONE, s')" and "es_ts (endstops s e) = Some ts"
    and "stop_inv b (Some (endstop_time e)) s" and "sig_rep s ts ls" and "length ls \<le> 255"
    and "e \<notin> set ls" and "ts_flags (trsyncs s ts) AND TSF_CAN_TRIGGER \<noteq> 0"
  shows "(\<forall>st\<in>set ls. stopped b st s') \<and> ts_trigger_reason (trsyncs s' ts) = es_trigger_reason (endstops s e) \<and>
    ts_flags (trsyncs s' ts) AND TSF_CAN_TRIGGER = 0 \<and> task_wakes s' ''trsync_wake'' = 1"
proof -
  obtain n es where tr: "trsync_do_trigger trsync_callback ts (es_trigger_reason (endstops s e))
      (s\<lparr>bd_input_reads := n, endstops := es\<rparr>) = (Inr (), s')"
    using done_trigger [OF assms(1)] assms(2) by auto
  define s1 where "s1 = s\<lparr>bd_input_reads := n, endstops := es\<rparr>"
  have t: "timers b us s1 = timers b us s" for us by (rule timers_cong) (simp_all add: s1_def)
  have "stop_inv b (Some (endstop_time e)) s1"
    using assms(3) t by (simp add: stop_inv_def s1_def shared_out_def free_rep_def mq_rep_def cong: if_cong)
  moreover have "sig_rep s1 ts ls" using assms(4) by (simp add: s1_def sig_rep_def cong: if_cong)
  moreover have "\<forall>x\<in>set ls. Some (endstop_time e) \<noteq> Some (step_time x)" using assms(6) by auto
  ultimately obtain s2 where s2: "trsync_do_trigger trsync_callback ts (es_trigger_reason (endstops s e)) s1 = (Inr (), s2)"
     "\<forall>x\<in>set ls. stopped b x s2" "task_wakes s2 ''trsync_wake'' = 1"
     "trsyncs s2 ts = (trsyncs s ts)\<lparr>ts_signals := None, ts_trigger_reason := es_trigger_reason (endstops s e),
         ts_flags := (ts_flags (trsyncs s ts) AND NOT TSF_CAN_TRIGGER) OR TSF_REPORT\<rparr>"
    using stop.do_trigger_run [OF _ _ _ assms(5), of b "Some (endstop_time e)" s1 ts "es_trigger_reason (endstops s e)"] assms(7)
    by (auto simp: s1_def)
  have "s2 = s'" using s2(1) tr by (simp add: s1_def)
  then show ?thesis using s2(2-4) trigger_flags(1) by simp
qed

theorem endstop_stops_steppers_witness:
  "\<exists>s'. endstop_timer 7 ((example_endstop_s (zero_endstop\<lparr>es_sample_count := 1, es_trigger_count := 1,
      es_ts := Some 5, es_trigger_reason := 4\<rparr>))
      \<lparr>trsyncs := (\<lambda>_. zero_trsync\<lparr>ts_flags := TSF_CAN_TRIGGER, ts_signals := Some 2\<rparr>),
       sig_func := (\<lambda>_. Some CB_stepper_stop), timer_list := endstop_time 7,
       tm_next := (\<lambda>_. None)(endstop_time 7 := Some T_periodic, T_periodic := Some T_sentinel)\<rparr>) = (Inr SF_DONE, s') \<and>
    stopped 0 2 s' \<and> ts_trigger_reason (trsyncs s' 5) = 4"
proof -
  define s where "s = (example_endstop_s (zero_endstop\<lparr>es_sample_count := 1, es_trigger_count := 1,
      es_ts := Some 5, es_trigger_reason := 4\<rparr>))
      \<lparr>trsyncs := (\<lambda>_. zero_trsync\<lparr>ts_flags := TSF_CAN_TRIGGER, ts_signals := Some 2\<rparr>),
       sig_func := (\<lambda>_. Some CB_stepper_stop), timer_list := endstop_time 7,
       tm_next := (\<lambda>_. None)(endstop_time 7 := Some T_periodic, T_periodic := Some T_sentinel)\<rparr>"
  have f: "es_func (endstops s 7) = ES_event" "es_trigger_count (endstops s 7) = 1"
    "es_ts (endstops s 7) = Some 5" "es_flags (endstops s 7) = 0" "bd_inputs s = (\<lambda>_ _. 0)"
    "timer_list s = endstop_time 7" "es_trigger_reason (endstops s 7) = 4"
    by (simp_all add: s_def example_endstop_defs)
  have tm: "timers 0 [endstop_time 7, T_periodic, T_sentinel] s"
    by (simp add: timers_def queue_ok_def far_ok_def key_def off_def s_def example_endstop_defs)
  have "shared_out [] ((\<lambda>_. [])(2 := [8, 24])) s"
    by (auto simp: shared_out_def free_rep_def mq_rep_def s_def example_endstop_defs)
  then have inv: "stop_inv 0 (Some (endstop_time 7)) s" using tm f(6) unfolding stop_inv_def by auto
  have sg: "sig_rep s 5 [2]" "length [2 :: nat] \<le> 255" "7 \<notin> set [2 :: nat]"
    "ts_flags (trsyncs s 5) AND TSF_CAN_TRIGGER \<noteq> 0"
    by (simp_all add: s_def sig_rep_def TSF_CAN_TRIGGER_def) (simp add: example_endstop_defs)
  have tr: "trigger_ready 0 5 s"
    using inv sg f(6) unfolding trigger_ready_def by (intro conjI exI [of _ "[2]"]) simp_all
  have m: "match_at 7 s i" for i using f by (simp add: match_at_def no_match_def)
  have "fst (endstop_timer 7 s) \<noteq> Inr SF_RESCHEDULE"
    using m [unfolded match_at_def] f
    by (simp add: endstop_timer_def fw_unfold event_cases oversample_event_cases match_at_def Let_def
        split: prod.split sum.split)
  with endstop_running [OF tm f(6,3) tr] obtain s' where s': "endstop_timer 7 s = (Inr SF_DONE, s')"
    by (metis fst_conv sf.exhaust)
  from endstop_stops_steppers [OF this f(3) inv sg] f(7) this show ?thesis unfolding s_def [symmetric] by auto
qed

text \<open>
  C5: dispatching keeps the timer list in order.  In a homing move, with steppers, triggers and end
  stops, one dispatch of the timer at the head of a well-formed list leaves a well-formed list,
  sorted by due time, with the dispatched timer removed or moved to its new place, and returns the
  due time of the new head; it never follows a null pointer and its searches end, unless the
  callback shuts the machine down.
\<close>

theorem homing_dispatch_keeps_order:
  assumes "timers b ts s" and "homing_ok b s"
    and "timer_list s = T_periodic \<Longrightarrow> off b (tm_wake s T_periodic + timer_from_us 100000 s) < 2 ^ 31"
  shows "case sched_timer_dispatch homing_timer s of
      (Inr next, s') \<Rightarrow> (\<exists>ts'. timers b ts' s') \<and> next = tm_wake s' (timer_list s')
    | (Inl stop, s') \<Rightarrow> stop \<noteq> Stuck"
  by (rule homing.dispatch_queue [OF assms])

theorem homing_dispatch_keeps_order_witness:
  "case sched_timer_dispatch homing_timer ((example_endstop_s (zero_endstop\<lparr>es_sample_count := 4,
      es_trigger_count := 4, es_ts := Some 5, es_flags := ESF_PIN_HIGH, es_rest_time := 1000\<rparr>))
      \<lparr>timer_list := endstop_time 7, oids := Some ((replicate 8 None)[7 := Some ''endstop'']),
       tm_next := (\<lambda>_. None)(endstop_time 7 := Some T_periodic, T_periodic := Some T_sentinel)\<rparr>) of
      (Inr next, s') \<Rightarrow> (\<exists>ts'. timers 0 ts' s') \<and> next = tm_wake s' (timer_list s')
    | (Inl stop, s') \<Rightarrow> stop \<noteq> Stuck"
proof -
  define s where "s = (example_endstop_s (zero_endstop\<lparr>es_sample_count := 4,
      es_trigger_count := 4, es_ts := Some 5, es_flags := ESF_PIN_HIGH, es_rest_time := 1000\<rparr>))
      \<lparr>timer_list := endstop_time 7, oids := Some ((replicate 8 None)[7 := Some ''endstop'']),
       tm_next := (\<lambda>_. None)(endstop_time 7 := Some T_periodic, T_periodic := Some T_sentinel)\<rparr>"
  have f: "timer_list s = endstop_time 7" "oid_type_of 7 s = Some ''endstop''" "es_ts (endstops s 7) = Some 5"
    "es_func (endstops s 7) = ES_event" "\<not> match_at 7 s 0" "bd_input_reads s = 0"
    "tm_wake s (endstop_time 7) = 0" "es_rest_time (endstops s 7) = 1000"
    by (simp_all add: s_def example_endstop_defs oid_type_of_def match_at_def no_match_def ESF_PIN_HIGH_def)
  have tm: "timers 0 [endstop_time 7, T_periodic, T_sentinel] s"
    by (simp add: timers_def queue_ok_def far_ok_def key_def off_def s_def example_endstop_defs)
  have "shared_out [] ((\<lambda>_. [])(2 := [8, 24])) s"
    by (auto simp: shared_out_def free_rep_def mq_rep_def s_def example_endstop_defs)
  then have "stop_inv 0 (Some (timer_list s)) s" using tm unfolding stop_inv_def by auto
  moreover have "sig_rep s 5 []" by (simp add: s_def sig_rep_def example_endstop_defs zero_trsync_def)
  ultimately have tr: "trigger_ready 0 5 s"
    unfolding trigger_ready_def by (intro conjI exI [of _ "[]"]) auto
  have "off 0 (tm_wake (snd (endstop_timer 7 s)) (endstop_time 7)) < 2 ^ 31"
    using f by (simp add: endstop_timer_def fw_unfold event_cases Let_def off_def)
  then have "homing_ok 0 s"
    using f tr homing_timer_cases [OF f(2), of 0] by (simp add: homing_ok_def callback_ready_def)
  from homing_dispatch_keeps_order [OF tm this] f(1) show ?thesis unfolding s_def [symmetric] by simp
qed

end
