(* ===== verification/Gpiocmds.thy ===== *)
theory Gpiocmds
  imports Dispatch
begin

text \<open>
  Digital outputs (\<^verbatim>\<open>src/gpiocmds.c\<close>): queued pin updates, software PWM and the
  \<^verbatim>\<open>max_duration\<close> limit that keeps a heater from staying on when the host stops sending.
  The timer of the output with id \<open>oid\<close> is \<open>T_obj oid 0\<close>.
\<close>

section \<open>State\<close>

datatype digital_func = DO_null | DO_load | DO_toggle

record digital_out_s =
  do_func :: digital_func
  do_on_duration :: u32
  do_off_duration :: u32
  do_end_time :: u32
  do_pin :: u32
  do_max_duration :: u32
  do_cycle_time :: u32
  do_mq :: move_queue_head
  do_flags :: u8

definition zero_digital_out :: digital_out_s where
  "zero_digital_out = \<lparr>do_func = DO_null, do_on_duration = 0, do_off_duration = 0, do_end_time = 0,
    do_pin = 0, do_max_duration = 0, do_cycle_time = 0, do_mq = \<lparr>mq_first = None, mq_last = None\<rparr>,
    do_flags = 0\<rparr>"

record gpio_s = basecmd_s +
  digital_outs :: "nat \<Rightarrow> digital_out_s"

definition DF_ON :: u8 where "DF_ON = 1"
definition DF_TOGGLING :: u8 where "DF_TOGGLING = 2"
definition DF_CHECK_END :: u8 where "DF_CHECK_END = 4"
definition DF_DEFAULT_ON :: u8 where "DF_DEFAULT_ON = 16"

lemmas digital_flags = DF_ON_def DF_TOGGLING_def DF_CHECK_END_def DF_DEFAULT_ON_def

abbreviation digital_upd :: "nat \<Rightarrow> (digital_out_s \<Rightarrow> digital_out_s) \<Rightarrow> ('a gpio_s_scheme, unit) fw" where
  "digital_upd i f \<equiv> upd (\<lambda>s. s\<lparr>digital_outs := (digital_outs s)(i := f (digital_outs s i))\<rparr>)"

abbreviation digital_time :: "nat \<Rightarrow> timer_id" where "digital_time i \<equiv> T_obj i 0"

section \<open>Timer events\<close>

text \<open>The software PWM toggle.\<close>

definition digital_toggle_event :: "nat \<Rightarrow> ('a gpio_s_scheme, sf) fw" where
  "digital_toggle_event i =
    bnd (gets (\<lambda>s. do_pin (digital_outs s i))) (\<lambda>pin.
    thn (gpio_out_toggle pin)
    (thn (digital_upd i (\<lambda>d. d\<lparr>do_flags := do_flags d XOR DF_ON\<rparr>))
    (bnd (gets (\<lambda>s. digital_outs s i)) (\<lambda>d.
    bnd (gets (\<lambda>s. tm_wake s (digital_time i) +
        (if do_flags d AND DF_ON \<noteq> 0 then do_on_duration d else do_off_duration d))) (\<lambda>waketime.
    if do_flags d AND DF_CHECK_END \<noteq> 0 \<and> \<not> timer_is_before waketime (do_end_time d) then
      thn (digital_upd i (\<lambda>d. d\<lparr>do_func := DO_load\<rparr>))
      (thn (upd (set_wake (digital_time i) (do_end_time d))) (ret SF_RESCHEDULE))
    else
      thn (upd (set_wake (digital_time i) waketime)) (ret SF_RESCHEDULE))))))"

text \<open>
  The first part of \<^verbatim>\<open>digital_load_event\<close>, on values: the flags and the end time that
  follow from the new \<^verbatim>\<open>on_duration\<close>, before the next queued update is considered.
\<close>

definition load_flags :: "digital_out_s \<Rightarrow> u32 \<Rightarrow> u32 \<Rightarrow> u32 \<times> u8" where
  "load_flags d waketime on_duration =
    (let flags = (if on_duration \<noteq> 0 then DF_ON else 0) in
     if flags = 0 \<or> on_duration \<ge> do_cycle_time d then
       (if (flags = 0) \<noteq> (do_flags d AND DF_DEFAULT_ON = 0) \<and> do_max_duration d \<noteq> 0
        then (waketime + do_max_duration d, flags OR DF_CHECK_END) else (0, flags))
     else
       (let flags = flags OR DF_TOGGLING in
        if do_max_duration d \<noteq> 0 then (waketime + do_max_duration d, flags OR DF_CHECK_END)
        else (0, flags)))"

text \<open>The last part: the next event of the timer.\<close>

definition load_schedule :: "nat \<Rightarrow> u32 \<Rightarrow> u32 \<Rightarrow> u8 \<Rightarrow> ('a gpio_s_scheme, sf) fw" where
  "load_schedule i on_duration end_time flags =
    (if flags AND DF_TOGGLING = 0 then
       (if flags AND DF_CHECK_END = 0 then ret SF_DONE
        else thn (upd (set_wake (digital_time i) end_time)) (ret SF_RESCHEDULE))
     else
       bnd (gets (\<lambda>s. tm_wake s (digital_time i) + on_duration)) (\<lambda>waketime.
       if flags AND DF_CHECK_END \<noteq> 0 \<and> \<not> timer_is_before waketime end_time then
         thn (upd (set_wake (digital_time i) end_time)) (ret SF_RESCHEDULE)
       else
         thn (digital_upd i (\<lambda>d. d\<lparr>do_func := DO_toggle\<rparr>))
         (thn (upd (set_wake (digital_time i) waketime))
         (thn (digital_upd i (\<lambda>d. d\<lparr>do_on_duration := on_duration,
             do_off_duration := do_cycle_time d - on_duration\<rparr>))
         (ret SF_RESCHEDULE)))))"

definition digital_load_event :: "nat \<Rightarrow> ('a gpio_s_scheme, sf) fw" where
  "digital_load_event i =
    bnd (gets (\<lambda>s. do_mq (digital_outs s i))) (\<lambda>mq.
    thn (shutdown_if (move_queue_empty mq) ''Missed scheduling of next digital out event'')
    (bnd (move_queue_pop mq) (\<lambda>(mq', mn).
    thn (digital_upd i (\<lambda>d. d\<lparr>do_mq := mq'\<rparr>))
    (bnd (gets (\<lambda>s. mv_data s mn)) (\<lambda>m. case m of
      MD_digital _ on_duration \<Rightarrow>
        bnd (gets (\<lambda>s. do_pin (digital_outs s i))) (\<lambda>pin.
        thn (gpio_out_write pin (on_duration \<noteq> 0))
        (thn (move_free mn)
        (bnd (gets (\<lambda>s. load_flags (digital_outs s i) (tm_wake s (digital_time i)) on_duration))
          (\<lambda>(end_time, flags).
        bnd (if move_queue_empty mq' then ret (end_time, flags)
             else (case move_queue_first mq' of
                 None \<Rightarrow> stuck
               | Some nn \<Rightarrow> bnd (gets (\<lambda>s. mv_data s nn)) (\<lambda>nm. case nm of
                   MD_digital wake _ \<Rightarrow>
                     thn (shutdown_if (flags AND DF_CHECK_END \<noteq> 0 \<and> timer_is_before end_time wake)
                       ''Scheduled digital out event will exceed max_duration'')
                     (ret (wake, flags OR DF_CHECK_END))
                 | _ \<Rightarrow> stuck))) (\<lambda>(end_time, flags).
        thn (digital_upd i (\<lambda>d. d\<lparr>do_end_time := end_time,
          do_flags := flags OR (do_flags d AND DF_DEFAULT_ON)\<rparr>))
        (load_schedule i on_duration end_time flags))))))
    | _ \<Rightarrow> stuck)))))"

text \<open>The timer callback: \<^verbatim>\<open>d->timer.func\<close>.\<close>

definition digital_timer :: "nat \<Rightarrow> ('a gpio_s_scheme, sf) fw" where
  "digital_timer i =
    bnd (gets (\<lambda>s. do_func (digital_outs s i))) (\<lambda>f. case f of
      DO_null \<Rightarrow> stuck | DO_load \<Rightarrow> digital_load_event i | DO_toggle \<Rightarrow> digital_toggle_event i)"

section \<open>Commands\<close>

definition command_config_digital_out :: "nat \<Rightarrow> nat \<Rightarrow> u32 list \<Rightarrow> ('a gpio_s_scheme, unit) fw" where
  "command_config_digital_out sizeof_d sizeof_move args = (case args of
      [oid, a_pin, a_value, default_value, max_duration] \<Rightarrow>
        bnd (gpio_out_setup a_pin (a_value \<noteq> 0)) (\<lambda>pin.
        bnd (oid_alloc (ucast oid) ''digital_out'' sizeof_d) (\<lambda>i.
        thn (upd (\<lambda>s. s\<lparr>digital_outs := (digital_outs s)(i := zero_digital_out\<lparr>do_pin := pin,
          do_flags := (if a_value \<noteq> 0 then DF_ON else 0) OR (if default_value \<noteq> 0 then DF_DEFAULT_ON else 0),
          do_max_duration := max_duration\<rparr>)\<rparr>))
        (bnd (move_queue_setup sizeof_move) (\<lambda>mq.
        digital_upd i (\<lambda>d. d\<lparr>do_mq := mq\<rparr>)))))
    | _ \<Rightarrow> stuck)"

definition command_set_digital_out_pwm_cycle :: "u32 list \<Rightarrow> ('a gpio_s_scheme, unit) fw" where
  "command_set_digital_out_pwm_cycle args = (case args of
      [oid, cycle_ticks] \<Rightarrow>
        bnd (oid_lookup (ucast oid) ''digital_out'') (\<lambda>i.
        bnd (gets (\<lambda>s. do_mq (digital_outs s i))) (\<lambda>mq.
        thn (shutdown_if (\<not> move_queue_empty mq)
          ''Can not set soft pwm cycle ticks while updates pending'')
        (digital_upd i (\<lambda>d. d\<lparr>do_cycle_time := cycle_ticks\<rparr>))))
    | _ \<Rightarrow> stuck)"

definition command_queue_digital_out :: "u32 list \<Rightarrow> ('a gpio_s_scheme, unit) fw" where
  "command_queue_digital_out args = (case args of
      [oid, clock, on_ticks] \<Rightarrow>
        bnd (oid_lookup (ucast oid) ''digital_out'') (\<lambda>i.
        bnd move_alloc (\<lambda>m.
        thn (upd (\<lambda>s. s\<lparr>mv_data := (mv_data s)(m := MD_digital clock on_ticks)\<rparr>))
        (bnd (gets (\<lambda>s. do_mq (digital_outs s i))) (\<lambda>mq.
        bnd (move_queue_push m mq) (\<lambda>(mq', first_on_queue).
        thn (digital_upd i (\<lambda>d. d\<lparr>do_mq := mq'\<rparr>))
        (if \<not> first_on_queue then ret ()
         else
           bnd (gets (\<lambda>s. digital_outs s i)) (\<lambda>d.
           let flags = do_flags d in
           thn (shutdown_if (flags AND DF_CHECK_END \<noteq> 0 \<and> timer_is_before (do_end_time d) clock)
             ''Scheduled digital out event will exceed max_duration'')
           (thn (digital_upd i (\<lambda>d. d\<lparr>do_end_time := clock, do_flags := flags OR DF_CHECK_END\<rparr>))
           (bnd (gets (\<lambda>s. flags AND DF_TOGGLING \<noteq> 0 \<and> timer_is_before (tm_wake s (digital_time i)) clock))
             (\<lambda>later. if later then ret ()
              else
                thn (sched_del_timer (digital_time i))
                (thn (upd (set_wake (digital_time i) clock))
                (thn (digital_upd i (\<lambda>d. d\<lparr>do_func := DO_load\<rparr>))
                (sched_add_timer (digital_time i))))))))))))))
    | _ \<Rightarrow> stuck)"

definition command_update_digital_out :: "u32 list \<Rightarrow> ('a gpio_s_scheme, unit) fw" where
  "command_update_digital_out args = (case args of
      [oid, a_value] \<Rightarrow>
        bnd (oid_lookup (ucast oid) ''digital_out'') (\<lambda>i.
        thn (sched_del_timer (digital_time i))
        (bnd (gets (\<lambda>s. digital_outs s i)) (\<lambda>d.
        thn (shutdown_if (\<not> move_queue_empty (do_mq d)) ''update_digital_out not valid with active queue'')
        (let on = ((ucast a_value :: u8) \<noteq> 0);
             on_flag = (if on then DF_ON else 0);
             flags = do_flags d in
        thn (gpio_out_write (do_pin d) on)
        (if on \<noteq> (flags AND DF_DEFAULT_ON \<noteq> 0) \<and> do_max_duration d \<noteq> 0 then
           bnd timer_read_time (\<lambda>now.
           thn (digital_upd i (\<lambda>d. d\<lparr>do_end_time := now + do_max_duration d\<rparr>))
           (thn (upd (set_wake (digital_time i) (now + do_max_duration d)))
           (thn (digital_upd i (\<lambda>d. d\<lparr>do_func := DO_load,
             do_flags := (flags AND DF_DEFAULT_ON) OR on_flag OR DF_CHECK_END\<rparr>))
           (sched_add_timer (digital_time i)))))
         else digital_upd i (\<lambda>d. d\<lparr>do_flags := (flags AND DF_DEFAULT_ON) OR on_flag\<rparr>))))))
    | _ \<Rightarrow> stuck)"

definition digital_out_shutdown :: "('a gpio_s_scheme, unit) fw" where
  "digital_out_shutdown = foreach_oid ''digital_out'' (\<lambda>i.
    bnd (gets (\<lambda>s. digital_outs s i)) (\<lambda>d.
    thn (gpio_out_write (do_pin d) (do_flags d AND DF_DEFAULT_ON \<noteq> 0))
    (thn (digital_upd i (\<lambda>d. d\<lparr>do_flags :=
        (if do_flags d AND DF_DEFAULT_ON \<noteq> 0 then DF_ON OR DF_DEFAULT_ON else 0)\<rparr>))
    (digital_upd i (\<lambda>d. d\<lparr>do_mq := move_queue_clear (do_mq d)\<rparr>)))))"

definition command_set_digital_out :: "u32 list \<Rightarrow> ('a gpio_s_scheme, unit) fw" where
  "command_set_digital_out args = (case args of
      [pin, val] \<Rightarrow> thn (gpio_out_setup pin (val \<noteq> 0)) (ret ())
    | _ \<Rightarrow> stuck)"

section \<open>The limit on the time away from the default\<close>

lemma and_or_default:
  "(f OR (x AND DF_DEFAULT_ON)) AND DF_CHECK_END = f AND DF_CHECK_END"
  "(f OR (x AND DF_DEFAULT_ON)) AND DF_TOGGLING = f AND DF_TOGGLING"
  "(f OR (x AND DF_DEFAULT_ON)) AND DF_ON = f AND DF_ON"
  by (simp_all add: digital_flags bit.conj_disj_distrib2 and.assoc)

lemma xor_on:
  "(f XOR DF_ON) AND DF_CHECK_END = f AND DF_CHECK_END"
  by (simp add: digital_flags bit.conj_xor_distrib2)

text \<open>
  The timer of the output is due at the end time, to load the next update, or before it.
\<close>

definition guarded :: "nat \<Rightarrow> 'a gpio_s_scheme \<Rightarrow> bool" where
  "guarded i s \<longleftrightarrow> (let d = digital_outs s i; w = tm_wake s (digital_time i) in
    do_flags d AND DF_CHECK_END \<noteq> 0 \<and>
    (do_func d = DO_load \<and> w = do_end_time d \<or> do_func d = DO_toggle \<and> timer_is_before w (do_end_time d)))"

lemma load_flags_cases:
  assumes "load_flags d w on = (e, f)"
  shows "f AND DF_CHECK_END \<noteq> 0 \<longleftrightarrow> do_max_duration d \<noteq> 0 \<and>
      (f AND DF_TOGGLING \<noteq> 0 \<or> (on \<noteq> 0) \<noteq> (do_flags d AND DF_DEFAULT_ON \<noteq> 0))"
    and "f AND DF_CHECK_END \<noteq> 0 \<Longrightarrow> e = w + do_max_duration d"
    and "f AND DF_TOGGLING \<noteq> 0 \<longleftrightarrow> on \<noteq> 0 \<and> on < do_cycle_time d"
  using assms by (auto simp: load_flags_def digital_flags Let_def split: if_splits)

lemma toggle_guarded:
  assumes g: "guarded i s" and f: "do_func (digital_outs s i) = DO_toggle"
  shows "\<exists>s'. digital_timer i s = (Inr SF_RESCHEDULE, s') \<and> guarded i s' \<and>
    do_end_time (digital_outs s' i) = do_end_time (digital_outs s i) \<and>
    do_mq (digital_outs s' i) = do_mq (digital_outs s i) \<and> mv_next s' = mv_next s"
proof -
  have c: "do_flags (digital_outs s i) AND DF_CHECK_END \<noteq> 0" using g by (simp add: guarded_def Let_def)
  show ?thesis using c f
    by (auto simp: digital_timer_def digital_toggle_event_def fw_unfold gpio_out_toggle_def guarded_def
        Let_def xor_on)
qed

lemma load_schedule_guarded:
  assumes "flags AND DF_CHECK_END \<noteq> 0" and "do_func (digital_outs s i) = DO_load"
    and "do_end_time (digital_outs s i) = e" and "do_flags (digital_outs s i) AND DF_CHECK_END \<noteq> 0"
  shows "\<exists>s'. load_schedule i on e flags s = (Inr SF_RESCHEDULE, s') \<and> guarded i s' \<and>
    do_end_time (digital_outs s' i) = e"
  using assms by (auto simp: load_schedule_def fw_unfold guarded_def Let_def)

text \<open>
  A load event that returns: it took the head of the queue and, when an end time applies, left the
  output guarded by it.
\<close>

lemma load_event_guarded:
  assumes ev: "digital_load_event i s = (Inr r, s')" and q: "mq_rep s (do_mq (digital_outs s i)) (m # ns)"
    and m: "mv_data s m = MD_digital w on" and fn: "do_func (digital_outs s i) = DO_load"
    and d: "d = digital_outs s i" and t: "t = tm_wake s (digital_time i)"
    and lim: "do_max_duration d \<noteq> 0" "on \<noteq> 0 \<and> on < do_cycle_time d \<or> (on \<noteq> 0) \<noteq> (do_flags d AND DF_DEFAULT_ON \<noteq> 0)"
  shows "r = SF_RESCHEDULE \<and> guarded i s' \<and> \<not> timer_is_before (t + do_max_duration d) (do_end_time (digital_outs s' i))"
proof -
  obtain e f where lf: "load_flags d t on = (e, f)" by fastforce
  have ce: "f AND DF_CHECK_END \<noteq> 0" "e = t + do_max_duration d"
    using load_flags_cases [OF lf] lim by auto
  have ce': "(f OR DF_CHECK_END) AND DF_CHECK_END \<noteq> 0"
    unfolding or_and_absorb by (simp add: DF_CHECK_END_def)
  obtain mq' where p: "move_queue_pop (do_mq d) s = (Inr (mq', m), s)" "mq_rep s mq' ns"
    using mq_pop_rep [OF q] d by blast
  have ne: "\<not> move_queue_empty (do_mq d)" using mq.empty_rep [OF q] d by simp
  define s1 where "s1 = s\<lparr>digital_outs := (digital_outs s)(i := d\<lparr>do_mq := mq'\<rparr>),
    bd_outputs := (bd_outputs s)(do_pin d := (on \<noteq> 0)), mv_next := (mv_next s)(m := move_free_list s),
    move_free_list := Some m\<rparr>"
  have "load_flags (d\<lparr>do_mq := mq'\<rparr>) t on = load_flags d t on" by (simp add: load_flags_def)
  then have lf1: "load_flags (d\<lparr>do_mq := mq'\<rparr>) t on = (e, f)" using lf by (simp only:)
  define fin where "fin = (\<lambda>e2 f2. thn (digital_upd i (\<lambda>d. d\<lparr>do_end_time := e2,
      do_flags := f2 OR (do_flags d AND DF_DEFAULT_ON)\<rparr>)) (load_schedule i on e2 f2) s1)"
  have fin: "\<exists>s'. fin e2 f2 = (Inr SF_RESCHEDULE, s') \<and> guarded i s' \<and> do_end_time (digital_outs s' i) = e2"
    if "f2 AND DF_CHECK_END \<noteq> 0" for e2 f2
    unfolding fin_def thn_run using that fn d
    by (simp add: bnd_def upd_def) (rule load_schedule_guarded; simp add: s1_def and_or_default)
  show ?thesis
  proof (cases ns)
    case Nil
    then have "move_queue_empty mq'" using mq.empty_rep [OF p(2)] by simp
    then have "digital_load_event i s = fin e f"
      using p ne m lf1 d t
      by (simp add: digital_load_event_def fw_unfold gpio_out_write_def move_free_def fin_def s1_def)
    then show ?thesis using fin [OF ce(1), of e] ev ce(2) by auto
  next
    case (Cons n ms)
    then have ne': "\<not> move_queue_empty mq'" "mq_first mq' = Some n"
      using mq.empty_rep [OF p(2)] p(2) by (auto simp: mq_rep_def)
    show ?thesis
    proof (cases "mv_data s n")
      case (MD_digital wake x)
      then have e: "digital_load_event i s = (if timer_is_before e wake
          then (Inl (Shut ''Scheduled digital out event will exceed max_duration''), s1)
          else fin wake (f OR DF_CHECK_END))"
        using p ne m lf1 d t ne' ce(1)
        by (simp add: digital_load_event_def fw_unfold gpio_out_write_def move_free_def fin_def s1_def
            move_queue_first_def)
      then show ?thesis using fin [OF ce', of wake] ev ce(2) by (auto split: if_splits)
    qed (use ev p ne m lf1 d t ne' in \<open>simp_all add: digital_load_event_def fw_unfold gpio_out_write_def
        move_free_def move_queue_first_def\<close>)
  qed
qed

text \<open>The software PWM phase: toggle events of the timer.\<close>

inductive toggling :: "nat \<Rightarrow> 'a gpio_s_scheme \<Rightarrow> 'a gpio_s_scheme \<Rightarrow> bool" for i s where
  none: "toggling i s s"
| event: "toggling i s s1 \<Longrightarrow> do_func (digital_outs s1 i) = DO_toggle \<Longrightarrow>
    digital_timer i s1 = (r, s2) \<Longrightarrow> toggling i s s2"

lemma toggling_guarded:
  "toggling i s s' \<Longrightarrow> guarded i s \<Longrightarrow> guarded i s' \<and>
    do_end_time (digital_outs s' i) = do_end_time (digital_outs s i)"
proof (induction rule: toggling.induct)
  case (event s1 r s2)
  then show ?case using toggle_guarded [of i s1] by auto
qed simp

section \<open>Properties\<close>

text \<open>
  C38: an output cannot stay away from its default longer than \<^verbatim>\<open>max_duration\<close>.  When a
  load event at time \<open>t\<close> sets an output with a limit to a value that is not constantly its default,
  its timer is scheduled again; through any number of software PWM toggles the timer stays due
  before the end time, or at it to load the next update; the end time is not after
  \<open>t + max_duration\<close>; and when the timer loads with no update queued, the machine shuts down.
\<close>

theorem digital_out_limited:
  assumes "digital_load_event i s = (Inr r, s1)" and "mq_rep s (do_mq (digital_outs s i)) (m # ns)"
    and "mv_data s m = MD_digital w on" and "do_func (digital_outs s i) = DO_load"
    and "d = digital_outs s i" and "t = tm_wake s (digital_time i)" and "do_max_duration d \<noteq> 0"
    and "on \<noteq> 0 \<and> on < do_cycle_time d \<or> (on \<noteq> 0) \<noteq> (do_flags d AND DF_DEFAULT_ON \<noteq> 0)"
    and "toggling i s1 s2" and "w2 = tm_wake s2 (digital_time i)" and "e = do_end_time (digital_outs s2 i)"
  shows "r = SF_RESCHEDULE \<and> \<not> timer_is_before (t + do_max_duration d) e \<and>
    (if do_func (digital_outs s2 i) = DO_load then w2 = e else timer_is_before w2 e) \<and>
    (move_queue_empty (do_mq (digital_outs s2 i)) \<and> do_func (digital_outs s2 i) = DO_load \<longrightarrow>
      digital_timer i s2 = (Inl (Shut ''Missed scheduling of next digital out event''), s2))"
proof -
  have l: "r = SF_RESCHEDULE" "guarded i s1" "\<not> timer_is_before (t + do_max_duration d) (do_end_time (digital_outs s1 i))"
    using load_event_guarded [OF assms(1-8)] by blast+
  have g: "guarded i s2" "do_end_time (digital_outs s2 i) = do_end_time (digital_outs s1 i)"
    using toggling_guarded [OF assms(9) l(2)] by blast+
  have "digital_timer i s2 = (Inl (Shut ''Missed scheduling of next digital out event''), s2)"
    if "move_queue_empty (do_mq (digital_outs s2 i))" "do_func (digital_outs s2 i) = DO_load"
    using that by (simp add: digital_timer_def digital_load_event_def fw_unfold)
  then show ?thesis using l(1,3) g assms(10,11) by (auto simp: guarded_def Let_def)
qed

definition example_gpio_s :: gpio_s where
  "example_gpio_s = basecmd_s.extend (idle_basecmd_s\<lparr>mv_data := (\<lambda>_. MD_digital 0 300)\<rparr>)
    \<lparr>digital_outs = (\<lambda>_. zero_digital_out\<lparr>do_func := DO_load, do_max_duration := 5000, do_cycle_time := 1000,
      do_mq := \<lparr>mq_first = Some 8, mq_last = Some 8\<rparr>\<rparr>)\<rparr>"

lemmas example_gpio_defs = example_gpio_s_def idle_defs basecmd_s.defs zero_digital_out_def

theorem digital_out_limited_witness:
  "\<exists>s1. digital_load_event 3 example_gpio_s = (Inr SF_RESCHEDULE, s1) \<and>
    \<not> timer_is_before (0 + 5000) (do_end_time (digital_outs s1 3))"
proof -
  have f: "mq_rep example_gpio_s (do_mq (digital_outs example_gpio_s 3)) [8]"
    "mv_data example_gpio_s 8 = MD_digital 0 300" "do_func (digital_outs example_gpio_s 3) = DO_load"
    by (simp_all add: example_gpio_defs mq_rep_def)
  have x: "tm_wake example_gpio_s (digital_time 3) = 0" "do_max_duration (digital_outs example_gpio_s 3) = 5000"
    "do_cycle_time (digital_outs example_gpio_s 3) = 1000"
    by (simp_all add: example_gpio_defs)
  have "\<exists>s1. digital_load_event 3 example_gpio_s = (Inr SF_RESCHEDULE, s1)"
    by (simp add: example_gpio_defs digital_load_event_def fw_unfold move_queue_empty_def move_queue_pop_def
        gpio_out_write_def move_free_def load_flags_def load_schedule_def Let_def digital_flags
        timer_is_before_def)
  then obtain s1 where s1: "digital_load_event 3 example_gpio_s = (Inr SF_RESCHEDULE, s1)" by blast
  from digital_out_limited [OF s1 f refl refl _ _ toggling.none refl refl] s1 show ?thesis by (simp add: x)
qed

end
