(* ===== verification/Pwmcmds.thy ===== *)
theory Pwmcmds
  imports Dispatch
begin

text \<open>
  Hardware PWM outputs (\<^verbatim>\<open>src/pwmcmds.c\<close>).  The PWM hardware is the duty value of
  each pin; a pin without PWM hardware makes its setup shut down.  The timer of the output with
  id \<open>oid\<close> is \<open>T_obj oid 0\<close>.
\<close>

section \<open>State\<close>

datatype pwm_func = PW_null | PW_event | PW_end

record pwm_out_s =
  pw_func :: pwm_func
  pw_pin :: u32
  pw_max_duration :: u32
  pw_default_value :: u16
  pw_mq :: move_queue_head

definition zero_pwm_out :: pwm_out_s where
  "zero_pwm_out = \<lparr>pw_func = PW_null, pw_pin = 0, pw_max_duration = 0, pw_default_value = 0,
    pw_mq = \<lparr>mq_first = None, mq_last = None\<rparr>\<rparr>"

record pwm_s = basecmd_s +
  pwm_outs :: "nat \<Rightarrow> pwm_out_s"
  pwm_duty :: "u32 \<Rightarrow> u32"
  pwm_pin_ok :: "u32 \<Rightarrow> bool"

abbreviation pwm_upd :: "nat \<Rightarrow> (pwm_out_s \<Rightarrow> pwm_out_s) \<Rightarrow> ('a pwm_s_scheme, unit) fw" where
  "pwm_upd i f \<equiv> upd (\<lambda>s. s\<lparr>pwm_outs := (pwm_outs s)(i := f (pwm_outs s i))\<rparr>)"

abbreviation pwm_time :: "nat \<Rightarrow> timer_id" where "pwm_time i \<equiv> T_obj i 0"

text \<open>The board interface to the PWM hardware.\<close>

definition gpio_pwm_write :: "u32 \<Rightarrow> u32 \<Rightarrow> ('a pwm_s_scheme, unit) fw" where
  "gpio_pwm_write pin val = upd (\<lambda>s. s\<lparr>pwm_duty := (pwm_duty s)(pin := val)\<rparr>)"

definition gpio_pwm_setup :: "u32 \<Rightarrow> u32 \<Rightarrow> u32 \<Rightarrow> ('a pwm_s_scheme, u32) fw" where
  "gpio_pwm_setup pin cycle_time val =
    bnd (gets (\<lambda>s. pwm_pin_ok s pin)) (\<lambda>ok.
    thn (shutdown_if (\<not> ok) ''Not a valid PWM pin'')
    (thn (gpio_pwm_write pin val) (ret pin)))"

section \<open>Timer events\<close>

definition pwm_end_event :: "('a pwm_s_scheme, sf) fw" where
  "pwm_end_event = shutdown ''Missed scheduling of next hard pwm event''"

definition pwm_event :: "nat \<Rightarrow> ('a pwm_s_scheme, sf) fw" where
  "pwm_event i =
    bnd (gets (\<lambda>s. pwm_outs s i)) (\<lambda>p.
    bnd (move_queue_pop (pw_mq p)) (\<lambda>(mq', mn).
    thn (pwm_upd i (\<lambda>p. p\<lparr>pw_mq := mq'\<rparr>))
    (bnd (gets (\<lambda>s. mv_data s mn)) (\<lambda>m. case m of
      MD_pwm _ value \<Rightarrow>
        thn (gpio_pwm_write (pw_pin p) (ucast value))
        (thn (move_free mn)
        (if move_queue_empty mq' then
           (if value = pw_default_value p \<or> pw_max_duration p = 0 then ret SF_DONE
            else
              thn (upd (\<lambda>s. set_wake (pwm_time i) (tm_wake s (pwm_time i) + pw_max_duration p) s))
              (thn (pwm_upd i (\<lambda>p. p\<lparr>pw_func := PW_end\<rparr>))
              (ret SF_RESCHEDULE)))
         else (case move_queue_first mq' of
             None \<Rightarrow> stuck
           | Some nn \<Rightarrow> bnd (gets (\<lambda>s. mv_data s nn)) (\<lambda>nm. case nm of
               MD_pwm wake _ \<Rightarrow>
                 bnd (gets (\<lambda>s. value \<noteq> pw_default_value p \<and> pw_max_duration p \<noteq> 0 \<and>
                   timer_is_before (tm_wake s (pwm_time i) + pw_max_duration p) wake)) (\<lambda>late.
                 thn (shutdown_if late ''Scheduled pwm event will exceed max_duration'')
                 (thn (upd (set_wake (pwm_time i) wake)) (ret SF_RESCHEDULE)))
             | _ \<Rightarrow> stuck))))
    | _ \<Rightarrow> stuck))))"

text \<open>The timer callback: \<^verbatim>\<open>p->timer.func\<close>.\<close>

definition pwm_timer :: "nat \<Rightarrow> ('a pwm_s_scheme, sf) fw" where
  "pwm_timer i =
    bnd (gets (\<lambda>s. pw_func (pwm_outs s i))) (\<lambda>f. case f of
      PW_null \<Rightarrow> stuck | PW_event \<Rightarrow> pwm_event i | PW_end \<Rightarrow> pwm_end_event)"

section \<open>Commands\<close>

definition command_config_pwm_out :: "nat \<Rightarrow> nat \<Rightarrow> u32 list \<Rightarrow> ('a pwm_s_scheme, unit) fw" where
  "command_config_pwm_out sizeof_p sizeof_move args = (case args of
      [oid, a_pin, cycle_ticks, a_value, default_value, max_duration] \<Rightarrow>
        bnd (gpio_pwm_setup a_pin cycle_ticks a_value) (\<lambda>pin.
        bnd (oid_alloc (ucast oid) ''pwm_out'' sizeof_p) (\<lambda>i.
        thn (upd (\<lambda>s. s\<lparr>pwm_outs := (pwm_outs s)(i := zero_pwm_out\<lparr>pw_pin := pin,
          pw_default_value := ucast default_value, pw_max_duration := max_duration,
          pw_func := PW_event\<rparr>)\<rparr>))
        (bnd (move_queue_setup sizeof_move) (\<lambda>mq.
        pwm_upd i (\<lambda>p. p\<lparr>pw_mq := mq\<rparr>)))))
    | _ \<Rightarrow> stuck)"

definition command_queue_pwm_out :: "u32 list \<Rightarrow> ('a pwm_s_scheme, unit) fw" where
  "command_queue_pwm_out args = (case args of
      [oid, clock, a_value] \<Rightarrow>
        bnd (oid_lookup (ucast oid) ''pwm_out'') (\<lambda>i.
        bnd move_alloc (\<lambda>m.
        thn (upd (\<lambda>s. s\<lparr>mv_data := (mv_data s)(m := MD_pwm clock (ucast a_value))\<rparr>))
        (bnd (gets (\<lambda>s. pw_mq (pwm_outs s i))) (\<lambda>mq.
        bnd (move_queue_push m mq) (\<lambda>(mq', need_add_timer).
        thn (pwm_upd i (\<lambda>p. p\<lparr>pw_mq := mq'\<rparr>))
        (if \<not> need_add_timer then ret ()
         else
           thn (sched_del_timer (pwm_time i))
           (bnd (gets (\<lambda>s. pw_func (pwm_outs s i) = PW_end \<and>
               timer_is_before (tm_wake s (pwm_time i)) clock)) (\<lambda>late.
           thn (shutdown_if late ''Scheduled pwm event will exceed max_duration'')
           (thn (pwm_upd i (\<lambda>p. p\<lparr>pw_func := PW_event\<rparr>))
           (thn (upd (set_wake (pwm_time i) clock))
           (sched_add_timer (pwm_time i))))))))))))
    | _ \<Rightarrow> stuck)"

definition pwm_shutdown :: "('a pwm_s_scheme, unit) fw" where
  "pwm_shutdown = foreach_oid ''pwm_out'' (\<lambda>i.
    bnd (gets (\<lambda>s. pwm_outs s i)) (\<lambda>p.
    thn (gpio_pwm_write (pw_pin p) (ucast (pw_default_value p)))
    (thn (pwm_upd i (\<lambda>p. p\<lparr>pw_func := PW_event\<rparr>))
    (pwm_upd i (\<lambda>p. p\<lparr>pw_mq := move_queue_clear (pw_mq p)\<rparr>)))))"

definition command_set_pwm_out :: "u32 list \<Rightarrow> ('a pwm_s_scheme, unit) fw" where
  "command_set_pwm_out args = (case args of
      [pin, cycle_ticks, val] \<Rightarrow> thn (gpio_pwm_setup pin cycle_ticks val) (ret ())
    | _ \<Rightarrow> stuck)"

section \<open>The limit on the time away from the default\<close>

text \<open>
  After an update to a value other than the default, an output with a limit has its timer due
  within \<^verbatim>\<open>max_duration\<close>: for the next update, or for the event that shuts down.
\<close>

lemma pwm_event_limited:
  assumes ev: "pwm_event i s = (Inr r, s')" and q: "mq_rep s (pw_mq (pwm_outs s i)) (m # ns)"
    and m: "mv_data s m = MD_pwm w v" and lim: "pw_max_duration (pwm_outs s i) \<noteq> 0"
      "v \<noteq> pw_default_value (pwm_outs s i)"
  shows "r = SF_RESCHEDULE \<and>
    \<not> timer_is_before (tm_wake s (pwm_time i) + pw_max_duration (pwm_outs s i)) (tm_wake s' (pwm_time i)) \<and>
    (ns = [] \<longrightarrow> pwm_timer i s' = (Inl (Shut ''Missed scheduling of next hard pwm event''), s'))"
proof -
  obtain mq' where p: "move_queue_pop (pw_mq (pwm_outs s i)) s = (Inr (mq', m), s)" "mq_rep s mq' ns"
    using mq_pop_rep [OF q] by blast
  have e: "move_queue_empty mq' \<longleftrightarrow> ns = []" using mq.empty_rep [OF p(2)] .
  show ?thesis
  proof (cases ns)
    case Nil
    then show ?thesis
      using ev p(1) m lim e
      by (auto simp: pwm_event_def fw_unfold gpio_pwm_write_def move_free_def pwm_timer_def pwm_end_event_def)
  next
    case (Cons n ms)
    then have "mq_first mq' = Some n" using p(2) by (auto simp: mq_rep_def)
    then show ?thesis
      using ev p(1) m lim e Cons
      by (cases "mv_data s n")
        (auto simp: pwm_event_def fw_unfold gpio_pwm_write_def move_free_def move_queue_first_def
          split: if_splits)
  qed
qed

end
