(* ===== verification/Adccmds.thy ===== *)
theory Adccmds
  imports Dispatch
begin

text \<open>
  Analog inputs (\<^verbatim>\<open>src/adccmds.c\<close>): periodic measurements of several samples each, a
  range check that shuts the machine down, and reports to the host.  The converter is a sequence of
  delays, one for every call of \<^verbatim>\<open>gpio_adc_sample\<close>, and a sequence of values, one for every
  \<^verbatim>\<open>gpio_adc_read\<close>.  The timer of the input with id \<open>oid\<close> is \<open>T_obj oid 0\<close>.
\<close>

section \<open>State\<close>

record analog_in =
  ai_rest_time :: u32
  ai_sample_time :: u32
  ai_next_begin_time :: u32
  ai_value :: u16
  ai_min_value :: u16
  ai_max_value :: u16
  ai_pin :: u32
  ai_invalid_count :: u8
  ai_range_check_count :: u8
  ai_state :: u8
  ai_sample_count :: u8

definition zero_analog_in :: analog_in where
  "zero_analog_in = \<lparr>ai_rest_time = 0, ai_sample_time = 0, ai_next_begin_time = 0, ai_value = 0,
    ai_min_value = 0, ai_max_value = 0, ai_pin = 0, ai_invalid_count = 0, ai_range_check_count = 0,
    ai_state = 0, ai_sample_count = 0\<rparr>"

record analog_s = basecmd_s +
  analog_ins :: "nat \<Rightarrow> analog_in"
  adc_delays :: "nat \<Rightarrow> u32"
  adc_samples :: nat
  adc_values :: "nat \<Rightarrow> u16"
  adc_reads :: nat
  adc_pin_ok :: "u32 \<Rightarrow> bool"

abbreviation analog_upd :: "nat \<Rightarrow> (analog_in \<Rightarrow> analog_in) \<Rightarrow> ('a analog_s_scheme, unit) fw" where
  "analog_upd i f \<equiv> upd (\<lambda>s. s\<lparr>analog_ins := (analog_ins s)(i := f (analog_ins s i))\<rparr>)"

abbreviation analog_time :: "nat \<Rightarrow> timer_id" where "analog_time i \<equiv> T_obj i 0"

text \<open>The board interface to the converter.\<close>

definition gpio_adc_setup :: "u32 \<Rightarrow> ('a analog_s_scheme, u32) fw" where
  "gpio_adc_setup pin =
    bnd (gets (\<lambda>s. adc_pin_ok s pin)) (\<lambda>ok.
    thn (shutdown_if (\<not> ok) ''Not a valid ADC pin'') (ret pin))"

definition gpio_adc_sample :: "u32 \<Rightarrow> ('a analog_s_scheme, u32) fw" where
  "gpio_adc_sample pin s =
    (Inr (adc_delays s (adc_samples s)), s\<lparr>adc_samples := Suc (adc_samples s)\<rparr>)"

definition gpio_adc_read :: "u32 \<Rightarrow> ('a analog_s_scheme, u16) fw" where
  "gpio_adc_read pin s = (Inr (adc_values s (adc_reads s)), s\<lparr>adc_reads := Suc (adc_reads s)\<rparr>)"

definition gpio_adc_cancel_sample :: "u32 \<Rightarrow> ('a analog_s_scheme, unit) fw" where
  "gpio_adc_cancel_sample pin = ret ()"

section \<open>Measuring\<close>

definition analog_in_event :: "nat \<Rightarrow> ('a analog_s_scheme, sf) fw" where
  "analog_in_event i =
    bnd (gets (\<lambda>s. ai_pin (analog_ins s i))) (\<lambda>pin.
    bnd (gpio_adc_sample pin) (\<lambda>sample_delay.
    if sample_delay \<noteq> 0 then
      thn (upd (\<lambda>s. set_wake (analog_time i) (tm_wake s (analog_time i) + sample_delay) s))
      (ret SF_RESCHEDULE)
    else
      bnd (gpio_adc_read pin) (\<lambda>value.
      thn (analog_upd i (\<lambda>a. if ai_state a \<ge> ai_sample_count a
          then a\<lparr>ai_value := value, ai_state := 0 + 1\<rparr>
          else a\<lparr>ai_value := value + ai_value a, ai_state := ai_state a + 1\<rparr>))
      (bnd (gets (\<lambda>s. analog_ins s i)) (\<lambda>a.
      if ai_state a < ai_sample_count a then
        thn (upd (\<lambda>s. set_wake (analog_time i) (tm_wake s (analog_time i) + ai_sample_time a) s))
        (ret SF_RESCHEDULE)
      else
        thn (if ai_value a \<ge> ai_min_value a \<and> ai_value a \<le> ai_max_value a then
               analog_upd i (\<lambda>a. a\<lparr>ai_invalid_count := 0\<rparr>)
             else
               thn (analog_upd i (\<lambda>a. a\<lparr>ai_invalid_count := ai_invalid_count a + 1\<rparr>))
               (bnd (gets (\<lambda>s. analog_ins s i)) (\<lambda>a.
               if ai_invalid_count a \<ge> ai_range_check_count a then
                 thn (sched_try_shutdown ''ADC out of range'')
                 (analog_upd i (\<lambda>a. a\<lparr>ai_invalid_count := 0\<rparr>))
               else ret ())))
        (thn (sched_wake_task ''analog_wake'')
        (thn (analog_upd i (\<lambda>a. a\<lparr>ai_next_begin_time := ai_next_begin_time a + ai_rest_time a\<rparr>))
        (thn (upd (\<lambda>s. set_wake (analog_time i) (ai_next_begin_time (analog_ins s i)) s))
        (ret SF_RESCHEDULE)))))))))"

section \<open>Commands\<close>

definition command_config_analog_in :: "nat \<Rightarrow> u32 list \<Rightarrow> ('a analog_s_scheme, unit) fw" where
  "command_config_analog_in sizeof_a args = (case args of
      [oid, a_pin] \<Rightarrow>
        bnd (gpio_adc_setup a_pin) (\<lambda>pin.
        bnd (oid_alloc (ucast oid) ''analog_in'' sizeof_a) (\<lambda>i.
        upd (\<lambda>s. s\<lparr>analog_ins := (analog_ins s)(i := zero_analog_in\<lparr>ai_pin := pin, ai_state := 1\<rparr>)\<rparr>)))
    | _ \<Rightarrow> stuck)"

definition command_query_analog_in :: "u32 list \<Rightarrow> ('a analog_s_scheme, unit) fw" where
  "command_query_analog_in args = (case args of
      [oid, clock, sample_ticks, sample_count, rest_ticks, min_value, max_value, range_check_count] \<Rightarrow>
        bnd (oid_lookup (ucast oid) ''analog_in'') (\<lambda>i.
        thn (sched_del_timer (analog_time i))
        (bnd (gets (\<lambda>s. ai_pin (analog_ins s i))) (\<lambda>pin.
        thn (gpio_adc_cancel_sample pin)
        (thn (upd (set_wake (analog_time i) clock))
        (thn (analog_upd i (\<lambda>a. a\<lparr>ai_next_begin_time := clock, ai_sample_time := sample_ticks,
          ai_sample_count := ucast sample_count, ai_state := ucast sample_count + 1,
          ai_rest_time := rest_ticks, ai_min_value := ucast min_value, ai_max_value := ucast max_value,
          ai_range_check_count := ucast range_check_count\<rparr>))
        (if (ucast sample_count :: u8) = 0 then ret ()
         else sched_add_timer (analog_time i)))))))
    | _ \<Rightarrow> stuck)"

definition analog_in_task :: "('a analog_s_scheme, unit) fw" where
  "analog_in_task =
    bnd (sched_check_wake ''analog_wake'') (\<lambda>w.
    if \<not> w then ret ()
    else foreach_oid ''analog_in'' (\<lambda>i.
      bnd (gets (\<lambda>s. analog_ins s i)) (\<lambda>a.
      if ai_state a \<noteq> ai_sample_count a then ret ()
      else
        thn (analog_upd i (\<lambda>a. a\<lparr>ai_state := ai_state a + 1\<rparr>))
        (sendf ''analog_in_state oid=%c next_clock=%u value=%hu''
          [A_int (of_nat i), A_int (ai_next_begin_time a), A_int (ucast (ai_value a))]))))"

definition analog_in_shutdown :: "('a analog_s_scheme, unit) fw" where
  "analog_in_shutdown = foreach_oid ''analog_in'' (\<lambda>i.
    bnd (gets (\<lambda>s. ai_pin (analog_ins s i))) (\<lambda>pin.
    thn (gpio_adc_cancel_sample pin)
    (bnd (gets (\<lambda>s. ai_sample_count (analog_ins s i))) (\<lambda>sample_count.
    if sample_count \<noteq> 0 then
      thn (analog_upd i (\<lambda>a. a\<lparr>ai_state := ai_sample_count a + 1,
        ai_next_begin_time := ai_next_begin_time a + ai_rest_time a\<rparr>))
      (thn (upd (\<lambda>s. set_wake (analog_time i) (ai_next_begin_time (analog_ins s i)) s))
      (sched_add_timer (analog_time i)))
    else ret ()))))"

section \<open>The value of a measurement\<close>

lemma event_delay:
  assumes "adc_delays s (adc_samples s) \<noteq> 0"
  shows "analog_in_event i s = (Inr SF_RESCHEDULE, s\<lparr>adc_samples := Suc (adc_samples s),
    tm_wake := (tm_wake s)(analog_time i := tm_wake s (analog_time i) + adc_delays s (adc_samples s))\<rparr>)"
  using assms by (simp add: analog_in_event_def fw_unfold gpio_adc_sample_def)

lemma event_read:
  assumes "adc_delays s (adc_samples s) = 0" and "analog_in_event i s = (Inr r, s')"
    and "a = analog_ins s i" and "fresh = (ai_state a \<ge> ai_sample_count a)"
  shows "ai_value (analog_ins s' i) = adc_values s (adc_reads s) + (if fresh then 0 else ai_value a) \<and>
    ai_state (analog_ins s' i) = (if fresh then 0 else ai_state a) + 1 \<and>
    ai_sample_count (analog_ins s' i) = ai_sample_count a \<and>
    adc_reads s' = Suc (adc_reads s) \<and> adc_values s' = adc_values s"
  using assms
  by (auto simp: analog_in_event_def fw_unfold gpio_adc_sample_def gpio_adc_read_def sched_try_shutdown_def
      sched_wake_task_def sched_wake_tasks_def split: if_splits)

text \<open>The events of one measurement: each starts before the measurement is complete.\<close>

inductive measuring :: "nat \<Rightarrow> 'a analog_s_scheme \<Rightarrow> 'a analog_s_scheme \<Rightarrow> bool" for i s where
  start: "measuring i s s"
| event: "measuring i s s1 \<Longrightarrow> ai_state (analog_ins s1 i) \<noteq> ai_sample_count (analog_ins s1 i) \<Longrightarrow>
    analog_in_event i s1 = (Inr r, s2) \<Longrightarrow> measuring i s s2"

definition partial_sum :: "nat \<Rightarrow> nat \<Rightarrow> nat \<Rightarrow> (nat \<Rightarrow> u16) \<Rightarrow> 'a analog_s_scheme \<Rightarrow> bool" where
  "partial_sum i n R vs s \<longleftrightarrow> ai_sample_count (analog_ins s i) = of_nat n \<and> adc_values s = vs \<and>
    (adc_reads s = R \<and> ai_state (analog_ins s i) = of_nat n + 1 \<or>
     (\<exists>k. 0 < k \<and> k \<le> n \<and> adc_reads s = R + k \<and> ai_state (analog_ins s i) = of_nat k \<and>
      ai_value (analog_ins s i) = (\<Sum>j<k. vs (R + j))))"

lemma u8_le: "k < 256 \<Longrightarrow> n < 256 \<Longrightarrow> (of_nat k \<le> (of_nat n :: u8)) = (k \<le> n)"
  by (simp add: word_le_nat_alt unat_of_nat_small)

lemma partial_sum_event:
  assumes n: "0 < n" "n < 255" and p: "partial_sum i n R vs s"
    and ne: "ai_state (analog_ins s i) \<noteq> ai_sample_count (analog_ins s i)"
    and ev: "analog_in_event i s = (Inr r, s')"
  shows "partial_sum i n R vs s'"
proof (cases "adc_delays s (adc_samples s) = 0")
  case False
  then show ?thesis using event_delay [OF False, of i] ev p by (auto simp: partial_sum_def)
next
  case True
  let ?a = "analog_ins s i"
  have sc: "ai_sample_count ?a = of_nat n" "adc_values s = vs" using p by (auto simp: partial_sum_def)
  note er = event_read [OF True ev refl refl]
  consider (fresh) "adc_reads s = R" "ai_state ?a = of_nat n + 1" | (more) k where "0 < k" "k < n"
      "adc_reads s = R + k" "ai_state ?a = of_nat k" "ai_value ?a = (\<Sum>j<k. vs (R + j))"
    using p ne sc unfolding partial_sum_def by (metis le_neq_implies_less)
  then show ?thesis
  proof cases
    case fresh
    have "of_nat n + 1 = (of_nat (Suc n) :: u8)" by simp
    then have "ai_sample_count ?a \<le> ai_state ?a"
      unfolding sc fresh using u8_le [of n "Suc n"] n by (simp del: of_nat_Suc)
    then show ?thesis using er fresh sc n unfolding partial_sum_def
      by (intro conjI disjI2 exI [of _ 1]) auto
  next
    case more
    have "\<not> ai_sample_count ?a \<le> ai_state ?a" unfolding sc more using u8_le [of n k] more n by simp
    then show ?thesis using er more sc unfolding partial_sum_def
      by (intro conjI disjI2 exI [of _ "Suc k"]) (auto simp: add.commute)
  qed
qed

lemma measuring_sum:
  "measuring i s s' \<Longrightarrow> 0 < n \<Longrightarrow> n < 255 \<Longrightarrow> partial_sum i n R vs s \<Longrightarrow> partial_sum i n R vs s'"
proof (induction rule: measuring.induct)
  case (event s1 r s2)
  show ?case
    by (rule partial_sum_event [OF event.prems(1,2) event.IH [OF event.prems] event.hyps(2,3)])
qed

section \<open>Properties\<close>

lemma complete_sum:
  assumes p: "partial_sum i n R vs s" and n: "n < 255"
    and c: "ai_state (analog_ins s i) = ai_sample_count (analog_ins s i)"
  shows "adc_reads s = R + n \<and> ai_value (analog_ins s i) = (\<Sum>j<n. vs (R + j))"
proof -
  have d1: "ai_sample_count (analog_ins s i) = of_nat n" using p unfolding partial_sum_def by (elim conjE)
  have "adc_reads s = R \<and> ai_state (analog_ins s i) = of_nat n + 1 \<or>
     (\<exists>k. 0 < k \<and> k \<le> n \<and> adc_reads s = R + k \<and> ai_state (analog_ins s i) = of_nat k \<and>
      ai_value (analog_ins s i) = (\<Sum>j<k. vs (R + j)))"
    using p unfolding partial_sum_def by (elim conjE)
  then show ?thesis
  proof (elim disjE exE conjE)
    assume "ai_state (analog_ins s i) = of_nat n + 1"
    then have "of_nat n + 1 = (of_nat n :: u8)" using c d1 by (simp only:)
    then have "of_nat n + 1 = of_nat n + (0 :: u8)" by (simp only: add_0_right)
    then have "(1 :: u8) = 0" by (rule add_left_imp_eq)
    then show ?thesis by simp
  next
    fix k assume k: "k \<le> n" "adc_reads s = R + k" "ai_state (analog_ins s i) = of_nat k"
      "ai_value (analog_ins s i) = (\<Sum>j<k. vs (R + j))"
    have l: "k < 2 ^ LENGTH(8)" "n < 2 ^ LENGTH(8)" using k(1) n by simp_all
    have "unat (of_nat k :: u8) = k" "unat (of_nat n :: u8) = n"
      by (rule unat_of_nat_small [OF l(1)]) (rule unat_of_nat_small [OF l(2)])
    moreover have "of_nat k = (of_nat n :: u8)" using k(3) c d1 by (simp only:)
    ultimately have "k = n" by metis
    then show ?thesis using k by simp
  qed
qed

text \<open>
  A measurement is the sum of its samples.  From the start of a measurement of \<open>n\<close> samples,
  with any delays of the converter in between, the measurement is complete after exactly \<open>n\<close> reads
  and its value is their sum modulo \<open>2 ^ 16\<close>, for every \<open>n\<close> from 1 to 254.
\<close>

theorem analog_in_sums_samples:
  assumes "0 < n" and "n < 255" and "ai_sample_count (analog_ins s i) = of_nat n"
    and "ai_state (analog_ins s i) = of_nat n + 1" and "measuring i s s'"
    and "ai_state (analog_ins s' i) = ai_sample_count (analog_ins s' i)"
  shows "adc_reads s' = adc_reads s + n \<and>
    ai_value (analog_ins s' i) = (\<Sum>j<n. adc_values s (adc_reads s + j))"
proof -
  have "partial_sum i n (adc_reads s) (adc_values s) s"
    unfolding partial_sum_def by (intro conjI disjI1 assms(3,4) refl)
  from complete_sum [OF measuring_sum [OF assms(5,1,2) this] assms(2,6)] show ?thesis .
qed

definition example_analog_s :: analog_s where
  "example_analog_s = basecmd_s.extend idle_basecmd_s
    \<lparr>analog_ins = (\<lambda>_. zero_analog_in\<lparr>ai_sample_count := 1, ai_state := 2, ai_max_value := 4095,
       ai_range_check_count := 4\<rparr>), adc_delays = (\<lambda>_. 0), adc_samples = 0, adc_values = (\<lambda>k. of_nat (100 + k)),
     adc_reads = 0, adc_pin_ok = (\<lambda>_. True)\<rparr>"

theorem analog_in_sums_samples_witness:
  "\<exists>s'. measuring 3 example_analog_s s' \<and> ai_value (analog_ins s' 3) = 100"
proof -
  have f: "ai_sample_count (analog_ins example_analog_s 3) = of_nat 1"
    "ai_state (analog_ins example_analog_s 3) = of_nat 1 + 1"
    "adc_delays example_analog_s (adc_samples example_analog_s) = 0" "adc_reads example_analog_s = 0"
    "adc_values example_analog_s = (\<lambda>k. of_nat (100 + k))"
    by (simp_all add: example_analog_s_def zero_analog_in_def basecmd_s.defs)
  have "\<exists>s'. analog_in_event 3 example_analog_s = (Inr SF_RESCHEDULE, s')"
    by (simp add: example_analog_s_def zero_analog_in_def idle_defs basecmd_s.defs analog_in_event_def fw_unfold
        gpio_adc_sample_def gpio_adc_read_def sched_wake_task_def sched_wake_tasks_def)
  then obtain s' where s': "analog_in_event 3 example_analog_s = (Inr SF_RESCHEDULE, s')" by blast
  have m: "measuring 3 example_analog_s s'"
    by (rule measuring.event [OF measuring.start _ s']) (simp add: f)
  have "ai_state (analog_ins s' 3) = ai_sample_count (analog_ins s' 3)"
    using event_read [OF f(3) s' refl refl] by (simp add: f)
  from analog_in_sums_samples [OF _ _ f(1,2) m this] m show ?thesis by (auto simp: f)
qed

text \<open>
  With 255 samples the state after the start wraps to zero, so the first sample is added to the
  value of the measurement before.
\<close>

lemma analog_in_255_keeps_old_value:
  assumes "ai_sample_count (analog_ins s i) = 255" and "ai_state (analog_ins s i) = 255 + 1"
    and "adc_delays s (adc_samples s) = 0" and "analog_in_event i s = (Inr r, s')"
  shows "ai_value (analog_ins s' i) = adc_values s (adc_reads s) + ai_value (analog_ins s i)"
  using event_read [OF assms(3,4) refl refl] assms(1,2) by simp

end
