(* ===== verification/Buttons.thy ===== *)
theory Buttons
  imports Dispatch
begin

text \<open>
  User interface buttons (\<^verbatim>\<open>src/buttons.c\<close>): debounced sampling of up to eight pins and
  a small queue of reports that the host acknowledges.  The timer of the buttons with id \<open>oid\<close> is
  \<open>T_obj oid 0\<close>.
\<close>

section \<open>State\<close>

record buttons =
  bt_rest_ticks :: u32
  bt_pressed :: u8
  bt_last_pressed :: u8
  bt_report_count :: u8
  bt_reports :: "u8 list"
  bt_ack_count :: u8
  bt_retransmit_state :: u8
  bt_retransmit_count :: u8
  bt_button_count :: u8
  bt_pins :: "u32 list"

definition zero_buttons :: buttons where
  "zero_buttons = \<lparr>bt_rest_ticks = 0, bt_pressed = 0, bt_last_pressed = 0, bt_report_count = 0,
    bt_reports = replicate 8 0, bt_ack_count = 0, bt_retransmit_state = 0, bt_retransmit_count = 0,
    bt_button_count = 0, bt_pins = []\<rparr>"

record buttons_s = basecmd_s +
  buttonss :: "nat \<Rightarrow> buttons"

definition BF_NO_RETRANSMIT :: u8 where "BF_NO_RETRANSMIT = 0x80"
definition BF_PENDING :: u8 where "BF_PENDING = 0xff"
definition BF_ACKED :: u8 where "BF_ACKED = 0xfe"

abbreviation buttons_upd :: "nat \<Rightarrow> (buttons \<Rightarrow> buttons) \<Rightarrow> ('a buttons_s_scheme, unit) fw" where
  "buttons_upd i f \<equiv> upd (\<lambda>s. s\<lparr>buttonss := (buttonss s)(i := f (buttonss s i))\<rparr>)"

abbreviation buttons_time :: "nat \<Rightarrow> timer_id" where "buttons_time i \<equiv> T_obj i 0"

section \<open>Sampling\<close>

text \<open>The loop over the pins; \<^verbatim>\<open>bit\<close> is shifted left with every pin.\<close>

fun read_pins :: "u32 list \<Rightarrow> u8 \<Rightarrow> u8 \<Rightarrow> ('a board_scheme, u8) fw" where
  "read_pins [] bt status = ret status"
| "read_pins (pin # pins) bt status =
    bnd (gpio_in_read pin) (\<lambda>val.
    read_pins pins (push_bit 1 bt) (if val \<noteq> 0 then status OR bt else status))"

text \<open>The new debounced state of the buttons.\<close>

definition debounced_pressed :: "u8 \<Rightarrow> u8 \<Rightarrow> u8 \<Rightarrow> u8" where
  "debounced_pressed status last_pressed pressed =
    (let debounced = NOT (status XOR last_pressed)
     in (pressed AND NOT debounced) OR (status AND debounced))"

definition buttons_event :: "nat \<Rightarrow> ('a buttons_s_scheme, sf) fw" where
  "buttons_event i =
    bnd (gets (\<lambda>s. take (unat (bt_button_count (buttonss s i))) (bt_pins (buttonss s i)))) (\<lambda>pins.
    bnd (read_pins pins 1 0) (\<lambda>status.
    bnd (gets (\<lambda>s. buttonss s i)) (\<lambda>b.
    let diff = status XOR bt_pressed b;
        debounced = NOT (status XOR bt_last_pressed b) in
    thn (if diff \<noteq> 0 \<and> diff AND debounced \<noteq> 0 then
           thn (buttons_upd i (\<lambda>b. b\<lparr>bt_pressed :=
             debounced_pressed status (bt_last_pressed b) (bt_pressed b)\<rparr>))
           (if bt_report_count b < 8 then
              thn (buttons_upd i (\<lambda>b. b\<lparr>bt_reports := (bt_reports b)[unat (bt_report_count b) := bt_pressed b],
                bt_report_count := bt_report_count b + 1\<rparr>))
              (thn (sched_wake_task ''buttons_wake'')
              (buttons_upd i (\<lambda>b. b\<lparr>bt_retransmit_state := BF_PENDING\<rparr>)))
            else ret ())
         else ret ())
    (thn (buttons_upd i (\<lambda>b. b\<lparr>bt_last_pressed := status\<rparr>))
    (bnd (gets (\<lambda>s. bt_retransmit_state (buttonss s i))) (\<lambda>retransmit_state.
    thn (if retransmit_state AND BF_NO_RETRANSMIT = 0 then
           (let r = retransmit_state - 1 in
           thn (if r AND BF_NO_RETRANSMIT \<noteq> 0 then sched_wake_task ''buttons_wake'' else ret ())
           (buttons_upd i (\<lambda>b. b\<lparr>bt_retransmit_state := r\<rparr>)))
         else ret ())
    (thn (upd (\<lambda>s. set_wake (buttons_time i)
        (tm_wake s (buttons_time i) + bt_rest_ticks (buttonss s i)) s))
    (ret SF_RESCHEDULE))))))))"

section \<open>Commands\<close>

definition command_config_buttons :: "nat \<Rightarrow> nat \<Rightarrow> u32 list \<Rightarrow> ('a buttons_s_scheme, unit) fw" where
  "command_config_buttons sizeof_b sizeof_pin args = (case args of
      [oid, a_count] \<Rightarrow>
        (let button_count = ucast a_count :: u8 in
        thn (shutdown_if (button_count > 8) ''Max of 8 buttons'')
        (bnd (oid_alloc (ucast oid) ''buttons'' (sizeof_b + sizeof_pin * unat button_count)) (\<lambda>i.
        upd (\<lambda>s. s\<lparr>buttonss := (buttonss s)(i := zero_buttons\<lparr>bt_button_count := button_count,
          bt_pins := replicate (unat button_count) 0\<rparr>)\<rparr>))))
    | _ \<Rightarrow> stuck)"

definition command_buttons_add :: "u32 list \<Rightarrow> ('a buttons_s_scheme, unit) fw" where
  "command_buttons_add args = (case args of
      [oid, a_pos, a_pin, pull_up] \<Rightarrow>
        bnd (oid_lookup (ucast oid) ''buttons'') (\<lambda>i.
        bnd (gets (\<lambda>s. bt_button_count (buttonss s i))) (\<lambda>count.
        let pos = ucast a_pos :: u8 in
        thn (shutdown_if (pos \<ge> count) ''Set button past maximum button count'')
        (bnd (gpio_in_setup a_pin pull_up) (\<lambda>pin.
        buttons_upd i (\<lambda>b. b\<lparr>bt_pins := (bt_pins b)[unat pos := pin]\<rparr>)))))
    | _ \<Rightarrow> stuck)"

definition command_buttons_query :: "u32 list \<Rightarrow> ('a buttons_s_scheme, unit) fw" where
  "command_buttons_query args = (case args of
      [oid, clock, rest_ticks, retransmit_count, invert] \<Rightarrow>
        bnd (oid_lookup (ucast oid) ''buttons'') (\<lambda>i.
        thn (sched_del_timer (buttons_time i))
        (thn (upd (set_wake (buttons_time i) clock))
        (thn (buttons_upd i (\<lambda>b. b\<lparr>bt_rest_ticks := rest_ticks, bt_pressed := ucast invert,
          bt_last_pressed := ucast invert, bt_ack_count := 0, bt_report_count := 0,
          bt_retransmit_state := BF_ACKED, bt_retransmit_count := ucast retransmit_count\<rparr>))
        (thn (shutdown_if ((ucast retransmit_count :: u8) \<ge> BF_NO_RETRANSMIT)
          ''Invalid buttons retransmit count'')
        (if rest_ticks = 0 then ret () else sched_add_timer (buttons_time i))))))
    | _ \<Rightarrow> stuck)"

text \<open>
  The loop that moves the unacknowledged reports to the front; \<open>n + count\<close> is the old
  report count.
\<close>

fun shift_reports :: "nat \<Rightarrow> nat \<Rightarrow> nat \<Rightarrow> u8 list \<Rightarrow> u8 list" where
  "shift_reports 0 j count rs = rs"
| "shift_reports (Suc n) j count rs = shift_reports n (Suc j) count (rs[j := rs ! (j + count)])"

definition command_buttons_ack :: "u32 list \<Rightarrow> ('a buttons_s_scheme, unit) fw" where
  "command_buttons_ack args = (case args of
      [oid, a_count] \<Rightarrow>
        bnd (oid_lookup (ucast oid) ''buttons'') (\<lambda>i.
        let count = ucast a_count :: u8 in
        thn (buttons_upd i (\<lambda>b. b\<lparr>bt_ack_count := bt_ack_count b + count\<rparr>))
        (buttons_upd i (\<lambda>b.
          if count \<ge> bt_report_count b then b\<lparr>bt_report_count := 0, bt_retransmit_state := BF_ACKED\<rparr>
          else (let left = bt_report_count b - count in
            b\<lparr>bt_reports := shift_reports (unat left) 0 (unat count) (bt_reports b),
              bt_report_count := left\<rparr>))))
    | _ \<Rightarrow> stuck)"

definition buttons_task :: "('a buttons_s_scheme, unit) fw" where
  "buttons_task =
    bnd (sched_check_wake ''buttons_wake'') (\<lambda>w.
    if \<not> w then ret ()
    else foreach_oid ''buttons'' (\<lambda>i.
      bnd (gets (\<lambda>s. buttonss s i)) (\<lambda>b.
      if bt_retransmit_state b \<noteq> BF_PENDING then ret ()
      else if bt_report_count b = 0 then ret ()
      else
        thn (buttons_upd i (\<lambda>b. b\<lparr>bt_retransmit_state := bt_retransmit_count b\<rparr>))
        (sendf ''buttons_state oid=%c ack_count=%c state=%*s''
          [A_int (of_nat i), A_int (ucast (bt_ack_count b)),
           A_bytes (take (unat (bt_report_count b)) (bt_reports b))]))))"

section \<open>The report queue\<close>

definition reported :: "buttons \<Rightarrow> u8 list" where
  "reported b = take (unat (bt_report_count b)) (bt_reports b)"

definition buttons_ok :: "buttons \<Rightarrow> bool" where
  "buttons_ok b \<longleftrightarrow> length (bt_reports b) = 8 \<and> bt_report_count b \<le> 8"

lemma length_shift [simp]: "length (shift_reports n j c rs) = length rs"
  by (induction n j c rs rule: shift_reports.induct) auto

lemma shift_nth:
  "j + n + c \<le> length rs \<Longrightarrow> i < length rs \<Longrightarrow>
    shift_reports n j c rs ! i = (if j \<le> i \<and> i < j + n then rs ! (i + c) else rs ! i)"
proof (induction n arbitrary: j rs)
  case (Suc n)
  then show ?case by (auto simp: nth_list_update)
qed auto

lemma shift_take: "n + c \<le> length rs \<Longrightarrow> take n (shift_reports n 0 c rs) = take n (drop c rs)"
  by (rule nth_equalityI) (auto simp: shift_nth add.commute)

text \<open>An acknowledgement removes the oldest reports.\<close>

lemma buttons_ack_drops:
  assumes ok: "buttons_ok (buttonss s i)" and l: "oid_lookup (ucast oid) ''buttons'' s = (Inr i, s)"
  shows "\<exists>s'. command_buttons_ack [oid, cnt] s = (Inr (), s') \<and> buttons_ok (buttonss s' i) \<and>
    reported (buttonss s' i) = drop (unat (ucast cnt :: u8)) (reported (buttonss s i)) \<and>
    bt_ack_count (buttonss s' i) = bt_ack_count (buttonss s i) + ucast cnt"
proof (cases "(ucast cnt :: u8) \<ge> bt_report_count (buttonss s i)")
  case True
  then show ?thesis
    using ok l by (auto simp: command_buttons_ack_def fw_unfold Let_def buttons_ok_def reported_def word_le_nat_alt)
next
  case False
  let ?b = "buttonss s i" and ?c = "ucast cnt :: u8"
  have u: "unat (bt_report_count ?b - ?c) = unat (bt_report_count ?b) - unat ?c"
    using False by (simp add: unat_sub word_le_nat_alt)
  have le: "unat (bt_report_count ?b) \<le> 8" "unat ?c \<le> unat (bt_report_count ?b)"
    using ok False by (simp_all add: buttons_ok_def word_le_nat_alt)
  have "take (unat (bt_report_count ?b - ?c)) (shift_reports (unat (bt_report_count ?b - ?c)) 0 (unat ?c) (bt_reports ?b))
      = drop (unat ?c) (reported ?b)"
    using shift_take [of "unat (bt_report_count ?b - ?c)" "unat ?c" "bt_reports ?b"] ok le u
    by (simp add: buttons_ok_def reported_def drop_take)
  then show ?thesis
    using ok l False le u
    by (auto simp: command_buttons_ack_def fw_unfold Let_def buttons_ok_def reported_def word_le_nat_alt)
qed

section \<open>Debouncing\<close>

lemma debounced_bits:
  "k < 8 \<Longrightarrow> bit (debounced_pressed st la pr) k \<longleftrightarrow> (if bit st k = bit la k then bit st k else bit pr k)"
  by (auto simp: debounced_pressed_def Let_def bit_simps)

lemma debounced_change: "(st XOR pr) AND NOT (st XOR la) \<noteq> 0 \<longleftrightarrow> debounced_pressed st la pr \<noteq> pr"
proof -
  have "(st XOR pr) AND NOT (st XOR la) = debounced_pressed st la pr XOR pr"
    by (rule bit_word_eqI) (auto simp: debounced_pressed_def Let_def bit_simps)
  then show ?thesis using xor_cancel [of "debounced_pressed st la pr" pr pr] by simp
qed

lemma read_pins_run:
  "\<exists>v. read_pins pins (push_bit j 1) st s =
      (Inr v, s\<lparr>bd_input_reads := bd_input_reads s + length pins\<rparr>) \<and>
    (\<forall>k < 8. bit v k \<longleftrightarrow> bit st k \<or> j \<le> k \<and> k < j + length pins \<and>
      bd_inputs s (pins ! (k - j)) (bd_input_reads s + (k - j)) \<noteq> 0)"
proof (induction pins arbitrary: j st s)
  case Nil
  then show ?case by (auto simp: ret_def)
next
  case (Cons p pins)
  let ?on = "bd_inputs s p (bd_input_reads s) \<noteq> 0"
  let ?st = "if ?on then st OR push_bit j 1 else st"
  let ?s = "s\<lparr>bd_input_reads := Suc (bd_input_reads s)\<rparr>"
  have m: "push_bit 1 (push_bit j (1 :: u8)) = push_bit (Suc j) 1" by simp
  obtain v where v: "read_pins pins (push_bit (Suc j) 1) ?st ?s =
      (Inr v, ?s\<lparr>bd_input_reads := bd_input_reads ?s + length pins\<rparr>)"
    "\<forall>k < 8. bit v k \<longleftrightarrow> bit ?st k \<or> Suc j \<le> k \<and> k < Suc j + length pins \<and>
      bd_inputs ?s (pins ! (k - Suc j)) (bd_input_reads ?s + (k - Suc j)) \<noteq> 0"
    using Cons.IH [of "Suc j" ?st ?s] by blast
  have "read_pins (p # pins) (push_bit j 1) st s = (Inr v, s\<lparr>bd_input_reads := bd_input_reads s + length (p # pins)\<rparr>)"
    using v(1) unfolding read_pins.simps m bnd_def gpio_in_read_def by simp
  moreover have "bit v k \<longleftrightarrow> bit st k \<or> j \<le> k \<and> k < j + length (p # pins) \<and>
      bd_inputs s ((p # pins) ! (k - j)) (bd_input_reads s + (k - j)) \<noteq> 0" if "k < 8" for k
  proof (cases "j < k")
    case True
    then obtain d where d: "k - j = Suc d" "k - Suc j = d" by (metis Suc_diff_Suc)
    have "bit ?st k = bit st k" using True by (auto simp: bit_simps)
    then show ?thesis using v(2) that True d by auto
  next
    case False
    then show ?thesis using v(2) that by (auto simp: bit_simps)
  qed
  ultimately show ?case by blast
qed

text \<open>One sample of the buttons.\<close>

lemma buttons_event_run:
  assumes ok: "buttons_ok (buttonss s i)" and n: "length (bt_pins (buttonss s i)) = unat (bt_button_count (buttonss s i))"
    and b: "b = buttonss s i"
  shows "\<exists>s' status. buttons_event i s = (Inr SF_RESCHEDULE, s') \<and>
    (\<forall>k < 8. bit status k \<longleftrightarrow> k < length (bt_pins b) \<and> bd_inputs s (bt_pins b ! k) (bd_input_reads s + k) \<noteq> 0) \<and>
    buttons_ok (buttonss s' i) \<and> bt_last_pressed (buttonss s' i) = status \<and>
    bt_pressed (buttonss s' i) = debounced_pressed status (bt_last_pressed b) (bt_pressed b) \<and>
    reported (buttonss s' i) = reported b @
      (if bt_pressed (buttonss s' i) \<noteq> bt_pressed b \<and> length (reported b) < 8 then [bt_pressed (buttonss s' i)] else [])"
proof -
  obtain status where st: "read_pins (bt_pins b) (push_bit 0 1) 0 s =
      (Inr status, s\<lparr>bd_input_reads := bd_input_reads s + length (bt_pins b)\<rparr>)"
    "\<forall>k < 8. bit status k \<longleftrightarrow> k < length (bt_pins b) \<and> bd_inputs s (bt_pins b ! k) (bd_input_reads s + k) \<noteq> 0"
    using read_pins_run [of "bt_pins b" 0 0 s] by auto
  have tk: "take (unat (bt_button_count b)) (bt_pins b) = bt_pins b" using n b by simp
  let ?p = "debounced_pressed status (bt_last_pressed b) (bt_pressed b)"
  have ch: "(status XOR bt_pressed b \<noteq> 0 \<and> (status XOR bt_pressed b) AND NOT (status XOR bt_last_pressed b) \<noteq> 0) \<longleftrightarrow> ?p \<noteq> bt_pressed b"
    using debounced_change [of status "bt_pressed b" "bt_last_pressed b"] by auto
  have rc: "length (reported b) = unat (bt_report_count b)" "(bt_report_count b < 8) = (unat (bt_report_count b) < 8)"
    using ok b by (auto simp: buttons_ok_def reported_def word_le_nat_alt word_less_nat_alt)
  have u: "unat (bt_report_count b + 1) = Suc (unat (bt_report_count b))" if "unat (bt_report_count b) < 8"
    using that by (simp add: unat_word_ariths)
  have ap: "take (Suc k) ((bt_reports b)[k := v]) = take k (bt_reports b) @ [v]" if "k < 8" for k v
    using that ok b by (simp add: buttons_ok_def take_Suc_conv_app_nth)
  define rs where "rs = (if ?p \<noteq> bt_pressed b \<and> bt_report_count b < 8 then
      b\<lparr>bt_pressed := ?p, bt_reports := (bt_reports b)[unat (bt_report_count b) := ?p],
        bt_report_count := bt_report_count b + 1, bt_retransmit_state := BF_PENDING, bt_last_pressed := status\<rparr>
      else b\<lparr>bt_pressed := ?p, bt_last_pressed := status\<rparr>)"
  have e: "\<exists>s'. buttons_event i s = (Inr SF_RESCHEDULE, s') \<and> (buttonss s' i)\<lparr>bt_retransmit_state := 0\<rparr> = rs\<lparr>bt_retransmit_state := 0\<rparr>"
  proof (cases "?p = bt_pressed b")
    case True
    then have c: "\<not> (status XOR bt_pressed b \<noteq> 0 \<and> (status XOR bt_pressed b) AND NOT (status XOR bt_last_pressed b) \<noteq> 0)"
      using ch by blast
    show ?thesis
      using st(1) tk b c True
      by (auto simp: buttons_event_def fw_unfold Let_def sched_wake_task_def sched_wake_tasks_def rs_def)
  next
    case False
    then have c: "status XOR bt_pressed b \<noteq> 0" "(status XOR bt_pressed b) AND NOT (status XOR bt_last_pressed b) \<noteq> 0"
      using ch by blast+
    show ?thesis
      using st(1) tk b c False
      by (auto simp: buttons_event_def fw_unfold Let_def sched_wake_task_def sched_wake_tasks_def rs_def)
  qed
  then obtain s' where s': "buttons_event i s = (Inr SF_RESCHEDULE, s')"
    "(buttonss s' i)\<lparr>bt_retransmit_state := 0\<rparr> = rs\<lparr>bt_retransmit_state := 0\<rparr>"
    by blast
  have f: "bt_pressed (buttonss s' i) = bt_pressed rs" "bt_last_pressed (buttonss s' i) = bt_last_pressed rs"
    "bt_reports (buttonss s' i) = bt_reports rs" "bt_report_count (buttonss s' i) = bt_report_count rs"
    using arg_cong [OF s'(2), of bt_pressed] arg_cong [OF s'(2), of bt_last_pressed]
      arg_cong [OF s'(2), of bt_reports] arg_cong [OF s'(2), of bt_report_count] by simp_all
  have "bt_pressed rs = ?p" "bt_last_pressed rs = status" by (simp_all add: rs_def)
  moreover have "buttons_ok rs" using ok b u rc(2) by (auto simp: rs_def buttons_ok_def word_le_nat_alt)
  moreover have "reported rs = reported b @ (if ?p \<noteq> bt_pressed b \<and> length (reported b) < 8 then [?p] else [])"
    using rc ap u by (auto simp: rs_def reported_def)
  ultimately show ?thesis using s'(1) st(2) f
    by (intro exI [of _ s'] exI [of _ status]) (simp add: buttons_ok_def reported_def)
qed

section \<open>Properties\<close>

text \<open>
  C40: a button change is reported once and only when it is stable.  A sample event reads every
  configured pin once; a button changes its debounced state exactly when two successive samples
  agree on it; the new state of the buttons is appended to the report queue exactly when some button
  changed and the queue has room, and the queue never exceeds its eight entries.
\<close>

theorem buttons_debounced_reports:
  assumes "length (bt_reports (buttonss s i)) = 8" and "bt_report_count (buttonss s i) \<le> 8"
    and "length (bt_pins (buttonss s i)) = unat (bt_button_count (buttonss s i))" and "b = buttonss s i"
  shows "\<exists>s' status. buttons_event i s = (Inr SF_RESCHEDULE, s') \<and>
    (\<forall>k < 8. bit status k \<longleftrightarrow> k < length (bt_pins b) \<and> bd_inputs s (bt_pins b ! k) (bd_input_reads s + k) \<noteq> 0) \<and>
    bt_last_pressed (buttonss s' i) = status \<and>
    (\<forall>k < 8. bit (bt_pressed (buttonss s' i)) k \<longleftrightarrow>
      (if bit status k = bit (bt_last_pressed b) k then bit status k else bit (bt_pressed b) k)) \<and>
    reported (buttonss s' i) = reported b @
      (if bt_pressed (buttonss s' i) \<noteq> bt_pressed b \<and> length (reported b) < 8 then [bt_pressed (buttonss s' i)] else []) \<and>
    buttons_ok (buttonss s' i)"
proof -
  have ok: "buttons_ok (buttonss s i)" using assms(1,2) by (simp add: buttons_ok_def)
  obtain s' status where s': "buttons_event i s = (Inr SF_RESCHEDULE, s')"
    "\<forall>k < 8. bit status k \<longleftrightarrow> k < length (bt_pins b) \<and> bd_inputs s (bt_pins b ! k) (bd_input_reads s + k) \<noteq> 0"
    "buttons_ok (buttonss s' i)" "bt_last_pressed (buttonss s' i) = status"
    "bt_pressed (buttonss s' i) = debounced_pressed status (bt_last_pressed b) (bt_pressed b)"
    "reported (buttonss s' i) = reported b @
      (if bt_pressed (buttonss s' i) \<noteq> bt_pressed b \<and> length (reported b) < 8 then [bt_pressed (buttonss s' i)] else [])"
    using buttons_event_run [OF ok assms(3,4)] by (elim exE conjE) (rule that; assumption)
  have "\<forall>k < 8. bit (bt_pressed (buttonss s' i)) k \<longleftrightarrow>
      (if bit status k = bit (bt_last_pressed b) k then bit status k else bit (bt_pressed b) k)"
    unfolding s'(5) using debounced_bits by blast
  then show ?thesis using s' by (intro exI [of _ s'] exI [of _ status] conjI)
qed

definition example_buttons_s :: buttons_s where
  "example_buttons_s = basecmd_s.extend (idle_basecmd_s\<lparr>bd_inputs := (\<lambda>_ _. 1)\<rparr>)
    \<lparr>buttonss = (\<lambda>_. zero_buttons\<lparr>bt_button_count := 1, bt_pins := [9], bt_last_pressed := 1\<rparr>)\<rparr>"

theorem buttons_debounced_reports_witness:
  "\<exists>s' status. buttons_event 2 example_buttons_s = (Inr SF_RESCHEDULE, s') \<and>
    bt_last_pressed (buttonss s' 2) = status \<and> buttons_ok (buttonss s' 2)"
proof -
  have f: "length (bt_reports (buttonss example_buttons_s 2)) = 8" "bt_report_count (buttonss example_buttons_s 2) \<le> 8"
    "length (bt_pins (buttonss example_buttons_s 2)) = unat (bt_button_count (buttonss example_buttons_s 2))"
    by (simp_all add: example_buttons_s_def zero_buttons_def basecmd_s.defs idle_defs)
  from buttons_debounced_reports [OF f refl] show ?thesis by (elim exE conjE) (intro exI conjI)
qed

end
