(* ===== verification/Pulse_counter.thy ===== *)
theory Pulse_counter
  imports Dispatch
begin

text \<open>
  Edge counters (\<^verbatim>\<open>src/pulse_counter.c\<close>): a pin is polled and its level changes are
  counted.  The timer of the counter with id \<open>oid\<close> is \<open>T_obj oid 0\<close>.
\<close>

section \<open>State\<close>

record counter =
  cn_poll_ticks :: u32
  cn_sample_ticks :: u32
  cn_next_sample_time :: u32
  cn_count :: u32
  cn_last_count_time :: u32
  cn_flags :: u8
  cn_pin :: u32

definition zero_counter :: counter where
  "zero_counter = \<lparr>cn_poll_ticks = 0, cn_sample_ticks = 0, cn_next_sample_time = 0, cn_count = 0,
    cn_last_count_time = 0, cn_flags = 0, cn_pin = 0\<rparr>"

record counter_s = basecmd_s +
  counters :: "nat \<Rightarrow> counter"

definition CF_PENDING :: u8 where "CF_PENDING = 1"

abbreviation counter_upd :: "nat \<Rightarrow> (counter \<Rightarrow> counter) \<Rightarrow> ('a counter_s_scheme, unit) fw" where
  "counter_upd i f \<equiv> upd (\<lambda>s. s\<lparr>counters := (counters s)(i := f (counters s i))\<rparr>)"

abbreviation counter_time :: "nat \<Rightarrow> timer_id" where "counter_time i \<equiv> T_obj i 0"

section \<open>Counting\<close>

definition counter_event :: "nat \<Rightarrow> ('a counter_s_scheme, sf) fw" where
  "counter_event i =
    bnd (gets (\<lambda>s. (tm_wake s (counter_time i), counters s i))) (\<lambda>(time, c).
    let last_value = (ucast (cn_count c AND 1) :: u8) in
    bnd (gpio_in_read (cn_pin c)) (\<lambda>val.
    thn (if last_value \<noteq> val then
           counter_upd i (\<lambda>c. c\<lparr>cn_count := cn_count c + 1, cn_last_count_time := time\<rparr>)
         else ret ())
    (thn (if timer_is_before (cn_next_sample_time c) time then
            thn (counter_upd i (\<lambda>c. c\<lparr>cn_flags := cn_flags c OR CF_PENDING,
              cn_next_sample_time := time + cn_sample_ticks c\<rparr>))
            (sched_wake_task ''counter_wake'')
          else ret ())
    (thn (upd (\<lambda>s. set_wake (counter_time i)
        (tm_wake s (counter_time i) + cn_poll_ticks (counters s i)) s))
    (ret SF_RESCHEDULE)))))"

section \<open>Commands\<close>

definition command_config_counter :: "nat \<Rightarrow> u32 list \<Rightarrow> ('a counter_s_scheme, unit) fw" where
  "command_config_counter sizeof_c args = (case args of
      [oid, a_pin, pull_up] \<Rightarrow>
        bnd (oid_alloc (ucast oid) ''counter'' sizeof_c) (\<lambda>i.
        thn (upd (\<lambda>s. s\<lparr>counters := (counters s)(i := zero_counter)\<rparr>))
        (bnd (gpio_in_setup a_pin pull_up) (\<lambda>pin.
        counter_upd i (\<lambda>c. c\<lparr>cn_pin := pin\<rparr>))))
    | _ \<Rightarrow> stuck)"

definition command_query_counter :: "u32 list \<Rightarrow> ('a counter_s_scheme, unit) fw" where
  "command_query_counter args = (case args of
      [oid, clock, poll_ticks, sample_ticks] \<Rightarrow>
        bnd (oid_lookup (ucast oid) ''counter'') (\<lambda>i.
        thn (sched_del_timer (counter_time i))
        (thn (upd (set_wake (counter_time i) clock))
        (thn (counter_upd i (\<lambda>c. c\<lparr>cn_poll_ticks := poll_ticks, cn_sample_ticks := sample_ticks,
          cn_next_sample_time := clock\<rparr>))
        (sched_add_timer (counter_time i)))))
    | _ \<Rightarrow> stuck)"

definition counter_task :: "('a counter_s_scheme, unit) fw" where
  "counter_task =
    bnd (sched_check_wake ''counter_wake'') (\<lambda>w.
    if \<not> w then ret ()
    else foreach_oid ''counter'' (\<lambda>i.
      bnd (gets (\<lambda>s. (tm_wake s (counter_time i), counters s i))) (\<lambda>(waketime, c).
      if cn_flags c AND CF_PENDING = 0 then ret ()
      else
        thn (counter_upd i (\<lambda>c. c\<lparr>cn_flags := cn_flags c AND NOT CF_PENDING\<rparr>))
        (sendf ''counter_state oid=%c next_clock=%u count=%u count_clock=%u''
          [A_int (of_nat i), A_int waketime, A_int (cn_count c), A_int (cn_last_count_time c)]))))"

end
