(* ===== verification/Stepcompress.thy ===== *)
theory Stepcompress
  imports Msgblock Stepper
begin

text \<open>
  Host step compression, \<^verbatim>\<open>klippy/chelper/stepcompress.c\<close>: requested step clocks are
  collected in a queue and turned into \<^verbatim>\<open>queue_step\<close> commands, each an arithmetic
  sequence of intervals.  The pointers \<^verbatim>\<open>queue_pos\<close> and \<^verbatim>\<open>queue_next\<close> are indices
  into the allocated array, whose length is \<^verbatim>\<open>queue_end - queue\<close>.  The \<^verbatim>\<open>int32_t\<close>
  arithmetic of the search is done on \<open>int\<close>, and a value that does not fit is the undefined
  behaviour that C gives a signed overflow (\<open>None\<close>); unsigned arithmetic is done on words.  The
  conversions between times in seconds and clocks use \<^verbatim>\<open>double\<close> and are left out.
\<close>

section \<open>State\<close>

record step_move =
  mv_interval :: u32
  mv_count :: u16
  mv_add :: u16

record history_steps =
  hs_first_clock :: u64
  hs_last_clock :: u64
  hs_start_position :: u64
  hs_step_count :: int
  hs_interval :: int
  hs_add :: int

record stepcompress =
  sc_queue :: "u32 list"
  sc_pos :: nat
  sc_next :: nat
  sc_max_error :: u32
  sc_filter_ticks :: int
  sc_last_step_clock :: u64
  sc_msg_queue :: "queue_message list"
  sc_oid :: u32
  sc_queue_step_msgtag :: u32
  sc_set_next_step_dir_msgtag :: u32
  sc_sdir :: int
  sc_invert_sdir :: int
  sc_next_step_clock :: u64
  sc_next_step_dir :: int
  sc_last_position :: u64
  sc_history :: "history_steps list"

section \<open>Step compression\<close>

definition in32 :: "int \<Rightarrow> bool" where
  "in32 x \<longleftrightarrow> - (2 ^ 31) \<le> x \<and> x < 2 ^ 31"

definition idiv_up :: "int \<Rightarrow> int \<Rightarrow> int option" where
  "idiv_up n d =
    (if n \<ge> 0 then (if in32 (n + d) then Some (c_div (n + d - 1) d) else None)
     else Some (c_div n d))"

definition idiv_down :: "int \<Rightarrow> int \<Rightarrow> int option" where
  "idiv_down n d =
    (if n \<ge> 0 then Some (c_div n d)
     else if in32 (n - d) then Some (c_div (n - d + 1) d) else None)"

text \<open>The acceptable times of a step, relative to the last step; \<open>None\<close> is a read outside the array.\<close>

definition minmax_point :: "stepcompress \<Rightarrow> nat \<Rightarrow> (u32 \<times> u32) option" where
  "minmax_point sc pos =
    (if pos < length (sc_queue sc) then
       let lsc = ucast (sc_last_step_clock sc);
           point = sc_queue sc ! pos - lsc;
           prevpoint = (if pos > sc_pos sc then sc_queue sc ! (pos - 1) - lsc else 0);
           max_error = (point - prevpoint) div 2;
           max_error' = (if max_error > sc_max_error sc then sc_max_error sc else max_error)
       in Some (point - max_error', point)
     else None)"

text \<open>
  The inner loop: extend the sequence with the given \<open>add\<close> while an interval fits.  \<open>Inl\<close> is the
  return of a sequence that covers everything up to \<open>qlast\<close>; \<open>Inr\<close> is the state at the
  \<^verbatim>\<open>break\<close>.
\<close>

function scan_loop :: "stepcompress \<Rightarrow> nat \<Rightarrow> int \<Rightarrow> int \<Rightarrow> int \<Rightarrow> int \<Rightarrow> nat \<Rightarrow>
    ((int \<times> nat) + (int \<times> int \<times> int \<times> nat \<times> int \<times> int)) option" where
  "scan_loop sc qlast add nextmininterval nextmaxinterval interval prevcount =
    (let nextcount = Suc prevcount; n = int nextcount in
     if sc_pos sc + nextcount - 1 \<ge> qlast then Some (Inl (interval, nextcount - 1))
     else case minmax_point sc (sc_pos sc + nextcount - 1) of None \<Rightarrow> None
     | Some (minp, maxp) \<Rightarrow>
       let nextaddfactor = c_div (n * (n - 1)) 2; c = add * nextaddfactor;
           lo = sint minp - c; hi = sint maxp - c in
       if \<not> list_all in32 [n * (n - 1), c, nextmininterval * n, lo, nextmaxinterval * n, hi] then None
       else
         case if nextmininterval * n < lo then idiv_up lo n else Some nextmininterval of None \<Rightarrow> None
         | Some nextmin \<Rightarrow>
         (case if nextmaxinterval * n > hi then idiv_down hi n else Some nextmaxinterval of None \<Rightarrow> None
         | Some nextmax \<Rightarrow>
           if nextmin > nextmax then Some (Inr (nextmin, nextmax, interval, nextcount, sint minp, sint maxp))
           else scan_loop sc qlast add nextmin nextmax nextmax nextcount))"
  by pat_completeness auto
termination
  by (relation "measure (\<lambda>(sc, qlast, _, _, _, _, c). qlast - (sc_pos sc + c))") auto

declare scan_loop.simps [simp del]

record bisect =
  b_outer_min :: int
  b_outer_max :: int
  b_add :: int
  b_minadd :: int
  b_maxadd :: int
  b_bestinterval :: int
  b_bestcount :: int
  b_bestadd :: int
  b_bestreach :: int
  b_zerointerval :: int
  b_zerocount :: int

definition mk_move :: "int \<Rightarrow> int \<Rightarrow> int \<Rightarrow> step_move" where
  "mk_move interval count add =
    \<lparr>mv_interval = word_of_int interval, mv_count = word_of_int count, mv_add = word_of_int add\<rparr>"

text \<open>Whether the sequence is the best so far, and its record.\<close>

definition is_better :: "int \<Rightarrow> int \<Rightarrow> bisect \<Rightarrow> bool" where
  "is_better reach interval b \<longleftrightarrow>
    reach > b_bestreach b \<or> reach = b_bestreach b \<and> interval > b_bestinterval b"

definition record_best :: "int \<Rightarrow> int \<Rightarrow> int \<Rightarrow> bisect \<Rightarrow> bisect" where
  "record_best reach interval count b =
    (let b1 = b\<lparr>b_bestinterval := interval, b_bestcount := count, b_bestadd := b_add b, b_bestreach := reach\<rparr>
     in if b_add b = 0 then b1\<lparr>b_zerointerval := interval, b_zerocount := count\<rparr> else b1)"

definition pick_best :: "bisect \<Rightarrow> step_move" where
  "pick_best b =
    (if b_zerocount b + c_div (b_zerocount b) 16 \<ge> b_bestcount b
     then mk_move (b_zerointerval b) (b_zerocount b) 0
     else mk_move (b_bestinterval b) (b_bestcount b) (b_bestadd b))"

definition QUADRATIC_DEV :: u32 where
  "QUADRATIC_DEV = 11"

text \<open>
  After a sequence broke at \<^verbatim>\<open>nextcount\<close>, the range of \<open>add\<close> is narrowed three times: on
  the side of the miss, by the largest deviation of two valid sequences, and by the point that
  was missed.
\<close>

definition narrow_side :: "int \<Rightarrow> int \<Rightarrow> int \<Rightarrow> int \<Rightarrow> bisect \<Rightarrow> bisect" where
  "narrow_side nextreach minp nextmin nextmax b =
    (if nextreach < minp then b\<lparr>b_minadd := b_add b + 1, b_outer_max := nextmax\<rparr>
     else b\<lparr>b_maxadd := b_add b - 1, b_outer_min := nextmin\<rparr>)"

definition limit_dev :: "u32 \<Rightarrow> int \<Rightarrow> bisect \<Rightarrow> bisect option" where
  "limit_dev max_error count b =
    (if count > 1 then
       if \<not> in32 (count * count) then None
       else let errdelta = sint (max_error * QUADRATIC_DEV div word_of_int (count * count)) in
         if \<not> list_all in32 [b_add b - errdelta, b_add b + errdelta] then None
         else Some (b\<lparr>b_minadd := max (b_minadd b) (b_add b - errdelta),
                      b_maxadd := min (b_maxadd b) (b_add b + errdelta)\<rparr>)
     else Some b)"

definition limit_next :: "int \<Rightarrow> int \<Rightarrow> int \<Rightarrow> int \<Rightarrow> bisect \<Rightarrow> bisect option" where
  "limit_next n nextaddfactor minp maxp b =
    (let c1 = b_outer_max b * n; c2 = b_outer_min b * n in
     if \<not> list_all in32 [c1, minp - c1, b_minadd b * nextaddfactor] then None
     else case if b_minadd b * nextaddfactor < minp - c1 then idiv_up (minp - c1) nextaddfactor
               else Some (b_minadd b) of None \<Rightarrow> None
     | Some minadd \<Rightarrow>
       if \<not> list_all in32 [c2, maxp - c2, b_maxadd b * nextaddfactor] then None
       else case if b_maxadd b * nextaddfactor > maxp - c2 then idiv_down (maxp - c2) nextaddfactor
                 else Some (b_maxadd b) of None \<Rightarrow> None
       | Some maxadd \<Rightarrow> Some (b\<lparr>b_minadd := minadd, b_maxadd := maxadd\<rparr>))"

text \<open>One pass of the outer loop: \<open>Inl\<close> is a \<^verbatim>\<open>return\<close>, \<open>Inr\<close> the next pass.\<close>

definition bisect_narrow :: "stepcompress \<Rightarrow> int \<Rightarrow> int \<Rightarrow> int \<Rightarrow> int \<Rightarrow> int \<Rightarrow> int \<Rightarrow> bisect \<Rightarrow>
    (step_move + bisect) option" where
  "bisect_narrow sc interval n nextmin nextmax minp maxp b =
    (let nextaddfactor = c_div (n * (n - 1)) 2;
         nextreach = b_add b * nextaddfactor + interval * n in
     if \<not> list_all in32 [n * (n - 1), b_add b * nextaddfactor, interval * n, nextreach] then None
     else case limit_dev (sc_max_error sc) (n - 1) (narrow_side nextreach minp nextmin nextmax b) of
       None \<Rightarrow> None
     | Some b1 \<Rightarrow> (case limit_next n nextaddfactor minp maxp b1 of
         None \<Rightarrow> None
       | Some b2 \<Rightarrow>
         if b_minadd b2 > b_maxadd b2 then Some (Inl (pick_best b2))
         else Some (Inr (b2\<lparr>b_add := b_maxadd b2 - c_div (b_maxadd b2 - b_minadd b2) 4\<rparr>))))"

definition bisect_step :: "stepcompress \<Rightarrow> nat \<Rightarrow> bisect \<Rightarrow> (step_move + bisect) option" where
  "bisect_step sc qlast b =
    (case scan_loop sc qlast (b_add b) (b_outer_min b) (b_outer_max b) (b_outer_max b) 1 of
       None \<Rightarrow> None
     | Some (Inl (interval, count)) \<Rightarrow> Some (Inl (mk_move interval (int count) (b_add b)))
     | Some (Inr (nextmin, nextmax, interval, nextcount, minp, maxp)) \<Rightarrow>
       (let count = int nextcount - 1; addfactor = c_div (count * (count - 1)) 2;
            reach = b_add b * addfactor + interval * count in
        if \<not> list_all in32 [count * (count - 1), b_add b * addfactor, interval * count, reach] then None
        else
          let better = is_better reach interval b;
              b1 = (if better then record_best reach interval count b else b) in
          if better \<and> count > 0x200 then Some (Inl (pick_best b1))
          else bisect_narrow sc interval (int nextcount) nextmin nextmax minp maxp b1))"

text \<open>The outer loop; \<open>None\<close> would be a loop that never ends.\<close>

partial_function (option) bisect_loop :: "stepcompress \<Rightarrow> nat \<Rightarrow> bisect \<Rightarrow> step_move option option" where
  "bisect_loop sc qlast b =
    (case bisect_step sc qlast b of
       None \<Rightarrow> Some None
     | Some (Inl move) \<Rightarrow> Some (Some move)
     | Some (Inr b') \<Rightarrow> bisect_loop sc qlast b')"

declare bisect_loop.simps [code]

definition bisect_init :: "u32 \<times> u32 \<Rightarrow> bisect" where
  "bisect_init point =
    \<lparr>b_outer_min = sint (fst point), b_outer_max = sint (snd point), b_add = 0,
     b_minadd = - 0x8000, b_maxadd = 0x7fff, b_bestinterval = 0, b_bestcount = 1, b_bestadd = 1,
     b_bestreach = - (2 ^ 31), b_zerointerval = 0, b_zerocount = 0\<rparr>"

definition compress_bisect_add :: "stepcompress \<Rightarrow> step_move option" where
  "compress_bisect_add sc =
    (let qlast = (if sc_next sc > sc_pos sc + 65535 then sc_pos sc + 65535 else sc_next sc) in
     case minmax_point sc (sc_pos sc) of None \<Rightarrow> None
     | Some point \<Rightarrow> (case bisect_loop sc qlast (bisect_init point) of
         Some (Some move) \<Rightarrow> Some move
       | _ \<Rightarrow> None))"

section \<open>Checking\<close>

text \<open>\<open>Some True\<close> is the return of 0, \<open>Some False\<close> that of \<^verbatim>\<open>ERROR_RET\<close>.\<close>

fun check_points :: "stepcompress \<Rightarrow> u32 \<Rightarrow> u32 \<Rightarrow> u32 \<Rightarrow> nat \<Rightarrow> nat \<Rightarrow> bool option" where
  "check_points sc add interval p i 0 = Some True"
| "check_points sc add interval p i (Suc k) =
    (case minmax_point sc (sc_pos sc + i) of None \<Rightarrow> None
     | Some (minp, maxp) \<Rightarrow>
       let p' = p + interval in
       if p' < minp \<or> p' > maxp then Some False
       else if interval \<ge> 0x80000000 then Some False
       else check_points sc add (interval + add) p' (Suc i) k)"

definition check_line :: "stepcompress \<Rightarrow> step_move \<Rightarrow> bool option" where
  "check_line sc move =
    (if mv_count move = 0 \<or> (mv_interval move = 0 \<and> mv_add move = 0 \<and> mv_count move > 1)
        \<or> mv_interval move \<ge> 0x80000000 then Some False
     else check_points sc (scast (mv_add move)) (mv_interval move) 0 0 (unat (mv_count move)))"

section \<open>Interface\<close>

definition stepcompress_alloc :: "u32 \<Rightarrow> stepcompress" where
  "stepcompress_alloc oid =
    \<lparr>sc_queue = [], sc_pos = 0, sc_next = 0, sc_max_error = 0, sc_filter_ticks = 0,
     sc_last_step_clock = 0, sc_msg_queue = [], sc_oid = oid, sc_queue_step_msgtag = 0,
     sc_set_next_step_dir_msgtag = 0, sc_sdir = -1, sc_invert_sdir = 0, sc_next_step_clock = 0,
     sc_next_step_dir = 0, sc_last_position = 0, sc_history = []\<rparr>"

definition stepcompress_fill :: "u32 \<Rightarrow> u32 \<Rightarrow> u32 \<Rightarrow> stepcompress \<Rightarrow> stepcompress" where
  "stepcompress_fill max_error queue_step_msgtag set_next_step_dir_msgtag sc =
    sc\<lparr>sc_max_error := max_error, sc_queue_step_msgtag := queue_step_msgtag,
       sc_set_next_step_dir_msgtag := set_next_step_dir_msgtag\<rparr>"

definition stepcompress_set_invert_sdir :: "u32 \<Rightarrow> stepcompress \<Rightarrow> stepcompress" where
  "stepcompress_set_invert_sdir invert_sdir sc =
    (let inv = (if invert_sdir \<noteq> 0 then 1 else 0) in
     if inv \<noteq> sc_invert_sdir sc
     then sc\<lparr>sc_invert_sdir := inv, sc_sdir := (if sc_sdir sc \<ge> 0 then sc_sdir sc XOR 1 else sc_sdir sc)\<rparr>
     else sc)"

text \<open>The history list has its newest entry first; the oldest ones are freed.\<close>

definition free_history :: "u64 \<Rightarrow> stepcompress \<Rightarrow> stepcompress" where
  "free_history end_clock sc =
    sc\<lparr>sc_history := rev (dropWhile (\<lambda>hs. \<not> hs_last_clock hs > end_clock) (rev (sc_history sc)))\<rparr>"

definition stepcompress_history_expire :: "u64 \<Rightarrow> stepcompress \<Rightarrow> stepcompress" where
  "stepcompress_history_expire end_clock sc = free_history end_clock sc"

definition stepcompress_get_oid :: "stepcompress \<Rightarrow> u32" where
  "stepcompress_get_oid sc = sc_oid sc"

definition stepcompress_get_step_dir :: "stepcompress \<Rightarrow> int" where
  "stepcompress_get_step_dir sc = sc_next_step_dir sc"

definition CLOCK_DIFF_MAX :: u64 where
  "CLOCK_DIFF_MAX = 0x30000000"

definition list_add_msg :: "queue_message \<Rightarrow> stepcompress \<Rightarrow> stepcompress" where
  "list_add_msg qm sc = sc\<lparr>sc_msg_queue := sc_msg_queue sc @ [qm]\<rparr>"

text \<open>The clock of the last step of a move: the product with \<^verbatim>\<open>addfactor\<close> is signed.\<close>

definition move_ticks :: "step_move \<Rightarrow> u32 option" where
  "move_ticks move =
    (let n = uint (mv_count move); addfactor = c_div (n * (n - 1)) 2;
         a = sint (mv_add move) * addfactor in
     if \<not> list_all in32 [n * (n - 1), a] then None
     else Some (word_of_int a + mv_interval move * word_of_int (n - 1)))"

definition move_history :: "u64 \<Rightarrow> u64 \<Rightarrow> step_move \<Rightarrow> stepcompress \<Rightarrow> stepcompress" where
  "move_history first_clock last_clock move sc =
    (let step_count = (if sc_sdir sc \<noteq> 0 then uint (mv_count move) else - uint (mv_count move));
         hs = \<lparr>hs_first_clock = first_clock, hs_last_clock = last_clock,
               hs_start_position = sc_last_position sc, hs_step_count = step_count,
               hs_interval = sint (mv_interval move), hs_add = sint (mv_add move)\<rparr>
     in sc\<lparr>sc_last_position := sc_last_position sc + word_of_int step_count,
           sc_history := hs # sc_history sc\<rparr>)"

definition add_move :: "u64 \<Rightarrow> step_move \<Rightarrow> (stepcompress, unit) fw" where
  "add_move first_clock move sc =
    (case move_ticks move of None \<Rightarrow> (Inl Stuck, sc)
     | Some ticks \<Rightarrow>
       let last_clock = first_clock + ucast ticks in
       (case message_alloc_and_encode [sc_queue_step_msgtag sc, sc_oid sc, mv_interval move,
           ucast (mv_count move), scast (mv_add move)] of None \<Rightarrow> (Inl Stuck, sc)
        | Some qm \<Rightarrow>
          let lsc = sc_last_step_clock sc;
              req = (if mv_count move = 1 \<and> first_clock \<ge> lsc + CLOCK_DIFF_MAX then first_clock else lsc);
              sc1 = list_add_msg (qm\<lparr>qm_min_clock := lsc, qm_req_clock := req\<rparr>) sc
          in (Inr (), move_history first_clock last_clock move (sc1\<lparr>sc_last_step_clock := last_clock\<rparr>))))"

lemma add_move_pos [simp]:
  "sc_pos (snd (add_move c m sc)) = sc_pos sc" "sc_next (snd (add_move c m sc)) = sc_next sc"
  "sc_queue (snd (add_move c m sc)) = sc_queue sc"
  by (simp_all add: add_move_def move_history_def list_add_msg_def Let_def split: option.splits)

lemma add_move_keeps:
  "add_move c m sc = (r, sc') \<Longrightarrow> sc_pos sc' = sc_pos sc \<and> sc_next sc' = sc_next sc \<and> sc_queue sc' = sc_queue sc"
  by (metis add_move_pos snd_conv)

lemma check_line_count: "check_line sc move = Some True \<Longrightarrow> 0 < unat (mv_count move)"
  by (simp add: check_line_def unat_gt_0 split: if_splits)

function flush_loop :: "u64 \<Rightarrow> (stepcompress, int) fw" where
  "flush_loop move_clock sc =
    (if sc_last_step_clock sc < move_clock then
       case compress_bisect_add sc of None \<Rightarrow> (Inl Stuck, sc)
       | Some move \<Rightarrow> (case check_line sc move of
           None \<Rightarrow> (Inl Stuck, sc)
         | Some False \<Rightarrow> (Inr (-1), sc)
         | Some True \<Rightarrow>
           (case add_move (sc_last_step_clock sc + ucast (mv_interval move)) move sc of
             (Inl e, sc1) \<Rightarrow> (Inl e, sc1)
           | (Inr u, sc1) \<Rightarrow>
             if sc_pos sc1 + unat (mv_count move) \<ge> sc_next sc1
             then (Inr 0, sc1\<lparr>sc_pos := 0, sc_next := 0\<rparr>)
             else flush_loop move_clock (sc1\<lparr>sc_pos := sc_pos sc1 + unat (mv_count move)\<rparr>)))
     else (Inr 0, sc))"
  by pat_completeness auto
termination
  by (relation "measure (\<lambda>(_, sc). sc_next sc - sc_pos sc)")
    (auto dest!: check_line_count add_move_keeps [OF sym])

declare flush_loop.simps [simp del]

definition queue_flush :: "u64 \<Rightarrow> (stepcompress, int) fw" where
  "queue_flush move_clock sc = (if sc_pos sc \<ge> sc_next sc then (Inr 0, sc) else flush_loop move_clock sc)"

definition stepcompress_flush_far :: "u64 \<Rightarrow> (stepcompress, int) fw" where
  "stepcompress_flush_far abs_step_clock =
    bnd (gets (\<lambda>sc. ucast (abs_step_clock - sc_last_step_clock sc))) (\<lambda>interval.
    thn (add_move abs_step_clock \<lparr>mv_interval = interval, mv_count = 1, mv_add = 0\<rparr>) (ret 0))"

text \<open>Continue after a call that returned 0, return its error otherwise.\<close>

definition on_ok :: "('s, int) fw \<Rightarrow> ('s, int) fw \<Rightarrow> ('s, int) fw" where
  "on_ok m n = bnd m (\<lambda>r. if r \<noteq> 0 then ret r else n)"

definition queue_msg :: "u32 list \<Rightarrow> (queue_message \<Rightarrow> queue_message) \<Rightarrow> (stepcompress, int) fw" where
  "queue_msg msg f =
    (case message_alloc_and_encode msg of None \<Rightarrow> stuck
     | Some qm \<Rightarrow> thn (upd (list_add_msg (f qm))) (ret 0))"

definition set_next_step_dir :: "int \<Rightarrow> (stepcompress, int) fw" where
  "set_next_step_dir sdir =
    bnd (gets sc_sdir) (\<lambda>cur. if cur = sdir then ret 0
    else on_ok (queue_flush (-1))
      (thn (upd (\<lambda>sc. sc\<lparr>sc_sdir := sdir\<rparr>))
      (bnd (gets (\<lambda>sc. sc)) (\<lambda>sc.
        queue_msg [sc_set_next_step_dir_msgtag sc, sc_oid sc, of_int (sdir XOR sc_invert_sdir sc)]
          (\<lambda>qm. qm\<lparr>qm_req_clock := sc_last_step_clock sc\<rparr>)))))"

text \<open>\<^verbatim>\<open>*sc->queue_next++ = clock\<close>; a write outside the array is \<open>Stuck\<close>.\<close>

definition queue_put :: "u64 \<Rightarrow> (stepcompress, unit) fw" where
  "queue_put clock sc =
    (if sc_next sc < length (sc_queue sc)
     then (Inr (), sc\<lparr>sc_queue := (sc_queue sc)[sc_next sc := ucast clock], sc_next := Suc (sc_next sc)\<rparr>)
     else (Inl Stuck, sc))"

definition queue_append_far :: "(stepcompress, int) fw" where
  "queue_append_far =
    bnd (gets sc_next_step_clock) (\<lambda>step_clock.
    thn (upd (\<lambda>sc. sc\<lparr>sc_next_step_clock := 0\<rparr>))
    (on_ok (queue_flush (step_clock - CLOCK_DIFF_MAX + 1))
    (bnd (gets sc_last_step_clock) (\<lambda>lsc.
      if step_clock \<ge> lsc + CLOCK_DIFF_MAX then stepcompress_flush_far step_clock
      else thn (queue_put step_clock) (ret 0)))))"

definition QUEUE_START_SIZE :: nat where
  "QUEUE_START_SIZE = 1024"

text \<open>The doubling of the allocation, until the steps in use fit.\<close>

function alloc_size :: "nat \<Rightarrow> nat \<Rightarrow> nat" where
  "alloc_size in_use alloc = (if in_use \<ge> alloc \<and> 0 < alloc then alloc_size in_use (alloc * 2) else alloc)"
  by pat_completeness auto
termination
  by (relation "measure (\<lambda>(in_use, alloc). Suc in_use - alloc)") auto

declare alloc_size.simps [simp del]

text \<open>
  \<^verbatim>\<open>memmove\<close> of the steps in use to the front, or \<^verbatim>\<open>realloc\<close>, whose new cells (zero
  here) are not read before they are written.
\<close>

definition make_room :: "stepcompress \<Rightarrow> stepcompress" where
  "make_room sc =
    (let in_use = sc_next sc - sc_pos sc; used = take in_use (drop (sc_pos sc) (sc_queue sc)) in
     if sc_pos sc > 0
     then sc\<lparr>sc_queue := used @ drop in_use (sc_queue sc), sc_pos := 0, sc_next := in_use\<rparr>
     else
       let alloc = (if sc_queue sc = [] then QUEUE_START_SIZE else length (sc_queue sc));
           alloc' = alloc_size in_use alloc
       in sc\<lparr>sc_queue := sc_queue sc @ replicate (alloc' - length (sc_queue sc)) 0,
             sc_pos := 0, sc_next := in_use\<rparr>)"

definition queue_append_extend :: "(stepcompress, int) fw" where
  "queue_append_extend =
    bnd (gets (\<lambda>sc. sc)) (\<lambda>sc.
    on_ok
      (if sc_next sc - sc_pos sc > 65535 + 2000
       then let flush = sc_queue sc ! (sc_next sc - 65535) - ucast (sc_last_step_clock sc)
            in queue_flush (sc_last_step_clock sc + ucast flush)
       else ret 0)
    (thn (upd (\<lambda>sc. if sc_next sc \<ge> length (sc_queue sc) then make_room sc else sc))
    (bnd (gets sc_next_step_clock) (\<lambda>clock.
    thn (queue_put clock)
    (thn (upd (\<lambda>sc. sc\<lparr>sc_next_step_clock := 0\<rparr>)) (ret 0))))))"

definition queue_append :: "(stepcompress, int) fw" where
  "queue_append =
    bnd (gets (\<lambda>sc. sc)) (\<lambda>sc0.
    on_ok (if sc_next_step_dir sc0 \<noteq> sc_sdir sc0 then set_next_step_dir (sc_next_step_dir sc0) else ret 0)
    (bnd (gets (\<lambda>sc. sc)) (\<lambda>sc.
      if sc_next_step_clock sc \<ge> sc_last_step_clock sc + CLOCK_DIFF_MAX then queue_append_far
      else if sc_next sc \<ge> length (sc_queue sc) then queue_append_extend
      else thn (queue_put (sc_next_step_clock sc))
        (thn (upd (\<lambda>sc. sc\<lparr>sc_next_step_clock := 0\<rparr>)) (ret 0)))))"

text \<open>
  \<^verbatim>\<open>stepcompress_append\<close> after its conversion of the step time to \<open>step_clock\<close>;
  \<^term>\<open>sc_filter_ticks\<close> is \<^verbatim>\<open>SDS_FILTER_TIME * mcu_freq\<close>, rounded up to an integer.
\<close>

definition stepcompress_append :: "int \<Rightarrow> u64 \<Rightarrow> (stepcompress, int) fw" where
  "stepcompress_append sdir step_clock =
    bnd (gets (\<lambda>sc. sc)) (\<lambda>sc.
    let store = thn (upd (\<lambda>sc. sc\<lparr>sc_next_step_clock := step_clock, sc_next_step_dir := sdir\<rparr>)) (ret 0) in
    if sc_next_step_clock sc \<noteq> 0 then
      if sdir \<noteq> sc_next_step_dir sc \<and> sint (step_clock - sc_next_step_clock sc) < sc_filter_ticks sc
      then thn (upd (\<lambda>sc. sc\<lparr>sc_next_step_clock := 0, sc_next_step_dir := sdir\<rparr>)) (ret 0)
      else on_ok queue_append store
    else store)"

definition stepcompress_commit :: "(stepcompress, int) fw" where
  "stepcompress_commit =
    bnd (gets sc_next_step_clock) (\<lambda>clock. if clock \<noteq> 0 then queue_append else ret 0)"

definition stepcompress_flush :: "u64 \<Rightarrow> (stepcompress, int) fw" where
  "stepcompress_flush move_clock =
    bnd (gets sc_next_step_clock) (\<lambda>clock.
    on_ok (if clock \<noteq> 0 \<and> move_clock \<ge> clock then queue_append else ret 0)
      (queue_flush move_clock))"

definition stepcompress_reset :: "u64 \<Rightarrow> (stepcompress, int) fw" where
  "stepcompress_reset last_step_clock =
    on_ok (stepcompress_flush (-1))
    (thn (upd (\<lambda>sc. sc\<lparr>sc_last_step_clock := last_step_clock, sc_sdir := -1\<rparr>)) (ret 0))"

definition stepcompress_set_last_position :: "u64 \<Rightarrow> u64 \<Rightarrow> (stepcompress, int) fw" where
  "stepcompress_set_last_position clock last_position =
    on_ok (stepcompress_flush (-1))
    (thn (upd (\<lambda>sc. sc\<lparr>sc_last_position := last_position, sc_history :=
        \<lparr>hs_first_clock = clock, hs_last_clock = clock, hs_start_position = last_position,
         hs_step_count = 0, hs_interval = 0, hs_add = 0\<rparr> # sc_history sc\<rparr>)) (ret 0))"

definition stepcompress_queue_msg :: "u32 list \<Rightarrow> (stepcompress, int) fw" where
  "stepcompress_queue_msg data =
    on_ok (stepcompress_flush (-1))
    (bnd (gets sc_last_step_clock) (\<lambda>lsc. queue_msg data (\<lambda>qm. qm\<lparr>qm_req_clock := lsc\<rparr>)))"

definition stepcompress_queue_mq_msg :: "u64 \<Rightarrow> u32 list \<Rightarrow> (stepcompress, int) fw" where
  "stepcompress_queue_mq_msg req_clock data =
    on_ok (stepcompress_flush (-1))
    (queue_msg data (\<lambda>qm. qm\<lparr>qm_min_clock := req_clock, qm_req_clock := req_clock\<rparr>))"

text \<open>
  The position at a past clock; \<open>solve interval add ticks\<close> stands for the solution of the
  quadratic in \<^verbatim>\<open>double\<close> arithmetic.  \<open>None\<close> is a signed overflow or a division by zero.
\<close>

definition past_offset :: "(int \<Rightarrow> int \<Rightarrow> int \<Rightarrow> int) \<Rightarrow> u64 \<Rightarrow> history_steps \<Rightarrow> int option" where
  "past_offset solve clock hs =
    (let interval = hs_interval hs;
         ticks = sint (ucast (clock - hs_first_clock hs) :: u32) + interval in
     if \<not> in32 ticks then None
     else if hs_add hs = 0 then (if interval = 0 then None else Some (c_div ticks interval))
     else Some (solve interval (hs_add hs) ticks))"

fun past_position :: "(int \<Rightarrow> int \<Rightarrow> int \<Rightarrow> int) \<Rightarrow> u64 \<Rightarrow> u64 \<Rightarrow> history_steps list \<Rightarrow> u64 option" where
  "past_position solve clock last_position [] = Some last_position"
| "past_position solve clock last_position (hs # hist) =
    (if clock < hs_first_clock hs then past_position solve clock (hs_start_position hs) hist
     else if clock \<ge> hs_last_clock hs then Some (hs_start_position hs + word_of_int (hs_step_count hs))
     else map_option (\<lambda>offset. if hs_step_count hs < 0 then hs_start_position hs - word_of_int offset
         else hs_start_position hs + word_of_int offset) (past_offset solve clock hs))"

definition stepcompress_find_past_position ::
    "(int \<Rightarrow> int \<Rightarrow> int \<Rightarrow> int) \<Rightarrow> u64 \<Rightarrow> stepcompress \<Rightarrow> u64 option" where
  "stepcompress_find_past_position solve clock sc =
    past_position solve clock (sc_last_position sc) (sc_history sc)"

text \<open>The entries copied for the caller, newest first, at most \<open>max\<close> of them.\<close>

fun extract_old :: "nat \<Rightarrow> u64 \<Rightarrow> u64 \<Rightarrow> history_steps list \<Rightarrow> history_steps list" where
  "extract_old k start_clock end_clock [] = []"
| "extract_old k start_clock end_clock (hs # hist) =
    (if start_clock \<ge> hs_last_clock hs \<or> k = 0 then []
     else if end_clock \<le> hs_first_clock hs then extract_old k start_clock end_clock hist
     else hs # extract_old (k - 1) start_clock end_clock hist)"

definition stepcompress_extract_old :: "nat \<Rightarrow> u64 \<Rightarrow> u64 \<Rightarrow> stepcompress \<Rightarrow> history_steps list" where
  "stepcompress_extract_old k start_clock end_clock sc = extract_old k start_clock end_clock (sc_history sc)"

lemma c_div_nonneg: "0 \<le> n \<Longrightarrow> 0 < d \<Longrightarrow> c_div n d = n div d"
  by (simp add: c_div_def sgn_if)

lemma in32I: "\<bar>x\<bar> < 2 ^ 30 \<Longrightarrow> in32 x"
  unfolding in32_def by (simp add: abs_less_iff)

lemma uint_below: "unat (w :: u32) < 2 ^ 30 \<Longrightarrow> uint w < 2 ^ 30"
  unfolding uint_nat by (metis of_nat_less_iff of_nat_numeral of_nat_power)

section \<open>Accepted moves are exact\<close>

text \<open>The pending steps, and their clocks relative to the last step.\<close>

definition pend :: "stepcompress \<Rightarrow> u32 list" where
  "pend sc = take (sc_next sc - sc_pos sc) (drop (sc_pos sc) (sc_queue sc))"

definition due :: "stepcompress \<Rightarrow> nat list" where
  "due sc = map (\<lambda>q. unat (q - ucast (sc_last_step_clock sc))) (pend sc)"

text \<open>
  The pending steps are in the array, in order of time, and none is further than
  \<^const>\<open>CLOCK_DIFF_MAX\<close> from the last step.
\<close>

definition pending_ok :: "stepcompress \<Rightarrow> bool" where
  "pending_ok sc \<longleftrightarrow> sc_pos sc \<le> sc_next sc \<and> sc_next sc \<le> length (sc_queue sc) \<and> sorted (due sc) \<and>
    list_all (\<lambda>t. t < unat CLOCK_DIFF_MAX) (due sc)"

lemma length_due: "pending_ok sc \<Longrightarrow> length (due sc) = sc_next sc - sc_pos sc"
  by (auto simp: pending_ok_def due_def pend_def)

lemma nth_due:
  "pending_ok sc \<Longrightarrow> i < sc_next sc - sc_pos sc \<Longrightarrow>
    due sc ! i = unat (sc_queue sc ! (sc_pos sc + i) - ucast (sc_last_step_clock sc))"
  by (auto simp: pending_ok_def due_def pend_def)

lemma due_bound: "pending_ok sc \<Longrightarrow> i < length (due sc) \<Longrightarrow> due sc ! i < 2 ^ 30"
  by (auto simp: pending_ok_def list_all_length CLOCK_DIFF_MAX_def dest!: spec [of _ i])

lemma minmax_point_pending:
  assumes "pending_ok sc" and "i < sc_next sc - sc_pos sc"
    and "minmax_point sc (sc_pos sc + i) = Some (minp, maxp)"
  shows "unat maxp = due sc ! i" and "unat minp \<le> due sc ! i"
    and "due sc ! i - unat minp \<le> unat (sc_max_error sc)"
    and "0 < i \<Longrightarrow> due sc ! (i - 1) \<le> unat minp"
proof -
  define d where "d j = sc_queue sc ! (sc_pos sc + j) - ucast (sc_last_step_clock sc)" for j
  have u: "unat (d j) = due sc ! j" if "j \<le> i" for j
    using nth_due [OF assms(1), of j] assms(2) that by (simp add: d_def)
  define prev where "prev = (if 0 < i then d (i - 1) else 0)"
  define e where "e = (let e = (d i - prev) div 2 in if e > sc_max_error sc then sc_max_error sc else e)"
  have mm: "minp = d i - e" "maxp = d i"
    using assms(3) by (auto simp: minmax_point_def Let_def e_def d_def prev_def split: if_splits)
  have s: "unat prev \<le> unat (d i)"
  proof (cases "0 < i")
    case True
    have "due sc ! (i - 1) \<le> due sc ! i"
      using assms(1,2) length_due [OF assms(1)] unfolding pending_ok_def by (intro sorted_nth_mono) auto
    then show ?thesis using True u [of i] u [of "i - 1"] by (simp add: prev_def)
  qed (simp add: prev_def)
  then have pd: "unat (d i - prev) = unat (d i) - unat prev" by (simp add: unat_sub word_le_nat_alt)
  have "unat e \<le> unat ((d i - prev) div 2)" "unat e \<le> unat (sc_max_error sc)"
    by (auto simp: e_def Let_def word_less_nat_alt)
  then have e: "unat e \<le> (unat (d i) - unat prev) div 2" "unat e \<le> unat (sc_max_error sc)"
    unfolding unat_div pd by simp_all
  have "unat e \<le> unat (d i)" using e(1) by linarith
  then have m: "unat minp = unat (d i) - unat e" by (simp add: mm unat_sub word_le_nat_alt)
  show "unat maxp = due sc ! i" "unat minp \<le> due sc ! i" using m u [of i] by (simp_all add: mm)
  show "due sc ! i - unat minp \<le> unat (sc_max_error sc)" using m e(2) u [of i] by simp
  show "due sc ! (i - 1) \<le> unat minp" if "0 < i"
    using m e(1) u [of "i - 1"] s that by (simp add: prev_def)
qed

lemma check_points_True:
  "check_points sc a v p i k = Some True \<Longrightarrow> j < k \<Longrightarrow>
    \<exists>mn mx. minmax_point sc (sc_pos sc + (i + j)) = Some (mn, mx) \<and>
      mn \<le> p + (of_nat (Suc j) * v + of_nat (Suc j * (Suc j - 1) div 2) * a) \<and>
      p + (of_nat (Suc j) * v + of_nat (Suc j * (Suc j - 1) div 2) * a) \<le> mx \<and>
      v + of_nat j * a < 0x80000000"
proof (induction k arbitrary: v p i j)
  case (Suc k)
  obtain mn mx where m: "minmax_point sc (sc_pos sc + i) = Some (mn, mx)"
    and b: "mn \<le> p + v" "p + v \<le> mx" "v < 0x80000000"
    and r: "check_points sc a (v + a) (p + v) (Suc i) k = Some True"
    using Suc.prems(1) by (auto simp: Let_def not_less not_le split: option.splits if_splits)
  show ?case
  proof (cases j)
    case 0
    then show ?thesis using m b by simp
  next
    case (Suc j')
    have t: "Suc (Suc j') * (Suc (Suc j') - 1) div 2 = Suc j' * (Suc j' - 1) div 2 + Suc j'"
      by (rule triangle_Suc)
    have e: "p + v + (of_nat (Suc j') * (v + a) + of_nat (Suc j' * (Suc j' - 1) div 2) * a) =
        p + (of_nat (Suc j) * v + of_nat (Suc j * (Suc j - 1) div 2) * a)"
      unfolding Suc t of_nat_add by (simp add: algebra_simps)
    have f: "v + a + of_nat j' * a = v + of_nat j * a" "sc_pos sc + (Suc i + j') = sc_pos sc + (i + j)"
      using Suc by (simp_all add: algebra_simps)
    have "j' < k" using Suc.prems(2) Suc by simp
    from Suc.IH [OF r this] show ?thesis unfolding e f .
  qed
qed simp

text \<open>The times of a move in the integers, without wrap-around.\<close>

definition int_offset :: "step_move \<Rightarrow> nat \<Rightarrow> int" where
  "int_offset m n = int n * uint (mv_interval m) + sint (mv_add m) * int (n * (n - 1) div 2)"

definition int_interval :: "step_move \<Rightarrow> nat \<Rightarrow> int" where
  "int_interval m n = uint (mv_interval m) + int n * sint (mv_add m)"

lemma int_offset_Suc: "int_offset m (Suc n) = int_offset m n + int_interval m n"
  unfolding int_offset_def int_interval_def triangle_Suc by (simp add: algebra_simps)

lemma step_offset_int: "step_offset (mv_interval m) (mv_add m) n = word_of_int (int_offset m n)"
proof -
  have "scast (mv_add m) = (word_of_int (sint (mv_add m)) :: u32)" by simp
  then show ?thesis by (simp add: step_offset_def int_offset_def mult.commute)
qed

lemma interval_int:
  "mv_interval m + of_nat n * scast (mv_add m) = (word_of_int (int_interval m n) :: u32)"
proof -
  have "scast (mv_add m) = (word_of_int (sint (mv_add m)) :: u32)" by simp
  then show ?thesis by (simp add: int_interval_def)
qed

lemma sint16: "- 32768 \<le> sint (a :: u16)" "sint (a :: u16) < 32768"
  using sint_ge [of a] sint_lt [of a] by simp_all

lemma word_of_int_sint16: "word_of_int (sint (a :: u16)) = a"
  by simp

lemma word_of_int_range: "0 \<le> k \<Longrightarrow> k < 2 ^ 32 \<Longrightarrow> uint (word_of_int k :: u32) = k"
  by (simp add: uint_word_of_int)

text \<open>
  When every prefix of the sequence stays below \<open>2 ^ 30\<close> and every interval below \<open>2 ^ 31\<close>, as
  unsigned numbers, no step of the recurrence wraps.
\<close>

lemma no_wrap:
  assumes "\<And>j. j < n \<Longrightarrow> unat (step_offset (mv_interval m) (mv_add m) (Suc j)) < 2 ^ 30"
    and "\<And>j. j < n \<Longrightarrow> mv_interval m + of_nat j * scast (mv_add m) < 0x80000000"
    and "k \<le> n"
  shows "0 \<le> int_offset m k \<and> int_offset m k < 2 ^ 30 \<and>
    (\<forall>j < k. 0 \<le> int_interval m j \<and> int_interval m j < 2 ^ 31)"
  using assms(3)
proof (induction k)
  case 0
  then show ?case by (simp add: int_offset_def)
next
  case (Suc k)
  then have k: "k < n" and IH: "0 \<le> int_offset m k" "int_offset m k < 2 ^ 30"
    "\<forall>j < k. 0 \<le> int_interval m j \<and> int_interval m j < 2 ^ 31" by simp_all
  have r: "- 32768 \<le> int_interval m k \<and> int_interval m k < 2 ^ 31 + 32768"
  proof (cases k)
    case 0
    have "mv_interval m < 0x80000000" using assms(2) [of 0] k 0 by simp
    then have "uint (mv_interval m) < 2 ^ 31" by (simp add: word_less_def)
    moreover have "0 \<le> uint (mv_interval m)" by simp
    moreover have "int_interval m k = uint (mv_interval m)" by (simp add: int_interval_def 0)
    ultimately show ?thesis by linarith
  next
    case (Suc j)
    then have "int_interval m k = int_interval m j + sint (mv_add m)"
      by (simp add: int_interval_def algebra_simps)
    then show ?thesis using IH(3) Suc sint16 [of "mv_add m"] by fastforce
  qed
  have w: "uint (word_of_int (int_interval m k) :: u32) < 2 ^ 31"
    using assms(2) [OF k] unfolding interval_int by (simp add: word_less_def)
  have nn: "0 \<le> int_interval m k"
  proof (rule ccontr)
    assume "\<not> 0 \<le> int_interval m k"
    then have "(int_interval m k + 2 ^ 32) mod 2 ^ 32 = int_interval m k + 2 ^ 32"
      using r by (intro mod_pos_pos_trivial) simp_all
    then have "uint (word_of_int (int_interval m k) :: u32) = int_interval m k + 2 ^ 32"
      by (simp add: uint_word_of_int)
    then show False using w r by simp
  qed
  have "uint (word_of_int (int_interval m k) :: u32) = int_interval m k"
    using word_of_int_range [OF nn] r by simp
  then have lt: "int_interval m k < 2 ^ 31" using w by simp
  have "uint (word_of_int (int_offset m (Suc k)) :: u32) < 2 ^ 30"
    using assms(1) [OF k] unfolding step_offset_int by (rule uint_below)
  moreover have "0 \<le> int_offset m (Suc k)" "int_offset m (Suc k) < 2 ^ 32"
    using IH nn lt by (simp_all add: int_offset_Suc)
  ultimately have "int_offset m (Suc k) < 2 ^ 30" using word_of_int_range by simp
  then show ?case using IH nn lt \<open>0 \<le> int_offset m (Suc k)\<close> by (auto simp: less_Suc_eq)
qed


lemma tri_double: "2 * int (n * (n - 1) div 2) = int n * (int n - 1)"
proof (cases n)
  case (Suc k)
  have "even (n * (n - 1))" by auto
  then have "2 * (n * (n - 1) div 2) = n * (n - 1)" by simp
  then have "2 * int (n * (n - 1) div 2) = int (n * (n - 1))" by presburger
  then show ?thesis using Suc by (simp add: algebra_simps)
qed simp

text \<open>Then the part of the distance that \<^verbatim>\<open>add\<close> contributes is no longer than the distance.\<close>

lemma add_part_bound:
  assumes "0 < n" and "\<forall>j < n. 0 \<le> int_interval m j"
  shows "\<bar>sint (mv_add m)\<bar> * int (n * (n - 1) div 2) \<le> int_offset m n"
proof (cases "sint (mv_add m) \<ge> 0")
  case True
  have "0 \<le> int n * uint (mv_interval m)" by simp
  then show ?thesis using True by (simp add: int_offset_def)
next
  case False
  have "0 \<le> int_interval m (n - 1)" using assms by simp
  then have "- sint (mv_add m) * (int n - 1) \<le> uint (mv_interval m)"
    using assms(1) by (simp add: int_interval_def of_nat_diff algebra_simps)
  then have "int n * (- sint (mv_add m) * (int n - 1)) \<le> int n * uint (mv_interval m)"
    by (rule mult_left_mono) simp
  then have "- sint (mv_add m) * (2 * int (n * (n - 1) div 2)) \<le> int n * uint (mv_interval m)"
    unfolding tri_double by (simp add: algebra_simps)
  then show ?thesis using False by (simp add: int_offset_def)
qed

lemma move_ticks_exact:
  assumes "n = unat (mv_count m)" and "0 < n" and "\<forall>j < n. 0 \<le> int_interval m j"
    and "int_offset m n < 2 ^ 30" and "mv_add m \<noteq> 0 \<or> n \<le> 46341"
  shows "move_ticks m = Some (word_of_int (int_offset m n - uint (mv_interval m)))"
proof -
  let ?t = "int (n * (n - 1) div 2)" and ?a = "sint (mv_add m)"
  have u: "uint (mv_count m) = int n" unfolding assms(1) by (rule uint_nat)
  have p: "0 \<le> int n * (int n - 1)" using assms(2) by simp
  have "c_div (int n * (int n - 1)) 2 = int n * (int n - 1) div 2" by (rule c_div_nonneg [OF p]) simp
  then have c: "c_div (int n * (int n - 1)) 2 = ?t" using tri_double [of n] by simp
  have b: "\<bar>?a\<bar> * ?t < 2 ^ 30" using add_part_bound [OF assms(2,3)] assms(4) by linarith
  have "\<bar>?a * ?t\<bar> < 2 ^ 30" using b unfolding abs_mult by simp
  then have a: "in32 (?a * ?t)" by (rule in32I)
  have nn: "int n * (int n - 1) < 2 ^ 31"
  proof (cases "mv_add m = 0")
    case True
    then have "int n * (int n - 1) \<le> 46341 * 46340" using assms(2,5) by (intro mult_mono) simp_all
    then show ?thesis by simp
  next
    case False
    then have "word_of_int ?a \<noteq> (0 :: u16)" unfolding word_of_int_sint16 .
    then have "?a \<noteq> 0" by fastforce
    then have "1 \<le> \<bar>?a\<bar>" by linarith
    then have "1 * ?t \<le> \<bar>?a\<bar> * ?t" by (intro mult_right_mono) simp_all
    then show ?thesis using b tri_double [of n] by simp
  qed
  have i: "in32 (int n * (int n - 1))" using nn p unfolding in32_def by linarith
  have "word_of_int (?a * ?t) + mv_interval m * word_of_int (int n - 1) =
      (word_of_int (int_offset m n - uint (mv_interval m)) :: u32)"
    by (simp add: int_offset_def algebra_simps)
  then show ?thesis using a i c u by (simp add: move_ticks_def Let_def)
qed

text \<open>The clock of the \<open>j\<close>-th step of a move, relative to the step before the move.\<close>

abbreviation move_step :: "step_move \<Rightarrow> nat \<Rightarrow> u32" where
  "move_step m \<equiv> step_offset (mv_interval m) (mv_add m)"

lemma check_line_exact:
  assumes "pending_ok sc" and "check_line sc m = Some True"
    and "n = unat (mv_count m)" and "n \<le> sc_next sc - sc_pos sc"
  shows "0 < n"
    and "\<And>j. j < n \<Longrightarrow> unat (move_step m (Suc j)) \<le> due sc ! j \<and>
      due sc ! j - unat (move_step m (Suc j)) \<le> unat (sc_max_error sc)"
    and "k \<le> n \<Longrightarrow> int (unat (move_step m k)) = int_offset m k"
    and "\<forall>j < n. 0 \<le> int_interval m j"
    and "int_offset m n < 2 ^ 30"
proof -
  show "0 < n" using check_line_count [OF assms(2)] assms(3) by simp
  have c: "check_points sc (scast (mv_add m)) (mv_interval m) 0 0 n = Some True"
    using assms(2,3) by (simp add: check_line_def split: if_splits)
  have pt: "unat (move_step m (Suc j)) \<le> due sc ! j \<and>
      due sc ! j - unat (move_step m (Suc j)) \<le> unat (sc_max_error sc) \<and>
      mv_interval m + of_nat j * scast (mv_add m) < (0x80000000 :: u32)" if "j < n" for j
  proof -
    from check_points_True [OF c that] obtain mn mx where
      mm: "minmax_point sc (sc_pos sc + j) = Some (mn, mx)"
      and b: "mn \<le> move_step m (Suc j)" "move_step m (Suc j) \<le> mx"
        "mv_interval m + of_nat j * scast (mv_add m) < (0x80000000 :: u32)"
      by (auto simp: step_offset_def)
    have j: "j < sc_next sc - sc_pos sc" using that assms(4) by simp
    show ?thesis
      using minmax_point_pending [OF assms(1) j mm] b unfolding word_le_nat_alt by simp
  qed
  then show "\<And>j. j < n \<Longrightarrow> unat (move_step m (Suc j)) \<le> due sc ! j \<and>
      due sc ! j - unat (move_step m (Suc j)) \<le> unat (sc_max_error sc)" by blast
  have l: "unat (move_step m (Suc j)) < 2 ^ 30" if "j < n" for j
    using pt [OF that] due_bound [OF assms(1), of j] length_due [OF assms(1)] that assms(4) by simp
  have i: "mv_interval m + of_nat j * scast (mv_add m) < (0x80000000 :: u32)" if "j < n" for j
    using pt [OF that] by blast
  have w: "0 \<le> int_offset m k \<and> int_offset m k < 2 ^ 30 \<and>
      (\<forall>j < k. 0 \<le> int_interval m j \<and> int_interval m j < 2 ^ 31)" if "k \<le> n" for k
    by (rule no_wrap [of n m]) (fact l i that)+
  show "\<forall>j < n. 0 \<le> int_interval m j" using w [of n] by simp
  show "int_offset m n < 2 ^ 30" using w [of n] by simp
  show "int (unat (move_step m k)) = int_offset m k" if "k \<le> n"
  proof -
    have "uint (move_step m k) = int_offset m k"
      using w [OF that] word_of_int_range [of "int_offset m k"] unfolding step_offset_int by simp
    then show ?thesis by simp
  qed
qed

text \<open>What a move adds to the state; the clock of its last step is exact.\<close>

lemma add_move_exact:
  assumes "pending_ok sc" and "check_line sc m = Some True" and "n = unat (mv_count m)"
    and "n \<le> sc_next sc - sc_pos sc" and "mv_add m \<noteq> 0 \<or> n \<le> 46341"
    and "message_alloc_and_encode [sc_queue_step_msgtag sc, sc_oid sc, mv_interval m,
      ucast (mv_count m), scast (mv_add m)] = Some qm"
  shows "\<exists>sc'. add_move (sc_last_step_clock sc + ucast (mv_interval m)) m sc = (Inr (), sc') \<and>
    sc_last_step_clock sc' = sc_last_step_clock sc + of_nat (unat (move_step m n)) \<and>
    sc_last_position sc' = sc_last_position sc +
      (if sc_sdir sc \<noteq> 0 then of_nat n else - of_nat n) \<and>
    sc_queue sc' = sc_queue sc \<and> sc_pos sc' = sc_pos sc \<and> sc_next sc' = sc_next sc \<and>
    sc_max_error sc' = sc_max_error sc \<and> sc_sdir sc' = sc_sdir sc \<and> sc_oid sc' = sc_oid sc \<and>
    sc_queue_step_msgtag sc' = sc_queue_step_msgtag sc \<and>
    (\<exists>req. sc_msg_queue sc' = sc_msg_queue sc @ [qm\<lparr>qm_min_clock := sc_last_step_clock sc, qm_req_clock := req\<rparr>])"
proof -
  note e = check_line_exact [OF assms(1-4)]
  have u: "uint (mv_count m) = int n" unfolding assms(3) by (rule uint_nat)
  let ?t = "int_offset m n - uint (mv_interval m)"
  have t: "move_ticks m = Some (word_of_int ?t)"
    by (rule move_ticks_exact [OF assms(3) e(1,4,5) assms(5)])
  have i1: "int_offset m 1 = uint (mv_interval m)" by (simp add: int_offset_def)
  have "0 \<le> ?t"
  proof -
    have "int_offset m 1 \<le> int_offset m k" if "1 \<le> k" "k \<le> n" for k
      using that
    proof (induction k rule: dec_induct)
      case (step k)
      then have "int_offset m 1 \<le> int_offset m k" "0 \<le> int_interval m k" using e(4) by simp_all
      then show ?case by (simp add: int_offset_Suc)
    qed simp
    from this [of n] show ?thesis using e(1) i1 by simp
  qed
  moreover have "?t < 2 ^ 32"
    using e(5) uint_ge_0 [of "mv_interval m"] by (simp del: uint_ge_0 unsigned_greater_eq)
  ultimately have ut: "uint (word_of_int ?t :: u32) = ?t" by (rule word_of_int_range)
  have "(ucast (mv_interval m) :: u64) + ucast (word_of_int ?t :: u32) =
      word_of_int (uint (mv_interval m) + uint (word_of_int ?t :: u32))"
    by (simp add: unsigned_ucast_eq)
  also have "\<dots> = word_of_int (int (unat (move_step m n)))"
    unfolding ut using e(3) [of n] by (metis add.commute diff_add_cancel order_refl)
  finally have lc: "sc_last_step_clock sc + ucast (mv_interval m) + ucast (word_of_int ?t :: u32) =
      sc_last_step_clock sc + of_nat (unat (move_step m n))" by (simp add: add.assoc)
  show ?thesis
    using t lc assms(6) u by (auto simp: add_move_def move_history_def list_add_msg_def Let_def)
qed

section \<open>The search ends\<close>

lemma c_div_neg: "n < 0 \<Longrightarrow> 0 < d \<Longrightarrow> c_div n d = - (- n div d)"
  by (simp add: c_div_def sgn_if)

lemma div_bounds:
  assumes "0 < (d :: int)" shows "n div d * d \<le> n" and "n < (n div d + 1) * d"
proof -
  have m: "n div d * d + n mod d = n" by (rule div_mult_mod_eq)
  show "n div d * d \<le> n" using m pos_mod_sign [OF assms, of n] by linarith
  show "n < (n div d + 1) * d" unfolding distrib_right using m pos_mod_bound [OF assms, of n] by linarith
qed

lemma div_unique: "0 < (d :: int) \<Longrightarrow> q * d \<le> n \<Longrightarrow> n < (q + 1) * d \<Longrightarrow> n div d = q"
  by (rule int_div_pos_eq [of n d q "n - q * d"]) (simp_all add: algebra_simps)

lemma div_round_up: "0 < (d :: int) \<Longrightarrow> (n + d - 1) div d = - (- n div d)"
  using div_bounds [of d "n + d - 1"]
  by (subst div_unique [of d "- ((n + d - 1) div d)" "- n"]) (simp_all add: algebra_simps)

lemma idiv_up_ceiling:
  assumes "0 < d" and "idiv_up n d = Some q" shows "q = - (- n div d)"
  using assms
  by (cases "n \<ge> 0") (auto simp: idiv_up_def c_div_nonneg c_div_neg div_round_up split: if_splits)

lemma idiv_down_floor:
  assumes "0 < d" and "idiv_down n d = Some q" shows "q = n div d"
proof (cases "n \<ge> 0")
  case False
  have "q = - (- (n - d + 1) div d)" using assms False by (simp add: idiv_down_def c_div_neg split: if_splits)
  then show ?thesis using div_round_up [OF assms(1), of "- n"] by (simp add: algebra_simps)
qed (use assms in \<open>simp add: idiv_down_def c_div_nonneg\<close>)

lemma idiv_down_lt:
  assumes "0 < d" and "n < a * d" and "idiv_down n d = Some q" shows "q < a"
proof -
  have "n div d * d < a * d" using div_bounds(1) [OF assms(1), of n] assms(2) by linarith
  then show ?thesis using assms(1) idiv_down_floor [OF assms(1,3)] by simp
qed

lemma idiv_up_gt:
  assumes "0 < d" and "a * d < n" and "idiv_up n d = Some q" shows "a < q"
proof -
  have "- n div d * d < - a * d" using div_bounds(1) [OF assms(1), of "- n"] assms(2) by simp
  then show ?thesis using assms(1) idiv_up_ceiling [OF assms(1,3)] by (simp only: mult_less_cancel_right_pos)
qed

lemma scan_loop_count:
  assumes "scan_loop sc qlast a lo hi v c = Some r" and "sc_pos sc + c \<le> qlast" and "0 < c"
  shows "case r of Inl (_, n) \<Rightarrow> sc_pos sc + n \<le> qlast \<and> 0 < n
    | Inr (_, _, _, n, _, _) \<Rightarrow> sc_pos sc + n \<le> qlast \<and> 1 < n"
  using assms
proof (induction sc qlast a lo hi v c rule: scan_loop.induct)
  case (1 sc qlast a lo hi v c)
  show ?case
    using "1.prems" "1.IH"
    by (subst (asm) scan_loop.simps) (auto simp: Let_def split: if_splits option.splits)
qed


text \<open>
  Every pass of the outer loop keeps \<open>add\<close> within its bounds and makes them narrower, and keeps
  the best sequence within the \<open>k\<close> steps available.
\<close>

definition counts_ok :: "nat \<Rightarrow> bisect \<Rightarrow> bool" where
  "counts_ok k b \<longleftrightarrow> 1 \<le> b_bestcount b \<and> b_bestcount b \<le> int k \<and> 0 \<le> b_zerocount b \<and> b_zerocount b \<le> int k"

definition narrower :: "bisect \<Rightarrow> bisect \<Rightarrow> bool" where
  "narrower b b' \<longleftrightarrow> b_bestcount b' = b_bestcount b \<and> b_zerocount b' = b_zerocount b \<and>
    b_minadd b \<le> b_minadd b' \<and> b_maxadd b' \<le> b_maxadd b"

lemma limit_dev_narrows: "limit_dev e n b = Some b' \<Longrightarrow> narrower b b'"
  by (auto simp: limit_dev_def narrower_def Let_def split: if_splits)

lemma limit_next_narrows:
  assumes "limit_next n f lo hi b = Some b'" and "0 < f" shows "narrower b b'"
  using assms
  by (auto simp: limit_next_def narrower_def Let_def split: if_splits option.splits
      dest!: idiv_up_gt [OF assms(2)] idiv_down_lt [OF assms(2)])

lemma c_div_4: "0 \<le> d \<Longrightarrow> 0 \<le> c_div d 4 \<and> c_div d 4 \<le> d"
  unfolding c_div_nonneg [of d 4, simplified] by auto

lemma tri_pos: "1 < n \<Longrightarrow> 0 < c_div (int n * (int n - 1)) 2"
proof -
  assume "1 < n"
  then have "2 * 1 \<le> int n * (int n - 1)" by (intro mult_mono) simp_all
  then show ?thesis by (simp add: c_div_nonneg)
qed

definition move_fits :: "nat \<Rightarrow> step_move \<Rightarrow> bool" where
  "move_fits k m \<longleftrightarrow> 0 < unat (mv_count m) \<and> unat (mv_count m) \<le> k"

lemma mk_move_fits: "0 < c \<Longrightarrow> c \<le> int k \<Longrightarrow> k \<le> 65535 \<Longrightarrow> move_fits k (mk_move v c a)"
  by (simp add: move_fits_def mk_move_def unat_eq_nat_uint uint_word_of_int)

lemma pick_best_fits: "counts_ok k b \<Longrightarrow> k \<le> 65535 \<Longrightarrow> move_fits k (pick_best b)"
proof -
  assume k: "counts_ok k b" "k \<le> 65535"
  have "c_div 0 16 = 0" by (simp add: c_div_def)
  then have "b_zerocount b + c_div (b_zerocount b) 16 \<ge> b_bestcount b \<Longrightarrow> 0 < b_zerocount b"
    using k(1) by (cases "b_zerocount b = 0") (auto simp: counts_ok_def)
  then show ?thesis using k by (auto simp: pick_best_def counts_ok_def intro: mk_move_fits)
qed

lemma bisect_narrow_step:
  assumes "bisect_narrow sc v (int n) lo hi minp maxp b = Some r" and "1 < n" and "counts_ok k b"
    and "k \<le> 65535" and "b_minadd b \<le> b_add b" and "b_add b \<le> b_maxadd b"
  shows "case r of Inl m \<Rightarrow> move_fits k m
    | Inr b' \<Rightarrow> counts_ok k b' \<and> b_minadd b' \<le> b_add b' \<and> b_add b' \<le> b_maxadd b' \<and>
        b_maxadd b' - b_minadd b' < b_maxadd b - b_minadd b"
proof -
  let ?f = "c_div (int n * (int n - 1)) 2"
  let ?b0 = "narrow_side (b_add b * ?f + v * int n) minp lo hi b"
  obtain b1 b2 where b1: "limit_dev (sc_max_error sc) (int n - 1) ?b0 = Some b1"
    and b2: "limit_next (int n) ?f minp maxp b1 = Some b2"
    and r: "r = (if b_minadd b2 > b_maxadd b2 then Inl (pick_best b2)
       else Inr (b2\<lparr>b_add := b_maxadd b2 - c_div (b_maxadd b2 - b_minadd b2) 4\<rparr>))"
    using assms(1) by (auto simp: bisect_narrow_def Let_def split: if_splits option.splits)
  have n0: "b_maxadd ?b0 - b_minadd ?b0 < b_maxadd b - b_minadd b"
    and c0: "b_bestcount ?b0 = b_bestcount b" "b_zerocount ?b0 = b_zerocount b"
    using assms(5,6) by (auto simp: narrow_side_def)
  have "narrower ?b0 b2"
    using limit_dev_narrows [OF b1] limit_next_narrows [OF b2 tri_pos [OF assms(2)]]
    by (simp add: narrower_def)
  then have c: "counts_ok k b2" and w: "b_maxadd b2 - b_minadd b2 < b_maxadd b - b_minadd b"
    using n0 c0 assms(3) by (auto simp: narrower_def counts_ok_def)
  show ?thesis
    using c w c_div_4 [of "b_maxadd b2 - b_minadd b2"] pick_best_fits [OF c assms(4)]
    by (auto simp: r counts_ok_def)
qed

lemma record_best_counts: "counts_ok k b \<Longrightarrow> 0 < c \<Longrightarrow> c \<le> int k \<Longrightarrow> counts_ok k (record_best w v c b)"
  by (simp add: record_best_def counts_ok_def Let_def)

lemma record_best_range [simp]:
  "b_minadd (record_best w v c b) = b_minadd b" "b_maxadd (record_best w v c b) = b_maxadd b"
  "b_add (record_best w v c b) = b_add b"
  by (simp_all add: record_best_def Let_def)

lemma bisect_step_progress:
  assumes "bisect_step sc qlast b = Some r" and "sc_pos sc < qlast" and "k = qlast - sc_pos sc"
    and "k \<le> 65535" and "counts_ok k b" and "b_minadd b \<le> b_add b" and "b_add b \<le> b_maxadd b"
  shows "case r of Inl m \<Rightarrow> move_fits k m
    | Inr b' \<Rightarrow> counts_ok k b' \<and> b_minadd b' \<le> b_add b' \<and> b_add b' \<le> b_maxadd b' \<and>
        b_maxadd b' - b_minadd b' < b_maxadd b - b_minadd b"
proof -
  obtain s where s: "scan_loop sc qlast (b_add b) (b_outer_min b) (b_outer_max b) (b_outer_max b) 1 = Some s"
    using assms(1) by (auto simp: bisect_step_def split: option.splits)
  have n: "case s of Inl (_, n) \<Rightarrow> sc_pos sc + n \<le> qlast \<and> 0 < n
    | Inr (_, _, _, n, _, _) \<Rightarrow> sc_pos sc + n \<le> qlast \<and> 1 < n"
    using scan_loop_count [OF s] assms(2) by simp
  show ?thesis
  proof (cases s)
    case (Inl q)
    then show ?thesis
      using assms(1,3,4) s n by (cases q) (auto simp: bisect_step_def intro!: mk_move_fits)
  next
    case (Inr q)
    obtain lo hi v nc minp maxp where q: "q = (lo, hi, v, nc, minp, maxp)" by (cases q)
    have nc: "1 < nc" "int nc - 1 \<le> int k" using n assms(2,3) unfolding Inr q by auto
    let ?c = "int nc - 1"
    let ?w = "b_add b * c_div (?c * (?c - 1)) 2 + v * ?c"
    define b1 where "b1 = (if is_better ?w v b then record_best ?w v ?c b else b)"
    have b: "counts_ok k b1" "b_minadd b1 \<le> b_add b1" "b_add b1 \<le> b_maxadd b1"
      "b_maxadd b1 - b_minadd b1 = b_maxadd b - b_minadd b"
      using assms(5-7) nc unfolding b1_def by (auto intro: record_best_counts)
    from assms(1) s have "r = Inl (pick_best b1) \<or> bisect_narrow sc v (int nc) lo hi minp maxp b1 = Some r"
      unfolding bisect_step_def Inr q b1_def by (auto simp: Let_def split: if_splits)
    then show ?thesis
    proof
      assume "r = Inl (pick_best b1)"
      then show ?thesis using pick_best_fits [OF b(1) assms(4)] by simp
    next
      assume "bisect_narrow sc v (int nc) lo hi minp maxp b1 = Some r"
      from bisect_narrow_step [OF this nc(1) b(1) assms(4) b(2,3)] show ?thesis unfolding b(4) .
    qed
  qed
qed

lemma bisect_loop_ends:
  assumes "sc_pos sc < qlast" and "k = qlast - sc_pos sc" and "k \<le> 65535" and "counts_ok k b"
    and "b_minadd b \<le> b_add b" and "b_add b \<le> b_maxadd b"
  shows "\<exists>r. bisect_loop sc qlast b = Some r \<and> (\<forall>m. r = Some m \<longrightarrow> move_fits k m)"
  using assms(4-6)
proof (induction "nat (b_maxadd b - b_minadd b)" arbitrary: b rule: less_induct)
  case less
  show ?case
  proof (cases "bisect_step sc qlast b")
    case None
    then show ?thesis by (simp add: bisect_loop.simps)
  next
    case (Some r)
    note p = bisect_step_progress [OF Some assms(1-3) less.prems]
    show ?thesis
    proof (cases r)
      case (Inl m)
      then show ?thesis using Some p by (simp add: bisect_loop.simps)
    next
      case (Inr b')
      have "nat (b_maxadd b' - b_minadd b') < nat (b_maxadd b - b_minadd b)" using p unfolding Inr by simp
      from less.hyps [OF this] p show ?thesis using Some unfolding Inr by (simp add: bisect_loop.simps [of sc qlast b])
    qed
  qed
qed

lemma compress_fits:
  assumes "compress_bisect_add sc = Some m" and "sc_pos sc < sc_next sc"
  shows "move_fits (sc_next sc - sc_pos sc) m"
proof -
  define qlast where "qlast = (if sc_next sc > sc_pos sc + 65535 then sc_pos sc + 65535 else sc_next sc)"
  have q: "sc_pos sc < qlast" "qlast - sc_pos sc \<le> 65535" "qlast \<le> sc_next sc"
    using assms(2) by (auto simp: qlast_def)
  obtain point where p: "minmax_point sc (sc_pos sc) = Some point"
    and l: "bisect_loop sc qlast (bisect_init point) = Some (Some m)"
    using assms(1) by (auto simp: compress_bisect_add_def qlast_def Let_def split: option.splits)
  have "counts_ok (qlast - sc_pos sc) (bisect_init point)"
    using q(1) by (simp add: counts_ok_def bisect_init_def)
  from bisect_loop_ends [OF q(1) refl q(2) this] l have "move_fits (qlast - sc_pos sc) m"
    by (auto simp: bisect_init_def)
  then show ?thesis using q(3) by (auto simp: move_fits_def)
qed

section \<open>Flushing\<close>

text \<open>
  The clocks, relative to the step before the first move, at which the micro-controller executes
  a sequence of moves, and the clock of the last of them.
\<close>

fun schedule :: "nat \<Rightarrow> step_move list \<Rightarrow> nat list" where
  "schedule t [] = []"
| "schedule t (m # ms) = map (\<lambda>j. t + unat (move_step m (Suc j))) [0..<unat (mv_count m)] @
    schedule (t + unat (move_step m (unat (mv_count m)))) ms"

fun end_time :: "step_move list \<Rightarrow> nat" where
  "end_time [] = 0"
| "end_time (m # ms) = unat (move_step m (unat (mv_count m))) + end_time ms"

definition queue_step_cmd :: "stepcompress \<Rightarrow> step_move \<Rightarrow> u8 list" where
  "queue_step_cmd sc m = encode_ints [sc_queue_step_msgtag sc, sc_oid sc, mv_interval m,
    ucast (mv_count m), scast (mv_add m)]"

text \<open>
  \<open>emitted sc ms sc'\<close>: from \<open>sc\<close> to \<open>sc'\<close> the moves \<open>ms\<close> were sent for the first pending
  steps; each step happens at most \<^verbatim>\<open>max_error\<close> before its requested clock and never after
  it, the requested clocks of the other steps are kept, and the clock and the position account
  for exactly the steps sent.
\<close>

definition emitted :: "stepcompress \<Rightarrow> step_move list \<Rightarrow> stepcompress \<Rightarrow> bool" where
  "emitted sc ms sc' \<longleftrightarrow> (let ts = schedule 0 ms; n = length ts; t = end_time ms in
    n \<le> length (due sc) \<and>
    list_all2 (\<lambda>t d. t \<le> d \<and> d - t \<le> unat (sc_max_error sc)) ts (take n (due sc)) \<and>
    due sc' = map (\<lambda>d. d - t) (drop n (due sc)) \<and>
    sc_last_step_clock sc' = sc_last_step_clock sc + of_nat t \<and>
    sc_last_position sc' = sc_last_position sc + (if sc_sdir sc \<noteq> 0 then of_nat n else - of_nat n) \<and>
    (\<exists>qms. sc_msg_queue sc' = sc_msg_queue sc @ qms \<and> map qm_payload qms = map (queue_step_cmd sc) ms) \<and>
    sc_max_error sc' = sc_max_error sc \<and> sc_sdir sc' = sc_sdir sc \<and> sc_oid sc' = sc_oid sc \<and>
    sc_queue_step_msgtag sc' = sc_queue_step_msgtag sc)"

lemma schedule_shift: "schedule (t + u) ms = map ((+) t) (schedule u ms)"
  by (induction ms arbitrary: u) (simp_all add: add.assoc)

lemma emitted_Nil [simp]: "emitted sc [] sc"
  by (auto simp: emitted_def intro: exI [of _ "[]"])

lemma emitted_msgs:
  assumes "emitted sc ms sc'"
  obtains qms where "sc_msg_queue sc' = sc_msg_queue sc @ qms" and "map qm_payload qms = map (queue_step_cmd sc) ms"
  using assms unfolding emitted_def Let_def by (elim exE conjE)

lemma emitted_Cons:
  assumes "emitted sc [m] sc1" and "emitted sc1 ms sc2"
    and "\<And>i. unat (mv_count m) \<le> i \<Longrightarrow> i < length (due sc) \<Longrightarrow> unat (move_step m (unat (mv_count m))) \<le> due sc ! i"
  shows "emitted sc (m # ms) sc2"
proof -
  let ?n = "unat (mv_count m)" and ?l = "length (schedule 0 ms)"
  let ?t = "unat (move_step m ?n)"
  have "schedule ?t ms = map ((+) ?t) (schedule 0 ms)"
    using schedule_shift [of ?t 0 ms] by simp
  then have S: "schedule 0 (m # ms) =
      map (\<lambda>j. unat (move_step m (Suc j))) [0..<?n] @ map ((+) ?t) (schedule 0 ms)" by simp
  have d1: "due sc1 = map (\<lambda>d. d - ?t) (drop ?n (due sc))" "?n \<le> length (due sc)"
    and l1: "list_all2 (\<lambda>t d. t \<le> d \<and> d - t \<le> unat (sc_max_error sc))
      (map (\<lambda>j. unat (move_step m (Suc j))) [0..<?n]) (take ?n (due sc))"
    using assms(1) by (simp_all add: emitted_def Let_def)
  have "?l \<le> length (due sc1)" using assms(2) by (simp add: emitted_def Let_def)
  then have len: "?n + ?l \<le> length (due sc)" using d1 by simp
  have l2: "list_all2 (\<lambda>t d. t \<le> d \<and> d - t \<le> unat (sc_max_error sc))
      (map ((+) ?t) (schedule 0 ms)) (take ?l (drop ?n (due sc)))"
    unfolding list_all2_conv_all_nth
  proof (intro conjI allI impI)
    show "length (map ((+) ?t) (schedule 0 ms)) = length (take ?l (drop ?n (due sc)))"
      using len by simp
    fix i assume i: "i < length (map ((+) ?t) (schedule 0 ms))"
    have le: "?t \<le> due sc ! (?n + i)" using assms(3) [of "?n + i"] i len by simp
    have "schedule 0 ms ! i \<le> due sc1 ! i \<and> due sc1 ! i - schedule 0 ms ! i \<le> unat (sc_max_error sc1)"
      using assms(2) i unfolding emitted_def Let_def list_all2_conv_all_nth by auto
    moreover have "due sc1 ! i = due sc ! (?n + i) - ?t" using i len d1(2) by (simp add: d1(1))
    moreover have "sc_max_error sc1 = sc_max_error sc" using assms(1) by (simp add: emitted_def Let_def)
    ultimately show "map ((+) ?t) (schedule 0 ms) ! i \<le> take ?l (drop ?n (due sc)) ! i"
      "take ?l (drop ?n (due sc)) ! i - map ((+) ?t) (schedule 0 ms) ! i \<le> unat (sc_max_error sc)"
      using i le len by auto
  qed
  have "due sc2 = map (\<lambda>d. d - end_time ms) (drop ?l (due sc1))"
    using assms(2) by (simp add: emitted_def Let_def)
  then have d2: "due sc2 = map (\<lambda>d. d - end_time (m # ms)) (drop (?n + ?l) (due sc))"
    by (simp add: d1(1) drop_map add.commute)
  obtain q1 q2 where q: "sc_msg_queue sc1 = sc_msg_queue sc @ q1" "map qm_payload q1 = [queue_step_cmd sc m]"
      "sc_msg_queue sc2 = sc_msg_queue sc1 @ q2" "map qm_payload q2 = map (queue_step_cmd sc1) ms"
    by (rule emitted_msgs [OF assms(1)], rule emitted_msgs [OF assms(2)]) (simp add: that)
  have same: "sc_max_error sc1 = sc_max_error sc" "sc_sdir sc1 = sc_sdir sc" "sc_oid sc1 = sc_oid sc"
      "sc_queue_step_msgtag sc1 = sc_queue_step_msgtag sc"
      "sc_max_error sc2 = sc_max_error sc" "sc_sdir sc2 = sc_sdir sc" "sc_oid sc2 = sc_oid sc"
      "sc_queue_step_msgtag sc2 = sc_queue_step_msgtag sc"
      "sc_last_step_clock sc2 = sc_last_step_clock sc + of_nat (end_time (m # ms))"
    using assms(1,2) by (simp_all add: emitted_def Let_def algebra_simps)
  have pos: "sc_last_position sc2 = sc_last_position sc +
      (if sc_sdir sc \<noteq> 0 then of_nat (?n + ?l) else - of_nat (?n + ?l))"
    using assms(1,2) by (simp add: emitted_def Let_def same algebra_simps)
  have "queue_step_cmd sc1 = queue_step_cmd sc" by (simp add: queue_step_cmd_def same fun_eq_iff)
  then have "sc_msg_queue sc2 = sc_msg_queue sc @ q1 @ q2 \<and>
      map qm_payload (q1 @ q2) = map (queue_step_cmd sc) (m # ms)" using q by simp
  then have mq: "\<exists>qms. sc_msg_queue sc2 = sc_msg_queue sc @ qms \<and>
      map qm_payload qms = map (queue_step_cmd sc) (m # ms)" by blast
  have tk: "take (?n + ?l) (due sc) = take ?n (due sc) @ take ?l (drop ?n (due sc))"
    by (rule take_add)
  have "length (schedule 0 (m # ms)) = ?n + ?l" unfolding S by simp
  then show ?thesis
    unfolding emitted_def Let_def S using len list_all2_appendI [OF l1 l2] d2 same pos mq
    by (simp add: tk)
qed

lemma encode5_small: "length (encode_ints [a, b, c, d, e]) \<le> 59"
  using encode_int_le5 [of a] encode_int_le5 [of b] encode_int_le5 [of c] encode_int_le5 [of d]
    encode_int_le5 [of e] by (simp add: encode_ints_def)

lemma encode_payload:
  assumes "length (encode_ints vs) \<le> 59"
  obtains qm where "message_alloc_and_encode vs = Some qm" and "qm_payload qm = encode_ints vs"
proof -
  obtain qm where "message_alloc_and_encode vs = Some qm" "qm_len qm = int (length (encode_ints vs))"
    "take (length (encode_ints vs)) (qm_msg qm) = encode_ints vs"
    using alloc_and_encode_result [of vs] unfolding if_P [OF assms] by blast
  then show thesis using that by (simp only: qm_payload_def nat_int)
qed

text \<open>One accepted move.\<close>

lemma add_move_emits:
  assumes "pending_ok sc" and "check_line sc m = Some True" and "n = unat (mv_count m)"
    and "n \<le> sc_next sc - sc_pos sc" and "mv_add m \<noteq> 0 \<or> n \<le> 46341"
  obtains sc' where "add_move (sc_last_step_clock sc + ucast (mv_interval m)) m sc = (Inr (), sc')"
    and "sc_pos sc' = sc_pos sc" and "sc_next sc' = sc_next sc" and "sc_queue sc' = sc_queue sc"
    and "emitted sc [m] (sc'\<lparr>sc_pos := sc_pos sc + n\<rparr>)"
    and "pending_ok (sc'\<lparr>sc_pos := sc_pos sc + n\<rparr>)"
    and "\<And>i. n \<le> i \<Longrightarrow> i < length (due sc) \<Longrightarrow> unat (move_step m n) \<le> due sc ! i"
proof -
  note e = check_line_exact [OF assms(1-4)] and ld = length_due [OF assms(1)]
  obtain qm where qm: "message_alloc_and_encode [sc_queue_step_msgtag sc, sc_oid sc, mv_interval m,
      ucast (mv_count m), scast (mv_add m)] = Some qm" "qm_payload qm = queue_step_cmd sc m"
    unfolding queue_step_cmd_def by (rule encode_payload [OF encode5_small])
  obtain sc' req where am: "add_move (sc_last_step_clock sc + ucast (mv_interval m)) m sc = (Inr (), sc')"
    and lsc: "sc_last_step_clock sc' = sc_last_step_clock sc + of_nat (unat (move_step m n))"
    and pos: "sc_last_position sc' = sc_last_position sc + (if sc_sdir sc \<noteq> 0 then of_nat n else - of_nat n)"
    and same: "sc_queue sc' = sc_queue sc" "sc_pos sc' = sc_pos sc" "sc_next sc' = sc_next sc"
      "sc_max_error sc' = sc_max_error sc" "sc_sdir sc' = sc_sdir sc" "sc_oid sc' = sc_oid sc"
      "sc_queue_step_msgtag sc' = sc_queue_step_msgtag sc"
    and msg: "sc_msg_queue sc' = sc_msg_queue sc @ [qm\<lparr>qm_min_clock := sc_last_step_clock sc, qm_req_clock := req\<rparr>]"
    using add_move_exact [OF assms qm(1)] by (elim exE conjE) (rule that; assumption)
  let ?t = "unat (move_step m n)" and ?sc = "sc'\<lparr>sc_pos := sc_pos sc + n\<rparr>"
  have le: "?t \<le> due sc ! i" if "n \<le> i" "i < length (due sc)" for i
  proof -
    have "?t \<le> due sc ! (n - 1)" using e(2) [of "n - 1"] e(1) by simp
    also have "\<dots> \<le> due sc ! i"
      using assms(1) that unfolding pending_ok_def by (intro sorted_nth_mono) auto
    finally show ?thesis .
  qed
  have pend: "pend ?sc = drop n (pend sc)"
    by (simp add: pend_def same drop_take) (simp add: add.commute)
  have uc: "(ucast (sc_last_step_clock ?sc) :: u32) = ucast (sc_last_step_clock sc) + move_step m n"
    using ucast_down_diff [where 'b = 32, of "sc_last_step_clock sc + ucast (move_step m n)" "ucast (move_step m n)"]
      ucast_down_up [where 'a = 64, of "move_step m n"]
    by (simp add: lsc algebra_simps)
  have due': "due ?sc = map (\<lambda>d. d - ?t) (drop n (due sc))"
  proof (rule nth_equalityI)
    show "length (due ?sc) = length (map (\<lambda>d. d - ?t) (drop n (due sc)))" by (simp add: due_def pend)
    fix i assume i: "i < length (due ?sc)"
    then have i': "n + i < length (pend sc)" by (simp add: due_def pend)
    let ?q = "pend sc ! (n + i)" and ?l = "ucast (sc_last_step_clock sc) :: u32"
    have "?t \<le> unat (?q - ?l)" using le [of "n + i"] i' by (simp add: due_def)
    then have "unat (?q - (?l + move_step m n)) = unat (?q - ?l) - ?t"
      by (simp add: diff_diff_eq [symmetric] unat_sub word_le_nat_alt)
    moreover have "n \<le> length (pend sc)" using i' by simp
    ultimately show "due ?sc ! i = map (\<lambda>d. d - ?t) (drop n (due sc)) ! i"
      using i' uc by (simp add: due_def pend)
  qed
  have ok: "pending_ok ?sc"
    using assms(1,4) e(1) unfolding pending_ok_def due'
    by (auto simp: same sorted_iff_nth_mono list_all_length diff_le_mono)
      (metis add.commute diff_le_self le_less_trans less_diff_conv)
  have em: "emitted sc [m] ?sc"
    unfolding emitted_def Let_def using assms(4) e(2) ld lsc pos same msg qm(2)
    by (auto simp: due' assms(3) [symmetric] list_all2_conv_all_nth qm_payload_def)
  show thesis by (rule that [OF am same(2,3,1) em ok le])
qed

lemma move_ticks_overflow:
  "mv_add m = 0 \<Longrightarrow> 46341 < unat (mv_count m) \<Longrightarrow> move_ticks m = None"
proof -
  assume a: "46341 < unat (mv_count m)"
  have u: "uint (mv_count m) = int (unat (mv_count m))" by (rule uint_nat)
  have "46342 \<le> uint (mv_count m)" unfolding u using a by linarith
  then have "46342 * 46341 \<le> uint (mv_count m) * (uint (mv_count m) - 1)"
    by (intro mult_mono) simp_all
  then have "\<not> in32 (uint (mv_count m) * (uint (mv_count m) - 1))" unfolding in32_def by simp
  then show ?thesis by (simp add: move_ticks_def Let_def)
qed

lemma emitted_reset:
  assumes "emitted sc ms (sc1\<lparr>sc_pos := sc_next sc1\<rparr>)"
  shows "emitted sc ms (sc1\<lparr>sc_pos := 0, sc_next := 0\<rparr>)"
  using assms by (simp add: emitted_def due_def pend_def)

lemma check_line_total:
  assumes "pending_ok sc" and "unat (mv_count m) \<le> sc_next sc - sc_pos sc"
  shows "check_line sc m \<noteq> None"
proof -
  have mm: "minmax_point sc (sc_pos sc + i) \<noteq> None" if "i < sc_next sc - sc_pos sc" for i
    using that assms(1) by (auto simp: minmax_point_def pending_ok_def Let_def)
  have "check_points sc a v p i k \<noteq> None" if "i + k \<le> sc_next sc - sc_pos sc" for a v p i k
    using that
  proof (induction k arbitrary: v p i)
    case (Suc k)
    then show ?case using mm [of i] by (auto simp: Let_def split: option.splits)
  qed simp
  from this [of 0 "unat (mv_count m)"] show ?thesis using assms(2) by (auto simp: check_line_def)
qed

lemma flush_loop_emits:
  assumes "pending_ok sc" and "sc_pos sc < sc_next sc" and "flush_loop c sc = (r, sc')"
  shows "\<exists>ms. emitted sc ms sc' \<and> pending_ok sc' \<and>
    (r = Inr 0 \<and> (due sc' = [] \<or> c \<le> sc_last_step_clock sc') \<or> r = Inr (-1) \<or> r = Inl Stuck)"
  using assms
proof (induction c sc rule: flush_loop.induct)
  case (1 c sc)
  have run: "\<exists>ms. emitted sc ms sc' \<and> pending_ok sc' \<and>
    (r = Inr 0 \<and> (due sc' = [] \<or> c \<le> sc_last_step_clock sc') \<or> r = Inr (-1) \<or> r = Inl Stuck)"
    if "sc' = sc" "r = Inr 0 \<and> c \<le> sc_last_step_clock sc \<or> r = Inr (-1) \<or> r = Inl Stuck"
    using that "1.prems"(1) by (auto intro: exI [of _ "[]"])
  show ?case
  proof (cases "sc_last_step_clock sc < c")
    case False
    then show ?thesis using "1.prems"(3) by (intro run) (auto simp: flush_loop.simps [of c sc])
  next
    case lt: True
    show ?thesis
    proof (cases "compress_bisect_add sc")
      case None
      then show ?thesis using lt "1.prems"(3) by (intro run) (auto simp: flush_loop.simps [of c sc])
    next
      case (Some m)
      let ?n = "unat (mv_count m)"
      have n: "0 < ?n" "?n \<le> sc_next sc - sc_pos sc"
        using compress_fits [OF Some "1.prems"(2)] by (simp_all add: move_fits_def)
      obtain ok where ok: "check_line sc m = Some ok" using check_line_total [OF "1.prems"(1) n(2)] by auto
      show ?thesis
      proof (cases "ok \<and> (mv_add m \<noteq> 0 \<or> ?n \<le> 46341)")
        case False
        then show ?thesis
          using lt Some ok "1.prems"(3) move_ticks_overflow [of m]
          by (intro run) (auto simp: flush_loop.simps [of c sc] add_move_def split: bool.splits if_splits)
      next
        case True
        then have cl: "check_line sc m = Some True" using ok by simp
        obtain sc1 where a: "add_move (sc_last_step_clock sc + ucast (mv_interval m)) m sc = (Inr (), sc1)"
          and k: "sc_pos sc1 = sc_pos sc" "sc_next sc1 = sc_next sc"
          and e: "emitted sc [m] (sc1\<lparr>sc_pos := sc_pos sc + ?n\<rparr>)"
          and p: "pending_ok (sc1\<lparr>sc_pos := sc_pos sc + ?n\<rparr>)"
          and le: "\<And>i. ?n \<le> i \<Longrightarrow> i < length (due sc) \<Longrightarrow> unat (move_step m ?n) \<le> due sc ! i"
          by (rule add_move_emits [OF "1.prems"(1) cl refl n(2)]) (use True in blast)+
        show ?thesis
        proof (cases "sc_pos sc1 + ?n \<ge> sc_next sc1")
          case last: True
          then have r: "r = Inr 0" "sc' = sc1\<lparr>sc_pos := 0, sc_next := 0\<rparr>"
            using lt Some cl a "1.prems"(3) by (simp_all add: flush_loop.simps [of c sc])
          have "sc_pos sc + ?n = sc_next sc1" using last n k by simp
          then have "emitted sc [m] sc'" using e emitted_reset unfolding r by metis
          moreover have "due sc' = []" "pending_ok sc'" by (simp_all add: r due_def pend_def pending_ok_def)
          ultimately show ?thesis using r by blast
        next
          case more: False
          let ?sc = "sc1\<lparr>sc_pos := sc_pos sc + ?n\<rparr>"
          have fl: "flush_loop c ?sc = (r, sc')"
            using lt Some cl a more "1.prems"(3) k by (simp add: flush_loop.simps [of c sc])
          have "\<exists>ms. emitted ?sc ms sc' \<and> pending_ok sc' \<and>
            (r = Inr 0 \<and> (due sc' = [] \<or> c \<le> sc_last_step_clock sc') \<or> r = Inr (-1) \<or> r = Inl Stuck)"
            using "1.IH" [OF lt Some cl refl a [symmetric] refl more] p more k fl by simp
          then show ?thesis using emitted_Cons [OF e _ le] by blast
        qed
      qed
    qed
  qed
qed


section \<open>Properties\<close>

text \<open>
  C6: flushing keeps the promise of the step compression.  Whatever the queue holds (in order of
  time and less than \<^verbatim>\<open>CLOCK_DIFF_MAX\<close> ahead), \<^verbatim>\<open>queue_flush\<close> ends with 0, with the
  error of \<^verbatim>\<open>check_line\<close> or at a signed overflow; in each case the commands it queued make
  the micro-controller step, by the recurrence of its own step timer, at most
  \<^verbatim>\<open>max_error\<close> ticks before each requested clock and never after it, for a prefix of the
  requested steps; \<^verbatim>\<open>last_step_clock\<close> and \<^verbatim>\<open>last_position\<close> account for exactly these
  steps and the other requests are kept unchanged.  On success nothing is left before the clock
  asked for.
\<close>

theorem queue_flush_within_error:
  assumes "pending_ok sc" and "queue_flush c sc = (r, sc')"
  shows "\<exists>ms. emitted sc ms sc' \<and> pending_ok sc' \<and>
    (r = Inr 0 \<and> (due sc' = [] \<or> c \<le> sc_last_step_clock sc') \<or> r = Inr (-1) \<or> r = Inl Stuck)"
proof (cases "sc_pos sc < sc_next sc")
  case True
  then show ?thesis using flush_loop_emits [OF assms(1) True] assms(2) by (simp add: queue_flush_def)
next
  case False
  then have "r = Inr 0" "sc' = sc" using assms(2) by (auto simp: queue_flush_def)
  moreover have "due sc = []" using False by (simp add: due_def pend_def)
  ultimately show ?thesis using assms(1) by (auto intro: exI [of _ "[]"])
qed

definition example_sc :: stepcompress where
  "example_sc = (stepcompress_fill 25 7 9 (stepcompress_alloc 3))
    \<lparr>sc_queue := [1000, 1990, 2950, 0], sc_next := 3, sc_sdir := 1, sc_next_step_dir := 1\<rparr>"

lemmas example_sc_defs = example_sc_def stepcompress_fill_def stepcompress_alloc_def

lemma example_sc_compress: "compress_bisect_add example_sc = Some (mk_move 983 3 0)"
proof -
  have "scan_loop example_sc 3 0 975 1000 1000 1 = Some (Inl (983, 3))"
    by (simp add: scan_loop.simps minmax_point_def example_sc_defs in32_def c_div_def idiv_up_def idiv_down_def)
  moreover have "minmax_point example_sc 0 = Some (975, 1000)"
    by (simp add: minmax_point_def example_sc_defs)
  ultimately have "bisect_step example_sc 3 (bisect_init (975, 1000)) = Some (Inl (mk_move 983 3 0))"
    "minmax_point example_sc 0 = Some (975, 1000)"
    by (simp_all add: bisect_step_def bisect_init_def)
  moreover have "sc_pos example_sc = 0" "sc_next example_sc = 3" by (simp_all add: example_sc_defs)
  ultimately show ?thesis
    by (simp add: compress_bisect_add_def bisect_loop.simps [of example_sc 3 "bisect_init (975, 1000)"])
qed

lemma example_sc_pending: "pending_ok example_sc"
  by (simp add: pending_ok_def due_def pend_def example_sc_defs CLOCK_DIFF_MAX_def)

theorem queue_flush_within_error_witness:
  "\<exists>ms sc'. queue_flush 2000 example_sc = (Inr 0, sc') \<and> emitted example_sc ms sc' \<and> due sc' = []"
proof -
  let ?m = "mk_move 983 3 0"
  have c: "check_line example_sc ?m = Some True" by code_simp
  have s: "sc_last_step_clock example_sc < 2000" "sc_pos example_sc < sc_next example_sc"
    by (simp_all add: example_sc_defs)
  obtain sc1 where "add_move (sc_last_step_clock example_sc + ucast (mv_interval ?m)) ?m example_sc = (Inr (), sc1)"
    "sc_pos sc1 = sc_pos example_sc" "sc_next sc1 = sc_next example_sc"
    by (rule add_move_emits [OF example_sc_pending c refl]) (simp_all add: mk_move_def example_sc_defs)
  then have "\<exists>sc'. queue_flush 2000 example_sc = (Inr 0, sc') \<and> due sc' = []"
    using s c by (simp add: queue_flush_def flush_loop.simps [of 2000 example_sc] example_sc_compress due_def pend_def)
      (simp add: mk_move_def example_sc_defs)
  then show ?thesis using queue_flush_within_error [OF example_sc_pending, of 2000] by blast
qed

text \<open>
  The search for the longest sequence always ends.  From its initial state the outer loop of
  \<^verbatim>\<open>compress_bisect_add\<close> makes the range of \<^verbatim>\<open>add\<close> smaller in every pass, so it returns (a
  move, or the undefined result of a signed overflow), and a move it returns covers at least one
  and at most the pending steps.
\<close>

theorem compress_search_ends:
  assumes "sc_pos sc < qlast" and "qlast \<le> sc_pos sc + 65535"
  shows "\<exists>r. bisect_loop sc qlast (bisect_init point) = Some r \<and>
    (\<forall>m. r = Some m \<longrightarrow> 0 < unat (mv_count m) \<and> unat (mv_count m) \<le> qlast - sc_pos sc)"
proof -
  have "counts_ok (qlast - sc_pos sc) (bisect_init point)"
    using assms(1) by (simp add: counts_ok_def bisect_init_def)
  from bisect_loop_ends [OF assms(1) refl _ this] assms show ?thesis
    by (simp add: bisect_init_def move_fits_def)
qed

theorem compress_search_ends_witness:
  "\<exists>r. bisect_loop example_sc 3 (bisect_init (975, 1000)) = Some r \<and>
    (\<forall>m. r = Some m \<longrightarrow> 0 < unat (mv_count m) \<and> unat (mv_count m) \<le> 3)"
  using compress_search_ends [of example_sc 3 "(975, 1000)"] by (simp add: example_sc_defs)

text \<open>
  A full array: 1024 steps, the first after 1000 ticks and the others much later, and a next
  step just beyond \<^verbatim>\<open>CLOCK_DIFF_MAX\<close>.
\<close>

definition full_sc :: stepcompress where
  "full_sc = (stepcompress_fill 25 7 9 (stepcompress_alloc 3))
    \<lparr>sc_queue := 1000 # map (\<lambda>i. 700000000 + 1000 * of_nat i) [0..<1023], sc_next := 1024, sc_sdir := 1,
     sc_next_step_dir := 1, sc_next_step_clock := CLOCK_DIFF_MAX + 500\<rparr>"

abbreviation full_sc1 :: stepcompress where
  "full_sc1 \<equiv> full_sc\<lparr>sc_next_step_clock := 0\<rparr>"

lemmas full_sc_defs = full_sc_def stepcompress_fill_def stepcompress_alloc_def

lemma full_sc_points:
  "minmax_point full_sc1 0 = Some (975, 1000)" "minmax_point full_sc1 (Suc 0) = Some (699999975, 700000000)"
  by (simp_all add: minmax_point_def full_sc_defs Let_def)

lemma full_sc_fields: "sc_pos full_sc1 = 0" "sc_next full_sc1 = 1024" "sc_max_error full_sc1 = 25"
  "sc_last_step_clock full_sc1 = 0" "length (sc_queue full_sc1) = 1024"
  by (simp_all add: full_sc_defs)

lemma full_sc_compress: "compress_bisect_add full_sc1 = Some (mk_move 1000 1 0)"
proof -
  have "scan_loop full_sc1 1024 0 975 1000 1000 (Suc 0) =
      Some (Inr (349999988, 1000, 1000, 2, 699999975, 700000000))"
    by (simp add: scan_loop.simps full_sc_points full_sc_fields in32_def c_div_def idiv_up_def idiv_down_def del: stepcompress.update_convs)
  then have "bisect_step full_sc1 1024 (bisect_init (975, 1000)) = Some (Inl (mk_move 1000 1 0))"
    by (simp add: bisect_step_def bisect_init_def is_better_def record_best_def bisect_narrow_def narrow_side_def limit_dev_def
        limit_next_def idiv_up_def pick_best_def in32_def c_div_def)
  then show ?thesis
    by (simp add: compress_bisect_add_def full_sc_points full_sc_fields bisect_loop.simps [of full_sc1 1024 "bisect_init (975, 1000)"])
qed

lemma full_sc_due: "due full_sc = 1000 # map (\<lambda>i. 700000000 + 1000 * i) [0..<1023]"
proof -
  have u: "unat (700000000 + 1000 * of_nat i :: u32) = 700000000 + 1000 * i" if "i < 1023" for i
  proof -
    have "(700000000 + 1000 * of_nat i :: u32) = of_nat (700000000 + 1000 * i)" by simp
    moreover have "unat (of_nat (700000000 + 1000 * i) :: u32) = 700000000 + 1000 * i"
      using that by (intro unat_of_nat_small) simp
    ultimately show ?thesis by (simp only:)
  qed
  have "due full_sc = 1000 # map (\<lambda>i. unat (700000000 + 1000 * of_nat i :: u32)) [0..<1023]"
    by (simp add: due_def pend_def full_sc_defs)
  then show ?thesis using u by simp
qed

text \<open>
  A step far in the future can be written past the end of the queue.  When the array is full
  and the next step is \<^verbatim>\<open>CLOCK_DIFF_MAX\<close> or more ahead, \<^verbatim>\<open>queue_append_far\<close> flushes only
  until the step is in range and then stores it without making room: the flush below sends one
  move, leaves \<^verbatim>\<open>queue_next\<close> at the end of the allocated 1024 entries, and the write that
  follows is outside the array.
\<close>

theorem queue_append_far_overrun:
  "pending_ok full_sc \<and> length (sc_queue full_sc) = 1024 \<and>
    (\<exists>sc'. queue_flush (sc_next_step_clock full_sc - CLOCK_DIFF_MAX + 1) full_sc1 = (Inr 0, sc') \<and>
      sc_next sc' = length (sc_queue sc') \<and> queue_append full_sc = (Inl Stuck, sc'))"
proof -
  let ?m = "mk_move 1000 1 0"
  have "sorted (map (\<lambda>i. 700000000 + 1000 * i) [0..<1023 :: nat])" by (simp add: sorted_iff_nth_mono)
  then have p: "pending_ok full_sc"
    unfolding pending_ok_def full_sc_due by (simp add: full_sc_defs CLOCK_DIFF_MAX_def list_all_iff)
  have p1: "pending_ok full_sc1"
    using p by (simp add: pending_ok_def due_def pend_def)
  have c: "check_line full_sc1 ?m = Some True"
    by (simp add: check_line_def mk_move_def full_sc_points full_sc_fields del: stepcompress.update_convs)
  obtain sc1 where sc1: "add_move (sc_last_step_clock full_sc1 + ucast (mv_interval ?m)) ?m full_sc1 = (Inr (), sc1)"
    "sc_pos sc1 = sc_pos full_sc1" "sc_next sc1 = sc_next full_sc1" "sc_queue sc1 = sc_queue full_sc1"
    and em: "emitted full_sc1 [?m] (sc1\<lparr>sc_pos := sc_pos full_sc1 + unat (mv_count ?m)\<rparr>)"
    by (rule add_move_emits [OF p1 c refl]) (simp_all add: mk_move_def full_sc_defs)
  have l: "sc_last_step_clock sc1 = 1000"
    using em by (simp add: emitted_def mk_move_def step_offset_def full_sc_fields del: stepcompress.update_convs)
  let ?sc = "sc1\<lparr>sc_pos := 1\<rparr>"
  have "flush_loop 501 ?sc = (Inr 0, ?sc)" by (simp add: flush_loop.simps l)
  then have fl: "queue_flush 501 full_sc1 = (Inr 0, ?sc)"
    using sc1 c by (simp add: queue_flush_def flush_loop.simps [of 501 full_sc1] full_sc_compress full_sc_fields
      del: stepcompress.update_convs) (simp add: mk_move_def)
  have "queue_append full_sc = queue_append_far full_sc"
    by (simp add: queue_append_def fw_unfold on_ok_def full_sc_defs CLOCK_DIFF_MAX_def)
  also have "\<dots> = (Inl Stuck, ?sc)"
    using fl sc1 l full_sc_fields
    by (simp add: queue_append_far_def fw_unfold on_ok_def queue_put_def CLOCK_DIFF_MAX_def full_sc_def)
  finally show ?thesis
    using p fl sc1 full_sc_fields(2,5) by (auto simp: full_sc_defs CLOCK_DIFF_MAX_def)
qed

end
