(* ===== verification/Serialqueue.thy ===== *)
theory Serialqueue
  imports Msgblock
begin

text \<open>
  The host side of the serial link, \<^verbatim>\<open>klippy/chelper/serialqueue.c\<close>: command queues,
  the building of message blocks, acknowledgements, retransmission and the received messages.
  A \<^verbatim>\<open>struct command_queue\<close> is named by a number.  Only the lock holder touches the state,
  so an operation is one step of the state; what it hands to the operating system is kept in
  order: blocks written (\<open>sq_written\<close>), wake-ups of the background thread (\<open>sq_kicks\<close>) and
  of the receiver (\<open>sq_signals\<close>), calls of fast readers.  The round trip estimate and the
  other \<^verbatim>\<open>double\<close> times are left out: a timer is due now, never or at some later time, and
  the clocks that \<^verbatim>\<open>check_send_command\<close> converts from times are arguments.
\<close>

section \<open>State\<close>

datatype fd_type = SQT_UART | SQT_CAN | SQT_DEBUGFILE

datatype waketime = PR_NOW | PR_NEVER | PR_LATER

record command_queue =
  cq_ready :: "queue_message list"
  cq_upcoming :: "queue_message list"

record fastreader =
  fr_func :: nat
  fr_prefix :: "u8 list"

record serialqueue =
  sq_type :: fd_type
  sq_input :: "u8 list"
  sq_need_sync :: u8
  sq_receive_waiting :: bool
  sq_receive_window :: int
  sq_send_seq :: u64
  sq_receive_seq :: u64
  sq_ignore_nak_seq :: u64
  sq_last_ack_seq :: u64
  sq_retransmit_seq :: u64
  sq_sent_queue :: "queue_message list"
  sq_pending_queues :: "nat list"
  sq_cqs :: "nat \<Rightarrow> command_queue"
  sq_ready_bytes :: int
  sq_upcoming_bytes :: int
  sq_need_ack_bytes :: int
  sq_last_ack_bytes :: int
  sq_need_kick_clock :: u64
  sq_notify_queue :: "queue_message list"
  sq_receive_queue :: "queue_message list"
  sq_fast_readers :: "fastreader list"
  sq_old_sent :: "queue_message list"
  sq_old_receive :: "queue_message list"
  sq_bytes_write :: u32
  sq_bytes_read :: u32
  sq_bytes_retransmit :: u32
  sq_bytes_invalid :: u32
  sq_retransmit_timer :: waketime
  sq_command_timer :: waketime
  sq_exit :: bool
  sq_written :: "u8 list list"
  sq_kicks :: nat
  sq_signals :: nat
  sq_calls :: "(nat \<times> u8 list) list"

definition MAX_PENDING_BLOCKS :: nat where "MAX_PENDING_BLOCKS = 12"
definition MAX_CLOCK :: u64 where "MAX_CLOCK = 0x7fffffffffffffff"
definition BACKGROUND_PRIORITY_CLOCK :: u64 where "BACKGROUND_PRIORITY_CLOCK = 0x7fffffff00000000"
definition DEBUG_QUEUE_SENT :: nat where "DEBUG_QUEUE_SENT = 100"
definition DEBUG_QUEUE_RECEIVE :: nat where "DEBUG_QUEUE_RECEIVE = 100"

abbreviation cq_upd :: "nat \<Rightarrow> (command_queue \<Rightarrow> command_queue) \<Rightarrow> serialqueue \<Rightarrow> serialqueue" where
  "cq_upd q f sq \<equiv> sq\<lparr>sq_cqs := (sq_cqs sq)(q := f (sq_cqs sq q))\<rparr>"

definition cq_empty :: "command_queue \<Rightarrow> bool" where
  "cq_empty cq \<longleftrightarrow> cq_ready cq = [] \<and> cq_upcoming cq = []"

section \<open>Helpers\<close>

definition debug_queue_alloc :: "nat \<Rightarrow> queue_message list" where
  "debug_queue_alloc count = replicate count message_alloc"

definition debug_queue_add :: "queue_message \<Rightarrow> queue_message list \<Rightarrow> queue_message list" where
  "debug_queue_add qm root = tl (root @ [qm])"

definition check_wake_receive :: "serialqueue \<Rightarrow> serialqueue" where
  "check_wake_receive sq =
    (if sq_receive_waiting sq then sq\<lparr>sq_receive_waiting := False, sq_signals := Suc (sq_signals sq)\<rparr> else sq)"

definition kick_bg_thread :: "serialqueue \<Rightarrow> serialqueue" where
  "kick_bg_thread sq = sq\<lparr>sq_kicks := Suc (sq_kicks sq)\<rparr>"

text \<open>The number of bits on a CAN bus, or of bytes on a serial line, that a transfer takes.\<close>

definition bittime_units :: "fd_type \<Rightarrow> u32 \<Rightarrow> u32" where
  "bittime_units type bytes =
    (if type = SQT_CAN then
       let pkts = (bytes + 8 - 1) div 8 in bytes * 8 + pkts * 47 - 4
     else bytes)"

section \<open>Received messages\<close>

text \<open>Remove the acknowledged blocks from the sent queue.\<close>

fun ack_sent :: "u64 \<Rightarrow> u64 \<Rightarrow> queue_message list \<Rightarrow> serialqueue \<Rightarrow> serialqueue" where
  "ack_sent rseq sent_seq [] sq = sq\<lparr>sq_send_seq := rseq, sq_sent_queue := []\<rparr>"
| "ack_sent rseq sent_seq (sent # rest) sq =
    (let sq1 = sq\<lparr>sq_need_ack_bytes := sq_need_ack_bytes sq - qm_len sent, sq_sent_queue := rest,
                  sq_old_sent := debug_queue_add sent (sq_old_sent sq)\<rparr> in
     if rseq = sent_seq + 1 then sq1\<lparr>sq_last_ack_bytes := qm_len sent\<rparr>
     else ack_sent rseq (sent_seq + 1) rest sq1)"

definition update_receive_seq :: "u64 \<Rightarrow> serialqueue \<Rightarrow> serialqueue" where
  "update_receive_seq rseq sq =
    (let sq1 = ack_sent rseq (sq_receive_seq sq) (sq_sent_queue sq) sq;
         sq2 = sq1\<lparr>sq_receive_seq := rseq, sq_command_timer := PR_NOW\<rparr>
     in sq2\<lparr>sq_retransmit_timer := (if sq_sent_queue sq2 = [] then PR_NEVER else PR_LATER)\<rparr>)"

text \<open>Messages whose completion was to be notified, up to the sequence number acknowledged.\<close>

fun notify_loop :: "u64 \<Rightarrow> queue_message list \<Rightarrow> serialqueue \<Rightarrow> serialqueue \<times> bool" where
  "notify_loop wake_seq [] sq = (sq, False)"
| "notify_loop wake_seq (qm # rest) sq =
    (if qm_req_clock qm > wake_seq then (sq, False)
     else (fst (notify_loop wake_seq rest (sq\<lparr>sq_notify_queue := rest,
             sq_receive_queue := sq_receive_queue sq @ [qm\<lparr>qm_len := 0\<rparr>]\<rparr>)), True))"

definition fr_matches :: "u8 list \<Rightarrow> nat \<Rightarrow> fastreader \<Rightarrow> bool" where
  "fr_matches buf len fr \<longleftrightarrow> \<not> len < length (fr_prefix fr) + MESSAGE_MIN \<and>
    take (length (fr_prefix fr)) (drop MESSAGE_HEADER_SIZE buf) = fr_prefix fr"

text \<open>An acknowledgement, or a message for the receive queue; whether the receiver must wake.\<close>

definition process_message :: "u8 list \<Rightarrow> nat \<Rightarrow> u64 \<Rightarrow> serialqueue \<Rightarrow> bool \<Rightarrow> (serialqueue \<times> bool) option" where
  "process_message buf len rseq sq wake =
    (if len = MESSAGE_MIN then
       Some (if sq_last_ack_seq sq < rseq then sq\<lparr>sq_last_ack_seq := rseq\<rparr>
             else if rseq > sq_ignore_nak_seq sq \<and> sq_sent_queue sq \<noteq> []
             then sq\<lparr>sq_retransmit_timer := PR_NOW\<rparr> else sq, wake)
     else case message_fill buf len of None \<Rightarrow> None
       | Some qm \<Rightarrow> Some (sq\<lparr>sq_receive_queue := sq_receive_queue sq @ [qm]\<rparr>, True))"

definition call_fast_reader :: "u8 list \<Rightarrow> nat \<Rightarrow> serialqueue \<Rightarrow> serialqueue" where
  "call_fast_reader buf len sq =
    (case find (fr_matches buf len) (sq_fast_readers sq) of None \<Rightarrow> sq
     | Some fr \<Rightarrow> sq\<lparr>sq_calls := sq_calls sq @ [(fr_func fr, take len buf)]\<rparr>)"

definition message_rseq :: "serialqueue \<Rightarrow> u64" where
  "message_rseq sq = sq_receive_seq sq +
    ((ucast (sq_input sq ! MESSAGE_POS_SEQ) - sq_receive_seq sq) AND ucast MESSAGE_SEQ_MASK)"

definition handle_message :: "nat \<Rightarrow> (serialqueue, unit) fw" where
  "handle_message len sq =
    (let buf = sq_input sq; rseq = message_rseq sq in
     if rseq \<noteq> sq_receive_seq sq \<and> rseq > sq_send_seq sq \<and> sq_receive_seq sq \<noteq> 1
     then (Inr (), sq\<lparr>sq_bytes_invalid := sq_bytes_invalid sq + of_nat len\<rparr>)
     else
       let sq1 = (if rseq \<noteq> sq_receive_seq sq then update_receive_seq rseq sq else sq);
           sq2 = sq1\<lparr>sq_bytes_read := sq_bytes_read sq1 + of_nat len\<rparr>;
           sq3 = notify_loop (rseq - 1 - (if len > MESSAGE_MIN then 1 else 0)) (sq_notify_queue sq2) sq2
       in case process_message buf len rseq (fst sq3) (snd sq3) of None \<Rightarrow> (Inl Stuck, fst sq3)
       | Some (sq4, must_wake) \<Rightarrow>
         (Inr (), call_fast_reader buf len (if must_wake then check_wake_receive sq4 else sq4)))"

lemma ack_sent_input [simp]: "sq_input (ack_sent rseq sent q sq) = sq_input sq"
  by (induction q arbitrary: sent sq) (simp_all add: Let_def)

lemma notify_loop_input [simp]: "sq_input (fst (notify_loop w q sq)) = sq_input sq"
  by (induction q arbitrary: sq) simp_all

lemma update_receive_seq_input [simp]: "sq_input (update_receive_seq rseq sq) = sq_input sq"
  by (simp add: update_receive_seq_def Let_def)

lemma process_message_input: "process_message buf len rseq sq w = Some (sq', w') \<Longrightarrow> sq_input sq' = sq_input sq"
  by (auto simp: process_message_def split: if_splits option.splits)

lemma check_wake_receive_input [simp]: "sq_input (check_wake_receive sq) = sq_input sq"
  by (simp add: check_wake_receive_def)

lemma call_fast_reader_input [simp]: "sq_input (call_fast_reader buf len sq) = sq_input sq"
  by (simp add: call_fast_reader_def split: option.splits)

lemma handle_message_input: "handle_message len sq = (r, sq') \<Longrightarrow> sq_input sq' = sq_input sq"
  by (auto simp: handle_message_def Let_def split: if_splits option.splits dest!: process_message_input)

text \<open>
  The loop over the input buffer.  \<^verbatim>\<open>msgblock_check\<close> returns 0 when it needs more data, the
  length of a message, or the negated number of bytes to skip.
\<close>

lemma check_progress:
  assumes "msgblock_check ns buf = (r, ns')" and "r \<noteq> 0"
  shows "length (drop (nat \<bar>r\<bar>) buf) < length buf"
  using check_range [OF assms(1)] assms(2) by auto

function input_loop :: "(serialqueue, unit) fw" where
  "input_loop sq =
    (case msgblock_check (sq_need_sync sq) (sq_input sq) of (len, need_sync) \<Rightarrow>
     let sq1 = sq\<lparr>sq_need_sync := need_sync\<rparr> in
     if len = 0 then (Inr (), sq1)
     else if len > 0 then
       (case handle_message (nat len) sq1 of
          (Inl e, sq2) \<Rightarrow> (Inl e, sq2)
        | (Inr u, sq2) \<Rightarrow> input_loop (sq2\<lparr>sq_input := drop (nat \<bar>len\<bar>) (sq_input sq2)\<rparr>))
     else input_loop (sq1\<lparr>sq_bytes_invalid := sq_bytes_invalid sq1 + of_int (- len),
                          sq_input := drop (nat \<bar>len\<bar>) (sq_input sq1)\<rparr>))"
  by pat_completeness auto
termination
  by (relation "measure (\<lambda>sq. length (sq_input sq))")
    (auto dest!: handle_message_input [OF sym] check_progress [OF sym])

declare input_loop.simps [simp del]

text \<open>
  \<open>data\<close> is what \<^verbatim>\<open>read\<close> returned, \<open>None\<close> an error or the end of file.  For a CAN bus it
  is the identifier and the data of a frame.
\<close>

definition input_event :: "nat \<Rightarrow> (nat \<times> u8 list) option \<Rightarrow> (serialqueue, unit) fw" where
  "input_event client_id data sq =
    (case data of None \<Rightarrow> (Inr (), sq\<lparr>sq_exit := True\<rparr>)
     | Some (can_id, bytes) \<Rightarrow>
       if sq_type sq = SQT_CAN \<and> can_id \<noteq> client_id + 1 then (Inr (), sq)
       else if length (sq_input sq) + length bytes > 4096 then (Inl Stuck, sq)
       else input_loop (sq\<lparr>sq_input := sq_input sq @ bytes\<rparr>))"

definition kick_event :: "serialqueue \<Rightarrow> serialqueue" where
  "kick_event sq = sq\<lparr>sq_kicks := 0, sq_command_timer := PR_NOW\<rparr>"

section \<open>Transmission\<close>

text \<open>A write to the operating system: one call for a serial port, frames of 8 bytes for CAN.\<close>

function can_frames :: "u8 list \<Rightarrow> u8 list list" where
  "can_frames buf = (if buf = [] then [] else
    let size = (if length buf > 8 then 8 else length buf) in take size buf # can_frames (drop size buf))"
  by pat_completeness auto
termination
  by (relation "measure length") (auto split: if_splits)

declare can_frames.simps [simp del]

definition do_write :: "u8 list \<Rightarrow> serialqueue \<Rightarrow> serialqueue" where
  "do_write buf sq = sq\<lparr>sq_written := sq_written sq @ (if sq_type sq \<noteq> SQT_CAN then [buf] else can_frames buf)\<rparr>"

text \<open>
  The retransmit timer runs: every block that is not acknowledged is sent again.  The buffer has
  room for \<^verbatim>\<open>MAX_PENDING_BLOCKS\<close> blocks.  The timer is then set to the time returned.  The flush of
  the kernel's output queue (\<^verbatim>\<open>tcflush\<close>), which drops bytes that are not transmitted yet, is a
  loss on the wire.
\<close>

definition retransmit_event :: "(serialqueue, unit) fw" where
  "retransmit_event sq =
    (let buf = MESSAGE_SYNC # concat (map qm_payload (sq_sent_queue sq)) in
     if length buf > MESSAGE_MAX * MAX_PENDING_BLOCKS + 1 then (Inl Stuck, sq)
     else
       let sq1 = do_write buf sq;
           sq2 = sq1\<lparr>sq_bytes_retransmit := sq_bytes_retransmit sq1 + of_nat (length buf)\<rparr>;
           ignore = (if sq_retransmit_timer sq2 = PR_NOW
             then (if sq_receive_seq sq2 < sq_retransmit_seq sq2 then sq_retransmit_seq sq2 else sq_receive_seq sq2)
             else sq_send_seq sq2)
       in (Inr (), sq2\<lparr>sq_ignore_nak_seq := ignore, sq_retransmit_seq := sq_send_seq sq2,
                       sq_retransmit_timer := PR_LATER\<rparr>))"

text \<open>
  The queue whose first message has the lowest \<^verbatim>\<open>req_clock\<close> below a bound, the first such
  queue in the list.
\<close>

fun pick_lowest :: "('q \<Rightarrow> queue_message list) \<Rightarrow> 'q list \<Rightarrow> u64 \<Rightarrow> 'q option \<Rightarrow> 'q option" where
  "pick_lowest f [] min_clock best = best"
| "pick_lowest f (q # qs) min_clock best =
    (case f q of [] \<Rightarrow> pick_lowest f qs min_clock best
     | m # _ \<Rightarrow> if qm_req_clock m < min_clock then pick_lowest f qs (qm_req_clock m) (Some q)
                else pick_lowest f qs min_clock best)"

lemma pick_lowest_in: "pick_lowest f qs c best = Some q \<Longrightarrow> best = Some q \<or> q \<in> set qs \<and> f q \<noteq> []"
proof (induction qs arbitrary: c best)
  case (Cons x qs)
  show ?case
  proof (cases "f x")
    case Nil
    then show ?thesis using Cons.IH [of c best] Cons.prems by auto
  next
    case (Cons m ms)
    then show ?thesis
      using Cons.IH [of "qm_req_clock m" "Some x"] Cons.IH [of c best] Cons.prems by (auto split: if_splits)
  qed
qed simp

definition pick_ready :: "serialqueue \<Rightarrow> nat option" where
  "pick_ready sq = pick_lowest (\<lambda>q. cq_ready (sq_cqs sq q)) (sq_pending_queues sq) MAX_CLOCK None"

text \<open>Take the first message of a queue; the queue leaves the pending list when it is empty.\<close>

definition take_ready :: "nat \<Rightarrow> serialqueue \<Rightarrow> serialqueue" where
  "take_ready q sq =
    (let qm = hd (cq_ready (sq_cqs sq q));
         sq1 = cq_upd q (\<lambda>cq. cq\<lparr>cq_ready := tl (cq_ready cq)\<rparr>) sq;
         sq2 = (if cq_empty (sq_cqs sq1 q) then sq1\<lparr>sq_pending_queues := remove1 q (sq_pending_queues sq1)\<rparr> else sq1);
         sq3 = sq2\<lparr>sq_ready_bytes := sq_ready_bytes sq2 - qm_len qm\<rparr>
     in if qm_notify_id qm \<noteq> 0
        then sq3\<lparr>sq_notify_queue := sq_notify_queue sq3 @ [qm\<lparr>qm_req_clock := sq_send_seq sq3\<rparr>]\<rparr>
        else sq3)"

definition ready_count :: "serialqueue \<Rightarrow> nat" where
  "ready_count sq = sum_list (map (\<lambda>q. length (cq_ready (sq_cqs sq q))) (sq_pending_queues sq))"

lemma take_ready_count:
  assumes "pick_ready sq = Some q"
  shows "ready_count (take_ready q sq) < ready_count sq"
proof -
  have q: "q \<in> set (sq_pending_queues sq)" "cq_ready (sq_cqs sq q) \<noteq> []"
    using pick_lowest_in assms unfolding pick_ready_def by force+
  let ?f = "\<lambda>x. length (cq_ready (sq_cqs sq x))"
  let ?g = "\<lambda>x. length (cq_ready (((sq_cqs sq)(q := (sq_cqs sq q)\<lparr>cq_ready := tl (cq_ready (sq_cqs sq q))\<rparr>)) x))"
  have le: "sum_list (map ?g xs) \<le> sum_list (map ?f xs)" for xs
    by (rule sum_list_mono) (simp add: fun_upd_def)
  have lt: "sum_list (map ?g xs) < sum_list (map ?f xs)" if "q \<in> set xs" for xs
    using that
  proof (induction xs)
    case (Cons x xs)
    show ?case
    proof (cases "x = q")
      case True
      then show ?thesis using le [of xs] q(2) by (auto simp: neq_Nil_conv)
    next
      case False
      then show ?thesis using Cons by simp
    qed
  qed simp
  have "sum_list (map ?g (remove1 q xs)) \<le> sum_list (map ?g xs)" for xs
    by (induction xs) auto
  then show ?thesis
    using lt [OF q(1)] le_less_trans by (auto simp: ready_count_def take_ready_def Let_def)
qed

text \<open>
  Collect messages while they fit.  A missing message (a null pointer) is \<open>Stuck\<close>.
\<close>

function build_loop :: "u8 list \<Rightarrow> (serialqueue, u8 list) fw" where
  "build_loop acc sq =
    (if sq_ready_bytes sq = 0 then (Inr acc, sq)
     else case pick_ready sq of None \<Rightarrow> (Inl Stuck, sq)
     | Some q \<Rightarrow>
       let qm = hd (cq_ready (sq_cqs sq q)) in
       if int (MESSAGE_HEADER_SIZE + length acc) + qm_len qm > int (MESSAGE_MAX - MESSAGE_TRAILER_SIZE)
       then (Inr acc, sq)
       else build_loop (acc @ qm_payload qm) (take_ready q sq))"
  by pat_completeness auto
termination
  by (relation "measure (\<lambda>(_, sq). ready_count sq)") (auto simp: take_ready_count)

declare build_loop.simps [simp del]

text \<open>Header and trailer around the messages.\<close>

definition fill_block :: "u64 \<Rightarrow> u8 list \<Rightarrow> u8 list" where
  "fill_block send_seq data =
    (let len = MESSAGE_HEADER_SIZE + length data + MESSAGE_TRAILER_SIZE;
         head = [of_nat len, MESSAGE_DEST OR (ucast send_seq AND MESSAGE_SEQ_MASK)] @ data;
         crc = msgblock_crc16_ccitt head
     in head @ [ucast (drop_bit 8 crc), ucast (crc AND 0xff), MESSAGE_SYNC])"

definition build_and_send_command :: "(serialqueue, u8 list) fw" where
  "build_and_send_command sq =
    (case build_loop [] sq of (Inl e, sq1) \<Rightarrow> (Inl e, sq1)
     | (Inr data, sq1) \<Rightarrow>
       let buf = fill_block (sq_send_seq sq1) data; len = length buf in
       (case message_fill buf len of None \<Rightarrow> (Inl Stuck, sq1)
        | Some out \<Rightarrow>
          (Inr buf, sq1\<lparr>
             sq_retransmit_timer := (if sq_sent_queue sq1 = [] then PR_LATER else sq_retransmit_timer sq1),
             sq_send_seq := sq_send_seq sq1 + 1,
             sq_need_ack_bytes := sq_need_ack_bytes sq1 + int len,
             sq_sent_queue := sq_sent_queue sq1 @ [out]\<rparr>)))"

text \<open>
  The clocks that \<^verbatim>\<open>check_send_command\<close> computes from times: the clock at which the next
  message would arrive, the clock of background messages, whether the frequency of the
  micro-controller is known, and the number of ticks messages are sent ahead.
\<close>

record send_clocks =
  ack_clock :: u64
  bg_clock :: u64
  have_freq :: bool
  reqclock_delta :: u64

datatype send_time = Send_now | Send_never | Send_at u64

text \<open>Move the messages that are due from the upcoming to the ready queue of a command queue.\<close>

fun move_ready :: "u64 \<Rightarrow> nat \<Rightarrow> queue_message list \<Rightarrow> u64 \<Rightarrow> serialqueue \<Rightarrow> u64 \<times> serialqueue" where
  "move_ready ack q [] min_stalled sq = (min_stalled, sq)"
| "move_ready ack q (qm # rest) min_stalled sq =
    (if ack < qm_min_clock qm
     then (if qm_min_clock qm < min_stalled then qm_min_clock qm else min_stalled, sq)
     else move_ready ack q rest min_stalled
       ((cq_upd q (\<lambda>cq. cq\<lparr>cq_upcoming := rest, cq_ready := cq_ready cq @ [qm]\<rparr>) sq)
         \<lparr>sq_upcoming_bytes := sq_upcoming_bytes sq - qm_len qm, sq_ready_bytes := sq_ready_bytes sq + qm_len qm\<rparr>))"

definition ready_clock :: "send_clocks \<Rightarrow> command_queue \<Rightarrow> u64 \<Rightarrow> u64" where
  "ready_clock tc cq min_ready =
    (case cq_ready cq of [] \<Rightarrow> min_ready
     | qm # _ \<Rightarrow>
       let req_clock = (if qm_req_clock qm = BACKGROUND_PRIORITY_CLOCK then bg_clock tc else qm_req_clock qm)
       in if req_clock < min_ready then req_clock else min_ready)"

fun check_queues :: "send_clocks \<Rightarrow> nat list \<Rightarrow> u64 \<Rightarrow> u64 \<Rightarrow> serialqueue \<Rightarrow> u64 \<times> u64 \<times> serialqueue" where
  "check_queues tc [] min_stalled min_ready sq = (min_stalled, min_ready, sq)"
| "check_queues tc (q # qs) min_stalled min_ready sq =
    (let r = move_ready (ack_clock tc) q (cq_upcoming (sq_cqs sq q)) min_stalled sq
     in check_queues tc qs (fst r) (ready_clock tc (sq_cqs (snd r) q) min_ready) (snd r))"

definition window_full :: "serialqueue \<Rightarrow> bool" where
  "window_full sq \<longleftrightarrow>
    sq_send_seq sq - sq_receive_seq sq \<ge> of_nat MAX_PENDING_BLOCKS \<and> sq_receive_seq sq \<noteq> - 1 \<or>
    sq_send_seq sq > sq_receive_seq sq \<and> sq_receive_window sq \<noteq> 0 \<and>
      sq_need_ack_bytes sq + int MESSAGE_MAX +
        (if sq_last_ack_seq sq < sq_receive_seq sq then sq_last_ack_bytes sq else 0) > sq_receive_window sq"

definition check_send_command :: "send_clocks \<Rightarrow> serialqueue \<Rightarrow> send_time \<times> serialqueue" where
  "check_send_command tc sq =
    (if window_full sq then (Send_never, sq)
     else case check_queues tc (sq_pending_queues sq) MAX_CLOCK MAX_CLOCK sq of (min_stalled, min_ready, sq1) \<Rightarrow>
     if sq_ready_bytes sq1 \<ge> int MESSAGE_PAYLOAD_MAX then (Send_now, sq1)
     else if \<not> have_freq tc then
       (if sq_ready_bytes sq1 \<noteq> 0 then (Send_now, sq1)
        else (Send_never, sq1\<lparr>sq_need_kick_clock := MAX_CLOCK\<rparr>))
     else if min_ready \<le> ack_clock tc + reqclock_delta tc then (Send_now, sq1)
     else
       let wantclock = min_ready - reqclock_delta tc;
           wantclock' = (if min_stalled < wantclock then min_stalled else wantclock)
       in (Send_at wantclock', sq1\<lparr>sq_need_kick_clock := wantclock'\<rparr>))"

text \<open>
  The loop of \<^verbatim>\<open>command_event\<close>, with a bound on its passes; \<open>tc k buflen\<close> are the clocks in a
  pass when \<^verbatim>\<open>buflen\<close> bytes wait to be written.
\<close>

definition write_blocks :: "u8 list \<Rightarrow> serialqueue \<Rightarrow> serialqueue" where
  "write_blocks buf sq =
    (if buf \<noteq> [] then
       let sq1 = do_write buf sq in sq1\<lparr>sq_bytes_write := sq_bytes_write sq1 + of_nat (length buf)\<rparr>
     else sq)"

fun command_loop :: "nat \<Rightarrow> (nat \<Rightarrow> nat \<Rightarrow> send_clocks) \<Rightarrow> u8 list \<Rightarrow> (serialqueue, send_time) fw" where
  "command_loop 0 tc buf sq = (Inl Stuck, sq)"
| "command_loop (Suc k) tc buf sq =
    (case check_send_command (tc k (length buf)) sq of (waketime, sq1) \<Rightarrow>
     let flush = (waketime \<noteq> Send_now \<or> length buf + MESSAGE_MAX > MESSAGE_MAX * MAX_PENDING_BLOCKS);
         sq2 = (if flush then write_blocks buf sq1 else sq1);
         buf2 = (if flush then [] else buf) in
     if waketime \<noteq> Send_now then (Inr waketime, sq2)
     else case build_and_send_command sq2 of
       (Inl e, sq3) \<Rightarrow> (Inl e, sq3)
     | (Inr block, sq3) \<Rightarrow> command_loop k tc (buf2 @ block) sq3)"

definition command_event :: "nat \<Rightarrow> (nat \<Rightarrow> nat \<Rightarrow> send_clocks) \<Rightarrow> (serialqueue, send_time) fw" where
  "command_event fuel tc = command_loop fuel tc []"

section \<open>Interface\<close>

definition serialqueue_alloc :: "fd_type \<Rightarrow> serialqueue" where
  "serialqueue_alloc serial_fd_type =
    \<lparr>sq_type = serial_fd_type, sq_input = [], sq_need_sync = 0, sq_receive_waiting = False,
     sq_receive_window = 0, sq_send_seq = 1,
     sq_receive_seq = (if serial_fd_type = SQT_DEBUGFILE then - 1 else 1),
     sq_ignore_nak_seq = 0, sq_last_ack_seq = 0, sq_retransmit_seq = 0, sq_sent_queue = [],
     sq_pending_queues = [], sq_cqs = (\<lambda>_. \<lparr>cq_ready = [], cq_upcoming = []\<rparr>), sq_ready_bytes = 0,
     sq_upcoming_bytes = 0, sq_need_ack_bytes = 0, sq_last_ack_bytes = 0, sq_need_kick_clock = MAX_CLOCK,
     sq_notify_queue = [], sq_receive_queue = [], sq_fast_readers = [],
     sq_old_sent = debug_queue_alloc DEBUG_QUEUE_SENT, sq_old_receive = debug_queue_alloc DEBUG_QUEUE_RECEIVE,
     sq_bytes_write = 0, sq_bytes_read = 0, sq_bytes_retransmit = 0, sq_bytes_invalid = 0,
     sq_retransmit_timer = PR_NEVER, sq_command_timer = PR_NEVER, sq_exit = False, sq_written = [],
     sq_kicks = 0, sq_signals = 0, sq_calls = []\<rparr>"

definition serialqueue_exit :: "serialqueue \<Rightarrow> serialqueue" where
  "serialqueue_exit sq = kick_bg_thread (sq\<lparr>sq_exit := True\<rparr>)"

text \<open>The end of the background thread wakes the receiver.\<close>

definition background_thread_end :: "serialqueue \<Rightarrow> serialqueue" where
  "background_thread_end sq = check_wake_receive sq"

definition serialqueue_alloc_commandqueue :: command_queue where
  "serialqueue_alloc_commandqueue = \<lparr>cq_ready = [], cq_upcoming = []\<rparr>"

text \<open>Whether a command queue may be freed.\<close>

definition serialqueue_free_commandqueue :: "command_queue \<Rightarrow> bool" where
  "serialqueue_free_commandqueue cq = cq_empty cq"

definition serialqueue_add_fastreader :: "fastreader \<Rightarrow> serialqueue \<Rightarrow> serialqueue" where
  "serialqueue_add_fastreader fr sq = sq\<lparr>sq_fast_readers := sq_fast_readers sq @ [fr]\<rparr>"

definition serialqueue_rm_fastreader :: "fastreader \<Rightarrow> serialqueue \<Rightarrow> serialqueue" where
  "serialqueue_rm_fastreader fr sq = sq\<lparr>sq_fast_readers := remove1 fr (sq_fast_readers sq)\<rparr>"

text \<open>A message may be sent at most \<open>2 ^ 31\<close> ticks before the clock it is wanted at.\<close>

definition set_min_clock :: "queue_message \<Rightarrow> queue_message" where
  "set_min_clock qm =
    (if qm_min_clock qm + 0x80000000 < qm_req_clock qm \<and> qm_req_clock qm \<noteq> BACKGROUND_PRIORITY_CLOCK
     then qm\<lparr>qm_min_clock := qm_req_clock qm - 0x80000000\<rparr> else qm)"

definition serialqueue_send_batch :: "nat \<Rightarrow> queue_message list \<Rightarrow> serialqueue \<Rightarrow> serialqueue" where
  "serialqueue_send_batch q msgs sq =
    (let msgs' = map set_min_clock msgs; len = sum_list (map qm_len msgs') in
     if len = 0 then sq
     else
       let sq1 = (if cq_empty (sq_cqs sq q) then sq\<lparr>sq_pending_queues := sq_pending_queues sq @ [q]\<rparr> else sq);
           sq2 = cq_upd q (\<lambda>cq. cq\<lparr>cq_upcoming := cq_upcoming cq @ msgs'\<rparr>) sq1;
           sq3 = sq2\<lparr>sq_upcoming_bytes := sq_upcoming_bytes sq2 + len\<rparr>
       in if qm_min_clock (hd msgs') < sq_need_kick_clock sq3
          then kick_bg_thread (sq3\<lparr>sq_need_kick_clock := 0\<rparr>) else sq3)"

definition serialqueue_send_one :: "nat \<Rightarrow> queue_message \<Rightarrow> serialqueue \<Rightarrow> serialqueue" where
  "serialqueue_send_one q qm sq = serialqueue_send_batch q [qm] sq"

definition serialqueue_send ::
    "nat \<Rightarrow> u8 list \<Rightarrow> nat \<Rightarrow> u64 \<Rightarrow> u64 \<Rightarrow> u64 \<Rightarrow> (serialqueue, unit) fw" where
  "serialqueue_send q msg len min_clock req_clock notify_id sq =
    (case message_fill msg len of None \<Rightarrow> (Inl Stuck, sq)
     | Some qm \<Rightarrow> (Inr (), serialqueue_send_one q
         (qm\<lparr>qm_min_clock := min_clock, qm_req_clock := req_clock, qm_notify_id := notify_id\<rparr>) sq))"

text \<open>
  The next received message: \<open>Inl True\<close> when the background thread has exited (the length -1),
  \<open>Inl False\<close> when the caller waits for the condition variable.
\<close>

definition serialqueue_pull :: "serialqueue \<Rightarrow> (bool + queue_message) \<times> serialqueue" where
  "serialqueue_pull sq =
    (case sq_receive_queue sq of
       [] \<Rightarrow> if sq_exit sq then (Inl True, sq) else (Inl False, sq\<lparr>sq_receive_waiting := True\<rparr>)
     | qm # rest \<Rightarrow> (Inr qm, sq\<lparr>sq_receive_queue := rest,
         sq_old_receive := (if qm_len qm \<noteq> 0 then debug_queue_add qm (sq_old_receive sq) else sq_old_receive sq)\<rparr>))"

definition serialqueue_set_receive_window :: "int \<Rightarrow> serialqueue \<Rightarrow> serialqueue" where
  "serialqueue_set_receive_window receive_window sq = sq\<lparr>sq_receive_window := receive_window\<rparr>"

text \<open>The old messages of a debug queue, at most \<open>k\<close>; the queue is replaced by an empty one.\<close>

definition serialqueue_extract_old :: "bool \<Rightarrow> nat \<Rightarrow> serialqueue \<Rightarrow> u8 list list \<times> serialqueue" where
  "serialqueue_extract_old sentq k sq =
    (let old = (if sentq then sq_old_sent sq else sq_old_receive sq);
         fresh = debug_queue_alloc (if sentq then DEBUG_QUEUE_SENT else DEBUG_QUEUE_RECEIVE);
         sq1 = (if sentq then sq\<lparr>sq_old_sent := fresh\<rparr> else sq\<lparr>sq_old_receive := fresh\<rparr>)
     in (map qm_payload (take k (filter (\<lambda>qm. qm_len qm \<noteq> 0) old)), sq1))"

section \<open>Blocks\<close>

text \<open>The sequence byte of a block, and the distance between two sequence numbers seen through it.\<close>

definition seq_byte :: "u64 \<Rightarrow> u8" where
  "seq_byte seq = MESSAGE_DEST OR (ucast seq AND MESSAGE_SEQ_MASK)"

lemma uint_and_15: "uint ((w :: 'a::len word) AND 15) = uint w mod 16"
proof -
  have "w AND 15 = take_bit 4 w" by (simp add: take_bit_eq_mask mask_numeral)
  then have "uint (w AND 15) = take_bit 4 (uint w)" by (simp only: unsigned_take_bit_eq)
  then show ?thesis by (simp add: take_bit_eq_mod)
qed

lemma lt16_cases:
  "0 \<le> (k :: int) \<Longrightarrow> k < 16 \<Longrightarrow> k \<in> {0, 1, 2, 3, 4, 5, 6, 7, 8, 9, 10, 11, 12, 13, 14, 15}"
  unfolding insert_iff empty_iff by presburger

lemma or_16: "0 \<le> k \<Longrightarrow> k < 16 \<Longrightarrow> uint ((16 :: u8) OR word_of_int k) = 16 + k"
  by (drule (1) lt16_cases, elim insertE emptyE) simp_all

lemma uint_ucast8: "uint (ucast (x :: u8) :: u64) = uint x"
  unfolding uint_nat by (subst unat_ucast_up) simp_all

lemma uint_seq_byte: "uint (seq_byte seq) = 16 + uint seq mod 16"
proof -
  have "uint (ucast seq AND (15 :: u8)) = uint seq mod 16"
    unfolding uint_and_15 by (simp add: unsigned_ucast_eq take_bit_eq_mod mod_mod_cancel)
  then have "ucast seq AND (15 :: u8) = word_of_int (uint seq mod 16)" by (metis word_of_int_uint)
  then show ?thesis unfolding seq_byte_def message_consts by (simp add: or_16)
qed

lemma mod16_ariths:
  "uint (x + y :: u64) mod 16 = (uint x + uint y) mod 16"
  "uint (x - y :: u64) mod 16 = (uint x - uint y) mod 16"
  by (simp_all add: uint_word_ariths mod_mod_cancel)

lemma mod16_drop: "(16 + x mod 16 - r) mod 16 = (16 + x - r) mod (16 :: int)"
  using mod_add_left_eq [of x 16 "16 - r"] by (simp add: algebra_simps)

lemma seq_delta:
  assumes "k < 16"
  shows "((ucast (seq_byte (r + of_nat k)) :: u64) - r) AND ucast MESSAGE_SEQ_MASK = of_nat k"
proof -
  have m: "(ucast MESSAGE_SEQ_MASK :: u64) = 15" by (simp add: message_consts)
  have k: "uint (of_nat k :: u64) = int k" using assms by (simp add: uint_nat unat_of_nat_small)
  have "uint (ucast (seq_byte (r + of_nat k)) :: u64) = 16 + uint (r + of_nat k) mod 16"
    unfolding uint_ucast8 by (rule uint_seq_byte)
  then have "uint (((ucast (seq_byte (r + of_nat k)) :: u64) - r) AND 15) =
      (16 + (uint r + int k) mod 16 - uint r) mod 16"
    unfolding uint_and_15 mod16_ariths k by (simp only:)
  also have "\<dots> = (16 + (uint r + int k) - uint r) mod 16" by (rule mod16_drop)
  also have "\<dots> = int k" using assms by simp
  also have "\<dots> = uint (of_nat k :: u64)" by (rule k [symmetric])
  finally show ?thesis unfolding m by (rule word_uint_eqI)
qed

lemma seq_byte_inj:
  assumes "seq_byte (r + of_nat j) = seq_byte (r + of_nat k)" and "j < 16" and "k < 16"
  shows "j = k"
proof -
  have "(of_nat j :: u64) = of_nat k"
    by (rule trans [OF seq_delta [OF assms(2), symmetric, of r] trans [OF _ seq_delta [OF assms(3), of r]]])
      (simp only: assms(1))
  then have "unat (of_nat j :: u64) = unat (of_nat k :: u64)" by (simp only:)
  moreover have "unat (of_nat j :: u64) = j" "unat (of_nat k :: u64) = k"
    using assms(2,3) by (simp_all add: unat_of_nat_small)
  ultimately show ?thesis by (simp only:)
qed

lemma seq_byte_ok [simp]: "seq_ok (seq_byte seq)"
proof -
  define k where "k = uint seq mod 16"
  have k: "k \<in> {0, 1, 2, 3, 4, 5, 6, 7, 8, 9, 10, 11, 12, 13, 14, 15}"
    by (rule lt16_cases) (simp_all add: k_def)
  have "seq_byte seq = word_of_int (16 + k)" unfolding k_def uint_seq_byte [symmetric] by simp
  then show ?thesis unfolding seq_ok_def message_consts using k by (elim insertE emptyE) simp_all
qed

lemma mod16_18: "(x + 17) mod 16 = (1 + x) mod (16 :: int)"
  using mod_add_self2 [of "1 + x" 16] by (simp add: ac_simps)

lemma seq_after_byte: "seq_after (seq_byte seq) = seq_byte (seq + 1)"
proof -
  have "uint (seq_byte seq + 1) = 17 + uint seq mod 16"
    using uint_seq_byte [of seq] pos_mod_bound [of 16 "uint seq"] pos_mod_sign [of 16 "uint seq"]
    by (simp add: uint_word_ariths)
  then have "uint ((seq_byte seq + 1) AND 15) = uint (seq + 1) mod 16"
    unfolding uint_and_15 mod16_ariths by (simp add: mod_simps add.commute mod16_18)
  also have "\<dots> = uint (ucast (seq + 1) AND (15 :: u8))"
    unfolding uint_and_15 by (simp add: unsigned_ucast_eq take_bit_eq_mod mod_mod_cancel)
  finally have "(seq_byte seq + 1) AND 15 = ucast (seq + 1) AND (15 :: u8)"
    by (rule word_uint_eqI)
  then show ?thesis
    unfolding seq_after_def seq_byte_def [of "seq + 1"] message_consts by (simp add: or.commute)
qed


section \<open>Invariant\<close>

text \<open>
  The blocks on the way are numbered consecutively from \<^verbatim>\<open>receive_seq\<close>, there are at most
  \<^verbatim>\<open>MAX_PENDING_BLOCKS\<close> of them, each is a well-formed block with its number, and their
  bytes are counted.
\<close>

definition window_ok :: "serialqueue \<Rightarrow> bool" where
  "window_ok sq \<longleftrightarrow> sq_send_seq sq = sq_receive_seq sq + of_nat (length (sq_sent_queue sq)) \<and>
    length (sq_sent_queue sq) \<le> MAX_PENDING_BLOCKS \<and>
    sq_need_ack_bytes sq = sum_list (map qm_len (sq_sent_queue sq)) \<and>
    (\<forall>i < length (sq_sent_queue sq). \<exists>data. length data \<le> 59 \<and>
      qm_len (sq_sent_queue sq ! i) = int (length data) + 5 \<and>
      qm_payload (sq_sent_queue sq ! i) = mk_frame (seq_byte (sq_receive_seq sq + of_nat i)) data)"

text \<open>
  A command queue is pending exactly when it holds a message, and the bytes of the messages that
  are ready or upcoming are counted.
\<close>

definition qm_ok :: "queue_message \<Rightarrow> bool" where
  "qm_ok qm \<longleftrightarrow> 0 \<le> qm_len qm \<and> qm_len qm \<le> 59 \<and> nat (qm_len qm) \<le> length (qm_msg qm) \<and>
    qm_req_clock qm < MAX_CLOCK"

abbreviation bytes :: "queue_message list \<Rightarrow> int" where
  "bytes qms \<equiv> sum_list (map qm_len qms)"

definition queues_ok :: "serialqueue \<Rightarrow> bool" where
  "queues_ok sq \<longleftrightarrow> distinct (sq_pending_queues sq) \<and>
    (\<forall>q. q \<in> set (sq_pending_queues sq) \<longleftrightarrow> \<not> cq_empty (sq_cqs sq q)) \<and>
    sq_ready_bytes sq = (\<Sum>q \<leftarrow> sq_pending_queues sq. bytes (cq_ready (sq_cqs sq q))) \<and>
    sq_upcoming_bytes sq = (\<Sum>q \<leftarrow> sq_pending_queues sq. bytes (cq_upcoming (sq_cqs sq q))) \<and>
    (\<forall>q. \<forall>qm \<in> set (cq_ready (sq_cqs sq q)) \<union> set (cq_upcoming (sq_cqs sq q)). qm_ok qm)"

lemma sum_upd:
  fixes f :: "'q \<Rightarrow> int"
  assumes "distinct qs" and "q \<in> set qs" and "\<And>x. x \<noteq> q \<Longrightarrow> g x = f x"
  shows "(\<Sum>x \<leftarrow> qs. g x) = (\<Sum>x \<leftarrow> qs. f x) - f q + g q"
  using assms
proof (induction qs)
  case (Cons x qs)
  show ?case
  proof (cases "x = q")
    case True
    then have "q \<notin> set qs" using Cons.prems(1) by simp
    then have "map g qs = map f qs" by (intro map_cong refl Cons.prems(3)) auto
    then have "sum_list (map g qs) = sum_list (map f qs)" by (rule arg_cong)
    then show ?thesis using True by simp
  next
    case False
    then show ?thesis using Cons by simp
  qed
qed simp

lemma sum_remove1:
  fixes f :: "'q \<Rightarrow> int"
  shows "q \<in> set qs \<Longrightarrow> (\<Sum>x \<leftarrow> remove1 q qs. f x) = (\<Sum>x \<leftarrow> qs. f x) - f q"
  by (induction qs) auto


text \<open>Taking a ready message.\<close>

lemma take_ready_fields [simp]:
  "sq_send_seq (take_ready q sq) = sq_send_seq sq"
  "sq_receive_seq (take_ready q sq) = sq_receive_seq sq"
  "sq_sent_queue (take_ready q sq) = sq_sent_queue sq"
  "sq_need_ack_bytes (take_ready q sq) = sq_need_ack_bytes sq"
  "sq_input (take_ready q sq) = sq_input sq" "sq_need_sync (take_ready q sq) = sq_need_sync sq"
  "sq_upcoming_bytes (take_ready q sq) = sq_upcoming_bytes sq"
  "sq_cqs (take_ready q sq) = (sq_cqs sq)(q := (sq_cqs sq q)\<lparr>cq_ready := tl (cq_ready (sq_cqs sq q))\<rparr>)"
  "sq_ready_bytes (take_ready q sq) = sq_ready_bytes sq - qm_len (hd (cq_ready (sq_cqs sq q)))"
  "sq_pending_queues (take_ready q sq) =
    (if tl (cq_ready (sq_cqs sq q)) = [] \<and> cq_upcoming (sq_cqs sq q) = []
     then remove1 q (sq_pending_queues sq) else sq_pending_queues sq)"
  by (simp_all add: take_ready_def Let_def cq_empty_def)

lemma take_ready_ok:
  assumes "queues_ok sq" and "pick_ready sq = Some q"
  shows "queues_ok (take_ready q sq)"
proof -
  have q: "q \<in> set (sq_pending_queues sq)" "cq_ready (sq_cqs sq q) \<noteq> []"
    using pick_lowest_in assms(2) unfolding pick_ready_def by force+
  then obtain m ms where r: "cq_ready (sq_cqs sq q) = m # ms" by (auto simp: neq_Nil_conv)
  let ?c = "(sq_cqs sq)(q := (sq_cqs sq q)\<lparr>cq_ready := ms\<rparr>)" and ?p = "sq_pending_queues sq"
  have d: "distinct ?p" and p: "\<And>x. x \<in> set ?p \<longleftrightarrow> \<not> cq_empty (sq_cqs sq x)"
    and s: "sq_ready_bytes sq = (\<Sum>q \<leftarrow> ?p. bytes (cq_ready (sq_cqs sq q)))"
      "sq_upcoming_bytes sq = (\<Sum>q \<leftarrow> ?p. bytes (cq_upcoming (sq_cqs sq q)))"
    and o: "\<And>q. \<forall>qm \<in> set (cq_ready (sq_cqs sq q)) \<union> set (cq_upcoming (sq_cqs sq q)). qm_ok qm"
    using assms(1) unfolding queues_ok_def by blast+
  have rb: "(\<Sum>x \<leftarrow> ?p. bytes (cq_ready (?c x))) = sq_ready_bytes sq - qm_len m"
    using sum_upd [OF d q(1), of "\<lambda>x. bytes (cq_ready (?c x))" "\<lambda>x. bytes (cq_ready (sq_cqs sq x))"]
    by (simp add: r s(1))
  have ub: "(\<Sum>x \<leftarrow> ?p. bytes (cq_upcoming (?c x))) = sq_upcoming_bytes sq"
    using sum_upd [OF d q(1), of "\<lambda>x. bytes (cq_upcoming (?c x))" "\<lambda>x. bytes (cq_upcoming (sq_cqs sq x))"]
    by (simp add: s(2))
  show ?thesis
    unfolding queues_ok_def take_ready_fields r list.sel
  proof (intro conjI allI)
    let ?e = "ms = [] \<and> cq_upcoming (sq_cqs sq q) = []"
    show "distinct (if ?e then remove1 q ?p else ?p)" using d by simp
    show "x \<in> set (if ?e then remove1 q ?p else ?p) \<longleftrightarrow> \<not> cq_empty (?c x)" for x
      using d p [of x] r by (auto simp: cq_empty_def)
    show "sq_ready_bytes sq - qm_len m = (\<Sum>x \<leftarrow> (if ?e then remove1 q ?p else ?p). bytes (cq_ready (?c x)))"
      using rb sum_remove1 [OF q(1), of "\<lambda>x. bytes (cq_ready (?c x))"] by simp
    show "sq_upcoming_bytes sq = (\<Sum>x \<leftarrow> (if ?e then remove1 q ?p else ?p). bytes (cq_upcoming (?c x)))"
      using ub sum_remove1 [OF q(1), of "\<lambda>x. bytes (cq_upcoming (?c x))"] by simp
    show "\<forall>qm \<in> set (cq_ready (?c x)) \<union> set (cq_upcoming (?c x)). qm_ok qm" for x
      using o [of x] r by auto
  qed
qed

text \<open>A pending message is found, because every \<^verbatim>\<open>req_clock\<close> is below \<^verbatim>\<open>MAX_CLOCK\<close>.\<close>

lemma pick_lowest_None:
  "pick_lowest f qs c best = None \<Longrightarrow> best = None \<and> (\<forall>q \<in> set qs. \<forall>m ms. f q = m # ms \<longrightarrow> c \<le> qm_req_clock m)"
proof (induction qs arbitrary: c best)
  case (Cons x qs)
  show ?case
  proof (cases "f x")
    case Nil
    then show ?thesis using Cons.IH [of c best] Cons.prems by auto
  next
    case (Cons m ms)
    then show ?thesis
      using Cons.IH [of "qm_req_clock m" "Some x"] Cons.IH [of c best] Cons.prems
      by (auto simp: not_less split: if_splits)
  qed
qed simp

lemma pick_ready_Some:
  assumes "queues_ok sq" and "sq_ready_bytes sq \<noteq> 0"
  obtains q where "pick_ready sq = Some q"
proof (cases "pick_ready sq")
  case None
  have "cq_ready (sq_cqs sq q) = []" if "q \<in> set (sq_pending_queues sq)" for q
  proof (cases "cq_ready (sq_cqs sq q)")
    case (Cons m ms)
    then have "qm_req_clock m < MAX_CLOCK" using assms(1) unfolding queues_ok_def qm_ok_def by (metis UnI1 list.set_intros(1))
    moreover have "MAX_CLOCK \<le> qm_req_clock m"
      using pick_lowest_None None that Cons unfolding pick_ready_def by metis
    ultimately show ?thesis by simp
  qed
  then have "(\<Sum>q \<leftarrow> sq_pending_queues sq. bytes (cq_ready (sq_cqs sq q))) = (\<Sum>q \<leftarrow> sq_pending_queues sq. 0)"
    by (intro arg_cong [where f = sum_list] map_cong) auto
  then show ?thesis using assms unfolding queues_ok_def by simp
qed (rule that)

section \<open>Building a block\<close>

text \<open>The part of the state that the choice of messages leaves alone.\<close>

definition same_link :: "serialqueue \<Rightarrow> serialqueue \<Rightarrow> bool" where
  "same_link sq sq' \<longleftrightarrow> sq_send_seq sq' = sq_send_seq sq \<and> sq_receive_seq sq' = sq_receive_seq sq \<and>
    sq_sent_queue sq' = sq_sent_queue sq \<and> sq_need_ack_bytes sq' = sq_need_ack_bytes sq \<and>
    sq_input sq' = sq_input sq \<and> sq_need_sync sq' = sq_need_sync sq"

text \<open>
  \<open>taken sq ts sq'\<close>: the messages \<open>ts\<close>, each with its command queue, are the first ready
  messages of their queues, in order.
\<close>

definition taken :: "serialqueue \<Rightarrow> (nat \<times> queue_message) list \<Rightarrow> serialqueue \<Rightarrow> bool" where
  "taken sq ts sq' \<longleftrightarrow>
    (\<forall>q. cq_ready (sq_cqs sq q) = map snd (filter (\<lambda>t. fst t = q) ts) @ cq_ready (sq_cqs sq' q) \<and>
      cq_upcoming (sq_cqs sq' q) = cq_upcoming (sq_cqs sq q))"

abbreviation ts_data :: "(nat \<times> queue_message) list \<Rightarrow> u8 list" where
  "ts_data ts \<equiv> concat (map (\<lambda>t. qm_payload (snd t)) ts)"

lemma qm_payload_length: "qm_ok qm \<Longrightarrow> int (length (qm_payload qm)) = qm_len qm"
  by (simp add: qm_ok_def qm_payload_def)

lemma taken_Cons:
  assumes "cq_ready (sq_cqs sq q) = m # ms" and "taken (take_ready q sq) ts sq'"
  shows "taken sq ((q, m) # ts) sq'"
  unfolding taken_def
proof
  fix x
  have "cq_ready (sq_cqs (take_ready q sq) x) = map snd (filter (\<lambda>t. fst t = x) ts) @ cq_ready (sq_cqs sq' x) \<and>
      cq_upcoming (sq_cqs sq' x) = cq_upcoming (sq_cqs (take_ready q sq) x)"
    using assms(2) unfolding taken_def by blast
  then show "cq_ready (sq_cqs sq x) = map snd (filter (\<lambda>t. fst t = x) ((q, m) # ts)) @ cq_ready (sq_cqs sq' x) \<and>
      cq_upcoming (sq_cqs sq' x) = cq_upcoming (sq_cqs sq x)"
    using assms(1) by (cases "x = q") simp_all
qed

lemma build_loop_result:
  assumes "queues_ok sq" and "length acc \<le> 59"
  shows "\<exists>ts sq'. build_loop acc sq = (Inr (acc @ ts_data ts), sq') \<and>
    length (acc @ ts_data ts) \<le> 59 \<and>
    queues_ok sq' \<and> same_link sq sq' \<and> taken sq ts sq'"
  using assms
proof (induction acc sq rule: build_loop.induct)
  case (1 acc sq)
  have stop_here: "\<exists>ts sq'. build_loop acc sq = (Inr (acc @ ts_data ts), sq') \<and>
      length (acc @ ts_data ts) \<le> 59 \<and>
      queues_ok sq' \<and> same_link sq sq' \<and> taken sq ts sq'"
    if "build_loop acc sq = (Inr acc, sq)"
    using that "1.prems" by (intro exI [of _ "[]"] exI [of _ sq]) (simp add: same_link_def taken_def)
  show ?case
  proof (cases "sq_ready_bytes sq = 0")
    case True
    then show ?thesis by (intro stop_here) (simp add: build_loop.simps [of acc sq])
  next
    case nz: False
    obtain q where q: "pick_ready sq = Some q" by (rule pick_ready_Some [OF "1.prems"(1) nz])
    have "cq_ready (sq_cqs sq q) \<noteq> []"
      using pick_lowest_in q unfolding pick_ready_def by force
    then obtain m ms where r: "cq_ready (sq_cqs sq q) = m # ms" by (auto simp: neq_Nil_conv)
    then have m: "qm_ok m" using "1.prems"(1) unfolding queues_ok_def by (metis UnI1 list.set_intros(1))
    show ?thesis
    proof (cases "int (2 + length acc) + qm_len m > 61")
      case True
      then show ?thesis using nz q r by (intro stop_here) (simp add: build_loop.simps [of acc sq] Let_def message_consts)
    next
      case False
      let ?acc = "acc @ qm_payload m" and ?sq = "take_ready q sq"
      have fits: "length ?acc \<le> 59" using False qm_payload_length [OF m] by simp
      have run: "build_loop acc sq = build_loop ?acc ?sq"
        using nz q r False by (simp add: build_loop.simps [of acc sq] Let_def message_consts)
      have nf: "\<not> int (MESSAGE_MAX - MESSAGE_TRAILER_SIZE) < int (MESSAGE_HEADER_SIZE + length acc) + qm_len m"
        using False by (simp add: message_consts)
      have IH: "\<exists>ts sq'. build_loop ?acc ?sq = (Inr (?acc @ ts_data ts), sq') \<and>
          length (?acc @ ts_data ts) \<le> 59 \<and>
          queues_ok sq' \<and> same_link ?sq sq' \<and> taken ?sq ts sq'"
        using "1.IH" [OF nz q refl] nf take_ready_ok [OF "1.prems"(1) q] fits r by simp
      then obtain ts sq' where ts: "build_loop ?acc ?sq = (Inr (?acc @ ts_data ts), sq')"
        "length (?acc @ ts_data ts) \<le> 59" "queues_ok sq'" "same_link ?sq sq'" "taken ?sq ts sq'"
        by blast
      have "taken sq ((q, m) # ts) sq'" by (rule taken_Cons [OF r ts(5)])
      moreover have "same_link sq sq'" using ts(4) by (simp add: same_link_def)
      ultimately show ?thesis
        using ts(1-3) run by (intro exI [of _ "(q, m) # ts"] exI [of _ sq']) simp
    qed
  qed
qed

lemma ucast_low_byte: "ucast ((c :: u16) AND 0xff) = (ucast c :: u8)"
proof (rule bit_word_eqI)
  fix n
  show "bit (ucast (c AND 0xff) :: u8) n = bit (ucast c :: u8) n"
    by (auto simp: word_bits)
qed

lemma fill_block_frame [simp]: "fill_block seq data = mk_frame (seq_byte seq) data"
  by (simp add: fill_block_def mk_frame_def frame_body_def seq_byte_def ucast_low_byte message_consts Let_def add.commute)

lemma message_fill_block:
  assumes "length buf \<le> 64"
  obtains qm where "message_fill buf (length buf) = Some qm" and "qm_len qm = int (length buf)" and "qm_payload qm = buf"
  using assms that by (auto simp: message_fill_def message_alloc_def buf_put_def message_consts Let_def qm_payload_def)

text \<open>The block that goes out, with the number \<^verbatim>\<open>send_seq\<close>.\<close>

lemma build_and_send_block:
  assumes "queues_ok sq"
  obtains ts sq1 sq' out where "length (ts_data ts) \<le> 59" and "taken sq ts sq1" and "sq_cqs sq' = sq_cqs sq1"
    and "build_and_send_command sq = (Inr (mk_frame (seq_byte (sq_send_seq sq)) (ts_data ts)), sq')"
    and "qm_len out = int (length (ts_data ts)) + 5"
    and "qm_payload out = mk_frame (seq_byte (sq_send_seq sq)) (ts_data ts)"
    and "sq_sent_queue sq' = sq_sent_queue sq @ [out]" and "sq_send_seq sq' = sq_send_seq sq + 1"
    and "sq_receive_seq sq' = sq_receive_seq sq"
    and "sq_need_ack_bytes sq' = sq_need_ack_bytes sq + int (length (ts_data ts)) + 5"
    and "sq_input sq' = sq_input sq" and "sq_need_sync sq' = sq_need_sync sq" and "queues_ok sq'"
proof -
  obtain ts sq1 where ts: "build_loop [] sq = (Inr (ts_data ts), sq1)"
      "length (ts_data ts) \<le> 59" "queues_ok sq1" "same_link sq sq1" "taken sq ts sq1"
    using build_loop_result [OF assms, of "[]"] by auto
  let ?block = "mk_frame (seq_byte (sq_send_seq sq)) (ts_data ts)"
  have l: "length ?block \<le> 64" using ts(2) by simp
  obtain out where out: "message_fill ?block (length ?block) = Some out"
      "qm_len out = int (length ?block)" "qm_payload out = ?block"
    by (rule message_fill_block [OF l])
  define sq' where "sq' = sq1\<lparr>
      sq_retransmit_timer := (if sq_sent_queue sq1 = [] then PR_LATER else sq_retransmit_timer sq1),
      sq_send_seq := sq_send_seq sq1 + 1, sq_need_ack_bytes := sq_need_ack_bytes sq1 + int (length ?block),
      sq_sent_queue := sq_sent_queue sq1 @ [out]\<rparr>"
  have seq: "sq_send_seq sq1 = sq_send_seq sq" using ts(4) by (simp add: same_link_def)
  have b: "build_and_send_command sq = (Inr ?block, sq')"
    unfolding build_and_send_command_def ts(1) prod.case sum.case fill_block_frame Let_def seq out(1) option.case
    by (simp add: sq'_def seq)
  have q: "queues_ok sq'" using ts(3) by (simp add: queues_ok_def sq'_def)
  show thesis
    by (rule that [OF ts(2,5) _ b _ out(3)])
      (use q out(2) ts(4) in \<open>simp_all add: sq'_def same_link_def\<close>)
qed

section \<open>Queueing\<close>

text \<open>\<open>moved sq sq'\<close>: messages only went from the upcoming to the ready end of their queue.\<close>

definition moved :: "serialqueue \<Rightarrow> serialqueue \<Rightarrow> bool" where
  "moved sq sq' \<longleftrightarrow> queues_ok sq' \<and> same_link sq sq' \<and> sq_pending_queues sq' = sq_pending_queues sq \<and>
    (\<forall>q. cq_ready (sq_cqs sq' q) @ cq_upcoming (sq_cqs sq' q) = cq_ready (sq_cqs sq q) @ cq_upcoming (sq_cqs sq q))"

lemma moved_refl: "queues_ok sq \<Longrightarrow> moved sq sq"
  by (simp add: moved_def same_link_def)

lemma moved_trans: "moved sq sq1 \<Longrightarrow> moved sq1 sq2 \<Longrightarrow> moved sq sq2"
  by (simp add: moved_def same_link_def)

lemma move_one:
  assumes "queues_ok sq" and "cq_upcoming (sq_cqs sq q) = m # rest"
    and "sq' = (cq_upd q (\<lambda>cq. cq\<lparr>cq_upcoming := rest, cq_ready := cq_ready cq @ [m]\<rparr>) sq)
      \<lparr>sq_upcoming_bytes := sq_upcoming_bytes sq - qm_len m, sq_ready_bytes := sq_ready_bytes sq + qm_len m\<rparr>"
  shows "moved sq sq'"
proof -
  let ?p = "sq_pending_queues sq"
  let ?c = "sq_cqs sq'"
  have d: "distinct ?p" and p: "\<And>x. x \<in> set ?p \<longleftrightarrow> \<not> cq_empty (sq_cqs sq x)"
    and s: "sq_ready_bytes sq = (\<Sum>q \<leftarrow> ?p. bytes (cq_ready (sq_cqs sq q)))"
      "sq_upcoming_bytes sq = (\<Sum>q \<leftarrow> ?p. bytes (cq_upcoming (sq_cqs sq q)))"
    and o: "\<And>q. \<forall>qm \<in> set (cq_ready (sq_cqs sq q)) \<union> set (cq_upcoming (sq_cqs sq q)). qm_ok qm"
    using assms(1) unfolding queues_ok_def by blast+
  have q: "q \<in> set ?p" using p assms(2) by (simp add: cq_empty_def)
  have c: "?c = (sq_cqs sq)(q := (sq_cqs sq q)\<lparr>cq_upcoming := rest, cq_ready := cq_ready (sq_cqs sq q) @ [m]\<rparr>)"
    by (simp add: assms(3))
  have rb: "(\<Sum>x \<leftarrow> ?p. bytes (cq_ready (?c x))) = sq_ready_bytes sq + qm_len m"
    using sum_upd [OF d q, of "\<lambda>x. bytes (cq_ready (?c x))" "\<lambda>x. bytes (cq_ready (sq_cqs sq x))"]
    by (simp add: c s(1))
  have ub: "(\<Sum>x \<leftarrow> ?p. bytes (cq_upcoming (?c x))) = sq_upcoming_bytes sq - qm_len m"
    using sum_upd [OF d q, of "\<lambda>x. bytes (cq_upcoming (?c x))" "\<lambda>x. bytes (cq_upcoming (sq_cqs sq x))"]
    by (simp add: c s(2) assms(2))
  have "queues_ok sq'"
    unfolding queues_ok_def
  proof (intro conjI allI)
    show "x \<in> set (sq_pending_queues sq') \<longleftrightarrow> \<not> cq_empty (?c x)" for x
      using p [of x] assms(2) by (auto simp: c cq_empty_def assms(3))
    show "\<forall>qm \<in> set (cq_ready (?c x)) \<union> set (cq_upcoming (?c x)). qm_ok qm" for x
      using o [of x] assms(2) unfolding c by auto
  qed (use d rb ub in \<open>simp_all add: assms(3)\<close>)
  then show ?thesis using assms(2) by (simp add: moved_def same_link_def assms(3))
qed

lemma move_ready_moves:
  "queues_ok sq \<Longrightarrow> cq_upcoming (sq_cqs sq q) = qms \<Longrightarrow> moved sq (snd (move_ready ack q qms ms sq))"
proof (induction qms arbitrary: sq)
  case Nil
  then show ?case by (simp add: moved_refl)
next
  case (Cons m rest)
  show ?case
  proof (cases "ack < qm_min_clock m")
    case True
    then show ?thesis using Cons.prems(1) by (simp add: moved_refl)
  next
    case False
    let ?sq = "(cq_upd q (\<lambda>cq. cq\<lparr>cq_upcoming := rest, cq_ready := cq_ready cq @ [m]\<rparr>) sq)
      \<lparr>sq_upcoming_bytes := sq_upcoming_bytes sq - qm_len m, sq_ready_bytes := sq_ready_bytes sq + qm_len m\<rparr>"
    have mv: "moved sq ?sq" by (rule move_one [OF Cons.prems refl])
    then have "moved ?sq (snd (move_ready ack q rest ms ?sq))" by (intro Cons.IH) (simp_all add: moved_def)
    then show ?thesis using moved_trans [OF mv] False by simp
  qed
qed

lemma check_queues_moves:
  "queues_ok sq \<Longrightarrow> moved sq (snd (snd (check_queues tc qs a b sq)))"
proof (induction qs arbitrary: a b sq)
  case (Cons q qs)
  let ?r = "move_ready (ack_clock tc) q (cq_upcoming (sq_cqs sq q)) a sq"
  have m: "moved sq (snd ?r)" by (rule move_ready_moves [OF Cons.prems refl])
  then have "queues_ok (snd ?r)" by (simp add: moved_def)
  from moved_trans [OF m Cons.IH [OF this]] show ?case by (simp add: Let_def)
qed (simp add: moved_refl)

lemma check_send_moves:
  assumes "queues_ok sq" and "check_send_command tc sq = (r, sq')"
  shows "moved sq sq'" and "r = Send_now \<Longrightarrow> \<not> window_full sq"
proof -
  have k: "moved sq (sq1\<lparr>sq_need_kick_clock := c\<rparr>) = moved sq sq1" for sq1 c
    by (simp add: moved_def queues_ok_def same_link_def)
  obtain a b sq1 where c: "check_queues tc (sq_pending_queues sq) MAX_CLOCK MAX_CLOCK sq = (a, b, sq1)"
    by (cases "check_queues tc (sq_pending_queues sq) MAX_CLOCK MAX_CLOCK sq") auto
  have "moved sq sq1" using check_queues_moves [OF assms(1), of tc "sq_pending_queues sq" MAX_CLOCK MAX_CLOCK] c by simp
  then show "moved sq sq'"
    using assms(2) c moved_refl [OF assms(1)]
    by (auto simp: check_send_command_def k Let_def split: if_splits)
  show "\<not> window_full sq" if "r = Send_now" using assms(2) that by (auto simp: check_send_command_def)
qed

lemma send_batch_ok:
  assumes "queues_ok sq" and "list_all qm_ok msgs"
  shows "queues_ok (serialqueue_send_batch q msgs sq)" and "same_link sq (serialqueue_send_batch q msgs sq)"
proof -
  have mo: "list_all qm_ok (map set_min_clock msgs)"
    using assms(2) by (auto simp: list_all_iff set_min_clock_def qm_ok_def)
  let ?m = "map set_min_clock msgs" and ?p = "sq_pending_queues sq"
  show "same_link sq (serialqueue_send_batch q msgs sq)"
    by (simp add: serialqueue_send_batch_def same_link_def kick_bg_thread_def Let_def)
  have k: "queues_ok (kick_bg_thread (sq1\<lparr>sq_need_kick_clock := c\<rparr>)) = queues_ok sq1" for sq1 c
    by (simp add: queues_ok_def kick_bg_thread_def)
  define p' where "p' = (if cq_empty (sq_cqs sq q) then ?p @ [q] else ?p)"
  define c' where "c' = (sq_cqs sq)(q := (sq_cqs sq q)\<lparr>cq_upcoming := cq_upcoming (sq_cqs sq q) @ ?m\<rparr>)"
  have d: "distinct ?p" and p: "\<And>x. x \<in> set ?p \<longleftrightarrow> \<not> cq_empty (sq_cqs sq x)"
    and s: "sq_ready_bytes sq = (\<Sum>q \<leftarrow> ?p. bytes (cq_ready (sq_cqs sq q)))"
      "sq_upcoming_bytes sq = (\<Sum>q \<leftarrow> ?p. bytes (cq_upcoming (sq_cqs sq q)))"
    and o: "\<And>q. \<forall>qm \<in> set (cq_ready (sq_cqs sq q)) \<union> set (cq_upcoming (sq_cqs sq q)). qm_ok qm"
    using assms(1) unfolding queues_ok_def by blast+
  have d': "distinct p'" "q \<in> set p'" using d p [of q] by (auto simp: p'_def)
  have s': "sq_ready_bytes sq = (\<Sum>q \<leftarrow> p'. bytes (cq_ready (sq_cqs sq q)))"
      "sq_upcoming_bytes sq = (\<Sum>q \<leftarrow> p'. bytes (cq_upcoming (sq_cqs sq q)))"
    using s by (auto simp: p'_def cq_empty_def)
  have rb: "(\<Sum>x \<leftarrow> p'. bytes (cq_ready (c' x))) = sq_ready_bytes sq"
    using sum_upd [OF d', of "\<lambda>x. bytes (cq_ready (c' x))" "\<lambda>x. bytes (cq_ready (sq_cqs sq x))"]
    by (simp add: c'_def s')
  have ub: "(\<Sum>x \<leftarrow> p'. bytes (cq_upcoming (c' x))) = sq_upcoming_bytes sq + bytes ?m"
    using sum_upd [OF d', of "\<lambda>x. bytes (cq_upcoming (c' x))" "\<lambda>x. bytes (cq_upcoming (sq_cqs sq x))"]
    by (simp add: c'_def s')
  show "queues_ok (serialqueue_send_batch q msgs sq)"
  proof (cases "bytes ?m = 0")
    case True
    then show ?thesis using assms(1) by (simp add: serialqueue_send_batch_def)
  next
    case False
    then have ne: "?m \<noteq> []" by force
    let ?sq = "sq\<lparr>sq_pending_queues := p', sq_cqs := c', sq_upcoming_bytes := sq_upcoming_bytes sq + bytes ?m\<rparr>"
    have "queues_ok ?sq"
      unfolding queues_ok_def
    proof (intro conjI allI)
      show "x \<in> set (sq_pending_queues ?sq) \<longleftrightarrow> \<not> cq_empty (sq_cqs ?sq x)" for x
        using p [of x] ne by (auto simp: c'_def p'_def cq_empty_def)
      show "\<forall>qm \<in> set (cq_ready (sq_cqs ?sq x)) \<union> set (cq_upcoming (sq_cqs ?sq x)). qm_ok qm" for x
        using o [of x] mo unfolding c'_def list_all_iff by auto
    qed (use d' rb ub in simp_all)
    moreover have "serialqueue_send_batch q msgs sq = (if qm_min_clock (hd ?m) < sq_need_kick_clock sq
        then kick_bg_thread (?sq\<lparr>sq_need_kick_clock := 0\<rparr>) else ?sq)"
      using False by (simp add: serialqueue_send_batch_def p'_def c'_def Let_def)
    ultimately show ?thesis by (simp add: k)
  qed
qed

section \<open>Acknowledgements\<close>

lemma message_rseq_byte:
  assumes "sq_input sq ! 1 = seq_byte (sq_receive_seq sq + of_nat k)" and "k < 16"
  shows "message_rseq sq = sq_receive_seq sq + of_nat k"
proof -
  have p: "MESSAGE_POS_SEQ = 1" by (simp add: message_consts)
  show ?thesis unfolding message_rseq_def p assms(1) seq_delta [OF assms(2)] by (rule refl)
qed

lemma of_nat_eq_1: "k < 16 \<Longrightarrow> (of_nat k = (1 :: u64)) = (k = 1)"
proof -
  assume "k < 16"
  then have "unat (of_nat k :: u64) = k" by (simp add: unat_of_nat_small)
  moreover have "unat (1 :: u64) = 1" by simp
  ultimately show ?thesis by (metis of_nat_1)
qed

lemma ack_sent_drop:
  assumes "0 < k" and "k \<le> length q" and "k < 16" and "sq_sent_queue sq = q"
  shows "\<exists>old len. ack_sent (s + of_nat k) s q sq = sq\<lparr>sq_need_ack_bytes := sq_need_ack_bytes sq - bytes (take k q),
    sq_sent_queue := drop k q, sq_old_sent := old, sq_last_ack_bytes := len\<rparr>"
  using assms
proof (induction q arbitrary: k s sq)
  case (Cons m q)
  let ?sq1 = "sq\<lparr>sq_need_ack_bytes := sq_need_ack_bytes sq - qm_len m, sq_sent_queue := q,
                  sq_old_sent := debug_queue_add m (sq_old_sent sq)\<rparr>"
  show ?case
  proof (cases "k = 1")
    case True
    then show ?thesis
      by (intro exI [of _ "debug_queue_add m (sq_old_sent sq)"] exI [of _ "qm_len m"]) (simp add: Let_def)
  next
    case False
    then obtain k' where k: "k = Suc k'" "0 < k'" using Cons.prems(1) by (cases k) auto
    have "of_nat k \<noteq> (1 :: u64)" using of_nat_eq_1 [of k] Cons.prems(3) False by simp
    then have ne: "s + of_nat k \<noteq> s + 1" by simp
    have e: "s + of_nat k = s + 1 + of_nat k'" by (simp add: k)
    obtain old len where "ack_sent (s + 1 + of_nat k') (s + 1) q ?sq1 =
        ?sq1\<lparr>sq_need_ack_bytes := sq_need_ack_bytes ?sq1 - bytes (take k' q),
          sq_sent_queue := drop k' q, sq_old_sent := old, sq_last_ack_bytes := len\<rparr>"
      using Cons.IH [of k' ?sq1 "s + 1"] Cons.prems k by auto
    then show ?thesis
      using ne by (intro exI [of _ old] exI [of _ len]) (simp add: Let_def e k add.assoc)
  qed
qed simp

lemma ack_window:
  assumes "window_ok sq" and "k \<le> length (sq_sent_queue sq)"
    and "sq_sent_queue sq' = drop k (sq_sent_queue sq)" and "sq_send_seq sq' = sq_send_seq sq"
    and "sq_receive_seq sq' = sq_receive_seq sq + of_nat k"
    and "sq_need_ack_bytes sq' = sq_need_ack_bytes sq - bytes (take k (sq_sent_queue sq))"
  shows "window_ok sq'"
proof -
  let ?q = "sq_sent_queue sq"
  have l: "length (sq_sent_queue sq') = length ?q - k" by (simp add: assms(3))
  have "bytes ?q = bytes (take k ?q) + bytes (drop k ?q)"
    by (metis append_take_drop_id map_append sum_list_append)
  moreover have "sq_send_seq sq' = sq_receive_seq sq' + of_nat (length (sq_sent_queue sq'))"
    using assms(1,2) by (simp add: window_ok_def assms(4,5) l of_nat_diff)
  moreover have "\<exists>data. length data \<le> 59 \<and> qm_len (sq_sent_queue sq' ! i) = int (length data) + 5 \<and>
      qm_payload (sq_sent_queue sq' ! i) = mk_frame (seq_byte (sq_receive_seq sq' + of_nat i)) data"
    if "i < length (sq_sent_queue sq')" for i
  proof -
    have i: "k + i < length ?q" using that l by simp
    have "sq_sent_queue sq' ! i = ?q ! (k + i)" using assms(2) by (simp add: assms(3))
    moreover have "sq_receive_seq sq' + of_nat i = sq_receive_seq sq + of_nat (k + i)" by (simp add: assms(5))
    ultimately show ?thesis using assms(1) i unfolding window_ok_def by metis
  qed
  moreover have "length ?q - k \<le> MAX_PENDING_BLOCKS"
    using assms(1) le_trans [OF diff_le_self] unfolding window_ok_def by blast
  ultimately show ?thesis using assms(1) unfolding window_ok_def l by (simp add: assms(3,6))
qed

text \<open>What the rest of \<^verbatim>\<open>handle_message\<close> leaves alone.\<close>

definition same_queues :: "serialqueue \<Rightarrow> serialqueue \<Rightarrow> bool" where
  "same_queues sq sq' \<longleftrightarrow> sq_cqs sq' = sq_cqs sq \<and> sq_pending_queues sq' = sq_pending_queues sq \<and>
    sq_ready_bytes sq' = sq_ready_bytes sq \<and> sq_upcoming_bytes sq' = sq_upcoming_bytes sq \<and>
    sq_need_sync sq' = sq_need_sync sq \<and> sq_input sq' = sq_input sq"

lemma same_queues_ok: "same_queues sq sq' \<Longrightarrow> queues_ok sq' = queues_ok sq"
  by (simp add: same_queues_def queues_ok_def)

lemma notify_loop_same:
  "same_queues sq (fst (notify_loop w q sq)) \<and> same_link sq (fst (notify_loop w q sq))"
proof (induction q arbitrary: sq)
  case (Cons m q)
  show ?case using Cons [of "sq\<lparr>sq_notify_queue := q, sq_receive_queue := sq_receive_queue sq @ [m\<lparr>qm_len := 0\<rparr>]\<rparr>"]
    by (simp add: same_queues_def same_link_def)
qed (simp add: same_queues_def same_link_def)

lemma process_message_same:
  "process_message buf len rseq sq w = Some (sq', w') \<Longrightarrow> same_queues sq sq' \<and> same_link sq sq'"
  by (auto simp: process_message_def same_queues_def same_link_def split: if_splits option.splits)

lemma call_fast_reader_same: "same_queues sq (call_fast_reader b l sq) \<and> same_link sq (call_fast_reader b l sq)"
  by (simp add: call_fast_reader_def same_queues_def same_link_def split: option.splits)

lemma check_wake_same: "same_queues sq (check_wake_receive sq) \<and> same_link sq (check_wake_receive sq)"
  by (simp add: check_wake_receive_def same_queues_def same_link_def)

lemma handle_message_rest:
  assumes "len = MESSAGE_MIN \<or> (len \<le> 64 \<and> len \<le> length (sq_input sq))"
    and "rseq = message_rseq sq" and "rseq = sq_receive_seq sq \<or> rseq \<le> sq_send_seq sq \<or> sq_receive_seq sq = 1"
  obtains sq' where "handle_message len sq = (Inr (), sq')"
    and "same_queues (if rseq \<noteq> sq_receive_seq sq then update_receive_seq rseq sq else sq) sq'"
    and "same_link (if rseq \<noteq> sq_receive_seq sq then update_receive_seq rseq sq else sq) sq'"
proof -
  define sq1 where "sq1 = (if rseq \<noteq> sq_receive_seq sq then update_receive_seq rseq sq else sq)"
  define sq2 where "sq2 = sq1\<lparr>sq_bytes_read := sq_bytes_read sq1 + of_nat len\<rparr>"
  define sq3 where "sq3 = notify_loop (rseq - 1 - (if len > MESSAGE_MIN then 1 else 0)) (sq_notify_queue sq2) sq2"
  have s12: "same_queues sq1 sq2 \<and> same_link sq1 sq2" by (simp add: sq2_def same_queues_def same_link_def)
  have s23: "same_queues sq2 (fst sq3) \<and> same_link sq2 (fst sq3)" unfolding sq3_def by (rule notify_loop_same)
  have "len \<noteq> MESSAGE_MIN \<Longrightarrow> message_fill (sq_input sq) len \<noteq> None"
    using assms(1) by (auto simp: message_fill_def message_alloc_def buf_put_def message_consts Let_def)
  then obtain sq4 w where p: "process_message (sq_input sq) len rseq (fst sq3) (snd sq3) = Some (sq4, w)"
    by (cases "len = MESSAGE_MIN") (auto simp: process_message_def)
  define sq5 where "sq5 = (if w then check_wake_receive sq4 else sq4)"
  have s45: "same_queues sq4 sq5 \<and> same_link sq4 sq5"
    using check_wake_same [of sq4] by (simp add: sq5_def same_queues_def same_link_def)
  let ?sq' = "call_fast_reader (sq_input sq) len sq5"
  have nr: "(rseq \<noteq> sq_receive_seq sq \<and> rseq > sq_send_seq sq \<and> sq_receive_seq sq \<noteq> 1) = False"
    using assms(3) by auto
  have run: "handle_message len sq = (Inr (), ?sq')"
    unfolding handle_message_def Let_def assms(2) [symmetric] nr if_False sq1_def [symmetric] sq2_def [symmetric] sq3_def [symmetric] p
    by (simp add: sq5_def)
  have "same_queues sq1 ?sq'" "same_link sq1 ?sq'"
    using s12 s23 process_message_same [OF p] s45 call_fast_reader_same [of sq5 "sq_input sq" len]
    by (simp_all add: same_queues_def same_link_def)
  then show thesis using that [OF run] unfolding sq1_def by blast
qed


lemma update_receive_ack:
  assumes "0 < k" and "k \<le> length (sq_sent_queue sq)" and "k < 16"
    and "sq' = update_receive_seq (sq_receive_seq sq + of_nat k) sq"
  shows "sq_sent_queue sq' = drop k (sq_sent_queue sq)" and "sq_send_seq sq' = sq_send_seq sq"
    and "sq_receive_seq sq' = sq_receive_seq sq + of_nat k"
    and "sq_need_ack_bytes sq' = sq_need_ack_bytes sq - bytes (take k (sq_sent_queue sq))"
    and "same_queues sq sq'"
proof -
  obtain old len where "ack_sent (sq_receive_seq sq + of_nat k) (sq_receive_seq sq) (sq_sent_queue sq) sq =
      sq\<lparr>sq_need_ack_bytes := sq_need_ack_bytes sq - bytes (take k (sq_sent_queue sq)),
         sq_sent_queue := drop k (sq_sent_queue sq), sq_old_sent := old, sq_last_ack_bytes := len\<rparr>"
    using ack_sent_drop [OF assms(1,2,3) refl, of "sq_receive_seq sq"] by blast
  then show "sq_sent_queue sq' = drop k (sq_sent_queue sq)" "sq_send_seq sq' = sq_send_seq sq"
    "sq_receive_seq sq' = sq_receive_seq sq + of_nat k"
    "sq_need_ack_bytes sq' = sq_need_ack_bytes sq - bytes (take k (sq_sent_queue sq))" "same_queues sq sq'"
    by (simp_all add: assms(4) update_receive_seq_def Let_def same_queues_def)
qed

text \<open>A block that acknowledges the first \<open>k\<close> blocks on the way.\<close>

lemma handle_message_ack:
  assumes "window_ok sq" and "unat (sq_receive_seq sq) < 2 ^ 64 - 32"
    and "sq_input sq ! 1 = seq_byte (sq_receive_seq sq + of_nat k)" and "k \<le> length (sq_sent_queue sq)"
    and "len = MESSAGE_MIN \<or> (len \<le> 64 \<and> len \<le> length (sq_input sq))"
  obtains sq' where "handle_message len sq = (Inr (), sq')" and "window_ok sq'"
    and "sq_sent_queue sq' = drop k (sq_sent_queue sq)" and "sq_receive_seq sq' = sq_receive_seq sq + of_nat k"
    and "sq_send_seq sq' = sq_send_seq sq" and "same_queues sq sq'"
proof -
  have n: "length (sq_sent_queue sq) \<le> 12" using assms(1) by (simp add: window_ok_def MAX_PENDING_BLOCKS_def)
  have k: "k < 16" using assms(4) n by simp
  note r = message_rseq_byte [OF assms(3) k]
  have u: "unat (sq_receive_seq sq + of_nat j) = unat (sq_receive_seq sq) + j" if "j < 16" for j
  proof -
    have j: "unat (of_nat j :: u64) = j" using that by (simp add: unat_of_nat_small)
    have "unat (sq_receive_seq sq) + unat (of_nat j :: u64) < 2 ^ LENGTH(64)"
      unfolding j using that assms(2) by simp
    then have "unat (sq_receive_seq sq + of_nat j) = unat (sq_receive_seq sq) + unat (of_nat j :: u64)"
      by (rule unat_add_lem [THEN iffD1])
    then show ?thesis unfolding j .
  qed
  have le: "sq_receive_seq sq + of_nat k \<le> sq_send_seq sq"
  proof -
    have "sq_send_seq sq = sq_receive_seq sq + of_nat (length (sq_sent_queue sq))"
      using assms(1) by (simp add: window_ok_def)
    then have "unat (sq_send_seq sq) = unat (sq_receive_seq sq) + length (sq_sent_queue sq)"
      using u [of "length (sq_sent_queue sq)"] n by simp
    then show ?thesis using u [OF k] assms(4) by (simp add: word_le_nat_alt)
  qed
  obtain sq' where h: "handle_message len sq = (Inr (), sq')"
    and s: "same_queues (if sq_receive_seq sq + of_nat k \<noteq> sq_receive_seq sq
        then update_receive_seq (sq_receive_seq sq + of_nat k) sq else sq) sq'"
      "same_link (if sq_receive_seq sq + of_nat k \<noteq> sq_receive_seq sq
        then update_receive_seq (sq_receive_seq sq + of_nat k) sq else sq) sq'"
    by (rule handle_message_rest [OF assms(5) r [symmetric]]) (use le in auto)
  show thesis
  proof (cases "k = 0")
    case True
    then have e: "same_link sq sq'" "same_queues sq sq'" using s by simp_all
    then have "window_ok sq'" using assms(1) by (simp add: window_ok_def same_link_def)
    then show thesis using that [OF h] e True by (simp add: same_link_def)
  next
    case False
    have ne: "sq_receive_seq sq + of_nat k \<noteq> sq_receive_seq sq"
    proof
      assume "sq_receive_seq sq + of_nat k = sq_receive_seq sq"
      then show False using u [OF k] False by simp
    qed
    let ?u = "update_receive_seq (sq_receive_seq sq + of_nat k) sq"
    have k0: "0 < k" using False by simp
    note a = update_receive_ack [OF k0 assms(4) k refl]
    have s': "same_queues ?u sq'" "same_link ?u sq'" using s ne by simp_all
    then have f: "sq_sent_queue sq' = drop k (sq_sent_queue sq)" "sq_send_seq sq' = sq_send_seq sq"
      "sq_receive_seq sq' = sq_receive_seq sq + of_nat k"
      "sq_need_ack_bytes sq' = sq_need_ack_bytes sq - bytes (take k (sq_sent_queue sq))"
      using a by (simp_all add: same_link_def)
    have "same_queues sq sq'" using a(5) s'(1) by (simp add: same_queues_def)
    then show thesis using that [OF h ack_window [OF assms(1,4) f]] f by blast
  qed
qed

section \<open>The command event\<close>

lemma concat_can_frames: "concat (can_frames buf) = buf"
  by (induction buf rule: can_frames.induct) (subst can_frames.simps, auto simp: Let_def)

lemma write_blocks_fields [simp]:
  "queues_ok (write_blocks buf sq) = queues_ok sq" "window_ok (write_blocks buf sq) = window_ok sq"
  "sq_sent_queue (write_blocks buf sq) = sq_sent_queue sq" "sq_receive_seq (write_blocks buf sq) = sq_receive_seq sq"
  "concat (sq_written (write_blocks buf sq)) = concat (sq_written sq) @ buf"
  by (auto simp: write_blocks_def do_write_def queues_ok_def window_ok_def Let_def concat_can_frames)

lemma take_ready_written [simp]: "sq_written (take_ready q sq) = sq_written sq"
  by (simp add: take_ready_def Let_def)

lemma build_loop_written: "sq_written (snd (build_loop acc sq)) = sq_written sq"
  by (induction acc sq rule: build_loop.induct)
    (subst build_loop.simps, simp add: Let_def split: option.split)

lemma build_and_send_written: "build_and_send_command sq = (r, sq') \<Longrightarrow> sq_written sq' = sq_written sq"
  using build_loop_written [of "[]" sq]
  by (auto simp: build_and_send_command_def Let_def split: prod.splits sum.splits option.splits)

lemma move_ready_written: "sq_written (snd (move_ready ack q qms ms sq)) = sq_written sq"
  by (induction ack q qms ms sq rule: move_ready.induct) auto

lemma check_queues_written: "check_queues tc qs ms mr sq = (a, b, sq') \<Longrightarrow> sq_written sq' = sq_written sq"
  by (induction tc qs ms mr sq rule: check_queues.induct) (auto simp: move_ready_written Let_def)

lemma check_send_written: "check_send_command tc sq = (r, sq') \<Longrightarrow> sq_written sq' = sq_written sq"
  by (auto simp: check_send_command_def Let_def check_queues_written split: prod.splits if_splits
      dest: check_queues_written)

lemma build_window_ok:
  assumes "queues_ok sq" and "window_ok sq" and "length (sq_sent_queue sq) < MAX_PENDING_BLOCKS"
  obtains block sq' out where "build_and_send_command sq = (Inr block, sq')" and "queues_ok sq'" and "window_ok sq'"
    and "sq_sent_queue sq' = sq_sent_queue sq @ [out]" and "qm_payload out = block"
    and "sq_receive_seq sq' = sq_receive_seq sq"
proof -
  obtain ts sq' out where b: "length (ts_data ts) \<le> 59"
      "build_and_send_command sq = (Inr (mk_frame (seq_byte (sq_send_seq sq)) (ts_data ts)), sq')"
      "qm_len out = int (length (ts_data ts)) + 5"
      "qm_payload out = mk_frame (seq_byte (sq_send_seq sq)) (ts_data ts)"
      "sq_sent_queue sq' = sq_sent_queue sq @ [out]" "sq_send_seq sq' = sq_send_seq sq + 1"
      "sq_receive_seq sq' = sq_receive_seq sq"
      "sq_need_ack_bytes sq' = sq_need_ack_bytes sq + int (length (ts_data ts)) + 5" "queues_ok sq'"
    by (rule build_and_send_block [OF assms(1)])
  have "window_ok sq'"
    using assms(2,3) b(1) unfolding window_ok_def b(3-8)
    by (auto simp: b(3,4) nth_append less_Suc_eq)
  then show thesis using that b by metis
qed

lemma window_room:
  assumes "window_ok sq" and "\<not> window_full sq" and "sq_receive_seq sq \<noteq> - 1"
  shows "length (sq_sent_queue sq) < MAX_PENDING_BLOCKS"
proof -
  have "\<not> (of_nat (length (sq_sent_queue sq)) \<ge> (of_nat MAX_PENDING_BLOCKS :: u64))"
    using assms by (auto simp: window_full_def window_ok_def)
  moreover have "length (sq_sent_queue sq) \<le> 12" using assms(1) by (simp add: window_ok_def MAX_PENDING_BLOCKS_def)
  ultimately show ?thesis by (auto simp: MAX_PENDING_BLOCKS_def le_less)
qed

lemma command_loop_ok:
  "queues_ok sq \<Longrightarrow> window_ok sq \<Longrightarrow> sq_receive_seq sq \<noteq> - 1 \<Longrightarrow>
    MAX_PENDING_BLOCKS < k + length (sq_sent_queue sq) \<Longrightarrow>
    \<exists>w sq' new. command_loop k tc buf sq = (Inr w, sq') \<and> w \<noteq> Send_now \<and> queues_ok sq' \<and> window_ok sq' \<and>
      sq_sent_queue sq' = sq_sent_queue sq @ new \<and>
      concat (sq_written sq') = concat (sq_written sq) @ buf @ concat (map qm_payload new)"
proof (induction k arbitrary: buf sq)
  case 0
  then show ?case by (simp add: window_ok_def)
next
  case (Suc k)
  obtain w sq1 where c: "check_send_command (tc k (length buf)) sq = (w, sq1)" by fastforce
  have m: "moved sq sq1" by (rule check_send_moves(1) [OF Suc.prems(1) c])
  then have ok: "queues_ok sq1" "window_ok sq1" "sq_sent_queue sq1 = sq_sent_queue sq"
      "sq_receive_seq sq1 = sq_receive_seq sq" "sq_send_seq sq1 = sq_send_seq sq"
    using Suc.prems(2) by (auto simp: moved_def same_link_def window_ok_def)
  note wr = check_send_written [OF c]
  show ?case
  proof (cases "w = Send_now")
    case False
    then show ?thesis using ok wr by (simp add: c)
  next
    case True
    define flush where "flush = (length buf + MESSAGE_MAX > MESSAGE_MAX * MAX_PENDING_BLOCKS)"
    define sq2 where "sq2 = (if flush then write_blocks buf sq1 else sq1)"
    define buf2 where "buf2 = (if flush then [] else buf)"
    have ok2: "queues_ok sq2" "window_ok sq2" "sq_sent_queue sq2 = sq_sent_queue sq"
        "sq_receive_seq sq2 = sq_receive_seq sq" "concat (sq_written sq2) @ buf2 = concat (sq_written sq) @ buf"
      using ok wr by (simp_all add: sq2_def buf2_def)
    have "\<not> window_full sq" by (rule check_send_moves(2) [OF Suc.prems(1) c True])
    then have room: "length (sq_sent_queue sq2) < MAX_PENDING_BLOCKS"
      using window_room Suc.prems(2,3) ok2(3) by simp
    obtain block sq3 out where b: "build_and_send_command sq2 = (Inr block, sq3)" "queues_ok sq3" "window_ok sq3"
        "sq_sent_queue sq3 = sq_sent_queue sq2 @ [out]" "qm_payload out = block" "sq_receive_seq sq3 = sq_receive_seq sq2"
      by (rule build_window_ok [OF ok2(1,2) room])
    have run: "command_loop (Suc k) tc buf sq = command_loop k tc (buf2 @ block) sq3"
      using True b(1) by (simp add: c Let_def flush_def [symmetric] sq2_def [symmetric] buf2_def [symmetric])
    obtain w' sq' new where r: "command_loop k tc (buf2 @ block) sq3 = (Inr w', sq')" "w' \<noteq> Send_now"
        "queues_ok sq'" "window_ok sq'" "sq_sent_queue sq' = sq_sent_queue sq3 @ new"
        "concat (sq_written sq') = concat (sq_written sq3) @ (buf2 @ block) @ concat (map qm_payload new)"
      using Suc.IH [OF b(2,3), of "buf2 @ block"] Suc.prems(3,4) b(4,6) ok2(3,4) by auto
    have "concat (sq_written sq3) @ buf2 = concat (sq_written sq) @ buf"
      using build_and_send_written [OF b(1)] ok2(5) by simp
    then have "concat (sq_written sq') = concat (sq_written sq) @ buf @ concat (map qm_payload (out # new))"
      using r(6) b(5) by (simp flip: append_assoc)
    then show ?thesis
      using r b(4) ok2(3) unfolding run by (intro exI [of _ w'] exI [of _ sq'] exI [of _ "out # new"]) simp
  qed
qed

text \<open>
  C12: the command event always returns, and what it writes is what it remembers.  With room for
  \<^verbatim>\<open>MAX_PENDING_BLOCKS\<close> blocks on the wire, at most that many passes of its loop build a block;
  the bytes it hands to the operating system, in frames of 8 bytes for CAN, are exactly the
  blocks it appends to \<^verbatim>\<open>sent_queue\<close>, and the window and the queues stay consistent.
\<close>

theorem command_event_returns:
  assumes "queues_ok sq" and "window_ok sq" and "sq_receive_seq sq \<noteq> - 1"
  shows "\<exists>w sq' new. command_event (Suc MAX_PENDING_BLOCKS) tc sq = (Inr w, sq') \<and> w \<noteq> Send_now \<and>
    queues_ok sq' \<and> window_ok sq' \<and> sq_sent_queue sq' = sq_sent_queue sq @ new \<and>
    concat (sq_written sq') = concat (sq_written sq) @ concat (map qm_payload new)"
  using command_loop_ok [OF assms, of "Suc MAX_PENDING_BLOCKS" tc "[]"] by (simp add: command_event_def)

theorem command_event_returns_witness:
  "\<exists>w sq'. command_event 13 (\<lambda>_ _. \<lparr>ack_clock = 100, bg_clock = 0, have_freq = False, reqclock_delta = 0\<rparr>)
      (serialqueue_send_batch 0 [message_alloc\<lparr>qm_len := 1, qm_req_clock := 10\<rparr>] (serialqueue_alloc SQT_UART)) = (Inr w, sq') \<and>
    w \<noteq> Send_now"
proof -
  let ?m = "message_alloc\<lparr>qm_len := 1, qm_req_clock := 10\<rparr>" and ?h = "serialqueue_alloc SQT_UART"
  have a: "queues_ok ?h" "window_ok ?h" "sq_receive_seq ?h \<noteq> - 1"
    by (simp_all add: serialqueue_alloc_def queues_ok_def window_ok_def cq_empty_def)
  have "list_all qm_ok [?m]" by (simp add: qm_ok_def message_alloc_def MAX_CLOCK_def message_consts)
  then have b: "queues_ok (serialqueue_send_batch 0 [?m] ?h)" "same_link ?h (serialqueue_send_batch 0 [?m] ?h)"
    by (rule send_batch_ok [OF a(1)])+
  then have "window_ok (serialqueue_send_batch 0 [?m] ?h)" "sq_receive_seq (serialqueue_send_batch 0 [?m] ?h) \<noteq> - 1"
    using a(2,3) by (simp_all add: same_link_def window_ok_def)
  from command_event_returns [OF b(1) this] show ?thesis
    unfolding MAX_PENDING_BLOCKS_def by simp blast
qed

end
