(* ===== verification/Steppersync.thy ===== *)
theory Steppersync
  imports Stepcompress Serialqueue "HOL-Library.Multiset"
begin

text \<open>
  The synchronisation of the steppers of a micro-controller, the second half of
  \<^verbatim>\<open>klippy/chelper/stepcompress.c\<close>: the commands of all steppers are merged in the order of
  their request clocks, and a binary heap holds, for every entry of the micro-controller's move
  queue, the clock at which it becomes free, so that no command is sent before there is room.
\<close>

section \<open>State and heap\<close>

record steppersync =
  ss_sq :: serialqueue
  ss_cq :: nat
  ss_sc_list :: "stepcompress list"
  ss_move_clocks :: "u64 list"

definition steppersync_alloc :: "serialqueue \<Rightarrow> nat \<Rightarrow> stepcompress list \<Rightarrow> nat \<Rightarrow> steppersync" where
  "steppersync_alloc sq cq sc_list move_num =
    \<lparr>ss_sq = sq\<lparr>sq_cqs := (sq_cqs sq)(cq := serialqueue_alloc_commandqueue)\<rparr>, ss_cq = cq,
     ss_sc_list = sc_list, ss_move_clocks = replicate move_num 0\<rparr>"

definition steppersync_history_expire :: "u64 \<Rightarrow> steppersync \<Rightarrow> steppersync" where
  "steppersync_history_expire end_clock ss =
    ss\<lparr>ss_sc_list := map (stepcompress_history_expire end_clock) (ss_sc_list ss)\<rparr>"

text \<open>
  The loop of \<^verbatim>\<open>heap_replace\<close>: the hole at \<open>pos\<close> moves down to the place of the new clock.
  \<open>None\<close> is a write outside the array.
\<close>

definition heap_clock :: "u64 list \<Rightarrow> nat \<Rightarrow> u64" where
  "heap_clock mc pos = (if pos < length mc then mc ! pos else - 1)"

function heap_loop :: "u64 \<Rightarrow> u64 list \<Rightarrow> nat \<Rightarrow> u64 list option" where
  "heap_loop req_clock mc pos =
    (if pos < length mc then
       let child1_pos = 2 * pos + 1; child2_pos = 2 * pos + 2;
           child2_clock = heap_clock mc child2_pos; child1_clock = heap_clock mc child1_pos in
       if req_clock \<le> child1_clock \<and> req_clock \<le> child2_clock then Some (mc[pos := req_clock])
       else if child1_clock < child2_clock then heap_loop req_clock (mc[pos := child1_clock]) child1_pos
       else heap_loop req_clock (mc[pos := child2_clock]) child2_pos
     else None)"
  by pat_completeness auto
termination
  by (relation "measure (\<lambda>(_, mc, pos). length mc - pos)") auto

declare heap_loop.simps [simp del]

definition heap_replace :: "u64 \<Rightarrow> u64 list \<Rightarrow> u64 list option" where
  "heap_replace req_clock mc = heap_loop req_clock mc 0"

section \<open>Flush\<close>

text \<open>Flush each step compressor; the first error is returned.\<close>

fun flush_all :: "u64 \<Rightarrow> stepcompress list \<Rightarrow> (stop + int) \<times> stepcompress list" where
  "flush_all move_clock [] = (Inr 0, [])"
| "flush_all move_clock (sc # scs) =
    (case stepcompress_flush move_clock sc of
       (Inr r, sc1) \<Rightarrow> if r \<noteq> 0 then (Inr r, sc1 # scs)
         else (case flush_all move_clock scs of (r', scs') \<Rightarrow> (r', sc1 # scs'))
     | (Inl e, sc1) \<Rightarrow> (Inl e, sc1 # scs))"

definition msg_queue_of :: "stepcompress list \<Rightarrow> nat \<Rightarrow> queue_message list" where
  "msg_queue_of scs i = (if i < length scs then sc_msg_queue (scs ! i) else [])"

definition pick_stepper :: "stepcompress list \<Rightarrow> nat option" where
  "pick_stepper scs = pick_lowest (msg_queue_of scs) [0..<length scs] MAX_CLOCK None"

definition take_msg :: "nat \<Rightarrow> stepcompress list \<Rightarrow> stepcompress list" where
  "take_msg i scs = scs[i := (scs ! i)\<lparr>sc_msg_queue := tl (sc_msg_queue (scs ! i))\<rparr>]"

definition msg_count :: "stepcompress list \<Rightarrow> nat" where
  "msg_count scs = sum_list (map (\<lambda>sc. length (sc_msg_queue sc)) scs)"

lemma pick_stepper_Some:
  assumes "pick_stepper scs = Some i"
  obtains m ms where "i < length scs" and "sc_msg_queue (scs ! i) = m # ms"
proof -
  have "i \<in> set [0..<length scs]" "msg_queue_of scs i \<noteq> []"
    using pick_lowest_in assms unfolding pick_stepper_def by fastforce+
  then show thesis using that by (auto simp: msg_queue_of_def neq_Nil_conv)
qed

lemma take_msg_count: "pick_stepper scs = Some i \<Longrightarrow> msg_count (take_msg i scs) < msg_count scs"
proof -
  assume "pick_stepper scs = Some i"
  then obtain m ms where i: "i < length scs" "sc_msg_queue (scs ! i) = m # ms" by (rule pick_stepper_Some)
  then have "map (\<lambda>sc. length (sc_msg_queue sc)) (take_msg i scs) =
      (map (\<lambda>sc. length (sc_msg_queue sc)) scs)[i := length ms]"
    by (simp add: take_msg_def map_update)
  moreover have "map (\<lambda>sc. length (sc_msg_queue sc)) scs ! i = Suc (length ms)" using i by simp
  moreover have "Suc (length ms) \<le> sum_list (map (\<lambda>sc. length (sc_msg_queue sc)) scs)"
    using elem_le_sum_list [of i "map (\<lambda>sc. length (sc_msg_queue sc)) scs"] i by simp
  ultimately show ?thesis using i(1) by (simp add: msg_count_def sum_list_update)
qed

text \<open>
  Messages are taken in the order of their request clocks until one that needs the move queue is
  wanted after \<^verbatim>\<open>move_clock\<close>.  A message with a non-zero \<^verbatim>\<open>min_clock\<close> occupies an entry of
  the move queue, which becomes free at that clock; the field is then set to the clock at which
  the message may be sent.
\<close>

function batch_loop :: "u64 \<Rightarrow> stepcompress list \<Rightarrow> u64 list \<Rightarrow> queue_message list \<Rightarrow>
    (queue_message list \<times> stepcompress list \<times> u64 list) option" where
  "batch_loop move_clock scs mc msgs =
    (case pick_stepper scs of None \<Rightarrow> Some (msgs, scs, mc)
     | Some i \<Rightarrow>
       let qm = hd (sc_msg_queue (scs ! i)) in
       if qm_min_clock qm \<noteq> 0 \<and> qm_req_clock qm > move_clock then Some (msgs, scs, mc)
       else if mc = [] then None
       else case if qm_min_clock qm \<noteq> 0 then heap_replace (qm_min_clock qm) mc else Some mc of None \<Rightarrow> None
       | Some mc' \<Rightarrow> batch_loop move_clock (take_msg i scs) mc' (msgs @ [qm\<lparr>qm_min_clock := mc ! 0\<rparr>]))"
  by pat_completeness auto
termination
  by (relation "measure (\<lambda>(_, scs, _). msg_count scs)") (auto simp: take_msg_count)

declare batch_loop.simps [simp del]

definition steppersync_flush :: "u64 \<Rightarrow> u64 \<Rightarrow> (steppersync, int) fw" where
  "steppersync_flush move_clock clear_history_clock ss =
    (case flush_all move_clock (ss_sc_list ss) of
       (Inl e, scs) \<Rightarrow> (Inl e, ss\<lparr>ss_sc_list := scs\<rparr>)
     | (Inr r, scs) \<Rightarrow>
       if r \<noteq> 0 then (Inr r, ss\<lparr>ss_sc_list := scs\<rparr>)
       else case batch_loop move_clock scs (ss_move_clocks ss) [] of
         None \<Rightarrow> (Inl Stuck, ss\<lparr>ss_sc_list := scs\<rparr>)
       | Some (msgs, scs', mc) \<Rightarrow>
         let ss1 = ss\<lparr>ss_sc_list := scs', ss_move_clocks := mc\<rparr>;
             ss2 = (if msgs \<noteq> [] then ss1\<lparr>ss_sq := serialqueue_send_batch (ss_cq ss1) msgs (ss_sq ss1)\<rparr> else ss1)
         in (Inr 0, steppersync_history_expire clear_history_clock ss2))"

section \<open>A pool of resources with release times\<close>

text \<open>
  \<open>pool_run get rep p ts p'\<close>: from the pool \<open>p\<close>, resources are taken one after the other, each at
  the earliest release time \<open>s\<close> in the pool, and given back for a new release time \<open>v\<close>.
\<close>

fun pool_run :: "('p \<Rightarrow> 'v) \<Rightarrow> ('v \<Rightarrow> 'p \<Rightarrow> 'p option) \<Rightarrow> 'p \<Rightarrow> ('v \<times> 'v) list \<Rightarrow> 'p \<Rightarrow> bool" where
  "pool_run get rep p [] p' \<longleftrightarrow> p' = p"
| "pool_run get rep p ((s, v) # ts) p' \<longleftrightarrow> s = get p \<and> (\<exists>q. rep v p = Some q \<and> pool_run get rep q ts p')"

text \<open>
  The resources in use at \<open>t\<close>, when none is taken before the ones before it: those taken by then
  and released after \<open>t\<close>.
\<close>

definition in_use :: "'v::linorder \<Rightarrow> ('v \<times> 'v) list \<Rightarrow> nat" where
  "in_use t ts = length (filter (\<lambda>(s, v). t < v) (takeWhile (\<lambda>(s, v). s \<le> t) ts))"

locale release_pool =
  fixes get :: "'p \<Rightarrow> 'v::linorder"
    and rep :: "'v \<Rightarrow> 'p \<Rightarrow> 'p option"
    and content :: "'p \<Rightarrow> 'v multiset"
    and ok :: "'p \<Rightarrow> bool"
  assumes get_least: "ok p \<Longrightarrow> get p \<in># content p \<and> (\<forall>x \<in># content p. get p \<le> x)"
    and rep_content: "ok p \<Longrightarrow> \<exists>p'. rep v p = Some p' \<and> ok p' \<and> content p' = content p - {#get p#} + {#v#}"
begin

lemma rep_Some:
  assumes "ok p" and "rep v p = Some p'"
  shows "ok p'" and "content p' = content p - {#get p#} + {#v#}"
  using rep_content [OF assms(1), of v] assms(2) by auto

lemma run_ok: "ok p \<Longrightarrow> pool_run get rep p ts p' \<Longrightarrow> ok p' \<and> size (content p') = size (content p)"
proof (induction ts arbitrary: p)
  case (Cons t ts)
  obtain s v where t: "t = (s, v)" by (cases t)
  then obtain q where q: "rep v p = Some q" "pool_run get rep q ts p'" using Cons.prems(2) by auto
  obtain r where "content p = add_mset (get p) r" using get_least [OF Cons.prems(1)] by (metis mset_add)
  then have "size (content q) = size (content p)"
    using rep_Some(2) [OF Cons.prems(1) q(1)] by simp
  then show ?case using Cons.IH [OF rep_Some(1) [OF Cons.prems(1) q(1)] q(2)] by simp
qed simp

text \<open>There are never more resources in use than the pool has.\<close>

lemma never_more_in_use:
  assumes "ok p" and "pool_run get rep p ts p'"
  shows "in_use t ts + size (filter_mset (\<lambda>x. t < x) (content p)) \<le> size (content p)"
  using assms
proof (induction ts arbitrary: p)
  case Nil
  then show ?case by (simp add: in_use_def size_filter_mset_lesseq)
next
  case (Cons u ts)
  obtain s v where u: "u = (s, v)" by (cases u)
  then obtain q where q: "s = get p" "rep v p = Some q" "pool_run get rep q ts p'" using Cons.prems(2) by auto
  show ?case
  proof (cases "s \<le> t")
    case False
    then show ?thesis by (simp add: u in_use_def size_filter_mset_lesseq)
  next
    case True
    note g = get_least [OF Cons.prems(1)]
    then obtain r where r: "content p = add_mset s r" using q(1) by (metis mset_add)
    have c: "content q = add_mset v r" using rep_Some(2) [OF Cons.prems(1) q(2)] r q(1) by simp
    have "in_use t ts + size (filter_mset (\<lambda>x. t < x) (content q)) \<le> size (content q)"
      by (rule Cons.IH [OF rep_Some(1) [OF Cons.prems(1) q(2)] q(3)])
    then show ?thesis using True by (auto simp: u in_use_def c r not_less split: if_splits)
  qed
qed

end

section \<open>The heap of move clocks\<close>

definition child :: "nat \<Rightarrow> nat \<Rightarrow> bool" where
  "child p x \<longleftrightarrow> x = 2 * p + 1 \<or> x = 2 * p + 2"

definition heap_ok :: "'v::linorder list \<Rightarrow> bool" where
  "heap_ok mc \<longleftrightarrow> (\<forall>p x. child p x \<and> x < length mc \<longrightarrow> mc ! p \<le> mc ! x)"

text \<open>The heap while \<open>v\<close> sinks from the hole at \<open>pos\<close>.\<close>

definition heap_hole :: "'v::linorder \<Rightarrow> nat \<Rightarrow> 'v list \<Rightarrow> bool" where
  "heap_hole v pos mc \<longleftrightarrow>
    (\<forall>p x. child p x \<and> x < length mc \<and> p \<noteq> pos \<longrightarrow> mc ! p \<le> mc ! x) \<and>
    (\<forall>p x. child p pos \<and> child pos x \<and> x < length mc \<longrightarrow> mc ! p \<le> mc ! x) \<and>
    (\<forall>p. child p pos \<longrightarrow> mc ! p \<le> v)"

lemma child_less [simp]: "child p x \<Longrightarrow> p < x" by (auto simp: child_def)

lemma child_unique: "child p x \<Longrightarrow> child q x \<Longrightarrow> p = q" unfolding child_def by presburger

lemma heap_ok_root: "heap_ok mc \<Longrightarrow> x < length mc \<Longrightarrow> mc ! 0 \<le> mc ! x"
proof (induction x rule: less_induct)
  case (less x)
  show ?case
  proof (cases "x = 0")
    case False
    then have c: "child ((x - 1) div 2) x" unfolding child_def by presburger
    then have "(x - 1) div 2 < x" by (rule child_less)
    then have "mc ! 0 \<le> mc ! ((x - 1) div 2)" using less by simp
    also have "\<dots> \<le> mc ! x" using less.prems c unfolding heap_ok_def by blast
    finally show ?thesis .
  qed simp
qed

lemma heap_ok_hole: "heap_ok mc \<Longrightarrow> heap_hole v 0 mc"
  by (auto simp: heap_ok_def heap_hole_def child_def)

lemma hole_filled:
  assumes "heap_hole v pos mc" and "pos < length mc" and "\<And>x. child pos x \<Longrightarrow> x < length mc \<Longrightarrow> v \<le> mc ! x"
  shows "heap_ok (mc[pos := v])"
  unfolding heap_ok_def
proof (intro allI impI, elim conjE)
  fix p x assume c: "child p x" and x: "x < length (mc[pos := v])"
  consider "p = pos" | "x = pos" | "p \<noteq> pos" "x \<noteq> pos" by blast
  then show "mc[pos := v] ! p \<le> mc[pos := v] ! x"
  proof cases
    case 1
    then show ?thesis using assms(2,3) c x less_imp_neq [OF child_less [OF c]] by simp
  next
    case 2
    then show ?thesis using assms(1,2) c x less_imp_neq [OF child_less [OF c]] by (simp add: heap_hole_def)
  next
    case 3
    then show ?thesis using assms(1) c x by (simp add: heap_hole_def)
  qed
qed

lemma hole_moves:
  assumes "heap_hole v pos mc" and "pos < length mc" and "child pos c" and "c < length mc" and "mc ! c \<le> v"
    and "\<And>x. child pos x \<Longrightarrow> x < length mc \<Longrightarrow> mc ! c \<le> mc ! x"
  shows "heap_hole v c (mc[pos := mc ! c])"
proof -
  have lt: "pos < c" using assms(3) by simp
  have A: "mc[pos := mc ! c] ! p \<le> mc[pos := mc ! c] ! x" if c: "child p x" "x < length mc" "p \<noteq> c" for p x
  proof -
    consider "p = pos" | "x = pos" | "p \<noteq> pos" "x \<noteq> pos" by blast
    then show ?thesis
    proof cases
      case 1
      then show ?thesis using assms(2,6) c less_imp_neq [OF child_less [OF c(1)]] by simp
    next
      case 2
      then show ?thesis using assms(1,2,3,4) c less_imp_neq [OF child_less [OF c(1)]]
        by (simp add: heap_hole_def)
    next
      case 3
      then show ?thesis using assms(1) c by (simp add: heap_hole_def)
    qed
  qed
  have B: "mc[pos := mc ! c] ! p \<le> mc[pos := mc ! c] ! x" if "child p c" "child c x" "x < length mc" for p x
  proof -
    have p: "p = pos" by (rule child_unique [OF that(1) assms(3)])
    have "mc ! c \<le> mc ! x" using assms(1) that lt by (simp add: heap_hole_def)
    then show ?thesis using p assms(2) less_trans [OF lt child_less [OF that(2)]] by simp
  qed
  have C: "mc[pos := mc ! c] ! p \<le> v" if "child p c" for p
    using child_unique [OF that assms(3)] assms(2,5) by simp
  show ?thesis unfolding heap_hole_def using A B C by simp
qed

lemma mset_move_hole:
  assumes "pos < length mc" and "c < length mc" and "pos \<noteq> c"
  shows "mset (mc[pos := mc ! c]) - {#mc[pos := mc ! c] ! c#} + {#v#} = mset mc - {#mc ! pos#} + {#v#}"
  using assms by (simp add: mset_update)

lemma heap_loop_ok:
  "heap_hole v pos mc \<Longrightarrow> pos < length mc \<Longrightarrow>
    \<exists>mc'. heap_loop v mc pos = Some mc' \<and> heap_ok mc' \<and> mset mc' = mset mc - {#mc ! pos#} + {#v#}"
proof (induction v mc pos rule: heap_loop.induct)
  case (1 v mc pos)
  define c1 c2 where c: "c1 = 2 * pos + 1" "c2 = 2 * pos + 2"
  define k1 k2 where k: "k1 = heap_clock mc c1" "k2 = heap_clock mc c2"
  have unfold: "heap_loop v mc pos = (if v \<le> k1 \<and> v \<le> k2 then Some (mc[pos := v])
      else if k1 < k2 then heap_loop v (mc[pos := k1]) c1 else heap_loop v (mc[pos := k2]) c2)"
    using "1.prems"(2) by (subst heap_loop.simps) (simp only: if_True Let_def k c)
  have le: "x < length mc \<Longrightarrow> child pos x \<Longrightarrow> k1 \<le> mc ! x \<or> k2 \<le> mc ! x" for x
    by (auto simp: k c heap_clock_def child_def)
  show ?case
  proof (cases "v \<le> k1 \<and> v \<le> k2")
    case True
    have "v \<le> mc ! x" if "child pos x" "x < length mc" for x
      using le [OF that(2,1)] True by (auto intro: order_trans)
    then have "heap_ok (mc[pos := v])" by (rule hole_filled [OF "1.prems"])
    then show ?thesis using True "1.prems"(2) by (simp add: unfold mset_update)
  next
    case False
    define cc where "cc = (if k1 < k2 then c1 else c2)"
    define kk where "kk = (if k1 < k2 then k1 else k2)"
    have kk: "kk = heap_clock mc cc" "kk < v" "kk \<le> k1" "kk \<le> k2" using False by (auto simp: kk_def cc_def k)
    have cl: "cc < length mc" using kk(1,2) by (auto simp: heap_clock_def split: if_splits)
    then have kc: "kk = mc ! cc" using kk(1) by (simp add: heap_clock_def)
    have ch: "child pos cc" by (simp add: cc_def c child_def)
    have lt: "pos < cc" using ch by simp
    have h: "heap_hole v cc (mc[pos := kk])" unfolding kc
      by (rule hole_moves [OF "1.prems" ch cl]) (use kk kc le in \<open>auto intro: order_trans\<close>)
    have "\<exists>mc'. heap_loop v (mc[pos := kk]) cc = Some mc' \<and> heap_ok mc' \<and>
        mset mc' = mset (mc[pos := kk]) - {#mc[pos := kk] ! cc#} + {#v#}"
      using "1.IH"(1) [OF "1.prems"(2) c(1) c(2) k(2) k(1) False] "1.IH"(2) [OF "1.prems"(2) c(1) c(2) k(2) k(1) False]
        h cl by (cases "k1 < k2") (simp_all add: cc_def kk_def)
    moreover have "heap_loop v mc pos = heap_loop v (mc[pos := kk]) cc"
      using False unfolding unfold cc_def kk_def by auto
    ultimately show ?thesis using mset_move_hole [OF "1.prems"(2) cl] lt by (simp add: kc)
  qed
qed

interpretation moves: release_pool "\<lambda>mc. mc ! 0" heap_replace mset "\<lambda>mc. mc \<noteq> [] \<and> heap_ok mc"
proof unfold_locales
  fix mc :: "u64 list" assume "mc \<noteq> [] \<and> heap_ok mc"
  then show "mc ! 0 \<in># mset mc \<and> (\<forall>x \<in># mset mc. mc ! 0 \<le> x)"
    by (auto simp: in_set_conv_nth heap_ok_root)
next
  fix mc :: "u64 list" and v assume "mc \<noteq> [] \<and> heap_ok mc"
  then obtain mc' where "heap_loop v mc 0 = Some mc'" "heap_ok mc'" "mset mc' = mset mc - {#mc ! 0#} + {#v#}"
    using heap_loop_ok [OF heap_ok_hole] by blast
  then show "\<exists>mc'. heap_replace v mc = Some mc' \<and> (mc' \<noteq> [] \<and> heap_ok mc') \<and>
      mset mc' = mset mc - {#mc ! 0#} + {#v#}"
    by (auto simp: heap_replace_def)
qed

section \<open>The batch\<close>

text \<open>
  The uses of the move queue by a batch: for each of its messages that needs an entry, the clock
  before which it is not sent, and the clock at which it gives the entry back.
\<close>

definition move_uses :: "queue_message list \<Rightarrow> (nat \<times> queue_message) list \<Rightarrow> (u64 \<times> u64) list" where
  "move_uses out picks = map (\<lambda>(m, _, q). (qm_min_clock m, qm_min_clock q))
    (filter (\<lambda>(m, _, q). qm_min_clock q \<noteq> 0) (zip out picks))"

text \<open>A stepper whose first message is wanted no later than those of the others.\<close>

definition lowest_head :: "stepcompress list \<Rightarrow> stepcompress \<Rightarrow> bool" where
  "lowest_head scs sc \<longleftrightarrow> sc \<in> set scs \<and> sc_msg_queue sc \<noteq> [] \<and>
    (\<forall>sc' \<in> set scs. sc_msg_queue sc' \<noteq> [] \<longrightarrow> qm_req_clock (hd (sc_msg_queue sc)) \<le> qm_req_clock (hd (sc_msg_queue sc')))"

text \<open>
  The messages are the merge of the queues by request clock: each is the first message of its stepper,
  it is wanted no later than the first messages of all other steppers, and if it needs the move queue
  it is wanted by \<^verbatim>\<open>move_clock\<close>.
\<close>

fun merged_by_clock :: "u64 \<Rightarrow> stepcompress list \<Rightarrow> (nat \<times> queue_message) list \<Rightarrow> bool" where
  "merged_by_clock move_clock scs [] \<longleftrightarrow> True"
| "merged_by_clock move_clock scs ((i, m) # picks) \<longleftrightarrow> i < length scs \<and> lowest_head scs (scs ! i) \<and>
    m = hd (sc_msg_queue (scs ! i)) \<and> (qm_min_clock m \<noteq> 0 \<longrightarrow> qm_req_clock m \<le> move_clock) \<and>
    merged_by_clock move_clock (take_msg i scs) picks"

text \<open>
  The batch leaves nothing behind that should be sent up to \<^verbatim>\<open>move_clock\<close>: either no first message has a
  request clock at all, or the one that is wanted first needs the move queue and is wanted later.
\<close>

definition batch_complete :: "u64 \<Rightarrow> stepcompress list \<Rightarrow> bool" where
  "batch_complete move_clock scs \<longleftrightarrow>
    (\<forall>sc \<in> set scs. sc_msg_queue sc \<noteq> [] \<longrightarrow> MAX_CLOCK \<le> qm_req_clock (hd (sc_msg_queue sc))) \<or>
    (\<exists>sc. lowest_head scs sc \<and> qm_min_clock (hd (sc_msg_queue sc)) \<noteq> 0 \<and> move_clock < qm_req_clock (hd (sc_msg_queue sc)))"

text \<open>The messages of each stepper are taken from the front of its queue, in order.\<close>

definition in_fifo_order :: "stepcompress list \<Rightarrow> (nat \<times> queue_message) list \<Rightarrow> stepcompress list \<Rightarrow> bool" where
  "in_fifo_order scs picks scs' \<longleftrightarrow> length scs' = length scs \<and>
    (\<forall>i < length scs. sc_msg_queue (scs ! i) =
      map snd (filter (\<lambda>x. fst x = i) picks) @ sc_msg_queue (scs' ! i))"

text \<open>A message goes out as it was queued, apart from its \<^verbatim>\<open>min_clock\<close>.\<close>

definition sent_as_queued :: "queue_message list \<Rightarrow> (nat \<times> queue_message) list \<Rightarrow> bool" where
  "sent_as_queued = list_all2 (\<lambda>m x. m = snd x\<lparr>qm_min_clock := qm_min_clock m\<rparr>)"

definition batch_ok :: "u64 \<Rightarrow> stepcompress list \<Rightarrow> u64 list \<Rightarrow> queue_message list \<Rightarrow>
    (nat \<times> queue_message) list \<Rightarrow> stepcompress list \<Rightarrow> u64 list \<Rightarrow> bool" where
  "batch_ok move_clock scs mc out picks scs' mc' \<longleftrightarrow> in_fifo_order scs picks scs' \<and>
    merged_by_clock move_clock scs picks \<and> sent_as_queued out picks \<and>
    pool_run (\<lambda>mc. mc ! 0) heap_replace mc (move_uses out picks) mc' \<and> batch_complete move_clock scs'"

lemma in_fifo_order_step:
  assumes "i < length scs" and "sc_msg_queue (scs ! i) = m # ms" and "in_fifo_order (take_msg i scs) qs scs'"
  shows "in_fifo_order scs ((i, m) # qs) scs'"
  using assms by (auto simp: in_fifo_order_def take_msg_def nth_list_update)

lemma pick_lowest_least:
  assumes "pick_lowest f qs c best = Some i" and "\<And>b. best = Some b \<Longrightarrow> f b \<noteq> [] \<and> qm_req_clock (hd (f b)) = c"
  shows "f i \<noteq> [] \<and> qm_req_clock (hd (f i)) \<le> c \<and> (\<forall>q \<in> set qs. f q \<noteq> [] \<longrightarrow> qm_req_clock (hd (f i)) \<le> qm_req_clock (hd (f q)))"
  using assms
proof (induction qs arbitrary: c best)
  case (Cons x qs)
  show ?case
  proof (cases "f x")
    case Nil
    then show ?thesis using Cons.IH [of c best] Cons.prems by auto
  next
    case fx: (Cons m ms)
    show ?thesis
    proof (cases "qm_req_clock m < c")
      case True
      then show ?thesis using Cons.IH [of "qm_req_clock m" "Some x"] Cons.prems(1) fx by fastforce
    next
      case False
      then show ?thesis using Cons.IH [of c best] Cons.prems fx by fastforce
    qed
  qed
qed simp

lemma pick_stepper_lowest:
  assumes "pick_stepper scs = Some i"
  shows "i < length scs \<and> lowest_head scs (scs ! i)"
proof -
  obtain m ms where i: "i < length scs" "sc_msg_queue (scs ! i) = m # ms" using assms by (rule pick_stepper_Some)
  have "\<forall>q \<in> set [0..<length scs]. msg_queue_of scs q \<noteq> [] \<longrightarrow>
      qm_req_clock (hd (msg_queue_of scs i)) \<le> qm_req_clock (hd (msg_queue_of scs q))"
    using pick_lowest_least [OF assms [unfolded pick_stepper_def]] by simp
  then show ?thesis using i by (auto simp: lowest_head_def msg_queue_of_def in_set_conv_nth)
qed

lemma pick_stepper_None:
  assumes "pick_stepper scs = None" and "sc \<in> set scs" and "sc_msg_queue sc \<noteq> []"
  shows "MAX_CLOCK \<le> qm_req_clock (hd (sc_msg_queue sc))"
proof -
  obtain i where i: "i < length scs" "sc = scs ! i" using assms(2) by (auto simp: in_set_conv_nth)
  have "\<forall>q \<in> set [0..<length scs]. \<forall>m ms. msg_queue_of scs q = m # ms \<longrightarrow> MAX_CLOCK \<le> qm_req_clock m"
    using pick_lowest_None [OF assms(1) [unfolded pick_stepper_def]] by simp
  then show ?thesis using i assms(3) by (auto simp: msg_queue_of_def neq_Nil_conv)
qed

text \<open>The loop stops where \<^const>\<open>pick_stepper\<close> finds nothing to send.\<close>

definition picks_nothing :: "u64 \<Rightarrow> stepcompress list \<Rightarrow> bool" where
  "picks_nothing move_clock scs = (case pick_stepper scs of None \<Rightarrow> True
    | Some i \<Rightarrow> (let qm = hd (sc_msg_queue (scs ! i)) in qm_min_clock qm \<noteq> 0 \<and> qm_req_clock qm > move_clock))"

lemma picks_nothing_complete: "picks_nothing move_clock scs \<Longrightarrow> batch_complete move_clock scs"
  using pick_stepper_None [of scs] pick_stepper_lowest [of scs]
  by (fastforce simp: picks_nothing_def batch_complete_def Let_def split: option.splits)

lemma batch_loop_ok:
  "mc \<noteq> [] \<and> heap_ok mc \<Longrightarrow> \<exists>out scs' mc' picks.
    batch_loop move_clock scs mc msgs = Some (msgs @ out, scs', mc') \<and> batch_ok move_clock scs mc out picks scs' mc'"
proof (induction move_clock scs mc msgs rule: batch_loop.induct)
  case (1 move_clock scs mc msgs)
  show ?case
  proof (cases "picks_nothing move_clock scs")
    case True
    then have "batch_loop move_clock scs mc msgs = Some (msgs, scs, mc)"
      by (subst batch_loop.simps) (auto simp: picks_nothing_def Let_def split: option.splits)
    moreover have "batch_ok move_clock scs mc [] [] scs mc"
      using picks_nothing_complete [OF True] by (simp add: batch_ok_def in_fifo_order_def sent_as_queued_def move_uses_def)
    ultimately show ?thesis by auto
  next
    case False
    then obtain i where pick: "pick_stepper scs = Some i" by (auto simp: picks_nothing_def split: option.splits)
    then obtain m ms where i: "i < length scs" "sc_msg_queue (scs ! i) = m # ms" by (rule pick_stepper_Some)
    have go: "\<not> (qm_min_clock m \<noteq> 0 \<and> qm_req_clock m > move_clock)"
      using False pick i by (simp add: picks_nothing_def)
    define r where "r = (if qm_min_clock m \<noteq> 0 then heap_replace (qm_min_clock m) mc else Some mc)"
    obtain mc1 where r: "r = Some mc1" "mc1 \<noteq> [] \<and> heap_ok mc1"
      using moves.rep_content [OF "1.prems", of "qm_min_clock m"] "1.prems" unfolding r_def
      by (cases "qm_min_clock m \<noteq> 0") auto
    have run: "batch_loop move_clock scs mc msgs =
        batch_loop move_clock (take_msg i scs) mc1 (msgs @ [m\<lparr>qm_min_clock := mc ! 0\<rparr>])"
      using pick i go r(1) "1.prems" unfolding r_def
      by (subst batch_loop.simps) (simp only: option.case Let_def list.sel if_False)
    obtain out scs' mc' picks where IH:
      "batch_loop move_clock (take_msg i scs) mc1 (msgs @ [m\<lparr>qm_min_clock := mc ! 0\<rparr>]) =
        Some ((msgs @ [m\<lparr>qm_min_clock := mc ! 0\<rparr>]) @ out, scs', mc')"
      "batch_ok move_clock (take_msg i scs) mc1 out picks scs' mc'"
      using "1.IH" [OF pick refl] i go r "1.prems" unfolding r_def by (metis list.sel(1))
    have "batch_ok move_clock scs mc (m\<lparr>qm_min_clock := mc ! 0\<rparr> # out) ((i, m) # picks) scs' mc'"
      using IH(2) in_fifo_order_step [OF i] r(1) pick_stepper_lowest [OF pick] i(2) go
      by (auto simp: batch_ok_def sent_as_queued_def move_uses_def r_def split: if_splits)
    then show ?thesis using IH(1) unfolding run by (metis append_Cons append_Nil append_assoc)
  qed
qed

section \<open>The move queue is never overfilled\<close>

lemma steppersync_alloc_heap: "heap_ok (ss_move_clocks (steppersync_alloc sq cq sc_list move_num))"
  by (auto simp: steppersync_alloc_def heap_ok_def dest: less_trans [OF child_less])

text \<open>
  C8: a flush never sends more moves than the micro-controller has room for.  Once the step
  compressors are flushed, \<^verbatim>\<open>steppersync_flush\<close> succeeds and sends one batch: the messages of
  each stepper in their order and unchanged apart from \<^verbatim>\<open>min_clock\<close>, those of all steppers merged by
  their request clocks, no move wanted after \<^verbatim>\<open>move_clock\<close>, and everything up to the first such
  move.  The \<^verbatim>\<open>min_clock\<close> of each message is chosen such that at every
  clock \<open>t\<close> the entries taken by this batch and still in use, with those of earlier batches that
  are not free yet, are at most the entries of the move queue.  The heap keeps its order and its
  number of entries.
\<close>

theorem steppersync_never_overfills:
  assumes "flush_all move_clock (ss_sc_list ss) = (Inr 0, scs)"
    and "ss_move_clocks ss \<noteq> []" and "heap_ok (ss_move_clocks ss)"
  shows "\<exists>ss' out scs' picks. steppersync_flush move_clock clear_clock ss = (Inr 0, ss') \<and>
    ss_sq ss' = (if out = [] then ss_sq ss else serialqueue_send_batch (ss_cq ss) out (ss_sq ss)) \<and>
    ss_sc_list ss' = map (stepcompress_history_expire clear_clock) scs' \<and>
    in_fifo_order scs picks scs' \<and> sent_as_queued out picks \<and>
    merged_by_clock move_clock scs picks \<and> batch_complete move_clock scs' \<and>
    (\<forall>t. in_use t (move_uses out picks) + length (filter (\<lambda>x. t < x) (ss_move_clocks ss)) \<le>
      length (ss_move_clocks ss)) \<and>
    heap_ok (ss_move_clocks ss') \<and> length (ss_move_clocks ss') = length (ss_move_clocks ss)"
proof -
  define mc where "mc = ss_move_clocks ss"
  have mc: "mc \<noteq> [] \<and> heap_ok mc" using assms(2,3) by (simp add: mc_def)
  obtain out scs' mc' picks where b: "batch_loop move_clock scs mc [] = Some ([] @ out, scs', mc')"
      "batch_ok move_clock scs mc out picks scs' mc'"
    using batch_loop_ok [OF mc] by blast
  have run: "pool_run (\<lambda>mc. mc ! 0) heap_replace mc (move_uses out picks) mc'"
    using b(2) by (simp add: batch_ok_def)
  have ok: "heap_ok mc'" "length mc' = length mc"
    using moves.run_ok [OF mc run] by simp_all
  have room: "in_use t (move_uses out picks) + length (filter (\<lambda>x. t < x) mc) \<le> length mc" for t
    using moves.never_more_in_use [OF mc run, of t] by (simp flip: mset_filter)
  define ss' where "ss' = steppersync_history_expire clear_clock (ss\<lparr>ss_sc_list := scs', ss_move_clocks := mc',
      ss_sq := if out = [] then ss_sq ss else serialqueue_send_batch (ss_cq ss) out (ss_sq ss)\<rparr>)"
  have flush: "steppersync_flush move_clock clear_clock ss = (Inr 0, ss')"
    using assms(1) b(1) by (simp add: steppersync_flush_def ss'_def mc_def Let_def)
  show ?thesis
    by (intro exI [of _ ss'] exI [of _ out] exI [of _ scs'] exI [of _ picks])
      (use b(2) ok room flush in \<open>simp add: batch_ok_def ss'_def steppersync_history_expire_def mc_def\<close>)
qed

text \<open>A micro-controller with two moves and a stepper with three.\<close>

definition example_move :: "u64 \<Rightarrow> queue_message" where
  "example_move clock = message_alloc\<lparr>qm_len := 1, qm_req_clock := clock, qm_min_clock := clock\<rparr>"

definition example_ss :: steppersync where
  "example_ss = steppersync_alloc (serialqueue_alloc SQT_UART) 0
    [(stepcompress_alloc 3)\<lparr>sc_msg_queue := map example_move [100, 200, 300]\<rparr>] 2"

theorem steppersync_never_overfills_witness:
  "\<exists>ss' out picks. steppersync_flush 1000 0 example_ss = (Inr 0, ss') \<and>
    ss_sq ss' = (if out = [] then ss_sq example_ss else serialqueue_send_batch 0 out (ss_sq example_ss)) \<and>
    (\<forall>t. in_use t (move_uses out picks) \<le> 2) \<and> length (ss_move_clocks ss') = 2"
proof -
  have f: "flush_all 1000 (ss_sc_list example_ss) = (Inr 0, ss_sc_list example_ss)"
    by (simp add: example_ss_def steppersync_alloc_def stepcompress_flush_def queue_flush_def
        stepcompress_alloc_def fw_unfold on_ok_def)
  have mc: "ss_move_clocks example_ss = [0, 0]"
    by (simp add: example_ss_def steppersync_alloc_def numeral_2_eq_2)
  have ne: "ss_move_clocks example_ss \<noteq> []" by (simp add: mc)
  have ok: "heap_ok (ss_move_clocks example_ss)" unfolding example_ss_def by (rule steppersync_alloc_heap)
  have cq: "ss_cq example_ss = 0" by (simp add: example_ss_def steppersync_alloc_def)
  from steppersync_never_overfills [OF f ne ok, of 0] show ?thesis
    unfolding mc cq
    apply (elim exE conjE)
    subgoal for ss' out scs' picks
      by (intro exI [of _ ss'] exI [of _ out] exI [of _ picks]) (simp add: numeral_2_eq_2)
    done
qed

end
