(* ===== verification/Link.thy ===== *)
theory Link
  imports Serialqueue
begin

text \<open>
  The serial link as a whole: the host's serial queue, the block search of the firmware and the
  two directions of the wire between them.  The wire keeps the order of blocks and may lose any
  of them (a damaged block fails its checksum and is a lost one; what the host flushes from the kernel's
  queue before a retransmission is lost too); \<^verbatim>\<open>lk_sent\<close> and
  \<^verbatim>\<open>lk_accepted\<close> record the blocks the host has built and the micro-controller has
  accepted.
\<close>

record link =
  lk_host :: serialqueue
  lk_mcu :: command_s
  lk_down :: "u8 list list"
  lk_up :: "u8 list list"
  lk_sent :: "u8 list list"
  lk_accepted :: "u8 list list"

text \<open>
  Each block that arrives is searched for by \<^const>\<open>command_find_block\<close> and answered with the
  number of the block the micro-controller expects next, whether it was accepted or refused
  (\<^verbatim>\<open>command_send_ack\<close> and the nak of \<^verbatim>\<open>command_find_block\<close>).
\<close>

inductive link_step :: "link \<Rightarrow> link \<Rightarrow> bool" where
  L_batch: "list_all qm_ok msgs \<Longrightarrow>
    link_step l (l\<lparr>lk_host := serialqueue_send_batch q msgs (lk_host l)\<rparr>)"
| L_wait: "check_send_command tc (lk_host l) = (t, h) \<Longrightarrow> link_step l (l\<lparr>lk_host := h\<rparr>)"
| L_send: "check_send_command tc (lk_host l) = (Send_now, h1) \<Longrightarrow>
    build_and_send_command h1 = (Inr b, h2) \<Longrightarrow>
    link_step l (l\<lparr>lk_host := h2, lk_down := lk_down l @ [b], lk_sent := lk_sent l @ [b]\<rparr>)"
| L_resend: "retransmit_event (lk_host l) = (Inr (), h) \<Longrightarrow>
    link_step l (l\<lparr>lk_host := h, lk_down := lk_down l @ map qm_payload (sq_sent_queue (lk_host l))\<rparr>)"
| L_lose_down: "lk_down l = xs @ b # ys \<Longrightarrow> link_step l (l\<lparr>lk_down := xs @ ys\<rparr>)"
| L_deliver: "lk_down l = b # bs \<Longrightarrow> command_find_block b (lk_mcu l) = (r, n, m) \<Longrightarrow>
    link_step l (l\<lparr>lk_mcu := m, lk_down := bs, lk_up := lk_up l @ [mk_frame (next_sequence m) []],
      lk_accepted := lk_accepted l @ (if r = 1 then [b] else [])\<rparr>)"
| L_lose_up: "lk_up l = xs @ b # ys \<Longrightarrow> link_step l (l\<lparr>lk_up := xs @ ys\<rparr>)"
| L_ack: "lk_up l = a # as \<Longrightarrow> input_event 0 (Some (1, a)) (lk_host l) = (Inr (), h) \<Longrightarrow>
    link_step l (l\<lparr>lk_host := h, lk_up := as\<rparr>)"

text \<open>
  The invariant, with \<open>r\<close> blocks acknowledged and \<open>a\<close> blocks accepted.  The blocks on the
  way down are named by their index; none is so old or so new that its number could be mistaken.
\<close>

definition host_inv :: "u64 \<Rightarrow> nat \<Rightarrow> u8 list list \<Rightarrow> serialqueue \<Rightarrow> bool" where
  "host_inv base r sent h \<longleftrightarrow> window_ok h \<and> queues_ok h \<and> sq_need_sync h = 0 \<and> sq_input h = [] \<and>
    sq_receive_seq h = base + of_nat r \<and> r \<le> length sent \<and> map qm_payload (sq_sent_queue h) = drop r sent"

definition mcu_inv :: "u64 \<Rightarrow> nat \<Rightarrow> command_s \<Rightarrow> bool" where
  "mcu_inv base a m \<longleftrightarrow> synced m \<and> next_sequence m = seq_byte (base + of_nat a)"

definition down_inv :: "nat \<Rightarrow> u8 list list \<Rightarrow> u8 list list \<Rightarrow> bool" where
  "down_inv a sent down \<longleftrightarrow> (\<exists>ds. down = map ((!) sent) ds \<and>
    (\<forall>d \<in> set ds. d < length sent \<and> a \<le> d + 12) \<and> sorted_wrt (\<lambda>x y. x < y + 12) ds)"

definition up_inv :: "u64 \<Rightarrow> nat \<Rightarrow> nat \<Rightarrow> u8 list list \<Rightarrow> bool" where
  "up_inv base r a up \<longleftrightarrow> (\<exists>us. up = map (\<lambda>u. mk_frame (seq_byte (base + of_nat u)) []) us \<and>
    sorted us \<and> (\<forall>u \<in> set us. r \<le> u \<and> u \<le> a))"

definition blocks_inv :: "u64 \<Rightarrow> u8 list list \<Rightarrow> bool" where
  "blocks_inv base sent \<longleftrightarrow> (\<forall>i < length sent. \<exists>data. length data \<le> 59 \<and>
    sent ! i = mk_frame (seq_byte (base + of_nat i)) data)"

definition link_inv :: "u64 \<Rightarrow> nat \<Rightarrow> nat \<Rightarrow> link \<Rightarrow> bool" where
  "link_inv base r a l \<longleftrightarrow> host_inv base r (lk_sent l) (lk_host l) \<and> mcu_inv base a (lk_mcu l) \<and>
    down_inv a (lk_sent l) (lk_down l) \<and> up_inv base r a (lk_up l) \<and> blocks_inv base (lk_sent l) \<and>
    r \<le> a \<and> a \<le> length (lk_sent l) \<and> lk_accepted l = take a (lk_sent l)"

lemma host_window: "host_inv base r sent h \<Longrightarrow> length sent \<le> r + 12 \<and> length (sq_sent_queue h) = length sent - r"
proof -
  assume h: "host_inv base r sent h"
  then have "length (map qm_payload (sq_sent_queue h)) = length (drop r sent)" by (simp only: host_inv_def)
  then show ?thesis using h by (auto simp: host_inv_def window_ok_def MAX_PENDING_BLOCKS_def)
qed

lemma unacked_blocks:
  assumes "host_inv base r sent h"
  shows "map qm_payload (sq_sent_queue h) = map ((!) sent) [r..<length sent]"
proof -
  have "map qm_payload (sq_sent_queue h) = drop r sent" using assms by (simp add: host_inv_def)
  also have "\<dots> = map ((!) sent) [r..<length sent]" by (simp add: list_eq_iff_nth_eq)
  finally show ?thesis .
qed

text \<open>Which block the micro-controller accepts.\<close>

lemma mcu_receives:
  assumes "mcu_inv base a m" and "length data \<le> 59" and "d < a + 12" and "a \<le> d + 12"
    and "command_find_block (mk_frame (seq_byte (base + of_nat d)) data) m = (r, n, m')"
  shows "(r = 1) = (d = a)" and "mcu_inv base (if d = a then a + 1 else a) m'"
proof -
  let ?b = "mk_frame (seq_byte (base + of_nat d)) data"
  have ok: "block_ok ?b (length data + 5)"
    using frame_prefix [OF assms(2), of "seq_byte (base + of_nat d)" "[]"] by simp
  have b1: "?b ! 1 = seq_byte (base + of_nat d)" by (simp add: mk_frame_def frame_body_def)
  have s: "synced m" "next_sequence m = seq_byte (base + of_nat a)"
    using assms(1) by (simp_all add: mcu_inv_def)
  have eq: "(seq_byte (base + of_nat d) = seq_byte (base + of_nat a)) = (d = a)"
  proof
    assume e: "seq_byte (base + of_nat d) = seq_byte (base + of_nat a)"
    show "d = a"
    proof (cases "a \<le> d")
      case True
      then obtain j where j: "d = a + j" by (auto simp: le_iff_add)
      have "seq_byte (base + of_nat a + of_nat j) = seq_byte (base + of_nat a + of_nat 0)"
        using e by (simp add: j add.assoc)
      then have "j = 0" by (rule seq_byte_inj) (use assms(3) j in simp_all)
      then show ?thesis using j by simp
    next
      case False
      then have "d \<le> a" by simp
      then obtain j where j: "a = d + j" by (auto simp: le_iff_add)
      have "seq_byte (base + of_nat d + of_nat j) = seq_byte (base + of_nat d + of_nat 0)"
        using e by (simp add: j add.assoc)
      then have "j = 0" by (rule seq_byte_inj) (use assms(4) j in simp_all)
      then show ?thesis using j by simp
    qed
  qed simp
  note f = find_block_ok [OF s(1) ok]
  show "(r = 1) = (d = a)"
    using assms(5) unfolding f b1 s(2) Let_def by (auto simp: eq find_block_nak_def split: if_splits)
  have "seq_byte (base + of_nat d + 1) = seq_after (seq_byte (base + of_nat d))" by (simp add: seq_after_byte)
  then show "mcu_inv base (if d = a then a + 1 else a) m'"
    using assms(5) s(1) unfolding f b1 s(2) Let_def eq
    by (auto simp: find_block_nak_def mcu_inv_def synced_def command_sendf_def console_sendf_def seq_after_byte add.assoc
        add.commute [of 1] and.assoc and.left_commute s(2) Let_def split: if_splits)
qed


text \<open>The host's side of each step.\<close>

lemma same_link_inv:
  "same_link h h' \<Longrightarrow> queues_ok h' \<Longrightarrow> host_inv base r sent h \<Longrightarrow> host_inv base r sent h'"
  unfolding host_inv_def same_link_def window_ok_def by auto

lemma moved_inv: "moved h h' \<Longrightarrow> host_inv base r sent h \<Longrightarrow> host_inv base r sent h'"
  using same_link_inv unfolding moved_def by blast

lemma no_wrap_seq:
  assumes "unat base + k < 2 ^ 64"
  shows "unat (base + of_nat k :: u64) = unat base + k"
proof -
  have k: "unat (of_nat k :: u64) = k" using assms by (intro unat_of_nat_small) simp
  have "unat base + unat (of_nat k :: u64) < 2 ^ LENGTH(64)" unfolding k using assms by simp
  then have "unat (base + of_nat k) = unat base + unat (of_nat k :: u64)" by (rule unat_add_lem [THEN iffD1])
  then show ?thesis unfolding k .
qed

lemma host_sends:
  assumes "host_inv base r sent h"
    and "\<not> (of_nat MAX_PENDING_BLOCKS \<le> sq_send_seq h - sq_receive_seq h \<and> sq_receive_seq h \<noteq> - 1)"
    and "unat base + length sent < 2 ^ 64 - 64"
    and "build_and_send_command h = (Inr b, h')"
  obtains data where "length data \<le> 59" and "b = mk_frame (seq_byte (base + of_nat (length sent))) data"
    and "host_inv base r (sent @ [b]) h'"
proof -
  have w: "window_ok h" "queues_ok h" "sq_receive_seq h = base + of_nat r" "r \<le> length sent"
    and ps: "map qm_payload (sq_sent_queue h) = drop r sent"
    and idle: "sq_need_sync h = 0" "sq_input h = []"
    using assms(1) by (simp_all add: host_inv_def)
  have l: "length (sq_sent_queue h) = length sent - r" using host_window [OF assms(1)] by simp
  have seq: "sq_send_seq h = base + of_nat (length sent)"
    using w(1,3,4) l by (simp add: window_ok_def of_nat_diff)
  obtain ts sq1 h1 out where b: "length (ts_data ts) \<le> 59"
      "build_and_send_command h = (Inr (mk_frame (seq_byte (sq_send_seq h)) (ts_data ts)), h1)"
      "qm_len out = int (length (ts_data ts)) + 5" "qm_payload out = mk_frame (seq_byte (sq_send_seq h)) (ts_data ts)"
      "sq_sent_queue h1 = sq_sent_queue h @ [out]" "sq_send_seq h1 = sq_send_seq h + 1"
      "sq_receive_seq h1 = sq_receive_seq h"
      "sq_need_ack_bytes h1 = sq_need_ack_bytes h + int (length (ts_data ts)) + 5"
      "sq_input h1 = sq_input h" "sq_need_sync h1 = sq_need_sync h" "queues_ok h1"
    by (rule build_and_send_block [OF w(2)])
  have h': "h' = h1" "b = mk_frame (seq_byte (base + of_nat (length sent))) (ts_data ts)"
    using b(2) assms(4) seq by simp_all
  have room: "length (sq_sent_queue h) < 12"
  proof -
    have "unat (base + of_nat (r + 1)) = unat base + (r + 1)" using assms(3) w(4) by (intro no_wrap_seq) simp
    then have "base + of_nat (r + 1) \<noteq> 0" by auto
    then have nm: "sq_receive_seq h \<noteq> - 1" unfolding w(3) by (auto simp: algebra_simps)
    have "sq_send_seq h - sq_receive_seq h = of_nat (length (sq_sent_queue h))"
      using w(1) by (simp add: window_ok_def)
    then have "\<not> (of_nat 12 :: u64) \<le> of_nat (length (sq_sent_queue h))"
      using assms(2) nm by (simp add: MAX_PENDING_BLOCKS_def)
    moreover have "length (sq_sent_queue h) \<le> 12" using w(1) by (simp add: window_ok_def MAX_PENDING_BLOCKS_def)
    ultimately show ?thesis by (cases "length (sq_sent_queue h) = 12") auto
  qed
  have "window_ok h1"
  proof -
    have "\<exists>data. length data \<le> 59 \<and> qm_len (sq_sent_queue h1 ! i) = int (length data) + 5 \<and>
        qm_payload (sq_sent_queue h1 ! i) = mk_frame (seq_byte (sq_receive_seq h1 + of_nat i)) data"
      if "i < length (sq_sent_queue h1)" for i
    proof (cases "i < length (sq_sent_queue h)")
      case True
      then show ?thesis using w(1) by (simp add: window_ok_def b(5,7) nth_append)
    next
      case False
      then have i: "i = length (sq_sent_queue h)" using that b(5) by simp
      then have "sq_receive_seq h1 + of_nat i = sq_send_seq h" using w(1) by (simp add: window_ok_def b(7))
      then show ?thesis using b(1,3,4) by (intro exI [of _ "ts_data ts"]) (simp add: i b(5))
    qed
    then show ?thesis
      using w(1) room unfolding window_ok_def by (simp add: b(3,5-8) MAX_PENDING_BLOCKS_def)
  qed
  then have "host_inv base r (sent @ [b]) h'"
    using w(3,4) ps idle by (simp add: host_inv_def h' b(4,5,7,9-11) seq)
  then show thesis using that b(1) h'(2) by blast
qed

lemma host_resends:
  assumes "host_inv base r sent h" and "retransmit_event h = (Inr (), h')"
  shows "host_inv base r sent h'"
proof -
  have "same_link h (snd (retransmit_event h))" "queues_ok (snd (retransmit_event h)) = queues_ok h"
    by (simp_all add: retransmit_event_def do_write_def same_link_def queues_ok_def Let_def)
  then have "same_link h h'" "queues_ok h'" using assms by (simp_all add: host_inv_def)
  then show ?thesis by (rule same_link_inv [OF _ _ assms(1)])
qed

lemma host_acked:
  assumes "host_inv base r sent h" and "r \<le> u" and "u \<le> length sent"
    and "unat base + length sent < 2 ^ 64 - 64"
  obtains h' where "input_event 0 (Some (1, mk_frame (seq_byte (base + of_nat u)) [])) h = (Inr (), h')"
    and "host_inv base u sent h'"
proof -
  let ?b = "mk_frame (seq_byte (base + of_nat u)) []"
  have w: "window_ok h" "queues_ok h" "sq_receive_seq h = base + of_nat r" "r \<le> length sent"
    and ps: "map qm_payload (sq_sent_queue h) = drop r sent"
    and idle: "sq_need_sync h = 0" "sq_input h = []"
    using assms(1) by (simp_all add: host_inv_def)
  let ?h = "h\<lparr>sq_input := ?b\<rparr>"
  have ok: "block_ok ?b 5" using frame_prefix [of "[]" "seq_byte (base + of_nat u)" "[]"] by simp
  have run: "input_event 0 (Some (1, ?b)) h = input_loop ?h" using idle by (simp add: input_event_def)
  have c: "msgblock_check 0 ?b = (5, 0)" using check_value [OF ok] by simp
  have sync: "?h\<lparr>sq_need_sync := 0\<rparr> = ?h" using idle by simp
  have e1: "window_ok ?h" using w(1) by (simp add: window_ok_def)
  have r64: "unat (sq_receive_seq ?h) < 2 ^ 64 - 32"
    using no_wrap_seq [of base r] assms(4) w(3,4) by simp
  have "base + of_nat u = sq_receive_seq h + of_nat (u - r)" using w(3) assms(2) by (simp add: of_nat_diff)
  then have e2: "sq_input ?h ! 1 = seq_byte (sq_receive_seq ?h + of_nat (u - r))"
    by (simp add: mk_frame_def frame_body_def)
  have e3: "u - r \<le> length (sq_sent_queue ?h)" using host_window [OF assms(1)] assms(3) by simp
  obtain h1 where h1: "handle_message 5 ?h = (Inr (), h1)" "window_ok h1"
    "sq_sent_queue h1 = drop (u - r) (sq_sent_queue h)" "sq_receive_seq h1 = sq_receive_seq h + of_nat (u - r)"
    "same_queues ?h h1"
    using handle_message_ack [OF e1 r64 e2 e3, of 5] by (auto simp: message_consts)
  have i1: "sq_input h1 = ?b" "sq_need_sync h1 = 0" using h1(5) idle by (simp_all add: same_queues_def)
  let ?h2 = "h1\<lparr>sq_input := []\<rparr>"
  have empty: "msgblock_check 0 [] = (0, 0)" by (simp add: msgblock_check_def message_consts)
  have d5: "drop 5 ?b = []" by simp
  have "input_loop ?h = input_loop ?h2"
    by (subst input_loop.simps) (simp add: c idle sync Let_def h1(1) i1)
  also have "\<dots> = (Inr (), ?h2\<lparr>sq_need_sync := 0\<rparr>)"
    by (subst input_loop.simps) (simp add: i1 empty Let_def)
  finally have run': "input_event 0 (Some (1, ?b)) h = (Inr (), ?h2\<lparr>sq_need_sync := 0\<rparr>)" using run by simp
  let ?h' = "?h2\<lparr>sq_need_sync := 0\<rparr>"
  have "window_ok ?h'" using h1(2) by (simp add: window_ok_def)
  moreover have "queues_ok ?h'" using h1(5) w(2) by (simp add: same_queues_def queues_ok_def)
  moreover have "map qm_payload (drop (u - r) (sq_sent_queue h)) = drop u sent"
    using ps assms(2) by (simp add: drop_map [symmetric])
  ultimately have "host_inv base u sent ?h'"
    using assms(2,3) w(3) h1(3,4) by (simp add: host_inv_def of_nat_diff)
  then show thesis using that run' by blast
qed

section \<open>The steps of the link\<close>

lemma down_append:
  assumes "down_inv a sent down" and "\<forall>d \<in> set ds. d < length sent \<and> length sent \<le> d + 12" and "a \<le> length sent"
    and "sorted_wrt (\<lambda>x y. x < y + 12) ds"
  shows "down_inv a sent (down @ map ((!) sent) ds)"
proof -
  obtain es where es: "down = map ((!) sent) es" "\<forall>d \<in> set es. d < length sent \<and> a \<le> d + 12"
      "sorted_wrt (\<lambda>x y. x < y + 12) es"
    using assms(1) unfolding down_inv_def by blast
  show ?thesis
    unfolding down_inv_def
    using es assms(2-4) by (intro exI [of _ "es @ ds"]) (fastforce simp: sorted_wrt_append)
qed

lemma down_extend: "down_inv a sent down \<Longrightarrow> down_inv a (sent @ [b]) down"
  unfolding down_inv_def
proof (elim exE conjE)
  fix ds assume "down = map ((!) sent) ds" "\<forall>d \<in> set ds. d < length sent \<and> a \<le> d + 12"
    "sorted_wrt (\<lambda>x y. x < y + 12) ds"
  then show "\<exists>ds. down = map ((!) (sent @ [b])) ds \<and> (\<forall>d \<in> set ds. d < length (sent @ [b]) \<and> a \<le> d + 12) \<and>
      sorted_wrt (\<lambda>x y. x < y + 12) ds"
    by (intro exI [of _ ds]) (auto simp: nth_append)
qed

lemma map_split:
  assumes "map f ds = xs @ b # ys"
  obtains us v vs where "ds = us @ v # vs" and "xs = map f us" and "ys = map f vs"
proof -
  obtain us ws where w: "ds = us @ ws" "xs = map f us" "map f ws = b # ys"
    using assms by (auto simp: map_eq_append_conv)
  then obtain v vs where "ws = v # vs" "ys = map f vs" by (cases ws) auto
  then show thesis using that w by blast
qed

lemma down_lose:
  assumes "down_inv a sent (xs @ b # ys)"
  shows "down_inv a sent (xs @ ys)"
proof -
  obtain ds where ds: "xs @ b # ys = map ((!) sent) ds" "\<forall>d \<in> set ds. d < length sent \<and> a \<le> d + 12"
      "sorted_wrt (\<lambda>x y. x < y + 12) ds"
    using assms unfolding down_inv_def by blast
  obtain us v vs where e: "ds = us @ v # vs" "xs = map ((!) sent) us" "ys = map ((!) sent) vs"
    by (rule map_split [OF ds(1) [symmetric]])
  show ?thesis
    unfolding down_inv_def using ds(2,3) e by (intro exI [of _ "us @ vs"]) (auto simp: sorted_wrt_append)
qed

lemma up_lose:
  assumes "up_inv base r a (xs @ b # ys)"
  shows "up_inv base r a (xs @ ys)"
proof -
  let ?f = "\<lambda>u. mk_frame (seq_byte (base + of_nat u)) []"
  obtain ds where ds: "xs @ b # ys = map ?f ds" "sorted ds" "\<forall>u \<in> set ds. r \<le> u \<and> u \<le> a"
    using assms unfolding up_inv_def by blast
  obtain us v vs where e: "ds = us @ v # vs" "xs = map ?f us" "ys = map ?f vs"
    by (rule map_split [OF ds(1) [symmetric]])
  show ?thesis
    unfolding up_inv_def using ds(2,3) e by (intro exI [of _ "us @ vs"]) (auto simp: sorted_append)
qed

lemma up_answer:
  assumes "up_inv base r a up" and "a \<le> a'" and "r \<le> a"
  shows "up_inv base r a' (up @ [mk_frame (seq_byte (base + of_nat a')) []])"
proof -
  obtain us where "up = map (\<lambda>u. mk_frame (seq_byte (base + of_nat u)) []) us" "sorted us" "\<forall>u \<in> set us. r \<le> u \<and> u \<le> a"
    using assms(1) unfolding up_inv_def by blast
  then show ?thesis
    unfolding up_inv_def using assms(2,3) by (intro exI [of _ "us @ [a']"]) (fastforce simp: sorted_append)
qed

lemma deliver_inv:
  assumes "link_inv base r a l" and "lk_down l = b # bs" and "command_find_block b (lk_mcu l) = (s, n, m)"
  shows "\<exists>a'. link_inv base r a' (l\<lparr>lk_mcu := m, lk_down := bs, lk_up := lk_up l @ [mk_frame (next_sequence m) []],
      lk_accepted := lk_accepted l @ (if s = 1 then [b] else [])\<rparr>)"
proof -
  let ?sent = "lk_sent l"
  have h: "host_inv base r ?sent (lk_host l)" and mc: "mcu_inv base a (lk_mcu l)"
    and bi: "blocks_inv base ?sent" and ra: "r \<le> a" "a \<le> length ?sent" "lk_accepted l = take a ?sent"
    and up: "up_inv base r a (lk_up l)"
    using assms(1) by (simp_all add: link_inv_def)
  have "down_inv a ?sent (b # bs)" using assms(1,2) by (simp add: link_inv_def)
  then obtain ds where ds: "b # bs = map ((!) ?sent) ds" "\<forall>d \<in> set ds. d < length ?sent \<and> a \<le> d + 12"
      "sorted_wrt (\<lambda>x y. x < y + 12) ds"
    unfolding down_inv_def by (elim exE conjE)
  from ds(1) obtain d es where d: "ds = d # es" "b = ?sent ! d" "bs = map ((!) ?sent) es" by (cases ds) auto
  have dl: "d < length ?sent" "a \<le> d + 12" using ds(2) d(1) by auto
  then have da: "d < a + 12" using host_window [OF h] ra by linarith
  obtain data where data: "length data \<le> 59" "b = mk_frame (seq_byte (base + of_nat d)) data"
    using bi dl(1) d(2) unfolding blocks_inv_def by blast
  note rec = mcu_receives [OF mc data(1) da dl(2) assms(3) [unfolded data(2)]]
  define a' where "a' = (if d = a then a + 1 else a)"
  have a': "a \<le> a'" "a' \<le> length ?sent" using dl(1) ra(2) by (auto simp: a'_def)
  have nx: "next_sequence m = seq_byte (base + of_nat a')" and mc': "mcu_inv base a' m"
    using rec(2) by (simp_all add: a'_def mcu_inv_def)
  have acc: "lk_accepted l @ (if s = 1 then [b] else []) = take a' ?sent"
    using rec(1) ra(3) dl(1) d(2) by (auto simp: a'_def take_Suc_conv_app_nth)
  have dn: "down_inv a' ?sent bs"
    unfolding down_inv_def using ds(2,3) d(1,3) by (intro exI [of _ es]) (auto simp: a'_def)
  have upn: "up_inv base r a' (lk_up l @ [mk_frame (next_sequence m) []])"
    unfolding nx by (rule up_answer [OF up a'(1) ra(1)])
  have "r \<le> a'" using ra(1) a'(1) by simp
  then have "link_inv base r a' (l\<lparr>lk_mcu := m, lk_down := bs, lk_up := lk_up l @ [mk_frame (next_sequence m) []],
      lk_accepted := lk_accepted l @ (if s = 1 then [b] else [])\<rparr>)"
    using h bi mc' dn upn a'(2) acc by (simp add: link_inv_def)
  then show ?thesis by blast
qed

lemma ack_inv:
  assumes "link_inv base r a l" and "lk_up l = c # as" and "input_event 0 (Some (1, c)) (lk_host l) = (Inr (), h)"
    and "unat base + length (lk_sent l) < 2 ^ 64 - 64"
  shows "\<exists>u. r \<le> u \<and> u \<le> a \<and> c = mk_frame (seq_byte (base + of_nat u)) [] \<and> link_inv base u a (l\<lparr>lk_host := h, lk_up := as\<rparr>)"
proof -
  have inv: "host_inv base r (lk_sent l) (lk_host l)" "a \<le> length (lk_sent l)" "up_inv base r a (c # as)"
    using assms(1,2) by (simp_all add: link_inv_def)
  obtain us where us: "c # as = map (\<lambda>u. mk_frame (seq_byte (base + of_nat u)) []) us" "sorted us" "\<forall>u \<in> set us. r \<le> u \<and> u \<le> a"
    using inv(3) unfolding up_inv_def by (elim exE conjE)
  then obtain u vs where u: "us = u # vs" "c = mk_frame (seq_byte (base + of_nat u)) []"
      "as = map (\<lambda>u. mk_frame (seq_byte (base + of_nat u)) []) vs" by (cases us) auto
  have ub: "r \<le> u" "u \<le> a" using us(3) u(1) by auto
  then have "u \<le> length (lk_sent l)" using inv(2) by simp
  then have "\<exists>h'. input_event 0 (Some (1, c)) (lk_host l) = (Inr (), h') \<and> host_inv base u (lk_sent l) h'"
    unfolding u(2) by (rule host_acked [OF inv(1) ub(1) _ assms(4)]) blast
  then have "host_inv base u (lk_sent l) h" using assms(3) by auto
  moreover have "up_inv base u a as"
    unfolding up_inv_def using us(2,3) u(1,3) by (intro exI [of _ vs]) auto
  ultimately have "link_inv base u a (l\<lparr>lk_host := h, lk_up := as\<rparr>)" using assms(1) ub(2) by (simp add: link_inv_def)
  then show ?thesis using ub u(2) by blast
qed

lemma inv_exI: "link_inv base r a l \<Longrightarrow> \<exists>r a. link_inv base r a l"
  by blast

lemma link_step_inv:
  assumes "link_step l l'" and "link_inv base r a l" and "unat base + length (lk_sent l) < 2 ^ 64 - 64"
  shows "\<exists>r' a'. link_inv base r' a' l'"
  using assms(1)
proof cases
  case (L_batch msgs q)
  have "queues_ok (lk_host l)" using assms(2) by (simp add: link_inv_def host_inv_def)
  note b = send_batch_ok [OF this L_batch(2), of q]
  have "host_inv base r (lk_sent l) (lk_host l)" using assms(2) by (simp add: link_inv_def)
  then have "host_inv base r (lk_sent l) (serialqueue_send_batch q msgs (lk_host l))"
    by (rule same_link_inv [OF b(2,1)])
  then show ?thesis using assms(2) by (intro inv_exI [of base r a], simp add: L_batch link_inv_def)
next
  case (L_wait tc t h)
  have "queues_ok (lk_host l)" using assms(2) by (simp add: link_inv_def host_inv_def)
  from moved_inv [OF check_send_moves(1) [OF this L_wait(2)]]
  show ?thesis using assms(2) by (intro inv_exI [of base r a], simp add: L_wait link_inv_def)
next
  case (L_send tc h1 b h2)
  have inv: "host_inv base r (lk_sent l) (lk_host l)" "down_inv a (lk_sent l) (lk_down l)"
      "blocks_inv base (lk_sent l)" "r \<le> a" "a \<le> length (lk_sent l)" "lk_accepted l = take a (lk_sent l)"
    using assms(2) by (simp_all add: link_inv_def)
  have "queues_ok (lk_host l)" using inv(1) by (simp add: host_inv_def)
  note c = check_send_moves [OF this L_send(2)]
  have wf: "\<not> (of_nat MAX_PENDING_BLOCKS \<le> sq_send_seq h1 - sq_receive_seq h1 \<and> sq_receive_seq h1 \<noteq> - 1)"
    using c by (simp add: moved_def same_link_def window_full_def)
  obtain data where d: "length data \<le> 59" "b = mk_frame (seq_byte (base + of_nat (length (lk_sent l)))) data"
      "host_inv base r (lk_sent l @ [b]) h2"
    by (rule host_sends [OF moved_inv [OF c(1) inv(1)] wf assms(3) L_send(3)])
  have "down_inv a (lk_sent l @ [b]) (lk_down l @ [b])"
    using down_append [OF down_extend [OF inv(2), of b], of "[length (lk_sent l)]"] inv(5) by simp
  moreover have "blocks_inv base (lk_sent l @ [b])"
    using inv(3) d(1,2) by (auto simp: blocks_inv_def nth_append less_Suc_eq)
  ultimately show ?thesis
    using assms(2) d(3) inv by (intro inv_exI [of base r a], simp add: L_send link_inv_def)
next
  case (L_resend h)
  have inv: "host_inv base r (lk_sent l) (lk_host l)" "down_inv a (lk_sent l) (lk_down l)"
      "r \<le> a" "a \<le> length (lk_sent l)"
    using assms(2) by (simp_all add: link_inv_def)
  note e = unacked_blocks [OF inv(1)]
  have w: "length (lk_sent l) \<le> r + 12" using host_window [OF inv(1)] by simp
  have "down_inv a (lk_sent l) (lk_down l @ map qm_payload (sq_sent_queue (lk_host l)))"
    unfolding e by (rule down_append [OF inv(2) _ inv(4)])
      (use w in \<open>auto simp: sorted_wrt_iff_nth_less\<close>)
  then show ?thesis
    using assms(2) host_resends [OF inv(1) L_resend(2)]
    by (intro inv_exI [of base r a], simp add: L_resend link_inv_def)
next
  case (L_lose_down xs b ys)
  then show ?thesis using assms(2) down_lose [of a "lk_sent l" xs b ys]
    by (intro inv_exI [of base r a], simp add: link_inv_def)
next
  case (L_deliver b bs s n m)
  then show ?thesis using deliver_inv [OF assms(2) L_deliver(2,3)] by blast
next
  case (L_lose_up xs b ys)
  then show ?thesis using assms(2) up_lose [of base r a xs b ys]
    by (intro inv_exI [of base r a], simp add: link_inv_def)
next
  case (L_ack c as h)
  then show ?thesis using ack_inv [OF assms(2) L_ack(2,3) assms(3)] by blast
qed

definition link_start :: "link \<Rightarrow> bool" where
  "link_start l \<longleftrightarrow> window_ok (lk_host l) \<and> queues_ok (lk_host l) \<and> sq_sent_queue (lk_host l) = [] \<and>
    sq_need_sync (lk_host l) = 0 \<and> sq_input (lk_host l) = [] \<and> synced (lk_mcu l) \<and>
    next_sequence (lk_mcu l) = seq_byte (sq_send_seq (lk_host l)) \<and>
    lk_down l = [] \<and> lk_up l = [] \<and> lk_sent l = [] \<and> lk_accepted l = []"

lemma link_start_inv: "link_start l \<Longrightarrow> link_inv (sq_send_seq (lk_host l)) 0 0 l"
  by (auto simp: link_start_def link_inv_def host_inv_def mcu_inv_def down_inv_def up_inv_def blocks_inv_def window_ok_def)

lemma link_step_sent: "link_step l l' \<Longrightarrow> length (lk_sent l) \<le> length (lk_sent l')"
  by (induction rule: link_step.induct) simp_all

lemma link_steps_inv:
  assumes "link_step\<^sup>*\<^sup>* l0 l" and "link_inv base r0 a0 l0" and "unat base + length (lk_sent l) < 2 ^ 64 - 64"
  shows "\<exists>r a. link_inv base r a l"
  using assms
proof (induction rule: rtranclp_induct)
  case base
  then show ?case by blast
next
  case (step l l')
  have "unat base + length (lk_sent l) < 2 ^ 64 - 64" using link_step_sent [OF step.hyps(2)] step.prems(2) by simp
  then obtain r a where "link_inv base r a l" using step.IH step.prems(1) by blast
  then show ?case using link_step_inv [OF step.hyps(2)] \<open>unat base + length (lk_sent l) < 2 ^ 64 - 64\<close> by blast
qed

section \<open>Progress\<close>

text \<open>
  The sync byte in front of a retransmission is not among the blocks on the wire: a synchronised receiver
  drops it and is otherwise unchanged.
\<close>

lemma leading_sync_dropped: "synced m \<Longrightarrow> 5 \<le> length buf \<Longrightarrow> command_find_block (MESSAGE_SYNC # buf) m = (- 1, 1, m)"
  by (simp add: command_find_block_def find_block_error_def synced_def message_consts)

lemma concat_length_le: "(\<forall>x \<in> set xs. length x \<le> k) \<Longrightarrow> length (concat xs) \<le> k * length xs"
  by (induction xs) auto

lemma resend_possible:
  assumes "host_inv base r sent h"
  obtains h' where "retransmit_event h = (Inr (), h')"
proof -
  have w: "window_ok h" using assms by (simp add: host_inv_def)
  have "length x \<le> 64" if "x \<in> set (map qm_payload (sq_sent_queue h))" for x
  proof -
    obtain i where "i < length (sq_sent_queue h)" "x = qm_payload (sq_sent_queue h ! i)"
      using \<open>x \<in> _\<close> by (auto simp: in_set_conv_nth)
    then show ?thesis using w unfolding window_ok_def by fastforce
  qed
  then have "length (concat (map qm_payload (sq_sent_queue h))) \<le> 64 * length (map qm_payload (sq_sent_queue h))"
    by (intro concat_length_le) blast
  also have "\<dots> \<le> 64 * 12" using w by (simp add: window_ok_def MAX_PENDING_BLOCKS_def)
  finally have "fst (retransmit_event h) = Inr ()"
    by (simp add: retransmit_event_def Let_def message_consts MAX_PENDING_BLOCKS_def)
  then show thesis using that by (metis prod.collapse)
qed

text \<open>Steps of a wire that loses nothing: what is on the way arrives.\<close>

inductive undisturbed :: "link \<Rightarrow> link \<Rightarrow> bool" where
  U_deliver: "lk_down l = b # bs \<Longrightarrow> command_find_block b (lk_mcu l) = (r, n, m) \<Longrightarrow>
    undisturbed l (l\<lparr>lk_mcu := m, lk_down := bs, lk_up := lk_up l @ [mk_frame (next_sequence m) []],
      lk_accepted := lk_accepted l @ (if r = 1 then [b] else [])\<rparr>)"
| U_ack: "lk_up l = a # as \<Longrightarrow> input_event 0 (Some (1, a)) (lk_host l) = (Inr (), h) \<Longrightarrow>
    undisturbed l (l\<lparr>lk_host := h, lk_up := as\<rparr>)"

lemma undisturbed_step: "undisturbed l l' \<Longrightarrow> link_step l l'"
proof (induction rule: undisturbed.induct)
  case (U_deliver l b bs r n m)
  then show ?case by (rule L_deliver)
next
  case (U_ack l a as h)
  then show ?case by (rule L_ack)
qed

text \<open>Every step uses up one of the transports that are left: a block down and its answer, or an answer.\<close>

definition in_flight :: "link \<Rightarrow> nat" where
  "in_flight l = 2 * length (lk_down l) + length (lk_up l)"

lemma undisturbed_flight: "undisturbed l l' \<Longrightarrow> in_flight l = Suc (in_flight l')"
  by (induction rule: undisturbed.induct) (simp_all add: in_flight_def)

text \<open>
  The blocks that are not accepted yet are on the way, after what was sent before; and when all of them
  have arrived the last answer on the way up confirms all that is accepted.
\<close>

definition outstanding :: "'a list \<Rightarrow> nat \<Rightarrow> 'a list \<Rightarrow> nat \<Rightarrow> bool" where
  "outstanding sent a down k \<longleftrightarrow> k \<le> a \<and> length sent \<le> k + 12 \<and> (\<exists>pre. down = pre @ map ((!) sent) [k..<length sent])"

definition confirmed :: "u64 \<Rightarrow> nat \<Rightarrow> nat \<Rightarrow> u8 list list \<Rightarrow> bool" where
  "confirmed base r a up \<longleftrightarrow> r = a \<or> up \<noteq> [] \<and> last up = mk_frame (seq_byte (base + of_nat a)) []"

definition recovering :: "u64 \<Rightarrow> link \<Rightarrow> bool" where
  "recovering base l \<longleftrightarrow> (\<exists>r a k. link_inv base r a l \<and> outstanding (lk_sent l) a (lk_down l) k \<and>
    (k < length (lk_sent l) \<or> confirmed base r a (lk_up l)))"

lemma seq_byte_close:
  assumes "seq_byte (base + of_nat u) = seq_byte (base + of_nat a)" and "u \<le> a" and "a \<le> u + 12"
  shows "u = a"
proof -
  obtain j where j: "a = u + j" using assms(2) by (auto simp: le_iff_add)
  have "seq_byte (base + of_nat u + of_nat j) = seq_byte (base + of_nat u + of_nat 0)"
    using assms(1) by (simp add: j add.assoc)
  then have "j = 0" by (rule seq_byte_inj) (use assms(3) j in simp_all)
  then show ?thesis using j by simp
qed

lemma outstanding_next:
  assumes "outstanding sent a (b # bs) k" and "a \<le> a'"
    and "k < length sent \<Longrightarrow> b = sent ! k \<Longrightarrow> k = a \<Longrightarrow> a' = Suc a"
  shows "\<exists>k'. outstanding sent a' bs k'"
proof -
  obtain pre where p: "b # bs = pre @ map ((!) sent) [k..<length sent]" "k \<le> a" "length sent \<le> k + 12"
    using assms(1) unfolding outstanding_def by blast
  show ?thesis
  proof (cases pre)
    case (Cons q ps)
    then have "outstanding sent a' bs k" using p assms(2) unfolding outstanding_def by auto
    then show ?thesis by blast
  next
    case Nil
    then have kn: "k < length sent" using p(1) by (cases "k < length sent") simp_all
    then have b: "b = sent ! k" "bs = map ((!) sent) [Suc k..<length sent]" using p(1) Nil by (simp_all add: upt_conv_Cons)
    have "Suc k \<le> a'" using assms(2) assms(3) [OF kn b(1)] p(2) by (cases "k = a") simp_all
    then have "outstanding sent a' bs (Suc k)" using p(3) b(2) unfolding outstanding_def by simp
    then show ?thesis by blast
  qed
qed

lemma delivered_index:
  assumes "link_inv base r a l" and "lk_down l = b # bs" and "command_find_block b (lk_mcu l) = (s, n, m)"
    and "a < length (lk_sent l)" and "b = lk_sent l ! a"
  shows "s = 1"
proof -
  have i: "mcu_inv base a (lk_mcu l)" "blocks_inv base (lk_sent l)"
    using assms(1) by (simp_all add: link_inv_def)
  obtain data where d: "length data \<le> 59" "b = mk_frame (seq_byte (base + of_nat a)) data"
    using i(2) assms(4,5) unfolding blocks_inv_def by blast
  show ?thesis using mcu_receives(1) [OF i(1) d(1) _ _ assms(3) [unfolded d(2)]] by simp
qed

lemma deliver_recovering:
  assumes "recovering base l" and "lk_down l = b # bs" and "command_find_block b (lk_mcu l) = (s, n, m)"
  shows "recovering base (l\<lparr>lk_mcu := m, lk_down := bs, lk_up := lk_up l @ [mk_frame (next_sequence m) []],
      lk_accepted := lk_accepted l @ (if s = 1 then [b] else [])\<rparr>)" (is "recovering base ?l")
proof -
  obtain r a k where inv: "link_inv base r a l" "outstanding (lk_sent l) a (b # bs) k"
    using assms(1,2) unfolding recovering_def by auto
  obtain a' where a': "link_inv base r a' ?l" using deliver_inv [OF inv(1) assms(2,3)] by blast
  have t: "take a' (lk_sent l) = take a (lk_sent l) @ (if s = 1 then [b] else [])" "a' \<le> length (lk_sent l)"
    "next_sequence m = seq_byte (base + of_nat a')" "a \<le> length (lk_sent l)"
    using a' inv(1) by (simp_all add: link_inv_def mcu_inv_def)
  have aa: "a' = a + (if s = 1 then 1 else 0)"
    using arg_cong [OF t(1), of length] t(2,4) by (simp split: if_splits)
  obtain k' where "outstanding (lk_sent l) a' bs k'"
    using outstanding_next [OF inv(2), of a'] delivered_index [OF inv(1) assms(2,3)] aa by auto
  then have "outstanding (lk_sent ?l) a' (lk_down ?l) k'" by simp
  moreover have "confirmed base r a' (lk_up ?l)" using t(3) by (simp add: confirmed_def)
  ultimately show ?thesis unfolding recovering_def using a' by blast
qed

lemma ack_recovering:
  assumes "recovering base l" and "lk_up l = c # as" and "input_event 0 (Some (1, c)) (lk_host l) = (Inr (), h)"
    and "unat base + length (lk_sent l) < 2 ^ 64 - 64"
  shows "recovering base (l\<lparr>lk_host := h, lk_up := as\<rparr>)" (is "recovering base ?l")
proof -
  obtain r a k where inv: "link_inv base r a l" "outstanding (lk_sent l) a (lk_down l) k"
      "k < length (lk_sent l) \<or> confirmed base r a (c # as)"
    using assms(1,2) unfolding recovering_def by auto
  obtain u where u: "r \<le> u" "u \<le> a" "c = mk_frame (seq_byte (base + of_nat u)) []" "link_inv base u a ?l"
    using ack_inv [OF inv(1) assms(2-4)] by blast
  have w: "length (lk_sent l) \<le> r + 12" "a \<le> length (lk_sent l)"
    using inv(1) host_window [of base r "lk_sent l" "lk_host l"] by (simp_all add: link_inv_def)
  have "confirmed base u a as" if "confirmed base r a (c # as)"
  proof (cases "as = [] \<and> u \<noteq> a")
    case True
    then have "last (c # as) = mk_frame (seq_byte (base + of_nat a)) []" using that u(1,2) by (auto simp: confirmed_def)
    then have "seq_byte (base + of_nat u) = seq_byte (base + of_nat a)" using True u(3) by (simp add: mk_frame_def frame_body_def)
    then have "u = a" using seq_byte_close u(1,2) w by force
    then show ?thesis by (simp add: confirmed_def)
  next
    case False
    then show ?thesis using that u(1,2) by (auto simp: confirmed_def)
  qed
  then have "k < length (lk_sent ?l) \<or> confirmed base u a (lk_up ?l)" using inv(3) by auto
  moreover have "outstanding (lk_sent ?l) a (lk_down ?l) k" using inv(2) by simp
  ultimately show ?thesis unfolding recovering_def using u(4) by blast
qed

lemma undisturbed_sent: "undisturbed l l' \<Longrightarrow> lk_sent l' = lk_sent l"
  by (induction rule: undisturbed.induct) simp_all

lemma undisturbed_bound: "(undisturbed ^^ n) l l' \<Longrightarrow> n \<le> in_flight l"
proof (induction n arbitrary: l)
  case (Suc n)
  obtain l1 where "undisturbed l l1" "(undisturbed ^^ n) l1 l'" using relpowp_Suc_E2 [OF Suc.prems] by blast
  then show ?case using Suc.IH undisturbed_flight [of l l1] by force
qed simp

lemma undisturbed_recovering:
  assumes "undisturbed l l'" and "recovering base l" and "unat base + length (lk_sent l) < 2 ^ 64 - 64"
  shows "recovering base l'"
  using assms(1)
proof cases
  case (U_deliver b bs r n m)
  show ?thesis unfolding U_deliver(1) by (rule deliver_recovering [OF assms(2) U_deliver(2,3)])
next
  case (U_ack a as h)
  show ?thesis unfolding U_ack(1) by (rule ack_recovering [OF assms(2) U_ack(2,3) assms(3)])
qed

lemma ack_possible:
  assumes "link_inv base r a l" and "lk_up l = c # as" and "unat base + length (lk_sent l) < 2 ^ 64 - 64"
  obtains h where "input_event 0 (Some (1, c)) (lk_host l) = (Inr (), h)"
proof -
  have i: "host_inv base r (lk_sent l) (lk_host l)" "a \<le> length (lk_sent l)" "up_inv base r a (c # as)"
    using assms(1,2) by (simp_all add: link_inv_def)
  obtain us where us: "c # as = map (\<lambda>u. mk_frame (seq_byte (base + of_nat u)) []) us" "\<forall>u \<in> set us. r \<le> u \<and> u \<le> a"
    using i(3) unfolding up_inv_def by (elim exE conjE)
  then obtain u where u: "c = mk_frame (seq_byte (base + of_nat u)) []" "r \<le> u" "u \<le> a" by (cases us) auto
  then have "u \<le> length (lk_sent l)" using i(2) by simp
  then show thesis using that unfolding u(1) by (rule host_acked [OF i(1) u(2) _ assms(3)])
qed

lemma undisturbed_progress:
  assumes "recovering base l" and "in_flight l = Suc n" and "unat base + length (lk_sent l) < 2 ^ 64 - 64"
  shows "\<exists>l'. undisturbed l l'"
proof (cases "lk_down l")
  case (Cons b bs)
  then show ?thesis using U_deliver [of l b bs] by (metis prod_cases3)
next
  case Nil
  then obtain c as where c: "lk_up l = c # as" using assms(2) by (cases "lk_up l") (auto simp: in_flight_def)
  obtain r a where "link_inv base r a l" using assms(1) unfolding recovering_def by blast
  then obtain h where "input_event 0 (Some (1, c)) (lk_host l) = (Inr (), h)" by (rule ack_possible [OF _ c assms(3)])
  then show ?thesis using U_ack [OF c] by blast
qed

lemma undisturbed_run:
  assumes "recovering base l" and "unat base + length (lk_sent l) < 2 ^ 64 - 64" and "n \<le> in_flight l"
  shows "(\<exists>l'. (undisturbed ^^ n) l l') \<and>
    (\<forall>l'. (undisturbed ^^ n) l l' \<longrightarrow> recovering base l' \<and> lk_sent l' = lk_sent l \<and> in_flight l = n + in_flight l')"
  using assms(3)
proof (induction n)
  case 0
  then show ?case using assms(1) by auto
next
  case (Suc n)
  then obtain l1 where l1: "(undisturbed ^^ n) l l1" by auto
  have all: "recovering base l1 \<and> lk_sent l1 = lk_sent l \<and> in_flight l = n + in_flight l1" if "(undisturbed ^^ n) l l1" for l1
    using Suc that by simp
  have "in_flight l1 = Suc (in_flight l - Suc n)" using all [OF l1] Suc.prems by simp
  then obtain l2 where "undisturbed l1 l2" using undisturbed_progress [of base l1] all [OF l1] assms(2) by auto
  then have "(undisturbed ^^ Suc n) l l2" using l1 by auto
  moreover have "recovering base l' \<and> lk_sent l' = lk_sent l \<and> in_flight l = Suc n + in_flight l'"
    if run: "(undisturbed ^^ Suc n) l l'" for l'
  proof -
    obtain l1 where s: "(undisturbed ^^ n) l l1" "undisturbed l1 l'" using relpowp_Suc_E [OF run] by blast
    show ?thesis
      using all [OF s(1)] undisturbed_flight [OF s(2)] undisturbed_sent [OF s(2)] undisturbed_recovering [OF s(2), of base] assms(2) by simp
  qed
  ultimately show ?case by blast
qed

lemma recovered:
  assumes "recovering base l" and "in_flight l = 0"
  shows "lk_accepted l = lk_sent l \<and> sq_sent_queue (lk_host l) = []"
proof -
  have e: "lk_down l = []" "lk_up l = []" using assms(2) by (simp_all add: in_flight_def)
  obtain r a k where inv: "link_inv base r a l" "outstanding (lk_sent l) a [] k"
      "k < length (lk_sent l) \<or> confirmed base r a []"
    using assms(1) e unfolding recovering_def by auto
  have "\<not> k < length (lk_sent l)" "k \<le> a" using inv(2) by (auto simp: outstanding_def)
  moreover have i: "a \<le> length (lk_sent l)" "lk_accepted l = take a (lk_sent l)" "host_inv base r (lk_sent l) (lk_host l)"
    using inv(1) by (simp_all add: link_inv_def)
  ultimately have "a = length (lk_sent l)" "r = a" using inv(3) by (auto simp: confirmed_def)
  then show ?thesis using i host_window [OF i(3)] unacked_blocks [OF i(3)] by simp
qed

lemma resend_recovering:
  assumes "link_inv base r a l" and "retransmit_event (lk_host l) = (Inr (), h)"
  shows "recovering base (l\<lparr>lk_host := h, lk_down := lk_down l @ map qm_payload (sq_sent_queue (lk_host l))\<rparr>)" (is "recovering base ?l")
proof -
  have i: "host_inv base r (lk_sent l) (lk_host l)" "r \<le> a" "a \<le> length (lk_sent l)" "down_inv a (lk_sent l) (lk_down l)"
    using assms(1) by (simp_all add: link_inv_def)
  note e = unacked_blocks [OF i(1)]
  have w: "length (lk_sent l) \<le> r + 12" using host_window [OF i(1)] by simp
  have "down_inv a (lk_sent l) (lk_down l @ map qm_payload (sq_sent_queue (lk_host l)))"
    unfolding e by (rule down_append [OF i(4) _ i(3)]) (use w in \<open>auto simp: sorted_wrt_iff_nth_less\<close>)
  then have "link_inv base r a ?l" using assms(1) host_resends [OF i(1) assms(2)] by (simp add: link_inv_def)
  moreover have "outstanding (lk_sent ?l) a (lk_down ?l) r" using e i(2) w by (simp add: outstanding_def)
  moreover have "r < length (lk_sent ?l) \<or> confirmed base r a (lk_up ?l)" using i(2,3) by (auto simp: confirmed_def)
  ultimately show ?thesis unfolding recovering_def by blast
qed

text \<open>
  C2: nothing is lost, repeated or reordered.  Whatever blocks and acknowledgements the wire loses,
  and however often the host retransmits, the blocks the micro-controller accepts are the first
  blocks the host has built, each once and in order; every block that left the host's sent queue
  is among them, and at most twelve blocks are unacknowledged.
\<close>

theorem link_delivers_in_order:
  assumes "link_start l0" and "link_step\<^sup>*\<^sup>* l0 l"
    and "unat (sq_send_seq (lk_host l0)) + length (lk_sent l) < 2 ^ 64 - 64"
  shows "\<exists>n. lk_accepted l = take n (lk_sent l) \<and> n \<le> length (lk_sent l) \<and>
    length (lk_sent l) \<le> n + length (sq_sent_queue (lk_host l)) \<and> length (sq_sent_queue (lk_host l)) \<le> 12"
proof -
  obtain r a where inv: "link_inv (sq_send_seq (lk_host l0)) r a l"
    using link_steps_inv [OF assms(2) link_start_inv [OF assms(1)] assms(3)] by blast
  then have "host_inv (sq_send_seq (lk_host l0)) r (lk_sent l) (lk_host l)" by (simp add: link_inv_def)
  from host_window [OF this] inv show ?thesis by (intro exI [of _ a]) (auto simp: link_inv_def)
qed

text \<open>
  C7: the link cannot get stuck.  From every state that can be reached, whatever was lost, one
  retransmission succeeds, and when the wire loses nothing of what is then on the way, every order in which
  the blocks and the acknowledgements are delivered goes on until the last of them (never stopping
  early, after exactly \<open>in_flight\<close> deliveries, a block counting twice because of its answer)
  and ends with the micro-controller having accepted every block built so far and the host knowing it.
\<close>

theorem link_recovers:
  assumes "link_start l0" and "link_step\<^sup>*\<^sup>* l0 l"
    and "unat (sq_send_seq (lk_host l0)) + length (lk_sent l) < 2 ^ 64 - 64"
  shows "\<exists>h l1. retransmit_event (lk_host l) = (Inr (), h) \<and>
    l1 = l\<lparr>lk_host := h, lk_down := lk_down l @ map qm_payload (sq_sent_queue (lk_host l))\<rparr> \<and>
    (\<forall>n l'. (undisturbed ^^ n) l1 l' \<longrightarrow> n \<le> in_flight l1 \<and>
      (if n < in_flight l1 then \<exists>l''. undisturbed l' l''
       else lk_sent l' = lk_sent l \<and> lk_accepted l' = lk_sent l \<and> sq_sent_queue (lk_host l') = []))"
proof -
  let ?base = "sq_send_seq (lk_host l0)"
  obtain r a where inv: "link_inv ?base r a l"
    using link_steps_inv [OF assms(2) link_start_inv [OF assms(1)] assms(3)] by blast
  then obtain h where h: "retransmit_event (lk_host l) = (Inr (), h)"
    using resend_possible [of ?base r "lk_sent l" "lk_host l"] by (auto simp: link_inv_def)
  define l1 where "l1 = l\<lparr>lk_host := h, lk_down := lk_down l @ map qm_payload (sq_sent_queue (lk_host l))\<rparr>"
  have rec: "recovering ?base l1" unfolding l1_def by (rule resend_recovering [OF inv h])
  have sent: "lk_sent l1 = lk_sent l" by (simp add: l1_def)
  have room: "unat ?base + length (lk_sent l1) < 2 ^ 64 - 64" using assms(3) sent by simp
  have "n \<le> in_flight l1 \<and> (if n < in_flight l1 then \<exists>l''. undisturbed l' l''
      else lk_sent l' = lk_sent l \<and> lk_accepted l' = lk_sent l \<and> sq_sent_queue (lk_host l') = [])"
    if run: "(undisturbed ^^ n) l1 l'" for n l'
  proof -
    have le: "n \<le> in_flight l1" by (rule undisturbed_bound [OF run])
    then have l': "recovering ?base l'" "lk_sent l' = lk_sent l" "in_flight l1 = n + in_flight l'"
      using undisturbed_run [OF rec room le] run sent by auto
    have room': "unat ?base + length (lk_sent l') < 2 ^ 64 - 64" using room sent l'(2) by simp
    show ?thesis
    proof (cases "n < in_flight l1")
      case True
      then have "in_flight l' = Suc (in_flight l' - 1)" using l'(3) by simp
      then show ?thesis using undisturbed_progress [OF l'(1) _ room'] True by auto
    next
      case False
      then have "in_flight l' = 0" using le l'(3) by simp
      then show ?thesis using False le recovered [OF l'(1)] l'(2) by simp
    qed
  qed
  then show ?thesis using h l1_def by blast
qed

text \<open>A new link, and a run on it that sends one block with one message.\<close>

definition example_message :: queue_message where
  "example_message = message_alloc\<lparr>qm_len := 1, qm_req_clock := 10\<rparr>"

definition example_link :: link where
  "example_link = \<lparr>lk_host = serialqueue_alloc SQT_UART,
    lk_mcu = idle_command_s\<lparr>next_sequence := seq_byte 1\<rparr>, lk_down = [], lk_up = [], lk_sent = [], lk_accepted = []\<rparr>"

definition example_clocks :: send_clocks where
  "example_clocks = \<lparr>ack_clock = 100, bg_clock = 0, have_freq = False, reqclock_delta = 0\<rparr>"

lemma example_link_start: "link_start example_link"
  by (simp add: link_start_def example_link_def serialqueue_alloc_def window_ok_def queues_ok_def synced_def
      idle_command_s_def idle_board_def board.extend_def cq_empty_def)

lemma example_link_run: "\<exists>l. link_step\<^sup>*\<^sup>* example_link l \<and> length (lk_sent l) = 1"
proof -
  let ?h1 = "serialqueue_send_batch 0 [example_message] (serialqueue_alloc SQT_UART)"
  let ?l1 = "example_link\<lparr>lk_host := ?h1\<rparr>"
  have ok: "list_all qm_ok [example_message]"
    by (simp add: example_message_def qm_ok_def message_alloc_def message_consts MAX_CLOCK_def)
  have q0: "queues_ok (serialqueue_alloc SQT_UART)"
    using example_link_start by (simp add: link_start_def example_link_def)
  have s1: "link_step example_link ?l1"
    using L_batch [OF ok, of example_link 0] by (simp add: example_link_def)
  obtain h2 where c: "check_send_command example_clocks ?h1 = (Send_now, h2)"
    by (simp add: check_send_command_def serialqueue_send_batch_def serialqueue_alloc_def window_full_def example_clocks_def
        example_message_def set_min_clock_def cq_empty_def message_alloc_def MAX_CLOCK_def MAX_PENDING_BLOCKS_def
        BACKGROUND_PRIORITY_CLOCK_def kick_bg_thread_def message_consts Let_def)
  have "queues_ok h2" using check_send_moves(1) [OF send_batch_ok(1) [OF q0 ok] c] by (simp add: moved_def)
  then obtain b h3 where b: "build_and_send_command h2 = (Inr b, h3)" using build_and_send_block by metis
  have "link_step ?l1 (?l1\<lparr>lk_host := h3, lk_down := lk_down ?l1 @ [b], lk_sent := lk_sent ?l1 @ [b]\<rparr>)"
    by (rule L_send [OF _ b]) (use c in simp)
  with s1 have "link_step\<^sup>*\<^sup>* example_link (?l1\<lparr>lk_host := h3, lk_down := lk_down ?l1 @ [b], lk_sent := lk_sent ?l1 @ [b]\<rparr>)"
    by (meson r_into_rtranclp rtranclp.rtrancl_into_rtrancl)
  then show ?thesis by (intro exI conjI) (assumption, simp add: example_link_def)
qed

lemma example_send_seq: "sq_send_seq (lk_host example_link) = 1"
  by (simp add: example_link_def serialqueue_alloc_def)

theorem link_delivers_in_order_witness:
  "\<exists>l n. link_step\<^sup>*\<^sup>* example_link l \<and> length (lk_sent l) = 1 \<and> lk_accepted l = take n (lk_sent l) \<and>
    1 \<le> n + length (sq_sent_queue (lk_host l))"
proof -
  obtain l where l: "link_step\<^sup>*\<^sup>* example_link l" "length (lk_sent l) = 1" using example_link_run by blast
  have "unat (sq_send_seq (lk_host example_link)) + length (lk_sent l) < 2 ^ 64 - 64"
    by (simp add: example_send_seq l(2))
  from link_delivers_in_order [OF example_link_start l(1) this] l show ?thesis by auto
qed

theorem link_recovers_witness:
  "\<exists>l h l1. link_step\<^sup>*\<^sup>* example_link l \<and> length (lk_sent l) = 1 \<and>
    retransmit_event (lk_host l) = (Inr (), h) \<and>
    l1 = l\<lparr>lk_host := h, lk_down := lk_down l @ map qm_payload (sq_sent_queue (lk_host l))\<rparr> \<and>
    (\<forall>n l'. (undisturbed ^^ n) l1 l' \<longrightarrow> n \<le> in_flight l1 \<and>
      (if n < in_flight l1 then \<exists>l''. undisturbed l' l''
       else lk_sent l' = lk_sent l \<and> lk_accepted l' = lk_sent l \<and> sq_sent_queue (lk_host l') = []))"
proof -
  obtain l where l: "link_step\<^sup>*\<^sup>* example_link l" "length (lk_sent l) = 1" using example_link_run by blast
  have "unat (sq_send_seq (lk_host example_link)) + length (lk_sent l) < 2 ^ 64 - 64"
    by (simp add: example_send_seq l(2))
  from link_recovers [OF example_link_start l(1) this] l show ?thesis by blast
qed

end
