(* ===== verification/Trdispatch.thy ===== *)
theory Trdispatch
  imports Serialqueue "HOL-Library.Extended_Nat"
begin

text \<open>
  Homing over several micro-controllers, \<^verbatim>\<open>klippy/chelper/trdispatch.c\<close>: the trigger synchronisation
  objects of the micro-controllers report their state to the host; the first report of a trigger
  is passed on to all of them, and reports that all is well extend their timeouts.
\<close>

section \<open>State\<close>

text \<open>
  The estimate of a micro-controller's clock, and the conversions between clocks and host times,
  are the code of \<^verbatim>\<open>serialqueue.c\<close> and \<^verbatim>\<open>msgblock.c\<close> with \<^verbatim>\<open>double\<close> arithmetic: \<open>'ce\<close> is the type
  of estimates, \<open>'t\<close> that of times, with a time \<^verbatim>\<open>PR_NEVER\<close>.
\<close>

record ('ce, 't) clock_ops =
  ce_last_clock :: "'ce \<Rightarrow> u64"
  clock_to_time :: "'ce \<Rightarrow> u64 \<Rightarrow> 't"
  clock_from_time :: "'ce \<Rightarrow> 't \<Rightarrow> u64"
  time_never :: 't

text \<open>
  A micro-controller: its serial queue \<open>tdm_sq\<close> and command queue \<open>tdm_cq\<close> are numbers, and
  the callback of its fast reader is its position in the list.
\<close>

record 'ce trdispatch_mcu =
  tdm_fr :: fastreader
  tdm_sq :: nat
  tdm_cq :: nat
  tdm_trsync_oid :: u32
  tdm_set_timeout_msgtag :: u32
  tdm_trigger_msgtag :: u32
  tdm_last_status_clock :: u64
  tdm_expire_clock :: u64
  tdm_expire_ticks :: u64
  tdm_min_extend_ticks :: u64
  tdm_ce :: 'ce

text \<open>The serial queues and their current clock estimates belong to the state.\<close>

record 'ce trdispatch =
  tdm_list :: "'ce trdispatch_mcu list"
  td_is_active :: u32
  td_can_trigger :: u32
  td_dispatch_reason :: u32
  td_sqs :: "nat \<Rightarrow> serialqueue"
  td_ces :: "nat \<Rightarrow> 'ce"

section \<open>Messages\<close>

definition td_send :: "'ce trdispatch_mcu \<Rightarrow> queue_message \<Rightarrow> 'ce trdispatch \<Rightarrow> 'ce trdispatch" where
  "td_send m qm td = td\<lparr>td_sqs := (td_sqs td)(tdm_sq m := serialqueue_send_one (tdm_cq m) qm (td_sqs td (tdm_sq m)))\<rparr>"

definition send_trsync_trigger :: "'ce trdispatch_mcu \<Rightarrow> ('ce trdispatch, unit) fw" where
  "send_trsync_trigger m td =
    (case message_alloc_and_encode [tdm_trigger_msgtag m, tdm_trsync_oid m, td_dispatch_reason td] of
       None \<Rightarrow> (Inl Stuck, td)
     | Some qm \<Rightarrow> (Inr (), td_send m qm td))"

definition send_trsync_set_timeout :: "'ce trdispatch_mcu \<Rightarrow> ('ce trdispatch, unit) fw" where
  "send_trsync_set_timeout m td =
    (case message_alloc_and_encode [tdm_set_timeout_msgtag m, tdm_trsync_oid m, ucast (tdm_expire_clock m)] of
       None \<Rightarrow> (Inl Stuck, td)
     | Some qm \<Rightarrow> (Inr (), td_send m (qm\<lparr>qm_req_clock := tdm_expire_clock m\<rparr>) td))"

section \<open>The state report of a micro-controller\<close>

fun trigger_all :: "'ce trdispatch_mcu list \<Rightarrow> ('ce trdispatch, unit) fw" where
  "trigger_all [] = ret ()"
| "trigger_all (m # ms) = thn (send_trsync_trigger m) (trigger_all ms)"

text \<open>The lowest and the second lowest time, and the micro-controller of the lowest.\<close>

fun min_loop :: "'t::linorder list \<Rightarrow> nat \<Rightarrow> 't \<times> 't \<times> nat option \<Rightarrow> 't \<times> 't \<times> nat option" where
  "min_loop [] j acc = acc"
| "min_loop (status_time # ts) j (min_time, next_min_time, min_tdm) =
    min_loop ts (Suc j)
      (if status_time < next_min_time then
         if status_time < min_time then (status_time, min_time, Some j)
         else (min_time, status_time, min_tdm)
       else (min_time, next_min_time, min_tdm))"

definition mcu_upd :: "nat \<Rightarrow> ('ce trdispatch_mcu \<Rightarrow> 'ce trdispatch_mcu) \<Rightarrow> 'ce trdispatch \<Rightarrow> 'ce trdispatch" where
  "mcu_upd j f td = td\<lparr>tdm_list := (tdm_list td)[j := f (tdm_list td ! j)]\<rparr>"

text \<open>
  The comparison with \<^verbatim>\<open>min_extend_ticks\<close> is one of unsigned 64-bit numbers: C converts the
  \<^verbatim>\<open>int64_t\<close> on its left side.
\<close>

definition extend_one :: "('ce, 't) clock_ops \<Rightarrow> 't \<Rightarrow> nat \<Rightarrow> ('ce trdispatch, unit) fw" where
  "extend_one ops status_time j td =
    (let m = tdm_list td ! j; expire = clock_from_time ops (tdm_ce m) status_time + tdm_expire_ticks m in
     if expire - tdm_expire_clock m \<ge> tdm_min_extend_ticks m
     then send_trsync_set_timeout (m\<lparr>tdm_expire_clock := expire\<rparr>)
       (mcu_upd j (\<lambda>m. m\<lparr>tdm_expire_clock := expire\<rparr>) td)
     else (Inr (), td))"

fun extend_loop :: "('ce, 't) clock_ops \<Rightarrow> 't \<Rightarrow> 't \<Rightarrow> nat option \<Rightarrow> nat list \<Rightarrow> ('ce trdispatch, unit) fw" where
  "extend_loop ops min_time next_min_time min_tdm [] = ret ()"
| "extend_loop ops min_time next_min_time min_tdm (j # js) =
    thn (extend_one ops (if Some j = min_tdm then next_min_time else min_time) j)
      (extend_loop ops min_time next_min_time min_tdm js)"

text \<open>A report that all is well at \<open>clock\<close> from micro-controller \<open>i\<close>.\<close>

definition status_update :: "('ce, 't) clock_ops \<Rightarrow> nat \<Rightarrow> u32 \<Rightarrow> 'ce trdispatch \<Rightarrow> 'ce trdispatch" where
  "status_update ops i clock td =
    mcu_upd i (\<lambda>m. m\<lparr>tdm_ce := td_ces td (tdm_sq m),
      tdm_last_status_clock := clock_from_clock32 (ce_last_clock ops (td_ces td (tdm_sq m))) clock\<rparr>) td"

definition status_times :: "('ce, 't) clock_ops \<Rightarrow> 'ce trdispatch \<Rightarrow> 't list" where
  "status_times ops td = map (\<lambda>m. clock_to_time ops (tdm_ce m) (tdm_last_status_clock m)) (tdm_list td)"

definition extend_timeouts :: "('ce, 't::linorder) clock_ops \<Rightarrow> ('ce trdispatch, unit) fw" where
  "extend_timeouts ops td =
    (case min_loop (status_times ops td) 0 (time_never ops, time_never ops, None) of
       (min_time, next_min_time, min_tdm) \<Rightarrow>
     let next_min_time' = (if next_min_time = time_never ops then min_time else next_min_time)
     in extend_loop ops min_time next_min_time' min_tdm [0..<length (tdm_list td)] td)"

definition handle_trsync_state :: "('ce, 't::linorder) clock_ops \<Rightarrow> nat \<Rightarrow> u8 list \<Rightarrow> nat \<Rightarrow> ('ce trdispatch, unit) fw" where
  "handle_trsync_state ops i data len td =
    (case msgblock_decode 5 data len of None \<Rightarrow> (Inl Stuck, td)
     | Some (r, vals) \<Rightarrow>
       if r \<noteq> 0 \<or> vals ! 1 \<noteq> tdm_trsync_oid (tdm_list td ! i) then (Inr (), td)
       else let can_trigger = vals ! 2; clock = vals ! 4 in
       if td_can_trigger td = 0 then (Inr (), td)
       else if can_trigger = 0 then trigger_all (tdm_list td) (td\<lparr>td_can_trigger := 0\<rparr>)
       else extend_timeouts ops (status_update ops i clock td))"

section \<open>Interface\<close>

definition trdispatch_start :: "u32 \<Rightarrow> 'ce trdispatch \<Rightarrow> 'ce trdispatch" where
  "trdispatch_start dispatch_reason td =
    (if td_is_active td \<noteq> 0 \<or> tdm_list td = [] then td
     else
       let td1 = td\<lparr>td_dispatch_reason := dispatch_reason, td_is_active := 1, td_can_trigger := 1\<rparr>
       in td1\<lparr>td_sqs := fold (\<lambda>m sqs. sqs(tdm_sq m := serialqueue_add_fastreader (tdm_fr m) (sqs (tdm_sq m))))
            (tdm_list td1) (td_sqs td1)\<rparr>)"

definition trdispatch_stop :: "'ce trdispatch \<Rightarrow> 'ce trdispatch" where
  "trdispatch_stop td =
    (if td_is_active td = 0 then td
     else
       let td1 = td\<lparr>td_is_active := 0\<rparr>
       in td1\<lparr>td_sqs := fold (\<lambda>m sqs. sqs(tdm_sq m := serialqueue_rm_fastreader (tdm_fr m) (sqs (tdm_sq m))))
            (tdm_list td1) (td_sqs td1)\<rparr>)"

definition trdispatch_alloc :: "(nat \<Rightarrow> serialqueue) \<Rightarrow> (nat \<Rightarrow> 'ce) \<Rightarrow> 'ce trdispatch" where
  "trdispatch_alloc sqs ces = \<lparr>tdm_list = [], td_is_active = 0, td_can_trigger = 0, td_dispatch_reason = 0,
    td_sqs = sqs, td_ces = ces\<rparr>"

text \<open>\<open>ce0\<close> is the estimate with all fields zero.\<close>

definition trdispatch_mcu_alloc ::
    "'ce \<Rightarrow> nat \<Rightarrow> nat \<Rightarrow> u32 \<Rightarrow> u32 \<Rightarrow> u32 \<Rightarrow> u32 \<Rightarrow> ('ce trdispatch, unit) fw" where
  "trdispatch_mcu_alloc ce0 sq cq trsync_oid set_timeout_msgtag trigger_msgtag state_msgtag td =
    (case message_alloc_and_encode [state_msgtag, trsync_oid] of None \<Rightarrow> (Inl Stuck, td)
     | Some dummy \<Rightarrow>
       (Inr (), td\<lparr>tdm_list := tdm_list td @
         [\<lparr>tdm_fr = \<lparr>fr_func = length (tdm_list td), fr_prefix = qm_payload dummy\<rparr>, tdm_sq = sq, tdm_cq = cq,
           tdm_trsync_oid = trsync_oid, tdm_set_timeout_msgtag = set_timeout_msgtag,
           tdm_trigger_msgtag = trigger_msgtag, tdm_last_status_clock = 0, tdm_expire_clock = 0,
           tdm_expire_ticks = 0, tdm_min_extend_ticks = 0, tdm_ce = ce0\<rparr>]\<rparr>))"

definition trdispatch_mcu_setup :: "nat \<Rightarrow> u64 \<Rightarrow> u64 \<Rightarrow> u64 \<Rightarrow> u64 \<Rightarrow> 'ce trdispatch \<Rightarrow> 'ce trdispatch" where
  "trdispatch_mcu_setup i last_status_clock expire_clock expire_ticks min_extend_ticks td =
    mcu_upd i (\<lambda>m. m\<lparr>tdm_last_status_clock := last_status_clock, tdm_expire_clock := expire_clock,
      tdm_expire_ticks := expire_ticks, tdm_min_extend_ticks := min_extend_ticks,
      tdm_ce := td_ces td (tdm_sq m)\<rparr>) td"

section \<open>Sending\<close>

abbreviation upcoming :: "'ce trdispatch \<Rightarrow> nat \<Rightarrow> nat \<Rightarrow> queue_message list" where
  "upcoming td k q \<equiv> cq_upcoming (sq_cqs (td_sqs td k) q)"

text \<open>The messages of a list that go to command queue \<open>q\<close> of serial queue \<open>k\<close>.\<close>

definition for_queue :: "('ce trdispatch_mcu \<Rightarrow> queue_message) \<Rightarrow> nat \<Rightarrow> nat \<Rightarrow> 'ce trdispatch_mcu list \<Rightarrow> queue_message list" where
  "for_queue f k q ms = map f (filter (\<lambda>m. tdm_sq m = k \<and> tdm_cq m = q) ms)"

lemma for_queue_simps [simp]:
  "for_queue f k q [] = []"
  "for_queue f k q (m # ms) = (if tdm_sq m = k \<and> tdm_cq m = q then [f m] else []) @ for_queue f k q ms"
  "for_queue f k q (ms @ ns) = for_queue f k q ms @ for_queue f k q ns"
  by (simp_all add: for_queue_def)

definition encoded :: "u32 list \<Rightarrow> queue_message" where
  "encoded vs = the (message_alloc_and_encode vs)"

lemma encoded_three:
  "message_alloc_and_encode [a, b, c] = Some (encoded [a, b, c])"
  "qm_len (encoded [a, b, c]) = int (length (encode_ints [a, b, c]))"
  "qm_payload (encoded [a, b, c]) = encode_ints [a, b, c]"
  "qm_len (encoded [a, b, c]) > 0"
proof -
  have "length (encode_ints [a, b, c]) \<le> 59"
    using encode_int_le5 [of a] encode_int_le5 [of b] encode_int_le5 [of c] by simp
  then show e: "message_alloc_and_encode [a, b, c] = Some (encoded [a, b, c])"
    "qm_len (encoded [a, b, c]) = int (length (encode_ints [a, b, c]))"
    "qm_payload (encoded [a, b, c]) = encode_ints [a, b, c]"
    using alloc_and_encode_result [of "[a, b, c]"] by (auto simp: encoded_def qm_payload_def simp del: encode_ints_simps)
  have "0 < length (encode_ints [a, b, c])" using encode_int_pos [of a] unfolding encode_ints_simps length_append by linarith
  then show "qm_len (encoded [a, b, c]) > 0" by (simp only: e(2) of_nat_0_less_iff)
qed

lemma td_send_upcoming:
  assumes "qm_len qm > 0"
  shows "upcoming (td_send m qm td) k q = upcoming td k q @ (if tdm_sq m = k \<and> tdm_cq m = q then [set_min_clock qm] else [])"
proof -
  have "qm_len (set_min_clock qm) > 0" using assms by (simp add: set_min_clock_def)
  then show ?thesis
    by (auto simp: td_send_def serialqueue_send_one_def serialqueue_send_batch_def kick_bg_thread_def Let_def)
qed

lemma td_send_fields [simp]:
  "tdm_list (td_send m qm td) = tdm_list td" "td_can_trigger (td_send m qm td) = td_can_trigger td"
  "td_dispatch_reason (td_send m qm td) = td_dispatch_reason td" "td_ces (td_send m qm td) = td_ces td"
  "td_is_active (td_send m qm td) = td_is_active td"
  by (simp_all add: td_send_def)

lemma set_min_clock_0: "qm_min_clock qm = 0 \<Longrightarrow> qm_req_clock qm = 0 \<Longrightarrow> set_min_clock qm = qm"
  by (simp add: set_min_clock_def)

lemma alloc_clocks: "message_alloc_and_encode vs = Some qm \<Longrightarrow> qm_min_clock qm = 0 \<and> qm_req_clock qm = 0"
  by (auto simp: message_alloc_and_encode_def message_alloc_def Let_def split: bind_splits option.splits)

lemmas encoded_clocks = alloc_clocks [OF encoded_three(1)]

section \<open>The trigger\<close>

definition trigger_message :: "u32 \<Rightarrow> 'ce trdispatch_mcu \<Rightarrow> queue_message" where
  "trigger_message reason m = encoded [tdm_trigger_msgtag m, tdm_trsync_oid m, reason]"

lemma trigger_all_sends:
  "\<exists>td'. trigger_all ms td = (Inr (), td') \<and> tdm_list td' = tdm_list td \<and>
    td_can_trigger td' = td_can_trigger td \<and>
    (\<forall>k q. upcoming td' k q = upcoming td k q @ for_queue (trigger_message (td_dispatch_reason td)) k q ms)"
proof (induction ms arbitrary: td)
  case Nil
  then show ?case by (simp add: ret_def)
next
  case (Cons m ms)
  let ?qm = "trigger_message (td_dispatch_reason td) m"
  have s: "send_trsync_trigger m td = (Inr (), td_send m ?qm td)"
    by (simp add: send_trsync_trigger_def encoded_three(1) trigger_message_def)
  have u: "upcoming (td_send m ?qm td) k q =
      upcoming td k q @ (if tdm_sq m = k \<and> tdm_cq m = q then [?qm] else [])" for k q
    using td_send_upcoming [of ?qm m td k q]
    by (simp add: trigger_message_def encoded_three(4) set_min_clock_0 encoded_clocks)
  show ?case using Cons.IH [of "td_send m ?qm td"] by (auto simp: thn_def bnd_def s u)
qed

text \<open>
  C10: a trigger reported by one micro-controller reaches all of them.  The first
  \<^verbatim>\<open>trsync_state\<close> report without \<^verbatim>\<open>can_trigger\<close> queues, for every micro-controller of the
  list, one \<^verbatim>\<open>trsync_trigger\<close> message with its object id and the reason of the dispatch, and
  nothing else; after that no report has any effect.
\<close>

theorem trigger_reaches_all:
  fixes ops :: "('ce, 't::linorder) clock_ops"
  assumes "td_can_trigger td \<noteq> 0" and "oid = tdm_trsync_oid (tdm_list td ! i)"
  shows "\<exists>td'. handle_trsync_state ops i (mk_frame seq (encode_ints [tag, oid, 0, reason, clock]))
        (length (encode_ints [tag, oid, 0, reason, clock]) + 5) td = (Inr (), td') \<and>
    td_can_trigger td' = 0 \<and> tdm_list td' = tdm_list td \<and>
    (\<forall>k q. upcoming td' k q = upcoming td k q @ for_queue (trigger_message (td_dispatch_reason td)) k q (tdm_list td)) \<and>
    (\<forall>m \<in> set (tdm_list td). qm_payload (trigger_message (td_dispatch_reason td) m) =
      encode_ints [tdm_trigger_msgtag m, tdm_trsync_oid m, td_dispatch_reason td]) \<and>
    (\<forall>j data len. snd (handle_trsync_state ops j data len td') = td')"
proof -
  obtain td' where t: "trigger_all (tdm_list td) (td\<lparr>td_can_trigger := 0\<rparr>) = (Inr (), td')"
      "tdm_list td' = tdm_list td" "td_can_trigger td' = 0"
      "\<forall>k q. upcoming td' k q = upcoming td k q @ for_queue (trigger_message (td_dispatch_reason td)) k q (tdm_list td)"
    using trigger_all_sends [of "tdm_list td" "td\<lparr>td_can_trigger := 0\<rparr>"] by auto
  have d: "msgblock_decode 5 (mk_frame seq (encode_ints [tag, oid, 0, reason, clock]))
      (length (encode_ints [tag, oid, 0, reason, clock]) + 5) = Some (0, [tag, oid, 0, reason, clock])"
    using decode_frame [of "[tag, oid, 0, reason, clock]" seq] by (simp add: eval_nat_numeral)
  have "snd (handle_trsync_state ops j data len td') = td'" for j data len
    using t(3) by (auto simp: handle_trsync_state_def Let_def split: option.splits prod.splits)
  moreover have "qm_payload (trigger_message r m) = encode_ints [tdm_trigger_msgtag m, tdm_trsync_oid m, r]" for m :: "'ce trdispatch_mcu" and r
    by (simp only: trigger_message_def encoded_three(3))
  ultimately show ?thesis using assms t unfolding handle_trsync_state_def d by (intro exI [of _ td']) simp
qed

section \<open>The timeouts\<close>

definition min_state :: "'t::linorder \<Rightarrow> 't list \<Rightarrow> 't \<times> 't \<times> nat option \<Rightarrow> bool" where
  "min_state never xs acc = (case acc of (mn, nx, mi) \<Rightarrow>
    if xs = [] then mn = never \<and> nx = never \<and> mi = None
    else \<exists>i < length xs. mi = Some i \<and> mn = xs ! i \<and> (\<forall>k < length xs. mn \<le> xs ! k) \<and>
      (if length xs = 1 then nx = never
       else \<exists>j < length xs. j \<noteq> i \<and> nx = xs ! j \<and> (\<forall>k < length xs. k \<noteq> i \<longrightarrow> nx \<le> xs ! k)))"

lemma min_loop_state:
  "min_state never xs acc \<Longrightarrow> (\<forall>x \<in> set (xs @ ts). x < never) \<Longrightarrow>
    min_state never (xs @ ts) (min_loop ts (length xs) acc)"
proof (induction ts arbitrary: xs acc)
  case (Cons t ts)
  obtain mn nx mi where acc: "acc = (mn, nx, mi)" by (cases acc) auto
  define acc' where "acc' = (if t < nx then if t < mn then (t, mn, Some (length xs)) else (mn, t, mi) else (mn, nx, mi))"
  have t: "t < never" using Cons.prems(2) by simp
  have "min_state never (xs @ [t]) acc'"
  proof (cases "xs = []")
    case True
    then show ?thesis using Cons.prems(1) t by (simp add: min_state_def acc acc'_def)
  next
    case False
    then obtain i where i: "i < length xs" "mi = Some i" "mn = xs ! i" "\<forall>k < length xs. mn \<le> xs ! k"
        "if length xs = 1 then nx = never
         else \<exists>j < length xs. j \<noteq> i \<and> nx = xs ! j \<and> (\<forall>k < length xs. k \<noteq> i \<longrightarrow> nx \<le> xs ! k)"
      using Cons.prems(1) by (auto simp: min_state_def acc)
    show ?thesis
    proof (cases "length xs = 1")
      case True
      then show ?thesis using i t by (auto simp: min_state_def acc'_def length_Suc_conv nth_append less_Suc_eq)
    next
      case nl: False
      then obtain j where j: "j < length xs" "j \<noteq> i" "nx = xs ! j" "\<forall>k < length xs. k \<noteq> i \<longrightarrow> nx \<le> xs ! k"
        using i(5) by auto
      have mnx: "mn \<le> nx" using i(4) j(1,3) by simp
      consider "t < mn" | "mn \<le> t" "t < nx" | "nx \<le> t" by fastforce
      then show ?thesis
      proof cases
        case 1
        then have "acc' = (t, mn, Some (length xs))" using mnx by (auto simp: acc'_def)
        then show ?thesis using i 1
          by (auto simp: min_state_def nth_append less_Suc_eq intro: less_imp_le less_le_trans intro!: exI [of _ i])
      next
        case 2
        then have "acc' = (mn, t, mi)" by (auto simp: acc'_def)
        then show ?thesis using i j 2
          by (auto simp: min_state_def nth_append less_Suc_eq intro: less_imp_le less_le_trans order_trans intro!: exI [of _ i] exI [of _ "length xs"])
      next
        case 3
        then have "acc' = (mn, nx, mi)" by (auto simp: acc'_def)
        then show ?thesis using i j 3 mnx
          by (auto simp: min_state_def nth_append less_Suc_eq intro: order_trans intro!: exI [of _ i] exI [of _ j])
      qed
    qed
  qed
  then have "min_state never ((xs @ [t]) @ ts) (min_loop ts (length (xs @ [t])) acc')"
    by (rule Cons.IH) (use Cons.prems(2) in auto)
  then show ?case by (simp add: acc acc'_def)
qed simp

text \<open>The earliest of the times of the other micro-controllers.\<close>

definition slowest_other :: "'t::linorder list \<Rightarrow> nat \<Rightarrow> 't" where
  "slowest_other sts j = Min {sts ! k | k. k < length sts \<and> k \<noteq> j}"

lemma slowest_other_eqI:
  assumes "i < length sts" and "i \<noteq> j" and "\<And>k. k < length sts \<Longrightarrow> k \<noteq> j \<Longrightarrow> sts ! i \<le> sts ! k"
  shows "slowest_other sts j = sts ! i"
  unfolding slowest_other_def by (rule Min_eqI) (use assms in auto)

lemma min_loop_others:
  assumes "length sts \<ge> 2" and "\<forall>x \<in> set sts. x < never"
    and "min_loop sts 0 (never, never, None) = (mn, nx, mi)"
  shows "nx \<noteq> never" and "j < length sts \<Longrightarrow> (if Some j = mi then nx else mn) = slowest_other sts j"
proof -
  have "min_state never sts (mn, nx, mi)"
    using min_loop_state [of never "[]" "(never, never, None)" sts] assms by (simp add: min_state_def)
  then obtain i l where i: "i < length sts" "mi = Some i" "mn = sts ! i" "\<forall>k < length sts. mn \<le> sts ! k"
      "l < length sts" "l \<noteq> i" "nx = sts ! l" "\<forall>k < length sts. k \<noteq> i \<longrightarrow> nx \<le> sts ! k"
    using assms(1) by (cases "sts = []"; cases "length sts = 1") (auto simp: min_state_def)
  show "nx \<noteq> never" using assms(2) i(5,7) nth_mem by fastforce
  show "(if Some j = mi then nx else mn) = slowest_other sts j" if "j < length sts"
  proof (cases "j = i")
    case True
    then show ?thesis using slowest_other_eqI [of l sts j] i by auto
  next
    case False
    then show ?thesis using slowest_other_eqI [of i sts j] i by auto
  qed
qed

definition new_expire :: "('ce, 't) clock_ops \<Rightarrow> 't \<Rightarrow> 'ce trdispatch_mcu \<Rightarrow> u64" where
  "new_expire ops t m = clock_from_time ops (tdm_ce m) t + tdm_expire_ticks m"

text \<open>
  What the code decides, in terms of the clocks as numbers: the expire clock is moved to the due one if that is
  at least \<^verbatim>\<open>min_extend_ticks\<close> ahead, or if it lies behind.  (The difference is compared as an
  unsigned number, in spite of the cast.)
\<close>

definition due_expire :: "('ce, 't) clock_ops \<Rightarrow> 't \<Rightarrow> 'ce trdispatch_mcu \<Rightarrow> int" where
  "due_expire ops t m = uint (clock_from_time ops (tdm_ce m) t) + uint (tdm_expire_ticks m)"

definition extends :: "('ce, 't) clock_ops \<Rightarrow> 't \<Rightarrow> 'ce trdispatch_mcu \<Rightarrow> bool" where
  "extends ops t m \<longleftrightarrow> uint (tdm_expire_clock m) + uint (tdm_min_extend_ticks m) \<le> due_expire ops t m \<or>
    due_expire ops t m < uint (tdm_expire_clock m)"

definition extended :: "('ce, 't) clock_ops \<Rightarrow> 't \<Rightarrow> 'ce trdispatch_mcu \<Rightarrow> 'ce trdispatch_mcu" where
  "extended ops t m = (if extends ops t m then m\<lparr>tdm_expire_clock := word_of_int (due_expire ops t m)\<rparr> else m)"

text \<open>The clocks are below \<open>2 ^ 63\<close>: at 600 MHz they get there after 480 years.\<close>

definition clocks_small :: "('ce, 't) clock_ops \<Rightarrow> 't \<Rightarrow> 'ce trdispatch_mcu \<Rightarrow> bool" where
  "clocks_small ops t m \<longleftrightarrow> due_expire ops t m < 2 ^ 63 \<and> uint (tdm_expire_clock m) < 2 ^ 63 \<and>
    uint (tdm_min_extend_ticks m) < 2 ^ 63"

lemma new_expire_due: "new_expire ops t m = word_of_int (due_expire ops t m)"
  by (simp add: new_expire_def due_expire_def)

lemma extends_code:
  assumes "clocks_small ops t m"
  shows "tdm_min_extend_ticks m \<le> new_expire ops t m - tdm_expire_clock m \<longleftrightarrow> extends ops t m"
proof -
  let ?d = "due_expire ops t m" and ?e = "uint (tdm_expire_clock m)" and ?x = "uint (tdm_min_extend_ticks m)"
  have b: "0 \<le> ?d" "?d < 2 ^ 63" "0 \<le> ?e" "?e < 2 ^ 63" "0 \<le> ?x" "?x < 2 ^ 63"
    using assms by (simp_all add: clocks_small_def) (simp add: due_expire_def)
  have p: "(2 :: int) ^ 64 = 2 ^ 63 + 2 ^ 63" by simp
  have "uint (new_expire ops t m) = ?d" using b(1,2) by (simp add: new_expire_due uint_word_of_int_eq take_bit_int_eq_self)
  then have u: "uint (new_expire ops t m - tdm_expire_clock m) = (?d - ?e) mod 2 ^ 64"
    by (simp add: uint_word_ariths)
  have "(?d - ?e) mod 2 ^ 64 = (if ?e \<le> ?d then ?d - ?e else ?d - ?e + 2 ^ 64)"
  proof (cases "?e \<le> ?d")
    case True
    then have "(?d - ?e) mod 2 ^ 64 = ?d - ?e" using b p True by (intro mod_pos_pos_trivial) linarith+
    then show ?thesis using True by simp
  next
    case False
    have "(?d - ?e) mod 2 ^ 64 = (?d - ?e + 2 ^ 64) mod 2 ^ 64" by (rule mod_add_self2 [symmetric])
    also have "\<dots> = ?d - ?e + 2 ^ 64" using b p False by (intro mod_pos_pos_trivial) linarith+
    finally show ?thesis using False by simp
  qed
  then show ?thesis using b by (auto simp: word_le_def u extends_def)
qed

definition timeout_message :: "'ce trdispatch_mcu \<Rightarrow> queue_message" where
  "timeout_message m = set_min_clock ((encoded [tdm_set_timeout_msgtag m, tdm_trsync_oid m, ucast (tdm_expire_clock m)])
    \<lparr>qm_req_clock := tdm_expire_clock m\<rparr>)"

lemma timeout_message_payload:
  "qm_payload (timeout_message m) = encode_ints [tdm_set_timeout_msgtag m, tdm_trsync_oid m, ucast (tdm_expire_clock m)]"
  "qm_req_clock (timeout_message m) = tdm_expire_clock m"
  using encoded_three(3) [of "tdm_set_timeout_msgtag m" "tdm_trsync_oid m" "ucast (tdm_expire_clock m)"]
  by (simp_all add: timeout_message_def set_min_clock_def qm_payload_def del: encode_ints_simps)

lemma extend_one_result:
  assumes "j < length (tdm_list td)" and "clocks_small ops t (tdm_list td ! j)"
  shows "\<exists>td'. extend_one ops t j td = (Inr (), td') \<and>
    tdm_list td' = (tdm_list td)[j := extended ops t (tdm_list td ! j)] \<and> td_can_trigger td' = td_can_trigger td \<and>
    (\<forall>k q. upcoming td' k q = upcoming td k q @
      for_queue timeout_message k q (if extends ops t (tdm_list td ! j) then [extended ops t (tdm_list td ! j)] else []))"
proof -
  let ?m = "extended ops t (tdm_list td ! j)"
  let ?qm = "(encoded [tdm_set_timeout_msgtag ?m, tdm_trsync_oid ?m, ucast (tdm_expire_clock ?m)])\<lparr>qm_req_clock := tdm_expire_clock ?m\<rparr>"
  show ?thesis
  proof (cases "extends ops t (tdm_list td ! j)")
    case False
    then show ?thesis using extends_code [OF assms(2)]
      by (simp add: extend_one_def extended_def new_expire_def Let_def)
  next
    case True
    let ?td = "mcu_upd j (\<lambda>m. m\<lparr>tdm_expire_clock := new_expire ops t (tdm_list td ! j)\<rparr>) td"
    have e: "extend_one ops t j td = (Inr (), td_send ?m ?qm ?td)"
      using True extends_code [OF assms(2)] by (simp add: extend_one_def extended_def new_expire_due [symmetric] Let_def
          send_trsync_set_timeout_def encoded_three(1)) (simp add: new_expire_def)
    have "qm_len ?qm > 0" using encoded_three(4) by simp
    then show ?thesis using True assms unfolding e
      by (simp add: td_send_upcoming mcu_upd_def extended_def new_expire_due [symmetric] timeout_message_def [symmetric])
        (simp add: timeout_message_def)
  qed
qed

lemma for_queue_if: "for_queue f k q (if b then [m] else []) = (if b then for_queue f k q [m] else [])"
  by simp

lemma extend_loop_result:
  assumes "distinct js" and "\<forall>j \<in> set js. j < length (tdm_list td)"
    and "\<And>j. j \<in> set js \<Longrightarrow> (if Some j = mi then nx else mn) = st j"
    and "\<And>j. j \<in> set js \<Longrightarrow> clocks_small ops (st j) (tdm_list td ! j)"
  shows "\<exists>td'. extend_loop ops mn nx mi js td = (Inr (), td') \<and> td_can_trigger td' = td_can_trigger td \<and>
    length (tdm_list td') = length (tdm_list td) \<and>
    (\<forall>j < length (tdm_list td). tdm_list td' ! j =
      (if j \<in> set js then extended ops (st j) (tdm_list td ! j) else tdm_list td ! j)) \<and>
    (\<forall>k q. upcoming td' k q = upcoming td k q @ for_queue timeout_message k q
      (map (\<lambda>j. extended ops (st j) (tdm_list td ! j)) (filter (\<lambda>j. extends ops (st j) (tdm_list td ! j)) js)))"
  using assms
proof (induction js arbitrary: td)
  case Nil
  then show ?case by (simp add: ret_def)
next
  case (Cons j js)
  obtain td1 where o: "extend_one ops (st j) j td = (Inr (), td1)"
      "tdm_list td1 = (tdm_list td)[j := extended ops (st j) (tdm_list td ! j)]" "td_can_trigger td1 = td_can_trigger td"
      "\<forall>k q. upcoming td1 k q = upcoming td k q @ for_queue timeout_message k q
        (if extends ops (st j) (tdm_list td ! j) then [extended ops (st j) (tdm_list td ! j)] else [])"
    using extend_one_result [of j td ops "st j"] Cons.prems(2,4) by auto
  have nth: "l \<noteq> j \<Longrightarrow> tdm_list td1 ! l = tdm_list td ! l" for l by (simp add: o(2))
  have same: "map (\<lambda>l. extended ops (st l) (tdm_list td1 ! l)) (filter (\<lambda>l. extends ops (st l) (tdm_list td1 ! l)) js) =
      map (\<lambda>l. extended ops (st l) (tdm_list td ! l)) (filter (\<lambda>l. extends ops (st l) (tdm_list td ! l)) js)"
  proof (rule map_cong)
    have eq: "l \<in> set js \<Longrightarrow> tdm_list td1 ! l = tdm_list td ! l" for l using Cons.prems(1) by (intro nth) auto
    show "filter (\<lambda>l. extends ops (st l) (tdm_list td1 ! l)) js = filter (\<lambda>l. extends ops (st l) (tdm_list td ! l)) js"
      by (rule filter_cong [OF refl]) (simp only: eq)
    show "l \<in> set (filter (\<lambda>l. extends ops (st l) (tdm_list td ! l)) js) \<Longrightarrow>
        extended ops (st l) (tdm_list td1 ! l) = extended ops (st l) (tdm_list td ! l)" for l
      by (simp add: eq)
  qed
  have small: "clocks_small ops (st l) (tdm_list td1 ! l)" if "l \<in> set js" for l
    using that Cons.prems(1,4) by (subst nth) auto
  obtain td' where r: "extend_loop ops mn nx mi js td1 = (Inr (), td')" "td_can_trigger td' = td_can_trigger td1"
      "length (tdm_list td') = length (tdm_list td1)"
      "\<forall>l < length (tdm_list td1). tdm_list td' ! l =
        (if l \<in> set js then extended ops (st l) (tdm_list td1 ! l) else tdm_list td1 ! l)"
      "\<forall>k q. upcoming td' k q = upcoming td1 k q @ for_queue timeout_message k q
        (map (\<lambda>l. extended ops (st l) (tdm_list td1 ! l)) (filter (\<lambda>l. extends ops (st l) (tdm_list td1 ! l)) js))"
    using Cons.IH [of td1] Cons.prems(1-3) small o(2) by auto
  have e: "extend_loop ops mn nx mi (j # js) td = (Inr (), td')"
    using Cons.prems(3) [of j] by (simp add: thn_def bnd_def o(1) r(1))
  have u: "upcoming td' k q = upcoming td k q @ for_queue timeout_message k q
      (map (\<lambda>l. extended ops (st l) (tdm_list td ! l)) (filter (\<lambda>l. extends ops (st l) (tdm_list td ! l)) (j # js)))" for k q
    unfolding r(5) [rule_format] o(4) [rule_format] same by (simp add: for_queue_if)
  have n: "\<forall>l < length (tdm_list td). tdm_list td' ! l =
      (if l \<in> set (j # js) then extended ops (st l) (tdm_list td ! l) else tdm_list td ! l)"
  proof (intro allI impI)
    fix l assume "l < length (tdm_list td)"
    then show "tdm_list td' ! l = (if l \<in> set (j # js) then extended ops (st l) (tdm_list td ! l) else tdm_list td ! l)"
      using r(4) o(2) nth [of l] Cons.prems(1) by (cases "l = j") auto
  qed
  show ?case using e u n r(2,3) o(2,3) by (intro exI [of _ td']) simp
qed

text \<open>
  C11: the timeout of each micro-controller follows the slowest of the others.  A report that all
  is well, with two or more micro-controllers, moves the expire clock of each of them to the
  last time acknowledged by all the others, plus its timeout, if that is at least
  \<^verbatim>\<open>min_extend_ticks\<close> ahead of the old clock or behind it (clocks as numbers, below \<open>2 ^ 63\<close>);
  exactly those moved get a \<^verbatim>\<open>trsync_set_timeout\<close> message with the new clock.  So a micro-controller
  that stops hearing from the host, or one that the host no longer hears from, makes the rest
  time out.
\<close>

theorem timeouts_follow_slowest_other:
  fixes ops :: "('ce, 't::linorder) clock_ops"
  assumes "td_can_trigger td \<noteq> 0" and "i < length (tdm_list td)" and "oid = tdm_trsync_oid (tdm_list td ! i)"
    and "can \<noteq> 0" and "length (tdm_list td) \<ge> 2"
    and "ts = status_times ops (status_update ops i clock td)" and "\<forall>t \<in> set ts. t < time_never ops"
    and "ms = tdm_list (status_update ops i clock td)"
    and "\<forall>j < length ms. clocks_small ops (slowest_other ts j) (ms ! j)"
  shows "\<exists>td'. handle_trsync_state ops i (mk_frame seq (encode_ints [tag, oid, can, reason, clock]))
        (length (encode_ints [tag, oid, can, reason, clock]) + 5) td = (Inr (), td') \<and>
    td_can_trigger td' = td_can_trigger td \<and>
    tdm_list td' = map (\<lambda>j. extended ops (slowest_other ts j) (ms ! j)) [0..<length ms] \<and>
    (\<forall>k q. upcoming td' k q = upcoming td k q @ for_queue timeout_message k q
      (map (\<lambda>j. extended ops (slowest_other ts j) (ms ! j))
        (filter (\<lambda>j. extends ops (slowest_other ts j) (ms ! j)) [0..<length ms])))"
proof -
  define td1 where "td1 = status_update ops i clock td"
  obtain mn nx mi where loop: "min_loop ts 0 (time_never ops, time_never ops, None) = (mn, nx, mi)"
    by (metis prod_cases3)
  have l: "length ms = length ts" "length ms = length (tdm_list td)" "length ts \<ge> 2"
    using assms(5) by (simp_all add: assms(6,8) status_times_def status_update_def mcu_upd_def)
  note others = min_loop_others [OF l(3) assms(7) loop]
  have ms: "ms = tdm_list td1" using assms(8) by (simp add: td1_def)
  obtain td' where r: "extend_loop ops mn nx mi [0..<length ms] td1 = (Inr (), td')"
      "td_can_trigger td' = td_can_trigger td1" "length (tdm_list td') = length ms"
      "\<forall>j < length ms. tdm_list td' ! j = extended ops (slowest_other ts j) (ms ! j)"
      "\<forall>k q. upcoming td' k q = upcoming td1 k q @ for_queue timeout_message k q
        (map (\<lambda>j. extended ops (slowest_other ts j) (ms ! j)) (filter (\<lambda>j. extends ops (slowest_other ts j) (ms ! j)) [0..<length ms]))"
    using extend_loop_result [of "[0..<length ms]" td1 mi nx mn "slowest_other ts" ops] others(2) l(1) assms(9)
    unfolding ms by auto
  have "msgblock_decode 5 (mk_frame seq (encode_ints [tag, oid, can, reason, clock]))
      (length (encode_ints [tag, oid, can, reason, clock]) + 5) = Some (0, [tag, oid, can, reason, clock])"
    using decode_frame [of "[tag, oid, can, reason, clock]" seq] by (simp add: eval_nat_numeral)
  then have h: "handle_trsync_state ops i (mk_frame seq (encode_ints [tag, oid, can, reason, clock]))
      (length (encode_ints [tag, oid, can, reason, clock]) + 5) td = (Inr (), td')"
    using assms(1,3,4) r(1) loop others(1)
    by (simp add: handle_trsync_state_def extend_timeouts_def assms(6) td1_def ms)
  have list: "tdm_list td' = map (\<lambda>j. extended ops (slowest_other ts j) (ms ! j)) [0..<length ms]"
    using r(3,4) by (auto intro!: nth_equalityI)
  have keep: "td_can_trigger td1 = td_can_trigger td" "upcoming td1 k q = upcoming td k q" for k q
    by (simp_all add: td1_def status_update_def mcu_upd_def)
  show ?thesis by (intro exI [of _ td'] conjI h list) (use r(2,5) keep in simp_all)
qed

text \<open>
  The comparison with \<^verbatim>\<open>min_extend_ticks\<close> is unsigned: an expire clock that would move back by
  one tick is not "less than \<^verbatim>\<open>min_extend_ticks\<close> ahead" but \<open>2 ^ 64 - 1\<close> ticks ahead, and is sent.
\<close>

lemma expire_moves_back:
  assumes "new_expire ops t m = tdm_expire_clock m - 1"
  shows "tdm_min_extend_ticks m \<le> new_expire ops t m - tdm_expire_clock m"
  using assms by simp

section \<open>Examples\<close>

text \<open>Two micro-controllers, each with its own queue; a clock tick is a unit of time.\<close>

definition example_ops :: "(unit, enat) clock_ops" where
  "example_ops = \<lparr>ce_last_clock = (\<lambda>_. 1000), clock_to_time = (\<lambda>_ c. enat (unat c)),
    clock_from_time = (\<lambda>_ t. case t of enat n \<Rightarrow> of_nat n | \<infinity> \<Rightarrow> 0), time_never = \<infinity>\<rparr>"

definition example_mcu :: "nat \<Rightarrow> unit trdispatch_mcu" where
  "example_mcu k = \<lparr>tdm_fr = \<lparr>fr_func = k, fr_prefix = []\<rparr>, tdm_sq = k, tdm_cq = 0, tdm_trsync_oid = of_nat k,
    tdm_set_timeout_msgtag = 20, tdm_trigger_msgtag = 21, tdm_last_status_clock = 1000, tdm_expire_clock = 1250,
    tdm_expire_ticks = 250, tdm_min_extend_ticks = 60, tdm_ce = ()\<rparr>"

definition example_td :: "unit trdispatch" where
  "example_td = trdispatch_start 1 \<lparr>tdm_list = [example_mcu 0, example_mcu 1], td_is_active = 0,
    td_can_trigger = 0, td_dispatch_reason = 0, td_sqs = (\<lambda>_. serialqueue_alloc SQT_UART), td_ces = (\<lambda>_. ())\<rparr>"

lemma example_td_fields:
  "tdm_list example_td = [example_mcu 0, example_mcu 1]" "td_can_trigger example_td = 1"
  "td_dispatch_reason example_td = 1" "upcoming example_td k q = []"
  by (simp_all add: example_td_def trdispatch_start_def serialqueue_add_fastreader_def serialqueue_alloc_def)

theorem trigger_reaches_all_witness:
  "\<exists>td'. handle_trsync_state example_ops 0 (mk_frame 16 (encode_ints [7, 0, 0, 1, 5000]))
      (length (encode_ints [7, 0, 0, 1, 5000]) + 5) example_td = (Inr (), td') \<and>
    upcoming td' 1 0 = [trigger_message 1 (example_mcu 1)]"
proof -
  have a: "td_can_trigger example_td \<noteq> 0" "0 = tdm_trsync_oid (tdm_list example_td ! 0)"
    by (simp_all add: example_td_fields) (simp add: example_mcu_def)
  from trigger_reaches_all [OF a, of example_ops 16 7 1 5000] obtain td' where
    "handle_trsync_state example_ops 0 (mk_frame 16 (encode_ints [7, 0, 0, 1, 5000]))
      (length (encode_ints [7, 0, 0, 1, 5000]) + 5) example_td = (Inr (), td')"
    "\<forall>k q. upcoming td' k q = upcoming example_td k q @
      for_queue (trigger_message (td_dispatch_reason example_td)) k q (tdm_list example_td)"
    by (elim exE conjE) rule
  moreover have "for_queue (trigger_message 1) 1 0 [example_mcu 0, example_mcu 1] = [trigger_message 1 (example_mcu 1)]"
    by (simp add: for_queue_def) (simp add: example_mcu_def)
  ultimately show ?thesis by (intro exI [of _ td']) (simp only: example_td_fields append_Nil simp_thms)
qed

text \<open>
  The first micro-controller reports clock 2000, the second was last heard of at 1000: the second
  is extended, the first is not.
\<close>

theorem timeouts_follow_slowest_other_witness:
  "\<exists>td'. handle_trsync_state example_ops 0 (mk_frame 16 (encode_ints [7, 0, 1, 0, 2000]))
      (length (encode_ints [7, 0, 1, 0, 2000]) + 5) example_td = (Inr (), td') \<and>
    map tdm_expire_clock (tdm_list td') = [1250, 2250]"
proof -
  let ?td1 = "status_update example_ops 0 2000 example_td"
  let ?m0 = "(example_mcu 0)\<lparr>tdm_ce := (), tdm_last_status_clock := 2000\<rparr>"
  have c: "clock_from_clock32 1000 2000 = 2000" by (simp add: clock_from_clock32_def)
  have l: "tdm_list ?td1 = [?m0, example_mcu 1]"
    by (simp add: status_update_def mcu_upd_def example_td_fields example_ops_def c)
  have t: "status_times example_ops ?td1 = [enat 2000, enat 1000]"
    by (simp add: status_times_def l) (simp add: example_ops_def example_mcu_def)
  have s: "slowest_other [enat 2000, enat 1000] 0 = enat 1000" "slowest_other [enat 2000, enat 1000] 1 = enat 2000"
    by (rule slowest_other_eqI [of 1, THEN trans], auto simp: less_Suc_eq)
      (rule slowest_other_eqI [of 0, THEN trans], auto simp: less_Suc_eq)
  have a: "td_can_trigger example_td \<noteq> 0" "0 < length (tdm_list example_td)"
      "0 = tdm_trsync_oid (tdm_list example_td ! 0)" "(1 :: u32) \<noteq> 0" "length (tdm_list example_td) \<ge> 2"
      "\<forall>t \<in> set [enat 2000, enat 1000]. t < time_never example_ops"
    by (simp_all add: example_td_fields) (simp_all add: example_mcu_def example_ops_def)
  have small: "\<forall>j < length [?m0, example_mcu 1]. clocks_small example_ops (slowest_other [enat 2000, enat 1000] j)
      ([?m0, example_mcu 1] ! j)"
    by (simp add: less_Suc_eq s [simplified] clocks_small_def due_expire_def) (simp add: example_ops_def example_mcu_def)
  from timeouts_follow_slowest_other [OF a(1-5) t [symmetric] a(6) l [symmetric] small, of 16 7 0] obtain td' where
    h: "handle_trsync_state example_ops 0 (mk_frame 16 (encode_ints [7, 0, 1, 0, 2000]))
      (length (encode_ints [7, 0, 1, 0, 2000]) + 5) example_td = (Inr (), td')"
    and "tdm_list td' = map (\<lambda>j. extended example_ops (slowest_other [enat 2000, enat 1000] j) ([?m0, example_mcu 1] ! j))
      [0..<length [?m0, example_mcu 1]]"
    by (elim exE conjE) rule
  moreover have "extended example_ops (enat 1000) ?m0 = ?m0"
      "extended example_ops (enat 2000) (example_mcu 1) = (example_mcu 1)\<lparr>tdm_expire_clock := 2250\<rparr>"
    by (simp_all add: extended_def extends_def due_expire_def example_ops_def example_mcu_def)
  moreover have "[0..<length [?m0, example_mcu 1]] = [0, 1]" by (simp add: upt_rec)
  moreover have "[?m0, example_mcu 1] ! 0 = ?m0" "[?m0, example_mcu 1] ! 1 = example_mcu 1" by simp_all
  ultimately have "tdm_list td' = [?m0, (example_mcu 1)\<lparr>tdm_expire_clock := 2250\<rparr>]"
    by (simp only: s list.map)
  then have "map tdm_expire_clock (tdm_list td') = [1250, 2250]" by (simp add: example_mcu_def)
  then show ?thesis using h by (intro exI [of _ td'] conjI)
qed

end
