(* ===== verification/Tmcuart.thy ===== *)
theory Tmcuart
  imports Dispatch
begin

text \<open>
  The single wire UART of TMC drivers (\<^verbatim>\<open>src/tmcuart.c\<close>): a timer toggles the transmit pin at the
  edges of the bits of a request, then samples the receive pin for the bits of the response.  The
  timer of the UART with id \<open>oid\<close> is \<open>T_obj oid 0\<close>.
\<close>

section \<open>State\<close>

datatype tmcuart_func = TU_null | TU_read | TU_read_sync | TU_send_finish | TU_send | TU_send_sync

record tmcuart =
  tu_func :: tmcuart_func
  tu_tx_pin :: u32
  tu_rx_pin :: u32
  tu_flags :: u8
  tu_pos :: u8
  tu_read_count :: u8
  tu_write_count :: u8
  tu_cfg_bit_time :: u32
  tu_bit_time :: u32
  tu_data :: "u8 list"

definition zero_tmcuart :: tmcuart where
  "zero_tmcuart = \<lparr>tu_func = TU_null, tu_tx_pin = 0, tu_rx_pin = 0, tu_flags = 0, tu_pos = 0,
    tu_read_count = 0, tu_write_count = 0, tu_cfg_bit_time = 0, tu_bit_time = 0, tu_data = replicate 10 0\<rparr>"

record tmcuart_s = basecmd_s +
  tmcuarts :: "nat \<Rightarrow> tmcuart"

definition TU_LINE_HIGH :: u8 where "TU_LINE_HIGH = 1"
definition TU_ACTIVE :: u8 where "TU_ACTIVE = 2"
definition TU_READ_SYNC :: u8 where "TU_READ_SYNC = 4"
definition TU_REPORT :: u8 where "TU_REPORT = 8"
definition TU_PULLUP :: u8 where "TU_PULLUP = 16"
definition TU_SINGLE_WIRE :: u8 where "TU_SINGLE_WIRE = 32"

lemmas tu_flag_consts = TU_LINE_HIGH_def TU_ACTIVE_def TU_READ_SYNC_def TU_REPORT_def TU_PULLUP_def TU_SINGLE_WIRE_def

abbreviation tmcuart_upd :: "nat \<Rightarrow> (tmcuart \<Rightarrow> tmcuart) \<Rightarrow> ('a tmcuart_s_scheme, unit) fw" where
  "tmcuart_upd i f \<equiv> upd (\<lambda>s. s\<lparr>tmcuarts := (tmcuarts s)(i := f (tmcuarts s i))\<rparr>)"

abbreviation tmcuart_time :: "nat \<Rightarrow> timer_id" where "tmcuart_time i \<equiv> T_obj i 0"

abbreviation add_wake :: "nat \<Rightarrow> u32 \<Rightarrow> ('a tmcuart_s_scheme, unit) fw" where
  "add_wake i n \<equiv> upd (\<lambda>s. set_wake (tmcuart_time i) (tm_wake s (tmcuart_time i) + n) s)"

section \<open>Ending a transfer\<close>

text \<open>A pin that becomes an output again is driven with the level given; as an input it floats.\<close>

definition gpio_out_reset :: "u32 \<Rightarrow> bool \<Rightarrow> ('a board_scheme, unit) fw" where
  "gpio_out_reset pin val = gpio_out_write pin val"

definition gpio_in_reset :: "u32 \<Rightarrow> u8 \<Rightarrow> ('a board_scheme, unit) fw" where
  "gpio_in_reset pin pull_up = ret ()"

definition tmcuart_reset_line :: "nat \<Rightarrow> ('a tmcuart_s_scheme, unit) fw" where
  "tmcuart_reset_line i =
    bnd (gets (\<lambda>s. tmcuarts s i)) (\<lambda>t.
    thn (if tu_flags t AND TU_SINGLE_WIRE \<noteq> 0 then gpio_out_reset (tu_tx_pin t) True
         else gpio_out_write (tu_tx_pin t) True)
    (tmcuart_upd i (\<lambda>t. t\<lparr>tu_flags := (tu_flags t AND (TU_PULLUP OR TU_SINGLE_WIRE)) OR TU_LINE_HIGH\<rparr>)))"

definition tmcuart_finalize :: "nat \<Rightarrow> ('a tmcuart_s_scheme, sf) fw" where
  "tmcuart_finalize i =
    thn (tmcuart_reset_line i)
    (thn (tmcuart_upd i (\<lambda>t. t\<lparr>tu_flags := tu_flags t OR TU_REPORT\<rparr>))
    (thn (sched_wake_task ''tmcuart_wake'') (ret SF_DONE)))"

section \<open>Reading\<close>

definition store_bit :: "u8 \<Rightarrow> bool \<Rightarrow> u8 \<Rightarrow> u8" where
  "store_bit pos v data =
    (let m = push_bit (unat (pos AND 7)) 1 in if v then data OR m else data AND NOT m)"

definition tmcuart_read_event :: "nat \<Rightarrow> ('a tmcuart_s_scheme, sf) fw" where
  "tmcuart_read_event i =
    bnd (gets (\<lambda>s. tmcuarts s i)) (\<lambda>t.
    bnd (gpio_in_read (tu_rx_pin t)) (\<lambda>v.
    let pos = tu_pos t; k = unat (drop_bit 3 pos) in
    if k \<ge> length (tu_data t) then stuck
    else
      thn (tmcuart_upd i (\<lambda>t. t\<lparr>tu_data := (tu_data t)[k := store_bit pos (v \<noteq> 0) (tu_data t ! k)]\<rparr>))
      (let pos' = pos + 1 in
       if pos' \<ge> tu_read_count t then tmcuart_finalize i
       else
         thn (tmcuart_upd i (\<lambda>t. t\<lparr>tu_pos := pos'\<rparr>))
         (thn (add_wake i (tu_bit_time t)) (ret SF_RESCHEDULE)))))"

definition tmcuart_read_sync_event :: "nat \<Rightarrow> ('a tmcuart_s_scheme, sf) fw" where
  "tmcuart_read_sync_event i =
    bnd (gets (\<lambda>s. tmcuarts s i)) (\<lambda>t.
    bnd (gpio_in_read (tu_rx_pin t)) (\<lambda>v.
    if v = 0 \<and> tu_flags t AND TU_READ_SYNC \<noteq> 0 then
      thn (tmcuart_upd i (\<lambda>t. t\<lparr>tu_pos := 0, tu_func := TU_read\<rparr>)) (tmcuart_read_event i)
    else
      thn (if v \<noteq> 0 then tmcuart_upd i (\<lambda>t. t\<lparr>tu_flags := tu_flags t OR TU_READ_SYNC\<rparr>) else ret ())
      (thn (tmcuart_upd i (\<lambda>t. t\<lparr>tu_pos := tu_pos t + 1\<rparr>))
      (if tu_pos t \<ge> 64 then
         thn (tmcuart_upd i (\<lambda>t. t\<lparr>tu_read_count := 0\<rparr>)) (tmcuart_finalize i)
       else thn (add_wake i (tu_bit_time t)) (ret SF_RESCHEDULE)))))"

section \<open>Sending\<close>

definition tmcuart_send_finish_event :: "nat \<Rightarrow> ('a tmcuart_s_scheme, sf) fw" where
  "tmcuart_send_finish_event i =
    bnd (gets (\<lambda>s. tmcuarts s i)) (\<lambda>t.
    if tu_read_count t = 0 then tmcuart_finalize i
    else
      thn (if tu_flags t AND TU_SINGLE_WIRE \<noteq> 0 then gpio_in_reset (tu_rx_pin t) (tu_flags t AND TU_PULLUP)
           else ret ())
      (thn (tmcuart_upd i (\<lambda>t. t\<lparr>tu_pos := 0, tu_func := TU_read_sync\<rparr>))
      (thn (add_wake i (tu_bit_time t * 4)) (ret SF_RESCHEDULE))))"

definition data_bit :: "u8 list \<Rightarrow> u8 \<Rightarrow> u8" where
  "data_bit data pos = drop_bit (unat (pos AND 7)) (data ! unat (drop_bit 3 pos)) AND 1"

lemma inc_less_max: "(x :: u8) < y \<Longrightarrow> unat (x + 1) = Suc (unat x)"
proof -
  assume "x < y"
  moreover have "unat y < 256" using unsigned_less [of y] by simp
  ultimately show ?thesis by (simp add: unat_word_ariths word_less_nat_alt)
qed

text \<open>
  The search for the next edge: \<open>Inl\<close> when the rest of the bits have the level of the line,
  \<open>Inr\<close> the position of the next bit that differs; \<open>None\<close> is a read outside the data.
\<close>

function edge_loop :: "u8 list \<Rightarrow> u8 \<Rightarrow> u8 \<Rightarrow> u32 \<Rightarrow> u8 \<Rightarrow> u32 \<Rightarrow> (u32 + u8 \<times> u32) option" where
  "edge_loop data write_count line_state bit_time pos next =
    (let pos = pos + 1 in
     if pos \<ge> write_count then Some (Inl next)
     else if unat (drop_bit 3 pos) \<ge> length data then None
     else if data_bit data pos \<noteq> line_state then Some (Inr (pos, next))
     else edge_loop data write_count line_state bit_time pos (next + bit_time))"
  by pat_completeness auto

termination
proof (relation "measure (\<lambda>(_, _, _, _, pos, _). 256 - unat (pos + 1))")
  show "wf (measure (\<lambda>(_, _, _, _, pos, _). 256 - unat (pos + 1)))" by simp
next
  fix data :: "u8 list" and wc ls pos p :: u8 and bt nx :: u32
  assume p: "p = pos + 1" and "\<not> wc \<le> p"
  then have "unat (p + 1) = Suc (unat p)" by (intro inc_less_max) (simp only: not_le)
  moreover have "unat p < 256" using unsigned_less [of p] by simp
  ultimately show "((data, wc, ls, bt, p, nx + bt), data, wc, ls, bt, pos, nx) \<in>
      measure (\<lambda>(_, _, _, _, pos, _). 256 - unat (pos + 1))"
    by (simp only: in_measure prod.case p [symmetric])
qed

declare edge_loop.simps [simp del]

definition tmcuart_send_event :: "nat \<Rightarrow> ('a tmcuart_s_scheme, sf) fw" where
  "tmcuart_send_event i =
    bnd (gets (\<lambda>s. tu_tx_pin (tmcuarts s i))) (\<lambda>pin.
    thn (gpio_out_toggle pin)
    (thn (tmcuart_upd i (\<lambda>t. t\<lparr>tu_flags := tu_flags t XOR TU_LINE_HIGH\<rparr>))
    (bnd (gets (\<lambda>s. tmcuarts s i)) (\<lambda>t.
    case edge_loop (tu_data t) (tu_write_count t) (tu_flags t AND TU_LINE_HIGH) (tu_bit_time t) (tu_pos t) (tu_bit_time t) of
      None \<Rightarrow> stuck
    | Some (Inl next) \<Rightarrow>
        thn (tmcuart_upd i (\<lambda>t. t\<lparr>tu_func := TU_send_finish\<rparr>))
        (thn (add_wake i next) (ret SF_RESCHEDULE))
    | Some (Inr (pos, next)) \<Rightarrow>
        thn (tmcuart_upd i (\<lambda>t. t\<lparr>tu_pos := pos\<rparr>))
        (thn (add_wake i next) (ret SF_RESCHEDULE))))))"

text \<open>
  \<^verbatim>\<open>DIV_ROUND_CLOSEST(diff, 4)\<close> of \<^verbatim>\<open>src/compiler.h\<close> for an \<^verbatim>\<open>int32_t\<close>, with C's division;
  the sum may leave the range, which C leaves undefined.
\<close>

definition DIV_ROUND_CLOSEST4 :: "int \<Rightarrow> int option" where
  "DIV_ROUND_CLOSEST4 x = (if x + 2 < 2 ^ 31 then Some (c_div (x + 2) 4) else None)"

definition tmcuart_send_sync_event :: "nat \<Rightarrow> ('a tmcuart_s_scheme, sf) fw" where
  "tmcuart_send_sync_event i =
    bnd (gets (\<lambda>s. tu_tx_pin (tmcuarts s i))) (\<lambda>pin.
    thn (gpio_out_toggle pin)
    (bnd timer_read_time (\<lambda>cur.
    thn (tmcuart_upd i (\<lambda>t. t\<lparr>tu_flags := tu_flags t XOR TU_LINE_HIGH, tu_pos := tu_pos t + 1\<rparr>))
    (bnd (gets (\<lambda>s. (tmcuarts s i, cur - tm_wake s (tmcuart_time i)))) (\<lambda>(t, offset).
    if tu_pos t \<noteq> 1 \<and> tu_pos t \<ge> 5 then
      let diff = offset - tu_bit_time t in
      (case DIV_ROUND_CLOSEST4 (sint diff) of None \<Rightarrow> stuck
       | Some q \<Rightarrow>
         thn (tmcuart_upd i (\<lambda>t. t\<lparr>tu_bit_time := tu_cfg_bit_time t + word_of_int q, tu_func := TU_send\<rparr>))
         (bnd (gets (\<lambda>s. tu_bit_time (tmcuarts s i))) (\<lambda>bt.
         thn (add_wake i (diff + bt)) (ret SF_RESCHEDULE))))
    else
      thn (if tu_pos t = 1 then tmcuart_upd i (\<lambda>t. t\<lparr>tu_bit_time := offset\<rparr>) else ret ())
      (thn (add_wake i (tu_cfg_bit_time t)) (ret SF_RESCHEDULE)))))))"

definition tmcuart_event :: "nat \<Rightarrow> ('a tmcuart_s_scheme, sf) fw" where
  "tmcuart_event i =
    bnd (gets (\<lambda>s. tu_func (tmcuarts s i))) (\<lambda>f. case f of
      TU_null \<Rightarrow> stuck
    | TU_read \<Rightarrow> tmcuart_read_event i
    | TU_read_sync \<Rightarrow> tmcuart_read_sync_event i
    | TU_send_finish \<Rightarrow> tmcuart_send_finish_event i
    | TU_send \<Rightarrow> tmcuart_send_event i
    | TU_send_sync \<Rightarrow> tmcuart_send_sync_event i)"

section \<open>Commands\<close>

definition command_config_tmcuart :: "nat \<Rightarrow> u32 list \<Rightarrow> ('a tmcuart_s_scheme, unit) fw" where
  "command_config_tmcuart sizeof_t args = (case args of
      [oid, rx_pin, a_pull_up, tx_pin, bit_time] \<Rightarrow>
        bnd (oid_alloc (ucast oid) ''tmcuart'' sizeof_t) (\<lambda>i.
        thn (upd (\<lambda>s. s\<lparr>tmcuarts := (tmcuarts s)(i := zero_tmcuart)\<rparr>))
        (let pull_up = (ucast a_pull_up :: u8) in
         bnd (gpio_in_setup rx_pin (if pull_up \<noteq> 0 then 1 else 0)) (\<lambda>rx.
         thn (tmcuart_upd i (\<lambda>t. t\<lparr>tu_rx_pin := rx\<rparr>))
         (bnd (gpio_out_setup tx_pin True) (\<lambda>tx.
         tmcuart_upd i (\<lambda>t. t\<lparr>tu_tx_pin := tx, tu_cfg_bit_time := bit_time,
           tu_flags := TU_LINE_HIGH OR (if pull_up \<noteq> 0 then TU_PULLUP else 0) OR
             (if rx_pin = tx_pin then TU_SINGLE_WIRE else 0)\<rparr>))))))
    | _ \<Rightarrow> stuck)"

text \<open>
  The request: \<open>buf\<close> is the received block, into which the buffer argument points.
\<close>

definition command_tmcuart_send :: "u8 list \<Rightarrow> u32 list \<Rightarrow> ('a tmcuart_s_scheme, unit) fw" where
  "command_tmcuart_send buf args = (case args of
      [oid, a_write_len, ptr, a_read_len] \<Rightarrow>
        bnd (oid_lookup (ucast oid) ''tmcuart'') (\<lambda>i.
        bnd (gets (\<lambda>s. tmcuarts s i)) (\<lambda>t.
        if tu_flags t AND TU_ACTIVE \<noteq> 0 then ret ()
        else
          let write_len = (ucast a_write_len :: u8); read_len = (ucast a_read_len :: u8);
              n = unat write_len in
          thn (shutdown_if (n > length (tu_data t) \<or> unat read_len > length (tu_data t)) ''tmcuart data too large'')
          (if unat ptr + n > length buf then stuck
           else
             let data = take n (drop (unat ptr) buf) @ drop n (tu_data t);
                 sync = (n \<ge> 1 \<and> data ! 0 AND 0x3f = 0x2a) in
             thn (tmcuart_upd i (\<lambda>t. t\<lparr>tu_data := data, tu_pos := 0,
               tu_flags := (tu_flags t AND (TU_LINE_HIGH OR TU_PULLUP OR TU_SINGLE_WIRE)) OR TU_ACTIVE,
               tu_write_count := write_len * 8, tu_read_count := read_len * 8,
               tu_func := (if sync then TU_send_sync else TU_send),
               tu_bit_time := (if sync then tu_bit_time t else tu_cfg_bit_time t)\<rparr>))
             (bnd timer_read_time (\<lambda>now.
             thn (upd (\<lambda>s. set_wake (tmcuart_time i) (now + timer_from_us 200 s) s))
             (sched_add_timer (tmcuart_time i)))))))
    | _ \<Rightarrow> stuck)"

definition tmcuart_task :: "('a tmcuart_s_scheme, unit) fw" where
  "tmcuart_task =
    bnd (sched_check_wake ''tmcuart_wake'') (\<lambda>w.
    if \<not> w then ret ()
    else foreach_oid ''tmcuart'' (\<lambda>i.
      bnd (gets (\<lambda>s. tmcuarts s i)) (\<lambda>t.
      if tu_flags t AND TU_REPORT = 0 then ret ()
      else
        thn (tmcuart_upd i (\<lambda>t. t\<lparr>tu_flags := tu_flags t AND NOT TU_REPORT\<rparr>))
        (let n = unat (tu_read_count t) div 8 in
         if n > length (tu_data t) then stuck
         else sendf ''tmcuart_response oid=%c read=%*s'' [A_int (of_nat i), A_bytes (take n (tu_data t))]))))"

definition tmcuart_shutdown :: "('a tmcuart_s_scheme, unit) fw" where
  "tmcuart_shutdown = foreach_oid ''tmcuart'' tmcuart_reset_line"

section \<open>The bits on the line\<close>

definition dbit :: "u8 list \<Rightarrow> nat \<Rightarrow> bool" where
  "dbit data q \<longleftrightarrow> bit (data ! (q div 8)) (q mod 8)"

lemma and_7: "unat ((pos :: u8) AND 7) = unat pos mod 8"
proof -
  have "pos AND 7 = take_bit 3 pos" by (simp add: take_bit_eq_mask mask_eq_exp_minus_1)
  then show ?thesis by (simp add: take_bit_eq_mod unat_mod)
qed

lemma drop_3: "unat (drop_bit 3 (pos :: u8)) = unat pos div 8"
  by (simp add: drop_bit_eq_div unat_div)

lemma data_bit_dbit: "data_bit data pos = (if dbit data (unat pos) then 1 else 0)"
  unfolding data_bit_def dbit_def and_7 drop_3
  by (simp add: and_one_eq mod_2_eq_odd bit_iff_odd_drop_bit)

lemma edge_loop_result:
  assumes "pos < wc" and "unat wc \<le> 8 * length data" and "ls = 0 \<or> ls = 1"
  shows "\<exists>r. edge_loop data wc ls bt pos nx = Some r \<and> (case r of
      Inl n \<Rightarrow> n = nx + of_nat (unat wc - Suc (unat pos)) * bt \<and>
        (\<forall>q. unat pos < q \<and> q < unat wc \<longrightarrow> dbit data q = (ls = 1))
    | Inr (p, n) \<Rightarrow> pos < p \<and> p < wc \<and> n = nx + of_nat (unat p - Suc (unat pos)) * bt \<and>
        (\<forall>q. unat pos < q \<and> q < unat p \<longrightarrow> dbit data q = (ls = 1)) \<and> dbit data (unat p) \<noteq> (ls = 1))"
  using assms(1)
proof (induction "unat wc - unat pos" arbitrary: pos nx rule: less_induct)
  case less
  let ?p = "pos + 1"
  have u: "unat ?p = Suc (unat pos)" by (rule inc_less_max [OF less.prems])
  show ?case
  proof (cases "?p \<ge> wc")
    case True
    then have "unat wc = Suc (unat pos)"
      using less.prems u by (simp add: word_le_nat_alt word_less_nat_alt)
    then show ?thesis using True by (subst edge_loop.simps) (auto simp: Let_def)
  next
    case False
    then have lt: "?p < wc" "unat ?p < unat wc" by (simp_all add: not_le word_less_nat_alt)
    then have inb: "unat (drop_bit 3 ?p) < length data"
      using assms(2) unfolding drop_3 by linarith
    show ?thesis
    proof (cases "data_bit data ?p = ls")
      case True
      then have eq: "dbit data (Suc (unat pos)) = (ls = 1)"
        using u by (auto simp: data_bit_dbit split: if_splits)
      have e: "edge_loop data wc ls bt pos nx = edge_loop data wc ls bt ?p (nx + bt)"
        using False inb True by (subst edge_loop.simps) (simp add: Let_def)
      obtain r where r: "edge_loop data wc ls bt ?p (nx + bt) = Some r" "case r of
          Inl n \<Rightarrow> n = nx + bt + of_nat (unat wc - Suc (unat ?p)) * bt \<and>
            (\<forall>q. unat ?p < q \<and> q < unat wc \<longrightarrow> dbit data q = (ls = 1))
        | Inr (p, n) \<Rightarrow> ?p < p \<and> p < wc \<and> n = nx + bt + of_nat (unat p - Suc (unat ?p)) * bt \<and>
            (\<forall>q. unat ?p < q \<and> q < unat p \<longrightarrow> dbit data q = (ls = 1)) \<and> dbit data (unat p) \<noteq> (ls = 1)"
        using less.hyps [of ?p "nx + bt"] lt u by fastforce
      have step: "nx + bt + of_nat (m - Suc (Suc k)) * bt = nx + of_nat (m - Suc k) * bt" if "Suc k < m" for m k
      proof -
        have "m - Suc k = Suc (m - Suc (Suc k))" using that by simp
        then show ?thesis by (simp add: algebra_simps)
      qed
      have next_q: "dbit data q = (ls = 1)" if "unat pos < q" "unat ?p < q \<longrightarrow> dbit data q = (ls = 1)" for q
        using that eq u by (cases "q = Suc (unat pos)") auto
      show ?thesis
      proof (cases r)
        case (Inl n)
        have "n = nx + of_nat (unat wc - Suc (unat pos)) * bt"
          using r(2) step [of "unat pos" "unat wc"] lt(2) unfolding Inl u by simp
        moreover have "dbit data q = (ls = 1)" if "unat pos < q" "q < unat wc" for q
          using r(2) next_q [OF that(1)] that(2) unfolding Inl by simp
        ultimately show ?thesis using r(1) unfolding e Inl by simp
      next
        case (Inr pn)
        obtain p n where pn: "pn = (p, n)" by (cases pn)
        have p: "?p < p" "p < wc" "unat ?p < unat p" using r(2) unfolding Inr pn by (simp_all add: word_less_nat_alt)
        then have "pos < p" using u by (simp add: word_less_nat_alt)
        moreover have "n = nx + of_nat (unat p - Suc (unat pos)) * bt"
          using r(2) step [of "unat pos" "unat p"] p(3) unfolding Inr pn u by simp
        moreover have "dbit data q = (ls = 1)" if "unat pos < q" "q < unat p" for q
          using r(2) next_q [OF that(1)] that(2) unfolding Inr pn by simp
        moreover have "dbit data (unat p) \<noteq> (ls = 1)" using r(2) unfolding Inr pn by simp
        ultimately show ?thesis using r(1) p(2) unfolding e Inr pn by simp
      qed
    next
      case differs: False
      then have "dbit data (unat ?p) \<noteq> (ls = 1)"
        using assms(3) by (auto simp: data_bit_dbit split: if_splits)
      moreover have "edge_loop data wc ls bt pos nx = Some (Inr (?p, nx))"
        using False inb differs by (subst edge_loop.simps) (simp add: Let_def)
      ultimately show ?thesis using lt u by (auto simp: word_less_nat_alt less_Suc_eq)
    qed
  qed
qed

text \<open>
  A run of the sending events.  Between an event and the next the line keeps its level, for a
  number of bit times.
\<close>

fun uart_run :: "nat \<Rightarrow> nat \<Rightarrow> 'a tmcuart_s_scheme \<Rightarrow> bool list \<times> 'a tmcuart_s_scheme" where
  "uart_run 0 i s = ([], s)"
| "uart_run (Suc n) i s =
    (if tu_func (tmcuarts s i) \<noteq> TU_send then ([], s)
     else case tmcuart_event i s of
       (Inr _, s') \<Rightarrow>
         let bits = unat ((tm_wake s' (tmcuart_time i) - tm_wake s (tmcuart_time i)) div tu_bit_time (tmcuarts s i));
             r = uart_run n i s'
         in (replicate bits (bd_outputs s' (tu_tx_pin (tmcuarts s i))) @ fst r, snd r)
     | (Inl _, s') \<Rightarrow> ([], s'))"

text \<open>A transmission that is to send the bit at \<open>tu_pos\<close>, from the opposite level.\<close>

definition sending :: "nat \<Rightarrow> 'a tmcuart_s_scheme \<Rightarrow> bool" where
  "sending i s \<longleftrightarrow> (let t = tmcuarts s i in
    tu_func t = TU_send \<and> tu_pos t < tu_write_count t \<and> unat (tu_write_count t) \<le> 8 * length (tu_data t) \<and>
    0 < tu_bit_time t \<and> unat (tu_write_count t) * unat (tu_bit_time t) < 2 ^ 32 \<and>
    bd_outputs s (tu_tx_pin t) = bit (tu_flags t) 0 \<and> dbit (tu_data t) (unat (tu_pos t)) \<noteq> bit (tu_flags t) 0)"

lemma line_and: "(f :: u8) AND TU_LINE_HIGH = (if bit f 0 then 1 else 0)"
  by (simp add: TU_LINE_HIGH_def and_one_eq mod_2_eq_odd bit_0)

lemma line_xor: "bit ((f :: u8) XOR TU_LINE_HIGH) 0 = (\<not> bit f 0)"
  by (simp add: TU_LINE_HIGH_def bit_simps)

lemma bit_times:
  assumes "n * unat bt < 2 ^ 32" and "0 < (bt :: u32)"
  shows "unat ((of_nat n * bt) div bt) = n"
proof -
  have b: "0 < unat bt" using assms(2) by (simp add: word_less_nat_alt)
  then have "n * 1 \<le> n * unat bt" by (intro mult_le_mono2) simp
  then have n: "n < 2 ^ 32" using assms(1) by linarith
  have "unat (of_nat n * bt) = n * unat bt"
    using assms(1) n by (simp add: unat_word_ariths unat_of_nat take_bit_eq_mod)
  then show ?thesis using b by (simp add: unat_div)
qed

lemma send_event_step:
  assumes "sending i s"
  defines "t \<equiv> tmcuarts s i"
  obtains p s' where "tmcuart_send_event i s = (Inr SF_RESCHEDULE, s')"
    and "unat (tu_pos t) < p" and "p \<le> unat (tu_write_count t)"
    and "tm_wake s' (tmcuart_time i) = tm_wake s (tmcuart_time i) + of_nat (p - unat (tu_pos t)) * tu_bit_time t"
    and "bd_outputs s' (tu_tx_pin t) = dbit (tu_data t) (unat (tu_pos t))"
    and "\<And>q. unat (tu_pos t) \<le> q \<Longrightarrow> q < p \<Longrightarrow> dbit (tu_data t) q = dbit (tu_data t) (unat (tu_pos t))"
    and "p = unat (tu_write_count t) \<Longrightarrow> tmcuarts s' i = t\<lparr>tu_func := TU_send_finish, tu_flags := tu_flags t XOR TU_LINE_HIGH\<rparr>"
    and "p < unat (tu_write_count t) \<Longrightarrow> sending i s' \<and> tmcuarts s' i = t\<lparr>tu_pos := of_nat p, tu_flags := tu_flags t XOR TU_LINE_HIGH\<rparr>"
proof -
  have inv: "tu_func t = TU_send" "tu_pos t < tu_write_count t" "unat (tu_write_count t) \<le> 8 * length (tu_data t)"
      "0 < tu_bit_time t" "unat (tu_write_count t) * unat (tu_bit_time t) < 2 ^ 32"
      "bd_outputs s (tu_tx_pin t) = bit (tu_flags t) 0" "dbit (tu_data t) (unat (tu_pos t)) = (\<not> bit (tu_flags t) 0)"
    using assms(1) by (auto simp: sending_def t_def Let_def)
  let ?f = "tu_flags t XOR TU_LINE_HIGH" and ?ls = "(tu_flags t XOR TU_LINE_HIGH) AND TU_LINE_HIGH"
  define s1 where "s1 = s\<lparr>bd_outputs := (bd_outputs s)(tu_tx_pin t := \<not> bd_outputs s (tu_tx_pin t)),
    tmcuarts := (tmcuarts s)(i := t\<lparr>tu_flags := ?f\<rparr>)\<rparr>"
  have ls: "?ls = 0 \<or> ?ls = 1" "(?ls = 1) = dbit (tu_data t) (unat (tu_pos t))"
    using inv(7) by (simp_all add: line_and line_xor)
  obtain r where r: "edge_loop (tu_data t) (tu_write_count t) ?ls (tu_bit_time t) (tu_pos t) (tu_bit_time t) = Some r"
      "case r of
        Inl n \<Rightarrow> n = tu_bit_time t + of_nat (unat (tu_write_count t) - Suc (unat (tu_pos t))) * tu_bit_time t \<and>
          (\<forall>q. unat (tu_pos t) < q \<and> q < unat (tu_write_count t) \<longrightarrow> dbit (tu_data t) q = (?ls = 1))
      | Inr (p, n) \<Rightarrow> tu_pos t < p \<and> p < tu_write_count t \<and>
          n = tu_bit_time t + of_nat (unat p - Suc (unat (tu_pos t))) * tu_bit_time t \<and>
          (\<forall>q. unat (tu_pos t) < q \<and> q < unat p \<longrightarrow> dbit (tu_data t) q = (?ls = 1)) \<and> dbit (tu_data t) (unat p) \<noteq> (?ls = 1)"
    using edge_loop_result [OF inv(2,3) ls(1)] by blast
  have mult: "tu_bit_time t + of_nat (m - Suc k) * tu_bit_time t = of_nat (m - k) * tu_bit_time t" if "k < m" for m k
  proof -
    have "m - k = Suc (m - Suc k)" using that by simp
    then show ?thesis by (simp add: algebra_simps)
  qed
  show thesis
  proof (cases r)
    case (Inl n)
    let ?s = "set_wake (tmcuart_time i) (tm_wake s (tmcuart_time i) + n)
      (s1\<lparr>tmcuarts := (tmcuarts s1)(i := (tmcuarts s1 i)\<lparr>tu_func := TU_send_finish\<rparr>)\<rparr>)"
    have "tmcuart_send_event i s = (Inr SF_RESCHEDULE, ?s)"
      using r(1) unfolding Inl
      by (simp add: tmcuart_send_event_def gpio_out_toggle_def fw_unfold t_def [symmetric] s1_def)
    then show thesis
    proof (rule that [of ?s "unat (tu_write_count t)"])
    qed (use inv(2,6,7) r(2) ls(2) mult [of "unat (tu_pos t)" "unat (tu_write_count t)"] in
        \<open>auto simp: Inl s1_def word_less_nat_alt le_less\<close>)
  next
    case (Inr pn)
    obtain p n where pn: "pn = (p, n)" by (cases pn)
    let ?s = "set_wake (tmcuart_time i) (tm_wake s (tmcuart_time i) + n)
      (s1\<lparr>tmcuarts := (tmcuarts s1)(i := (tmcuarts s1 i)\<lparr>tu_pos := p\<rparr>)\<rparr>)"
    have "tmcuart_send_event i s = (Inr SF_RESCHEDULE, ?s)"
      using r(1) unfolding Inr pn
      by (simp add: tmcuart_send_event_def gpio_out_toggle_def fw_unfold t_def [symmetric] s1_def)
    then show thesis
    proof (rule that [of ?s "unat p"])
      show "sending i ?s \<and> tmcuarts ?s i = t\<lparr>tu_pos := of_nat (unat p), tu_flags := ?f\<rparr>"
        using inv r(2) ls(2) by (simp add: Inr pn s1_def sending_def line_xor)
    qed (use inv(2,6,7) r(2) ls(2) mult [of "unat (tu_pos t)" "unat p"] in
        \<open>auto simp: Inr pn s1_def word_less_nat_alt le_less\<close>)
  qed
qed

lemma uart_run_bits:
  "sending i s \<Longrightarrow> unat (tu_write_count (tmcuarts s i)) - unat (tu_pos (tmcuarts s i)) \<le> n \<Longrightarrow>
    (\<exists>s'. uart_run n i s = (map (dbit (tu_data (tmcuarts s i)))
        [unat (tu_pos (tmcuarts s i))..<unat (tu_write_count (tmcuarts s i))], s') \<and>
      tu_func (tmcuarts s' i) = TU_send_finish \<and>
      tm_wake s' (tmcuart_time i) = tm_wake s (tmcuart_time i) +
        of_nat (unat (tu_write_count (tmcuarts s i)) - unat (tu_pos (tmcuarts s i))) * tu_bit_time (tmcuarts s i))"
proof (induction n arbitrary: s)
  case 0
  then show ?case by (simp add: sending_def Let_def word_less_nat_alt)
next
  case (Suc n)
  define t where "t = tmcuarts s i"
  let ?k = "unat (tu_pos t)" and ?w = "unat (tu_write_count t)"
  obtain p s' where st: "tmcuart_send_event i s = (Inr SF_RESCHEDULE, s')" "?k < p" "p \<le> ?w"
      "tm_wake s' (tmcuart_time i) = tm_wake s (tmcuart_time i) + of_nat (p - ?k) * tu_bit_time t"
      "bd_outputs s' (tu_tx_pin t) = dbit (tu_data t) ?k"
      "\<And>q. ?k \<le> q \<Longrightarrow> q < p \<Longrightarrow> dbit (tu_data t) q = dbit (tu_data t) ?k"
      "p = ?w \<Longrightarrow> tmcuarts s' i = t\<lparr>tu_func := TU_send_finish, tu_flags := tu_flags t XOR TU_LINE_HIGH\<rparr>"
      "p < ?w \<Longrightarrow> sending i s' \<and> tmcuarts s' i = t\<lparr>tu_pos := of_nat p, tu_flags := tu_flags t XOR TU_LINE_HIGH\<rparr>"
    by (rule send_event_step [OF Suc.prems(1), folded t_def]) (rule that, assumption+)
  have inv: "tu_func t = TU_send" "0 < tu_bit_time t" "?w * unat (tu_bit_time t) < 2 ^ 32"
    using Suc.prems(1) by (auto simp: sending_def t_def Let_def)
  have ev: "tmcuart_event i s = (Inr SF_RESCHEDULE, s')"
    using inv(1) st(1) by (simp add: tmcuart_event_def fw_unfold t_def)
  have "(p - ?k) * unat (tu_bit_time t) < 2 ^ 32"
    using inv(3) st(3) mult_le_mono1 [of "p - ?k" ?w "unat (tu_bit_time t)"] by linarith
  then have bits: "unat ((tm_wake s' (tmcuart_time i) - tm_wake s (tmcuart_time i)) div tu_bit_time t) = p - ?k"
    unfolding st(4) by (simp add: bit_times inv(2))
  have same: "dbit (tu_data t) (?k + j) = dbit (tu_data t) ?k" if "j < p - ?k" for j
    by (rule st(6)) (use that in simp_all)
  have level: "replicate (p - ?k) (dbit (tu_data t) ?k) = map (dbit (tu_data t)) [?k..<p]"
    by (intro nth_equalityI) (simp_all add: same)
  have split: "map (dbit (tu_data t)) [?k..<?w] = map (dbit (tu_data t)) [?k..<p] @ map (dbit (tu_data t)) [p..<?w]"
    using st(2,3) upt_add_eq_append [of ?k p "?w - p"] by simp
  have run: "uart_run (Suc n) i s = (map (dbit (tu_data t)) [?k..<p] @ fst (uart_run n i s'), snd (uart_run n i s'))"
    using inv(1) bits level st(5) by (simp add: ev t_def [symmetric] Let_def)
  show ?case
  proof (cases "p = ?w")
    case True
    have "uart_run n i s' = ([], s')" using st(7) [OF True] by (cases n) simp_all
    then have "uart_run (Suc n) i s = (map (dbit (tu_data t)) [?k..<?w], s')" unfolding run by (simp add: True)
    moreover have "tu_func (tmcuarts s' i) = TU_send_finish" using st(7) [OF True] by simp
    ultimately show ?thesis using st(4) unfolding t_def [symmetric] True by (intro exI [of _ s'] conjI)
  next
    case False
    then have lt: "p < ?w" using st(3) by simp
    note s' = st(8) [OF lt]
    have "?w < 256" using unsigned_less [of "tu_write_count t"] by simp
    then have u: "unat (of_nat p :: u8) = p" using lt by (simp add: unat_of_nat take_bit_eq_mod)
    have f: "tu_data (tmcuarts s' i) = tu_data t" "unat (tu_pos (tmcuarts s' i)) = p"
        "tu_write_count (tmcuarts s' i) = tu_write_count t" "tu_bit_time (tmcuarts s' i) = tu_bit_time t"
      using s' u by simp_all
    have le: "?w - p \<le> n" using Suc.prems(2) st(2) unfolding t_def [symmetric] by linarith
    obtain s'' where r: "uart_run n i s' = (map (dbit (tu_data t)) [p..<?w], s'')"
        "tu_func (tmcuarts s'' i) = TU_send_finish"
        "tm_wake s'' (tmcuart_time i) = tm_wake s' (tmcuart_time i) + of_nat (?w - p) * tu_bit_time t"
      using Suc.IH [of s', unfolded f, OF conjunct1 [OF s'] le] by (elim exE conjE)
    have eq: "(of_nat (p - ?k) :: u32) + of_nat (?w - p) = of_nat (?w - ?k)"
      using st(2,3) by (simp flip: of_nat_add)
    have "tm_wake s'' (tmcuart_time i) = tm_wake s (tmcuart_time i) + of_nat (?w - ?k) * tu_bit_time t"
      unfolding r(3) st(4) add.assoc distrib_right [symmetric] eq by (rule refl)
    moreover have "uart_run (Suc n) i s = (map (dbit (tu_data t)) [?k..<?w], s'')"
      unfolding run r(1) split by simp
    ultimately show ?thesis using r(2) unfolding t_def [symmetric] by (intro exI [of _ s''] conjI)
  qed
qed

text \<open>The UART after an accepted request.\<close>

lemma send_command_state:
  assumes "command_tmcuart_send buf [oid, wl, ptr, rl] s = (Inr (), s1)"
    and "oid_lookup (ucast oid) ''tmcuart'' s = (Inr i, s)" and "t = tmcuarts s i"
    and "tu_flags t AND TU_ACTIVE = 0" and "length (tu_data t) = 10" and "n = unat (ucast wl :: u8)" and "0 < n"
    and "req = take n (drop (unat ptr) buf)" and "sync = (req ! 0 AND 0x3f = 0x2a)"
  shows "tmcuarts s1 i = t\<lparr>tu_data := req @ drop n (tu_data t), tu_pos := 0,
      tu_flags := (tu_flags t AND (TU_LINE_HIGH OR TU_PULLUP OR TU_SINGLE_WIRE)) OR TU_ACTIVE,
      tu_write_count := ucast wl * 8, tu_read_count := ucast rl * 8, tu_func := (if sync then TU_send_sync else TU_send),
      tu_bit_time := (if sync then tu_bit_time t else tu_cfg_bit_time t)\<rparr>" (is "_ = ?t1")
    and "bd_outputs s1 = bd_outputs s" and "length req = n" and "n \<le> 10"
proof -
  have ok: "\<not> (n > 10 \<or> unat (ucast rl :: u8) > 10)" "unat ptr + n \<le> length buf"
    using assms(1,2,4,5) unfolding assms(3,6)
    by (auto simp: command_tmcuart_send_def fw_unfold Let_def split: if_splits)
  show len: "length req = n" using ok(2) by (simp add: assms(8))
  show "n \<le> 10" using ok(1) by simp
  have first: "(req @ drop n (tu_data t)) ! 0 = req ! 0" using assms(7) len by (simp add: nth_append)
  define s0 where "s0 = (let s' = s\<lparr>tmcuarts := (tmcuarts s)(i := ?t1), bd_clock_reads := Suc (bd_clock_reads s)\<rparr> in
    set_wake (tmcuart_time i) (bd_clock s (bd_clock_reads s) + timer_from_us 200 s) s')"
  have n1: "1 \<le> unat (ucast wl :: u8)" using assms(6,7) by simp
  have add: "sched_add_timer (tmcuart_time i) s0 = (Inr (), s1)"
  proof (cases sync)
    case True
    then have "(req @ drop n (tu_data t)) ! 0 AND 0x3f = 0x2a" unfolding first assms(9) .
    then show ?thesis
      using assms(1,2,4,5) ok n1 True unfolding s0_def assms(6,8)
      by (simp add: command_tmcuart_send_def fw_unfold assms(3) [symmetric] timer_read_time_def Let_def
          timer_from_us_def split: if_splits)
  next
    case False
    then have "(req @ drop n (tu_data t)) ! 0 AND 0x3f \<noteq> 0x2a" unfolding first assms(9) .
    then show ?thesis
      using assms(1,2,4,5) ok n1 False unfolding s0_def assms(6,8)
      by (simp add: command_tmcuart_send_def fw_unfold assms(3) [symmetric] timer_read_time_def Let_def
          timer_from_us_def split: if_splits)
  qed
  have fr: "detimer s1 = detimer s0" using add_timer_frame [of "tmcuart_time i" s0] add by simp
  show "tmcuarts s1 i = ?t1" "bd_outputs s1 = bd_outputs s"
    using arg_cong [OF fr, of tmcuarts] arg_cong [OF fr, of bd_outputs] by (simp_all add: detimer_def s0_def Let_def)
qed

lemma count_bits: "unat (wl :: u8) \<le> 10 \<Longrightarrow> unat (wl * 8) = 8 * unat wl"
  by (simp add: unat_word_ariths)

lemma dbit_prefix: "q < 8 * length req \<Longrightarrow> dbit (req @ r) q = dbit req q"
proof -
  assume "q < 8 * length req"
  then have "q div 8 < length req" by linarith
  then show ?thesis by (simp add: dbit_def nth_append)
qed

lemma dbit_prefix_map: "j \<le> 8 * length req \<Longrightarrow> map (dbit (req @ r)) [k..<j] = map (dbit req) [k..<j]"
  by (simp add: dbit_prefix)

lemma line_kept: "bit (((f :: u8) AND (TU_LINE_HIGH OR TU_PULLUP OR TU_SINGLE_WIRE)) OR TU_ACTIVE) 0 = bit f 0"
  by (auto simp: tu_flag_consts bit_simps)

text \<open>
  A request without the sync nibble: the sending events hold the transmit pin at bit \<open>q\<close> of the request
  for one bit time, for every \<open>q\<close> in order.
\<close>

lemma tmcuart_sends_plain:
  assumes "command_tmcuart_send buf [oid, wl, ptr, rl] s = (Inr (), s1)"
    and "oid_lookup (ucast oid) ''tmcuart'' s = (Inr i, s)"
    and "tu_flags (tmcuarts s i) AND TU_ACTIVE = 0" and "length (tu_data (tmcuarts s i)) = 10"
    and "bit (tu_flags (tmcuarts s i)) 0" and "bd_outputs s (tu_tx_pin (tmcuarts s i))"
    and "n = unat (ucast wl :: u8)" and "0 < n"
    and "req = take n (drop (unat ptr) buf)" and "\<not> dbit req 0" and "req ! 0 AND 0x3f \<noteq> 0x2a"
    and "0 < tu_cfg_bit_time (tmcuarts s i)" and "80 * unat (tu_cfg_bit_time (tmcuarts s i)) < 2 ^ 32"
  shows "\<exists>s2. uart_run (8 * n) i s1 = (map (dbit req) [0..<8 * n], s2) \<and>
    tu_func (tmcuarts s2 i) = TU_send_finish \<and>
    tm_wake s2 (tmcuart_time i) = tm_wake s1 (tmcuart_time i) + of_nat (8 * n) * tu_cfg_bit_time (tmcuarts s i)"
proof -
  note st = send_command_state [OF assms(1,2) refl assms(3,4,7,8,9) refl]
  have wc: "unat (ucast wl * 8 :: u8) = 8 * n" using count_bits [of "ucast wl"] st(4) by (simp add: assms(7))
  have "8 * n * unat (tu_cfg_bit_time (tmcuarts s i)) \<le> 80 * unat (tu_cfg_bit_time (tmcuarts s i))"
    using st(4) by (intro mult_le_mono1) simp
  then have lim: "8 * n * unat (tu_cfg_bit_time (tmcuarts s i)) < 2 ^ 32" using assms(13) by linarith
  have d0: "\<not> dbit (req @ drop n (tu_data (tmcuarts s i))) 0" using assms(8,10) st(3) by (simp add: dbit_prefix)
  have "sending i s1"
    using assms(4-6,8,11,12) wc d0 lim st(3,4)
    by (simp add: sending_def st(1,2) line_kept word_less_nat_alt)
  then obtain s2 where "uart_run (8 * n) i s1 = (map (dbit (req @ drop n (tu_data (tmcuarts s i)))) [0..<8 * n], s2)"
      "tu_func (tmcuarts s2 i) = TU_send_finish"
      "tm_wake s2 (tmcuart_time i) = tm_wake s1 (tmcuart_time i) + of_nat (8 * n) * tu_cfg_bit_time (tmcuarts s i)"
    using uart_run_bits [of i s1 "8 * n"] wc assms(11) by (auto simp: st(1))
  then show ?thesis using dbit_prefix_map [of "8 * n" req] st(3) by (intro exI [of _ s2]) simp
qed

text \<open>
  The events of the sync nibble, in which the micro-controller measures its own timing: for each of them the level of the
  line after it, and the clock for which it was due.
\<close>

fun sync_run :: "nat \<Rightarrow> nat \<Rightarrow> 'a tmcuart_s_scheme \<Rightarrow> (bool \<times> u32) list \<times> 'a tmcuart_s_scheme" where
  "sync_run 0 i s = ([], s)"
| "sync_run (Suc n) i s =
    (if tu_func (tmcuarts s i) \<noteq> TU_send_sync then ([], s)
     else case tmcuart_event i s of
       (Inr _, s') \<Rightarrow>
         let r = sync_run n i s'
         in ((bd_outputs s' (tu_tx_pin (tmcuarts s i)), tm_wake s (tmcuart_time i)) # fst r, snd r)
     | (Inl _, s') \<Rightarrow> ([], s'))"

declare sync_run.simps [simp del]

text \<open>After \<open>k\<close> of the events, the first of which was due at \<open>w\<close> and read the clock as number \<open>r0\<close>.\<close>

definition syncing :: "nat \<Rightarrow> nat \<Rightarrow> tmcuart \<Rightarrow> u32 \<Rightarrow> (nat \<Rightarrow> u32) \<Rightarrow> nat \<Rightarrow> 'a tmcuart_s_scheme \<Rightarrow> bool" where
  "syncing k i t w clk r0 s \<longleftrightarrow>
    (\<exists>f bt. tmcuarts s i = t\<lparr>tu_flags := f, tu_pos := of_nat k, tu_bit_time := bt\<rparr> \<and> bit f 0 = even k \<and>
      (0 < k \<longrightarrow> bt = clk r0 - w)) \<and>
    bd_outputs s (tu_tx_pin t) = even k \<and> tm_wake s (tmcuart_time i) = w + of_nat k * tu_cfg_bit_time t \<and>
    bd_clock s = clk \<and> bd_clock_reads s = r0 + k"

lemma sync_step:
  assumes "syncing k i t w clk r0 s" and "tu_func t = TU_send_sync" and "k < 4"
  shows "\<exists>s'. tmcuart_event i s = (Inr SF_RESCHEDULE, s') \<and> syncing (Suc k) i t w clk r0 s'"
proof -
  obtain f bt where t: "tmcuarts s i = t\<lparr>tu_flags := f, tu_pos := of_nat k, tu_bit_time := bt\<rparr>" "bit f 0 = even k"
      "0 < k \<longrightarrow> bt = clk r0 - w"
    and o: "bd_outputs s (tu_tx_pin t) = even k" "tm_wake s (tmcuart_time i) = w + of_nat k * tu_cfg_bit_time t"
      "bd_clock s = clk" "bd_clock_reads s = r0 + k"
    using assms(1) unfolding syncing_def by blast
  define bt' where "bt' = (if k = 0 then clk r0 - w else bt)"
  define s' where "s' = set_wake (tmcuart_time i) (w + of_nat k * tu_cfg_bit_time t + tu_cfg_bit_time t)
    (s\<lparr>bd_outputs := (bd_outputs s)(tu_tx_pin t := \<not> bd_outputs s (tu_tx_pin t)), bd_clock_reads := Suc (bd_clock_reads s),
       tmcuarts := (tmcuarts s)(i := t\<lparr>tu_flags := f XOR TU_LINE_HIGH, tu_pos := of_nat k + 1, tu_bit_time := bt'\<rparr>)\<rparr>)"
  have k: "k = 0 \<or> k = 1 \<or> k = 2 \<or> k = 3" using assms(3) by linarith
  then have p: "\<not> (of_nat k + 1 \<noteq> (1 :: u8) \<and> of_nat k + 1 \<ge> (5 :: u8))" "(of_nat k + 1 = (1 :: u8)) = (k = 0)" by auto
  have "tmcuart_event i s = (Inr SF_RESCHEDULE, s')"
  proof (cases "k = 0")
    case True
    then show ?thesis using assms(2) o
      by (cases t) (simp add: tmcuart_event_def tmcuart_send_sync_event_def gpio_out_toggle_def timer_read_time_def fw_unfold t(1) s'_def bt'_def)
  next
    case False
    then have p': "of_nat k + 1 \<noteq> (1 :: u8)" "\<not> of_nat k + 1 \<ge> (5 :: u8)" using p by auto
    show ?thesis using assms(2) o False p'
      by (cases t) (simp add: tmcuart_event_def tmcuart_send_sync_event_def gpio_out_toggle_def timer_read_time_def fw_unfold t(1) s'_def bt'_def)
  qed
  moreover have "syncing (Suc k) i t w clk r0 s'"
    unfolding syncing_def
    by (intro conjI exI [of _ "f XOR TU_LINE_HIGH"] exI [of _ bt'])
      (use t o in \<open>auto simp: s'_def bt'_def line_xor algebra_simps\<close>)
  ultimately show ?thesis by blast
qed

lemma sync_run_levels:
  "syncing k i t w clk r0 s \<Longrightarrow> tu_func t = TU_send_sync \<Longrightarrow> k + n \<le> 4 \<Longrightarrow>
    \<exists>s'. sync_run (n + m) i s = (map (\<lambda>q. (odd q, w + of_nat q * tu_cfg_bit_time t)) [k..<k + n] @ fst (sync_run m i s'), snd (sync_run m i s'))
      \<and> syncing (k + n) i t w clk r0 s'"
proof (induction n arbitrary: k s)
  case 0
  then show ?case by (intro exI [of _ s]) simp
next
  case (Suc n)
  obtain s1 where s1: "tmcuart_event i s = (Inr SF_RESCHEDULE, s1)" "syncing (Suc k) i t w clk r0 s1"
    using sync_step [OF Suc.prems(1,2)] Suc.prems(3) by auto
  obtain s' where s': "sync_run (n + m) i s1 = (map (\<lambda>q. (odd q, w + of_nat q * tu_cfg_bit_time t)) [Suc k..<Suc k + n] @
      fst (sync_run m i s'), snd (sync_run m i s'))" "syncing (Suc k + n) i t w clk r0 s'"
    using Suc.IH [OF s1(2)] Suc.prems by auto
  have f: "tu_func (tmcuarts s i) = TU_send_sync" "tu_tx_pin (tmcuarts s i) = tu_tx_pin t"
      "tm_wake s (tmcuart_time i) = w + of_nat k * tu_cfg_bit_time t"
    using Suc.prems(1,2) by (auto simp: syncing_def)
  have o: "bd_outputs s1 (tu_tx_pin t) = odd k" using s1(2) by (simp add: syncing_def)
  have "sync_run (Suc (n + m)) i s = ((odd k, w + of_nat k * tu_cfg_bit_time t) # fst (sync_run (n + m) i s1), snd (sync_run (n + m) i s1))"
    using f o by (simp add: s1(1) Let_def sync_run.simps)
  moreover have "[k..<k + Suc n] = k # [Suc k..<Suc k + n]" by (subst upt_conv_Cons) simp_all
  ultimately show ?case using s' by (intro exI [of _ s']) (simp only: add_Suc add_Suc_right list.map append_Cons fst_conv snd_conv simp_thms)
qed

text \<open>The measured bit time.\<close>

definition measured :: "u32 \<Rightarrow> int \<Rightarrow> u32" where
  "measured bit_time jitter = bit_time + word_of_int (c_div (jitter + 2) 4)"

lemma measured_range:
  assumes "\<bar>j\<bar> \<le> 2 * uint bt" and "0 < bt" and "160 * unat bt < 2 ^ 32"
  shows "0 < measured bt j" and "unat (measured bt j) \<le> 2 * unat bt"
proof -
  have n: "uint bt = int (unat bt)" by simp
  have "0 < unat bt" using assms(2) by (simp add: word_less_nat_alt)
  moreover have "160 * int (unat bt) < 2 ^ 32" using assms(3) of_nat_less_iff [of "160 * unat bt" "2 ^ 32", where 'a = int] by simp
  ultimately have b: "0 < uint bt" "160 * uint bt < 2 ^ 32" unfolding n by linarith+
  have q: "4 * (\<bar>j + 2\<bar> div 4) \<le> \<bar>j + 2\<bar>" "0 \<le> \<bar>j + 2\<bar> div 4" by simp_all
  have d: "- uint bt < c_div (j + 2) 4" "c_div (j + 2) 4 \<le> uint bt"
  proof -
    consider "j + 2 = 0" | "0 < j + 2" "c_div (j + 2) 4 = \<bar>j + 2\<bar> div 4" | "j + 2 < 0" "c_div (j + 2) 4 = - (\<bar>j + 2\<bar> div 4)"
      by (cases "j + 2" "0 :: int" rule: linorder_cases) (simp_all add: c_div_def)
    then have "- uint bt < c_div (j + 2) 4 \<and> c_div (j + 2) 4 \<le> uint bt"
    proof cases
      case 1
      then show ?thesis using b(1) by (simp add: c_div_def)
    next
      case 2
      then have "\<bar>j + 2\<bar> \<le> 2 * uint bt + 2" using assms(1) by linarith
      then show ?thesis using 2(2) q b(1) by linarith
    next
      case 3
      then have "\<bar>j + 2\<bar> \<le> 2 * uint bt - 2" using assms(1) by linarith
      then show ?thesis using 3(2) q b(1) by linarith
    qed
    then show "- uint bt < c_div (j + 2) 4" "c_div (j + 2) 4 \<le> uint bt" by simp_all
  qed
  have "uint (measured bt j) = (uint bt + c_div (j + 2) 4) mod 2 ^ 32"
    by (simp add: measured_def uint_word_ariths uint_word_of_int mod_simps)
  also have "\<dots> = uint bt + c_div (j + 2) 4" using d b by (intro mod_pos_pos_trivial) linarith+
  finally have u: "uint (measured bt j) = uint bt + c_div (j + 2) 4" .
  have m: "uint (measured bt j) = int (unat (measured bt j))" by simp
  have "0 < unat (measured bt j)" using u d unfolding m by linarith
  then show "0 < measured bt j" by (simp add: word_less_nat_alt)
  show "unat (measured bt j) \<le> 2 * unat bt" using u d unfolding m n by linarith
qed

text \<open>The last event of the nibble.\<close>

lemma sync_last:
  assumes "syncing 4 i t w clk r0 s" and "tu_func t = TU_send_sync"
    and "j = sint (clk (r0 + 4) - clk r0 - 4 * tu_cfg_bit_time t)" and "\<bar>j\<bar> \<le> 2 * uint (tu_cfg_bit_time t)"
    and "160 * unat (tu_cfg_bit_time t) < 2 ^ 32"
  shows "\<exists>s' f. sync_run (Suc 0) i s = ([(False, w + 4 * tu_cfg_bit_time t)], s') \<and>
    tmcuarts s' i = t\<lparr>tu_flags := f, tu_pos := 5, tu_bit_time := measured (tu_cfg_bit_time t) j, tu_func := TU_send\<rparr> \<and>
    \<not> bit f 0 \<and> \<not> bd_outputs s' (tu_tx_pin t) \<and>
    tm_wake s' (tmcuart_time i) = clk (r0 + 4) - (clk r0 - w) + measured (tu_cfg_bit_time t) j"
proof -
  obtain f bt where t: "tmcuarts s i = t\<lparr>tu_flags := f, tu_pos := of_nat 4, tu_bit_time := bt\<rparr>" "bit f 0" "bt = clk r0 - w"
    and o: "bd_outputs s (tu_tx_pin t)" "tm_wake s (tmcuart_time i) = w + of_nat 4 * tu_cfg_bit_time t"
      "bd_clock s = clk" "bd_clock_reads s = r0 + 4"
    using assms(1) unfolding syncing_def by auto
  let ?diff = "clk (r0 + 4) - clk r0 - 4 * tu_cfg_bit_time t"
  have diff: "clk (r0 + 4) - (w + 4 * tu_cfg_bit_time t) - (clk r0 - w) = ?diff" by (simp add: algebra_simps)
  have n: "uint (tu_cfg_bit_time t) = int (unat (tu_cfg_bit_time t))" by simp
  have "160 * uint (tu_cfg_bit_time t) < 2 ^ 32" unfolding n using assms(5) of_nat_less_iff [of "160 * unat (tu_cfg_bit_time t)" "2 ^ 32", where 'a = int] by simp
  moreover have pw: "(2 :: int) ^ 32 = 2 * 2 ^ 31" "(4 :: int) \<le> 2 ^ 31" by simp_all
  ultimately have q: "DIV_ROUND_CLOSEST4 (sint ?diff) = Some (c_div (j + 2) 4)"
    using assms(4) unfolding DIV_ROUND_CLOSEST4_def assms(3) [symmetric] by (intro if_P) (use pw in linarith)
  define s' where "s' = set_wake (tmcuart_time i) (w + 4 * tu_cfg_bit_time t + (?diff + measured (tu_cfg_bit_time t) j))
    (s\<lparr>bd_outputs := (bd_outputs s)(tu_tx_pin t := False), bd_clock_reads := Suc (bd_clock_reads s),
       tmcuarts := (tmcuarts s)(i := t\<lparr>tu_flags := f XOR TU_LINE_HIGH, tu_pos := 5,
         tu_bit_time := measured (tu_cfg_bit_time t) j, tu_func := TU_send\<rparr>)\<rparr>)"
  have ev: "tmcuart_event i s = (Inr SF_RESCHEDULE, s')"
    using assms(2) o by (simp add: tmcuart_event_def tmcuart_send_sync_event_def gpio_out_toggle_def timer_read_time_def fw_unfold
        t(1,3) diff q Let_def s'_def measured_def)
  have "sync_run (Suc 0) i s = ([(False, w + 4 * tu_cfg_bit_time t)], s')"
    using assms(2) o(2) by (simp add: ev t(1) sync_run.simps) (simp add: s'_def)
  moreover have "tm_wake s' (tmcuart_time i) = clk (r0 + 4) - (clk r0 - w) + measured (tu_cfg_bit_time t) j"
    by (simp add: s'_def)
  ultimately show ?thesis using t(2) by (intro exI [of _ s'] exI [of _ "f XOR TU_LINE_HIGH"]) (simp add: s'_def line_xor)
qed

lemma sync_bits: "(x :: u8) AND 0x3f = 0x2a \<Longrightarrow> q < 6 \<Longrightarrow> bit x q = odd q"
proof -
  assume x: "x AND 0x3f = 0x2a" and q: "q < 6"
  have q: "q = 0 \<or> q = 1 \<or> q = 2 \<or> q = 3 \<or> q = 4 \<or> q = 5" using q by linarith
  then have "bit x q = bit (x AND 0x3f) q" by (auto simp: bit_and_iff)
  also have "\<dots> = odd q" unfolding x using q by auto
  finally show ?thesis .
qed

text \<open>
  C39: the line carries the request.  After \<^verbatim>\<open>tmcuart_send\<close> on an idle UART, for a request that starts with the
  sync nibble, as all requests of the host do, the first five events, each due one bit time after the one before, put the
  first five bits on the line.  Then the bit time is measured: it is a quarter of what passed between the first edge and the
  fifth, rounded, and the next edge is due that long after the fifth one, less the latency of the first.  The events that
  follow hold every other bit \<open>q\<close> of the request for one measured bit time, in order, and end with
  the event that ends the transmission.  The jitter of the events within the nibble is at most two bit times.
\<close>

theorem tmcuart_sends_request:
  assumes "command_tmcuart_send buf [oid, wl, ptr, rl] s = (Inr (), s1)"
    and "oid_lookup (ucast oid) ''tmcuart'' s = (Inr i, s)" and "t = tmcuarts s i"
    and "tu_flags t AND TU_ACTIVE = 0" and "length (tu_data t) = 10"
    and "bit (tu_flags t) 0" and "bd_outputs s (tu_tx_pin t)"
    and "n = unat (ucast wl :: u8)" and "0 < n"
    and "req = take n (drop (unat ptr) buf)" and "req ! 0 AND 0x3f = 0x2a"
    and "0 < tu_cfg_bit_time t" and "160 * unat (tu_cfg_bit_time t) < 2 ^ 32"
    and "first = bd_clock s1 (bd_clock_reads s1)" and "fifth = bd_clock s1 (bd_clock_reads s1 + 4)"
    and "j = sint (fifth - first - 4 * tu_cfg_bit_time t)" and "\<bar>j\<bar> \<le> 2 * uint (tu_cfg_bit_time t)"
    and "w = tm_wake s1 (tmcuart_time i)" and "bt = measured (tu_cfg_bit_time t) j"
  shows "\<exists>s2 s3. sync_run 5 i s1 = (map (\<lambda>q. (dbit req q, w + of_nat q * tu_cfg_bit_time t)) [0..<5], s2) \<and>
    tm_wake s2 (tmcuart_time i) = fifth - (first - w) + bt \<and>
    uart_run (8 * n - 5) i s2 = (map (dbit req) [5..<8 * n], s3) \<and>
    tu_func (tmcuarts s3 i) = TU_send_finish \<and>
    tm_wake s3 (tmcuart_time i) = tm_wake s2 (tmcuart_time i) + of_nat (8 * n - 5) * bt"
proof -
  define data where "data = req @ drop n (tu_data t)"
  define t1 where "t1 = tmcuarts s1 i"
  note st = send_command_state [OF assms(1-5,8,9,10) refl, folded t1_def]
  have t1: "tu_func t1 = TU_send_sync" "tu_cfg_bit_time t1 = tu_cfg_bit_time t" "tu_tx_pin t1 = tu_tx_pin t"
      "tu_data t1 = data" "tu_pos t1 = 0" "bit (tu_flags t1) 0" "tu_write_count t1 = ucast wl * 8"
    using assms(6,11) by (simp_all add: st(1) data_def line_kept)
  have wc: "unat (tu_write_count t1) = 8 * n" using count_bits [of "ucast wl"] st(4) by (simp add: assms(8) t1(7))
  have "t1\<lparr>tu_flags := tu_flags t1, tu_pos := of_nat 0, tu_bit_time := tu_bit_time t1\<rparr> = t1" using t1(5) by simp
  then have "syncing 0 i t1 w (bd_clock s1) (bd_clock_reads s1) s1"
    unfolding syncing_def using t1(3,6) assms(7,18) st(2)
    by (intro conjI exI [of _ "tu_flags t1"] exI [of _ "tu_bit_time t1"]) (simp_all add: t1_def)
  from sync_run_levels [OF this t1(1), of 4 "Suc 0"] obtain s4 where s4:
      "sync_run 5 i s1 = (map (\<lambda>q. (odd q, w + of_nat q * tu_cfg_bit_time t)) [0..<4] @ fst (sync_run (Suc 0) i s4), snd (sync_run (Suc 0) i s4))"
      "syncing 4 i t1 w (bd_clock s1) (bd_clock_reads s1) s4"
    by (auto simp: t1(2))
  obtain s2 f where s2: "sync_run (Suc 0) i s4 = ([(False, w + 4 * tu_cfg_bit_time t)], s2)"
      "tmcuarts s2 i = t1\<lparr>tu_flags := f, tu_pos := 5, tu_bit_time := bt, tu_func := TU_send\<rparr>"
      "\<not> bit f 0" "\<not> bd_outputs s2 (tu_tx_pin t)" "tm_wake s2 (tmcuart_time i) = fifth - (first - w) + bt"
    using sync_last [OF s4(2) t1(1), of j] assms(13-17,19) by (auto simp: t1(2,3))
  have req: "dbit req q = odd q" if "q < 6" for q
    using sync_bits [OF assms(11) that] that by (simp add: dbit_def)
  have "sync_run 5 i s1 = (map (\<lambda>q. (odd q, w + of_nat q * tu_cfg_bit_time t)) [0..<5], s2)"
    by (simp add: s4(1) s2(1) upt_rec)
  then have nibble: "sync_run 5 i s1 = (map (\<lambda>q. (dbit req q, w + of_nat q * tu_cfg_bit_time t)) [0..<5], s2)"
    using req by simp
  have bt: "0 < bt" "unat bt \<le> 2 * unat (tu_cfg_bit_time t)"
    using measured_range [OF assms(17,12,13)] by (simp_all add: assms(19))
  have "8 * n * unat bt \<le> 80 * (2 * unat (tu_cfg_bit_time t))"
    using st(4) bt(2) by (intro mult_le_mono) simp_all
  then have lim: "8 * n * unat bt < 2 ^ 32" using assms(13) by linarith
  have "dbit data 5" using req [of 5] dbit_prefix [of 5 req "drop n (tu_data t)"] assms(9) st(3) by (simp add: data_def)
  then have snd: "sending i s2"
    using bt(1) lim wc s2(3,4) st(3,4) assms(5,9) t1(3,4) by (simp add: sending_def s2(2) word_less_nat_alt data_def)
  have pos: "unat (tu_pos (tmcuarts s2 i)) = 5" "unat (tu_write_count (tmcuarts s2 i)) = 8 * n"
      "tu_data (tmcuarts s2 i) = data" "tu_bit_time (tmcuarts s2 i) = bt"
    using wc by (simp_all add: s2(2) t1(4))
  obtain s3 where "uart_run (8 * n - 5) i s2 = (map (dbit data) [5..<8 * n], s3)"
      "tu_func (tmcuarts s3 i) = TU_send_finish"
      "tm_wake s3 (tmcuart_time i) = tm_wake s2 (tmcuart_time i) + of_nat (8 * n - 5) * bt"
    using uart_run_bits [OF snd, of "8 * n - 5"] unfolding pos by auto
  moreover have "map (dbit data) [5..<8 * n] = map (dbit req) [5..<8 * n]"
    unfolding data_def by (rule dbit_prefix_map) (simp add: st(3))
  ultimately show ?thesis using nibble s2(5) by (intro exI [of _ s2] exI [of _ s3]) simp
qed

definition example_tmcuart_s :: tmcuart_s where
  "example_tmcuart_s = basecmd_s.extend (idle_basecmd_s\<lparr>oids := Some [Some ''tmcuart''], oid_count := 1\<rparr>)
    \<lparr>tmcuarts = (\<lambda>_. zero_tmcuart\<lparr>tu_flags := 1, tu_cfg_bit_time := 100, tu_tx_pin := 3\<rparr>)\<rparr>
    \<lparr>bd_outputs := (\<lambda>p. p = 3)\<rparr>"

lemma example_tmcuart_lookup: "oid_lookup (ucast (0 :: u32)) ''tmcuart'' example_tmcuart_s = (Inr 0, example_tmcuart_s)"
  by (simp add: oid_lookup_def fw_unfold example_tmcuart_s_def idle_defs basecmd_s.defs)

lemma example_tmcuart_command:
  "\<exists>s1. command_tmcuart_send [0xea] [0, 1, 0, 0] example_tmcuart_s = (Inr (), s1) \<and> bd_clock s1 = (\<lambda>n. 100 * of_nat n)"
  using example_tmcuart_lookup
  by (simp add: command_tmcuart_send_def fw_unfold timer_read_time_def)
    (simp add: example_tmcuart_s_def idle_defs basecmd_s.defs zero_tmcuart_def tu_flag_consts
      sched_add_timer_def fw_unfold insert_timer_def insert_loop.simps timer_from_us_def timer_is_before_def Let_def)

theorem tmcuart_sends_request_witness:
  "\<exists>s1 s2 s3. command_tmcuart_send [0xea] [0, 1, 0, 0] example_tmcuart_s = (Inr (), s1) \<and>
    map fst (fst (sync_run 5 0 s1)) = [False, True, False, True, False] \<and> snd (sync_run 5 0 s1) = s2 \<and>
    uart_run 3 0 s2 = ([True, True, True], s3)"
proof -
  obtain s1 where c: "command_tmcuart_send [0xea] [0, 1, 0, 0] example_tmcuart_s = (Inr (), s1)"
      "bd_clock s1 = (\<lambda>n. 100 * of_nat n)"
    using example_tmcuart_command by blast
  have f: "tmcuarts example_tmcuart_s 0 = zero_tmcuart\<lparr>tu_flags := 1, tu_cfg_bit_time := 100, tu_tx_pin := 3\<rparr>"
      "bd_outputs example_tmcuart_s = (\<lambda>p. p = 3)"
    by (simp_all add: example_tmcuart_s_def basecmd_s.defs)
  let ?t = "tmcuarts example_tmcuart_s 0"
  let ?j = "sint (bd_clock s1 (bd_clock_reads s1 + 4) - bd_clock s1 (bd_clock_reads s1) - 4 * tu_cfg_bit_time ?t)"
  have j: "?j = 0" by (simp add: c(2) f zero_tmcuart_def)
  have "\<exists>s2 s3. sync_run 5 0 s1 = (map (\<lambda>q. (dbit [0xea] q, tm_wake s1 (tmcuart_time 0) + of_nat q * tu_cfg_bit_time ?t)) [0..<5], s2) \<and>
    tm_wake s2 (tmcuart_time 0) = bd_clock s1 (bd_clock_reads s1 + 4) - (bd_clock s1 (bd_clock_reads s1) - tm_wake s1 (tmcuart_time 0)) +
      measured (tu_cfg_bit_time ?t) ?j \<and>
    uart_run (8 * 1 - 5) 0 s2 = (map (dbit [0xea]) [5..<8 * 1], s3) \<and>
    tu_func (tmcuarts s3 0) = TU_send_finish \<and>
    tm_wake s3 (tmcuart_time 0) = tm_wake s2 (tmcuart_time 0) + of_nat (8 * 1 - 5) * measured (tu_cfg_bit_time ?t) ?j"
    by (rule tmcuart_sends_request [OF c(1) example_tmcuart_lookup refl])
      (simp_all add: j, simp_all add: f zero_tmcuart_def tu_flag_consts)
  then show ?thesis using c(1) by (auto simp: upt_rec dbit_def bit_iff_odd)
qed

section \<open>The bits of the response\<close>

fun event_run :: "nat \<Rightarrow> nat \<Rightarrow> ('a tmcuart_s_scheme, sf) fw" where
  "event_run 0 i s = (Inr SF_RESCHEDULE, s)"
| "event_run (Suc n) i s =
    (case tmcuart_event i s of (Inr SF_RESCHEDULE, s') \<Rightarrow> event_run n i s' | r \<Rightarrow> r)"

lemma dbit_store:
  assumes "unat pos div 8 < length data"
  shows "dbit (data[unat pos div 8 := store_bit pos v (data ! (unat pos div 8))]) q =
    (if q = unat pos then v else dbit data q)"
proof -
  have b: "bit (store_bit pos v d) j = (if j = unat pos mod 8 then v else bit d j)" if "j < 8" for d j
    using that unfolding store_bit_def and_7 Let_def by (auto simp: bit_simps)
  show ?thesis
  proof (cases "q div 8 = unat pos div 8")
    case True
    then have "q = unat pos \<longleftrightarrow> q mod 8 = unat pos mod 8" by (auto, metis div_mult_mod_eq)
    then show ?thesis using assms b [of "q mod 8"] True by (simp add: dbit_def)
  next
    case False
    then show ?thesis by (auto simp: dbit_def)
  qed
qed

lemma finalize_result:
  obtains s' where "tmcuart_finalize i s = (Inr SF_DONE, s')" and "tu_flags (tmcuarts s' i) AND TU_REPORT \<noteq> 0"
    and "tu_data (tmcuarts s' i) = tu_data (tmcuarts s i)"
proof -
  have "bit ((f :: u8) OR 8) 3" for f by (simp add: bit_simps)
  then have "(f OR 8) AND 8 \<noteq> (0 :: u8)" for f by (metis bit_and_iff bit_0_eq bot_apply bit_or_iff bot_bool_def or.commute or.idem)
  then have "\<exists>s'. tmcuart_finalize i s = (Inr SF_DONE, s') \<and> tu_flags (tmcuarts s' i) AND TU_REPORT \<noteq> 0 \<and>
      tu_data (tmcuarts s' i) = tu_data (tmcuarts s i)"
    by (simp add: tmcuart_finalize_def tmcuart_reset_line_def gpio_out_reset_def gpio_out_write_def fw_unfold
        sched_wake_task_def sched_wake_tasks_def TU_REPORT_def)
  then show thesis using that by blast
qed

lemma read_run_bits:
  "tu_func (tmcuarts s i) = TU_read \<Longrightarrow> tu_pos (tmcuarts s i) < tu_read_count (tmcuarts s i) \<Longrightarrow>
    unat (tu_read_count (tmcuarts s i)) \<le> 8 * length (tu_data (tmcuarts s i)) \<Longrightarrow>
    unat (tu_read_count (tmcuarts s i)) - unat (tu_pos (tmcuarts s i)) = n \<Longrightarrow>
    \<exists>s'. event_run n i s = (Inr SF_DONE, s') \<and> tu_flags (tmcuarts s' i) AND TU_REPORT \<noteq> 0 \<and>
      (\<forall>q < unat (tu_read_count (tmcuarts s i)). dbit (tu_data (tmcuarts s' i)) q =
        (if q < unat (tu_pos (tmcuarts s i)) then dbit (tu_data (tmcuarts s i)) q
         else bd_inputs s (tu_rx_pin (tmcuarts s i)) (bd_input_reads s + (q - unat (tu_pos (tmcuarts s i)))) \<noteq> 0))"
proof (induction n arbitrary: s)
  case 0
  then show ?case by (simp add: word_less_nat_alt)
next
  case (Suc n)
  define t where "t = tmcuarts s i"
  let ?k = "unat (tu_pos t)" and ?rc = "unat (tu_read_count t)"
  note pr = Suc.prems [folded t_def]
  have kb: "?k div 8 < length (tu_data t)" using pr(2,3) unfolding word_less_nat_alt by linarith
  have u: "unat (tu_pos t + 1) = Suc ?k" by (rule inc_less_max [OF pr(2)])
  define v where "v = (bd_inputs s (tu_rx_pin t) (bd_input_reads s) \<noteq> 0)"
  define d1 where "d1 = (tu_data t)[?k div 8 := store_bit (tu_pos t) v (tu_data t ! (?k div 8))]"
  define s1 where "s1 = s\<lparr>bd_input_reads := Suc (bd_input_reads s), tmcuarts := (tmcuarts s)(i := t\<lparr>tu_data := d1\<rparr>)\<rparr>"
  have db: "dbit d1 q = (if q = ?k then v else dbit (tu_data t) q)" for q
    unfolding d1_def by (rule dbit_store [OF kb])
  have ev: "tmcuart_event i s = (if tu_pos t + 1 \<ge> tu_read_count t then tmcuart_finalize i s1
      else (Inr SF_RESCHEDULE, set_wake (tmcuart_time i) (tm_wake s (tmcuart_time i) + tu_bit_time t)
        (s1\<lparr>tmcuarts := (tmcuarts s1)(i := t\<lparr>tu_data := d1, tu_pos := tu_pos t + 1\<rparr>)\<rparr>)))"
    using pr(1) kb by (simp add: tmcuart_event_def tmcuart_read_event_def fw_unfold gpio_in_read_def Let_def drop_3
        t_def [symmetric] s1_def d1_def v_def)
  show ?case
  proof (cases "tu_pos t + 1 \<ge> tu_read_count t")
    case True
    then have rc: "?rc = Suc ?k" using pr(2) u by (simp add: word_le_nat_alt word_less_nat_alt)
    obtain s' where f: "tmcuart_finalize i s1 = (Inr SF_DONE, s')" "tu_flags (tmcuarts s' i) AND TU_REPORT \<noteq> 0"
        "tu_data (tmcuarts s' i) = d1"
      by (rule finalize_result [of i s1]) (simp add: s1_def)
    then have "event_run (Suc n) i s = (Inr SF_DONE, s')" using True by (simp add: ev)
    then show ?thesis using f rc db v_def unfolding t_def [symmetric] by (auto simp: less_Suc_eq)
  next
    case False
    define s2 where "s2 = set_wake (tmcuart_time i) (tm_wake s (tmcuart_time i) + tu_bit_time t)
        (s1\<lparr>tmcuarts := (tmcuarts s1)(i := t\<lparr>tu_data := d1, tu_pos := tu_pos t + 1\<rparr>)\<rparr>)"
    have run: "event_run (Suc n) i s = event_run n i s2" using False by (simp add: ev s2_def)
    have f: "tu_func (tmcuarts s2 i) = tu_func t" "tu_data (tmcuarts s2 i) = d1" "tu_pos (tmcuarts s2 i) = tu_pos t + 1"
        "tu_read_count (tmcuarts s2 i) = tu_read_count t" "tu_rx_pin (tmcuarts s2 i) = tu_rx_pin t"
        "bd_inputs s2 = bd_inputs s" "bd_input_reads s2 = Suc (bd_input_reads s)" "length d1 = length (tu_data t)"
      by (simp_all add: s2_def s1_def d1_def)
    have "tu_pos t + 1 < tu_read_count t" "?rc - Suc ?k = n" using False pr(4) by (simp_all add: not_le)
    then have "\<exists>s'. event_run n i s2 = (Inr SF_DONE, s') \<and> tu_flags (tmcuarts s' i) AND TU_REPORT \<noteq> 0 \<and>
        (\<forall>q < ?rc. dbit (tu_data (tmcuarts s' i)) q = (if q < Suc ?k then dbit d1 q
          else bd_inputs s (tu_rx_pin t) (Suc (bd_input_reads s) + (q - Suc ?k)) \<noteq> 0))"
      by (rule Suc.IH [of s2, unfolded f u, OF pr(1) _ pr(3)])
    then obtain s' where r: "event_run n i s2 = (Inr SF_DONE, s')" "tu_flags (tmcuarts s' i) AND TU_REPORT \<noteq> 0"
        "\<forall>q < ?rc. dbit (tu_data (tmcuarts s' i)) q = (if q < Suc ?k then dbit d1 q
          else bd_inputs s (tu_rx_pin t) (Suc (bd_input_reads s) + (q - Suc ?k)) \<noteq> 0)"
      by blast
    have "dbit (tu_data (tmcuarts s' i)) q = (if q < ?k then dbit (tu_data t) q
        else bd_inputs s (tu_rx_pin t) (bd_input_reads s + (q - ?k)) \<noteq> 0)" if q: "q < ?rc" for q
    proof -
      consider "q < ?k" | "q = ?k" | "Suc ?k \<le> q" by linarith
      then show ?thesis
      proof cases
        case 3
        then have "Suc (bd_input_reads s) + (q - Suc ?k) = bd_input_reads s + (q - ?k)" by linarith
        then show ?thesis using r(3) q 3 by simp
      qed (use r(3) q in \<open>simp_all add: db v_def\<close>)
    qed
    then show ?thesis using r(1,2) unfolding run t_def [symmetric] by blast
  qed
qed

text \<open>
  The response is what the pin carried.  Once the start bit was seen (\<^verbatim>\<open>tmcuart_read_event\<close>
  from position 0), after exactly \<^verbatim>\<open>read_count\<close> events the transfer is complete and flagged for
  the report, and bit \<open>q\<close> of the data is the \<open>q\<close>-th reading of the receive pin.  No access is
  outside the ten bytes of data.
\<close>

theorem tmcuart_reads_response:
  assumes "tu_func (tmcuarts s i) = TU_read" and "tu_pos (tmcuarts s i) = 0" and "0 < tu_read_count (tmcuarts s i)"
    and "unat (tu_read_count (tmcuarts s i)) \<le> 8 * length (tu_data (tmcuarts s i))"
  shows "\<exists>s'. event_run (unat (tu_read_count (tmcuarts s i))) i s = (Inr SF_DONE, s') \<and>
    tu_flags (tmcuarts s' i) AND TU_REPORT \<noteq> 0 \<and>
    (\<forall>q < unat (tu_read_count (tmcuarts s i)). dbit (tu_data (tmcuarts s' i)) q =
      (bd_inputs s (tu_rx_pin (tmcuarts s i)) (bd_input_reads s + q) \<noteq> 0))"
  using read_run_bits [of s i "unat (tu_read_count (tmcuarts s i))"] assms by simp

theorem tmcuart_reads_response_witness:
  "\<exists>s'. event_run 8 0 (example_tmcuart_s
      \<lparr>tmcuarts := (\<lambda>_. zero_tmcuart\<lparr>tu_func := TU_read, tu_read_count := 8\<rparr>),
       bd_inputs := (\<lambda>_ k. if k = 2 then 1 else 0), bd_input_reads := 0\<rparr>) = (Inr SF_DONE, s') \<and>
    dbit (tu_data (tmcuarts s' 0)) 2"
proof -
  let ?s = "example_tmcuart_s\<lparr>tmcuarts := (\<lambda>_. zero_tmcuart\<lparr>tu_func := TU_read, tu_read_count := 8\<rparr>),
       bd_inputs := (\<lambda>_ k. if k = 2 then 1 else 0), bd_input_reads := 0\<rparr>"
  have "\<exists>s'. event_run (unat (tu_read_count (tmcuarts ?s 0))) 0 ?s = (Inr SF_DONE, s') \<and>
    tu_flags (tmcuarts s' 0) AND TU_REPORT \<noteq> 0 \<and>
    (\<forall>q < unat (tu_read_count (tmcuarts ?s 0)). dbit (tu_data (tmcuarts s' 0)) q =
      (bd_inputs ?s (tu_rx_pin (tmcuarts ?s 0)) (bd_input_reads ?s + q) \<noteq> 0))"
    by (rule tmcuart_reads_response) (simp_all add: zero_tmcuart_def)
  then show ?thesis by (auto simp: zero_tmcuart_def)
qed

end
