(* ===== verification/Rx_queue.thy ===== *)
theory Rx_queue
  imports Dispatch
begin

text \<open>
  The receive buffer of the consoles over serial lines and over CAN: an interrupt appends to it, and a task
  removes a block from its front while the interrupt goes on.  The removal is the same code in
  \<^verbatim>\<open>src/generic/serial_irq.c\<close> and \<^verbatim>\<open>src/generic/canserial.c\<close>, but for the way it wakes the task; the
  interrupt is a parameter.
\<close>

definition RX_BUFFER_SIZE :: nat where "RX_BUFFER_SIZE = 192"

record serial_s = sched_s +
  receive_buf :: "u8 list"
  receive_pos :: nat

text \<open>
  \<^verbatim>\<open>console_pop_input\<close>: move the bytes after the first \<open>len\<close> to the front, and start again for
  those received meanwhile.  The elements of \<open>irqs\<close> are what the interrupts of the passes receive.
  \<open>memmove\<close> outside the array is \<open>Stuck\<close>.
\<close>

definition move_down :: "nat \<Rightarrow> nat \<Rightarrow> nat \<Rightarrow> u8 list \<Rightarrow> u8 list" where
  "move_down dst src n buf = take dst buf @ take n (drop src buf) @ drop (dst + n) buf"

definition pop_pass ::
  "('a serial_s_scheme \<Rightarrow> 'a serial_s_scheme) \<Rightarrow> nat \<Rightarrow> nat \<Rightarrow> 'a serial_s_scheme \<Rightarrow> 'a serial_s_scheme" where
  "pop_pass notify len copied s =
    (let needcopy = receive_pos s - len in
     if needcopy \<noteq> 0
     then notify (s\<lparr>receive_buf := move_down copied (copied + len) (needcopy - copied) (receive_buf s)\<rparr>)
     else s)"

fun pop_loop ::
  "('a serial_s_scheme \<Rightarrow> 'a serial_s_scheme) \<Rightarrow> ('x \<Rightarrow> 'a serial_s_scheme \<Rightarrow> 'a serial_s_scheme) \<Rightarrow>
    'x list \<Rightarrow> nat \<Rightarrow> nat \<Rightarrow> ('a serial_s_scheme, unit) fw" where
  "pop_loop notify receive irqs len copied s =
    (let rpos = receive_pos s; needcopy = rpos - len in
     if rpos < len \<or> rpos > length (receive_buf s) then (Inl Stuck, s)
     else
       let s1 = pop_pass notify len copied s; copied' = (if needcopy \<noteq> 0 then needcopy else copied)
       in case irqs of
            [] \<Rightarrow> (Inr (), s1\<lparr>receive_pos := needcopy\<rparr>)
          | x # irqs' \<Rightarrow>
              let s2 = receive x s1 in
              if rpos \<noteq> receive_pos s2 then pop_loop notify receive irqs' len copied' s2
              else (Inr (), s2\<lparr>receive_pos := needcopy\<rparr>))"

declare pop_loop.simps [simp del]

section \<open>The buffer is a queue\<close>

definition rx_ok :: "'a serial_s_scheme \<Rightarrow> bool" where
  "rx_ok s \<longleftrightarrow> length (receive_buf s) = RX_BUFFER_SIZE \<and> receive_pos s \<le> RX_BUFFER_SIZE"

definition rx_content :: "'a serial_s_scheme \<Rightarrow> u8 list" where
  "rx_content s = take (receive_pos s) (receive_buf s)"

lemma rx_content_bound: "rx_ok s \<Longrightarrow> length (rx_content s) \<le> RX_BUFFER_SIZE"
  by (simp add: rx_ok_def rx_content_def)

lemma rx_content_length: "rx_ok s \<Longrightarrow> length (rx_content s) = receive_pos s"
  by (simp add: rx_ok_def rx_content_def)

lemma move_down_take:
  assumes "dst \<le> src" and "src + n \<le> length buf"
  shows "take (dst + n) (move_down dst src n buf) = take dst buf @ take n (drop src buf)"
    and "length (move_down dst src n buf) = length buf"
proof -
  have "length (take dst buf) = dst" "length (take n (drop src buf)) = n" using assms by simp_all
  then show "take (dst + n) (move_down dst src n buf) = take dst buf @ take n (drop src buf)"
    "length (move_down dst src n buf) = length buf"
    using assms by (simp_all add: move_down_def del: length_take)
qed

text \<open>
  What the removal needs: waking the task leaves the buffer alone, and the interrupt appends to the
  content what \<open>ext\<close> says, given its length.  \<open>inv\<close> is what else the interrupt depends on, and
  \<open>valid\<close> says what it can receive.
\<close>

locale rx_interrupt =
  fixes notify :: "'a serial_s_scheme \<Rightarrow> 'a serial_s_scheme"
    and receive :: "'x \<Rightarrow> 'a serial_s_scheme \<Rightarrow> 'a serial_s_scheme"
    and ext :: "'x \<Rightarrow> nat \<Rightarrow> u8 list"
    and inv :: "'a serial_s_scheme \<Rightarrow> bool"
    and valid :: "'x \<Rightarrow> bool"
  assumes notify_keeps: "receive_buf (notify s) = receive_buf s" "receive_pos (notify s) = receive_pos s"
      "inv s \<Longrightarrow> inv (notify s)"
    and inv_buffer: "inv s \<Longrightarrow> inv (s\<lparr>receive_buf := buf\<rparr>)" "inv s \<Longrightarrow> inv (s\<lparr>receive_pos := pos\<rparr>)"
    and receive_content: "rx_ok s \<Longrightarrow> inv s \<Longrightarrow> valid x \<Longrightarrow> rx_ok (receive x s) \<and> inv (receive x s) \<and> 
      rx_content (receive x s) = rx_content s @ ext x (length (rx_content s))"
begin

text \<open>
  A pass: the first \<open>copied\<close> bytes of \<open>drop len c\<close> are in place before it, all of them after it.
\<close>

lemma pop_pass_content:
  assumes "rx_ok s" and "inv s" and "copied + len \<le> receive_pos s"
    and "take copied (receive_buf s) @ drop (copied + len) (rx_content s) = drop len c"
  shows "rx_ok (pop_pass notify len copied s)" and "receive_pos (pop_pass notify len copied s) = receive_pos s"
    and "take (receive_pos s - len) (receive_buf (pop_pass notify len copied s)) = drop len c"
    and "inv (pop_pass notify len copied s)"
proof -
  let ?rpos = "receive_pos s"
  let ?buf = "move_down copied (copied + len) (?rpos - len - copied) (receive_buf s)"
  have lim: "?rpos \<le> length (receive_buf s)" "length (receive_buf s) = RX_BUFFER_SIZE" using assms(1) by (simp_all add: rx_ok_def)
  note md = move_down_take [of copied "copied + len" "?rpos - len - copied" "receive_buf s"]
  have "take (?rpos - len) ?buf = take copied (receive_buf s) @ take (?rpos - len - copied) (drop (copied + len) (receive_buf s))"
    using md(1) assms(3) lim by simp
  also have "\<dots> = drop len c" using assms(4) by (simp add: rx_content_def drop_take add.commute)
  finally have t: "take (?rpos - len) ?buf = drop len c" .
  have l: "length ?buf = RX_BUFFER_SIZE" using md(2) assms(3) lim by simp
  have p: "pop_pass notify len copied s = (if ?rpos - len \<noteq> 0 then notify (s\<lparr>receive_buf := ?buf\<rparr>) else s)"
    by (simp add: pop_pass_def Let_def)
  show "rx_ok (pop_pass notify len copied s)" "receive_pos (pop_pass notify len copied s) = ?rpos"
    "take (?rpos - len) (receive_buf (pop_pass notify len copied s)) = drop len c" "inv (pop_pass notify len copied s)"
    using assms(1,2) l t unfolding p by (auto simp: rx_ok_def notify_keeps inv_buffer)
qed

text \<open>The content after some interrupts.\<close>

definition rx_extended :: "u8 list \<Rightarrow> 'x list \<Rightarrow> u8 list" where
  "rx_extended = foldl (\<lambda>c x. c @ ext x (length c))"

lemma extended_simps [simp]: "rx_extended c [] = c" "rx_extended c (x # xs) = rx_extended (c @ ext x (length c)) xs"
  by (simp_all add: rx_extended_def)

lemma pop_loop_content:
  assumes "rx_ok s" and "inv s" and "copied + len \<le> receive_pos s"
    and "take copied (receive_buf s) @ drop (copied + len) (rx_content s) = drop len c"
    and "length c = receive_pos s" and "list_all valid irqs"
  shows "\<exists>n s'. pop_loop notify receive irqs len copied s = (Inr (), s') \<and> rx_ok s' \<and> inv s' \<and>
    rx_content s' = drop len (rx_extended c (take n irqs))"
  using assms
proof (induction irqs arbitrary: copied s c)
  case Nil
  note p = pop_pass_content [OF Nil.prems(1-4)]
  have lim: "\<not> (receive_pos s < len \<or> receive_pos s > length (receive_buf s))"
    using Nil.prems(1,3) by (auto simp: rx_ok_def)
  then have "pop_loop notify receive [] len copied s = (Inr (), (pop_pass notify len copied s)\<lparr>receive_pos := receive_pos s - len\<rparr>)"
    by (simp add: pop_loop.simps [of notify receive "[]"])
  then show ?case using p inv_buffer(2) by (auto simp: rx_ok_def rx_content_def)
next
  case (Cons x irqs)
  let ?rpos = "receive_pos s" and ?s1 = "pop_pass notify len copied s"
  let ?s2 = "receive x ?s1" and ?new = "ext x (length c)"
  note p = pop_pass_content [OF Cons.prems(1-4)]
  have l1: "length (rx_content ?s1) = ?rpos" using rx_content_length [OF p(1)] p(2) by simp
  have r: "rx_ok ?s2" "inv ?s2" "rx_content ?s2 = rx_content ?s1 @ ?new"
    using receive_content [OF p(1,4), of x] l1 Cons.prems(5,6) by simp_all
  have lim: "\<not> (?rpos < len \<or> ?rpos > length (receive_buf s))" "len \<le> ?rpos" "?rpos \<le> RX_BUFFER_SIZE"
    using Cons.prems(1,3) by (auto simp: rx_ok_def)
  have pos2: "receive_pos ?s2 = ?rpos + length ?new" using rx_content_length [OF r(1)] r(3) l1 by simp
  have pre: "take (?rpos - len) (receive_buf ?s2) = drop len c"
  proof -
    have "take (?rpos - len) (receive_buf ?s2) = take (?rpos - len) (rx_content ?s2)"
      using le_trans [OF diff_le_self le_add1] by (simp add: rx_content_def min_def pos2)
    also have "\<dots> = take (?rpos - len) (rx_content ?s1)" using r(3) l1 by simp
    also have "\<dots> = take (?rpos - len) (receive_buf ?s1)" using p(2) by (simp add: rx_content_def min_def)
    finally show ?thesis using p(3) by simp
  qed
  show ?case
  proof (cases "?new = []")
    case True
    have run: "pop_loop notify receive (x # irqs) len copied s = (Inr (), ?s2\<lparr>receive_pos := ?rpos - len\<rparr>)"
      using lim(1) True pos2 by (simp add: pop_loop.simps [of notify receive "x # irqs"] Let_def)
    have "?rpos - len \<le> RX_BUFFER_SIZE" using lim(3) by linarith
    then show ?thesis using run pre r(1,2) inv_buffer(2) True
      by (intro exI [of _ 1] exI [of _ "?s2\<lparr>receive_pos := ?rpos - len\<rparr>"]) (simp add: rx_ok_def rx_content_def)
  next
    case False
    have cp: "(if ?rpos - len \<noteq> 0 then ?rpos - len else copied) = ?rpos - len" using Cons.prems(3) by simp
    have run: "pop_loop notify receive (x # irqs) len copied s = pop_loop notify receive irqs len (?rpos - len) ?s2"
      using lim(1) False cp pos2 by (simp add: pop_loop.simps [of notify receive "x # irqs"] Let_def)
    have "\<exists>n s'. pop_loop notify receive irqs len (?rpos - len) ?s2 = (Inr (), s') \<and> rx_ok s' \<and> inv s' \<and>
        rx_content s' = drop len (rx_extended (c @ ?new) (take n irqs))"
      by (rule Cons.IH) (use r lim(2) pre pos2 l1 Cons.prems(5,6) in simp_all)
    then obtain n s' where "pop_loop notify receive irqs len (?rpos - len) ?s2 = (Inr (), s')" "rx_ok s'" "inv s'"
        "rx_content s' = drop len (rx_extended (c @ ?new) (take n irqs))" by blast
    then show ?thesis unfolding run by (intro exI [of _ "Suc n"] exI [of _ s']) simp
  qed
qed

lemma pop_input_content:
  assumes "rx_ok s" and "inv s" and "len \<le> length (rx_content s)" and "list_all valid irqs"
  shows "\<exists>n s'. pop_loop notify receive irqs len 0 s = (Inr (), s') \<and> rx_ok s' \<and> inv s' \<and>
    rx_content s' = drop len (rx_extended (rx_content s) (take n irqs))"
  by (rule pop_loop_content) (use assms rx_content_length [OF assms(1)] in simp_all)

end

end
