(* ===== verification/Serial_irq.thy ===== *)
theory Serial_irq
  imports Rx_queue
begin

text \<open>
  The serial console (\<^verbatim>\<open>src/generic/serial_irq.c\<close>): an interrupt stores the bytes received, a task
  takes blocks from them; replies are framed in a transmit buffer that another interrupt empties.
  Interrupts that run while a function works are an argument of its model.
\<close>

section \<open>Receiving\<close>

definition serial_rx_byte :: "u8 \<Rightarrow> 'a serial_s_scheme \<Rightarrow> 'a serial_s_scheme" where
  "serial_rx_byte data s =
    (let s1 = (if data = MESSAGE_SYNC then snd (sched_wake_tasks s) else s) in
     if receive_pos s1 \<ge> length (receive_buf s1) then s1
     else s1\<lparr>receive_buf := (receive_buf s1)[receive_pos s1 := data], receive_pos := Suc (receive_pos s1)\<rparr>)"

definition rx_bytes :: "u8 list \<Rightarrow> 'a serial_s_scheme \<Rightarrow> 'a serial_s_scheme" where
  "rx_bytes bs s = fold serial_rx_byte bs s"

definition console_pop_input :: "u8 list list \<Rightarrow> nat \<Rightarrow> ('a serial_s_scheme, unit) fw" where
  "console_pop_input irqs len = pop_loop (\<lambda>s. snd (sched_wake_tasks s)) rx_bytes irqs len 0"

text \<open>
  The console task.  \<open>bs\<close> is received while the block is dispatched, \<open>irqs\<close> while it is removed;
  \<open>boot\<close> is the board's \<^verbatim>\<open>bootloader_request\<close>, when it is configured.
\<close>

definition boot_request :: "u8 list" where
  "boot_request = [32, 28] @ map of_char '' Request Serial Bootloader!! '' @ [126]"

definition console_task :: "'a serial_s_scheme command_parser list \<Rightarrow> ('a serial_s_scheme, unit) fw option \<Rightarrow>
    u8 list \<Rightarrow> u8 list list \<Rightarrow> ('a serial_s_scheme, unit) fw" where
  "console_task command_index boot bs irqs s =
    (case command_find_block (take (receive_pos s) (receive_buf s)) s of (r, pop_count, s1) \<Rightarrow>
     thn (if r > 0 then command_dispatch command_index (receive_buf s) pop_count else ret ())
     (if r = 0 then ret ()
      else
        thn (upd (rx_bytes bs))
        (thn (case boot of None \<Rightarrow> ret ()
              | Some b \<Rightarrow> bnd (gets (\<lambda>s. take 32 (receive_buf s))) (\<lambda>first.
                  if r < 0 \<and> pop_count = 32 \<and> first = boot_request then b else ret ()))
        (thn (console_pop_input irqs pop_count)
        (if r > 0 then command_send_ack else ret ())))) s1)"

section \<open>Transmitting\<close>

record serial_tx =
  transmit_buf :: "u8 list"
  transmit_pos :: nat
  transmit_max :: nat
  tx_irq :: bool

definition serial_get_tx_byte :: "serial_tx \<Rightarrow> u8 option \<times> serial_tx" where
  "serial_get_tx_byte s =
    (if transmit_pos s \<ge> transmit_max s then (None, s)
     else (Some (transmit_buf s ! transmit_pos s), s\<lparr>transmit_pos := Suc (transmit_pos s)\<rparr>))"

fun tx_bytes :: "nat \<Rightarrow> serial_tx \<Rightarrow> u8 list \<times> serial_tx" where
  "tx_bytes 0 s = ([], s)"
| "tx_bytes (Suc n) s =
    (case serial_get_tx_byte s of
       (None, s1) \<Rightarrow> tx_bytes n s1
     | (Some b, s1) \<Rightarrow> (case tx_bytes n s1 of (bs, s2) \<Rightarrow> (b # bs, s2)))"

text \<open>
  \<^verbatim>\<open>console_sendf\<close> of the serial console (the other modules see it as the console of theory
  Board).  It moves the buffer when the message does not fit behind it; \<open>n\<close> transmit interrupts run
  before it stops them for that.  The result tells whether the message was queued, and the bytes
  transmitted meanwhile.
\<close>

definition make_space :: "nat \<Rightarrow> nat \<Rightarrow> serial_tx \<Rightarrow> (u8 list \<times> serial_tx) option" where
  "make_space n max_size s =
    (if transmit_max s + max_size > length (transmit_buf s) then
       if transmit_max s + max_size - transmit_pos s > length (transmit_buf s) then None
       else
         (let tmax = transmit_max s; r = tx_bytes n s; s1 = snd r; tpos = transmit_pos s1 in
          Some (fst r, s1\<lparr>transmit_buf := move_down 0 tpos (tmax - tpos) (transmit_buf s1),
            transmit_pos := 0, transmit_max := tmax - tpos, tx_irq := True\<rparr>))
     else Some ([], s))"

definition console_sendf_serial ::
    "nat \<Rightarrow> u8 \<Rightarrow> command_encoder \<Rightarrow> varg list \<Rightarrow> (serial_tx, bool \<times> u8 list) fw" where
  "console_sendf_serial n next_seq ce args s =
    (let s0 = (if transmit_pos s \<ge> transmit_max s then s\<lparr>transmit_max := 0, transmit_pos := 0\<rparr> else s) in
     case make_space n (ce_max_size ce) s0 of None \<Rightarrow> (Inr (False, []), s0)
     | Some (bs, s1) \<Rightarrow>
       let tmax = transmit_max s1 in
       (case command_encode_and_frame next_seq (drop tmax (transmit_buf s1)) ce args of
          None \<Rightarrow> (Inl Stuck, s1)
        | Some (Inl e) \<Rightarrow> (Inl (Shut e), s1)
        | Some (Inr (buf, msglen)) \<Rightarrow>
            (Inr (True, bs), s1\<lparr>transmit_buf := take tmax (transmit_buf s1) @ buf,
              transmit_max := tmax + msglen, tx_irq := True\<rparr>)))"

section \<open>The receive buffer is a queue\<close>

lemma rx_byte_content:
  assumes "rx_ok s"
  shows "rx_ok (serial_rx_byte b s)" and "rx_content (serial_rx_byte b s) = take RX_BUFFER_SIZE (rx_content s @ [b])"
  using assms
  by (auto simp: rx_ok_def rx_content_def serial_rx_byte_def Let_def sched_wake_tasks_def upd_def take_Suc_conv_app_nth)

lemma take_take_append: "take m (take m xs @ ys) = take m (xs @ ys)"
  by (cases "length xs \<le> m") simp_all

lemma rx_bytes_content:
  "rx_ok s \<Longrightarrow> rx_ok (rx_bytes bs s) \<and> rx_content (rx_bytes bs s) = take RX_BUFFER_SIZE (rx_content s @ bs)"
proof (induction bs arbitrary: s)
  case Nil
  then show ?case by (simp add: rx_bytes_def rx_content_def rx_ok_def)
next
  case (Cons b bs)
  note b = rx_byte_content [OF Cons.prems, of b]
  have "rx_bytes (b # bs) s = rx_bytes bs (serial_rx_byte b s)" by (simp add: rx_bytes_def)
  then show ?case using Cons.IH [OF b(1)] by (simp only: b(2) take_take_append append.simps append_assoc)
qed

lemma rx_bytes_appends:
  assumes "rx_ok s"
  shows "rx_content (rx_bytes bs s) = rx_content s @ take (RX_BUFFER_SIZE - length (rx_content s)) bs"
  using rx_bytes_content [OF assms, of bs] rx_content_length [OF assms] assms by (simp add: rx_ok_def)

interpretation serial_rx: rx_interrupt "\<lambda>s. snd (sched_wake_tasks s)" rx_bytes
    "\<lambda>bs n. take (RX_BUFFER_SIZE - n) bs" "\<lambda>_. True" "\<lambda>_. True"
  by unfold_locales (simp_all add: sched_wake_tasks_def upd_run rx_bytes_content rx_bytes_appends rx_content_bound)

lemma serial_extended:
  "length c \<le> RX_BUFFER_SIZE \<Longrightarrow> serial_rx.rx_extended c xs = take RX_BUFFER_SIZE (c @ concat xs)"
proof (induction xs arbitrary: c)
  case (Cons x xs)
  have "c @ take (RX_BUFFER_SIZE - length c) x = take RX_BUFFER_SIZE (c @ x)" using Cons.prems by simp
  then show ?case using Cons.IH [of "take RX_BUFFER_SIZE (c @ x)"]
    by (simp only: serial_rx.extended_simps take_take_append concat.simps append_assoc length_take min.cobounded2)
qed simp

lemma console_pop_content:
  assumes "rx_ok s" and "len \<le> length (rx_content s)"
  shows "\<exists>n s'. console_pop_input irqs len s = (Inr (), s') \<and> rx_ok s' \<and>
    rx_content s' = drop len (take RX_BUFFER_SIZE (rx_content s @ concat (take n irqs)))"
proof -
  show ?thesis using serial_rx.pop_input_content [OF assms(1) TrueI assms(2), of irqs] rx_content_bound [OF assms(1)]
    unfolding console_pop_input_def by (simp add: serial_extended list_all_iff)
qed

lemma find_block_rx:
  "command_find_block buf (s :: 'a serial_s_scheme) = (r, pop, s1) \<Longrightarrow>
    receive_buf s1 = receive_buf s \<and> receive_pos s1 = receive_pos s"
  by (auto simp: command_find_block_def find_block_nak_def find_block_need_sync_def find_block_error_def
      command_sendf_def console_sendf_def Let_def split: if_splits option.splits)

text \<open>
  C17: the receive buffer is a queue.  The console task looks for a block at its front, dispatches
  it, and removes exactly the bytes of the block: what remains are the bytes after it followed by
  those that arrived meanwhile, in order, as far as the buffer has room; also when interrupts
  store bytes while the rest is moved to the front.  The removal always ends.
\<close>

theorem console_task_consumes:
  assumes "rx_ok s" and "command_find_block (rx_content s) s = (r, pop, s1)"
    and "r > 0 \<Longrightarrow> command_dispatch idx (receive_buf s1) pop s1 = (Inr (), s2) \<and>
      receive_buf s2 = receive_buf s1 \<and> receive_pos s2 = receive_pos s1"
  shows "\<exists>n s'. console_task idx None bs irqs s = (Inr (), s') \<and> rx_ok s' \<and>
    rx_content s' = (if r = 0 then rx_content s
      else drop pop (take RX_BUFFER_SIZE (rx_content s @ bs @ concat (take n irqs))))"
proof -
  have fb: "command_find_block (take (receive_pos s) (receive_buf s)) s = (r, pop, s1)"
    using assms(2) by (simp add: rx_content_def)
  have s1: "receive_buf s1 = receive_buf s" "receive_pos s1 = receive_pos s"
    using find_block_rx [OF assms(2)] by simp_all
  have pop: "r \<noteq> 0 \<Longrightarrow> pop \<le> length (rx_content s)"
    using find_block_progress [where buf = "rx_content s" and s = s] assms(2) by (simp split: if_splits)
  show ?thesis
  proof (cases "r = 0")
    case True
    have "s1 = s" using find_block_progress [where buf = "rx_content s" and s = s] assms(2) True by simp
    then show ?thesis using True fb assms(1) by (auto simp: console_task_def fw_unfold)
  next
    case False
    define s3 where "s3 = (if r > 0 then s2 else s1)"
    have d: "(if r > 0 then command_dispatch idx (receive_buf s) pop else ret ()) s1 = (Inr (), s3)"
      using assms(3) s1 by (simp add: s3_def ret_def)
    have s3: "receive_buf s3 = receive_buf s" "receive_pos s3 = receive_pos s"
      using assms(3) s1 by (simp_all add: s3_def)
    then have ok3: "rx_ok s3" "rx_content s3 = rx_content s" using assms(1) by (simp_all add: rx_ok_def rx_content_def)
    note r4 = rx_bytes_content [OF ok3(1), of bs]
    have "length (rx_content s) \<le> RX_BUFFER_SIZE" using rx_content_length [OF assms(1)] assms(1) by (simp add: rx_ok_def)
    then have "pop \<le> length (rx_content (rx_bytes bs s3))" using r4 ok3(2) pop [OF False] by simp
    then obtain n s5 where p: "console_pop_input irqs pop (rx_bytes bs s3) = (Inr (), s5)" "rx_ok s5"
        "rx_content s5 = drop pop (take RX_BUFFER_SIZE (rx_content (rx_bytes bs s3) @ concat (take n irqs)))"
      using console_pop_content [of "rx_bytes bs s3" pop irqs] r4 by blast
    define s6 where "s6 = (if r > 0 then command_sendf encode_acknak s5 else s5)"
    have "console_task idx None bs irqs s = (Inr (), s6)"
      using False d p(1) by (simp add: console_task_def fb fw_unfold command_send_ack_def s6_def)
    moreover have "receive_buf s6 = receive_buf s5" "receive_pos s6 = receive_pos s5"
      by (simp_all add: s6_def command_sendf_def console_sendf_def Let_def)
    moreover have "rx_content s5 = drop pop (take RX_BUFFER_SIZE (rx_content s @ bs @ concat (take n irqs)))"
      using p(3) r4 ok3(2) by (simp only: take_take_append append_assoc)
    ultimately show ?thesis using False p(2) by (intro exI [of _ n] exI [of _ s6]) (simp add: rx_ok_def rx_content_def)
  qed
qed

section \<open>The transmit buffer is a queue\<close>

definition tx_ok :: "serial_tx \<Rightarrow> bool" where
  "tx_ok s \<longleftrightarrow> length (transmit_buf s) = 96 \<and> transmit_pos s \<le> transmit_max s \<and> transmit_max s \<le> 96"

definition tx_content :: "serial_tx \<Rightarrow> u8 list" where
  "tx_content s = drop (transmit_pos s) (take (transmit_max s) (transmit_buf s))"

lemma tx_content_length: "tx_ok s \<Longrightarrow> length (tx_content s) = transmit_max s - transmit_pos s"
  by (simp add: tx_ok_def tx_content_def)

lemma tx_byte_content:
  assumes "tx_ok s" and "serial_get_tx_byte s = (r, s')"
  shows "tx_ok s'" and "(case r of None \<Rightarrow> [] | Some b \<Rightarrow> [b]) @ tx_content s' = tx_content s"
    and "transmit_max s' = transmit_max s" and "transmit_buf s' = transmit_buf s"
proof -
  show "tx_ok s'" "transmit_max s' = transmit_max s" "transmit_buf s' = transmit_buf s"
    using assms by (auto simp: tx_ok_def serial_get_tx_byte_def split: if_splits)
  show "(case r of None \<Rightarrow> [] | Some b \<Rightarrow> [b]) @ tx_content s' = tx_content s"
  proof (cases "transmit_pos s \<ge> transmit_max s")
    case False
    then have "drop (transmit_pos s) (take (transmit_max s) (transmit_buf s)) =
        take (transmit_max s) (transmit_buf s) ! transmit_pos s #
        drop (Suc (transmit_pos s)) (take (transmit_max s) (transmit_buf s))"
      using assms(1) by (intro Cons_nth_drop_Suc [symmetric]) (simp add: tx_ok_def)
    then show ?thesis using assms False by (auto simp: tx_content_def serial_get_tx_byte_def)
  qed (use assms in \<open>auto simp: tx_content_def serial_get_tx_byte_def\<close>)
qed

lemma tx_bytes_content:
  "tx_ok s \<Longrightarrow> tx_bytes n s = (bs, s') \<Longrightarrow>
    tx_ok s' \<and> bs @ tx_content s' = tx_content s \<and> transmit_max s' = transmit_max s \<and> transmit_buf s' = transmit_buf s"
proof (induction n arbitrary: s bs)
  case (Suc n)
  obtain r s1 where r: "serial_get_tx_byte s = (r, s1)" by fastforce
  note b = tx_byte_content [OF Suc.prems(1) r]
  show ?case using Suc.IH [OF b(1)] Suc.prems(2) b r by (cases r) (fastforce split: prod.splits)+
qed simp

text \<open>
  A message and its frame: in any buffer of at least the encoder's maximum size the encoder writes
  the frame, of at most that size, and nothing else.
\<close>

definition encodes_to :: "u8 \<Rightarrow> command_encoder \<Rightarrow> varg list \<Rightarrow> u8 list \<Rightarrow> bool" where
  "encodes_to seq ce args frame \<longleftrightarrow> length frame \<le> ce_max_size ce \<and>
    (\<forall>buf. ce_max_size ce \<le> length buf \<longrightarrow>
      command_encode_and_frame seq buf ce args = Some (Inr (frame @ drop (length frame) buf, length frame)))"

lemma encodes_ints:
  assumes "list_all is_int_ptype (ce_param_types ce)" and "length (ce_param_types ce) = length vs"
    and "payload = encode_msgid (ce_encoded_msgid ce) @ encode_ints vs"
    and "length payload + 5 \<le> ce_max_size ce"
  shows "encodes_to seq ce (map VA_int vs) (mk_frame seq payload)"
  unfolding encodes_to_def using encode_and_frame_ints [OF assms] assms(4) by simp

lemma encodes_message:
  assumes "message_payload ce args = Some payload" and "length payload + MESSAGE_MIN \<le> ce_max_size ce"
  shows "encodes_to seq ce args (mk_frame seq payload)"
  unfolding encodes_to_def using encode_and_frame_bytes [OF assms(1)] assms(2) by (simp add: message_consts)

lemma make_space_content:
  assumes "tx_ok s" and "make_space n m s = Some (bs, s1)"
  shows "tx_ok s1" and "bs @ tx_content s1 = tx_content s" and "transmit_max s1 + m \<le> 96"
proof -
  have all: "tx_ok s1 \<and> bs @ tx_content s1 = tx_content s \<and> transmit_max s1 + m \<le> 96"
  proof (cases "transmit_max s + m > length (transmit_buf s)")
    case False
    then show ?thesis using assms by (simp add: make_space_def tx_ok_def)
  next
    case True
    obtain cs s2 where t: "tx_bytes n s = (cs, s2)" by fastforce
    note c = tx_bytes_content [OF assms(1) t]
    let ?k = "transmit_max s - transmit_pos s2"
    have fits: "\<not> transmit_max s + m - transmit_pos s > length (transmit_buf s)"
      using assms(2) True by (auto simp: make_space_def)
    have s1: "bs = cs" "s1 = s2\<lparr>transmit_buf := move_down 0 (transmit_pos s2) ?k (transmit_buf s2),
        transmit_pos := 0, transmit_max := ?k, tx_irq := True\<rparr>"
      using assms(2) True fits t by (auto simp: make_space_def Let_def)
    have le: "transmit_pos s2 \<le> transmit_max s" "transmit_max s \<le> length (transmit_buf s2)" "length (transmit_buf s2) = 96"
      using c by (auto simp: tx_ok_def)
    note md = move_down_take [of 0 "transmit_pos s2" ?k "transmit_buf s2"]
    have mv: "take ?k (move_down 0 (transmit_pos s2) ?k (transmit_buf s2)) = tx_content s2"
      using md(1) le c by (simp add: tx_content_def drop_take)
    have "length (tx_content s2) \<le> length (tx_content s)" using c by (metis length_append le_add2)
    then have "?k \<le> transmit_max s - transmit_pos s"
      using tx_content_length [OF assms(1)] tx_content_length [of s2] c by simp
    then have km: "?k + m \<le> 96" using fits assms(1) by (auto simp: tx_ok_def)
    have "tx_content s1 = tx_content s2" using mv by (simp add: s1 tx_content_def)
    moreover have "tx_ok s1" using md(2) le km by (simp add: s1 tx_ok_def)
    moreover have "transmit_max s1 = ?k" by (simp add: s1)
    ultimately show ?thesis using c km by (simp add: s1(1))
  qed
  show "tx_ok s1" "bs @ tx_content s1 = tx_content s" "transmit_max s1 + m \<le> 96" using all by simp_all
qed

lemma sendf_content:
  assumes "tx_ok s" and "encodes_to seq ce args frame"
  shows "\<exists>acc bs s'. console_sendf_serial n seq ce args s = (Inr (acc, bs), s') \<and> tx_ok s' \<and>
    bs @ tx_content s' = tx_content s @ (if acc then frame else []) \<and>
    (\<not> acc \<longrightarrow> length (tx_content s) + ce_max_size ce > 96)"
proof -
  define s0 where "s0 = (if transmit_pos s \<ge> transmit_max s then s\<lparr>transmit_max := 0, transmit_pos := 0\<rparr> else s)"
  have s0: "tx_ok s0" "tx_content s0 = tx_content s" using assms(1) by (auto simp: s0_def tx_ok_def tx_content_def)
  show ?thesis
  proof (cases "make_space n (ce_max_size ce) s0")
    case None
    then have "length (tx_content s0) + ce_max_size ce > 96"
      using s0(1) tx_content_length [OF s0(1)] by (auto simp: make_space_def tx_ok_def Let_def split: if_splits)
    moreover have "console_sendf_serial n seq ce args s = (Inr (False, []), s0)"
      using None by (simp add: console_sendf_serial_def s0_def [symmetric])
    ultimately show ?thesis using s0 by (intro exI [of _ False] exI [of _ "[]"] exI [of _ s0]) simp
  next
    case (Some r)
    obtain bs s1 where r: "r = (bs, s1)" by (cases r)
    note m = make_space_content [OF s0(1) Some [unfolded r]]
    let ?t = "transmit_max s1"
    have len: "length (transmit_buf s1) = 96" "?t \<le> 96" "length frame \<le> ce_max_size ce" "transmit_pos s1 \<le> ?t"
      using m(1) assms(2) by (simp_all add: tx_ok_def encodes_to_def)
    have enc: "command_encode_and_frame seq (drop ?t (transmit_buf s1)) ce args =
        Some (Inr (frame @ drop (?t + length frame) (transmit_buf s1), length frame))"
      using assms(2) m(3) len by (auto simp: encodes_to_def add.commute)
    define s' where "s' = s1\<lparr>transmit_buf := take ?t (transmit_buf s1) @ frame @ drop (?t + length frame) (transmit_buf s1),
        transmit_max := ?t + length frame, tx_irq := True\<rparr>"
    have "console_sendf_serial n seq ce args s = (Inr (True, bs), s')"
      by (simp add: console_sendf_serial_def s0_def [symmetric] Some r enc s'_def Let_def)
    moreover have "tx_ok s'" using len m(3) by (simp add: s'_def tx_ok_def)
    moreover have "tx_content s' = tx_content s1 @ frame" using len by (simp add: s'_def tx_content_def)
    moreover have "bs @ tx_content s1 @ frame = tx_content s @ frame" using m(2) s0(2) by (simp only: append_assoc [symmetric])
    ultimately show ?thesis by (intro exI [of _ True] exI [of _ bs] exI [of _ s']) simp
  qed
qed

text \<open>
  The transmitter at work: messages are sent and interrupts fetch bytes, in any order.  The
  transmitted bytes and the frames queued are collected.  The messages are those whose frame fits the
  maximum size of their encoder, so that no argument is cut short.
\<close>

inductive tx_steps :: "serial_tx \<Rightarrow> u8 list \<Rightarrow> u8 list list \<Rightarrow> serial_tx \<Rightarrow> bool" where
  tx_refl: "tx_steps s [] [] s"
| tx_fetch: "tx_steps s sent frames s1 \<Longrightarrow> serial_get_tx_byte s1 = (Some b, s2) \<Longrightarrow> tx_steps s (sent @ [b]) frames s2"
| tx_send: "tx_steps s sent frames s1 \<Longrightarrow> message_payload ce args = Some payload \<Longrightarrow>
    length payload + MESSAGE_MIN \<le> ce_max_size ce \<Longrightarrow>
    console_sendf_serial n seq ce args s1 = (Inr (acc, bs), s2) \<Longrightarrow>
    tx_steps s (sent @ bs) (if acc then frames @ [mk_frame seq payload] else frames) s2"


definition empty_tx :: serial_tx where
  "empty_tx = \<lparr>transmit_buf = replicate 96 0, transmit_pos = 0, transmit_max = 0, tx_irq = False\<rparr>"

lemma example_encodes: "encodes_to 0x11 example_encoder (map VA_int [7, 0xffffffff]) (mk_frame 0x11 [0x42, 7, 0x7f])"
  by (rule encodes_ints) (simp_all add: example_encoder_def encode_msgid_def encode_int_def)


text \<open>
  The transmit buffer is written past its end by a reply whose buffer argument is truncated: the
  check is for \<^verbatim>\<open>max_size\<close> bytes, and the truncated message has one more.
\<close>

lemma console_sendf_overruns:
  assumes "ce_param_types ce = [PT_buffer]" and "ce_encoded_msgid ce = 5" and "ce_max_size ce = 64"
    and "transmit_pos s = 0" and "transmit_max s = 32" and "length (transmit_buf s) = 96"
  shows "console_sendf_serial n seq ce [VA_buf 60 (replicate 60 1)] s = (Inl Stuck, s)"
  using assms
  by (simp add: console_sendf_serial_def make_space_def command_encode_and_frame_def command_encodef_def
      buf_put_def message_consts encode_msgid_def command_add_frame_def Let_def)

definition example_serial :: "serial_s" where
  "example_serial = sched_s.extend (sched_init idle_command_s)
    \<lparr>receive_buf = [MESSAGE_SYNC, 5] @ replicate 190 0, receive_pos = 7\<rparr>"

theorem console_task_consumes_witness:
  "\<exists>s'. console_task [] None [9] [[8]] example_serial = (Inr (), s') \<and>
    (\<exists>n. rx_content s' = drop 1 ([MESSAGE_SYNC, 5, 0, 0, 0, 0, 0] @ [9] @ concat (take n [[8]])))"
proof -
  have ok: "rx_ok example_serial" by (simp add: rx_ok_def example_serial_def sched_s.defs RX_BUFFER_SIZE_def)
  have c: "rx_content example_serial = [MESSAGE_SYNC, 5, 0, 0, 0, 0, 0]"
    by (simp add: rx_content_def example_serial_def sched_s.defs numeral_eq_Suc)
  have ss: "sync_state example_serial = 0" by (simp add: example_serial_def sched_s.defs idle_defs)
  have f: "command_find_block (rx_content example_serial) example_serial = (- 1, 1, example_serial)"
    using ss unfolding c by (simp add: command_find_block_def find_block_error_def message_consts)
  have "\<exists>n s'. console_task [] None [9] [[8]] example_serial = (Inr (), s') \<and> rx_ok s' \<and>
    rx_content s' = (if (- 1 :: int) = 0 then rx_content example_serial
      else drop 1 (take RX_BUFFER_SIZE (rx_content example_serial @ [9] @ concat (take n [[8]]))))"
    by (rule console_task_consumes [OF ok f, where ?s2.0 = example_serial]) simp
  then obtain n s' where r: "console_task [] None [9] [[8]] example_serial = (Inr (), s')"
      "rx_content s' = drop 1 (take RX_BUFFER_SIZE (rx_content example_serial @ [9] @ concat (take n [[8]])))"
    by auto
  have "length (concat (take n [[8 :: u8]])) \<le> 1" by (cases n) simp_all
  then have "rx_content s' = drop 1 ([MESSAGE_SYNC, 5, 0, 0, 0, 0, 0] @ [9] @ concat (take n [[8]]))"
    using r(2) unfolding c by (simp add: RX_BUFFER_SIZE_def)
  then show ?thesis using r(1) by blast
qed

end
