(* ===== verification/Usb_cdc.thy ===== *)
theory Usb_cdc
  imports Serial_irq
begin

text \<open>
  The console over USB (\<^verbatim>\<open>src/generic/usb_cdc.c\<close>): the bulk endpoints carry the messages, endpoint 0 the
  control requests of the host, whose data goes in packets of 16 bytes and waits while the controller is
  busy.  What the controller does (the board functions of \<^verbatim>\<open>src/generic/usb_cdc.h\<close>) are inputs of the
  state: the answers to packets that are offered, the packets that have arrived.  The packets that it took
  are recorded.
\<close>

section \<open>State\<close>

definition USB_CDC_EP0_SIZE :: nat where "USB_CDC_EP0_SIZE = 16"
definition USB_CDC_EP_ACM_SIZE :: u16 where "USB_CDC_EP_ACM_SIZE = 8"
definition USB_CDC_EP_BULK_OUT_SIZE :: nat where "USB_CDC_EP_BULK_OUT_SIZE = 64"
definition USB_CDC_EP_BULK_IN_SIZE :: nat where "USB_CDC_EP_BULK_IN_SIZE = 64"

definition USB_CDC_EP_BULK_IN :: u8 where "USB_CDC_EP_BULK_IN = 1"
definition USB_CDC_EP_BULK_OUT :: u8 where "USB_CDC_EP_BULK_OUT = 2"
definition USB_CDC_EP_ACM :: u8 where "USB_CDC_EP_ACM = 3"

definition UX_READ :: u8 where "UX_READ = 1"
definition UX_SEND :: u8 where "UX_SEND = 2"
definition UX_SEND_PROGMEM :: u8 where "UX_SEND_PROGMEM = 4"
definition UX_SEND_ZLP :: u8 where "UX_SEND_ZLP = 8"

definition USB_DIR_IN :: u8 where "USB_DIR_IN = 0x80"
definition USB_REQ_SET_ADDRESS :: u8 where "USB_REQ_SET_ADDRESS = 0x05"
definition USB_REQ_GET_DESCRIPTOR :: u8 where "USB_REQ_GET_DESCRIPTOR = 0x06"
definition USB_REQ_SET_CONFIGURATION :: u8 where "USB_REQ_SET_CONFIGURATION = 0x09"
definition USB_CDC_REQ_SET_LINE_CODING :: u8 where "USB_CDC_REQ_SET_LINE_CODING = 0x20"
definition USB_CDC_REQ_GET_LINE_CODING :: u8 where "USB_CDC_REQ_GET_LINE_CODING = 0x21"
definition USB_CDC_REQ_SET_CONTROL_LINE_STATE :: u8 where "USB_CDC_REQ_SET_CONTROL_LINE_STATE = 0x22"

definition USB_DT_DEVICE :: u8 where "USB_DT_DEVICE = 1"
definition USB_DT_CONFIG :: u8 where "USB_DT_CONFIG = 2"
definition USB_DT_STRING :: u8 where "USB_DT_STRING = 3"
definition USB_DT_INTERFACE :: u8 where "USB_DT_INTERFACE = 4"
definition USB_DT_ENDPOINT :: u8 where "USB_DT_ENDPOINT = 5"
definition USB_CDC_CS_INTERFACE :: u8 where "USB_CDC_CS_INTERFACE = 0x24"
definition USB_LANGID_ENGLISH_US :: u16 where "USB_LANGID_ENGLISH_US = 0x0409"

lemmas ux_flags = UX_READ_def UX_SEND_def UX_SEND_PROGMEM_def UX_SEND_ZLP_def
lemmas usb_requests = USB_REQ_SET_ADDRESS_def USB_REQ_GET_DESCRIPTOR_def USB_REQ_SET_CONFIGURATION_def
  USB_CDC_REQ_SET_LINE_CODING_def USB_CDC_REQ_GET_LINE_CODING_def USB_CDC_REQ_SET_CONTROL_LINE_STATE_def

record usb_ctrlrequest =
  bRequestType :: u8
  bRequest :: u8
  wValue :: u16
  wIndex :: u16
  wLength :: u16

text \<open>
  The constants of a build: the \<^verbatim>\<open>CONFIG_\<close> options, \<^verbatim>\<open>NEED_PROGMEM\<close>, and the descriptor that
  \<^verbatim>\<open>usbserial_get_serialid\<close> returns.
\<close>

record usb_config =
  cf_vendor_id :: u16
  cf_device_id :: u16
  cf_mcu :: "u16 list"
  cf_serial :: "u16 list"
  cf_chipid :: bool
  cf_serialid :: "u8 list"
  cf_bootloader :: bool
  cf_progmem :: bool

text \<open>
  What \<^verbatim>\<open>usb_xfer_data\<close> points to: the rest of a constant, or a byte of \<^verbatim>\<open>line_coding\<close>.
\<close>

datatype usb_ptr = P_null | P_const "u8 list" | P_line nat

datatype usb_event = U_sent "u8 list" | U_read "u8 list" | U_stall | U_address u16 | U_configured | U_bootloader

record usb_s = serial_s +
  usb_transmit_buf :: "u8 list"
  usb_transmit_pos :: nat
  usb_xfer_data :: usb_ptr
  usb_xfer_size :: u8
  usb_xfer_flags :: u8
  line_coding :: "u8 list"
  line_control_state :: u8
  bulk_in_answers :: "nat \<Rightarrow> nat \<Rightarrow> int"
  bulk_in_tries :: nat
  bulk_in_sent :: "u8 list list"
  bulk_out_packets :: "nat \<Rightarrow> u8 list"
  bulk_out_tries :: nat
  ep0_answers :: "nat \<Rightarrow> nat \<Rightarrow> int"
  ep0_data :: "nat \<Rightarrow> u8 list"
  ep0_tries :: nat
  ep0_setups :: "nat \<Rightarrow> usb_ctrlrequest option"
  ep0_setup_tries :: nat
  ep0_events :: "usb_event list"

section \<open>The board's functions\<close>

definition usb_record :: "usb_event \<Rightarrow> ('a usb_s_scheme, unit) fw" where
  "usb_record e = upd (\<lambda>s. s\<lparr>ep0_events := ep0_events s @ [e]\<rparr>)"

text \<open>A positive answer is the number of bytes taken; an arrived packet is never longer than the buffer given.\<close>

definition usb_send_bulk_in :: "u8 list \<Rightarrow> ('a usb_s_scheme, int) fw" where
  "usb_send_bulk_in data =
    bnd (gets (\<lambda>s. bulk_in_answers s (bulk_in_tries s) (length data))) (\<lambda>r.
    thn (upd (\<lambda>s. s\<lparr>bulk_in_tries := Suc (bulk_in_tries s),
      bulk_in_sent := bulk_in_sent s @ (if r > 0 then [take (nat r) data] else [])\<rparr>))
    (ret r))"

definition usb_read_bulk_out :: "nat \<Rightarrow> ('a usb_s_scheme, int \<times> u8 list) fw" where
  "usb_read_bulk_out max_len =
    bnd (gets (\<lambda>s. take max_len (bulk_out_packets s (bulk_out_tries s)))) (\<lambda>p.
    thn (upd (\<lambda>s. s\<lparr>bulk_out_tries := Suc (bulk_out_tries s)\<rparr>))
    (ret (if p = [] then - 1 else int (length p), p)))"

definition ep0_try :: "nat \<Rightarrow> ('a usb_s_scheme, int \<times> u8 list) fw" where
  "ep0_try len =
    bnd (gets (\<lambda>s. (ep0_answers s (ep0_tries s) len, ep0_data s (ep0_tries s)))) (\<lambda>(r, d).
    thn (upd (\<lambda>s. s\<lparr>ep0_tries := Suc (ep0_tries s)\<rparr>)) (ret (r, d)))"

text \<open>The bytes at a pointer, as many as the object has.\<close>

fun bytes_at :: "usb_ptr \<Rightarrow> 'a usb_s_scheme \<Rightarrow> u8 list" where
  "bytes_at P_null s = []"
| "bytes_at (P_const bs) s = bs"
| "bytes_at (P_line k) s = drop k (line_coding s)"

fun ptr_add :: "usb_ptr \<Rightarrow> nat \<Rightarrow> usb_ptr" where
  "ptr_add P_null n = P_null"
| "ptr_add (P_const bs) n = P_const (drop n bs)"
| "ptr_add (P_line k) n = P_line (k + n)"

text \<open>An access outside the object is \<open>Stuck\<close>.\<close>

definition usb_send_ep0 :: "usb_ptr \<Rightarrow> nat \<Rightarrow> ('a usb_s_scheme, int) fw" where
  "usb_send_ep0 p len =
    bnd (gets (bytes_at p)) (\<lambda>bs.
    if len > length bs then stuck
    else
      bnd (ep0_try len) (\<lambda>(r, _).
      thn (if r = int len then usb_record (U_sent (take len bs)) else ret ()) (ret r)))"

definition usb_send_ep0_progmem :: "usb_ptr \<Rightarrow> nat \<Rightarrow> ('a usb_s_scheme, int) fw" where
  "usb_send_ep0_progmem p len = usb_send_ep0 p len"

definition usb_read_ep0 :: "usb_ptr \<Rightarrow> nat \<Rightarrow> ('a usb_s_scheme, int) fw" where
  "usb_read_ep0 p max_len =
    (case p of
       P_line k \<Rightarrow>
         bnd (gets (\<lambda>s. length (line_coding s))) (\<lambda>size.
         if k + max_len > size then stuck
         else
           bnd (ep0_try max_len) (\<lambda>(r, d).
           let got = take (nat r) (d @ replicate max_len 0) in
           if r > int max_len then stuck
           else
             thn (if r > 0 then
                    thn (upd (\<lambda>s. s\<lparr>line_coding := take k (line_coding s) @ got @ drop (k + nat r) (line_coding s)\<rparr>))
                    (usb_record (U_read got))
                  else ret ())
             (ret r)))
     | _ \<Rightarrow> stuck)"

definition usb_read_ep0_setup :: "('a usb_s_scheme, usb_ctrlrequest option) fw" where
  "usb_read_ep0_setup =
    bnd (gets (\<lambda>s. ep0_setups s (ep0_setup_tries s))) (\<lambda>r.
    thn (upd (\<lambda>s. s\<lparr>ep0_setup_tries := Suc (ep0_setup_tries s)\<rparr>)) (ret r))"

section \<open>Message blocks\<close>

definition usb_notify_bulk_in :: "('a usb_s_scheme, unit) fw" where
  "usb_notify_bulk_in = sched_wake_task ''usb_bulk_in_wake''"

definition usb_bulk_in_task :: "('a usb_s_scheme, unit) fw" where
  "usb_bulk_in_task =
    bnd (sched_check_wake ''usb_bulk_in_wake'') (\<lambda>w.
    if \<not> w then ret ()
    else
      bnd (gets usb_transmit_pos) (\<lambda>tpos.
      if tpos = 0 then ret ()
      else
        let max_tpos = (if tpos > USB_CDC_EP_BULK_IN_SIZE then USB_CDC_EP_BULK_IN_SIZE else tpos) in
        bnd (gets (\<lambda>s. take max_tpos (usb_transmit_buf s))) (\<lambda>data.
        bnd (usb_send_bulk_in data) (\<lambda>r.
        if r \<le> 0 then ret ()
        else if r > int tpos then stuck
        else
          let needcopy = tpos - nat r in
          thn (if needcopy \<noteq> 0 then
                 thn (upd (\<lambda>s. s\<lparr>usb_transmit_buf := move_down 0 (nat r) needcopy (usb_transmit_buf s)\<rparr>))
                 usb_notify_bulk_in
               else ret ())
          (upd (\<lambda>s. s\<lparr>usb_transmit_pos := needcopy\<rparr>))))))"

text \<open>The result tells whether the message was queued.\<close>

definition usb_console_sendf :: "u8 \<Rightarrow> command_encoder \<Rightarrow> varg list \<Rightarrow> ('a usb_s_scheme, bool) fw" where
  "usb_console_sendf next_seq ce args =
    bnd (gets (\<lambda>s. (usb_transmit_pos s, usb_transmit_buf s))) (\<lambda>(tpos, tbuf).
    if tpos + ce_max_size ce > length tbuf then ret False
    else
      case command_encode_and_frame next_seq (drop tpos tbuf) ce args of
        None \<Rightarrow> stuck
      | Some (Inl e) \<Rightarrow> shutdown e
      | Some (Inr (buf, msglen)) \<Rightarrow>
          thn (upd (\<lambda>s. s\<lparr>usb_transmit_buf := take tpos tbuf @ buf, usb_transmit_pos := tpos + msglen\<rparr>))
          (thn usb_notify_bulk_in (ret True)))"

definition usb_notify_bulk_out :: "('a usb_s_scheme, unit) fw" where
  "usb_notify_bulk_out = sched_wake_task ''usb_bulk_out_wake''"

definition usb_bulk_out_read :: "nat \<Rightarrow> ('a usb_s_scheme, nat) fw" where
  "usb_bulk_out_read rpos =
    bnd (gets (\<lambda>s. length (receive_buf s))) (\<lambda>size.
    if rpos + USB_CDC_EP_BULK_OUT_SIZE \<le> size then
      bnd (usb_read_bulk_out USB_CDC_EP_BULK_OUT_SIZE) (\<lambda>(r, p).
      if r > 0 then
        thn (upd (\<lambda>s. s\<lparr>receive_buf := take rpos (receive_buf s) @ p @ drop (rpos + length p) (receive_buf s)\<rparr>))
        (thn usb_notify_bulk_out (ret (rpos + nat r)))
      else ret rpos)
    else thn usb_notify_bulk_out (ret rpos))"

definition usb_bulk_out_task :: "'a usb_s_scheme command_parser list \<Rightarrow> ('a usb_s_scheme, unit) fw" where
  "usb_bulk_out_task command_index =
    bnd (sched_check_wake ''usb_bulk_out_wake'') (\<lambda>w.
    if \<not> w then ret ()
    else
      bnd (gets receive_pos) (\<lambda>rpos.
      bnd (usb_bulk_out_read rpos) (\<lambda>rpos.
      bnd (\<lambda>s. command_find_and_dispatch command_index (take rpos (receive_buf s)) s) (\<lambda>(r, pop_count).
      if r \<noteq> 0 then
        let needcopy = rpos - pop_count in
        thn (if needcopy \<noteq> 0 then
               thn (upd (\<lambda>s. s\<lparr>receive_buf := move_down 0 pop_count needcopy (receive_buf s)\<rparr>))
               usb_notify_bulk_out
             else ret ())
        (upd (\<lambda>s. s\<lparr>receive_pos := needcopy\<rparr>))
      else upd (\<lambda>s. s\<lparr>receive_pos := rpos\<rparr>)))))"

section \<open>Transfers on endpoint 0\<close>

definition usb_notify_ep0 :: "('a usb_s_scheme, unit) fw" where
  "usb_notify_ep0 = sched_wake_task ''usb_ep0_wake''"

definition usb_do_stall :: "('a usb_s_scheme, unit) fw" where
  "usb_do_stall = thn (usb_record U_stall) (upd (\<lambda>s. s\<lparr>usb_xfer_flags := 0\<rparr>))"

function usb_do_xfer :: "usb_config \<Rightarrow> usb_ptr \<Rightarrow> nat \<Rightarrow> u8 \<Rightarrow> ('a usb_s_scheme, unit) fw" where
  "usb_do_xfer cfg data len flags =
    (let xs = (if len > USB_CDC_EP0_SIZE then USB_CDC_EP0_SIZE else len) in
     bnd (if flags AND UX_READ \<noteq> 0 then usb_read_ep0 data xs
          else if cf_progmem cfg \<and> flags AND UX_SEND_PROGMEM \<noteq> 0 then usb_send_ep0_progmem data xs
          else usb_send_ep0 data xs) (\<lambda>r.
     if r = int xs then
       if len - xs = 0 then
         if flags AND UX_READ \<noteq> 0 then usb_do_xfer cfg (ptr_add data xs) (len - xs) UX_SEND
         else if xs = USB_CDC_EP0_SIZE \<and> flags AND UX_SEND_ZLP \<noteq> 0 then usb_do_xfer cfg (ptr_add data xs) (len - xs) flags
         else thn (upd (\<lambda>s. s\<lparr>usb_xfer_flags := 0\<rparr>)) usb_notify_ep0
       else usb_do_xfer cfg (ptr_add data xs) (len - xs) flags
     else if r = - 1 then
       upd (\<lambda>s. s\<lparr>usb_xfer_data := data, usb_xfer_size := of_nat len, usb_xfer_flags := flags\<rparr>)
     else usb_do_stall))"
  by pat_completeness auto

termination
  by (relation "measures [\<lambda>(_, _, _, flags). if flags AND UX_READ \<noteq> 0 then 1 else 0, \<lambda>(_, _, size, _). size]")
    (auto simp: USB_CDC_EP0_SIZE_def ux_flags)

declare usb_do_xfer.simps [simp del]

section \<open>Descriptors\<close>

definition le16 :: "u16 \<Rightarrow> u8 list" where
  "le16 x = [ucast x, ucast (drop_bit 8 x)]"

definition utf16 :: "string \<Rightarrow> u16 list" where
  "utf16 str = map of_char str"

definition USB_STR_ID_MANUFACTURER :: u8 where "USB_STR_ID_MANUFACTURER = 1"
definition USB_STR_ID_PRODUCT :: u8 where "USB_STR_ID_PRODUCT = 2"
definition USB_STR_ID_SERIAL :: u8 where "USB_STR_ID_SERIAL = 3"

definition usb_string_descriptor :: "u16 list \<Rightarrow> u8 list" where
  "usb_string_descriptor data = [of_nat (2 + 2 * length data), USB_DT_STRING] @ concat (map le16 data)"

definition cdc_string_langids :: "u8 list" where
  "cdc_string_langids = usb_string_descriptor [USB_LANGID_ENGLISH_US]"

definition cdc_string_manufacturer :: "u8 list" where
  "cdc_string_manufacturer = usb_string_descriptor (utf16 ''Klipper'')"

definition cdc_string_product :: "usb_config \<Rightarrow> u8 list" where
  "cdc_string_product cfg = usb_string_descriptor (cf_mcu cfg)"

definition cdc_string_serial :: "usb_config \<Rightarrow> u8 list" where
  "cdc_string_serial cfg = usb_string_descriptor (cf_serial cfg)"

text \<open>The structures are packed; the fields without initialiser are zero.\<close>

definition cdc_device_descriptor :: "usb_config \<Rightarrow> u8 list" where
  "cdc_device_descriptor cfg =
    [18, USB_DT_DEVICE] @ le16 0x0200 @ [2, 0, 0, of_nat USB_CDC_EP0_SIZE] @
    le16 (cf_vendor_id cfg) @ le16 (cf_device_id cfg) @ le16 0x0100 @
    [USB_STR_ID_MANUFACTURER, USB_STR_ID_PRODUCT, USB_STR_ID_SERIAL, 1]"

definition usb_interface_descriptor :: "u8 \<Rightarrow> u8 \<Rightarrow> u8 \<Rightarrow> u8 \<Rightarrow> u8 \<Rightarrow> u8 list" where
  "usb_interface_descriptor number endpoints cls subclass protocol =
    [9, USB_DT_INTERFACE, number, 0, endpoints, cls, subclass, protocol, 0]"

definition usb_endpoint_descriptor :: "u8 \<Rightarrow> u8 \<Rightarrow> u16 \<Rightarrow> u8 \<Rightarrow> u8 list" where
  "usb_endpoint_descriptor address attributes max_packet interval =
    [7, USB_DT_ENDPOINT, address, attributes] @ le16 max_packet @ [interval]"

definition config_parts :: "u8 list list" where
  "config_parts =
    [usb_interface_descriptor 0 1 2 2 1,
     [5, USB_CDC_CS_INTERFACE, 0] @ le16 0x0110,
     [4, USB_CDC_CS_INTERFACE, 2, 6],
     [5, USB_CDC_CS_INTERFACE, 6, 0, 1],
     usb_endpoint_descriptor (USB_CDC_EP_ACM OR USB_DIR_IN) 3 USB_CDC_EP_ACM_SIZE 255,
     usb_interface_descriptor 1 2 0x0A 0 0,
     usb_endpoint_descriptor USB_CDC_EP_BULK_OUT 2 (of_nat USB_CDC_EP_BULK_OUT_SIZE) 0,
     usb_endpoint_descriptor (USB_CDC_EP_BULK_IN OR USB_DIR_IN) 2 (of_nat USB_CDC_EP_BULK_IN_SIZE) 0]"

definition cdc_config_descriptor :: "u8 list" where
  "cdc_config_descriptor =
    [9, USB_DT_CONFIG] @ le16 (of_nat (9 + length (concat config_parts))) @ [2, 1, 0, 0xC0, 50] @ concat config_parts"

definition dt_value :: "u8 \<Rightarrow> u8 \<Rightarrow> u16" where
  "dt_value dt n = push_bit 8 (ucast dt) OR ucast n"

definition cdc_descriptors :: "usb_config \<Rightarrow> (u16 \<times> u16 \<times> u8 list) list" where
  "cdc_descriptors cfg =
    [(dt_value USB_DT_DEVICE 0, 0, cdc_device_descriptor cfg),
     (dt_value USB_DT_CONFIG 0, 0, cdc_config_descriptor),
     (dt_value USB_DT_STRING 0, 0, cdc_string_langids),
     (dt_value USB_DT_STRING USB_STR_ID_MANUFACTURER, USB_LANGID_ENGLISH_US, cdc_string_manufacturer),
     (dt_value USB_DT_STRING USB_STR_ID_PRODUCT, USB_LANGID_ENGLISH_US, cdc_string_product cfg)] @
    (if cf_chipid cfg then []
     else [(dt_value USB_DT_STRING USB_STR_ID_SERIAL, USB_LANGID_ENGLISH_US, cdc_string_serial cfg)])"

text \<open>\<open>chip\<close> is the chip identifier.\<close>

definition usb_fill_serial :: "nat \<Rightarrow> u8 list \<Rightarrow> u8 list" where
  "usb_fill_serial strlen chip =
    [of_nat (2 + strlen * 2), USB_DT_STRING] @
    concat (map (\<lambda>i.
      let c = (if odd i then chip ! (i div 2) AND 0x0f else drop_bit 4 (chip ! (i div 2))) in
      le16 (ucast (if c < 10 then c + 48 else c - 10 + 65))) [0..<strlen])"

section \<open>Requests\<close>

text \<open>The descriptor that is asked for, with the flags of its transfer; the last entry that matches counts.\<close>

definition find_descriptor :: "usb_config \<Rightarrow> usb_ctrlrequest \<Rightarrow> (u8 list \<times> u8) option" where
  "find_descriptor cfg req =
    (let found = fold (\<lambda>(v, i, bs) acc. if v = wValue req \<and> i = wIndex req
           then Some (bs, if cf_progmem cfg then UX_SEND_PROGMEM else UX_SEND) else acc) (cdc_descriptors cfg) None in
     if cf_chipid cfg \<and> wValue req = dt_value USB_DT_STRING USB_STR_ID_SERIAL \<and> wIndex req = USB_LANGID_ENGLISH_US
     then Some (cf_serialid cfg, UX_SEND) else found)"

definition usb_req_get_descriptor :: "usb_config \<Rightarrow> usb_ctrlrequest \<Rightarrow> ('a usb_s_scheme, unit) fw" where
  "usb_req_get_descriptor cfg req =
    (if bRequestType req \<noteq> USB_DIR_IN then usb_do_stall
     else case find_descriptor cfg req of
       None \<Rightarrow> usb_do_stall
     | Some (desc, flags) \<Rightarrow>
         if length desc > unat (wLength req) then usb_do_xfer cfg (P_const desc) (unat (wLength req)) flags
         else if length desc < unat (wLength req) then usb_do_xfer cfg (P_const desc) (length desc) (flags OR UX_SEND_ZLP)
         else usb_do_xfer cfg (P_const desc) (length desc) flags)"

definition usb_req_set_address :: "usb_ctrlrequest \<Rightarrow> ('a usb_s_scheme, unit) fw" where
  "usb_req_set_address req =
    (if bRequestType req \<noteq> 0 \<or> wIndex req \<noteq> 0 \<or> wLength req \<noteq> 0 then usb_do_stall
     else usb_record (U_address (wValue req)))"

definition usb_req_set_configuration :: "usb_config \<Rightarrow> usb_ctrlrequest \<Rightarrow> ('a usb_s_scheme, unit) fw" where
  "usb_req_set_configuration cfg req =
    (if bRequestType req \<noteq> 0 \<or> wValue req \<noteq> 1 \<or> wIndex req \<noteq> 0 \<or> wLength req \<noteq> 0 then usb_do_stall
     else
       thn (usb_record U_configured)
       (thn usb_notify_bulk_in
       (thn usb_notify_bulk_out
       (usb_do_xfer cfg P_null 0 UX_SEND))))"

definition dwDTERate :: "u8 list \<Rightarrow> u32" where
  "dwDTERate lc = ucast (lc ! 0) OR push_bit 8 (ucast (lc ! 1)) OR push_bit 16 (ucast (lc ! 2)) OR push_bit 24 (ucast (lc ! 3))"

definition sizeof_line_coding :: nat where "sizeof_line_coding = 7"

definition check_reboot :: "usb_config \<Rightarrow> ('a usb_s_scheme, unit) fw" where
  "check_reboot cfg =
    (if \<not> cf_bootloader cfg then ret ()
     else bnd (gets (\<lambda>s. dwDTERate (line_coding s) = 1200 \<and> line_control_state s AND 1 = 0)) (\<lambda>b.
       if b then usb_record U_bootloader else ret ()))"

definition usb_req_set_line_coding :: "usb_config \<Rightarrow> usb_ctrlrequest \<Rightarrow> ('a usb_s_scheme, unit) fw" where
  "usb_req_set_line_coding cfg req =
    (if bRequestType req \<noteq> 0x21 \<or> wValue req \<noteq> 0 \<or> wIndex req \<noteq> 0 \<or> unat (wLength req) \<noteq> sizeof_line_coding
     then usb_do_stall
     else thn (usb_do_xfer cfg (P_line 0) sizeof_line_coding UX_READ) (check_reboot cfg))"

definition usb_req_get_line_coding :: "usb_config \<Rightarrow> usb_ctrlrequest \<Rightarrow> ('a usb_s_scheme, unit) fw" where
  "usb_req_get_line_coding cfg req =
    (if bRequestType req \<noteq> 0xa1 \<or> wValue req \<noteq> 0 \<or> wIndex req \<noteq> 0 \<or> unat (wLength req) < sizeof_line_coding
     then usb_do_stall
     else usb_do_xfer cfg (P_line 0) sizeof_line_coding UX_SEND)"

definition usb_req_set_line :: "usb_config \<Rightarrow> usb_ctrlrequest \<Rightarrow> ('a usb_s_scheme, unit) fw" where
  "usb_req_set_line cfg req =
    (if bRequestType req \<noteq> 0x21 \<or> wIndex req \<noteq> 0 \<or> wLength req \<noteq> 0 then usb_do_stall
     else
       thn (upd (\<lambda>s. s\<lparr>line_control_state := ucast (wValue req)\<rparr>))
       (thn (usb_do_xfer cfg P_null 0 UX_SEND) (check_reboot cfg)))"

definition usb_state_ready :: "usb_config \<Rightarrow> ('a usb_s_scheme, unit) fw" where
  "usb_state_ready cfg =
    bnd usb_read_ep0_setup (\<lambda>r. case r of
      None \<Rightarrow> ret ()
    | Some req \<Rightarrow>
        if bRequest req = USB_REQ_GET_DESCRIPTOR then usb_req_get_descriptor cfg req
        else if bRequest req = USB_REQ_SET_ADDRESS then usb_req_set_address req
        else if bRequest req = USB_REQ_SET_CONFIGURATION then usb_req_set_configuration cfg req
        else if bRequest req = USB_CDC_REQ_SET_LINE_CODING then usb_req_set_line_coding cfg req
        else if bRequest req = USB_CDC_REQ_GET_LINE_CODING then usb_req_get_line_coding cfg req
        else if bRequest req = USB_CDC_REQ_SET_CONTROL_LINE_STATE then usb_req_set_line cfg req
        else usb_do_stall)"

definition usb_ep0_task :: "usb_config \<Rightarrow> ('a usb_s_scheme, unit) fw" where
  "usb_ep0_task cfg =
    bnd (sched_check_wake ''usb_ep0_wake'') (\<lambda>w.
    if \<not> w then ret ()
    else
      bnd (gets (\<lambda>s. (usb_xfer_data s, usb_xfer_size s, usb_xfer_flags s))) (\<lambda>(data, size, flags).
      if flags \<noteq> 0 then usb_do_xfer cfg data (unat size) flags
      else usb_state_ready cfg))"

definition usb_shutdown :: "('a usb_s_scheme, unit) fw" where
  "usb_shutdown = thn usb_notify_bulk_in (thn usb_notify_bulk_out usb_notify_ep0)"

section \<open>The descriptors are well formed\<close>

text \<open>
  The length byte of every part is its length, and the configuration counts its interfaces and the
  endpoints of each, so that a host that walks from part to part finds what the header announces.
\<close>

lemma config_parts_lengths: "\<forall>d\<in>set config_parts. unat (d ! 0) = length d"
  by (simp add: config_parts_def usb_interface_descriptor_def usb_endpoint_descriptor_def le16_def)

lemma config_length: "length cdc_config_descriptor = 62" "cdc_config_descriptor ! 2 = 62" "cdc_config_descriptor ! 3 = 0"
  by (simp_all add: cdc_config_descriptor_def config_parts_def usb_interface_descriptor_def usb_endpoint_descriptor_def le16_def)

lemma config_counts:
  "length (filter (\<lambda>d. d ! 1 = USB_DT_INTERFACE) config_parts) = unat (cdc_config_descriptor ! 4)"
  "length (filter (\<lambda>d. d ! 1 = USB_DT_ENDPOINT) config_parts) =
    sum_list (map (\<lambda>d. unat (d ! 4)) (filter (\<lambda>d. d ! 1 = USB_DT_INTERFACE) config_parts))"
  by (simp_all add: cdc_config_descriptor_def config_parts_def usb_interface_descriptor_def usb_endpoint_descriptor_def
      le16_def USB_DT_INTERFACE_def USB_DT_ENDPOINT_def USB_CDC_CS_INTERFACE_def)

lemma device_length: "length (cdc_device_descriptor cfg) = 18" "cdc_device_descriptor cfg ! 0 = 18"
  by (simp_all add: cdc_device_descriptor_def le16_def)

lemma string_length: "length (usb_string_descriptor data) = 2 + 2 * length data"
  by (simp add: usb_string_descriptor_def le16_def length_concat o_def sum_list_triv)

section \<open>Transfers to the host\<close>

text \<open>
  The packets in which the host expects data: full ones, then a shorter one; data that ends with a full
  packet is followed by an empty packet when the host asked for more.
\<close>

function ep0_packets :: "u8 list \<Rightarrow> bool \<Rightarrow> u8 list list" where
  "ep0_packets data zlp =
    (if length data < USB_CDC_EP0_SIZE then [data]
     else take USB_CDC_EP0_SIZE data #
       (if length data = USB_CDC_EP0_SIZE \<and> \<not> zlp then [] else ep0_packets (drop USB_CDC_EP0_SIZE data) zlp))"
  by pat_completeness auto

termination
  by (relation "measure (length \<circ> fst)") (auto simp: USB_CDC_EP0_SIZE_def)

declare ep0_packets.simps [simp del]

lemma ep0_packets_not_Nil: "ep0_packets data zlp \<noteq> []"
  by (subst ep0_packets.simps) simp

lemma concat_ep0_packets: "concat (ep0_packets data zlp) = data"
proof (induction data zlp rule: ep0_packets.induct)
  case (1 data zlp)
  then show ?case by (subst ep0_packets.simps) auto
qed

text \<open>The packets that are still to be sent.\<close>

definition unsent :: "'a usb_s_scheme \<Rightarrow> u8 list list" where
  "unsent s = (if usb_xfer_flags s = 0 then []
    else ep0_packets (take (unat (usb_xfer_size s)) (bytes_at (usb_xfer_data s) s)) (usb_xfer_flags s AND UX_SEND_ZLP \<noteq> 0))"

text \<open>
  A transfer to the host is waiting, or none is.  The controller takes a packet that is offered, or is busy.
\<close>

definition usb_sending :: "'a usb_s_scheme \<Rightarrow> bool" where
  "usb_sending s \<longleftrightarrow> (\<forall>i n. ep0_answers s i n = int n \<or> ep0_answers s i n = - 1) \<and>
    (usb_xfer_flags s \<noteq> 0 \<longrightarrow> usb_xfer_flags s AND UX_READ = 0 \<and>
      unat (usb_xfer_size s) \<le> length (bytes_at (usb_xfer_data s) s))"

lemma unsent_empty_iff: "unsent s = [] \<longleftrightarrow> usb_xfer_flags s = 0"
  by (simp add: unsent_def ep0_packets_not_Nil)

lemma send_ep0_run:
  assumes "n \<le> length (bytes_at p s)" and "\<forall>i n. ep0_answers s i n = int n \<or> ep0_answers s i n = - 1"
  shows "usb_send_ep0 p n s = (Inr (ep0_answers s (ep0_tries s) n), s\<lparr>ep0_tries := Suc (ep0_tries s),
    ep0_events := ep0_events s @ (if ep0_answers s (ep0_tries s) n = int n then [U_sent (take n (bytes_at p s))] else [])\<rparr>)"
  using assms(1) by (simp add: usb_send_ep0_def ep0_try_def usb_record_def fw_unfold)

lemma bytes_at_cong: "line_coding s' = line_coding s \<Longrightarrow> bytes_at p s' = bytes_at p s"
  by (cases p) simp_all

lemma bytes_at_add: "bytes_at (ptr_add p n) s = drop n (bytes_at p s)"
  by (cases p) (simp_all add: add.commute)

text \<open>What a call of \<^verbatim>\<open>usb_do_xfer\<close> leaves: it stops at the end, or at the first packet that is refused.\<close>

definition sent_some :: "'a usb_s_scheme \<Rightarrow> 'a usb_s_scheme \<Rightarrow> u8 list list \<Rightarrow> bool" where
  "sent_some s s' pkts \<longleftrightarrow> (\<exists>new. ep0_events s' = ep0_events s @ map U_sent new \<and> new @ unsent s' = pkts \<and> usb_sending s' \<and>
    ep0_tries s' = ep0_tries s + length new + (if unsent s' = [] then 0 else 1))"

lemma do_xfer_sends:
  assumes "\<forall>i n. ep0_answers s i n = int n \<or> ep0_answers s i n = - 1"
    and "flags AND UX_READ = 0" and "flags \<noteq> 0" and "len \<le> length (bytes_at data s)" and "len \<le> 255"
  shows "\<exists>s'. usb_do_xfer cfg data len flags s = (Inr (), s') \<and>
    sent_some s s' (ep0_packets (take len (bytes_at data s)) (flags AND UX_SEND_ZLP \<noteq> 0))"
  using assms
proof (induction len arbitrary: data s rule: less_induct)
  case (less len)
  define xs where "xs = (if len > USB_CDC_EP0_SIZE then USB_CDC_EP0_SIZE else len)"
  let ?r = "ep0_answers s (ep0_tries s) xs" and ?zlp = "flags AND UX_SEND_ZLP \<noteq> 0"
  have le: "xs \<le> length (bytes_at data s)" "xs \<le> len" using less.prems(4) by (auto simp: xs_def)
  define s1 where "s1 = s\<lparr>ep0_tries := Suc (ep0_tries s),
    ep0_events := ep0_events s @ (if ?r = int xs then [U_sent (take xs (bytes_at data s))] else [])\<rparr>"
  have s1: "ep0_answers s1 = ep0_answers s" "line_coding s1 = line_coding s" "usb_xfer_data s1 = usb_xfer_data s"
    "usb_xfer_size s1 = usb_xfer_size s" by (simp_all add: s1_def)
  note b1 = bytes_at_cong [OF s1(2)]
  have run: "usb_do_xfer cfg data len flags s =
      (if ?r = int xs then
         if len - xs = 0 then
           if xs = USB_CDC_EP0_SIZE \<and> ?zlp then usb_do_xfer cfg (ptr_add data xs) (len - xs) flags s1
           else thn (upd (\<lambda>s. s\<lparr>usb_xfer_flags := 0\<rparr>)) usb_notify_ep0 s1
         else usb_do_xfer cfg (ptr_add data xs) (len - xs) flags s1
       else upd (\<lambda>s. s\<lparr>usb_xfer_data := data, usb_xfer_size := of_nat len, usb_xfer_flags := flags\<rparr>) s1)"
  proof -
    have send: "(if flags AND UX_READ \<noteq> 0 then usb_read_ep0 data xs
        else if cf_progmem cfg \<and> flags AND UX_SEND_PROGMEM \<noteq> 0 then usb_send_ep0_progmem data xs
        else usb_send_ep0 data xs) s = (Inr ?r, s1)"
      using less.prems(2) send_ep0_run [OF le(1) less.prems(1)] by (simp add: usb_send_ep0_progmem_def s1_def)
    have bind: "bnd (if flags AND UX_READ \<noteq> 0 then usb_read_ep0 data xs
        else if cf_progmem cfg \<and> flags AND UX_SEND_PROGMEM \<noteq> 0 then usb_send_ep0_progmem data xs
        else usb_send_ep0 data xs) f s = f ?r s1" for f :: "int \<Rightarrow> ('a usb_s_scheme, unit) fw"
      by (rule bnd_Inr) (rule send)
    have ans: "?r = int xs \<or> ?r = - 1" by (rule less.prems(1) [rule_format])
    show ?thesis
      unfolding usb_do_xfer.simps [of cfg data len flags] Let_def xs_def [symmetric] bind
      using ans less.prems(2) by (simp only: if_distribR simp_thms if_False if_True split: if_splits) (auto)
  qed
  have recurse: "\<exists>s'. usb_do_xfer cfg (ptr_add data xs) (len - xs) flags s1 = (Inr (), s') \<and>
      sent_some s s' (take xs (bytes_at data s) # ep0_packets (drop xs (take len (bytes_at data s))) ?zlp)"
    if r: "?r = int xs" and smaller: "len - xs < len"
  proof -
    obtain s' where s': "usb_do_xfer cfg (ptr_add data xs) (len - xs) flags s1 = (Inr (), s')"
        "sent_some s1 s' (ep0_packets (take (len - xs) (drop xs (bytes_at data s))) ?zlp)"
    proof -
      have "len - xs \<le> length (bytes_at data s) - xs" "len - xs \<le> 255" using less.prems(4,5) by linarith+
      then show thesis
        using that less.IH [OF smaller, of s1 "ptr_add data xs"] less.prems(1,2,3) by (auto simp: bytes_at_add s1 b1)
    qed
    obtain new where new: "ep0_events s' = ep0_events s1 @ map U_sent new" "usb_sending s'"
        "new @ unsent s' = ep0_packets (take (len - xs) (drop xs (bytes_at data s))) ?zlp"
        "ep0_tries s' = ep0_tries s1 + length new + (if unsent s' = [] then 0 else 1)"
      using s'(2) unfolding sent_some_def by blast
    have "sent_some s s' (take xs (bytes_at data s) # ep0_packets (drop xs (take len (bytes_at data s))) ?zlp)"
      unfolding sent_some_def
      using new r by (intro exI [of _ "take xs (bytes_at data s) # new"]) (simp add: s1_def drop_take)
    then show ?thesis using s'(1) by blast
  qed
  show ?case
  proof (cases "?r = int xs")
    case False
    let ?s = "s1\<lparr>usb_xfer_data := data, usb_xfer_size := of_nat len, usb_xfer_flags := flags\<rparr>"
    have n: "unat (of_nat len :: u8) = len" using less.prems(5) by (intro unat_of_nat_small) simp
    have b: "bytes_at data ?s = bytes_at data s" by (rule bytes_at_cong) (simp add: s1_def)
    have "unsent ?s = ep0_packets (take len (bytes_at data s)) ?zlp" using less.prems(3) b n by (simp add: unsent_def)
    moreover have "usb_sending ?s" using less.prems(1,2,4) b n by (simp add: usb_sending_def s1_def)
    ultimately have "sent_some s ?s (ep0_packets (take len (bytes_at data s)) ?zlp)"
      unfolding sent_some_def using False by (intro exI [of _ "[]"]) (simp add: s1_def ep0_packets_not_Nil)
    then show ?thesis using False run by (simp add: upd_def)
  next
    case r: True
    show ?thesis
    proof (cases "len - xs = 0 \<and> \<not> (xs = USB_CDC_EP0_SIZE \<and> ?zlp)")
      case True
      let ?s = "snd (thn (upd (\<lambda>s. s\<lparr>usb_xfer_flags := 0\<rparr>)) usb_notify_ep0 s1)"
      have d: "usb_do_xfer cfg data len flags s = (Inr (), ?s)"
        using r True run by (auto simp: fw_unfold usb_notify_ep0_def sched_wake_task_def sched_wake_tasks_def)
      have f: "usb_xfer_flags ?s = 0" "ep0_events ?s = ep0_events s1" "ep0_tries ?s = ep0_tries s1"
        "ep0_answers ?s = ep0_answers s" "usb_xfer_size ?s = usb_xfer_size s" "usb_xfer_data ?s = usb_xfer_data s"
        "line_coding ?s = line_coding s"
        by (simp_all add: fw_unfold usb_notify_ep0_def sched_wake_task_def sched_wake_tasks_def s1_def)
      have p: "ep0_packets (take len (bytes_at data s)) ?zlp = [take xs (bytes_at data s)]"
        using True less.prems(4) by (subst ep0_packets.simps) (auto simp: xs_def split: if_splits)
      have "usb_sending ?s" using less.prems(1) f by (simp add: usb_sending_def)
      then have "sent_some s ?s (ep0_packets (take len (bytes_at data s)) ?zlp)"
        unfolding sent_some_def p using r f by (intro exI [of _ "[take xs (bytes_at data s)]"]) (simp add: unsent_def s1_def)
      then show ?thesis using d by blast
    next
      case False
      have p: "ep0_packets (take len (bytes_at data s)) ?zlp =
          take xs (bytes_at data s) # ep0_packets (drop xs (take len (bytes_at data s))) ?zlp"
        using False less.prems(4) by (subst ep0_packets.simps) (auto simp: xs_def USB_CDC_EP0_SIZE_def min_def split: if_splits)
      have lt: "len - xs < len"
      proof (cases "len > USB_CDC_EP0_SIZE")
        case True
        then show ?thesis by (simp add: xs_def USB_CDC_EP0_SIZE_def)
      next
        case small: False
        then have "len = USB_CDC_EP0_SIZE" using False by (simp add: xs_def)
        then show ?thesis by (simp add: xs_def USB_CDC_EP0_SIZE_def)
      qed
      have "usb_do_xfer cfg data len flags s = usb_do_xfer cfg (ptr_add data xs) (len - xs) flags s1"
        using r False run by auto
      then show ?thesis using recurse [OF r lt] p by simp
    qed
  qed
qed

text \<open>\<open>n\<close> runs of the task, each after a notice of the controller, until no transfer is waiting.\<close>

fun ep0_polls :: "usb_config \<Rightarrow> nat \<Rightarrow> ('a usb_s_scheme, unit) fw" where
  "ep0_polls cfg 0 = ret ()"
| "ep0_polls cfg (Suc n) =
    thn usb_notify_ep0
    (thn (usb_ep0_task cfg)
    (bnd (gets usb_xfer_flags) (\<lambda>flags. if flags = 0 then ret () else ep0_polls cfg n)))"

definition notified :: "'a usb_s_scheme \<Rightarrow> 'a usb_s_scheme" where
  "notified s = s\<lparr>tasks_status := TS_REQUESTED, task_wakes := (task_wakes s)(''usb_ep0_wake'' := 0)\<rparr>"

lemma notified_simps [simp]:
  "unsent (notified s) = unsent s" "usb_sending (notified s) = usb_sending s" "ep0_events (notified s) = ep0_events s"
  "ep0_tries (notified s) = ep0_tries s" "usb_xfer_flags (notified s) = usb_xfer_flags s"
  "ep0_setups (notified s) = ep0_setups s" "ep0_setup_tries (notified s) = ep0_setup_tries s"
  "usb_xfer_data (notified s) = usb_xfer_data s" "usb_xfer_size (notified s) = usb_xfer_size s"
  "ep0_answers (notified s) = ep0_answers s" "bytes_at p (notified s) = bytes_at p s"
proof -
  show b: "bytes_at p (notified s) = bytes_at p s" for p by (rule bytes_at_cong) (simp add: notified_def)
  show "unsent (notified s) = unsent s" "usb_sending (notified s) = usb_sending s"
    by (simp_all add: unsent_def usb_sending_def b) (simp_all add: notified_def)
qed (simp_all add: notified_def)

lemma poll_run:
  "bnd usb_notify_ep0 (\<lambda>_. bnd (usb_ep0_task cfg) f) s =
    bnd (if usb_xfer_flags s \<noteq> 0 then usb_do_xfer cfg (usb_xfer_data s) (unat (usb_xfer_size s)) (usb_xfer_flags s)
      else usb_state_ready cfg) f (notified s)"
  by (simp add: usb_notify_ep0_def usb_ep0_task_def sched_wake_task_def sched_wake_tasks_def sched_check_wake_def
      fw_unfold notified_def)

text \<open>\<open>n\<close> runs left the result \<open>r\<close>: they ended the transfer, or each had one packet refused.\<close>

definition sends_on :: "'a usb_s_scheme \<Rightarrow> nat \<Rightarrow> (stop + unit) \<times> 'a usb_s_scheme \<Rightarrow> u8 list list \<Rightarrow> bool" where
  "sends_on s n r pkts \<longleftrightarrow> (\<exists>s' new k. r = (Inr (), s') \<and> ep0_events s' = ep0_events s @ map U_sent new \<and>
    new @ unsent s' = pkts \<and> ep0_tries s' = ep0_tries s + length new + k \<and> (unsent s' = [] \<or> k = n) \<and> usb_sending s')"

lemma sends_on_step:
  assumes "sent_some s s1 pkts" and "usb_xfer_flags s1 \<noteq> 0 \<Longrightarrow> usb_sending s1 \<Longrightarrow> sends_on s1 n r (unsent s1)"
  shows "sends_on s (Suc n) (if usb_xfer_flags s1 = 0 then (Inr (), s1) else r) pkts"
proof -
  obtain new where new: "ep0_events s1 = ep0_events s @ map U_sent new" "new @ unsent s1 = pkts" "usb_sending s1"
      "ep0_tries s1 = ep0_tries s + length new + (if unsent s1 = [] then 0 else 1)"
    using assms(1) unfolding sent_some_def by blast
  show ?thesis
  proof (cases "usb_xfer_flags s1 = 0")
    case True
    then show ?thesis using new unsent_empty_iff [of s1]
      unfolding sends_on_def by (intro exI [of _ s1] exI [of _ new] exI [of _ 0]) simp
  next
    case False
    obtain s' new' k where r: "r = (Inr (), s')" "ep0_events s' = ep0_events s1 @ map U_sent new'"
        "new' @ unsent s' = unsent s1" "ep0_tries s' = ep0_tries s1 + length new' + k" "unsent s' = [] \<or> k = n" "usb_sending s'"
      using assms(2) [OF False new(3)] unfolding sends_on_def by blast
    have "unsent s1 \<noteq> []" using False unsent_empty_iff [of s1] by simp
    moreover have "(new @ new') @ unsent s' = pkts" by (simp only: append_assoc r(3) new(2))
    ultimately show ?thesis using r(1,2,4,5,6) new(1,4) False
      unfolding sends_on_def by (intro exI [of _ s'] exI [of _ "new @ new'"] exI [of _ "Suc k"]) simp
  qed
qed

lemma polls_send:
  assumes "usb_sending s" and "usb_xfer_flags s \<noteq> 0"
  shows "sends_on s n (ep0_polls cfg n s) (unsent s)"
  using assms
proof (induction n arbitrary: s)
  case 0
  then show ?case unfolding sends_on_def
    by (intro exI [of _ s] exI [of _ "[]"] exI [of _ 0]) (simp add: ret_run)
next
  case (Suc n)
  let ?d = "usb_xfer_data s" and ?len = "unat (usb_xfer_size s)" and ?f = "usb_xfer_flags s"
  have len: "?len \<le> 255" using unsigned_less [of "usb_xfer_size s", where 'a = nat] by simp
  have ok: "\<forall>i n. ep0_answers (notified s) i n = int n \<or> ep0_answers (notified s) i n = - 1" "?f AND UX_READ = 0"
    "?len \<le> length (bytes_at ?d (notified s))"
    using Suc.prems by (simp_all add: usb_sending_def)
  obtain s1 where s1: "usb_do_xfer cfg ?d ?len ?f (notified s) = (Inr (), s1)"
      "sent_some (notified s) s1 (ep0_packets (take ?len (bytes_at ?d (notified s))) (?f AND UX_SEND_ZLP \<noteq> 0))"
    using do_xfer_sends [OF ok(1,2) Suc.prems(2) ok(3) len] by blast
  have "sent_some s s1 (unsent s)"
    using s1(2) Suc.prems(2) unfolding sent_some_def by (simp add: unsent_def)
  then have "sends_on s (Suc n) (if usb_xfer_flags s1 = 0 then (Inr (), s1) else ep0_polls cfg n s1) (unsent s)"
    by (rule sends_on_step) (rule Suc.IH)
  moreover have "ep0_polls cfg (Suc n) s = (if usb_xfer_flags s1 = 0 then (Inr (), s1) else ep0_polls cfg n s1)"
    using Suc.prems(2) s1(1) by (simp add: thn_def poll_run bnd_Inr gets_run ret_run)
  ultimately show ?case by simp
qed

lemma find_descriptor_flags:
  assumes "find_descriptor cfg req = Some (desc, flags)"
  shows "flags = UX_SEND \<or> flags = UX_SEND_PROGMEM"
  using assms by (auto simp: find_descriptor_def cdc_descriptors_def Let_def split: if_splits)

text \<open>
  The host gets the descriptor it asks for.  After a request for a descriptor, runs of the task send its
  first \<^verbatim>\<open>wLength\<close> bytes in packets of the size of the endpoint, with the short or empty packet at
  the end that tells the host there is no more; however often the controller refuses a packet, the
  transfer continues with that packet, and only a refusal keeps it from being complete.
\<close>

theorem descriptor_reaches_host:
  assumes "ep0_setups s (ep0_setup_tries s) = Some req"
    and "bRequest req = USB_REQ_GET_DESCRIPTOR" and "bRequestType req = USB_DIR_IN"
    and "find_descriptor cfg req = Some (desc, flags)" and "length desc \<le> 255"
    and "usb_xfer_flags s = 0" and "\<forall>i n. ep0_answers s i n = int n \<or> ep0_answers s i n = - 1"
  shows "\<exists>s' new k. ep0_polls cfg (Suc n) s = (Inr (), s') \<and> ep0_events s' = ep0_events s @ map U_sent new \<and>
    new @ unsent s' = ep0_packets (take (unat (wLength req)) desc) (length desc < unat (wLength req)) \<and>
    ep0_tries s' = ep0_tries s + length new + k \<and> (unsent s' = [] \<or> k = Suc n)"
proof -
  let ?len = "min (length desc) (unat (wLength req))"
  define fl where "fl = (if length desc < unat (wLength req) then flags OR UX_SEND_ZLP else flags)"
  define s0 where "s0 = (notified s)\<lparr>ep0_setup_tries := Suc (ep0_setup_tries s)\<rparr>"
  have fl: "fl AND UX_READ = 0" "fl \<noteq> 0" "fl AND UX_SEND_ZLP \<noteq> 0 \<longleftrightarrow> length desc < unat (wLength req)"
    using find_descriptor_flags [OF assms(4)] by (auto simp: fl_def ux_flags)
  have s0: "ep0_events s0 = ep0_events s" "ep0_tries s0 = ep0_tries s" "ep0_answers s0 = ep0_answers s"
    by (simp_all add: s0_def)
  have "usb_state_ready cfg (notified s) = usb_do_xfer cfg (P_const desc) ?len fl s0"
    using assms(1-4) by (simp add: usb_state_ready_def usb_read_ep0_setup_def gets_run bnd_Inr thn_run upd_run ret_run
        usb_req_get_descriptor_def s0_def fl_def min_def)
  moreover obtain s1 where s1: "usb_do_xfer cfg (P_const desc) ?len fl s0 = (Inr (), s1)"
      "sent_some s0 s1 (ep0_packets (take ?len (bytes_at (P_const desc) s0)) (fl AND UX_SEND_ZLP \<noteq> 0))"
  proof -
    have "?len \<le> length (bytes_at (P_const desc) s0)" "?len \<le> 255" using assms(5) by simp_all
    then show thesis using that do_xfer_sends [OF _ fl(1,2), of s0 ?len "P_const desc" cfg] assms(7) unfolding s0 by blast
  qed
  ultimately have run: "ep0_polls cfg (Suc n) s = (if usb_xfer_flags s1 = 0 then (Inr (), s1) else ep0_polls cfg n s1)"
    using assms(6) by (simp add: thn_def poll_run bnd_Inr gets_run ret_run)
  have "sent_some s s1 (ep0_packets (take (unat (wLength req)) desc) (length desc < unat (wLength req)))"
    using s1(2) unfolding sent_some_def s0 fl(3) by (simp add: min_def split: if_splits)
  then have "sends_on s (Suc n) (ep0_polls cfg (Suc n) s)
      (ep0_packets (take (unat (wLength req)) desc) (length desc < unat (wLength req)))"
    unfolding run by (rule sends_on_step) (rule polls_send)
  then show ?thesis unfolding sends_on_def by blast
qed

definition example_usb_config :: usb_config where
  "example_usb_config = \<lparr>cf_vendor_id = 0x1d50, cf_device_id = 0x614e, cf_mcu = utf16 ''stm32f103xe'', cf_serial = utf16 ''12345'',
    cf_chipid = False, cf_serialid = [], cf_bootloader = True, cf_progmem = False\<rparr>"

definition example_usb :: usb_s where
  "example_usb = serial_s.extend (sched_s.extend (sched_init idle_command_s) \<lparr>receive_buf = replicate 128 0, receive_pos = 0\<rparr>)
    \<lparr>usb_transmit_buf = replicate 192 0, usb_transmit_pos = 0, usb_xfer_data = P_null, usb_xfer_size = 0, usb_xfer_flags = 0,
     line_coding = replicate 7 0, line_control_state = 0, bulk_in_answers = (\<lambda>_ n. int n), bulk_in_tries = 0, bulk_in_sent = [],
     bulk_out_packets = (\<lambda>n. if n = 0 then [MESSAGE_SYNC, 5] else []), bulk_out_tries = 0,
     ep0_answers = (\<lambda>i n. if i = 1 then - 1 else int n), ep0_data = (\<lambda>_. []), ep0_tries = 0,
     ep0_setups = (\<lambda>n. if n = 0 then Some \<lparr>bRequestType = 0x80, bRequest = 0x06, wValue = 0x0100, wIndex = 0, wLength = 64\<rparr> else None),
     ep0_setup_tries = 0, ep0_events = []\<rparr>"

theorem descriptor_reaches_host_witness:
  "\<exists>s' new k. ep0_polls example_usb_config 2 example_usb = (Inr (), s') \<and> ep0_events s' = map U_sent new \<and>
    new @ unsent s' = [take 16 (cdc_device_descriptor example_usb_config), drop 16 (cdc_device_descriptor example_usb_config)] \<and>
    ep0_tries s' = length new + k \<and> (unsent s' = [] \<or> k = 2)"
proof -
  let ?req = "\<lparr>bRequestType = 0x80, bRequest = 0x06, wValue = 0x0100, wIndex = 0, wLength = 64\<rparr>"
  let ?desc = "cdc_device_descriptor example_usb_config"
  have f: "ep0_setups example_usb (ep0_setup_tries example_usb) = Some ?req" "usb_xfer_flags example_usb = 0"
    "\<forall>i n. ep0_answers example_usb i n = int n \<or> ep0_answers example_usb i n = - 1"
    "ep0_events example_usb = []" "ep0_tries example_usb = 0"
    by (simp_all add: example_usb_def serial_s.defs)
  have d: "find_descriptor example_usb_config ?req = Some (?desc, UX_SEND)"
    by (simp add: find_descriptor_def cdc_descriptors_def dt_value_def example_usb_config_def USB_DT_DEVICE_def USB_DT_CONFIG_def
        USB_DT_STRING_def USB_STR_ID_MANUFACTURER_def USB_STR_ID_PRODUCT_def USB_STR_ID_SERIAL_def)
  have p: "ep0_packets (take 64 ?desc) (length ?desc < 64) = [take 16 ?desc, drop 16 ?desc]"
    by (simp add: ep0_packets.simps [of ?desc] ep0_packets.simps [of "drop 16 ?desc"] USB_CDC_EP0_SIZE_def device_length)
  have w: "unat (wLength ?req) = 64" and n: "Suc 1 = 2" and q: "bRequest ?req = USB_REQ_GET_DESCRIPTOR" "bRequestType ?req = USB_DIR_IN"
    and l: "length ?desc \<le> 255"
    by (simp_all add: usb_requests USB_DIR_IN_def device_length)
  show ?thesis
    using descriptor_reaches_host [OF f(1) q d l f(2,3), of 1] unfolding w n p f(4,5) append_Nil add_0 by blast
qed

text \<open>A request that is not known, or asks for a descriptor that does not exist, is answered by a stall.\<close>

lemma unknown_request_stalls:
  assumes "ep0_setups s (ep0_setup_tries s) = Some req"
    and "bRequest req \<notin> {USB_REQ_GET_DESCRIPTOR, USB_REQ_SET_ADDRESS, USB_REQ_SET_CONFIGURATION, USB_CDC_REQ_SET_LINE_CODING,
      USB_CDC_REQ_GET_LINE_CODING, USB_CDC_REQ_SET_CONTROL_LINE_STATE} \<or>
      bRequest req = USB_REQ_GET_DESCRIPTOR \<and> (bRequestType req \<noteq> USB_DIR_IN \<or> find_descriptor cfg req = None)"
  shows "\<exists>s'. usb_state_ready cfg s = (Inr (), s') \<and> ep0_events s' = ep0_events s @ [U_stall] \<and> usb_xfer_flags s' = 0"
  using assms
  by (auto simp: usb_state_ready_def usb_read_ep0_setup_def fw_unfold usb_do_stall_def usb_record_def usb_req_get_descriptor_def)

text \<open>
  The line coding that the host sets is read into the seven bytes, and acknowledged by an empty packet.
\<close>

lemma line_coding_is_set:
  assumes "length (line_coding s) = 7" and "length (ep0_data s (ep0_tries s)) = 7"
    and "ep0_answers s (ep0_tries s) 7 = 7" and "ep0_answers s (Suc (ep0_tries s)) 0 = 0"
  shows "\<exists>s'. usb_do_xfer cfg (P_line 0) sizeof_line_coding UX_READ s = (Inr (), s') \<and>
    line_coding s' = ep0_data s (ep0_tries s) \<and> usb_xfer_flags s' = 0 \<and>
    ep0_events s' = ep0_events s @ [U_read (ep0_data s (ep0_tries s)), U_sent []]"
  using assms
  by (simp add: usb_do_xfer.simps [of cfg "P_line 0"] usb_do_xfer.simps [of cfg "P_line 7"] sizeof_line_coding_def USB_CDC_EP0_SIZE_def
      ux_flags usb_read_ep0_def usb_send_ep0_def ep0_try_def fw_unfold usb_record_def usb_notify_ep0_def sched_wake_task_def
      sched_wake_tasks_def Let_def)

section \<open>Messages leave in order\<close>

definition usb_tx_ok :: "'a usb_s_scheme \<Rightarrow> bool" where
  "usb_tx_ok s \<longleftrightarrow> length (usb_transmit_buf s) = 192 \<and> usb_transmit_pos s \<le> 192 \<and> (\<forall>i n. bulk_in_answers s i n \<le> int n)"

definition usb_tx_content :: "'a usb_s_scheme \<Rightarrow> u8 list" where
  "usb_tx_content s = take (usb_transmit_pos s) (usb_transmit_buf s)"

text \<open>A run of the task sends the front of the buffer; what remains wakes it again.\<close>

lemma bulk_in_task_sends:
  assumes "usb_tx_ok s"
  shows "\<exists>s' new. usb_bulk_in_task s = (Inr (), s') \<and> bulk_in_sent s' = bulk_in_sent s @ new \<and>
    concat new @ usb_tx_content s' = usb_tx_content s \<and> usb_tx_ok s' \<and> (\<forall>p\<in>set new. p \<noteq> [] \<and> length p \<le> 64) \<and>
    (new \<noteq> [] \<and> usb_tx_content s' \<noteq> [] \<longrightarrow> task_wakes s' ''usb_bulk_in_wake'' = 1)"
proof -
  let ?pos = "usb_transmit_pos s" and ?buf = "usb_transmit_buf s"
  define n where "n = (if ?pos > USB_CDC_EP_BULK_IN_SIZE then USB_CDC_EP_BULK_IN_SIZE else ?pos)"
  define r where "r = bulk_in_answers s (bulk_in_tries s) n"
  define s0 where "s0 = s\<lparr>task_wakes := (task_wakes s)(''usb_bulk_in_wake'' := 0)\<rparr>"
  have ok: "length ?buf = 192" "?pos \<le> 192" "r \<le> int n" using assms by (auto simp: usb_tx_ok_def r_def)
  have n: "n \<le> ?pos" "n \<le> 64" by (auto simp: n_def USB_CDC_EP_BULK_IN_SIZE_def)
  have len: "length (take n ?buf) = n" using n ok by simp
  have f: "usb_transmit_pos s0 = ?pos" "usb_transmit_buf s0 = ?buf" "bulk_in_sent s0 = bulk_in_sent s"
    "bulk_in_answers s0 = bulk_in_answers s" "bulk_in_tries s0 = bulk_in_tries s" by (simp_all add: s0_def)
  have send: "usb_send_bulk_in (take n ?buf) s0 = (Inr r, s0\<lparr>bulk_in_tries := Suc (bulk_in_tries s),
      bulk_in_sent := bulk_in_sent s @ (if r > 0 then [take (nat r) (take n ?buf)] else [])\<rparr>)"
    unfolding usb_send_bulk_in_def gets_run thn_run upd_run ret_run bnd_def len by (simp add: f r_def)
  have task: "usb_bulk_in_task s =
      (if ?pos = 0 then ret ()
       else bnd (usb_send_bulk_in (take n ?buf)) (\<lambda>r.
         if r \<le> 0 then ret ()
         else if r > int ?pos then stuck
         else let needcopy = ?pos - nat r in
           thn (if needcopy \<noteq> 0 then
                  thn (upd (\<lambda>s. s\<lparr>usb_transmit_buf := move_down 0 (nat r) needcopy (usb_transmit_buf s)\<rparr>)) usb_notify_bulk_in
                else ret ())
           (upd (\<lambda>s. s\<lparr>usb_transmit_pos := needcopy\<rparr>)))) s0"
    if "task_wakes s ''usb_bulk_in_wake'' \<noteq> 0"
  proof -
    have c: "bnd (sched_check_wake ''usb_bulk_in_wake'') f s = f True s0" for f :: "bool \<Rightarrow> ('a usb_s_scheme, unit) fw"
      using that by (simp add: sched_check_wake_def fw_unfold s0_def)
    have g2: "bnd (gets h) f x = f (h x) x" for h :: "'a usb_s_scheme \<Rightarrow> u8 list" and f :: "u8 list \<Rightarrow> ('a usb_s_scheme, unit) fw" and x
      by (simp add: fw_unfold)
    have g3: "bnd (gets h) f x = f (h x) x" for h :: "'a usb_s_scheme \<Rightarrow> nat" and f :: "nat \<Rightarrow> ('a usb_s_scheme, unit) fw" and x
      by (simp add: fw_unfold)
    show ?thesis
      unfolding usb_bulk_in_task_def c
      by (simp only: not_True_eq_False if_False g2 g3 f Let_def n_def [symmetric] if_distribR)
  qed
  show ?thesis
  proof (cases "task_wakes s ''usb_bulk_in_wake'' = 0 \<or> ?pos = 0 \<or> r \<le> 0")
    case True
    let ?s = "snd (usb_bulk_in_task s)"
    have run: "usb_bulk_in_task s = (Inr (), if task_wakes s ''usb_bulk_in_wake'' = 0 then s
      else if ?pos = 0 then s0 else s0\<lparr>bulk_in_tries := Suc (bulk_in_tries s), bulk_in_sent := bulk_in_sent s\<rparr>)"
    proof (cases "task_wakes s ''usb_bulk_in_wake'' = 0")
      case wake: False
      have r: "bnd (usb_send_bulk_in (take n ?buf)) f s0 = f r (s0\<lparr>bulk_in_tries := Suc (bulk_in_tries s), bulk_in_sent := bulk_in_sent s\<rparr>)"
        if "?pos \<noteq> 0" for f :: "int \<Rightarrow> ('a usb_s_scheme, unit) fw"
        by (rule bnd_Inr) (use send True wake that in simp)
      show ?thesis
      proof (cases "?pos = 0")
        case pos: True
        show ?thesis unfolding task [OF wake] using pos wake by (simp add: ret_run)
      next
        case pos: False
        then have "(r \<le> 0) = True" using True wake by simp
        then show ?thesis unfolding task [OF wake] if_not_P [OF pos] r [OF pos] using wake by (simp add: ret_run)
      qed
    qed (simp add: usb_bulk_in_task_def sched_check_wake_def fw_unfold)
    have "usb_bulk_in_task s = (Inr (), ?s)" "bulk_in_sent ?s = bulk_in_sent s" "usb_transmit_buf ?s = ?buf" "usb_transmit_pos ?s = ?pos"
      "bulk_in_answers ?s = bulk_in_answers s"
      unfolding run by (simp_all add: f)
    then show ?thesis using assms
      by (intro exI [of _ ?s] exI [of _ "[]"]) (simp add: usb_tx_ok_def usb_tx_content_def)
  next
    case False
    define k where "k = nat r"
    have k: "r = int k" "0 < k" "k \<le> n" "k \<le> ?pos" using False ok(3) n(1) by (simp_all add: k_def)
    let ?rest = "?pos - k"
    define s1 where "s1 = s0\<lparr>bulk_in_tries := Suc (bulk_in_tries s), bulk_in_sent := bulk_in_sent s @ [take k (take n ?buf)]\<rparr>"
    define s' where "s' = (if ?rest \<noteq> 0 then s1\<lparr>usb_transmit_buf := move_down 0 k ?rest ?buf, tasks_status := TS_REQUESTED,
      task_wakes := (task_wakes s1)(''usb_bulk_in_wake'' := 1), usb_transmit_pos := ?rest\<rparr> else s1\<lparr>usb_transmit_pos := ?rest\<rparr>)"
    have s1: "usb_transmit_buf s1 = ?buf" "bulk_in_sent s1 = bulk_in_sent s @ [take k (take n ?buf)]" "bulk_in_answers s1 = bulk_in_answers s"
      by (simp_all add: s1_def f)
    have send1: "usb_send_bulk_in (take n ?buf) s0 = (Inr r, s1)" using send k(1,2) by (simp add: s1_def)
    have "usb_bulk_in_task s = (Inr (), s')"
    proof -
      have r: "bnd (usb_send_bulk_in (take n ?buf)) f s0 = f r s1" for f :: "int \<Rightarrow> ('a usb_s_scheme, unit) fw"
        by (rule bnd_Inr) (rule send1)
      have c: "task_wakes s ''usb_bulk_in_wake'' \<noteq> 0" "(?pos = 0) = False" "(r \<le> 0) = False" "(r > int ?pos) = False" "nat r = k"
        using False k by simp_all
      have "usb_bulk_in_task s = thn (if ?rest \<noteq> 0 then
            thn (upd (\<lambda>s. s\<lparr>usb_transmit_buf := move_down 0 k ?rest (usb_transmit_buf s)\<rparr>)) usb_notify_bulk_in
          else ret ()) (upd (\<lambda>s. s\<lparr>usb_transmit_pos := ?rest\<rparr>)) s1"
        unfolding task [OF c(1)] c(2) if_False r c(3,4,5) Let_def ..
      also have "\<dots> = (Inr (), s')"
        by (simp add: fw_unfold usb_notify_bulk_in_def sched_wake_task_def sched_wake_tasks_def s'_def s1)
      finally show ?thesis .
    qed
    moreover have "usb_tx_content s' = drop k (usb_tx_content s)"
      using move_down_take(1) [of 0 k ?rest ?buf] k ok(1,2) by (simp add: s'_def usb_tx_content_def drop_take)
    moreover have "take k (take n ?buf) = take k (usb_tx_content s)" using k by (simp add: usb_tx_content_def min_def)
    moreover have "?rest \<le> 192" using ok(2) by simp
    then have "usb_tx_ok s'" using assms move_down_take(2) [of 0 k ?rest ?buf] k ok by (simp add: s'_def s1 usb_tx_ok_def)
    moreover have "take k (take n ?buf) \<noteq> []" "length (take k (take n ?buf)) \<le> 64" using k(2,3) n ok(1,2) len by auto
    moreover have "bulk_in_sent s' = bulk_in_sent s @ [take k (take n ?buf)]" by (simp add: s'_def s1)
    moreover have "usb_tx_content s' \<noteq> [] \<longrightarrow> task_wakes s' ''usb_bulk_in_wake'' = 1" by (simp add: s'_def usb_tx_content_def)
    ultimately show ?thesis by (intro exI [of _ s'] exI [of _ "[take k (take n ?buf)]"]) simp
  qed
qed

lemma usb_sendf_content:
  assumes "usb_tx_ok s" and "encodes_to seq ce args frame"
  shows "\<exists>acc s'. usb_console_sendf seq ce args s = (Inr acc, s') \<and> usb_tx_ok s' \<and> bulk_in_sent s' = bulk_in_sent s \<and>
    usb_tx_content s' = usb_tx_content s @ (if acc then frame else []) \<and>
    (\<not> acc \<longrightarrow> length (usb_tx_content s) + ce_max_size ce > 192)"
proof (cases "usb_transmit_pos s + ce_max_size ce > length (usb_transmit_buf s)")
  case True
  then show ?thesis using assms(1)
    by (intro exI [of _ False] exI [of _ s]) (simp add: usb_console_sendf_def fw_unfold usb_tx_ok_def usb_tx_content_def)
next
  case False
  let ?t = "usb_transmit_pos s"
  have len: "length (usb_transmit_buf s) = 192" "?t \<le> 192" "length frame \<le> ce_max_size ce" "?t + length frame \<le> 192"
    using assms False by (auto simp: usb_tx_ok_def encodes_to_def)
  have enc: "command_encode_and_frame seq (drop ?t (usb_transmit_buf s)) ce args =
      Some (Inr (frame @ drop (?t + length frame) (usb_transmit_buf s), length frame))"
    using assms(2) False len by (auto simp: encodes_to_def add.commute)
  define s' where "s' = s\<lparr>usb_transmit_buf := take ?t (usb_transmit_buf s) @ frame @ drop (?t + length frame) (usb_transmit_buf s),
    usb_transmit_pos := ?t + length frame, tasks_status := TS_REQUESTED, task_wakes := (task_wakes s)(''usb_bulk_in_wake'' := 1)\<rparr>"
  have "usb_console_sendf seq ce args s = (Inr True, s')"
    using False enc by (simp add: usb_console_sendf_def fw_unfold usb_notify_bulk_in_def sched_wake_task_def sched_wake_tasks_def s'_def)
  moreover have "usb_tx_ok s'" using assms(1) len by (simp add: usb_tx_ok_def s'_def)
  moreover have "usb_tx_content s' = usb_tx_content s @ frame" using len by (simp add: s'_def usb_tx_content_def)
  ultimately show ?thesis by (intro exI [of _ True] exI [of _ s']) (simp add: s'_def)
qed

text \<open>A reply whose buffer argument is truncated is written past the end of the buffer, as on the serial console.\<close>

lemma usb_sendf_overruns:
  assumes "ce_param_types ce = [PT_buffer]" and "ce_encoded_msgid ce = 5" and "ce_max_size ce = 64"
    and "usb_transmit_pos s = 128" and "length (usb_transmit_buf s) = 192"
  shows "usb_console_sendf seq ce [VA_buf 60 (replicate 60 1)] s = (Inl Stuck, s)"
  using assms
  by (simp add: usb_console_sendf_def fw_unfold command_encode_and_frame_def command_encodef_def
      buf_put_def message_consts encode_msgid_def command_add_frame_def Let_def)

section \<open>Blocks are received in order\<close>

definition usb_rx_ok :: "'a usb_s_scheme \<Rightarrow> bool" where
  "usb_rx_ok s \<longleftrightarrow> length (receive_buf s) = 128 \<and> receive_pos s \<le> 128"

text \<open>The packet that is read next, if the buffer has room for any.\<close>

definition next_packet :: "'a usb_s_scheme \<Rightarrow> u8 list" where
  "next_packet s = (if receive_pos s + 64 \<le> 128 then take 64 (bulk_out_packets s (bulk_out_tries s)) else [])"

lemma bulk_out_read_run:
  assumes "usb_rx_ok s"
  shows "\<exists>s1. usb_bulk_out_read (receive_pos s) s = (Inr (receive_pos s + length (next_packet s)), s1) \<and>
    length (receive_buf s1) = 128 \<and> receive_pos s + length (next_packet s) \<le> 128 \<and>
    take (receive_pos s + length (next_packet s)) (receive_buf s1) = rx_content s @ next_packet s \<and>
    (next_packet s \<noteq> [] \<or> receive_pos s + 64 > 128 \<longrightarrow> task_wakes s1 ''usb_bulk_out_wake'' = 1)"
proof -
  have ok: "length (receive_buf s) = 128" "receive_pos s \<le> 128" using assms by (simp_all add: usb_rx_ok_def)
  consider (full) "\<not> receive_pos s + 64 \<le> 128" | (none) "receive_pos s + 64 \<le> 128" "next_packet s = []"
    | (packet) "receive_pos s + 64 \<le> 128" "next_packet s \<noteq> []" by blast
  then show ?thesis
  proof cases
    case full
    then show ?thesis using ok
      by (auto simp: usb_bulk_out_read_def fw_unfold usb_notify_bulk_out_def sched_wake_task_def sched_wake_tasks_def
          next_packet_def rx_content_def USB_CDC_EP_BULK_OUT_SIZE_def)
  next
    case none
    then show ?thesis using ok
      by (auto simp: usb_bulk_out_read_def usb_read_bulk_out_def fw_unfold next_packet_def rx_content_def USB_CDC_EP_BULK_OUT_SIZE_def)
  next
    case packet
    define p where "p = next_packet s"
    have p: "take 64 (bulk_out_packets s (bulk_out_tries s)) = p" "p \<noteq> []" "length p \<le> 64"
      "bulk_out_packets s (bulk_out_tries s) \<noteq> []"
      using packet by (auto simp: p_def next_packet_def)
    define s1 where "s1 = s\<lparr>bulk_out_tries := Suc (bulk_out_tries s),
      receive_buf := take (receive_pos s) (receive_buf s) @ p @ drop (receive_pos s + length p) (receive_buf s),
      tasks_status := TS_REQUESTED, task_wakes := (task_wakes s)(''usb_bulk_out_wake'' := 1)\<rparr>"
    have "usb_bulk_out_read (receive_pos s) s = (Inr (receive_pos s + length p), s1)"
      using packet(1) p ok by (simp add: usb_bulk_out_read_def usb_read_bulk_out_def fw_unfold usb_notify_bulk_out_def
          sched_wake_task_def sched_wake_tasks_def USB_CDC_EP_BULK_OUT_SIZE_def s1_def)
    then show ?thesis using packet(1) p(3) ok unfolding p_def [symmetric]
      by (intro exI [of _ s1]) (simp add: s1_def rx_content_def)
  qed
qed

text \<open>
  The task appends the packet, finds a block at the front and removes exactly that; it never writes
  outside the buffer, and runs again when a packet was read or bytes remain after a block.
\<close>

lemma usb_bulk_out_consumes:
  assumes "usb_rx_ok s" and "task_wakes s ''usb_bulk_out_wake'' \<noteq> 0"
    and "usb_bulk_out_read (receive_pos s) (s\<lparr>task_wakes := (task_wakes s)(''usb_bulk_out_wake'' := 0)\<rparr>) = (Inr n, s1)"
    and "command_find_and_dispatch idx (rx_content s @ next_packet s) s1 = (Inr (r, pop), s2)"
    and "receive_buf s2 = receive_buf s1" and "pop \<le> length (rx_content s @ next_packet s)"
  shows "\<exists>s'. usb_bulk_out_task idx s = (Inr (), s') \<and> usb_rx_ok s' \<and>
    rx_content s' = (if r = 0 then rx_content s @ next_packet s else drop pop (rx_content s @ next_packet s))"
proof -
  let ?s = "s\<lparr>task_wakes := (task_wakes s)(''usb_bulk_out_wake'' := 0)\<rparr>"
  have f: "receive_pos ?s = receive_pos s" "next_packet ?s = next_packet s" "rx_content ?s = rx_content s" "usb_rx_ok ?s"
    using assms(1) by (simp_all add: next_packet_def rx_content_def usb_rx_ok_def)
  have s1: "n = receive_pos s + length (next_packet s)" "length (receive_buf s1) = 128" "n \<le> 128"
    "take n (receive_buf s1) = rx_content s @ next_packet s"
    using bulk_out_read_run [OF f(4)] assms(3) unfolding f by auto
  have len: "length (rx_content s @ next_packet s) = n" using assms(1) s1(1) by (simp add: rx_content_def usb_rx_ok_def)
  have d: "command_find_and_dispatch idx (take n (receive_buf s1)) s1 = (Inr (r, pop), s2)" using assms(4) s1(4) by simp
  have run: "usb_bulk_out_task idx s = (if r \<noteq> 0 then
        thn (if n - pop \<noteq> 0 then
               thn (upd (\<lambda>s. s\<lparr>receive_buf := move_down 0 pop (n - pop) (receive_buf s)\<rparr>)) usb_notify_bulk_out
             else ret ())
        (upd (\<lambda>s. s\<lparr>receive_pos := n - pop\<rparr>)) s2
      else upd (\<lambda>s. s\<lparr>receive_pos := n\<rparr>) s2)"
    using assms(2,3) d by (simp add: usb_bulk_out_task_def sched_check_wake_def fw_unfold Let_def)
  have m: "take (n - pop) (move_down 0 pop (n - pop) (receive_buf s1)) = drop pop (rx_content s @ next_packet s)"
    "length (move_down 0 pop (n - pop) (receive_buf s1)) = 128"
    using move_down_take [of 0 pop "n - pop" "receive_buf s1"] assms(6) s1(2,3) len unfolding s1(4) [symmetric]
    by (simp_all add: drop_take)
  have e: "n - pop = 0 \<Longrightarrow> drop pop (rx_content s @ next_packet s) = []" using len by simp
  have l: "n - pop \<le> 128" using s1(3) by simp
  show ?thesis using m e l s1(2-4) assms(5) run
    by (simp add: fw_unfold usb_notify_bulk_out_def sched_wake_task_def sched_wake_tasks_def usb_rx_ok_def rx_content_def)
qed

end
