(* ===== verification/Timer_irq.thy ===== *)
theory Timer_irq
  imports Dispatch
begin

text \<open>
  Timer dispatch from the timer interrupt (\<^verbatim>\<open>src/generic/timer_irq.c\<close>): due timers are run until
  the next one is far enough away, or until the tasks have waited long enough.
\<close>

definition TIMER_IDLE_REPEAT_TICKS :: "'a sched_s_scheme \<Rightarrow> u32" where "TIMER_IDLE_REPEAT_TICKS s = timer_from_us 500 s"
definition TIMER_REPEAT_TICKS :: "'a sched_s_scheme \<Rightarrow> u32" where "TIMER_REPEAT_TICKS s = timer_from_us 100 s"
definition TIMER_MIN_TRY_TICKS :: "'a sched_s_scheme \<Rightarrow> u32" where "TIMER_MIN_TRY_TICKS s = timer_from_us 2 s"
definition TIMER_DEFER_REPEAT_TICKS :: "'a sched_s_scheme \<Rightarrow> u32" where "TIMER_DEFER_REPEAT_TICKS s = timer_from_us 5 s"

text \<open>Wait for a clock, for at most \<open>k\<close> readings; what other interrupts do meanwhile is not modelled.\<close>

fun wait_loop :: "nat \<Rightarrow> u32 \<Rightarrow> int \<Rightarrow> ('a sched_s_scheme, unit) fw" where
  "wait_loop 0 nextt diff = (if diff > 0 then stuck else ret ())"
| "wait_loop (Suc k) nextt diff =
    (if diff > 0 then bnd timer_read_time (\<lambda>t. wait_loop k nextt (sint (nextt - t))) else ret ())"

text \<open>
  What to do when the timers have run past \<open>tru\<close>: \<open>Inl\<close> leaves the interrupt until a clock, \<open>Inr\<close>
  goes on with a new limit.
\<close>

definition repeat_check :: "u32 \<Rightarrow> u32 \<Rightarrow> int \<Rightarrow> ('a sched_s_scheme, u32 + u32) fw" where
  "repeat_check tru now diff =
    (if timer_is_before tru now then
       bnd (gets (\<lambda>s. diff < sint (- timer_from_us 1000 s))) (\<lambda>late.
       thn (if late then sched_try_shutdown ''Rescheduled timer in the past'' else ret ())
       (bnd sched_tasks_busy (\<lambda>busy.
       if busy then
         thn (upd (\<lambda>s. s\<lparr>timer_repeat_until := now + TIMER_REPEAT_TICKS s\<rparr>))
         (bnd (gets (\<lambda>s. now + TIMER_DEFER_REPEAT_TICKS s)) (\<lambda>w. ret (Inl w)))
       else
         bnd (gets (\<lambda>s. now + TIMER_IDLE_REPEAT_TICKS s)) (\<lambda>tru'.
         thn (upd (\<lambda>s. s\<lparr>timer_repeat_until := tru'\<rparr>)) (ret (Inr tru'))))))
     else ret (Inr tru))"

text \<open>
  The loop of \<^verbatim>\<open>timer_dispatch_many\<close>, for at most \<open>k\<close> timers; \<open>dispatch\<close> is
  \<^verbatim>\<open>sched_timer_dispatch\<close>.
\<close>

fun dispatch_many_loop :: "nat \<Rightarrow> nat \<Rightarrow> ('a sched_s_scheme, u32) fw \<Rightarrow> u32 \<Rightarrow> ('a sched_s_scheme, u32) fw" where
  "dispatch_many_loop 0 waits dispatch tru = stuck"
| "dispatch_many_loop (Suc k) waits dispatch tru =
    bnd dispatch (\<lambda>nextt.
    bnd timer_read_time (\<lambda>now.
    bnd (gets (\<lambda>s. sint (TIMER_MIN_TRY_TICKS s))) (\<lambda>min_try.
    let diff = sint (nextt - now) in
    if diff > min_try then ret nextt
    else
      bnd (repeat_check tru now diff) (\<lambda>r. case r of
        Inl w \<Rightarrow> ret w
      | Inr tru' \<Rightarrow> thn (wait_loop waits nextt diff) (dispatch_many_loop k waits dispatch tru')))))"

definition timer_dispatch_many :: "nat \<Rightarrow> nat \<Rightarrow> (nat \<Rightarrow> nat \<Rightarrow> ('a sched_s_scheme, sf) fw) \<Rightarrow> ('a sched_s_scheme, u32) fw" where
  "timer_dispatch_many k waits func =
    bnd (gets timer_repeat_until) (dispatch_many_loop k waits (sched_timer_dispatch func))"

definition timer_task :: "('a sched_s_scheme, unit) fw" where
  "timer_task =
    bnd timer_read_time (\<lambda>now.
    upd (\<lambda>s. if timer_is_before (timer_repeat_until s) now then s\<lparr>timer_repeat_until := now\<rparr> else s))"

section \<open>No timer runs early\<close>

text \<open>The clock last read, and a dispatch that refuses to run a timer that is due after it.\<close>

definition last_clock :: "'a sched_s_scheme \<Rightarrow> u32" where
  "last_clock s = bd_clock s (bd_clock_reads s - 1)"

definition head_due :: "'a sched_s_scheme \<Rightarrow> bool" where
  "head_due s \<longleftrightarrow> sint (tm_wake s (timer_list s) - last_clock s) \<le> 0"

definition if_due :: "('a sched_s_scheme, u32) fw \<Rightarrow> ('a sched_s_scheme, u32) fw" where
  "if_due dispatch s = (if head_due s then dispatch s else stuck s)"

text \<open>
  A dispatch that keeps \<open>ok\<close> and returns the due time of the timer that is then first; reading the
  clock and setting the limit keep \<open>ok\<close>.
\<close>

definition returns_next :: "('a sched_s_scheme \<Rightarrow> bool) \<Rightarrow> ('a sched_s_scheme, u32) fw \<Rightarrow> bool" where
  "returns_next ok dispatch \<longleftrightarrow>
    (\<forall>s nextt s'. ok s \<longrightarrow> dispatch s = (Inr nextt, s') \<longrightarrow> ok s' \<and> nextt = tm_wake s' (timer_list s')) \<and>
    (\<forall>s c t. ok s \<longrightarrow> ok (s\<lparr>bd_clock_reads := c\<rparr>) \<and> ok (s\<lparr>timer_repeat_until := t\<rparr>))"

lemma insert_timer_keeps:
  "insert_timer pos t w s = (r, s') \<Longrightarrow> tm_wake s' = tm_wake s \<and> timer_list s' = timer_list s"
  by (auto simp: insert_timer_def split: option.splits prod.splits)

lemma update_eq:
  assumes "tm_next s t = Some nt"
  shows "timer_update t res s =
    (if res = SF_DONE then
       (Inr (tm_wake s nt), s\<lparr>timer_list := nt, last_insert := if last_insert s = t then nt else last_insert s\<rparr>)
     else if timer_is_before (tm_wake s t) (tm_wake s nt) then (Inr (tm_wake s t), s)
     else
       (case insert_timer (if timer_is_before (tm_wake s t) (tm_wake s (last_insert s)) then nt else last_insert s)
          t (tm_wake s t) (s\<lparr>timer_list := nt\<rparr>) of
          (Inl e, s2) \<Rightarrow> (Inl e, s2)
        | (Inr u, s2) \<Rightarrow> (Inr (tm_wake s nt), s2\<lparr>last_insert := t\<rparr>)))"
proof -
  have n: "next_of t s = (Inr nt, s)" using assms by (simp add: next_of_def bnd_def gets_def ret_def)
  show ?thesis
    by (cases "res = SF_DONE"; cases "timer_is_before (tm_wake s t) (tm_wake s nt)"; cases "last_insert s = t")
      (simp_all add: timer_update_def n bnd_def thn_def gets_def upd_def ret_def split: prod.split sum.split)
qed

lemma update_returns_next:
  assumes "timer_update t res s = (Inr nextt, s')" and "timer_list s = t"
  shows "nextt = tm_wake s' (timer_list s')"
proof (cases "tm_next s t")
  case None
  then show ?thesis using assms(1) by (simp add: timer_update_def next_of_def fw_unfold)
next
  case (Some nt)
  define p where "p = (if timer_is_before (tm_wake s t) (tm_wake s (last_insert s)) then nt else last_insert s)"
  obtain r s2 where i: "insert_timer p t (tm_wake s t) (s\<lparr>timer_list := nt\<rparr>) = (r, s2)" by fastforce
  note u = assms(1) [unfolded update_eq [OF Some]]
  show ?thesis
  proof (cases "res = SF_DONE")
    case True
    then have "s' = s\<lparr>timer_list := nt, last_insert := if last_insert s = t then nt else last_insert s\<rparr>" "nextt = tm_wake s nt"
      using u by simp_all
    then show ?thesis by simp
  next
    case no: False
    show ?thesis
    proof (cases "timer_is_before (tm_wake s t) (tm_wake s nt)")
      case True
      then have "timer_update t res s = (Inr (tm_wake s t), s)" using no by (simp add: update_eq [OF Some])
      then have "nextt = tm_wake s t" "s' = s" using assms(1) by (metis Pair_inject sum.inject(2))+
      then show ?thesis using assms(2) by simp
    next
      case False
      then have "nextt = tm_wake s nt" "s' = s2\<lparr>last_insert := t\<rparr>"
        using u no i by (cases r; simp add: p_def)+
      then show ?thesis using insert_timer_keeps [OF i] by simp
    qed
  qed
qed

lemma func_keeps_head:
  assumes "timer_func func (timer_list s) s = (Inr res, s1)"
    and "\<And>oid j res s1. timer_list s = T_obj oid j \<Longrightarrow> func oid j s = (Inr res, s1) \<Longrightarrow> timer_list s1 = timer_list s"
  shows "timer_list s1 = timer_list s"
proof (cases "timer_list s")
  case T_periodic
  then show ?thesis using assms(1)
    by (simp add: periodic_event_def sched_wake_tasks_def bnd_def thn_def gets_def upd_def ret_def) (elim conjE; hypsubst; simp)
next
  case T_sentinel
  then show ?thesis using assms(1) by (simp add: sentinel_event_def fw_unfold)
next
  case T_deleted
  then show ?thesis using assms(1) by (simp add: deleted_event_def fw_unfold)
next
  case (T_obj oid j)
  then show ?thesis using assms by simp
qed

lemma dispatch_returns_next:
  assumes "sched_timer_dispatch func s = (Inr nextt, s')"
    and "\<And>oid j res s1. timer_list s = T_obj oid j \<Longrightarrow> func oid j s = (Inr res, s1) \<Longrightarrow> timer_list s1 = timer_list s"
  shows "nextt = tm_wake s' (timer_list s')"
proof -
  obtain r s1 where f: "timer_func func (timer_list s) s = (r, s1)" by fastforce
  show ?thesis
  proof (cases r)
    case (Inl e)
    then show ?thesis using assms(1) f by (simp add: sched_timer_dispatch_def bnd_def gets_def)
  next
    case (Inr res)
    then have u: "timer_update (timer_list s) res s1 = (Inr nextt, s')"
      using assms(1) f by (simp add: sched_timer_dispatch_def bnd_def gets_def)
    have "timer_list s1 = timer_list s" by (rule func_keeps_head [OF f [unfolded Inr] assms(2)])
    then show ?thesis using update_returns_next [OF u] by simp
  qed
qed

lemma wait_loop_due:
  "wait_loop k nextt diff s = (Inr (), s') \<Longrightarrow> nextt = tm_wake s (timer_list s) \<Longrightarrow> diff = sint (nextt - last_clock s) \<Longrightarrow>
    head_due s'"
proof (induction k arbitrary: diff s)
  case 0
  then show ?case by (simp add: head_due_def fw_unfold split: if_splits)
next
  case (Suc k)
  show ?case
  proof (cases "diff > 0")
    case True
    then show ?thesis using Suc.prems Suc.IH [of "sint (nextt - bd_clock s (bd_clock_reads s))" "s\<lparr>bd_clock_reads := Suc (bd_clock_reads s)\<rparr>"]
      by (simp add: fw_unfold timer_read_time_def last_clock_def)
  next
    case False
    then show ?thesis using Suc.prems by (simp add: fw_unfold head_due_def)
  qed
qed

lemma repeat_check_keeps:
  "repeat_check tru now diff s = (r, s') \<Longrightarrow> tm_wake s' = tm_wake s \<and> timer_list s' = timer_list s \<and>
    bd_clock s' = bd_clock s \<and> bd_clock_reads s' = bd_clock_reads s"
  by (auto simp: repeat_check_def fw_unfold sched_try_shutdown_def sched_tasks_busy_def split: if_splits)

lemma repeat_check_ok:
  "repeat_check tru now diff s = (r, s') \<Longrightarrow> ok s \<Longrightarrow> returns_next ok dispatch \<Longrightarrow> ok s'"
  by (auto simp: repeat_check_def fw_unfold sched_try_shutdown_def sched_tasks_busy_def returns_next_def split: if_splits)

lemma wait_loop_ok: "wait_loop k nextt diff s = (r, s') \<Longrightarrow> ok s \<Longrightarrow> returns_next ok dispatch \<Longrightarrow> ok s'"
proof (induction k arbitrary: diff s)
  case (Suc k)
  then show ?case
    by (cases "diff > 0") (auto simp: fw_unfold timer_read_time_def returns_next_def)
qed (auto simp: fw_unfold split: if_splits)

lemma loop_never_early:
  assumes "returns_next ok dispatch"
  shows "ok s \<Longrightarrow> head_due s \<Longrightarrow>
    dispatch_many_loop k waits dispatch tru s = dispatch_many_loop k waits (if_due dispatch) tru s"
proof (induction k arbitrary: tru s)
  case (Suc k)
  obtain d s1 where d: "dispatch s = (d, s1)" by fastforce
  have g: "if_due dispatch s = (d, s1)" using Suc.prems d by (simp add: if_due_def)
  show ?case
  proof (cases d)
    case (Inl e)
    then show ?thesis using d g by (simp add: bnd_def)
  next
    case (Inr nextt)
    define s2 where "s2 = s1\<lparr>bd_clock_reads := Suc (bd_clock_reads s1)\<rparr>"
    define now where "now = bd_clock s1 (bd_clock_reads s1)"
    have n: "nextt = tm_wake s2 (timer_list s2)" "now = last_clock s2" "ok s2"
      using assms d Inr Suc.prems(1) by (simp_all add: returns_next_def s2_def last_clock_def now_def)
    have rest: "(thn (wait_loop waits nextt (sint (nextt - now))) (dispatch_many_loop k waits dispatch tru')) s3 =
        (thn (wait_loop waits nextt (sint (nextt - now))) (dispatch_many_loop k waits (if_due dispatch) tru')) s3"
      if "repeat_check tru now (sint (nextt - now)) s2 = (Inr (Inr tru'), s3)" for tru' s3
    proof -
      have s3: "nextt = tm_wake s3 (timer_list s3)" "now = last_clock s3"
        using repeat_check_keeps [OF that] n by (simp_all add: last_clock_def)
      have ok3: "ok s3" by (rule repeat_check_ok [OF that n(3) assms])
      obtain w s4 where w: "wait_loop waits nextt (sint (nextt - now)) s3 = (w, s4)" by fastforce
      show ?thesis
      proof (cases w)
        case (Inr u)
        then have "head_due s4" using wait_loop_due [of waits nextt "sint (nextt - now)" s3 s4] w s3 by simp
        moreover have "ok s4" by (rule wait_loop_ok [OF w ok3 assms])
        ultimately show ?thesis using w Inr Suc.IH by (simp add: thn_def bnd_def)
      qed (use w in \<open>simp add: thn_def bnd_def\<close>)
    qed
    show ?thesis
      using d g Inr rest
      by (auto simp: bnd_def gets_def timer_read_time_def s2_def [symmetric] now_def [symmetric] Let_def ret_def
          split: prod.splits sum.splits)
  qed
qed simp

text \<open>
  C31: no timer runs early.  Started when the first timer is due, the loop of the timer interrupt is
  equivalent to one that, before it dispatches any further timer, checks that a clock was read at
  or after the time that timer is due; the check never fails.  The callbacks may do anything
  that keeps the states \<open>ok\<close> and their own timer at the head of the list.
\<close>

theorem timers_never_early:
  assumes "\<And>s nextt s'. ok s \<Longrightarrow> sched_timer_dispatch func s = (Inr nextt, s') \<Longrightarrow> ok s'"
    and "\<And>s oid j res s'. ok s \<Longrightarrow> timer_list s = T_obj oid j \<Longrightarrow> func oid j s = (Inr res, s') \<Longrightarrow> timer_list s' = timer_list s"
    and "\<And>s c t. ok s \<Longrightarrow> ok (s\<lparr>bd_clock_reads := c\<rparr>) \<and> ok (s\<lparr>timer_repeat_until := t\<rparr>)"
    and "ok s" and "head_due s"
  shows "timer_dispatch_many k waits func s =
    dispatch_many_loop k waits (if_due (sched_timer_dispatch func)) (timer_repeat_until s) s"
proof -
  have "returns_next ok (sched_timer_dispatch func)"
    using assms(1,3) dispatch_returns_next assms(2) unfolding returns_next_def by blast
  then have "dispatch_many_loop k waits (sched_timer_dispatch func) (timer_repeat_until s) s =
      dispatch_many_loop k waits (if_due (sched_timer_dispatch func)) (timer_repeat_until s) s"
    using assms(4,5) by (rule loop_never_early)
  then show ?thesis by (simp add: timer_dispatch_many_def bnd_def gets_def)
qed

text \<open>A timer every 1600 ticks on a clock that advances by 100 with each reading.\<close>

definition every_1600 :: "nat \<Rightarrow> nat \<Rightarrow> (sched_s, sf) fw" where
  "every_1600 oid j = thn (upd (\<lambda>s. set_wake (T_obj oid j) (tm_wake s (T_obj oid j) + 1600) s)) (ret SF_RESCHEDULE)"

theorem timers_never_early_witness:
  "timer_dispatch_many 2 10 every_1600 (sched_init idle_command_s) =
    dispatch_many_loop 2 10 (if_due (sched_timer_dispatch every_1600)) 0 (sched_init idle_command_s)"
proof -
  have "head_due (sched_init idle_command_s)" "timer_repeat_until (sched_init idle_command_s) = 0"
    by (simp_all add: head_due_def last_clock_def idle_defs)
  then show ?thesis
    using timers_never_early [of "\<lambda>_. True" every_1600 "sched_init idle_command_s" 2 10]
    by (simp add: every_1600_def fw_unfold)
qed

end
