(* ===== verification/Bus.thy ===== *)
theory Bus
  imports Dispatch
begin

text \<open>
  Pins that are driven as a bus.  The accesses to them are recorded in order, reads with the level
  that was read, so that the waveform a device sees can be stated; the record has no
  influence on what the code does.
\<close>

datatype wire = Write u32 bool | Read u32 u8

record bus_s = basecmd_s +
  bus_log :: "wire list"

definition bus_write :: "u32 \<Rightarrow> bool \<Rightarrow> ('a bus_s_scheme, unit) fw" where
  "bus_write pin val =
    thn (gpio_out_write pin val) (upd (\<lambda>s. s\<lparr>bus_log := bus_log s @ [Write pin val]\<rparr>))"

definition bus_toggle :: "u32 \<Rightarrow> ('a bus_s_scheme, unit) fw" where
  "bus_toggle pin = bnd (gets (\<lambda>s. bd_outputs s pin)) (\<lambda>val. bus_write pin (\<not> val))"

definition bus_read :: "u32 \<Rightarrow> ('a bus_s_scheme, u8) fw" where
  "bus_read pin =
    bnd (gpio_in_read pin) (\<lambda>v. thn (upd (\<lambda>s. s\<lparr>bus_log := bus_log s @ [Read pin v]\<rparr>)) (ret v))"

lemma bus_write_run [fw_simps]:
  "bus_write pin val s = (Inr (), s\<lparr>bd_outputs := (bd_outputs s)(pin := val), bus_log := bus_log s @ [Write pin val]\<rparr>)"
  by (simp add: bus_write_def gpio_out_write_def fw_unfold)

lemma bus_toggle_run [fw_simps]:
  "bus_toggle pin s =
    (Inr (), s\<lparr>bd_outputs := (bd_outputs s)(pin := \<not> bd_outputs s pin), bus_log := bus_log s @ [Write pin (\<not> bd_outputs s pin)]\<rparr>)"
  by (simp add: bus_toggle_def bus_write_run fw_unfold)

lemma bus_read_run [fw_simps]:
  "bus_read pin s =
    (Inr (bd_inputs s pin (bd_input_reads s)),
     s\<lparr>bd_input_reads := Suc (bd_input_reads s), bus_log := bus_log s @ [Read pin (bd_inputs s pin (bd_input_reads s))]\<rparr>)"
  by (simp add: bus_read_def gpio_in_read_run fw_unfold)

text \<open>A buffer argument of a command; \<open>buf\<close> is the received block, into which it points.\<close>

definition command_decode_ptr :: "u8 list \<Rightarrow> u32 \<Rightarrow> nat \<Rightarrow> ('s, u8 list) fw" where
  "command_decode_ptr buf ptr n = (if unat ptr + n > length buf then stuck else ret (take n (drop (unat ptr) buf)))"

text \<open>The bits of a list of bytes, the highest bit of each byte first.\<close>

definition byte_bits :: "u8 \<Rightarrow> bool list" where
  "byte_bits b = map (\<lambda>j. bit b (7 - j)) [0..<8]"

definition bits_of :: "u8 list \<Rightarrow> bool list" where
  "bits_of bs = concat (map byte_bits bs)"

lemma bits_of_simps [simp]: "bits_of [] = []" "bits_of (b # bs) = byte_bits b @ bits_of bs"
  by (simp_all add: bits_of_def)

lemma length_byte_bits [simp]: "length (byte_bits b) = 8"
  by (simp add: byte_bits_def)

lemma length_bits_of [simp]: "length (bits_of bs) = 8 * length bs"
  by (induction bs) simp_all

lemma byte_bits_simps:
  "byte_bits b = [bit b 7, bit b 6, bit b 5, bit b 4, bit b 3, bit b 2, bit b 1, bit b 0]"
  by (simp add: byte_bits_def upt_rec)

text \<open>Shifting bits into a byte from the right; the first one ends up highest.\<close>

definition shift_in :: "u8 \<Rightarrow> bool \<Rightarrow> u8" where
  "shift_in acc b = push_bit 1 acc OR of_bool b"

lemma bit_shift_in: "bit (shift_in acc b) j \<longleftrightarrow> j < 8 \<and> (if j = 0 then b else bit acc (j - 1))"
  unfolding shift_in_def bit_or_iff by (cases "j < 8")
    (auto simp: bit_push_bit_iff bit_of_bool_iff possible_bit_word dest: bit_imp_possible_bit
      simp del: push_bit_of_1 push_bit_Suc)

lemma shift_bits: "length bs = 8 \<Longrightarrow> byte_bits (foldl shift_in acc bs) = bs"
proof -
  assume "length bs = 8"
  then obtain a b c d e f g h where "bs = [a, b, c, d, e, f, g, h]"
    by (auto simp: length_Suc_conv numeral_eq_Suc)
  then show ?thesis by (simp add: byte_bits_simps bit_shift_in)
qed

lemma byte_bits_inject: "byte_bits x = byte_bits y \<longleftrightarrow> x = y"
proof
  assume eq: "byte_bits x = byte_bits y"
  show "x = y"
  proof (rule bit_eqI)
    fix n :: nat assume "possible_bit TYPE(8 word) n"
    then have "n < 8" by (simp add: possible_bit_word)
    then show "bit x n = bit y n" using eq by (auto simp: byte_bits_simps numeral_eq_Suc less_Suc_eq)
  qed
qed simp

text \<open>The bits that a loop sends, which takes the highest one and shifts to the left.\<close>

fun top_bits :: "nat \<Rightarrow> u8 \<Rightarrow> bool list" where
  "top_bits 0 b = []"
| "top_bits (Suc n) b = (b AND 0x80 \<noteq> 0) # top_bits n (push_bit 1 b)"

lemma top_bits_map: "n \<le> 8 \<Longrightarrow> top_bits n b = map (\<lambda>j. bit b (7 - j)) [0..<n]"
proof (induction n arbitrary: b)
  case (Suc n)
  have "bit (push_bit 1 b) (7 - j) = bit b (7 - Suc j)" if "j < n" for j
  proof -
    have "1 \<le> 7 - j" "7 - j < 8" using that Suc.prems by linarith+
    then show ?thesis by (simp add: bit_push_bit_iff possible_bit_word del: push_bit_of_1 push_bit_Suc)
  qed
  then have "map (\<lambda>j. bit (push_bit 1 b) (7 - j)) [0..<n] = map (\<lambda>j. bit b (7 - j)) (map Suc [0..<n])"
    by (simp add: o_def)
  then show ?case using Suc.IH [of "push_bit 1 b"] Suc.prems
    by (simp add: and_hi_bit upt_conv_Cons map_Suc_upt del: upt_Suc push_bit_Suc push_bit_of_1)
qed simp

lemma length_top_bits [simp]: "length (top_bits n b) = n"
  by (induction n arbitrary: b) simp_all

lemma top_bits_8: "top_bits 8 b = byte_bits b"
  by (simp only: top_bits_map byte_bits_def order.refl)

text \<open>A loop that shifts in what it reads.\<close>

lemma fold_in_shift:
  "\<forall>v\<in>set ins. v \<le> 1 \<Longrightarrow> foldl (\<lambda>a v. push_bit 1 a OR v) b ins = foldl shift_in b (map (\<lambda>v. v = 1) ins)"
proof (induction ins arbitrary: b)
  case (Cons v ins)
  have "v = of_bool (v = 1)" using Cons.prems by (auto simp: word_le_nat_alt le_Suc_eq word_unat_eq_iff)
  then have "push_bit 1 b OR v = shift_in b (v = 1)" unfolding shift_in_def by presburger
  then show ?case using Cons by simp
qed simp

section \<open>Devices on the bus\<close>

fun levels :: "(u32 \<Rightarrow> bool) \<Rightarrow> wire list \<Rightarrow> u32 \<Rightarrow> bool" where
  "levels lv [] = lv"
| "levels lv (Write pin v # w) = levels (lv(pin := v)) w"
| "levels lv (Read pin v # w) = levels lv w"

text \<open>
  A device is what it makes of a waveform, given the levels before it.  From \<open>s\<close> to \<open>s'\<close> the device
  sees \<open>evs\<close>.
\<close>

definition seen :: "((u32 \<Rightarrow> bool) \<Rightarrow> wire list \<Rightarrow> 'e list) \<Rightarrow> 'a bus_s_scheme \<Rightarrow> 'e list \<Rightarrow> 'a bus_s_scheme \<Rightarrow> bool" where
  "seen dev s evs s' \<longleftrightarrow> bd_inputs s' = bd_inputs s \<and>
    (\<exists>w. bus_log s' = bus_log s @ w \<and> bd_outputs s' = levels (bd_outputs s) w \<and> dev (bd_outputs s) w = evs)"

lemma levels_append: "levels lv (w1 @ w2) = levels (levels lv w1) w2"
proof (induction w1 arbitrary: lv)
  case (Cons x w1)
  then show ?case by (cases x) (simp_all del: fun_upd_apply)
qed simp

locale bus_device =
  fixes dev :: "(u32 \<Rightarrow> bool) \<Rightarrow> wire list \<Rightarrow> 'e list"
  assumes dev_nothing: "dev lv [] = []"
    and dev_append: "dev lv (w1 @ w2) = dev lv w1 @ dev (levels lv w1) w2"
begin

lemma seen_wave:
  "bd_inputs s' = bd_inputs s \<Longrightarrow> bus_log s' = bus_log s @ w \<Longrightarrow> bd_outputs s' = levels (bd_outputs s) w \<Longrightarrow>
    seen dev s (dev (bd_outputs s) w) s'"
  unfolding seen_def by blast

lemma seen_trans: "seen dev s e1 s1 \<Longrightarrow> seen dev s1 e2 s2 \<Longrightarrow> seen dev s (e1 @ e2) s2"
  unfolding seen_def
proof (elim exE conjE, goal_cases)
  case (1 w1 w2)
  then show ?case by (intro conjI exI [of _ "w1 @ w2"]) (simp_all add: dev_append levels_append)
qed

lemma seen_refl: "seen dev s [] s"
  using seen_wave [of s s "[]"] by (simp add: dev_nothing)

lemma seen_write:
  "seen dev s (dev (bd_outputs s) [Write pin v])
    (s\<lparr>bd_outputs := (bd_outputs s)(pin := v), bus_log := bus_log s @ [Write pin v]\<rparr>)"
  by (rule seen_wave) simp_all

end

section \<open>Code that only uses the bus\<close>

text \<open>
  The state after the accesses \<open>w\<close> and some readings of the clock; \<open>emits m s r w\<close> says that \<open>m\<close> does just
  that and ends with \<open>r\<close>.
\<close>

fun reads_in :: "wire list \<Rightarrow> nat" where
  "reads_in [] = 0"
| "reads_in (Write pin v # w) = reads_in w"
| "reads_in (Read pin v # w) = Suc (reads_in w)"

definition after_wave :: "'a bus_s_scheme \<Rightarrow> wire list \<Rightarrow> nat \<Rightarrow> 'a bus_s_scheme" where
  "after_wave s w c = s\<lparr>bd_outputs := levels (bd_outputs s) w, bd_clock_reads := c,
    bus_log := bus_log s @ w, bd_input_reads := bd_input_reads s + reads_in w\<rparr>"

definition emits :: "('a bus_s_scheme, 'r) fw \<Rightarrow> 'a bus_s_scheme \<Rightarrow> stop + 'r \<Rightarrow> wire list \<Rightarrow> bool" where
  "emits m s r w \<longleftrightarrow> (\<exists>c. m s = (r, after_wave s w c))"

lemma reads_in_append [simp]: "reads_in (v @ w) = reads_in v + reads_in w"
proof (induction v)
  case (Cons x v)
  then show ?case by (cases x) simp_all
qed simp

lemma after_wave_fields [simp]:
  "bd_outputs (after_wave s w c) = levels (bd_outputs s) w"
  "bd_inputs (after_wave s w c) = bd_inputs s"
  "bd_clock (after_wave s w c) = bd_clock s"
  "bd_freq (after_wave s w c) = bd_freq s"
  "bd_input_reads (after_wave s w c) = bd_input_reads s + reads_in w"
  "bus_log (after_wave s w c) = bus_log s @ w"
  by (simp_all add: after_wave_def)

lemma after_wave_trans: "after_wave (after_wave s v c) w d = after_wave s (v @ w) d"
  by (simp add: after_wave_def levels_append)

lemma emits_bnd:
  "emits m s (Inr x) v \<Longrightarrow> (\<And>c. emits (f x) (after_wave s v c) r w) \<Longrightarrow> emits (bnd m f) s r (v @ w)"
  unfolding emits_def by (elim exE) (metis after_wave_trans bnd_Inr)

lemma emits_thn:
  "emits m s (Inr ()) v \<Longrightarrow> (\<And>c. emits n (after_wave s v c) r w) \<Longrightarrow> emits (thn m n) s r (v @ w)"
  unfolding thn_def by (rule emits_bnd)

lemma emits_fail: "emits m s (Inl e) v \<Longrightarrow> emits (bnd m f) s (Inl e) v" "emits m s (Inl e) v \<Longrightarrow> emits (thn m n) s (Inl e) v"
  unfolding emits_def thn_def by (elim exE; metis bnd_Inl)+

lemma emits_ret: "emits (ret x) s (Inr x) []"
  unfolding emits_def after_wave_def by (intro exI [of _ "bd_clock_reads s"]) (simp add: ret_run)

lemma emits_shutdown_if:
  "emits (shutdown_if b msg) s (if b then Inl (Shut msg) else Inr ()) []"
  unfolding emits_def after_wave_def by (intro exI [of _ "bd_clock_reads s"]) (simp add: shutdown_if_run)

lemma emits_write: "emits (bus_write pin v) s (Inr ()) [Write pin v]"
  unfolding emits_def after_wave_def by (intro exI [of _ "bd_clock_reads s"]) (simp add: bus_write_run)

lemma emits_read:
  "v = bd_inputs s pin (bd_input_reads s) \<Longrightarrow> emits (bus_read pin) s (Inr v) [Read pin v]"
  unfolding emits_def after_wave_def by (intro exI [of _ "bd_clock_reads s"]) (simp add: bus_read_run)

context bus_device
begin

lemma seen_emits: "emits m s r w \<Longrightarrow> dev (bd_outputs s) w = evs \<Longrightarrow>
    \<exists>s'. m s = (r, s') \<and> seen dev s evs s' \<and> bd_outputs s' = levels (bd_outputs s) w"
  unfolding emits_def using seen_wave [of "after_wave s w _" s w] by (elim exE) auto

end

end
