(* ===== verification/Spi.thy ===== *)
theory Spi
  imports Bus
begin

text \<open>
  SPI devices (\<^verbatim>\<open>src/spicmds.c\<close>) and the SPI bus on plain pins (\<^verbatim>\<open>src/spi_software.c\<close>), with
  \<^verbatim>\<open>CONFIG_WANT_SOFTWARE_SPI\<close>.  The bus of the micro-controller itself (\<^verbatim>\<open>spi_setup\<close>,
  \<^verbatim>\<open>spi_prepare\<close>, \<^verbatim>\<open>spi_transfer\<close> of the board) is a parameter.
\<close>

section \<open>State\<close>

record spi_software =
  ss_miso :: u32
  ss_mosi :: u32
  ss_sclk :: u32
  ss_mode :: u8

text \<open>The union of \<^verbatim>\<open>struct spidev_s\<close>.\<close>

datatype spi_bus = Bus_unset | Bus_hardware u32 | Bus_software spi_software

record spidev =
  sd_bus :: spi_bus
  sd_pin :: u32
  sd_flags :: u8

definition zero_spidev :: spidev where
  "zero_spidev = \<lparr>sd_bus = Bus_unset, sd_pin = 0, sd_flags = 0\<rparr>"

record spidev_shutdown_s =
  ssd_spi :: nat
  ssd_msg :: "u8 list"

record spi_s = bus_s +
  spidevs :: "nat \<Rightarrow> spidev"
  spi_shutdowns :: "nat \<Rightarrow> spidev_shutdown_s"

definition SF_HAVE_PIN :: u8 where "SF_HAVE_PIN = 1"
definition SF_SOFTWARE :: u8 where "SF_SOFTWARE = 2"
definition SF_HARDWARE :: u8 where "SF_HARDWARE = 4"
definition SF_CS_ACTIVE_HIGH :: u8 where "SF_CS_ACTIVE_HIGH = 8"

lemmas spi_flag_consts = SF_HAVE_PIN_def SF_SOFTWARE_def SF_HARDWARE_def SF_CS_ACTIVE_HIGH_def

record 's spi_hw =
  hw_setup :: "u32 \<Rightarrow> u8 \<Rightarrow> u32 \<Rightarrow> ('s, u32) fw"
  hw_prepare :: "u32 \<Rightarrow> ('s, unit) fw"
  hw_transfer :: "u32 \<Rightarrow> bool \<Rightarrow> u8 list \<Rightarrow> ('s, u8 list) fw"

abbreviation spidev_upd :: "nat \<Rightarrow> (spidev \<Rightarrow> spidev) \<Rightarrow> ('a spi_s_scheme, unit) fw" where
  "spidev_upd i f \<equiv> upd (\<lambda>s. s\<lparr>spidevs := (spidevs s)(i := f (spidevs s i))\<rparr>)"

section \<open>The bus on plain pins\<close>

definition spi_software_prepare :: "spi_software \<Rightarrow> ('a bus_s_scheme, unit) fw" where
  "spi_software_prepare ss = bus_write (ss_sclk ss) (ss_mode ss AND 0x02 \<noteq> 0)"

text \<open>The loop over the bits of a byte; \<open>n\<close> bits are left.\<close>

fun bit_loop :: "nat \<Rightarrow> spi_software \<Rightarrow> u8 \<Rightarrow> u8 \<Rightarrow> ('a bus_s_scheme, u8) fw" where
  "bit_loop 0 ss outbuf inbuf = ret inbuf"
| "bit_loop (Suc n) ss outbuf inbuf =
    (if ss_mode ss AND 0x01 \<noteq> 0 then
       thn (bus_toggle (ss_sclk ss))
       (thn (bus_write (ss_mosi ss) (outbuf AND 0x80 \<noteq> 0))
       (thn (bus_toggle (ss_sclk ss))
       (bnd (bus_read (ss_miso ss)) (\<lambda>v.
       bit_loop n ss (push_bit 1 outbuf) (push_bit 1 inbuf OR v)))))
     else
       thn (bus_write (ss_mosi ss) (outbuf AND 0x80 \<noteq> 0))
       (thn (bus_toggle (ss_sclk ss))
       (bnd (bus_read (ss_miso ss)) (\<lambda>v.
       thn (bus_toggle (ss_sclk ss))
       (bit_loop n ss (push_bit 1 outbuf) (push_bit 1 inbuf OR v))))))"

text \<open>The transfer returns the bytes that are in the buffer afterwards.\<close>

fun spi_software_transfer :: "spi_software \<Rightarrow> bool \<Rightarrow> u8 list \<Rightarrow> ('a bus_s_scheme, u8 list) fw" where
  "spi_software_transfer ss receive_data [] = ret []"
| "spi_software_transfer ss receive_data (x # data) =
    bnd (bit_loop 8 ss x 0) (\<lambda>inbuf.
    bnd (spi_software_transfer ss receive_data data) (\<lambda>rest.
    ret ((if receive_data then inbuf else x) # rest)))"

section \<open>Devices\<close>

definition command_config_spi :: "nat \<Rightarrow> u32 list \<Rightarrow> ('a spi_s_scheme, unit) fw" where
  "command_config_spi sizeof_spi args = (case args of
      [oid, a_pin, a_cs_active_high] \<Rightarrow>
        bnd (oid_alloc (ucast oid) ''spi'' sizeof_spi) (\<lambda>i.
        thn (spidev_upd i (\<lambda>_. zero_spidev))
        (let cs_active_high = (ucast a_cs_active_high :: u8) in
         bnd (gpio_out_setup a_pin (cs_active_high = 0)) (\<lambda>pin.
         spidev_upd i (\<lambda>d. d\<lparr>sd_pin := pin,
           sd_flags := sd_flags d OR (SF_HAVE_PIN OR (if cs_active_high \<noteq> 0 then SF_CS_ACTIVE_HIGH else 0))\<rparr>))))
    | _ \<Rightarrow> stuck)"

definition command_config_spi_without_cs :: "nat \<Rightarrow> u32 list \<Rightarrow> ('a spi_s_scheme, unit) fw" where
  "command_config_spi_without_cs sizeof_spi args = (case args of
      [oid] \<Rightarrow> bnd (oid_alloc (ucast oid) ''spi'' sizeof_spi) (\<lambda>i. spidev_upd i (\<lambda>_. zero_spidev))
    | _ \<Rightarrow> stuck)"

definition spidev_oid_lookup :: "u8 \<Rightarrow> ('a spi_s_scheme, nat) fw" where
  "spidev_oid_lookup oid = oid_lookup oid ''spi''"

definition command_spi_set_bus :: "'a spi_s_scheme spi_hw \<Rightarrow> u32 list \<Rightarrow> ('a spi_s_scheme, unit) fw" where
  "command_spi_set_bus hw args = (case args of
      [oid, bus, a_mode, rate] \<Rightarrow>
        bnd (spidev_oid_lookup (ucast oid)) (\<lambda>i.
        let mode = (ucast a_mode :: u8) in
        bnd (gets (\<lambda>s. sd_flags (spidevs s i))) (\<lambda>flags.
        thn (shutdown_if (mode > 3 \<or> flags AND (SF_SOFTWARE OR SF_HARDWARE) \<noteq> 0) ''Invalid spi config'')
        (bnd (hw_setup hw bus mode rate) (\<lambda>cfg.
        spidev_upd i (\<lambda>d. d\<lparr>sd_bus := Bus_hardware cfg, sd_flags := sd_flags d OR SF_HARDWARE\<rparr>)))))
    | _ \<Rightarrow> stuck)"

definition spidev_set_software_bus :: "nat \<Rightarrow> spi_software \<Rightarrow> ('a spi_s_scheme, unit) fw" where
  "spidev_set_software_bus i ss =
    bnd (gets (\<lambda>s. sd_flags (spidevs s i))) (\<lambda>flags.
    thn (shutdown_if (flags AND (SF_SOFTWARE OR SF_HARDWARE) \<noteq> 0) ''Invalid spi config'')
    (spidev_upd i (\<lambda>d. d\<lparr>sd_bus := Bus_software ss, sd_flags := sd_flags d OR SF_SOFTWARE\<rparr>)))"

definition command_spi_set_software_bus :: "nat \<Rightarrow> u32 list \<Rightarrow> ('a spi_s_scheme, unit) fw" where
  "command_spi_set_software_bus sizeof_ss args = (case args of
      [oid, miso_pin, mosi_pin, sclk_pin, a_mode, rate] \<Rightarrow>
        let mode = (ucast a_mode :: u8) in
        thn (shutdown_if (mode > 3) ''Invalid spi config'')
        (bnd (spidev_oid_lookup (ucast oid)) (\<lambda>i.
        bnd (alloc_chunk sizeof_ss) (\<lambda>_.
        bnd (gpio_in_setup miso_pin 1) (\<lambda>miso.
        bnd (gpio_out_setup mosi_pin False) (\<lambda>mosi.
        bnd (gpio_out_setup sclk_pin False) (\<lambda>sclk.
        spidev_set_software_bus i \<lparr>ss_miso = miso, ss_mosi = mosi, ss_sclk = sclk, ss_mode = mode\<rparr>))))))
    | _ \<Rightarrow> stuck)"

definition spidev_have_cs_pin :: "nat \<Rightarrow> ('a spi_s_scheme, bool) fw" where
  "spidev_have_cs_pin i = gets (\<lambda>s. sd_flags (spidevs s i) AND SF_HAVE_PIN \<noteq> 0)"

definition spidev_get_cs_pin :: "nat \<Rightarrow> ('a spi_s_scheme, u32) fw" where
  "spidev_get_cs_pin i = gets (\<lambda>s. sd_pin (spidevs s i))"

definition spidev_transfer ::
    "'a spi_s_scheme spi_hw \<Rightarrow> nat \<Rightarrow> bool \<Rightarrow> u8 list \<Rightarrow> ('a spi_s_scheme, u8 list) fw" where
  "spidev_transfer hw i receive_data data =
    bnd (gets (\<lambda>s. spidevs s i)) (\<lambda>d.
    let flags = sd_flags d in
    if flags AND (SF_SOFTWARE OR SF_HARDWARE) = 0 then ret data
    else
      thn (if flags AND SF_SOFTWARE \<noteq> 0
           then (case sd_bus d of Bus_software ss \<Rightarrow> spi_software_prepare ss | _ \<Rightarrow> stuck)
           else (case sd_bus d of Bus_hardware cfg \<Rightarrow> hw_prepare hw cfg | _ \<Rightarrow> stuck))
      (thn (if flags AND SF_HAVE_PIN \<noteq> 0 then bus_write (sd_pin d) (flags AND SF_CS_ACTIVE_HIGH \<noteq> 0) else ret ())
      (bnd (if flags AND SF_SOFTWARE \<noteq> 0
            then (case sd_bus d of Bus_software ss \<Rightarrow> spi_software_transfer ss receive_data data | _ \<Rightarrow> stuck)
            else (case sd_bus d of Bus_hardware cfg \<Rightarrow> hw_transfer hw cfg receive_data data | _ \<Rightarrow> stuck)) (\<lambda>res.
      thn (if flags AND SF_HAVE_PIN \<noteq> 0 then bus_write (sd_pin d) (flags AND SF_CS_ACTIVE_HIGH = 0) else ret ())
      (ret res)))))"

definition command_spi_transfer :: "'a spi_s_scheme spi_hw \<Rightarrow> u8 list \<Rightarrow> u32 list \<Rightarrow> ('a spi_s_scheme, unit) fw" where
  "command_spi_transfer hw buf args = (case args of
      [a_oid, a_len, ptr] \<Rightarrow>
        let oid = (ucast a_oid :: u8); data_len = (ucast a_len :: u8) in
        bnd (spidev_oid_lookup oid) (\<lambda>i.
        bnd (command_decode_ptr buf ptr (unat data_len)) (\<lambda>data.
        bnd (spidev_transfer hw i True data) (\<lambda>res.
        sendf ''spi_transfer_response oid=%c response=%*s'' [A_int (ucast oid), A_bytes res])))
    | _ \<Rightarrow> stuck)"

definition command_spi_send :: "'a spi_s_scheme spi_hw \<Rightarrow> u8 list \<Rightarrow> u32 list \<Rightarrow> ('a spi_s_scheme, unit) fw" where
  "command_spi_send hw buf args = (case args of
      [oid, a_len, ptr] \<Rightarrow>
        bnd (spidev_oid_lookup (ucast oid)) (\<lambda>i.
        bnd (command_decode_ptr buf ptr (unat (ucast a_len :: u8))) (\<lambda>data.
        bnd (spidev_transfer hw i False data) (\<lambda>_. ret ())))
    | _ \<Rightarrow> stuck)"

section \<open>Shutdown\<close>

definition command_config_spi_shutdown :: "nat \<Rightarrow> u8 list \<Rightarrow> u32 list \<Rightarrow> ('a spi_s_scheme, unit) fw" where
  "command_config_spi_shutdown sizeof_sd buf args = (case args of
      [oid, spi_oid, a_len, ptr] \<Rightarrow>
        bnd (spidev_oid_lookup (ucast spi_oid)) (\<lambda>spi.
        let shutdown_msg_len = unat (ucast a_len :: u8) in
        bnd (oid_alloc (ucast oid) ''spi_shutdown'' (sizeof_sd + shutdown_msg_len)) (\<lambda>i.
        bnd (command_decode_ptr buf ptr shutdown_msg_len) (\<lambda>msg.
        upd (\<lambda>s. s\<lparr>spi_shutdowns := (spi_shutdowns s)(i := \<lparr>ssd_spi = spi, ssd_msg = msg\<rparr>)\<rparr>))))
    | _ \<Rightarrow> stuck)"

definition spidev_shutdown :: "'a spi_s_scheme spi_hw \<Rightarrow> ('a spi_s_scheme, unit) fw" where
  "spidev_shutdown hw =
    thn (foreach_oid ''spi'' (\<lambda>i.
      bnd (gets (\<lambda>s. spidevs s i)) (\<lambda>d.
      if sd_flags d AND SF_HAVE_PIN \<noteq> 0 then bus_write (sd_pin d) (sd_flags d AND SF_CS_ACTIVE_HIGH = 0) else ret ())))
    (foreach_oid ''spi_shutdown'' (\<lambda>i.
      bnd (gets (\<lambda>s. spi_shutdowns s i)) (\<lambda>sd.
      bnd (spidev_transfer hw (ssd_spi sd) False (ssd_msg sd)) (\<lambda>_. ret ()))))"

section \<open>The waveform\<close>

text \<open>
  An SPI device, as its data sheet has it.  In mode \<open>(CPOL, CPHA)\<close> the clock rests at level \<open>CPOL\<close>.
  A selected device takes the level of the data line at the edge away from rest when \<open>CPHA\<close> is 0
  and at the edge back to it when \<open>CPHA\<close> is 1, and at the other edge puts out its next bit.  \<open>Taken\<close>
  is the micro-controller reading the device's bit.
\<close>

datatype spi_event = Sampled bool | Shifted | Taken u8

definition cpol :: "spi_software \<Rightarrow> bool" where "cpol ss \<longleftrightarrow> ss_mode ss AND 0x02 \<noteq> 0"
definition cpha :: "spi_software \<Rightarrow> bool" where "cpha ss \<longleftrightarrow> ss_mode ss AND 0x01 \<noteq> 0"

fun selected :: "(u32 \<times> bool) option \<Rightarrow> (u32 \<Rightarrow> bool) \<Rightarrow> bool" where
  "selected None lv = True"
| "selected (Some (pin, active)) lv = (lv pin = active)"

fun spi_device :: "spi_software \<Rightarrow> (u32 \<times> bool) option \<Rightarrow> (u32 \<Rightarrow> bool) \<Rightarrow> wire list \<Rightarrow> spi_event list" where
  "spi_device ss cs lv [] = []"
| "spi_device ss cs lv (Write pin v # w) =
    (if selected cs lv \<and> pin = ss_sclk ss \<and> v \<noteq> lv pin
     then (if (v \<noteq> cpol ss) \<noteq> cpha ss then Sampled (lv (ss_mosi ss)) else Shifted) # spi_device ss cs (lv(pin := v)) w
     else spi_device ss cs (lv(pin := v)) w)"
| "spi_device ss cs lv (Read pin v # w) =
    (if selected cs lv \<and> pin = ss_miso ss then Taken v # spi_device ss cs lv w else spi_device ss cs lv w)"

interpretation spi: bus_device "spi_device ss cs" for ss cs
proof
  show "spi_device ss cs lv (w1 @ w2) = spi_device ss cs lv w1 @ spi_device ss cs (levels lv w1) w2" for lv w1 w2
  proof (induction w1 arbitrary: lv)
    case (Cons x w1)
    then show ?case by (cases x) (simp_all del: fun_upd_apply)
  qed simp
qed simp

definition bit_events :: "spi_software \<Rightarrow> bool \<Rightarrow> u8 \<Rightarrow> spi_event list" where
  "bit_events ss out inp = (if cpha ss then [Shifted, Sampled out, Taken inp] else [Sampled out, Taken inp, Shifted])"

definition spi_events :: "spi_software \<Rightarrow> bool list \<Rightarrow> u8 list \<Rightarrow> spi_event list" where
  "spi_events ss outs ins = concat (map2 (bit_events ss) outs ins)"

text \<open>Distinct pins; a clock at rest and a device that is selected.\<close>

definition spi_pins_ok :: "spi_software \<Rightarrow> (u32 \<times> bool) option \<Rightarrow> bool" where
  "spi_pins_ok ss cs \<longleftrightarrow> ss_sclk ss \<noteq> ss_mosi ss \<and> (\<forall>p a. cs = Some (p, a) \<longrightarrow> p \<noteq> ss_sclk ss \<and> p \<noteq> ss_mosi ss)"

definition at_rest :: "spi_software \<Rightarrow> (u32 \<times> bool) option \<Rightarrow> 'a bus_s_scheme \<Rightarrow> bool" where
  "at_rest ss cs s \<longleftrightarrow> selected cs (bd_outputs s) \<and> bd_outputs s (ss_sclk ss) = cpol ss"

lemma selected_other:
  "spi_pins_ok ss cs \<Longrightarrow> selected cs (lv(ss_sclk ss := v)) = selected cs lv"
  "spi_pins_ok ss cs \<Longrightarrow> selected cs (lv(ss_mosi ss := v)) = selected cs lv"
  by (cases cs; auto simp: spi_pins_ok_def)+

definition read_run :: "spi_software \<Rightarrow> 'a bus_s_scheme \<Rightarrow> nat \<Rightarrow> u8 list" where
  "read_run ss s n = map (\<lambda>k. bd_inputs s (ss_miso ss) (bd_input_reads s + k)) [0..<n]"

lemma read_run_Suc:
  "bd_inputs s1 = bd_inputs s \<Longrightarrow> bd_input_reads s1 = Suc (bd_input_reads s) \<Longrightarrow>
    read_run ss s (Suc n) = bd_inputs s (ss_miso ss) (bd_input_reads s) # read_run ss s1 n"
  by (simp add: read_run_def upt_conv_Cons map_Suc_upt [symmetric] o_def del: upt_Suc)

lemma bit_loop_seen:
  assumes "spi_pins_ok ss cs"
  shows "at_rest ss cs s \<Longrightarrow>
    \<exists>s'. bit_loop n ss out inb s = (Inr (foldl (\<lambda>a v. push_bit 1 a OR v) inb (read_run ss s n)), s') \<and>
      seen (spi_device ss cs) s (spi_events ss (top_bits n out) (read_run ss s n)) s' \<and> at_rest ss cs s' \<and>
      bd_input_reads s' = bd_input_reads s + n"
proof (induction n arbitrary: s out inb)
  case 0
  then show ?case by (intro exI [of _ s]) (simp add: read_run_def ret_run spi.seen_refl spi_events_def)
next
  case (Suc n)
  have p: "ss_sclk ss \<noteq> ss_mosi ss" using assms by (simp add: spi_pins_ok_def)
  let ?o = "out AND 0x80 \<noteq> 0"
  let ?i = "bd_inputs s (ss_miso ss) (bd_input_reads s)"
  let ?w = "if cpha ss
    then [Write (ss_sclk ss) (\<not> cpol ss), Write (ss_mosi ss) ?o, Write (ss_sclk ss) (cpol ss), Read (ss_miso ss) ?i]
    else [Write (ss_mosi ss) ?o, Write (ss_sclk ss) (\<not> cpol ss), Read (ss_miso ss) ?i, Write (ss_sclk ss) (cpol ss)]"
  let ?s1 = "s\<lparr>bd_outputs := levels (bd_outputs s) ?w, bd_input_reads := Suc (bd_input_reads s), bus_log := bus_log s @ ?w\<rparr>"
  have reorder: "s\<lparr>bd_input_reads := a, bd_outputs := b, bus_log := c\<rparr> = s\<lparr>bd_outputs := b, bd_input_reads := a, bus_log := c\<rparr>"
    for a b c by simp
  have step: "bit_loop (Suc n) ss out inb s = bit_loop n ss (push_bit 1 out) (push_bit 1 inb OR ?i) ?s1"
    using Suc.prems p by (simp add: fw_simps at_rest_def cpha_def fun_upd_twist reorder)
  have sn: "seen (spi_device ss cs) s (bit_events ss ?o ?i) ?s1"
    unfolding seen_def using Suc.prems p
    by (intro conjI exI [of _ ?w]) (simp_all add: at_rest_def bit_events_def selected_other [OF assms])
  have rest: "at_rest ss cs ?s1"
    using Suc.prems p by (simp add: at_rest_def selected_other [OF assms])
  have rd: "read_run ss s (Suc n) = ?i # read_run ss ?s1 n" by (rule read_run_Suc) simp_all
  obtain s' where s': "bit_loop n ss (push_bit 1 out) (push_bit 1 inb OR ?i) ?s1 =
        (Inr (foldl (\<lambda>a v. push_bit 1 a OR v) (push_bit 1 inb OR ?i) (read_run ss ?s1 n)), s')"
      "seen (spi_device ss cs) ?s1 (spi_events ss (top_bits n (push_bit 1 out)) (read_run ss ?s1 n)) s'" "at_rest ss cs s'"
      "bd_input_reads s' = bd_input_reads ?s1 + n"
    using Suc.IH [OF rest] by blast
  have "seen (spi_device ss cs) s (spi_events ss (top_bits (Suc n) out) (read_run ss s (Suc n))) s'"
    using spi.seen_trans [OF sn s'(2)] by (simp add: rd spi_events_def)
  then show ?case using step s' by (intro exI [of _ s']) (simp add: rd)
qed

lemma read_run_split: "bd_inputs s1 = bd_inputs s \<Longrightarrow> bd_input_reads s1 = bd_input_reads s + m \<Longrightarrow>
    read_run ss s (m + n) = read_run ss s m @ read_run ss s1 n"
proof -
  assume a: "bd_inputs s1 = bd_inputs s" "bd_input_reads s1 = bd_input_reads s + m"
  have "[0..<m + n] = [0..<m] @ map (\<lambda>k. k + m) [0..<n]" by (simp only: upt_add_eq_append [of 0] map_add_upt add.commute le0)
  then show ?thesis using a by (simp add: read_run_def o_def ac_simps)
qed

lemma length_read_run [simp]: "length (read_run ss s n) = n"
  by (simp add: read_run_def)

lemma spi_events_append:
  "length o1 = length i1 \<Longrightarrow> spi_events ss (o1 @ o2) (i1 @ i2) = spi_events ss o1 i1 @ spi_events ss o2 i2"
  by (simp add: spi_events_def)

text \<open>What the master has read, as bytes.\<close>

definition received :: "u8 list \<Rightarrow> u8 list \<Rightarrow> bool" where
  "received res ins \<longleftrightarrow> bits_of res = map (\<lambda>v. v = 1) ins"

lemma software_transfer_seen:
  assumes "spi_pins_ok ss cs" and "\<And>k. bd_inputs s (ss_miso ss) k \<le> 1"
  shows "at_rest ss cs s \<Longrightarrow>
    \<exists>res s'. spi_software_transfer ss rd data s = (Inr res, s') \<and>
      (if rd then received res (read_run ss s (8 * length data)) else res = data) \<and>
      seen (spi_device ss cs) s (spi_events ss (bits_of data) (read_run ss s (8 * length data))) s' \<and> at_rest ss cs s'"
  using assms(2)
proof (induction data arbitrary: s)
  case Nil
  then show ?case
    by (intro exI [of _ "[]"] exI [of _ s]) (simp add: read_run_def ret_run spi.seen_refl spi_events_def received_def)
next
  case (Cons x data)
  define ins where "ins = read_run ss s 8"
  obtain s1 where b: "bit_loop 8 ss x 0 s = (Inr (foldl (\<lambda>a v. push_bit 1 a OR v) 0 ins), s1)"
      "seen (spi_device ss cs) s (spi_events ss (top_bits 8 x) ins) s1" "at_rest ss cs s1" "bd_input_reads s1 = bd_input_reads s + 8"
    using bit_loop_seen [OF assms(1) Cons.prems(1), of 8 x 0] unfolding ins_def by blast
  have in1: "bd_inputs s1 = bd_inputs s" using b(2) by (simp add: seen_def)
  have bit1: "\<forall>v\<in>set ins. v \<le> 1" using Cons.prems(2) by (auto simp: ins_def read_run_def)
  obtain res s2 where r: "spi_software_transfer ss rd data s1 = (Inr res, s2)"
      "if rd then received res (read_run ss s1 (8 * length data)) else res = data"
      "seen (spi_device ss cs) s1 (spi_events ss (bits_of data) (read_run ss s1 (8 * length data))) s2" "at_rest ss cs s2"
    using Cons.IH [OF b(3)] Cons.prems(2) in1 by metis
  define res' where "res' = (if rd then foldl shift_in 0 (map (\<lambda>v. v = 1) ins) else x) # res"
  have rr: "read_run ss s (8 * length (x # data)) = ins @ read_run ss s1 (8 * length data)"
    using read_run_split [OF in1 b(4), of ss "8 * length data"] by (simp add: ins_def)
  have "spi_software_transfer ss rd (x # data) s = (Inr res', s2)"
    using b(1) r(1) fold_in_shift [OF bit1, of 0] by (simp add: fw_simps res'_def)
  moreover have "if rd then received res' (read_run ss s (8 * length (x # data))) else res' = x # data"
    using r(2) shift_bits [of "map (\<lambda>v. v = 1) ins" 0] unfolding rr by (auto simp: res'_def received_def ins_def)
  moreover have "seen (spi_device ss cs) s (spi_events ss (bits_of (x # data)) (read_run ss s (8 * length (x # data)))) s2"
    using spi.seen_trans [OF b(2) r(3)] unfolding rr by (simp add: spi_events_append top_bits_8 ins_def)
  ultimately show ?case using r(4) by blast
qed

text \<open>
  C21: the waveform of an SPI transfer.  A device on a software bus, in any of the four modes, is
  selected for exactly one transfer; at its sampling edges it finds the bits of the data, highest
  bit of each byte first, and every bit that the micro-controller takes lies between the sampling edge and
  the edge at which the device moves on.  The bytes returned are those bits.
\<close>

theorem spi_transfer_waveform:
  assumes "d = spidevs s i" and "sd_bus d = Bus_software ss"
    and "sd_flags d AND SF_SOFTWARE \<noteq> 0" and "sd_flags d AND SF_HAVE_PIN \<noteq> 0"
    and "active = (sd_flags d AND SF_CS_ACTIVE_HIGH \<noteq> 0)" and "bd_outputs s (sd_pin d) \<noteq> active"
    and "spi_pins_ok ss (Some (sd_pin d, active))" and "\<And>k. bd_inputs s (ss_miso ss) k \<le> 1"
  shows "\<exists>res s'. spidev_transfer hw i rd data s = (Inr res, s') \<and>
    seen (spi_device ss (Some (sd_pin d, active))) s (spi_events ss (bits_of data) (read_run ss s (8 * length data))) s' \<and>
    (if rd then received res (read_run ss s (8 * length data)) else res = data) \<and>
    bd_outputs s' (sd_pin d) \<noteq> active"
proof -
  let ?cs = "Some (sd_pin d, active)"
  have p: "sd_pin d \<noteq> ss_sclk ss" "sd_pin d \<noteq> ss_mosi ss" using assms(7) by (simp_all add: spi_pins_ok_def)
  have sel: "sd_flags d AND (SF_SOFTWARE OR SF_HARDWARE) \<noteq> 0"
    using assms(3) by (simp add: bit.conj_disj_distrib or_eq_0_iff)
  define s1 where "s1 = s\<lparr>bd_outputs := (bd_outputs s)(ss_sclk ss := cpol ss), bus_log := bus_log s @ [Write (ss_sclk ss) (cpol ss)]\<rparr>"
  define s2 where "s2 = s1\<lparr>bd_outputs := (bd_outputs s1)(sd_pin d := active), bus_log := bus_log s1 @ [Write (sd_pin d) active]\<rparr>"
  have w1: "seen (spi_device ss ?cs) s [] s1"
    using spi.seen_write [of ss ?cs s "ss_sclk ss" "cpol ss"] assms(6) by (simp add: s1_def)
  have w2: "seen (spi_device ss ?cs) s1 [] s2"
    using spi.seen_write [of ss ?cs s1 "sd_pin d" active] p by (simp add: s2_def)
  have rest: "at_rest ss ?cs s2" using p by (simp add: at_rest_def s2_def s1_def)
  have in2: "bd_inputs s2 = bd_inputs s" "bd_input_reads s2 = bd_input_reads s" by (simp_all add: s2_def s1_def)
  then have rr: "read_run ss s2 n = read_run ss s n" for n by (simp add: read_run_def)
  obtain res s3 where t: "spi_software_transfer ss rd data s2 = (Inr res, s3)"
      "if rd then received res (read_run ss s (8 * length data)) else res = data"
      "seen (spi_device ss ?cs) s2 (spi_events ss (bits_of data) (read_run ss s (8 * length data))) s3" "at_rest ss ?cs s3"
    using software_transfer_seen [OF assms(7) _ rest, of rd data] assms(8) in2 rr by metis
  define s4 where "s4 = s3\<lparr>bd_outputs := (bd_outputs s3)(sd_pin d := \<not> active), bus_log := bus_log s3 @ [Write (sd_pin d) (\<not> active)]\<rparr>"
  have w4: "seen (spi_device ss ?cs) s3 [] s4"
    using spi.seen_write [of ss ?cs s3 "sd_pin d" "\<not> active"] p by (simp add: s4_def)
  have prep: "spi_software_prepare ss s = (Inr (), s1)"
    by (simp add: spi_software_prepare_def bus_write_run s1_def cpol_def)
  have cs_on: "bus_write (sd_pin d) active s1 = (Inr (), s2)" by (simp add: bus_write_run s2_def)
  have cs_off: "bus_write (sd_pin d) (sd_flags d AND SF_CS_ACTIVE_HIGH = 0) s3 = (Inr (), s4)"
    using assms(5) by (simp add: bus_write_run s4_def)
  have "spidev_transfer hw i rd data s = (Inr res, s4)"
    using assms(2-4) sel t(1) prep cs_on cs_off
    by (simp add: spidev_transfer_def Let_def bnd_def thn_def gets_def ret_def assms(1) [symmetric] assms(5) [symmetric])
  moreover have "seen (spi_device ss ?cs) s (spi_events ss (bits_of data) (read_run ss s (8 * length data))) s4"
    using spi.seen_trans [OF spi.seen_trans [OF spi.seen_trans [OF w1 w2] t(3)] w4] by simp
  moreover have "bd_outputs s4 (sd_pin d) \<noteq> active" by (simp add: s4_def)
  ultimately show ?thesis using t(2) by blast
qed

definition example_spi :: spi_software where
  "example_spi = \<lparr>ss_miso = 4, ss_mosi = 5, ss_sclk = 6, ss_mode = 3\<rparr>"

definition example_spi_s :: spi_s where
  "example_spi_s = bus_s.extend (basecmd_s.extend idle_basecmd_s \<lparr>bus_log = []\<rparr>)
    \<lparr>spidevs = (\<lambda>_. \<lparr>sd_bus = Bus_software example_spi, sd_pin = 7, sd_flags = SF_HAVE_PIN OR SF_SOFTWARE\<rparr>),
     spi_shutdowns = (\<lambda>_. \<lparr>ssd_spi = 0, ssd_msg = []\<rparr>)\<rparr>
    \<lparr>bd_outputs := (\<lambda>pin. pin = 7)\<rparr>"

definition no_spi_hw :: "spi_s spi_hw" where
  "no_spi_hw = \<lparr>hw_setup = \<lambda>_ _ _. ret 0, hw_prepare = \<lambda>_. ret (), hw_transfer = \<lambda>_ _ data. ret data\<rparr>"

theorem spi_transfer_waveform_witness:
  "\<exists>s'. spidev_transfer no_spi_hw 0 True [0xA5] example_spi_s = (Inr [0], s') \<and>
    seen (spi_device example_spi (Some (7, False))) example_spi_s
      (concat (map (\<lambda>b. [Shifted, Sampled b, Taken 0]) [True, False, True, False, False, True, False, True])) s'"
proof -
  have f: "spidevs example_spi_s 0 = \<lparr>sd_bus = Bus_software example_spi, sd_pin = 7, sd_flags = SF_HAVE_PIN OR SF_SOFTWARE\<rparr>"
      "bd_inputs example_spi_s = (\<lambda>_ _. 0)" "bd_outputs example_spi_s = (\<lambda>pin. pin = 7)"
    by (simp_all add: example_spi_s_def bus_s.defs basecmd_s.defs idle_defs)
  have r: "read_run example_spi example_spi_s 8 = replicate 8 0"
    by (simp add: read_run_def f map_replicate_const)
  have b: "bits_of [0xA5] = [True, False, True, False, False, True, False, True]"
    by (simp add: byte_bits_simps bit_iff_odd)
  have "\<exists>res s'. spidev_transfer no_spi_hw 0 True [0xA5] example_spi_s = (Inr res, s') \<and>
    seen (spi_device example_spi (Some (sd_pin (spidevs example_spi_s 0), False))) example_spi_s
      (spi_events example_spi (bits_of [0xA5]) (read_run example_spi example_spi_s (8 * length [0xA5 :: u8]))) s' \<and>
    (if True then received res (read_run example_spi example_spi_s (8 * length [0xA5 :: u8])) else res = [0xA5]) \<and>
    bd_outputs s' (sd_pin (spidevs example_spi_s 0)) \<noteq> False"
    by (rule spi_transfer_waveform [where hw = no_spi_hw, OF refl])
      (simp_all add: f spi_flag_consts spi_pins_ok_def example_spi_def)
  then obtain res s' where t: "spidev_transfer no_spi_hw 0 True [0xA5] example_spi_s = (Inr res, s')"
      "seen (spi_device example_spi (Some (7, False))) example_spi_s (spi_events example_spi (bits_of [0xA5]) (replicate 8 0)) s'"
      "bits_of res = replicate 8 False"
    by (auto simp: f r received_def)
  have l: "length res = 1" using arg_cong [OF t(3), of length] by simp
  then obtain y where y: "res = [y]" by (auto simp: length_Suc_conv)
  have "byte_bits y = byte_bits 0" using t(3) y by (simp add: byte_bits_simps numeral_eq_Suc)
  then have "y = 0" by (simp only: byte_bits_inject)
  then show ?thesis using t(1,2) y b
    by (intro exI [of _ s']) (simp add: spi_events_def bit_events_def cpha_def example_spi_def numeral_eq_Suc)
qed

end
