(* ===== verification/I2c.thy ===== *)
theory I2c
  imports Bus
begin

text \<open>
  I2C devices (\<^verbatim>\<open>src/i2ccmds.c\<close>) and the I2C bus on plain pins (\<^verbatim>\<open>src/i2c_software.c\<close>), with
  \<^verbatim>\<open>CONFIG_WANT_SOFTWARE_I2C\<close> and the delays of every micro-controller but AVR.  The bus of the
  micro-controller itself (\<^verbatim>\<open>i2c_setup\<close>, \<^verbatim>\<open>i2c_write\<close>, \<^verbatim>\<open>i2c_read\<close> of the board) is a parameter.
\<close>

section \<open>State\<close>

record i2c_software =
  is_scl_out :: u32
  is_sda_out :: u32
  is_scl_in :: u32
  is_sda_in :: u32
  is_addr :: u8
  is_ticks :: u32

text \<open>\<^verbatim>\<open>struct i2cdev_s\<close>; the pointer to the software bus is \<open>None\<close> before it is set.\<close>

record i2cdev =
  id_config :: u32
  id_software :: "i2c_software option"
  id_flags :: u8

definition zero_i2cdev :: i2cdev where
  "zero_i2cdev = \<lparr>id_config = 0, id_software = None, id_flags = 0\<rparr>"

record i2c_s = bus_s +
  i2cdevs :: "nat \<Rightarrow> i2cdev"

definition IF_SOFTWARE :: u8 where "IF_SOFTWARE = 1"
definition IF_HARDWARE :: u8 where "IF_HARDWARE = 2"

record 's i2c_hw =
  i2c_setup :: "u32 \<Rightarrow> u32 \<Rightarrow> u8 \<Rightarrow> ('s, u32) fw"
  i2c_write :: "u32 \<Rightarrow> u8 list \<Rightarrow> ('s, unit) fw"
  i2c_read :: "u32 \<Rightarrow> u8 list \<Rightarrow> nat \<Rightarrow> ('s, u8 list) fw"

abbreviation i2cdev_upd :: "nat \<Rightarrow> (i2cdev \<Rightarrow> i2cdev) \<Rightarrow> ('a i2c_s_scheme, unit) fw" where
  "i2cdev_upd i f \<equiv> upd (\<lambda>s. s\<lparr>i2cdevs := (i2cdevs s)(i := f (i2cdevs s i))\<rparr>)"

section \<open>The bus on plain pins\<close>

text \<open>
  A line that is an input is high by its pull-up; a line that is an output here is always driven
  low.
\<close>

definition line_release :: "u32 \<Rightarrow> ('a bus_s_scheme, unit) fw" where
  "line_release pin = bus_write pin True"

definition line_low :: "u32 \<Rightarrow> ('a bus_s_scheme, unit) fw" where
  "line_low pin = bus_write pin False"

definition nsecs_to_ticks :: "u32 \<Rightarrow> 'a board_scheme \<Rightarrow> u32" where
  "nsecs_to_ticks ns s = timer_from_us (ns * 1000) s div 1000000"

text \<open>The wait reads the clock at most \<open>k\<close> times; the comparison is the plain one of C.\<close>

fun delay_loop :: "nat \<Rightarrow> u32 \<Rightarrow> ('a board_scheme, unit) fw" where
  "delay_loop 0 t = stuck"
| "delay_loop (Suc k) t = bnd timer_read_time (\<lambda>now. if t > now then delay_loop k t else ret ())"

definition i2c_delay :: "nat \<Rightarrow> u32 \<Rightarrow> ('a board_scheme, unit) fw" where
  "i2c_delay k ticks =
    bnd timer_read_time (\<lambda>now.
    bnd (gets (\<lambda>s. now + nsecs_to_ticks ticks s)) (\<lambda>t. delay_loop k t))"

definition i2c_software_send_ack :: "nat \<Rightarrow> i2c_software \<Rightarrow> bool \<Rightarrow> ('a bus_s_scheme, unit) fw" where
  "i2c_software_send_ack k is ack =
    thn (if ack then line_release (is_sda_in is) else line_low (is_sda_out is))
    (thn (i2c_delay k (is_ticks is))
    (thn (line_release (is_scl_in is))
    (thn (i2c_delay k (is_ticks is))
    (line_low (is_scl_out is)))))"

definition i2c_software_read_ack :: "nat \<Rightarrow> i2c_software \<Rightarrow> ('a bus_s_scheme, u8) fw" where
  "i2c_software_read_ack k is =
    thn (line_release (is_sda_in is))
    (thn (i2c_delay k (is_ticks is))
    (thn (line_release (is_scl_in is))
    (bnd (bus_read (is_sda_in is)) (\<lambda>nack.
    thn (i2c_delay k (is_ticks is))
    (thn (line_low (is_scl_out is))
    (thn (line_release (is_sda_in is))
    (ret nack)))))))"

fun send_bits :: "nat \<Rightarrow> nat \<Rightarrow> i2c_software \<Rightarrow> u8 \<Rightarrow> ('a bus_s_scheme, unit) fw" where
  "send_bits 0 k is b = ret ()"
| "send_bits (Suc n) k is b =
    thn (if b AND 0x80 \<noteq> 0 then line_release (is_sda_in is) else line_low (is_sda_out is))
    (thn (i2c_delay k (is_ticks is))
    (thn (line_release (is_scl_in is))
    (thn (i2c_delay k (is_ticks is))
    (thn (line_low (is_scl_out is))
    (send_bits n k is (push_bit 1 b))))))"

definition i2c_software_send_byte :: "nat \<Rightarrow> i2c_software \<Rightarrow> u8 \<Rightarrow> ('a bus_s_scheme, unit) fw" where
  "i2c_software_send_byte k is b =
    thn (send_bits 8 k is b)
    (bnd (i2c_software_read_ack k is) (\<lambda>nack. shutdown_if (nack \<noteq> 0) ''soft_i2c NACK''))"

fun read_bits :: "nat \<Rightarrow> nat \<Rightarrow> i2c_software \<Rightarrow> u8 \<Rightarrow> ('a bus_s_scheme, u8) fw" where
  "read_bits 0 k is b = ret b"
| "read_bits (Suc n) k is b =
    thn (i2c_delay k (is_ticks is))
    (thn (line_release (is_scl_in is))
    (thn (i2c_delay k (is_ticks is))
    (bnd (bus_read (is_sda_in is)) (\<lambda>v.
    thn (line_low (is_scl_out is))
    (read_bits n k is (push_bit 1 b OR v))))))"

definition i2c_software_read_byte :: "nat \<Rightarrow> i2c_software \<Rightarrow> nat \<Rightarrow> ('a bus_s_scheme, u8) fw" where
  "i2c_software_read_byte k is remaining =
    thn (line_release (is_sda_in is))
    (bnd (read_bits 8 k is 0) (\<lambda>b.
    thn (line_release (is_sda_in is))
    (thn (i2c_software_send_ack k is (remaining = 0))
    (ret b))))"

definition i2c_software_start :: "nat \<Rightarrow> i2c_software \<Rightarrow> u8 \<Rightarrow> ('a bus_s_scheme, unit) fw" where
  "i2c_software_start k is addr =
    thn (i2c_delay k (is_ticks is))
    (thn (line_release (is_sda_in is))
    (thn (line_release (is_scl_in is))
    (thn (i2c_delay k (is_ticks is))
    (thn (line_low (is_sda_out is))
    (thn (i2c_delay k (is_ticks is))
    (thn (line_low (is_scl_out is))
    (i2c_software_send_byte k is addr)))))))"

definition i2c_software_stop :: "nat \<Rightarrow> i2c_software \<Rightarrow> ('a bus_s_scheme, unit) fw" where
  "i2c_software_stop k is =
    thn (line_low (is_sda_out is))
    (thn (i2c_delay k (is_ticks is))
    (thn (line_release (is_scl_in is))
    (thn (i2c_delay k (is_ticks is))
    (line_release (is_sda_in is)))))"

fun send_bytes :: "nat \<Rightarrow> i2c_software \<Rightarrow> u8 list \<Rightarrow> ('a bus_s_scheme, unit) fw" where
  "send_bytes k is [] = ret ()"
| "send_bytes k is (b # bs) = thn (i2c_software_send_byte k is b) (send_bytes k is bs)"

definition i2c_software_write :: "nat \<Rightarrow> i2c_software \<Rightarrow> u8 list \<Rightarrow> ('a bus_s_scheme, unit) fw" where
  "i2c_software_write k is write =
    thn (i2c_software_start k is (is_addr is))
    (thn (send_bytes k is write)
    (i2c_software_stop k is))"

fun read_bytes :: "nat \<Rightarrow> i2c_software \<Rightarrow> nat \<Rightarrow> ('a bus_s_scheme, u8 list) fw" where
  "read_bytes k is 0 = ret []"
| "read_bytes k is (Suc n) =
    bnd (i2c_software_read_byte k is n) (\<lambda>b.
    bnd (read_bytes k is n) (\<lambda>bs. ret (b # bs)))"

definition i2c_software_read :: "nat \<Rightarrow> i2c_software \<Rightarrow> u8 list \<Rightarrow> nat \<Rightarrow> ('a bus_s_scheme, u8 list) fw" where
  "i2c_software_read k is reg read_len =
    (let addr = is_addr is OR 0x01 in
     thn (if reg \<noteq> []
          then thn (i2c_software_start k is (is_addr is)) (send_bytes k is reg)
          else ret ())
     (thn (i2c_software_start k is addr)
     (bnd (read_bytes k is read_len) (\<lambda>bs.
     thn (i2c_software_stop k is) (ret bs)))))"

section \<open>Devices\<close>

definition command_config_i2c :: "nat \<Rightarrow> u32 list \<Rightarrow> ('a i2c_s_scheme, unit) fw" where
  "command_config_i2c sizeof_i2c args = (case args of
      [oid] \<Rightarrow> bnd (oid_alloc (ucast oid) ''i2c'' sizeof_i2c) (\<lambda>i. i2cdev_upd i (\<lambda>_. zero_i2cdev))
    | _ \<Rightarrow> stuck)"

definition i2cdev_oid_lookup :: "u8 \<Rightarrow> ('a i2c_s_scheme, nat) fw" where
  "i2cdev_oid_lookup oid = oid_lookup oid ''i2c''"

definition command_i2c_set_bus :: "'a i2c_s_scheme i2c_hw \<Rightarrow> u32 list \<Rightarrow> ('a i2c_s_scheme, unit) fw" where
  "command_i2c_set_bus hw args = (case args of
      [oid, bus, rate, address] \<Rightarrow>
        bnd (i2cdev_oid_lookup (ucast oid)) (\<lambda>i.
        bnd (i2c_setup hw bus rate (ucast (address AND 0x7f))) (\<lambda>cfg.
        i2cdev_upd i (\<lambda>d. d\<lparr>id_config := cfg, id_flags := id_flags d OR IF_HARDWARE\<rparr>)))
    | _ \<Rightarrow> stuck)"

definition i2cdev_set_software_bus :: "nat \<Rightarrow> i2c_software \<Rightarrow> ('a i2c_s_scheme, unit) fw" where
  "i2cdev_set_software_bus i is =
    i2cdev_upd i (\<lambda>d. d\<lparr>id_software := Some is, id_flags := id_flags d OR IF_SOFTWARE\<rparr>)"

definition command_i2c_set_software_bus :: "nat \<Rightarrow> u32 list \<Rightarrow> ('a i2c_s_scheme, unit) fw" where
  "command_i2c_set_software_bus sizeof_is args = (case args of
      [oid, scl_pin, sda_pin, rate, address] \<Rightarrow>
        bnd (i2cdev_oid_lookup (ucast oid)) (\<lambda>i.
        bnd (alloc_chunk sizeof_is) (\<lambda>_.
        bnd (gpio_in_setup scl_pin 1) (\<lambda>scl_in.
        bnd (gpio_out_setup scl_pin True) (\<lambda>scl_out.
        bnd (gpio_in_setup sda_pin 1) (\<lambda>sda_in.
        bnd (gpio_out_setup sda_pin True) (\<lambda>sda_out.
        i2cdev_set_software_bus i \<lparr>is_scl_out = scl_out, is_sda_out = sda_out, is_scl_in = scl_in,
          is_sda_in = sda_in, is_addr = ucast (push_bit 1 (address AND 0x7f)), is_ticks = 1000000 div 100 div 2\<rparr>))))))
    | _ \<Rightarrow> stuck)"

definition dev_write :: "'a i2c_s_scheme i2c_hw \<Rightarrow> nat \<Rightarrow> i2cdev \<Rightarrow> u8 list \<Rightarrow> ('a i2c_s_scheme, unit) fw" where
  "dev_write hw k d data =
    (if id_flags d AND IF_SOFTWARE \<noteq> 0
     then (case id_software d of Some is \<Rightarrow> i2c_software_write k is data | None \<Rightarrow> stuck)
     else i2c_write hw (id_config d) data)"

definition dev_read :: "'a i2c_s_scheme i2c_hw \<Rightarrow> nat \<Rightarrow> i2cdev \<Rightarrow> u8 list \<Rightarrow> nat \<Rightarrow> ('a i2c_s_scheme, u8 list) fw" where
  "dev_read hw k d reg n =
    (if id_flags d AND IF_SOFTWARE \<noteq> 0
     then (case id_software d of Some is \<Rightarrow> i2c_software_read k is reg n | None \<Rightarrow> stuck)
     else i2c_read hw (id_config d) reg n)"

text \<open>\<open>buf\<close> is the received block, into which the buffer arguments point.\<close>

definition command_i2c_write :: "'a i2c_s_scheme i2c_hw \<Rightarrow> nat \<Rightarrow> u8 list \<Rightarrow> u32 list \<Rightarrow> ('a i2c_s_scheme, unit) fw" where
  "command_i2c_write hw k buf args = (case args of
      [oid, a_len, ptr] \<Rightarrow>
        bnd (i2cdev_oid_lookup (ucast oid)) (\<lambda>i.
        bnd (command_decode_ptr buf ptr (unat (ucast a_len :: u8))) (\<lambda>data.
        bnd (gets (\<lambda>s. i2cdevs s i)) (\<lambda>d. dev_write hw k d data)))
    | _ \<Rightarrow> stuck)"

definition command_i2c_read :: "'a i2c_s_scheme i2c_hw \<Rightarrow> nat \<Rightarrow> u8 list \<Rightarrow> u32 list \<Rightarrow> ('a i2c_s_scheme, unit) fw" where
  "command_i2c_read hw k buf args = (case args of
      [a_oid, a_reg_len, ptr, a_data_len] \<Rightarrow>
        let oid = (ucast a_oid :: u8) in
        bnd (i2cdev_oid_lookup oid) (\<lambda>i.
        bnd (command_decode_ptr buf ptr (unat (ucast a_reg_len :: u8))) (\<lambda>reg.
        bnd (gets (\<lambda>s. i2cdevs s i)) (\<lambda>d.
        bnd (dev_read hw k d reg (unat (ucast a_data_len :: u8))) (\<lambda>data.
        sendf ''i2c_read_response oid=%c response=%*s'' [A_int (ucast oid), A_bytes data]))))
    | _ \<Rightarrow> stuck)"

text \<open>The loop that clears and sets the bits of the bytes read.\<close>

definition modify_bits :: "u8 list \<Rightarrow> u8 list \<Rightarrow> u8 list" where
  "modify_bits clear_set data =
    map (\<lambda>i. data ! i AND NOT (clear_set ! i) OR clear_set ! (length data + i)) [0..<length data]"

definition command_i2c_modify_bits :: "'a i2c_s_scheme i2c_hw \<Rightarrow> nat \<Rightarrow> u8 list \<Rightarrow> u32 list \<Rightarrow> ('a i2c_s_scheme, unit) fw" where
  "command_i2c_modify_bits hw k buf args = (case args of
      [oid, a_reg_len, ptr, clear_set_len, cs_ptr] \<Rightarrow>
        bnd (i2cdev_oid_lookup (ucast oid)) (\<lambda>i.
        let reg_len = (ucast a_reg_len :: u8) in
        bnd (command_decode_ptr buf ptr (unat reg_len)) (\<lambda>reg.
        thn (shutdown_if (clear_set_len mod 2 \<noteq> 0) ''i2c_modify_bits: Odd number of bits!'')
        (let data_len = (ucast (clear_set_len div 2) :: u8) in
         bnd (command_decode_ptr buf cs_ptr (2 * unat data_len)) (\<lambda>clear_set.
         bnd (gets (\<lambda>s. i2cdevs s i)) (\<lambda>d.
         bnd (dev_read hw k d reg (unat data_len)) (\<lambda>data.
         dev_write hw k d (take (unat (reg_len + data_len)) (reg @ modify_bits clear_set data))))))))
    | _ \<Rightarrow> stuck)"

section \<open>The waveform\<close>

text \<open>
  An I2C device, as the bus specification has it: while the clock line is high, a falling data line
  is a start and a rising one a stop; the level of the data line when the clock rises is a bit.
  \<open>Got\<close> is the micro-controller reading the data line while the clock is high.
\<close>

datatype i2c_event = Start | Stop | Bit bool | Got u8

fun i2c_device :: "u32 \<Rightarrow> u32 \<Rightarrow> (u32 \<Rightarrow> bool) \<Rightarrow> wire list \<Rightarrow> i2c_event list" where
  "i2c_device scl sda lv [] = []"
| "i2c_device scl sda lv (Write pin v # w) =
    (if pin = sda \<and> lv scl \<and> v \<noteq> lv sda then [if v then Stop else Start]
     else if pin = scl \<and> v \<and> \<not> lv scl then [Bit (lv sda)]
     else []) @ i2c_device scl sda (lv(pin := v)) w"
| "i2c_device scl sda lv (Read pin v # w) =
    (if pin = sda \<and> lv scl then [Got v] else []) @ i2c_device scl sda lv w"

interpretation i2c: bus_device "i2c_device scl sda" for scl sda
proof
  show "i2c_device scl sda lv (w1 @ w2) = i2c_device scl sda lv w1 @ i2c_device scl sda (levels lv w1) w2" for lv w1 w2
  proof (induction w1 arbitrary: lv)
    case (Cons x w1)
    then show ?case by (cases x) (simp_all del: fun_upd_apply)
  qed simp
qed simp

definition i2c_ok :: "i2c_software \<Rightarrow> bool" where
  "i2c_ok is \<longleftrightarrow> is_scl_in is = is_scl_out is \<and> is_sda_in is = is_sda_out is \<and> is_scl_out is \<noteq> is_sda_out is"

text \<open>Every wait sees the clock pass its end within \<open>k\<close> readings.\<close>

definition delays_end :: "nat \<Rightarrow> i2c_software \<Rightarrow> 'a board_scheme \<Rightarrow> bool" where
  "delays_end k is s \<longleftrightarrow>
    (\<forall>n. \<exists>j<k. \<not> bd_clock s n + nsecs_to_ticks (is_ticks is) s > bd_clock s (Suc n + j))"

lemma delays_end_wave [simp]: "delays_end k is (after_wave s w c) = delays_end k is s"
  by (simp add: delays_end_def nsecs_to_ticks_def timer_from_us_def)

lemma delay_loop_ends:
  "\<exists>j<k. \<not> t > bd_clock s (bd_clock_reads s + j) \<Longrightarrow> \<exists>c. delay_loop k t s = (Inr (), s\<lparr>bd_clock_reads := c\<rparr>)"
proof (induction k arbitrary: s)
  case (Suc k)
  show ?case
  proof (cases "t > bd_clock s (bd_clock_reads s)")
    case True
    obtain j where j: "j < Suc k" "\<not> t > bd_clock s (bd_clock_reads s + j)" using Suc.prems by blast
    then obtain j' where "j = Suc j'" using True by (cases j) auto
    then have "\<exists>j<k. \<not> t > bd_clock s (Suc (bd_clock_reads s) + j)" using j by (intro exI [of _ j']) simp
    then show ?thesis using True Suc.IH [of "s\<lparr>bd_clock_reads := Suc (bd_clock_reads s)\<rparr>"] by (simp add: fw_simps)
  next
    case False
    then show ?thesis by (intro exI [of _ "Suc (bd_clock_reads s)"]) (simp add: fw_simps)
  qed
qed simp

lemma emits_delay:
  assumes "delays_end k is s"
  shows "emits (i2c_delay k (is_ticks is)) s (Inr ()) []"
proof -
  define s1 where "s1 = s\<lparr>bd_clock_reads := Suc (bd_clock_reads s)\<rparr>"
  define t where "t = bd_clock s (bd_clock_reads s) + nsecs_to_ticks (is_ticks is) s1"
  have "nsecs_to_ticks (is_ticks is) s1 = nsecs_to_ticks (is_ticks is) s"
    by (simp add: s1_def nsecs_to_ticks_def timer_from_us_def)
  then have "\<exists>j<k. \<not> t > bd_clock s1 (bd_clock_reads s1 + j)"
    using assms unfolding delays_end_def t_def by (simp add: s1_def)
  then obtain c where "delay_loop k t s1 = (Inr (), s1\<lparr>bd_clock_reads := c\<rparr>)" using delay_loop_ends by blast
  then have "i2c_delay k (is_ticks is) s = (Inr (), s\<lparr>bd_clock_reads := c\<rparr>)"
    by (simp add: i2c_delay_def fw_simps t_def [symmetric] s1_def [symmetric]) (simp add: s1_def)
  then show ?thesis unfolding emits_def after_wave_def by (intro exI [of _ c]) simp
qed

lemma emits_low: "emits (line_low pin) s (Inr ()) [Write pin False]"
  by (simp add: line_low_def emits_write)

lemma emits_release:
  "i2c_ok is \<Longrightarrow> emits (line_release (is_scl_in is)) s (Inr ()) [Write (is_scl_out is) True]"
  "i2c_ok is \<Longrightarrow> emits (line_release (is_sda_in is)) s (Inr ()) [Write (is_sda_out is) True]"
  by (simp_all add: line_release_def emits_write i2c_ok_def)

lemma emits_data_line:
  "i2c_ok is \<Longrightarrow> emits (if v then line_release (is_sda_in is) else line_low (is_sda_out is)) s (Inr ()) [Write (is_sda_out is) v]"
  using emits_low emits_release by (cases v) simp_all

lemmas emits_i2c = emits_thn emits_bnd emits_delay emits_low emits_release emits_data_line emits_ret

text \<open>The accesses of one bit sent, and of one bit read.\<close>

definition out_wave :: "i2c_software \<Rightarrow> bool \<Rightarrow> wire list" where
  "out_wave is v = [Write (is_sda_out is) v, Write (is_scl_out is) True, Write (is_scl_out is) False]"

definition in_wave :: "i2c_software \<Rightarrow> u8 \<Rightarrow> wire list" where
  "in_wave is v = [Write (is_scl_out is) True, Read (is_sda_out is) v, Write (is_scl_out is) False]"

definition sda_reads :: "i2c_software \<Rightarrow> 'a board_scheme \<Rightarrow> nat \<Rightarrow> u8 list" where
  "sda_reads is s n = map (\<lambda>j. bd_inputs s (is_sda_out is) (bd_input_reads s + j)) [0..<n]"

lemma emits_send_bits:
  assumes "i2c_ok is"
  shows "delays_end k is s \<Longrightarrow> emits (send_bits n k is b) s (Inr ()) (concat (map (out_wave is) (top_bits n b)))"
proof (induction n arbitrary: b s)
  case 0
  then show ?case by (simp add: emits_ret)
next
  case (Suc n)
  have "emits (send_bits (Suc n) k is b) s (Inr ())
      ([Write (is_sda_out is) (b AND 0x80 \<noteq> 0)] @ [] @ [Write (is_scl_out is) True] @ [] @ [Write (is_scl_out is) False] @
        concat (map (out_wave is) (top_bits n (push_bit 1 b))))"
    unfolding send_bits.simps by (intro emits_i2c; simp add: assms Suc)
  then show ?case by (simp only: top_bits.simps list.map concat.simps out_wave_def [of "is" "b AND 0x80 \<noteq> 0"] append_Cons append_Nil)
qed

lemma sda_reads_Suc:
  "sda_reads is s (Suc n) = bd_inputs s (is_sda_out is) (bd_input_reads s) # sda_reads is (after_wave s w c) n"
  if "reads_in w = 1"
  using that by (simp add: sda_reads_def upt_conv_Cons map_Suc_upt [symmetric] o_def del: upt_Suc)

lemma sda_reads_add:
  "sda_reads is s (m + n) = sda_reads is s m @ sda_reads is (after_wave s w c) n" if "reads_in w = m"
proof -
  have "[0..<m + n] = [0..<m] @ map (\<lambda>k. k + m) [0..<n]"
    by (simp only: upt_add_eq_append [of 0] map_add_upt add.commute le0)
  then show ?thesis using that by (simp add: sda_reads_def o_def ac_simps)
qed

lemma emits_read_bits:
  assumes "i2c_ok is"
  shows "delays_end k is s \<Longrightarrow>
    emits (read_bits n k is b) s (Inr (foldl (\<lambda>a v. push_bit 1 a OR v) b (sda_reads is s n)))
      (concat (map (in_wave is) (sda_reads is s n)))"
proof (induction n arbitrary: b s)
  case 0
  then show ?case by (simp add: emits_ret sda_reads_def)
next
  case (Suc n)
  define v where "v = bd_inputs s (is_sda_out is) (bd_input_reads s)"
  have io: "is_sda_in is = is_sda_out is" using assms by (simp add: i2c_ok_def)
  define s1 where "s1 = after_wave s (in_wave is v) 0"
  have r: "sda_reads is s (Suc n) = v # sda_reads is s1 n"
    unfolding v_def s1_def by (rule sda_reads_Suc) (simp add: in_wave_def)
  have rest: "sda_reads is (after_wave s w c) n = sda_reads is s1 n" if "reads_in w = 1" for w c
    using that by (simp add: sda_reads_def s1_def in_wave_def)
  have rd: "emits (bus_read (is_sda_in is)) (after_wave s' w c) (Inr v) [Read (is_sda_in is) v]"
    if "bd_inputs s' = bd_inputs s" "bd_input_reads s' = bd_input_reads s" "reads_in w = 0" for s' w c
    using that by (intro emits_read) (simp add: v_def io)
  have "emits (read_bits (Suc n) k is b) s (Inr (foldl (\<lambda>a v. push_bit 1 a OR v) (push_bit 1 b OR v) (sda_reads is s1 n)))
      ([] @ [Write (is_scl_out is) True] @ [] @ [Read (is_sda_in is) v] @ [Write (is_scl_out is) False] @
        concat (map (in_wave is) (sda_reads is s1 n)))"
    unfolding read_bits.simps
    apply (rule emits_thn, rule emits_delay, simp add: Suc)
    apply (rule emits_thn, rule emits_release, rule assms)
    apply (rule emits_thn, rule emits_delay, simp add: Suc)
    apply (rule emits_bnd, rule rd, simp, simp, simp)
    apply (rule emits_thn, rule emits_low)
    subgoal for c1 c2 c3 c4 c5
      using Suc.IH [where b = "push_bit 1 b OR v" and
        s = "after_wave (after_wave (after_wave (after_wave (after_wave s [] c1) [Write (is_scl_out is) True] c2) [] c3) [Read (is_sda_in is) v] c4)
          [Write (is_scl_out is) False] c5"] Suc.prems
      by (simp add: after_wave_trans rest)
    done
  then show ?case by (simp only: r foldl.simps list.map concat.simps in_wave_def [of "is" v] append_Cons append_Nil io)
qed

definition byte_wave :: "i2c_software \<Rightarrow> u8 \<Rightarrow> u8 \<Rightarrow> wire list" where
  "byte_wave is b v = concat (map (out_wave is) (byte_bits b)) @
    [Write (is_sda_out is) True, Write (is_scl_out is) True, Read (is_sda_out is) v, Write (is_scl_out is) False,
     Write (is_sda_out is) True]"

lemma reads_in_out [simp]: "reads_in (concat (map (out_wave is) bs)) = 0"
  by (induction bs) (simp_all add: out_wave_def)

lemma emits_send_byte:
  assumes "i2c_ok is" and "delays_end k is s" and "v = bd_inputs s (is_sda_out is) (bd_input_reads s)"
  shows "emits (i2c_software_send_byte k is b) s (if v \<noteq> 0 then Inl (Shut ''soft_i2c NACK'') else Inr ()) (byte_wave is b v)"
proof -
  have io: "is_sda_in is = is_sda_out is" using assms(1) by (simp add: i2c_ok_def)
  have rd: "emits (bus_read (is_sda_in is)) (after_wave s' w c) (Inr v) [Read (is_sda_in is) v]"
    if "bd_inputs s' = bd_inputs s" "bd_input_reads s' = bd_input_reads s" "reads_in w = 0" for s' w c
    using that by (intro emits_read) (simp add: assms(3) io)
  have ack: "emits (i2c_software_read_ack k is) (after_wave s w c) (Inr v)
      ([Write (is_sda_out is) True] @ [] @ [Write (is_scl_out is) True] @ [Read (is_sda_in is) v] @ [] @
       [Write (is_scl_out is) False] @ [Write (is_sda_out is) True] @ [])" if "reads_in w = 0" for w c
    unfolding i2c_software_read_ack_def
    by (rule emits_thn emits_bnd emits_release emits_low emits_ret emits_delay rd | simp add: assms that)+
  have "emits (i2c_software_send_byte k is b) s (if v \<noteq> 0 then Inl (Shut ''soft_i2c NACK'') else Inr ())
      (concat (map (out_wave is) (top_bits 8 b)) @ ([Write (is_sda_out is) True] @ [] @ [Write (is_scl_out is) True] @
       [Read (is_sda_in is) v] @ [] @ [Write (is_scl_out is) False] @ [Write (is_sda_out is) True] @ []) @ [])"
    unfolding i2c_software_send_byte_def
    by (rule emits_thn, rule emits_send_bits [OF assms(1,2)], rule emits_bnd, rule ack, simp, rule emits_shutdown_if)
  then show ?thesis by (simp only: byte_wave_def top_bits_8 append_Cons append_Nil append_Nil2 io)
qed

definition idle_wave :: "i2c_software \<Rightarrow> wire list" where
  "idle_wave is = [Write (is_sda_out is) True, Write (is_scl_out is) True, Write (is_sda_out is) False, Write (is_scl_out is) False]"

lemma emits_start:
  assumes "i2c_ok is" and "delays_end k is s" and "v = bd_inputs s (is_sda_out is) (bd_input_reads s)"
  shows "emits (i2c_software_start k is addr) s (if v \<noteq> 0 then Inl (Shut ''soft_i2c NACK'') else Inr ())
    (idle_wave is @ byte_wave is addr v)"
proof -
  have b: "emits (i2c_software_send_byte k is addr) (after_wave s w c)
      (if v \<noteq> 0 then Inl (Shut ''soft_i2c NACK'') else Inr ()) (byte_wave is addr v)" if "reads_in w = 0" for w c
    using that assms by (intro emits_send_byte) simp_all
  have "emits (i2c_software_start k is addr) s (if v \<noteq> 0 then Inl (Shut ''soft_i2c NACK'') else Inr ())
      ([] @ [Write (is_sda_out is) True] @ [Write (is_scl_out is) True] @ [] @ [Write (is_sda_out is) False] @ [] @
       [Write (is_scl_out is) False] @ byte_wave is addr v)"
    unfolding i2c_software_start_def
    by (rule emits_thn emits_release emits_low emits_delay b | simp only: assms(1,2) delays_end_wave after_wave_trans append_Nil append_Cons reads_in.simps)+
  then show ?thesis by (simp only: idle_wave_def append_Cons append_Nil)
qed

lemma emits_stop:
  assumes "i2c_ok is" and "delays_end k is s"
  shows "emits (i2c_software_stop k is) s (Inr ())
    [Write (is_sda_out is) False, Write (is_scl_out is) True, Write (is_sda_out is) True]"
proof -
  have "emits (i2c_software_stop k is) s (Inr ())
      ([Write (is_sda_out is) False] @ [] @ [Write (is_scl_out is) True] @ [] @ [Write (is_sda_out is) True])"
    unfolding i2c_software_stop_def by (rule emits_thn emits_release emits_low emits_delay | simp add: assms)+
  then show ?thesis by (simp only: append_Cons append_Nil)
qed

text \<open>A byte read; the micro-controller acknowledges it unless it is the last.\<close>

definition read_wave :: "i2c_software \<Rightarrow> bool \<Rightarrow> u8 list \<Rightarrow> wire list" where
  "read_wave is nack ins = [Write (is_sda_out is) True] @ concat (map (in_wave is) ins) @
    [Write (is_sda_out is) True, Write (is_sda_out is) nack, Write (is_scl_out is) True, Write (is_scl_out is) False]"

lemma emits_read_byte:
  assumes "i2c_ok is" and "delays_end k is s"
  shows "emits (i2c_software_read_byte k is n) s (Inr (foldl (\<lambda>a v. push_bit 1 a OR v) 0 (sda_reads is s 8)))
    (read_wave is (n = 0) (sda_reads is s 8))"
proof -
  have rb: "emits (read_bits 8 k is 0) (after_wave s [Write (is_sda_out is) True] c)
      (Inr (foldl (\<lambda>a v. push_bit 1 a OR v) 0 (sda_reads is s 8))) (concat (map (in_wave is) (sda_reads is s 8)))" for c
    using emits_read_bits [OF assms(1), of k "after_wave s [Write (is_sda_out is) True] c" 8 0] assms(2)
    by (simp add: sda_reads_def)
  have ack: "emits (i2c_software_send_ack k is (n = 0)) (after_wave s w c) (Inr ())
      ([Write (is_sda_out is) (n = 0)] @ [] @ [Write (is_scl_out is) True] @ [] @ [Write (is_scl_out is) False])" for w c
    unfolding i2c_software_send_ack_def
    by (rule emits_thn emits_release emits_low emits_delay emits_data_line | simp only: assms delays_end_wave)+
  have "emits (i2c_software_read_byte k is n) s (Inr (foldl (\<lambda>a v. push_bit 1 a OR v) 0 (sda_reads is s 8)))
    ([Write (is_sda_out is) True] @ concat (map (in_wave is) (sda_reads is s 8)) @ [Write (is_sda_out is) True] @
      ([Write (is_sda_out is) (n = 0)] @ [] @ [Write (is_scl_out is) True] @ [] @ [Write (is_scl_out is) False]) @ [])"
    unfolding i2c_software_read_byte_def
    by (rule emits_thn, rule emits_release [OF assms(1)], rule emits_bnd, rule rb, rule emits_thn, rule emits_release [OF assms(1)],
      rule emits_thn, unfold after_wave_trans, rule ack, rule emits_ret)
  then show ?thesis by (simp only: read_wave_def append_Cons append_Nil append_Nil2)
qed

section \<open>What the device sees\<close>

text \<open>\<open>w\<close> takes the clock and data lines from \<open>(c, d)\<close> to \<open>(c', d')\<close>, and the device sees \<open>evs\<close>.\<close>

definition phase :: "i2c_software \<Rightarrow> bool \<times> bool \<Rightarrow> wire list \<Rightarrow> i2c_event list \<Rightarrow> bool \<times> bool \<Rightarrow> bool" where
  "phase is cd w evs cd' \<longleftrightarrow>
    (\<forall>lv. lv (is_scl_out is) = fst cd \<longrightarrow> lv (is_sda_out is) = snd cd \<longrightarrow>
      i2c_device (is_scl_out is) (is_sda_out is) lv w = evs \<and>
      levels lv w (is_scl_out is) = fst cd' \<and> levels lv w (is_sda_out is) = snd cd')"

lemma phase_append: "phase is cd v e1 cd1 \<Longrightarrow> phase is cd1 w e2 cd2 \<Longrightarrow> phase is cd (v @ w) (e1 @ e2) cd2"
  by (simp add: phase_def i2c.dev_append levels_append)

lemma phase_Nil: "phase is cd [] [] cd"
  by (simp add: phase_def)

lemma phase_out: "i2c_ok is \<Longrightarrow> bs \<noteq> [] \<Longrightarrow> phase is (False, d) (concat (map (out_wave is) bs)) (map Bit bs) (False, last bs)"
proof (induction bs arbitrary: d)
  case (Cons b bs)
  have 1: "phase is (False, d) (out_wave is b) [Bit b] (False, b)"
    using Cons.prems(1) by (auto simp: phase_def out_wave_def i2c_ok_def)
  show ?case
  proof (cases "bs = []")
    case True
    then show ?thesis using 1 by simp
  next
    case False
    then show ?thesis using phase_append [OF 1 Cons.IH [OF Cons.prems(1) False]] by simp
  qed
qed simp

definition byte_events :: "u8 \<Rightarrow> u8 \<Rightarrow> i2c_event list" where
  "byte_events b v = map Bit (byte_bits b) @ [Bit True, Got v]"

lemma phase_byte:
  assumes "i2c_ok is"
  shows "phase is (False, d) (byte_wave is b v) (byte_events b v) (False, True)"
proof -
  have "byte_bits b \<noteq> []" by (simp add: byte_bits_simps)
  from phase_out [OF assms this] show ?thesis
    unfolding byte_wave_def byte_events_def
    by (rule phase_append) (use assms in \<open>auto simp: phase_def i2c_ok_def\<close>)
qed

lemma phase_start:
  assumes "i2c_ok is"
  shows "phase is (True, True) (idle_wave is) [Start] (False, False)"
    and "phase is (False, True) (idle_wave is) [Bit True, Start] (False, False)"
  using assms by (auto simp: phase_def idle_wave_def i2c_ok_def)

lemma phase_stop:
  assumes "i2c_ok is"
  shows "phase is (False, d) [Write (is_sda_out is) False, Write (is_scl_out is) True, Write (is_sda_out is) True]
    [Bit False, Stop] (True, True)"
  using assms by (auto simp: phase_def i2c_ok_def)

lemma phase_in:
  "i2c_ok is \<Longrightarrow> phase is (False, True) (concat (map (in_wave is) ins)) (concat (map (\<lambda>v. [Bit True, Got v]) ins)) (False, True)"
proof (induction ins)
  case (Cons v ins)
  have 1: "phase is (False, True) (in_wave is v) [Bit True, Got v] (False, True)"
    using Cons.prems by (auto simp: phase_def in_wave_def i2c_ok_def)
  show ?case using phase_append [OF 1 Cons.IH [OF Cons.prems]] by simp
qed (simp add: phase_Nil)

lemma phase_read:
  assumes "i2c_ok is"
  shows "phase is (False, d) (read_wave is nack ins) (concat (map (\<lambda>v. [Bit True, Got v]) ins) @ [Bit nack]) (False, nack)"
proof -
  have "phase is (False, d) [Write (is_sda_out is) True] [] (False, True)"
    using assms by (auto simp: phase_def i2c_ok_def)
  moreover have "phase is (False, True) [Write (is_sda_out is) True, Write (is_sda_out is) nack, Write (is_scl_out is) True, Write (is_scl_out is) False]
      [Bit nack] (False, nack)"
    using assms by (auto simp: phase_def i2c_ok_def)
  ultimately show ?thesis
    using phase_append [OF _ phase_append [OF phase_in [OF assms, of ins]]] unfolding read_wave_def by fastforce
qed

text \<open>Bytes sent while the device acknowledges them, and whether it acknowledged all of them.\<close>

fun acked :: "u8 list \<Rightarrow> u8 list \<Rightarrow> i2c_event list \<times> bool" where
  "acked [] acks = ([], True)"
| "acked (b # bs) acks =
    (let v = hd acks; r = acked bs (tl acks) in
     if v \<noteq> 0 then (byte_events b v, False) else (byte_events b v @ fst r, snd r))"

abbreviation ended :: "bool \<Rightarrow> stop + unit" where
  "ended ok \<equiv> (if ok then Inr () else Inl (Shut ''soft_i2c NACK''))"

lemma reads_in_byte [simp]: "reads_in (byte_wave is b v) = 1"
  by (simp add: byte_wave_def)

lemma emits_send_bytes:
  assumes "i2c_ok is"
  shows "delays_end k is s \<Longrightarrow> acks = sda_reads is s (length bs) \<Longrightarrow>
    \<exists>w. emits (send_bytes k is bs) s (ended (snd (acked bs acks))) w \<and>
      phase is (False, True) w (fst (acked bs acks)) (False, True) \<and> (snd (acked bs acks) \<longrightarrow> reads_in w = length bs)"
proof (induction bs arbitrary: s acks)
  case Nil
  then show ?case by (intro exI [of _ "[]"]) (simp add: emits_ret phase_Nil)
next
  case (Cons b bs)
  define v where "v = bd_inputs s (is_sda_out is) (bd_input_reads s)"
  define acks' where "acks' = sda_reads is (after_wave s (byte_wave is b v) 0) (length bs)"
  have a: "acks = v # acks'"
    unfolding v_def acks'_def Cons.prems(2) list.size add_0_right add_Suc_right by (rule sda_reads_Suc) simp
  have e: "emits (i2c_software_send_byte k is b) s (ended (v = 0)) (byte_wave is b v)"
    using emits_send_byte [OF assms Cons.prems(1) v_def, of b] by (cases "v = 0") simp_all
  note p = phase_byte [OF assms, of True b v]
  show ?case
  proof (cases "v = 0")
    case False
    then show ?thesis using emits_fail(2) [where n = "send_bytes k is bs", OF e [unfolded if_not_P [OF False]]] p a
      by (intro exI [of _ "byte_wave is b v"]) simp
  next
    case True
    have "acks' = sda_reads is (after_wave s (byte_wave is b v) c) (length bs)" for c
      by (simp add: acks'_def sda_reads_def)
    then have "\<exists>w. emits (send_bytes k is bs) (after_wave s (byte_wave is b v) c) (ended (snd (acked bs acks'))) w \<and>
        phase is (False, True) w (fst (acked bs acks')) (False, True) \<and> (snd (acked bs acks') \<longrightarrow> reads_in w = length bs)" for c
      using Cons.IH [of "after_wave s (byte_wave is b v) c" acks'] Cons.prems(1) by simp
    moreover obtain c where c: "i2c_software_send_byte k is b s = (Inr (), after_wave s (byte_wave is b v) c)"
      using e True by (auto simp: emits_def)
    ultimately obtain w where w: "emits (send_bytes k is bs) (after_wave s (byte_wave is b v) c) (ended (snd (acked bs acks'))) w"
        "phase is (False, True) w (fst (acked bs acks')) (False, True)" "snd (acked bs acks') \<longrightarrow> reads_in w = length bs" by blast
    have "emits (send_bytes k is (b # bs)) s (ended (snd (acked bs acks'))) (byte_wave is b v @ w)"
      using w(1) c unfolding emits_def by (auto simp: thn_run bnd_Inr after_wave_trans)
    then show ?thesis using phase_append [OF p w(2)] w(3) True a
      by (intro exI [of _ "byte_wave is b v @ w"]) (simp add: Let_def)
  qed
qed

text \<open>From an idle bus: start, the address, and bytes.\<close>

lemma emits_address:
  assumes "i2c_ok is" and "delays_end k is s" and "acks = sda_reads is s (Suc (length bs))"
  shows "\<exists>w. emits (thn (i2c_software_start k is addr) (send_bytes k is bs)) s (ended (snd (acked (addr # bs) acks))) w \<and>
    phase is (True, True) w (Start # fst (acked (addr # bs) acks)) (False, True) \<and>
    phase is (False, True) w ([Bit True, Start] @ fst (acked (addr # bs) acks)) (False, True) \<and>
    (snd (acked (addr # bs) acks) \<longrightarrow> reads_in w = Suc (length bs))"
proof -
  define v where "v = bd_inputs s (is_sda_out is) (bd_input_reads s)"
  define sw where "sw = idle_wave is @ byte_wave is addr v"
  have r1: "reads_in sw = 1" by (simp add: sw_def idle_wave_def)
  define acks' where "acks' = sda_reads is (after_wave s sw 0) (length bs)"
  have a: "acks = v # acks'" unfolding assms(3) v_def acks'_def by (rule sda_reads_Suc [OF r1])
  have e: "emits (i2c_software_start k is addr) s (ended (v = 0)) sw"
    using emits_start [OF assms(1,2) v_def, of addr] by (cases "v = 0") (simp_all add: sw_def)
  have p: "phase is (True, True) sw (Start # byte_events addr v) (False, True)"
      "phase is (False, True) sw ([Bit True, Start] @ byte_events addr v) (False, True)"
    using phase_append [OF phase_start(1) phase_byte] phase_append [OF phase_start(2) phase_byte] assms(1)
    unfolding sw_def by fastforce+
  show ?thesis
  proof (cases "v = 0")
    case False
    then show ?thesis using emits_fail(2) [where n = "send_bytes k is bs", OF e [unfolded if_not_P [OF False]]] p a
      by (intro exI [of _ sw]) simp
  next
    case True
    obtain c where c: "i2c_software_start k is addr s = (Inr (), after_wave s sw c)"
      using e True by (auto simp: emits_def)
    have "acks' = sda_reads is (after_wave s sw c) (length bs)" by (simp add: acks'_def sda_reads_def)
    then obtain w where w: "emits (send_bytes k is bs) (after_wave s sw c) (ended (snd (acked bs acks'))) w"
        "phase is (False, True) w (fst (acked bs acks')) (False, True)" "snd (acked bs acks') \<longrightarrow> reads_in w = length bs"
      using emits_send_bytes [OF assms(1), of k "after_wave s sw c" acks' bs] assms(2) by auto
    have "emits (thn (i2c_software_start k is addr) (send_bytes k is bs)) s (ended (snd (acked bs acks'))) (sw @ w)"
      using w(1) c unfolding emits_def by (auto simp: thn_run bnd_Inr after_wave_trans)
    then show ?thesis using phase_append [OF p(1) w(2)] phase_append [OF p(2) w(2)] w(3) True a r1
      by (intro exI [of _ "sw @ w"]) (simp add: Let_def)
  qed
qed

lemma phase_seen:
  assumes "emits m s r w" and "phase is cd w evs cd'"
    and "bd_outputs s (is_scl_out is) = fst cd" and "bd_outputs s (is_sda_out is) = snd cd"
  shows "\<exists>s'. m s = (r, s') \<and> seen (i2c_device (is_scl_out is) (is_sda_out is)) s evs s' \<and>
    bd_outputs s' (is_scl_out is) = fst cd' \<and> bd_outputs s' (is_sda_out is) = snd cd'"
  using i2c.seen_emits [OF assms(1)] assms(2-4) unfolding phase_def by metis

definition bus_idle :: "i2c_software \<Rightarrow> 'a board_scheme \<Rightarrow> bool" where
  "bus_idle is s \<longleftrightarrow> bd_outputs s (is_scl_out is) \<and> bd_outputs s (is_sda_out is)"

lemma thn_assoc: "thn m (thn n p) = thn (thn m n) p"
  by (rule ext) (simp add: thn_def bnd_def split: prod.splits sum.splits)

text \<open>
  C22: the waveform of an I2C write.  From an idle bus a device sees a start, the address and the
  data bytes, highest bit first, each followed by its acknowledge bit.  If the device acknowledges all
  of them the bus is stopped and idle again; otherwise the firmware shuts down right after the byte that
  was refused.
\<close>

theorem i2c_write_waveform:
  assumes "i2c_ok is" and "delays_end k is s" and "bus_idle is s"
    and "r = acked (is_addr is # data) (sda_reads is s (Suc (length data)))"
  shows "\<exists>s'. i2c_software_write k is data s = (ended (snd r), s') \<and>
    seen (i2c_device (is_scl_out is) (is_sda_out is)) s (Start # fst r @ (if snd r then [Bit False, Stop] else [])) s' \<and>
    (snd r \<longrightarrow> bus_idle is s')"
proof -
  have idle: "bd_outputs s (is_scl_out is) = fst (True, True)" "bd_outputs s (is_sda_out is) = snd (True, True)"
    using assms(3) by (simp_all add: bus_idle_def)
  obtain w where w: "emits (thn (i2c_software_start k is (is_addr is)) (send_bytes k is data)) s (ended (snd r)) w"
      "phase is (True, True) w (Start # fst r) (False, True)"
    using emits_address [where bs = data and addr = "is_addr is", OF assms(1,2) refl] assms(4) by auto
  have split: "i2c_software_write k is data =
      thn (thn (i2c_software_start k is (is_addr is)) (send_bytes k is data)) (i2c_software_stop k is)"
    by (simp only: i2c_software_write_def thn_assoc)
  show ?thesis
  proof (cases "snd r")
    case True
    have "emits (i2c_software_write k is data) s (Inr ())
        (w @ [Write (is_sda_out is) False, Write (is_scl_out is) True, Write (is_sda_out is) True])"
      unfolding split by (rule emits_thn, use w(1) True in simp, rule emits_stop) (use assms in simp_all)
    then have "\<exists>s'. i2c_software_write k is data s = (Inr (), s') \<and>
        seen (i2c_device (is_scl_out is) (is_sda_out is)) s ((Start # fst r) @ [Bit False, Stop]) s' \<and>
        bd_outputs s' (is_scl_out is) = fst (True, True) \<and> bd_outputs s' (is_sda_out is) = snd (True, True)"
      by (rule phase_seen [OF _ phase_append [OF w(2) phase_stop [OF assms(1)]] idle])
    then show ?thesis using True by (simp add: bus_idle_def)
  next
    case False
    then have "emits (i2c_software_write k is data) s (Inl (Shut ''soft_i2c NACK'')) w"
      using emits_fail(2) w(1) unfolding split by simp
    from phase_seen [OF this w(2) idle] show ?thesis using False by auto
  qed
qed

fun read_events :: "nat \<Rightarrow> u8 list \<Rightarrow> i2c_event list" where
  "read_events 0 ins = []"
| "read_events (Suc n) ins =
    concat (map (\<lambda>v. [Bit True, Got v]) (take 8 ins)) @ [Bit (n = 0)] @ read_events n (drop 8 ins)"

lemma reads_in_in [simp]: "reads_in (concat (map (in_wave is) ins)) = length ins"
  by (induction ins) (simp_all add: in_wave_def)

lemma reads_in_read [simp]: "reads_in (read_wave is nack ins) = length ins"
  by (simp add: read_wave_def)

lemma length_sda_reads [simp]: "length (sda_reads is s n) = n"
  by (simp add: sda_reads_def)

lemma emits_read_bytes:
  assumes "i2c_ok is" and "\<And>k. bd_inputs s (is_sda_out is) k \<le> 1"
  shows "delays_end k is s \<Longrightarrow>
    \<exists>w bs d'. emits (read_bytes k is n) s (Inr bs) w \<and> length bs = n \<and>
      bits_of bs = map (\<lambda>v. v = 1) (sda_reads is s (8 * n)) \<and>
      phase is (False, d) w (read_events n (sda_reads is s (8 * n))) (False, d')"
  using assms(2)
proof (induction n arbitrary: s d)
  case 0
  then show ?case
    by (intro exI [of _ "[]"] exI [of _ d]) (simp add: emits_ret phase_Nil sda_reads_def)
next
  case (Suc n)
  define ins where "ins = sda_reads is s 8"
  define b where "b = foldl (\<lambda>a v. push_bit 1 a OR v) 0 ins"
  have e: "emits (i2c_software_read_byte k is n) s (Inr b) (read_wave is (n = 0) ins)"
    unfolding b_def ins_def by (rule emits_read_byte [OF assms(1) Suc.prems(1)])
  then obtain c where c: "i2c_software_read_byte k is n s = (Inr b, after_wave s (read_wave is (n = 0) ins) c)"
    by (auto simp: emits_def)
  define s1 where "s1 = after_wave s (read_wave is (n = 0) ins) c"
  obtain w bs d' where r: "emits (read_bytes k is n) s1 (Inr bs) w" "length bs = n"
      "bits_of bs = map (\<lambda>v. v = 1) (sda_reads is s1 (8 * n))"
      "phase is (False, n = 0) w (read_events n (sda_reads is s1 (8 * n))) (False, d')"
    using Suc.IH [of s1 "n = 0"] Suc.prems by (auto simp: s1_def)
  have all: "sda_reads is s (8 * Suc n) = ins @ sda_reads is s1 (8 * n)"
    using sda_reads_add [where m = 8 and n = "8 * n", of "read_wave is (n = 0) ins"] by (simp add: s1_def ins_def)
  have "\<forall>v\<in>set ins. v \<le> 1" using Suc.prems(2) by (auto simp: ins_def sda_reads_def)
  then have bits: "byte_bits b = map (\<lambda>v. v = 1) ins"
    unfolding b_def by (simp only: fold_in_shift) (simp add: shift_bits ins_def)
  have "emits (read_bytes k is (Suc n)) s (Inr (b # bs)) (read_wave is (n = 0) ins @ w)"
    using r(1) c unfolding s1_def emits_def by (auto simp: fw_simps after_wave_trans)
  moreover have "phase is (False, d) (read_wave is (n = 0) ins @ w)
      (read_events (Suc n) (sda_reads is s (8 * Suc n))) (False, d')"
    using phase_append [OF phase_read [OF assms(1), of d "n = 0" ins] r(4)] unfolding all by (simp add: ins_def)
  ultimately show ?case using r(2,3) bits all
    by (intro exI [of _ "read_wave is (n = 0) ins @ w"] exI [of _ "b # bs"] exI [of _ d']) simp
qed

text \<open>
  C23: the waveform of an I2C read of a register.  When the device acknowledges its address and the register
  bytes, it sees a start, its address for writing and the register; then a repeated start and its
  address for reading; then eight clocks for each byte, the data line released, and after each byte
  an acknowledge bit, refused for the last byte; then a stop.  The bytes returned are the bits read.
\<close>

theorem i2c_read_waveform:
  assumes "i2c_ok is" and "delays_end k is s" and "bus_idle is s" and "reg \<noteq> []"
    and "\<And>k. bd_inputs s (is_sda_out is) k \<le> 1"
    and "\<And>j. j < length reg + 2 \<Longrightarrow> bd_inputs s (is_sda_out is) (bd_input_reads s + j) = 0"
    and "ins = drop (length reg + 2) (sda_reads is s (length reg + 2 + 8 * n))"
  shows "\<exists>bs s'. i2c_software_read k is reg n s = (Inr bs, s') \<and>
    seen (i2c_device (is_scl_out is) (is_sda_out is)) s
      ([Start] @ concat (map (\<lambda>b. byte_events b 0) (is_addr is # reg)) @
       [Bit True, Start] @ byte_events (is_addr is OR 1) 0 @ read_events n ins @ [Bit False, Stop]) s' \<and>
    length bs = n \<and> bits_of bs = map (\<lambda>v. v = 1) ins \<and> bus_idle is s'"
proof -
  have idle: "bd_outputs s (is_scl_out is) = fst (True, True)" "bd_outputs s (is_sda_out is) = snd (True, True)"
    using assms(3) by (simp_all add: bus_idle_def)
  have z: "acked bs (replicate (length bs) 0) = (concat (map (\<lambda>b. byte_events b 0) bs), True)" for bs
    by (induction bs) (simp_all add: Let_def)
  have rep: "sda_reads is s m = replicate m 0" if "m \<le> length reg + 2" for m
    using that assms(6) by (auto simp: sda_reads_def list_eq_iff_nth_eq)
  have z1: "acked (is_addr is # reg) (sda_reads is s (Suc (length reg))) =
      (concat (map (\<lambda>b. byte_events b 0) (is_addr is # reg)), True)"
    using z [of "is_addr is # reg"] rep [of "Suc (length reg)"] by simp
  obtain w1 where w1: "emits (thn (i2c_software_start k is (is_addr is)) (send_bytes k is reg)) s (Inr ()) w1"
      "phase is (True, True) w1 (Start # concat (map (\<lambda>b. byte_events b 0) (is_addr is # reg))) (False, True)"
      "reads_in w1 = Suc (length reg)"
    using emits_address [where bs = reg and addr = "is_addr is", OF assms(1,2) refl] unfolding z1 by auto
  obtain c1 where c1: "thn (i2c_software_start k is (is_addr is)) (send_bytes k is reg) s = (Inr (), after_wave s w1 c1)"
    using w1(1) by (auto simp: emits_def)
  define s1 where "s1 = after_wave s w1 c1"
  have "sda_reads is s1 1 = [0]" using assms(6) [of "Suc (length reg)"] by (simp add: sda_reads_def s1_def w1(3))
  then have z2: "acked [is_addr is OR 1] (sda_reads is s1 (Suc (length ([] :: u8 list)))) = (byte_events (is_addr is OR 1) 0, True)"
    by (simp add: Let_def)
  obtain w2 where w2: "emits (thn (i2c_software_start k is (is_addr is OR 1)) (send_bytes k is [])) s1 (Inr ()) w2"
      "phase is (False, True) w2 ([Bit True, Start] @ byte_events (is_addr is OR 1) 0) (False, True)"
      "reads_in w2 = 1"
    using emits_address [where bs = "[]" and addr = "is_addr is OR 1" and s = s1, OF assms(1) _ refl] assms(2)
    unfolding z2 by (auto simp: s1_def)
  obtain c2 where c2: "thn (i2c_software_start k is (is_addr is OR 1)) (ret ()) s1 = (Inr (), after_wave s1 w2 c2)"
    using w2(1) by (auto simp: emits_def)
  then have st: "i2c_software_start k is (is_addr is OR 1) s1 = (Inr (), after_wave s1 w2 c2)"
    by (auto simp: fw_unfold split: prod.splits sum.splits)
  define s2 where "s2 = after_wave s1 w2 c2"
  obtain w3 bs d' where w3: "emits (read_bytes k is n) s2 (Inr bs) w3" "length bs = n"
      "bits_of bs = map (\<lambda>v. v = 1) (sda_reads is s2 (8 * n))"
      "phase is (False, True) w3 (read_events n (sda_reads is s2 (8 * n))) (False, d')"
    using emits_read_bytes [where s = s2 and d = True and n = n and k = k, OF assms(1)] assms(2,5) unfolding s2_def s1_def
    by (simp only: after_wave_fields delays_end_wave) blast
  have ins: "sda_reads is s2 (8 * n) = ins"
    unfolding assms(7) s2_def s1_def after_wave_trans
    by (subst sda_reads_add [where w = "w1 @ w2" and c = c2]) (simp_all add: w1(3) w2(3))
  let ?stop = "[Write (is_sda_out is) False, Write (is_scl_out is) True, Write (is_sda_out is) True]"
  obtain c3 where c3: "read_bytes k is n s2 = (Inr bs, after_wave s2 w3 c3)" using w3(1) by (auto simp: emits_def)
  obtain c4 where c4: "i2c_software_stop k is (after_wave s2 w3 c3) = (Inr (), after_wave (after_wave s2 w3 c3) ?stop c4)"
    using emits_stop [OF assms(1), of k "after_wave s2 w3 c3"] assms(2) by (auto simp: emits_def s2_def s1_def)
  have "emits (i2c_software_read k is reg n) s (Inr bs) (w1 @ w2 @ w3 @ ?stop)"
    using c1 st c3 c4 assms(4)
    unfolding emits_def by (intro exI [of _ c4]) (simp add: i2c_software_read_def Let_def thn_run bnd_Inr ret_run s1_def s2_def after_wave_trans)
  from phase_seen [OF this phase_append [OF w1(2) phase_append [OF w2(2) phase_append [OF w3(4) phase_stop [OF assms(1)]]]] idle]
  show ?thesis using w3(2,3) ins by (auto simp: bus_idle_def)
qed

text \<open>A device that acknowledges everything and answers with ones, on a very coarse clock.\<close>

definition example_i2c :: i2c_software where
  "example_i2c = \<lparr>is_scl_out = 4, is_sda_out = 5, is_scl_in = 4, is_sda_in = 5, is_addr = 0xA0, is_ticks = 5000\<rparr>"

definition example_i2c_s :: "bool \<Rightarrow> i2c_s" where
  "example_i2c_s nack = bus_s.extend (basecmd_s.extend idle_basecmd_s \<lparr>bus_log = []\<rparr>)
    \<lparr>i2cdevs = (\<lambda>_. zero_i2cdev)\<rparr>
    \<lparr>bd_outputs := (\<lambda>pin. pin \<le> 5), bd_inputs := (\<lambda>_ n. if n = 1 then of_bool nack else of_bool (n > 2)),
     bd_clock := (\<lambda>n. if even n then 0 else 0xFFFFFFFF), bd_freq := 1000000\<rparr>"

lemma example_i2c_ok:
  "i2c_ok example_i2c" "delays_end 2 example_i2c (example_i2c_s b)" "bus_idle example_i2c (example_i2c_s b)"
proof -
  have t: "nsecs_to_ticks (is_ticks example_i2c) (example_i2c_s b) = 5"
    by (simp add: nsecs_to_ticks_def timer_from_us_def example_i2c_def example_i2c_s_def bus_s.defs basecmd_s.defs idle_defs)
  have c: "bd_clock (example_i2c_s b) = (\<lambda>n. if even n then 0 else 0xFFFFFFFF)" by (simp add: example_i2c_s_def)
  have "\<exists>j<2. \<not> bd_clock (example_i2c_s b) n + 5 > bd_clock (example_i2c_s b) (Suc n + j)" for n
    by (cases "even n"; rule exI [of _ "if even n then 0 else 1"]) (simp_all add: c word_less_nat_alt)
  then show "delays_end 2 example_i2c (example_i2c_s b)" by (simp only: delays_end_def t) blast
qed (simp_all add: i2c_ok_def bus_idle_def example_i2c_def example_i2c_s_def)

lemma example_i2c_reads:
  "bd_inputs (example_i2c_s b) = (\<lambda>_ n. if n = 1 then of_bool b else of_bool (n > 2))" "bd_input_reads (example_i2c_s b) = 0"
  by (simp_all add: example_i2c_s_def bus_s.defs basecmd_s.defs idle_defs)

theorem i2c_write_waveform_witness:
  "\<exists>s'. i2c_software_write 2 example_i2c [0x0F, 3] (example_i2c_s True) = (Inl (Shut ''soft_i2c NACK''), s') \<and>
    seen (i2c_device 4 5) (example_i2c_s True) (Start # byte_events 0xA0 0 @ byte_events 0x0F 1) s'"
proof -
  have a: "sda_reads example_i2c (example_i2c_s True) (Suc (length [0x0F :: u8, 3])) = [0, 1, 0]"
    by (simp add: sda_reads_def example_i2c_reads upt_rec)
  have "acked [0xA0, 0x0F, 3] [0, 1, 0] = (byte_events 0xA0 0 @ byte_events 0x0F 1, False)" by (simp add: Let_def)
  then show ?thesis
    using i2c_write_waveform [OF example_i2c_ok(1) example_i2c_ok(2,3) [of True] refl, of "[0x0F, 3]"] unfolding a by (simp add: example_i2c_def)
qed

theorem i2c_read_waveform_witness:
  "\<exists>s'. i2c_software_read 2 example_i2c [7] 1 (example_i2c_s False) = (Inr [0xFF], s') \<and> bus_idle example_i2c s'"
proof -
  have z: "bd_inputs (example_i2c_s False) (is_sda_out example_i2c) k \<le> 1" for k by (simp add: example_i2c_reads)
  have z0: "bd_inputs (example_i2c_s False) (is_sda_out example_i2c) (bd_input_reads (example_i2c_s False) + j) = 0"
    if "j < length [7 :: u8] + 2" for j using that by (simp add: example_i2c_reads)
  have ne: "[7 :: u8] \<noteq> []" by simp
  obtain bs s' where r: "i2c_software_read 2 example_i2c [7] 1 (example_i2c_s False) = (Inr bs, s')" "length bs = 1"
      "bits_of bs = map (\<lambda>v. v = 1) (drop (length [7 :: u8] + 2) (sda_reads example_i2c (example_i2c_s False) (length [7 :: u8] + 2 + 8 * 1)))"
      "bus_idle example_i2c s'"
    using i2c_read_waveform [OF example_i2c_ok(1) example_i2c_ok(2,3) [of False] ne z z0 refl, of 1] by blast
  have "bits_of bs = replicate 8 True"
    unfolding r(3) by (simp add: sda_reads_def example_i2c_reads upt_rec numeral_eq_Suc)
  moreover obtain y where "bs = [y]" using r(2) by (auto simp: length_Suc_conv)
  moreover have "bits_of [0xFF] = replicate 8 True" 
    by (simp add: byte_bits_simps bit_iff_odd) (simp add: numeral_eq_Suc)
  ultimately have "byte_bits y = byte_bits 0xFF" "bs = [y]" by simp_all
  then have "bs = [0xFF]" using byte_bits_inject by auto
  then show ?thesis using r(1,4) by blast
qed

text \<open>
  The wait compares clocks without regard to their wrap-around: when its end lies beyond it,
  it is over after one reading.
\<close>

lemma i2c_delay_skipped:
  assumes "bd_clock s (bd_clock_reads s) + nsecs_to_ticks ticks s < bd_clock s (bd_clock_reads s)"
    and "bd_clock s (Suc (bd_clock_reads s)) = bd_clock s (bd_clock_reads s)"
  shows "i2c_delay (Suc k) ticks s = (Inr (), s\<lparr>bd_clock_reads := Suc (Suc (bd_clock_reads s))\<rparr>)"
  proof -
  have "\<not> bd_clock s (bd_clock_reads s) < bd_clock s (bd_clock_reads s) + nsecs_to_ticks ticks s"
    using assms(1) less_asym by blast
  then show ?thesis using assms(2) by (simp add: i2c_delay_def fw_simps nsecs_to_ticks_def timer_from_us_def)
qed

text \<open>A software bus stays in use when a hardware bus is set after it.\<close>

lemma i2c_software_bus_stays:
  assumes "oid_lookup (ucast oid) ''i2c'' s = (Inr i, s)" and "id_flags (i2cdevs s i) AND IF_SOFTWARE \<noteq> 0"
    and "i2c_setup hw bus rate (ucast (address AND 0x7f)) s = (Inr cfg, s)"
    and "command_i2c_set_bus hw [oid, bus, rate, address] s = (Inr (), s')"
  shows "dev_write hw k (i2cdevs s' i) data = dev_write hw k (i2cdevs s i) data"
proof -
  have "i2cdevs s' i = (i2cdevs s i)\<lparr>id_config := cfg, id_flags := id_flags (i2cdevs s i) OR IF_HARDWARE\<rparr>"
    using assms(1,3,4) by (auto simp: command_i2c_set_bus_def i2cdev_oid_lookup_def fw_simps)
  moreover have "(id_flags (i2cdevs s i) OR IF_HARDWARE) AND IF_SOFTWARE \<noteq> 0"
    using assms(2) by (simp add: bit.conj_disj_distrib2 or_eq_0_iff)
  ultimately show ?thesis using assms(2) by (simp add: dev_write_def)
qed

end
