(* ===== verification/Thermocouple.thy ===== *)
theory Thermocouple
  imports Spi "HOL-Library.Sublist"
begin

text \<open>
  Thermocouple chips on SPI (\<^verbatim>\<open>src/thermocouple.c\<close>): a timer wakes a task that reads the chip, reports
  the value and stops the machine after too many bad readings.  The timer of the sensor with id \<open>oid\<close>
  is \<open>T_obj oid 0\<close>.
\<close>

section \<open>State\<close>

definition TS_CHIP_MAX31855 :: u8 where "TS_CHIP_MAX31855 = 0"
definition TS_CHIP_MAX31856 :: u8 where "TS_CHIP_MAX31856 = 1"
definition TS_CHIP_MAX31865 :: u8 where "TS_CHIP_MAX31865 = 2"
definition TS_CHIP_MAX6675 :: u8 where "TS_CHIP_MAX6675 = 3"

record thermocouple =
  th_rest_time :: u32
  th_min_value :: u32
  th_max_value :: u32
  th_spi :: nat
  th_max_invalid :: u8
  th_invalid_count :: u8
  th_chip_type :: u8
  th_flags :: u8

definition zero_thermocouple :: thermocouple where
  "zero_thermocouple = \<lparr>th_rest_time = 0, th_min_value = 0, th_max_value = 0, th_spi = 0, th_max_invalid = 0,
    th_invalid_count = 0, th_chip_type = 0, th_flags = 0\<rparr>"

record thermocouple_s = spi_s +
  thermocouples :: "nat \<Rightarrow> thermocouple"

definition TS_PENDING :: u8 where "TS_PENDING = 1"

abbreviation thermocouple_upd :: "nat \<Rightarrow> (thermocouple \<Rightarrow> thermocouple) \<Rightarrow> ('a thermocouple_s_scheme, unit) fw" where
  "thermocouple_upd i f \<equiv> upd (\<lambda>s. s\<lparr>thermocouples := (thermocouples s)(i := f (thermocouples s i))\<rparr>)"

abbreviation thermocouple_time :: "nat \<Rightarrow> timer_id" where "thermocouple_time i \<equiv> T_obj i 0"

section \<open>Timer and commands\<close>

definition thermocouple_event :: "nat \<Rightarrow> ('a thermocouple_s_scheme, sf) fw" where
  "thermocouple_event i =
    thn (sched_wake_task ''thermocouple_wake'')
    (thn (thermocouple_upd i (\<lambda>t. t\<lparr>th_flags := th_flags t OR TS_PENDING\<rparr>))
    (thn (upd (\<lambda>s. set_wake (thermocouple_time i) (tm_wake s (thermocouple_time i) + th_rest_time (thermocouples s i)) s))
    (ret SF_RESCHEDULE)))"

definition command_config_thermocouple :: "nat \<Rightarrow> u32 list \<Rightarrow> ('a thermocouple_s_scheme, unit) fw" where
  "command_config_thermocouple sizeof_spi args = (case args of
      [oid, spi_oid, a_chip_type] \<Rightarrow>
        let chip_type = (ucast a_chip_type :: u8) in
        thn (shutdown_if (chip_type > TS_CHIP_MAX6675) ''Invalid thermocouple chip type'')
        (bnd (oid_alloc (ucast oid) ''thermocouple'' sizeof_spi) (\<lambda>i.
        thn (thermocouple_upd i (\<lambda>_. zero_thermocouple))
        (bnd (spidev_oid_lookup (ucast spi_oid)) (\<lambda>spi.
        thermocouple_upd i (\<lambda>t. t\<lparr>th_spi := spi, th_chip_type := chip_type\<rparr>)))))
    | _ \<Rightarrow> stuck)"

definition command_query_thermocouple :: "u32 list \<Rightarrow> ('a thermocouple_s_scheme, unit) fw" where
  "command_query_thermocouple args = (case args of
      [oid, clock, rest_ticks, min_value, max_value, max_invalid_count] \<Rightarrow>
        bnd (oid_lookup (ucast oid) ''thermocouple'') (\<lambda>i.
        thn (sched_del_timer (thermocouple_time i))
        (thn (upd (set_wake (thermocouple_time i) clock))
        (thn (thermocouple_upd i (\<lambda>t. t\<lparr>th_rest_time := rest_ticks\<rparr>))
        (if rest_ticks = 0 then ret ()
         else
           thn (thermocouple_upd i (\<lambda>t. t\<lparr>th_min_value := min_value, th_max_value := max_value,
             th_max_invalid := ucast max_invalid_count, th_invalid_count := 0\<rparr>))
           (sched_add_timer (thermocouple_time i))))))
    | _ \<Rightarrow> stuck)"

section \<open>Reading the chip\<close>

definition thermocouple_respond :: "nat \<Rightarrow> u32 \<Rightarrow> u32 \<Rightarrow> u8 \<Rightarrow> ('a thermocouple_s_scheme, unit) fw" where
  "thermocouple_respond i next_begin_time value fault =
    thn (sendf ''thermocouple_result oid=%c next_clock=%u value=%u fault=%c''
      [A_int (of_nat i), A_int next_begin_time, A_int value, A_int (ucast fault)])
    (bnd (gets (\<lambda>s. thermocouples s i)) (\<lambda>t.
    if fault \<noteq> 0 \<or> value < th_min_value t \<or> value > th_max_value t then
      thn (thermocouple_upd i (\<lambda>t. t\<lparr>th_invalid_count := th_invalid_count t + 1\<rparr>))
      (if th_invalid_count t + 1 < th_max_invalid t then ret ()
       else
         thn (sched_try_shutdown ''Thermocouple reader fault'')
         (thermocouple_upd i (\<lambda>t. t\<lparr>th_invalid_count := 0\<rparr>)))
    else thermocouple_upd i (\<lambda>t. t\<lparr>th_invalid_count := 0\<rparr>)))"

text \<open>\<^verbatim>\<open>be32_to_cpu\<close> and \<^verbatim>\<open>be16_to_cpu\<close> of bytes in memory.\<close>

fun be32 :: "u8 list \<Rightarrow> u32" where
  "be32 [a, b, c, d] = push_bit 24 (ucast a) OR push_bit 16 (ucast b) OR push_bit 8 (ucast c) OR ucast d"
| "be32 _ = 0"

fun be16 :: "u8 list \<Rightarrow> u16" where
  "be16 [a, b] = push_bit 8 (ucast a) OR ucast b"
| "be16 _ = 0"

definition thermocouple_handle_max31855 :: "'a thermocouple_s_scheme spi_hw \<Rightarrow> nat \<Rightarrow> u32 \<Rightarrow> ('a thermocouple_s_scheme, unit) fw" where
  "thermocouple_handle_max31855 hw i next_begin_time =
    bnd (gets (\<lambda>s. th_spi (thermocouples s i))) (\<lambda>spi.
    bnd (spidev_transfer hw spi True [0, 0, 0, 0]) (\<lambda>msg.
    let value = be32 msg in
    thermocouple_respond i next_begin_time value (ucast (value AND 0x07))))"

definition MAX31856_LTCBH_REG :: u8 where "MAX31856_LTCBH_REG = 0x0C"
definition MAX31856_SR_REG :: u8 where "MAX31856_SR_REG = 0x0F"

definition thermocouple_handle_max31856 :: "'a thermocouple_s_scheme spi_hw \<Rightarrow> nat \<Rightarrow> u32 \<Rightarrow> ('a thermocouple_s_scheme, unit) fw" where
  "thermocouple_handle_max31856 hw i next_begin_time =
    bnd (gets (\<lambda>s. th_spi (thermocouples s i))) (\<lambda>spi.
    bnd (spidev_transfer hw spi True [MAX31856_LTCBH_REG, 0, 0, 0]) (\<lambda>msg.
    let value = be32 msg AND 0x00ffffff in
    bnd (spidev_transfer hw spi True [MAX31856_SR_REG, 0]) (\<lambda>msg2.
    thermocouple_respond i next_begin_time value (msg2 ! 1))))"

definition MAX31865_RTDMSB_REG :: u8 where "MAX31865_RTDMSB_REG = 0x01"
definition MAX31865_FAULTSTAT_REG :: u8 where "MAX31865_FAULTSTAT_REG = 0x07"

definition thermocouple_handle_max31865 :: "'a thermocouple_s_scheme spi_hw \<Rightarrow> nat \<Rightarrow> u32 \<Rightarrow> ('a thermocouple_s_scheme, unit) fw" where
  "thermocouple_handle_max31865 hw i next_begin_time =
    bnd (gets (\<lambda>s. th_spi (thermocouples s i))) (\<lambda>spi.
    bnd (spidev_transfer hw spi True [MAX31865_RTDMSB_REG, 0, 0]) (\<lambda>msg.
    let value = drop_bit 8 (be32 (msg @ [0])) AND 0xffff in
    bnd (spidev_transfer hw spi True [MAX31865_FAULTSTAT_REG, 0]) (\<lambda>msg2.
    let fault = (msg2 ! 1 AND NOT 0x03) OR ucast (value AND 0x0001) in
    thermocouple_respond i next_begin_time value fault)))"

definition thermocouple_handle_max6675 :: "'a thermocouple_s_scheme spi_hw \<Rightarrow> nat \<Rightarrow> u32 \<Rightarrow> ('a thermocouple_s_scheme, unit) fw" where
  "thermocouple_handle_max6675 hw i next_begin_time =
    bnd (gets (\<lambda>s. th_spi (thermocouples s i))) (\<lambda>spi.
    bnd (spidev_transfer hw spi True [0, 0]) (\<lambda>msg.
    let value = be16 msg in
    thermocouple_respond i next_begin_time (ucast value) (ucast (value AND 0x06))))"

definition thermocouple_task :: "'a thermocouple_s_scheme spi_hw \<Rightarrow> ('a thermocouple_s_scheme, unit) fw" where
  "thermocouple_task hw =
    bnd (sched_check_wake ''thermocouple_wake'') (\<lambda>w.
    if \<not> w then ret ()
    else foreach_oid ''thermocouple'' (\<lambda>i.
      bnd (gets (\<lambda>s. thermocouples s i)) (\<lambda>t.
      if th_flags t AND TS_PENDING = 0 then ret ()
      else
        bnd (gets (\<lambda>s. tm_wake s (thermocouple_time i))) (\<lambda>next_begin_time.
        thn (thermocouple_upd i (\<lambda>t. t\<lparr>th_flags := th_flags t AND NOT TS_PENDING\<rparr>))
        (if th_chip_type t = TS_CHIP_MAX31855 then thermocouple_handle_max31855 hw i next_begin_time
         else if th_chip_type t = TS_CHIP_MAX31856 then thermocouple_handle_max31856 hw i next_begin_time
         else if th_chip_type t = TS_CHIP_MAX31865 then thermocouple_handle_max31865 hw i next_begin_time
         else if th_chip_type t = TS_CHIP_MAX6675 then thermocouple_handle_max6675 hw i next_begin_time
         else ret ())))))"

section \<open>Bad readings\<close>

definition bad_reading :: "thermocouple \<Rightarrow> u32 \<times> u8 \<Rightarrow> bool" where
  "bad_reading t r \<longleftrightarrow> snd r \<noteq> 0 \<or> fst r < th_min_value t \<or> fst r > th_max_value t"

text \<open>The responses to a sequence of readings, each a value and its fault bits.\<close>

fun respond_all :: "nat \<Rightarrow> u32 \<Rightarrow> (u32 \<times> u8) list \<Rightarrow> ('a thermocouple_s_scheme, unit) fw" where
  "respond_all i time [] = ret ()"
| "respond_all i time (r # rs) = thn (thermocouple_respond i time (fst r) (snd r)) (respond_all i time rs)"

text \<open>\<open>m\<close> in a row.\<close>

definition run_of :: "nat \<Rightarrow> bool list \<Rightarrow> bool" where
  "run_of m bs \<longleftrightarrow> sublist (replicate m True) bs"

lemma run_of_short: "c < m \<Longrightarrow> \<not> run_of m (replicate c True)"
  unfolding run_of_def using sublist_length_le by fastforce

lemma run_of_False: "c < m \<Longrightarrow> run_of m (replicate c True @ False # bs) \<longleftrightarrow> run_of m bs"
proof (induction c)
  case 0
  then obtain m' where "m = Suc m'" by (cases m) auto
  then show ?case by (simp add: run_of_def sublist_Cons_right)
next
  case (Suc c)
  have "\<not> prefix (replicate m True) (replicate (Suc c) True @ False # bs)"
  proof
    assume "prefix (replicate m True) (replicate (Suc c) True @ False # bs)"
    then have "(replicate (Suc c) True @ False # bs) ! Suc c = replicate m True ! Suc c"
      using Suc.prems by (metis length_replicate nth_append prefix_def)
    then show False using Suc.prems by (simp add: nth_append)
  qed
  then show ?case using Suc by (simp add: run_of_def sublist_Cons_right)
qed

lemma run_of_Suc: "run_of m (replicate m True @ bs)"
  by (simp add: run_of_def sublist_append)

lemma respond_bad:
  assumes "bad_reading (thermocouples s i) r" and "shutdown_status s = 0" and "th_max_invalid (thermocouples s i) = n"
  shows "thermocouple_respond i time (fst r) (snd r) s =
    (if th_invalid_count (thermocouples s i) + 1 < n
     then (Inr (), (snd (sendf ''thermocouple_result oid=%c next_clock=%u value=%u fault=%c''
        [A_int (of_nat i), A_int time, A_int (fst r), A_int (ucast (snd r))] s))
        \<lparr>thermocouples := (thermocouples s)(i := (thermocouples s i)\<lparr>th_invalid_count := th_invalid_count (thermocouples s i) + 1\<rparr>)\<rparr>)
     else (Inl (Shut ''Thermocouple reader fault''), snd (thermocouple_respond i time (fst r) (snd r) s)))"
proof -
  have k: "thermocouples (command_sendf m s) = thermocouples s" "shutdown_status (command_sendf m s) = shutdown_status s" for m
    by (simp_all add: command_sendf_def console_sendf_def Let_def)
  show ?thesis
    using assms by (simp add: thermocouple_respond_def fw_unfold sendf_def k bad_reading_def sched_try_shutdown_def)
qed

lemma respond_good:
  assumes "\<not> bad_reading (thermocouples s i) r"
  shows "thermocouple_respond i time (fst r) (snd r) s =
    (Inr (), (snd (sendf ''thermocouple_result oid=%c next_clock=%u value=%u fault=%c''
        [A_int (of_nat i), A_int time, A_int (fst r), A_int (ucast (snd r))] s))
        \<lparr>thermocouples := (thermocouples s)(i := (thermocouples s i)\<lparr>th_invalid_count := 0\<rparr>)\<rparr>)"
proof -
  have k: "thermocouples (command_sendf m s) = thermocouples s" for m
    by (simp add: command_sendf_def console_sendf_def Let_def)
  show ?thesis using assms by (simp add: thermocouple_respond_def fw_unfold sendf_def k bad_reading_def)
qed

lemma respond_all_run:
  assumes "m = max 1 (unat n)"
  shows "shutdown_status s = 0 \<Longrightarrow> th_max_invalid (thermocouples s i) = n \<Longrightarrow>
    th_min_value (thermocouples s i) = lo \<Longrightarrow> th_max_value (thermocouples s i) = hi \<Longrightarrow>
    unat (th_invalid_count (thermocouples s i)) = c \<Longrightarrow> c < m \<Longrightarrow>
    fst (respond_all i time rs s) =
      (if run_of m (replicate c True @ map (bad_reading (thermocouples s i)) rs)
       then Inl (Shut ''Thermocouple reader fault'') else Inr ())"
proof (induction rs arbitrary: s c)
  case Nil
  then show ?case by (simp add: ret_run run_of_short)
next
  case (Cons r rs)
  define t where "t = thermocouples s i"
  have same: "bad_reading t' = bad_reading t" if "th_min_value t' = lo" "th_max_value t' = hi" for t'
    using that Cons.prems(3,4) by (simp add: bad_reading_def fun_eq_iff t_def)
  have keep: "shutdown_status (snd (sendf f a s)\<lparr>thermocouples := x\<rparr>) = shutdown_status s" for f a x
    by (simp add: sendf_def upd_run command_sendf_def console_sendf_def Let_def)
  show ?case
  proof (cases "bad_reading t r")
    case True
    have cnt: "unat (th_invalid_count t + 1) = Suc c"
    proof -
      have "unat n < 256" using unsigned_less [of n] by simp
      then have "c < 255" using Cons.prems(6) assms by simp
      then show ?thesis using Cons.prems(5) by (simp add: t_def unat_word_ariths)
    qed
    show ?thesis
    proof (cases "Suc c < m")
      case True
      then have lt: "th_invalid_count t + 1 < n" using cnt assms by (simp add: word_less_nat_alt split: if_splits)
      define s1 where "s1 = snd (sendf ''thermocouple_result oid=%c next_clock=%u value=%u fault=%c''
        [A_int (of_nat i), A_int time, A_int (fst r), A_int (ucast (snd r))] s)
        \<lparr>thermocouples := (thermocouples s)(i := t\<lparr>th_invalid_count := th_invalid_count t + 1\<rparr>)\<rparr>"
      have f: "thermocouples s1 i = t\<lparr>th_invalid_count := th_invalid_count t + 1\<rparr>" "shutdown_status s1 = 0"
        using keep Cons.prems(1) by (simp_all add: s1_def)
      have "thermocouple_respond i time (fst r) (snd r) s = (Inr (), s1)"
        using respond_bad [OF _ Cons.prems(1,2), of r time] lt \<open>bad_reading t r\<close> by (simp add: s1_def t_def)
      moreover have "fst (respond_all i time rs s1) =
          (if run_of m (replicate (Suc c) True @ map (bad_reading (thermocouples s1 i)) rs)
           then Inl (Shut ''Thermocouple reader fault'') else Inr ())"
        using Cons.prems cnt True by (intro Cons.IH) (simp_all add: f t_def)
      ultimately show ?thesis using \<open>bad_reading t r\<close> same [of "thermocouples s1 i"] Cons.prems(3,4)
        by (simp add: thn_run bnd_Inr f t_def replicate_app_Cons_same)
    next
      case False
      then have m: "m = Suc c" using Cons.prems(6) by simp
      then have "\<not> th_invalid_count t + 1 < n" using cnt assms by (simp add: word_less_nat_alt split: if_splits)
      then have "fst (thermocouple_respond i time (fst r) (snd r) s) = Inl (Shut ''Thermocouple reader fault'')"
        using arg_cong [where f = fst, OF respond_bad [OF \<open>bad_reading t r\<close> [unfolded t_def] Cons.prems(1,2), of time]]
        by (simp only: t_def if_False fst_conv)
      then have "fst (respond_all i time (r # rs) s) = Inl (Shut ''Thermocouple reader fault'')"
        by (cases "thermocouple_respond i time (fst r) (snd r) s") (simp add: thn_run bnd_Inl)
      moreover have "run_of m (replicate c True @ True # bs)" for bs
        using run_of_Suc [of m bs] by (simp add: m replicate_app_Cons_same)
      ultimately show ?thesis using \<open>bad_reading t r\<close> by (simp add: t_def)
    qed
  next
    case False
    define s1 where "s1 = snd (sendf ''thermocouple_result oid=%c next_clock=%u value=%u fault=%c''
      [A_int (of_nat i), A_int time, A_int (fst r), A_int (ucast (snd r))] s)
      \<lparr>thermocouples := (thermocouples s)(i := t\<lparr>th_invalid_count := 0\<rparr>)\<rparr>"
    have f: "thermocouples s1 i = t\<lparr>th_invalid_count := 0\<rparr>" "shutdown_status s1 = 0"
      using keep Cons.prems(1) by (simp_all add: s1_def)
    have "thermocouple_respond i time (fst r) (snd r) s = (Inr (), s1)"
      using respond_good [of s i r time] False by (simp add: s1_def t_def)
    moreover have "fst (respond_all i time rs s1) =
        (if run_of m (replicate 0 True @ map (bad_reading (thermocouples s1 i)) rs)
         then Inl (Shut ''Thermocouple reader fault'') else Inr ())"
      using Cons.prems by (intro Cons.IH) (simp_all add: f t_def)
    ultimately show ?thesis using False same [of "thermocouples s1 i"] Cons.prems
      by (simp add: thn_run bnd_Inr f t_def run_of_False)
  qed
qed

text \<open>
  C25: bad readings stop the machine.  After a query the firmware shuts down exactly when as many readings
  in a row as \<open>max_invalid_count\<close> are outside the range or report a fault (one, when the count is 0),
  whatever the readings before and between were.
\<close>

theorem thermocouple_faults_stop:
  assumes "shutdown_status s = 0" and "t = thermocouples s i" and "th_invalid_count t = 0"
  shows "fst (respond_all i time rs s) =
    (if run_of (max 1 (unat (th_max_invalid t))) (map (bad_reading t) rs)
     then Inl (Shut ''Thermocouple reader fault'') else Inr ())"
  using respond_all_run [OF refl assms(1) refl refl refl, of i 0 time rs] assms(2,3) by simp

definition example_thermocouple_s :: thermocouple_s where
  "example_thermocouple_s = spi_s.extend example_spi_s
    \<lparr>thermocouples = (\<lambda>_. zero_thermocouple\<lparr>th_min_value := 10, th_max_value := 20, th_max_invalid := 2\<rparr>)\<rparr>"

theorem thermocouple_faults_stop_witness:
  "fst (respond_all 0 0 [(15, 0), (5, 0), (15, 1), (15, 0)] example_thermocouple_s) =
    Inl (Shut ''Thermocouple reader fault'')"
proof -
  have f: "thermocouples example_thermocouple_s 0 = zero_thermocouple\<lparr>th_min_value := 10, th_max_value := 20, th_max_invalid := 2\<rparr>"
      "shutdown_status example_thermocouple_s = 0"
    by (simp_all add: example_thermocouple_s_def example_spi_s_def spi_s.defs bus_s.defs basecmd_s.defs idle_defs)
  have "map (bad_reading (thermocouples example_thermocouple_s 0)) [(15, 0), (5, 0), (15, 1), (15, 0)] = [False, True, True, False]"
    by (simp add: bad_reading_def f)
  moreover have "replicate (max 1 (unat (th_max_invalid (thermocouples example_thermocouple_s 0)))) True = [True, True]"
    by (simp add: f) (simp add: replicate_Suc [symmetric] numeral_2_eq_2 del: replicate_Suc)?
  then have "run_of (max 1 (unat (th_max_invalid (thermocouples example_thermocouple_s 0)))) [False, True, True, False]"
    by (simp add: run_of_def sublist_Cons_right)
  ultimately show ?thesis
    using thermocouple_faults_stop [OF f(2) refl, of 0 0 "[(15, 0), (5, 0), (15, 1), (15, 0)]"]
    by (simp only: f zero_thermocouple_def thermocouple.simps if_True)
qed

end
