(* ===== verification/Canserial.thy ===== *)
theory Canserial
  imports Serial_irq
begin

text \<open>
  The console over CAN (\<^verbatim>\<open>src/generic/canserial.c\<close>, with the pass-through functions of
  \<^verbatim>\<open>src/generic/canbus.c\<close>): frames received by the interrupt carry console bytes or admin
  commands, which assign the node its identifier; replies leave in frames of up to eight bytes.  The
  receive buffer is that of theory Rx_queue, the transmit buffer that of theory Serial_irq.  What
  the controller answers to a frame that is to be sent is an input of the state.
\<close>

section \<open>State\<close>

record canbus_msg =
  cm_id :: u32
  cm_dlc :: u32
  cm_data :: "u8 list"

definition CANMSG_DATA_LEN :: "canbus_msg \<Rightarrow> nat" where
  "CANMSG_DATA_LEN msg = (if cm_dlc msg > 8 then 8 else unat (cm_dlc msg))"

definition CANBUS_ID_ADMIN :: u32 where "CANBUS_ID_ADMIN = 0x3f0"
definition CANBUS_ID_ADMIN_RESP :: u32 where "CANBUS_ID_ADMIN_RESP = 0x3f1"

record can_s = serial_s +
  can_assigned_id :: u32
  can_uuid :: "u8 list"
  can_tx :: serial_tx
  admin_pull_pos :: u32
  admin_push_pos :: u32
  admin_queue :: "canbus_msg list"
  can_filter :: u32
  can_sent :: "canbus_msg list"
  can_results :: "nat \<Rightarrow> int"
  can_sends :: nat

text \<open>The controller takes a frame when its answer is positive; otherwise it has no room.\<close>

definition canbus_send :: "canbus_msg \<Rightarrow> ('a can_s_scheme, int) fw" where
  "canbus_send msg =
    bnd (gets (\<lambda>s. can_results s (can_sends s))) (\<lambda>r.
    thn (upd (\<lambda>s. s\<lparr>can_sends := Suc (can_sends s), can_sent := can_sent s @ (if r > 0 then [msg] else [])\<rparr>))
    (ret r))"

definition canbus_set_filter :: "u32 \<Rightarrow> ('a can_s_scheme, unit) fw" where
  "canbus_set_filter new_id = upd (\<lambda>s. s\<lparr>can_filter := new_id\<rparr>)"

section \<open>Transmitting\<close>

definition canserial_notify_tx :: "('a can_s_scheme, unit) fw" where
  "canserial_notify_tx = sched_wake_task ''can_tx_wake''"

text \<open>The loop of \<^verbatim>\<open>canserial_tx_task\<close>; it returns the new position.\<close>

function tx_loop :: "u32 \<Rightarrow> nat \<Rightarrow> nat \<Rightarrow> ('a can_s_scheme, nat) fw" where
  "tx_loop txid tmax tpos =
    (let avail = tmax - tpos; now = (if avail > 8 then 8 else avail) in
     if avail = 0 then ret tpos
     else
       bnd (gets (\<lambda>s. take now (drop tpos (transmit_buf (can_tx s))))) (\<lambda>data.
       bnd (canbus_send \<lparr>cm_id = txid, cm_dlc = of_nat now, cm_data = data\<rparr>) (\<lambda>r.
       if r \<le> 0 then ret tpos else tx_loop txid tmax (tpos + now))))"
  by pat_completeness auto

termination
  by (relation "measure (\<lambda>(_, tmax, tpos). tmax - tpos)") auto

declare tx_loop.simps [simp del]

definition canserial_tx_task :: "('a can_s_scheme, unit) fw" where
  "canserial_tx_task =
    bnd (sched_check_wake ''can_tx_wake'') (\<lambda>w.
    if \<not> w then ret ()
    else
      bnd (gets can_assigned_id) (\<lambda>id.
      if id = 0 then upd (\<lambda>s. s\<lparr>can_tx := (can_tx s)\<lparr>transmit_pos := 0, transmit_max := 0\<rparr>\<rparr>)
      else
        bnd (gets can_tx) (\<lambda>tx.
        bnd (tx_loop (id + 1) (transmit_max tx) (transmit_pos tx)) (\<lambda>tpos.
        upd (\<lambda>s. s\<lparr>can_tx := (can_tx s)\<lparr>transmit_pos := tpos\<rparr>\<rparr>)))))"

text \<open>The result tells whether the message was queued.\<close>

definition can_console_sendf :: "u8 \<Rightarrow> command_encoder \<Rightarrow> varg list \<Rightarrow> ('a can_s_scheme, bool) fw" where
  "can_console_sendf next_seq ce args =
    thn (upd (\<lambda>s. if transmit_pos (can_tx s) \<ge> transmit_max (can_tx s)
      then s\<lparr>can_tx := (can_tx s)\<lparr>transmit_pos := 0, transmit_max := 0\<rparr>\<rparr> else s))
    (bnd (gets can_tx) (\<lambda>tx.
    let tpos = transmit_pos tx; tmax = transmit_max tx; max_size = ce_max_size ce; size = length (transmit_buf tx) in
    if tmax + max_size > size \<and> tmax + max_size - tpos > size then ret False
    else
      thn (if tmax + max_size > size then
             upd (\<lambda>s. s\<lparr>can_tx := (can_tx s)\<lparr>transmit_buf := move_down 0 tpos (tmax - tpos) (transmit_buf tx),
               transmit_pos := 0, transmit_max := tmax - tpos\<rparr>\<rparr>)
           else ret ())
      (bnd (gets can_tx) (\<lambda>tx.
      let tmax = transmit_max tx in
      case command_encode_and_frame next_seq (drop tmax (transmit_buf tx)) ce args of
        None \<Rightarrow> stuck
      | Some (Inl e) \<Rightarrow> shutdown e
      | Some (Inr (buf, msglen)) \<Rightarrow>
          thn (upd (\<lambda>s. s\<lparr>can_tx := (can_tx s)\<lparr>transmit_buf := take tmax (transmit_buf tx) @ buf,
            transmit_max := tmax + msglen\<rparr>\<rparr>))
          (thn canserial_notify_tx (ret True))))))"

section \<open>Admin commands\<close>

definition CANBUS_CMD_QUERY_UNASSIGNED :: u8 where "CANBUS_CMD_QUERY_UNASSIGNED = 0x00"
definition CANBUS_CMD_SET_KLIPPER_NODEID :: u8 where "CANBUS_CMD_SET_KLIPPER_NODEID = 0x01"
definition CANBUS_CMD_REQUEST_BOOTLOADER :: u8 where "CANBUS_CMD_REQUEST_BOOTLOADER = 0x02"
definition CANBUS_RESP_NEED_NODEID :: u8 where "CANBUS_RESP_NEED_NODEID = 0x20"

lemmas can_consts = CANBUS_ID_ADMIN_def CANBUS_ID_ADMIN_RESP_def CANBUS_CMD_QUERY_UNASSIGNED_def
  CANBUS_CMD_SET_KLIPPER_NODEID_def CANBUS_CMD_REQUEST_BOOTLOADER_def CANBUS_RESP_NEED_NODEID_def

definition can_check_uuid :: "canbus_msg \<Rightarrow> 'a can_s_scheme \<Rightarrow> bool" where
  "can_check_uuid msg s \<longleftrightarrow> cm_dlc msg \<ge> 7 \<and> take 6 (drop 1 (cm_data msg)) = can_uuid s"

definition can_get_nodeid :: "'a can_s_scheme \<Rightarrow> u32" where
  "can_get_nodeid s = (if can_assigned_id s = 0 then 0 else drop_bit 1 (can_assigned_id s - 0x100))"

definition can_decode_nodeid :: "u8 \<Rightarrow> u32" where
  "can_decode_nodeid nodeid = push_bit 1 (ucast nodeid) + 0x100"

text \<open>The loop that sends until the controller takes the frame, for at most \<open>k\<close> attempts.\<close>

fun send_retry :: "nat \<Rightarrow> canbus_msg \<Rightarrow> ('a can_s_scheme, unit) fw" where
  "send_retry 0 msg = stuck"
| "send_retry (Suc k) msg = bnd (canbus_send msg) (\<lambda>r. if r \<ge> 0 then ret () else send_retry k msg)"

definition can_process_query_unassigned :: "nat \<Rightarrow> ('a can_s_scheme, unit) fw" where
  "can_process_query_unassigned k =
    bnd (gets can_assigned_id) (\<lambda>id.
    if id \<noteq> 0 then ret ()
    else
      bnd (gets can_uuid) (\<lambda>uuid.
      send_retry k \<lparr>cm_id = CANBUS_ID_ADMIN_RESP, cm_dlc = 8,
        cm_data = [CANBUS_RESP_NEED_NODEID] @ uuid @ [CANBUS_CMD_SET_KLIPPER_NODEID]\<rparr>))"

definition can_id_conflict :: "('a can_s_scheme, unit) fw" where
  "can_id_conflict =
    thn (upd (\<lambda>s. s\<lparr>can_assigned_id := 0\<rparr>))
    (thn (canbus_set_filter 0)
    (shutdown ''Another CAN node assigned this ID''))"

definition can_process_set_klipper_nodeid :: "canbus_msg \<Rightarrow> ('a can_s_scheme, unit) fw" where
  "can_process_set_klipper_nodeid msg =
    (if cm_dlc msg < 8 then ret ()
     else
       let newid = can_decode_nodeid (cm_data msg ! 7) in
       bnd (gets (\<lambda>s. (can_check_uuid msg s, can_assigned_id s))) (\<lambda>(mine, id).
       if mine then
         if newid \<noteq> id then thn (upd (\<lambda>s. s\<lparr>can_assigned_id := newid\<rparr>)) (canbus_set_filter newid)
         else ret ()
       else if newid = id then can_id_conflict
       else ret ()))"

text \<open>\<open>boot\<close> is the board's \<^verbatim>\<open>bootloader_request\<close>, when it is configured.\<close>

definition can_process_request_bootloader :: "('a can_s_scheme, unit) fw option \<Rightarrow> canbus_msg \<Rightarrow> ('a can_s_scheme, unit) fw" where
  "can_process_request_bootloader boot msg =
    bnd (gets (can_check_uuid msg)) (\<lambda>mine.
    case boot of None \<Rightarrow> ret () | Some b \<Rightarrow> if mine then b else ret ())"

definition can_process_admin :: "nat \<Rightarrow> ('a can_s_scheme, unit) fw option \<Rightarrow> canbus_msg \<Rightarrow> ('a can_s_scheme, unit) fw" where
  "can_process_admin k boot msg =
    (if cm_dlc msg = 0 then ret ()
     else if cm_data msg ! 0 = CANBUS_CMD_QUERY_UNASSIGNED then can_process_query_unassigned k
     else if cm_data msg ! 0 = CANBUS_CMD_SET_KLIPPER_NODEID then can_process_set_klipper_nodeid msg
     else if cm_data msg ! 0 = CANBUS_CMD_REQUEST_BOOTLOADER then can_process_request_bootloader boot msg
     else ret ())"

section \<open>Receiving\<close>

definition canserial_notify_rx :: "('a can_s_scheme, unit) fw" where
  "canserial_notify_rx = sched_wake_task ''can_rx_wake''"

definition canserial_process_data :: "canbus_msg \<Rightarrow> 'a can_s_scheme \<Rightarrow> 'a can_s_scheme" where
  "canserial_process_data msg s =
    (let id = cm_id msg in
     if can_assigned_id s \<noteq> 0 \<and> id = can_assigned_id s then
       let rpos = receive_pos s; len = CANMSG_DATA_LEN msg in
       if len > length (receive_buf s) - rpos then s
       else snd (canserial_notify_rx (s\<lparr>receive_buf := take rpos (receive_buf s) @ take len (cm_data msg) @ drop (rpos + len) (receive_buf s),
         receive_pos := rpos + len\<rparr>))
     else if id = CANBUS_ID_ADMIN \<or> (can_assigned_id s \<noteq> 0 \<and> id = can_assigned_id s + 1) then
       let pushp = admin_push_pos s in
       if pushp \<ge> admin_pull_pos s + 8 then s
       else snd (canserial_notify_rx (s\<lparr>admin_queue := (admin_queue s)[unat pushp mod 8 := msg], admin_push_pos := pushp + 1\<rparr>))
     else s)"

definition can_receive :: "canbus_msg list \<Rightarrow> 'a can_s_scheme \<Rightarrow> 'a can_s_scheme" where
  "can_receive msgs s = fold canserial_process_data msgs s"

definition can_pop_input :: "canbus_msg list list \<Rightarrow> nat \<Rightarrow> ('a can_s_scheme, unit) fw" where
  "can_pop_input irqs len = pop_loop (\<lambda>s. snd (canserial_notify_rx s)) can_receive irqs len 0"

text \<open>The message at the head of the admin queue.\<close>

definition can_handle :: "nat \<Rightarrow> ('a can_s_scheme, unit) fw option \<Rightarrow> canbus_msg \<Rightarrow> ('a can_s_scheme, unit) fw" where
  "can_handle k boot msg =
    bnd (gets can_assigned_id) (\<lambda>id.
    if id \<noteq> 0 \<and> cm_id msg = id + 1 then can_id_conflict
    else if cm_id msg = CANBUS_ID_ADMIN then can_process_admin k boot msg
    else ret ())"

text \<open>
  The loop over the admin queue, for at most \<open>n\<close> passes; the elements of \<open>irqs\<close> are received before
  each pass.
\<close>

fun admin_loop :: "nat \<Rightarrow> nat \<Rightarrow> ('a can_s_scheme, unit) fw option \<Rightarrow> canbus_msg list list \<Rightarrow> ('a can_s_scheme, unit) fw" where
  "admin_loop 0 k boot irqs = stuck"
| "admin_loop (Suc n) k boot irqs =
    thn (upd (can_receive (case irqs of [] \<Rightarrow> [] | msgs # _ \<Rightarrow> msgs)))
    (bnd (gets admin_push_pos) (\<lambda>pushp.
    bnd (gets admin_pull_pos) (\<lambda>pullp.
    if pushp = pullp then ret ()
    else
      bnd (gets (\<lambda>s. admin_queue s ! (unat pullp mod 8))) (\<lambda>msg.
      thn (can_handle k boot msg)
      (thn (upd (\<lambda>s. s\<lparr>admin_pull_pos := pullp + 1\<rparr>))
      (admin_loop n k boot (tl irqs)))))))"

text \<open>
  \<open>msgs\<close> is received while the block is dispatched, \<open>irqs\<close> in the passes over the admin queue and \<open>irqs'\<close>
  while the block is removed.
\<close>

definition canserial_rx_task :: "nat \<Rightarrow> nat \<Rightarrow> 'a can_s_scheme command_parser list \<Rightarrow> ('a can_s_scheme, unit) fw option \<Rightarrow>
    canbus_msg list list \<Rightarrow> canbus_msg list \<Rightarrow> canbus_msg list list \<Rightarrow> ('a can_s_scheme, unit) fw" where
  "canserial_rx_task n k command_index boot irqs msgs irqs' =
    bnd (sched_check_wake ''can_rx_wake'') (\<lambda>w.
    if \<not> w then ret ()
    else
      thn (admin_loop n k boot irqs)
      (\<lambda>s. case command_find_block (take (receive_pos s) (receive_buf s)) s of (r, pop_count, s1) \<Rightarrow>
        thn (if r > 0 then command_dispatch command_index (receive_buf s) pop_count else ret ())
        (if r = 0 then ret ()
         else
           thn (upd (can_receive msgs))
           (thn (can_pop_input irqs' pop_count)
           (if r > 0 then command_send_ack else ret ()))) s1))"

section \<open>Setup and shutdown\<close>

definition command_get_canbus_id :: "('a can_s_scheme, unit) fw" where
  "command_get_canbus_id s =
    sendf ''canbus_id canbus_uuid=%.*s canbus_nodeid=%u'' [A_bytes (can_uuid s), A_int (can_get_nodeid s)] s"

text \<open>\<open>fasthash64\<close> is the function of the library of that name; the identifier is stored little endian.\<close>

definition canserial_set_uuid :: "(u8 list \<Rightarrow> u64 \<Rightarrow> u64) \<Rightarrow> u8 list \<Rightarrow> ('a can_s_scheme, unit) fw" where
  "canserial_set_uuid fasthash64 raw_uuid =
    (let hash = fasthash64 raw_uuid 0xA16231A7 in
     thn (upd (\<lambda>s. s\<lparr>can_uuid := map (\<lambda>i. ucast (drop_bit (8 * i) hash)) [0..<6]\<rparr>))
     canserial_notify_rx)"

definition canserial_shutdown :: "('a can_s_scheme, unit) fw" where
  "canserial_shutdown = thn canserial_notify_tx canserial_notify_rx"

section \<open>The transmitter\<close>

lemma can_make_space:
  "make_space 0 m tx =
    (if transmit_max tx + m > length (transmit_buf tx) then
       if transmit_max tx + m - transmit_pos tx > length (transmit_buf tx) then None
       else Some ([], tx\<lparr>transmit_buf := move_down 0 (transmit_pos tx) (transmit_max tx - transmit_pos tx) (transmit_buf tx),
         transmit_pos := 0, transmit_max := transmit_max tx - transmit_pos tx, tx_irq := True\<rparr>)
     else Some ([], tx))"
  by (simp add: make_space_def Let_def)

text \<open>
  \<^verbatim>\<open>console_sendf\<close> over CAN does to the buffer what the serial one does when no interrupt runs.
\<close>

definition same_tx :: "serial_tx \<Rightarrow> serial_tx \<Rightarrow> bool" where
  "same_tx a b \<longleftrightarrow> transmit_buf a = transmit_buf b \<and> transmit_pos a = transmit_pos b \<and> transmit_max a = transmit_max b"

lemma can_sendf_serial:
  "fst (can_console_sendf seq ce args s) = map_sum id fst (fst (console_sendf_serial 0 seq ce args (can_tx s))) \<and>
    same_tx (can_tx (snd (can_console_sendf seq ce args s))) (snd (console_sendf_serial 0 seq ce args (can_tx s)))"
  by (simp add: can_console_sendf_def console_sendf_serial_def can_make_space fw_unfold canserial_notify_tx_def
      sched_wake_task_def sched_wake_tasks_def Let_def same_tx_def split: option.splits sum.splits prod.splits)

definition can_frame_ok :: "u32 \<Rightarrow> canbus_msg \<Rightarrow> bool" where
  "can_frame_ok a m \<longleftrightarrow> cm_id m = a + 1 \<and> cm_data m \<noteq> [] \<and> length (cm_data m) \<le> 8 \<and> cm_dlc m = of_nat (length (cm_data m))"

lemma tx_loop_sends:
  assumes "tx_ok (can_tx s)" and "tmax = transmit_max (can_tx s)" and "tpos \<le> tmax"
  shows "\<exists>tpos' s' new. tx_loop (a + 1) tmax tpos s = (Inr tpos', s') \<and> tpos \<le> tpos' \<and> tpos' \<le> tmax \<and>
    can_tx s' = can_tx s \<and> can_assigned_id s' = can_assigned_id s \<and> can_sent s' = can_sent s @ new \<and>
    (\<forall>m\<in>set new. can_frame_ok a m) \<and> concat (map cm_data new) = take (tpos' - tpos) (drop tpos (transmit_buf (can_tx s)))"
  using assms
proof (induction "tmax - tpos" arbitrary: tpos s rule: less_induct)
  case less
  let ?now = "if tmax - tpos > 8 then 8 else tmax - tpos"
  show ?case
  proof (cases "tmax = tpos")
    case True
    then show ?thesis by (intro exI [of _ tpos] exI [of _ s] exI [of _ "[]"]) (simp add: tx_loop.simps [of _ tpos tpos] ret_run)
  next
    case False
    define data where "data = take ?now (drop tpos (transmit_buf (can_tx s)))"
    define msg where "msg = \<lparr>cm_id = a + 1, cm_dlc = of_nat ?now, cm_data = data\<rparr>"
    have len: "length data = ?now" using less.prems by (auto simp: data_def tx_ok_def min_def)
    have now: "0 < ?now" "?now \<le> 8" "tpos + ?now \<le> tmax" using False less.prems(3) by (auto split: if_splits)
    define r where "r = can_results s (can_sends s)"
    define s1 where "s1 = s\<lparr>can_sends := Suc (can_sends s), can_sent := can_sent s @ (if r > 0 then [msg] else [])\<rparr>"
    have run: "tx_loop (a + 1) tmax tpos s = (if r \<le> 0 then (Inr tpos, s1) else tx_loop (a + 1) tmax (tpos + ?now) s1)"
      using False less.prems(3) by (subst tx_loop.simps) (simp add: fw_unfold canbus_send_def Let_def s1_def r_def msg_def data_def)
    have f: "can_tx s1 = can_tx s" "can_assigned_id s1 = can_assigned_id s" by (simp_all add: s1_def)
    show ?thesis
    proof (cases "r \<le> 0")
      case True
      then show ?thesis using run f less.prems(3)
        by (intro exI [of _ tpos] exI [of _ s1] exI [of _ "[]"]) (simp add: s1_def)
    next
      case False
      have ok: "can_frame_ok a msg" using now len by (auto simp: can_frame_ok_def msg_def)
      have lt: "tmax - (tpos + ?now) < tmax - tpos" using now by linarith
      obtain tpos' s' new where r': "tx_loop (a + 1) tmax (tpos + ?now) s1 = (Inr tpos', s')" "tpos + ?now \<le> tpos'" "tpos' \<le> tmax"
          "can_tx s' = can_tx s1" "can_assigned_id s' = can_assigned_id s1" "can_sent s' = can_sent s1 @ new"
          "\<forall>m\<in>set new. can_frame_ok a m"
          "concat (map cm_data new) = take (tpos' - (tpos + ?now)) (drop (tpos + ?now) (transmit_buf (can_tx s1)))"
        using less.hyps [OF lt, of s1] less.prems now(3) f by auto
      have split: "tpos' - tpos = ?now + (tpos' - (tpos + ?now))" using r'(2) by linarith
      have "data @ concat (map cm_data new) = take (tpos' - tpos) (drop tpos (transmit_buf (can_tx s)))"
        unfolding split r'(8) f take_add data_def by (simp add: add.commute)
      then show ?thesis using run False r' f ok
        by (intro exI [of _ tpos'] exI [of _ s'] exI [of _ "msg # new"]) (simp add: s1_def msg_def)
    qed
  qed
qed

text \<open>
  Messages are queued, the transmit task runs and other code leaves the transmitter alone, in any
  order; the frames of the messages queued are collected.
\<close>

inductive can_tx_steps :: "'a can_s_scheme \<Rightarrow> u8 list list \<Rightarrow> 'a can_s_scheme \<Rightarrow> bool" where
  can_tx_refl: "can_tx_steps s [] s"
| can_tx_task: "can_tx_steps s frames s1 \<Longrightarrow> canserial_tx_task s1 = (r, s2) \<Longrightarrow> can_tx_steps s frames s2"
| can_tx_send: "can_tx_steps s frames s1 \<Longrightarrow> encodes_to seq ce args frame \<Longrightarrow>
    can_console_sendf seq ce args s1 = (Inr acc, s2) \<Longrightarrow> can_tx_steps s (if acc then frames @ [frame] else frames) s2"
| can_tx_other: "can_tx_steps s frames s1 \<Longrightarrow> can_tx s2 = can_tx s1 \<Longrightarrow> can_sent s2 = can_sent s1 \<Longrightarrow>
    can_assigned_id s2 = can_assigned_id s1 \<Longrightarrow> can_tx_steps s frames s2"

lemma same_tx_content: "same_tx a b \<Longrightarrow> tx_content a = tx_content b \<and> tx_ok a = tx_ok b"
  by (simp add: same_tx_def tx_content_def tx_ok_def)

lemma make_space_no_irq: "make_space 0 m tx = Some (bs, tx') \<Longrightarrow> bs = []"
  by (simp add: can_make_space split: if_splits)

lemma serial_sendf_no_irq:
  assumes "console_sendf_serial 0 seq ce args tx = (Inr (acc, bs), tx')"
  shows "bs = []"
proof (cases "make_space 0 (ce_max_size ce) (if transmit_pos tx \<ge> transmit_max tx then tx\<lparr>transmit_max := 0, transmit_pos := 0\<rparr> else tx)")
  case None
  then show ?thesis using assms by (simp add: console_sendf_serial_def)
next
  case (Some r)
  then have "fst r = []" using make_space_no_irq [of _ _ "fst r" "snd r"] by simp
  then show ?thesis using assms Some by (cases r) (simp add: console_sendf_serial_def Let_def split: option.splits sum.splits prod.splits)
qed

lemma can_sendf_content:
  assumes "tx_ok (can_tx s)" and "encodes_to seq ce args frame" and "can_console_sendf seq ce args s = (Inr acc, s')"
  shows "tx_ok (can_tx s') \<and> tx_content (can_tx s') = tx_content (can_tx s) @ (if acc then frame else [])"
proof -
  obtain acc' bs tx' where t: "console_sendf_serial 0 seq ce args (can_tx s) = (Inr (acc', bs), tx')" "tx_ok tx'"
      "bs @ tx_content tx' = tx_content (can_tx s) @ (if acc' then frame else [])"
    using sendf_content [OF assms(1,2)] by blast
  have "bs = []" by (rule serial_sendf_no_irq [OF t(1)])
  moreover have "Inr acc = map_sum id fst (Inr (acc', bs) :: stop + bool \<times> u8 list)" "same_tx (can_tx s') tx'"
    using can_sendf_serial [of seq ce args s] unfolding t(1) assms(3) by (simp_all only: fst_conv snd_conv)
  ultimately show ?thesis using t(2,3) same_tx_content [of "can_tx s'" tx'] by simp
qed

lemma can_sendf_keeps:
  "can_console_sendf seq ce args s = (r, s') \<Longrightarrow> can_sent s' = can_sent s \<and> can_assigned_id s' = can_assigned_id s"
  by (auto simp: can_console_sendf_def fw_unfold canserial_notify_tx_def sched_wake_task_def sched_wake_tasks_def Let_def
      split: option.splits sum.splits prod.splits if_splits)

lemma tx_task_sends:
  assumes "tx_ok (can_tx s)" and "can_assigned_id s = a" and "a \<noteq> 0" and "canserial_tx_task s = (r, s')"
  shows "\<exists>new. can_sent s' = can_sent s @ new \<and> (\<forall>m\<in>set new. can_frame_ok a m) \<and>
    concat (map cm_data new) @ tx_content (can_tx s') = tx_content (can_tx s) \<and> tx_ok (can_tx s') \<and> can_assigned_id s' = a"
proof (cases "task_wakes s ''can_tx_wake'' = 0")
  case True
  then have "s' = s" using assms(4) by (simp add: canserial_tx_task_def sched_check_wake_def fw_unfold)
  then show ?thesis using assms by (intro exI [of _ "[]"]) simp
next
  case False
  define s1 where "s1 = s\<lparr>task_wakes := (task_wakes s)(''can_tx_wake'' := 0)\<rparr>"
  let ?tx = "can_tx s"
  have f: "can_tx s1 = ?tx" "can_assigned_id s1 = a" "can_sent s1 = can_sent s" using assms(2) by (simp_all add: s1_def)
  have ok: "transmit_pos ?tx \<le> transmit_max ?tx" "transmit_max ?tx \<le> length (transmit_buf ?tx)"
    using assms(1) by (simp_all add: tx_ok_def)
  obtain tpos' s2 new where l: "tx_loop (a + 1) (transmit_max ?tx) (transmit_pos ?tx) s1 = (Inr tpos', s2)"
      "transmit_pos ?tx \<le> tpos'" "tpos' \<le> transmit_max ?tx" "can_tx s2 = can_tx s1" "can_assigned_id s2 = can_assigned_id s1"
      "can_sent s2 = can_sent s1 @ new" "\<forall>m\<in>set new. can_frame_ok a m"
      "concat (map cm_data new) = take (tpos' - transmit_pos ?tx) (drop (transmit_pos ?tx) (transmit_buf ?tx))"
    using tx_loop_sends [of s1 "transmit_max ?tx" "transmit_pos ?tx" a] assms(1) ok(1) f by auto
  have s': "s' = s2\<lparr>can_tx := ?tx\<lparr>transmit_pos := tpos'\<rparr>\<rparr>"
    using assms(3,4) False l(1,4) f by (simp add: canserial_tx_task_def sched_check_wake_def fw_unfold s1_def [symmetric])
  have "take (tpos' - transmit_pos ?tx) (drop (transmit_pos ?tx) (transmit_buf ?tx)) @
      drop tpos' (take (transmit_max ?tx) (transmit_buf ?tx)) = tx_content ?tx"
  proof -
    have e: "tpos' = (tpos' - transmit_pos ?tx) + transmit_pos ?tx" using l(2) by simp
    have "take (tpos' - transmit_pos ?tx) (drop (transmit_pos ?tx) (transmit_buf ?tx)) = take (tpos' - transmit_pos ?tx) (tx_content ?tx)"
      using l(2,3) by (simp add: tx_content_def drop_take min_def)
    moreover have "drop tpos' (take (transmit_max ?tx) (transmit_buf ?tx)) = drop (tpos' - transmit_pos ?tx) (tx_content ?tx)"
      by (subst e) (simp add: tx_content_def)
    ultimately show ?thesis by simp
  qed
  then show ?thesis using l f assms(1) by (intro exI [of _ new]) (simp add: s' tx_content_def tx_ok_def)
qed

text \<open>
  C19: over CAN the console sends whole messages in order.  Whatever messages are queued, and however often
  the controller is busy, the data of the frames it took, followed by what waits in the transmit
  buffer, are the frames of the messages queued, one after the other; every frame holds one to eight bytes and
  the identifier after the assigned one.
\<close>

theorem can_sends_frames_in_order:
  assumes "can_tx_steps s frames s'" and "tx_ok (can_tx s)" and "can_assigned_id s = a" and "a \<noteq> 0"
  shows "\<exists>new. can_sent s' = can_sent s @ new \<and> (\<forall>m\<in>set new. can_frame_ok a m) \<and>
    concat (map cm_data new) @ tx_content (can_tx s') = tx_content (can_tx s) @ concat frames \<and>
    tx_ok (can_tx s') \<and> can_assigned_id s' = a"
  using assms
proof (induction rule: can_tx_steps.induct)
  case (can_tx_task s frames s1 r s2)
  then obtain new where n: "can_sent s1 = can_sent s @ new" "\<forall>m\<in>set new. can_frame_ok a m"
      "concat (map cm_data new) @ tx_content (can_tx s1) = tx_content (can_tx s) @ concat frames" "tx_ok (can_tx s1)"
      "can_assigned_id s1 = a" by blast
  obtain new2 where t: "can_sent s2 = can_sent s1 @ new2" "\<forall>m\<in>set new2. can_frame_ok a m"
      "concat (map cm_data new2) @ tx_content (can_tx s2) = tx_content (can_tx s1)" "tx_ok (can_tx s2)" "can_assigned_id s2 = a"
    using tx_task_sends [OF n(4,5) can_tx_task.prems(3) can_tx_task.hyps(2)] by blast
  then show ?case using n by (intro exI [of _ "new @ new2"]) auto
next
  case (can_tx_send s frames s1 seq ce args frame acc s2)
  then obtain new where n: "can_sent s1 = can_sent s @ new" "\<forall>m\<in>set new. can_frame_ok a m"
      "concat (map cm_data new) @ tx_content (can_tx s1) = tx_content (can_tx s) @ concat frames" "tx_ok (can_tx s1)"
      "can_assigned_id s1 = a" by blast
  note c = can_sendf_content [OF n(4) can_tx_send.hyps(2,3)] and k = can_sendf_keeps [OF can_tx_send.hyps(3)]
  have "concat (map cm_data new) @ tx_content (can_tx s2) = (tx_content (can_tx s) @ concat frames) @ (if acc then frame else [])"
    using c n(3) by (metis append_assoc)
  then show ?case using n(1,2,5) c k by (intro exI [of _ new]) simp
next
  case (can_tx_other s frames s1 s2)
  then show ?case by auto
qed simp

definition empty_can_s :: can_s where
  "empty_can_s = serial_s.extend (sched_s.extend (sched_init idle_command_s) \<lparr>receive_buf = replicate 192 0, receive_pos = 0\<rparr>)
    \<lparr>can_assigned_id = 0x102, can_uuid = [1, 2, 3, 4, 5, 6], can_tx = empty_tx, admin_pull_pos = 0, admin_push_pos = 0,
     admin_queue = replicate 8 \<lparr>cm_id = 0, cm_dlc = 0, cm_data = replicate 8 0\<rparr>, can_filter = 0x102, can_sent = [],
     can_results = (\<lambda>n. if n = 0 then 8 else - 1), can_sends = 0\<rparr>"

theorem can_sends_frames_in_order_witness:
  "\<exists>s'. can_tx_steps empty_can_s [mk_frame 0x11 [0x42, 7, 0x7f]] s' \<and>
    concat (map cm_data (can_sent s')) @ tx_content (can_tx s') = mk_frame 0x11 [0x42, 7, 0x7f]"
proof -
  have f: "can_tx empty_can_s = empty_tx" "can_sent empty_can_s = []" "can_assigned_id empty_can_s = 0x102"
    by (simp_all add: empty_can_s_def serial_s.defs)
  have ok: "tx_ok (can_tx empty_can_s)" by (simp add: f tx_ok_def empty_tx_def)
  have c: "tx_content (can_tx empty_can_s) = []" by (simp add: f tx_content_def empty_tx_def)
  let ?send = "can_console_sendf 0x11 example_encoder (map VA_int [7, 0xffffffff]) empty_can_s"
  obtain bs tx' where t: "console_sendf_serial 0 0x11 example_encoder (map VA_int [7, 0xffffffff]) empty_tx = (Inr (True, bs), tx')"
  proof -
    obtain acc bs tx' where t: "console_sendf_serial 0 0x11 example_encoder (map VA_int [7, 0xffffffff]) empty_tx = (Inr (acc, bs), tx')"
        "\<not> acc \<longrightarrow> length (tx_content empty_tx) + ce_max_size example_encoder > 96"
      using sendf_content [OF ok [unfolded f] example_encodes] by blast
    have acc using t(2) c by (auto simp: f example_encoder_def)
    then show ?thesis using that t(1) by simp
  qed
  have "fst ?send = Inr True" using can_sendf_serial [where seq = "0x11" and ce = example_encoder and args = "map VA_int [7, 0xffffffff]" and s = empty_can_s] t
    by (simp only: f fst_conv map_sum.simps)
  then obtain s1 where s1: "?send = (Inr True, s1)" by (cases ?send) simp
  have st: "can_tx_steps empty_can_s [mk_frame 0x11 [0x42, 7, 0x7f]] s1"
    using can_tx_steps.can_tx_send [OF can_tx_steps.can_tx_refl example_encodes s1] by simp
  obtain r s2 where s2: "canserial_tx_task s1 = (r, s2)" by fastforce
  have st2: "can_tx_steps empty_can_s [mk_frame 0x11 [0x42, 7, 0x7f]] s2" by (rule can_tx_steps.can_tx_task [OF st s2])
  obtain new where "can_sent s2 = can_sent empty_can_s @ new"
      "concat (map cm_data new) @ tx_content (can_tx s2) = tx_content (can_tx empty_can_s) @ concat [mk_frame 0x11 [0x42, 7, 0x7f]]"
    using can_sends_frames_in_order [OF st2 ok f(3)] by auto
  then show ?thesis using st2 c f by (intro exI [of _ s2]) simp
qed

section \<open>The admin queue\<close>

text \<open>
  The ring is a queue of at most eight messages, as long as fewer than \<open>2 ^ 32\<close> of them have arrived; \<open>n\<close>
  more can arrive.
\<close>

definition admin_ok :: "nat \<Rightarrow> 'a can_s_scheme \<Rightarrow> bool" where
  "admin_ok n s \<longleftrightarrow> length (admin_queue s) = 8 \<and> unat (admin_pull_pos s) \<le> unat (admin_push_pos s) \<and>
    unat (admin_push_pos s) \<le> unat (admin_pull_pos s) + 8 \<and> unat (admin_push_pos s) + n + 8 < 2 ^ 32"

definition admin_content :: "'a can_s_scheme \<Rightarrow> canbus_msg list" where
  "admin_content s = map (\<lambda>i. admin_queue s ! ((unat (admin_pull_pos s) + i) mod 8))
    [0..<unat (admin_push_pos s) - unat (admin_pull_pos s)]"

definition is_admin :: "u32 \<Rightarrow> canbus_msg \<Rightarrow> bool" where
  "is_admin a m \<longleftrightarrow> \<not> (a \<noteq> 0 \<and> cm_id m = a) \<and> (cm_id m = CANBUS_ID_ADMIN \<or> (a \<noteq> 0 \<and> cm_id m = a + 1))"

fun arrive :: "u32 \<Rightarrow> canbus_msg list \<Rightarrow> canbus_msg list \<Rightarrow> canbus_msg list" where
  "arrive a q [] = q"
| "arrive a q (m # ms) = arrive a (if is_admin a m \<and> length q < 8 then q @ [m] else q) ms"

lemma unat_plus_small: "unat x + k < 2 ^ 32 \<Longrightarrow> k < 2 ^ 32 \<Longrightarrow> unat (x + of_nat k :: u32) = unat x + k"
  by (simp add: unat_word_ariths unat_of_nat take_bit_eq_mod)

lemma notify_rx_keeps [simp]:
  "snd (canserial_notify_rx s) = s\<lparr>tasks_status := TS_REQUESTED, task_wakes := (task_wakes s)(''can_rx_wake'' := 1)\<rparr>"
  by (simp add: canserial_notify_rx_def sched_wake_task_def sched_wake_tasks_def fw_unfold)

lemma process_data_admin:
  assumes "admin_ok (Suc n) s"
  shows "admin_ok n (canserial_process_data m s) \<and> can_assigned_id (canserial_process_data m s) = can_assigned_id s \<and>
    admin_content (canserial_process_data m s) = arrive (can_assigned_id s) (admin_content s) [m]"
proof -
  let ?push = "unat (admin_push_pos s)" and ?pull = "unat (admin_pull_pos s)" and ?a = "can_assigned_id s"
  have ok: "length (admin_queue s) = 8" "?pull \<le> ?push" "?push \<le> ?pull + 8" "?push + Suc n + 8 < 2 ^ 32"
    using assms by (simp_all add: admin_ok_def)
  have len: "length (admin_content s) = ?push - ?pull" by (simp add: admin_content_def)
  have p8: "unat (admin_pull_pos s + 8) = ?pull + 8" using unat_plus_small [of "admin_pull_pos s" 8] ok by simp
  have p1: "unat (admin_push_pos s + 1) = ?push + 1" using unat_plus_small [of "admin_push_pos s" 1] ok by simp
  show ?thesis
  proof (cases "?a \<noteq> 0 \<and> cm_id m = ?a \<or> \<not> is_admin ?a m \<or> admin_push_pos s \<ge> admin_pull_pos s + 8")
    case True
    have "?push - ?pull \<ge> 8" if "admin_push_pos s \<ge> admin_pull_pos s + 8" using that p8 ok by (simp add: word_le_nat_alt)
    then have "admin_content (canserial_process_data m s) = admin_content s \<and> admin_ok n (canserial_process_data m s) \<and>
        can_assigned_id (canserial_process_data m s) = ?a"
      using True ok by (auto simp: canserial_process_data_def is_admin_def admin_content_def admin_ok_def Let_def)
    moreover have "arrive ?a (admin_content s) [m] = admin_content s"
      using True len p8 by (auto simp: is_admin_def word_le_nat_alt)
    ultimately show ?thesis by simp
  next
    case False
    then have lt: "?push < ?pull + 8" using p8 by (simp add: word_le_nat_alt)
    define s1 where "s1 = s\<lparr>admin_queue := (admin_queue s)[?push mod 8 := m], admin_push_pos := admin_push_pos s + 1,
      tasks_status := TS_REQUESTED, task_wakes := (task_wakes s)(''can_rx_wake'' := 1)\<rparr>"
    have run: "canserial_process_data m s = s1"
      using False by (auto simp: canserial_process_data_def is_admin_def Let_def s1_def)
    have other: "(?pull + i) mod 8 \<noteq> ?push mod 8" if "i < ?push - ?pull" for i
    proof
      assume eq: "(?pull + i) mod 8 = ?push mod 8"
      have "(?push - (?pull + i)) mod 8 = 0" using eq that mod_eq_dvd_iff_nat [of "?pull + i" ?push 8] by auto
      moreover have "0 < ?push - (?pull + i)" "?push - (?pull + i) < 8" using that lt by linarith+
      ultimately show False by simp
    qed
    have upd: "(admin_queue s)[?push mod 8 := m] ! ((?pull + i) mod 8) = admin_queue s ! ((?pull + i) mod 8)"
      if "i < ?push - ?pull" for i using other [OF that] by (metis nth_list_update_neq)
    have "Suc ?push - ?pull = Suc (?push - ?pull)" using ok by simp
    then have "admin_content s1 = admin_content s @ [m]"
      using upd ok p1 by (simp add: admin_content_def s1_def)
    moreover have "admin_ok n s1" using ok lt p1 by (simp add: admin_ok_def s1_def)
    moreover have "arrive ?a (admin_content s) [m] = admin_content s @ [m]" using False len lt by simp
    ultimately show ?thesis by (simp add: run) (simp add: s1_def)
  qed
qed

lemma receive_admin:
  "admin_ok (length ms + n) s \<Longrightarrow> admin_ok n (can_receive ms s) \<and> can_assigned_id (can_receive ms s) = can_assigned_id s \<and>
    admin_content (can_receive ms s) = arrive (can_assigned_id s) (admin_content s) ms"
proof (induction ms arbitrary: s)
  case (Cons m ms)
  have "admin_ok (Suc (length ms + n)) s" using Cons.prems by simp
  from process_data_admin [OF this, of m] Cons.IH [of "canserial_process_data m s"]
  show ?case by (simp add: can_receive_def split: if_splits)
qed (simp add: can_receive_def)

definition same_admin :: "'a can_s_scheme \<Rightarrow> 'a can_s_scheme \<Rightarrow> bool" where
  "same_admin s s' \<longleftrightarrow> admin_queue s' = admin_queue s \<and> admin_push_pos s' = admin_push_pos s \<and> admin_pull_pos s' = admin_pull_pos s"

lemma same_admin_refl [simp]: "same_admin s s"
  by (simp add: same_admin_def)

lemma send_retry_keeps: "send_retry k m s = (r, s') \<Longrightarrow> same_admin s s'"
proof (induction k arbitrary: s)
  case (Suc k)
  obtain x s1 where x: "canbus_send m s = (x, s1)" "same_admin s s1"
    by (simp add: canbus_send_def fw_unfold same_admin_def)
  show ?case
  proof (cases x)
    case (Inl e)
    then show ?thesis using Suc.prems x by (simp add: bnd_def)
  next
    case (Inr v)
    then have "(if v \<ge> 0 then ret () else send_retry k m) s1 = (r, s')" using Suc.prems x(1) by (simp add: bnd_def)
    then have "same_admin s1 s'" using Suc.IH by (cases "v \<ge> 0") (auto simp: ret_def same_admin_def)
    then show ?thesis using x(2) by (simp add: same_admin_def)
  qed
qed (simp add: stuck_def same_admin_def)

lemma can_handle_keeps:
  assumes "\<And>b s r s'. boot = Some b \<Longrightarrow> b s = (r, s') \<Longrightarrow> same_admin s s'" and "can_handle k boot m s = (r, s')"
  shows "same_admin s s'"
proof -
  have q: "same_admin s s'" if "can_process_query_unassigned k s = (r, s')" for r s'
    using that by (cases "can_assigned_id s = 0")
      (auto simp: can_process_query_unassigned_def bnd_def gets_def ret_def same_admin_refl dest: send_retry_keeps)
  have c: "same_admin s s'" if "can_id_conflict s = (r, s')" for r s'
    using that by (auto simp: can_id_conflict_def canbus_set_filter_def fw_unfold same_admin_def)
  have n: "same_admin s s'" if "can_process_set_klipper_nodeid m s = (r, s')" for r s'
    using that c by (auto simp: can_process_set_klipper_nodeid_def canbus_set_filter_def fw_unfold Let_def same_admin_def split: if_splits)
  have b: "same_admin s s'" if "can_process_request_bootloader boot m s = (r, s')" for r s'
    using that assms(1) by (auto simp: can_process_request_bootloader_def bnd_def gets_def ret_def same_admin_def split: option.splits if_splits)
  show ?thesis
    using assms(2) q c n b unfolding can_handle_def can_process_admin_def bnd_def gets_def
    by (auto simp: ret_def same_admin_refl split: if_splits)
qed

text \<open>The loop over a queue that is a list.\<close>

fun admin_spec :: "nat \<Rightarrow> nat \<Rightarrow> ('a can_s_scheme, unit) fw option \<Rightarrow> canbus_msg list list \<Rightarrow> canbus_msg list \<Rightarrow> ('a can_s_scheme, unit) fw" where
  "admin_spec 0 k boot irqs q = stuck"
| "admin_spec (Suc n) k boot irqs q =
    (let ms = (case irqs of [] \<Rightarrow> [] | msgs # _ \<Rightarrow> msgs) in
     bnd (gets can_assigned_id) (\<lambda>a.
     thn (upd (can_receive ms))
     (case arrive a q ms of
        [] \<Rightarrow> ret ()
      | m # q' \<Rightarrow>
          thn (can_handle k boot m)
          (thn (upd (\<lambda>s. s\<lparr>admin_pull_pos := admin_pull_pos s + 1\<rparr>))
          (admin_spec n k boot (tl irqs) q')))))"

text \<open>
  C20: the admin commands of a CAN node are handled in the order of their arrival, each once.  The loop over
  the ring of eight messages does what the same loop does over a list, to which the interrupt
  appends admin messages as long as it has fewer than eight; also when messages arrive between
  the passes, and when a message ends in a shutdown.
\<close>

theorem admin_ring_is_queue:
  assumes "\<And>b s r s'. boot = Some b \<Longrightarrow> b s = (r, s') \<Longrightarrow> same_admin s s'"
    and "admin_ok (length (concat irqs)) s"
  shows "admin_loop n k boot irqs s = admin_spec n k boot irqs (admin_content s) s"
  using assms(2)
proof (induction n arbitrary: irqs s)
  case (Suc n)
  define ms where "ms = (case irqs of [] \<Rightarrow> [] | msgs # _ \<Rightarrow> msgs)"
  have irqs: "length (concat irqs) = length ms + length (concat (tl irqs))" by (cases irqs) (simp_all add: ms_def)
  define s1 where "s1 = can_receive ms s"
  have r: "admin_ok (length (concat (tl irqs))) s1" "admin_content s1 = arrive (can_assigned_id s) (admin_content s) ms"
    using receive_admin [of ms "length (concat (tl irqs))" s] Suc.prems irqs by (simp_all add: s1_def)
  note ok = r(1) [unfolded admin_ok_def]
  show ?case
  proof (cases "admin_push_pos s1 = admin_pull_pos s1")
    case True
    then have "admin_content s1 = []" by (simp add: admin_content_def)
    then show ?thesis using True r(2) by (simp add: fw_simps ms_def [symmetric] s1_def [symmetric])
  next
    case False
    define m where "m = admin_queue s1 ! (unat (admin_pull_pos s1) mod 8)"
    define q where "q = map (\<lambda>i. admin_queue s1 ! ((unat (admin_pull_pos s1) + Suc i) mod 8))
      [0..<unat (admin_push_pos s1) - Suc (unat (admin_pull_pos s1))]"
    have lt: "unat (admin_pull_pos s1) < unat (admin_push_pos s1)"
      using False ok by (simp add: le_less word_unat_eq_iff)
    have cont: "admin_content s1 = m # q"
    proof -
      have "unat (admin_push_pos s1) - unat (admin_pull_pos s1) = Suc (unat (admin_push_pos s1) - Suc (unat (admin_pull_pos s1)))"
        using lt by simp
      then show ?thesis by (simp add: admin_content_def m_def q_def upt_conv_Cons map_Suc_upt [symmetric] o_def del: upt_Suc)
    qed
    obtain x s2 where x: "can_handle k boot m s1 = (x, s2)" by fastforce
    have k2: "same_admin s1 s2" by (rule can_handle_keeps [OF assms(1) x])
    define s3 where "s3 = s2\<lparr>admin_pull_pos := admin_pull_pos s1 + 1\<rparr>"
    have p1: "unat (admin_pull_pos s1 + 1) = unat (admin_pull_pos s1) + 1"
      using unat_plus_small [of "admin_pull_pos s1" 1] ok by simp
    have "admin_ok (length (concat (tl irqs))) s3" "admin_content s3 = q"
      using ok k2 p1 lt by (simp_all add: admin_ok_def admin_content_def same_admin_def s3_def q_def)
    then have "admin_loop n k boot (tl irqs) s3 = admin_spec n k boot (tl irqs) q s3" using Suc.IH [of "tl irqs" s3] by simp
    then show ?thesis
      using False x k2 cont r(2)
      by (cases x) (simp_all add: fw_simps ms_def [symmetric] s1_def [symmetric] m_def [symmetric] same_admin_def s3_def)
  qed
qed simp

text \<open>A conflict shuts the node down, and the message that caused it is not handled again.\<close>

definition example_admin_msg :: "u8 \<Rightarrow> canbus_msg" where
  "example_admin_msg nodeid = \<lparr>cm_id = CANBUS_ID_ADMIN, cm_dlc = 8, cm_data = [1, 1, 2, 3, 4, 5, 6, nodeid]\<rparr>"

definition example_admin_s :: can_s where
  "example_admin_s = empty_can_s
    \<lparr>admin_queue := [example_admin_msg 7, example_admin_msg 9] @ replicate 6 (example_admin_msg 0), admin_push_pos := 2\<rparr>"

theorem admin_ring_is_queue_witness:
  "admin_loop 5 1 None [[]] example_admin_s = admin_spec 5 1 None [[]] [example_admin_msg 7, example_admin_msg 9] example_admin_s"
proof -
  have f: "admin_queue example_admin_s = [example_admin_msg 7, example_admin_msg 9] @ replicate 6 (example_admin_msg 0)"
      "admin_push_pos example_admin_s = 2" "admin_pull_pos example_admin_s = 0"
    by (simp_all add: example_admin_s_def empty_can_s_def serial_s.defs)
  have ok: "admin_ok (length (concat [[]])) example_admin_s" by (simp add: admin_ok_def f)
  have c: "admin_content example_admin_s = [example_admin_msg 7, example_admin_msg 9]"
    by (simp add: admin_content_def f upt_rec)
  show ?thesis using admin_ring_is_queue [where boot = None, OF _ ok, of 5 1] unfolding c by simp
qed

text \<open>Only a message with the identifier of this node changes its address, but for a conflict.\<close>

lemma nodeid_assigned:
  assumes "can_handle k boot m s = (r, s')" and "boot = None" and "cm_id m = CANBUS_ID_ADMIN" and "can_assigned_id s + 1 \<noteq> CANBUS_ID_ADMIN"
  shows "can_assigned_id s' =
    (if cm_dlc m \<ge> 8 \<and> cm_data m ! 0 = CANBUS_CMD_SET_KLIPPER_NODEID then
       (if can_check_uuid m s then can_decode_nodeid (cm_data m ! 7)
        else if can_decode_nodeid (cm_data m ! 7) = can_assigned_id s then 0 else can_assigned_id s)
     else can_assigned_id s)"
proof -
  have retry: "can_assigned_id s' = can_assigned_id s" if "send_retry k m s = (r, s')" for k m and s :: "'a can_s_scheme" and r s'
    using that
  proof (induction k arbitrary: s)
    case (Suc k)
    obtain x s1 where x: "canbus_send m s = (Inr x, s1)" "can_assigned_id s1 = can_assigned_id s"
      by (simp add: canbus_send_def fw_unfold)
    then have "(if x \<ge> 0 then ret () else send_retry k m) s1 = (r, s')" using Suc.prems by (simp add: bnd_def)
    then show ?case using Suc.IH x(2) by (cases "x \<ge> 0") (auto simp: ret_def)
  qed (simp add: stuck_def)
  have nz: "cm_dlc m \<ge> 8 \<Longrightarrow> cm_dlc m \<noteq> 0" by (auto simp: word_le_nat_alt)
  have q: "can_assigned_id s' = can_assigned_id s" if "can_process_query_unassigned k s = (r, s')" for r s'
    using that retry by (cases "can_assigned_id s = 0") (auto simp: can_process_query_unassigned_def bnd_def gets_def ret_def)
  show ?thesis
  proof (cases "cm_dlc m \<noteq> 0 \<and> cm_data m ! 0 = CANBUS_CMD_SET_KLIPPER_NODEID")
    case True
    then have "can_process_set_klipper_nodeid m s = (r, s')"
      using assms by (auto simp: can_handle_def can_process_admin_def bnd_def gets_def can_consts split: if_splits)
    then show ?thesis using True
      by (auto simp: can_process_set_klipper_nodeid_def can_id_conflict_def canbus_set_filter_def fw_unfold Let_def not_less
          split: if_splits)
  next
    case False
    then have "can_assigned_id s' = can_assigned_id s"
      using assms q by (auto simp: can_handle_def can_process_admin_def can_process_request_bootloader_def bnd_def gets_def ret_def split: if_splits)
    then show ?thesis using False nz by auto
  qed
qed

text \<open>
  When nearly \<open>2 ^ 32\<close> messages have arrived, the sum of the ring's check wraps and the empty ring takes
  no message any more.
\<close>

lemma admin_queue_wraps:
  assumes "admin_pull_pos s = 0xfffffff8" and "admin_push_pos s = 0xfffffff8" and "is_admin (can_assigned_id s) m"
  shows "canserial_process_data m s = s"
  using assms by (auto simp: canserial_process_data_def is_admin_def Let_def)

section \<open>The receive buffer\<close>

definition can_msg_ok :: "canbus_msg \<Rightarrow> bool" where
  "can_msg_ok m \<longleftrightarrow> length (cm_data m) = 8"

text \<open>What frames append to a buffer that holds \<open>n\<close> bytes, at the node with identifier \<open>a\<close>.\<close>

fun can_bytes :: "u32 \<Rightarrow> canbus_msg list \<Rightarrow> nat \<Rightarrow> u8 list" where
  "can_bytes a [] n = []"
| "can_bytes a (m # ms) n =
    (if a \<noteq> 0 \<and> cm_id m = a \<and> n + CANMSG_DATA_LEN m \<le> RX_BUFFER_SIZE
     then take (CANMSG_DATA_LEN m) (cm_data m) @ can_bytes a ms (n + CANMSG_DATA_LEN m)
     else can_bytes a ms n)"

lemma data_len_le: "CANMSG_DATA_LEN m \<le> 8"
  by (simp add: CANMSG_DATA_LEN_def word_le_nat_alt not_less)

lemma process_data_content:
  assumes "rx_ok s" and "can_msg_ok m"
  shows "rx_ok (canserial_process_data m s) \<and> can_assigned_id (canserial_process_data m s) = can_assigned_id s \<and>
    rx_content (canserial_process_data m s) = rx_content s @ can_bytes (can_assigned_id s) [m] (length (rx_content s))"
proof (cases "can_assigned_id s \<noteq> 0 \<and> cm_id m = can_assigned_id s \<and> receive_pos s + CANMSG_DATA_LEN m \<le> RX_BUFFER_SIZE")
  case True
  let ?n = "CANMSG_DATA_LEN m" and ?p = "receive_pos s"
  define s1 where "s1 = s\<lparr>receive_buf := take ?p (receive_buf s) @ take ?n (cm_data m) @ drop (?p + ?n) (receive_buf s),
    receive_pos := ?p + ?n, tasks_status := TS_REQUESTED, task_wakes := (task_wakes s)(''can_rx_wake'' := 1)\<rparr>"
  have len: "length (receive_buf s) = RX_BUFFER_SIZE" using assms(1) by (simp add: rx_ok_def)
  have "\<not> ?n > length (receive_buf s) - ?p" using True len by linarith
  then have run: "canserial_process_data m s = s1" using True by (simp add: canserial_process_data_def Let_def s1_def)
  have n: "length (take ?n (cm_data m)) = ?n" using assms(2) data_len_le [of m] by (simp add: can_msg_ok_def)
  have l: "length (take ?p (receive_buf s)) = ?p" using assms(1) by (simp add: rx_ok_def)
  have "rx_ok s1" using True len n l unfolding rx_ok_def s1_def by (simp del: length_take)
  moreover have "rx_content s1 = rx_content s @ take ?n (cm_data m)"
    using True len n l unfolding rx_content_def s1_def by (simp del: length_take)
  ultimately show ?thesis using True rx_content_length [OF assms(1)] by (simp add: run) (simp add: s1_def)
next
  case False
  then show ?thesis using assms(1) rx_content_length [OF assms(1)]
    by (auto simp: canserial_process_data_def Let_def rx_ok_def rx_content_def)
qed

lemma receive_content:
  "rx_ok s \<Longrightarrow> list_all can_msg_ok ms \<Longrightarrow> rx_ok (can_receive ms s) \<and> can_assigned_id (can_receive ms s) = can_assigned_id s \<and>
    rx_content (can_receive ms s) = rx_content s @ can_bytes (can_assigned_id s) ms (length (rx_content s))"
proof (induction ms arbitrary: s)
  case (Cons m ms)
  note p = process_data_content [OF Cons.prems(1), of m]
  have n: "length (take (CANMSG_DATA_LEN m) (cm_data m)) = CANMSG_DATA_LEN m"
    using Cons.prems(2) data_len_le [of m] by (simp add: can_msg_ok_def)
  show ?case using Cons.IH [of "canserial_process_data m s"] p Cons.prems n
    by (auto simp: can_receive_def simp del: length_take)
qed (simp add: can_receive_def)

interpretation can_rx: rx_interrupt "\<lambda>s. snd (canserial_notify_rx s)" can_receive "can_bytes a"
    "\<lambda>s. can_assigned_id s = a" "list_all can_msg_ok" for a
  by unfold_locales (simp_all add: receive_content)

text \<open>
  The receive buffer over CAN is a queue of whole frames.  Removing a block keeps the bytes after it and
  appends the data of the frames that arrive meanwhile for this node, each whole or, when it does not fit,
  not at all; other frames leave the buffer alone, and the removal always ends.
\<close>

theorem can_pop_keeps_frames:
  assumes "rx_ok s" and "len \<le> length (rx_content s)" and "list_all (list_all can_msg_ok) irqs"
    and "a = can_assigned_id s"
  shows "\<exists>n s'. can_pop_input irqs len s = (Inr (), s') \<and> rx_ok s' \<and> can_assigned_id s' = a \<and>
    rx_content s' = drop len (foldl (\<lambda>c ms. c @ can_bytes a ms (length c)) (rx_content s) (take n irqs))"
  using can_rx.pop_input_content [OF assms(1) _ assms(2,3), of a] assms(4)
  unfolding can_pop_input_def can_rx.rx_extended_def by simp

theorem can_pop_keeps_frames_witness:
  "\<exists>s'. can_pop_input [[\<lparr>cm_id = 0x102, cm_dlc = 2, cm_data = [9, 8, 0, 0, 0, 0, 0, 0]\<rparr>]] 3
      (empty_can_s\<lparr>receive_pos := 5\<rparr>) = (Inr (), s') \<and>
    rx_content s' \<in> {[0, 0], [0, 0, 9, 8]}"
proof -
  let ?s = "empty_can_s\<lparr>receive_pos := 5\<rparr>" and ?m = "\<lparr>cm_id = 0x102, cm_dlc = 2, cm_data = [9, 8, 0, 0, 0, 0, 0, 0 :: u8]\<rparr>"
  have f: "receive_buf ?s = replicate 192 0" "receive_pos ?s = 5" "can_assigned_id ?s = 0x102"
    by (simp_all add: empty_can_s_def serial_s.defs sched_s.defs)
  have ok: "rx_ok ?s" by (simp add: rx_ok_def f RX_BUFFER_SIZE_def)
  have c: "rx_content ?s = replicate 5 0" by (simp add: rx_content_def f)
  have "\<exists>n s'. can_pop_input [[?m]] 3 ?s = (Inr (), s') \<and> rx_ok s' \<and> can_assigned_id s' = 0x102 \<and>
      rx_content s' = drop 3 (foldl (\<lambda>c ms. c @ can_bytes 0x102 ms (length c)) (rx_content ?s) (take n [[?m]]))"
    by (rule can_pop_keeps_frames [OF ok]) (simp_all add: c f can_msg_ok_def)
  then obtain n s' where r: "can_pop_input [[?m]] 3 ?s = (Inr (), s')"
      "rx_content s' = drop 3 (foldl (\<lambda>c ms. c @ can_bytes 0x102 ms (length c)) (replicate 5 0) (take n [[?m]]))"
    unfolding c by blast
  have d: "CANMSG_DATA_LEN ?m = 2" by (simp add: CANMSG_DATA_LEN_def)
  have "can_bytes 0x102 [?m] 5 = [9, 8]" by (simp add: d RX_BUFFER_SIZE_def)
  then have "rx_content s' \<in> {drop 3 (replicate 5 0), drop 3 (replicate 5 0 @ [9, 8])}"
    using r(2) by (cases n) simp_all
  moreover have "drop 3 (replicate 5 (0 :: u8)) = [0, 0]" by (simp add: numeral_eq_Suc)
  ultimately have "rx_content s' \<in> {[0, 0], [0, 0, 9, 8]}" by simp
  then show ?thesis using r(1) by blast
qed

end
