(* ===== verification/Neopixel.thy ===== *)
theory Neopixel
  imports Bus
begin

text \<open>
  Neopixel LEDs (\<^verbatim>\<open>src/neopixel.c\<close>), with the timing of every micro-controller but AVR.  A bit is
  a high pulse, short or long.  Every change of the pin is recorded with the number of the last reading of
  the clock; the record has no influence on what the code does.  The wait for the reset time polls for
  interrupts (\<^verbatim>\<open>irq_poll\<close>); what other timers do meanwhile is not modelled.
\<close>

section \<open>State\<close>

record neopixel =
  np_pin :: u32
  np_bit_max_ticks :: u32
  np_last_req_time :: u32
  np_reset_min_ticks :: u32
  np_data_size :: u16
  np_data :: "u8 list"

record neopixel_s = basecmd_s +
  neopixels :: "nat \<Rightarrow> neopixel"
  pulse_log :: "(bool \<times> nat) list"

abbreviation neopixel_upd :: "nat \<Rightarrow> (neopixel \<Rightarrow> neopixel) \<Rightarrow> ('a neopixel_s_scheme, unit) fw" where
  "neopixel_upd i f \<equiv> upd (\<lambda>s. s\<lparr>neopixels := (neopixels s)(i := f (neopixels s i))\<rparr>)"

text \<open>The last reading of the clock: its number, and the clock it returned.\<close>

definition last_reading :: "'a board_scheme \<Rightarrow> nat" where
  "last_reading s = bd_clock_reads s - 1"

definition last_read :: "'a board_scheme \<Rightarrow> u32" where
  "last_read s = bd_clock s (last_reading s)"

definition pulse_toggle :: "u32 \<Rightarrow> ('a neopixel_s_scheme, unit) fw" where
  "pulse_toggle pin =
    thn (gpio_out_toggle pin) (upd (\<lambda>s. s\<lparr>pulse_log := pulse_log s @ [(bd_outputs s pin, last_reading s)]\<rparr>))"

section \<open>Timing\<close>

definition neopixel_nsecs_to_ticks :: "u32 \<Rightarrow> 'a board_scheme \<Rightarrow> u32" where
  "neopixel_nsecs_to_ticks ns s = timer_from_us (ns * 1000) s div 1000000"

definition neopixel_check_elapsed :: "u32 \<Rightarrow> u32 \<Rightarrow> u32 \<Rightarrow> bool" where
  "neopixel_check_elapsed t1 t2 ticks \<longleftrightarrow> t2 - t1 \<ge> ticks"

definition neopixel_get_time :: "('a board_scheme, u32) fw" where
  "neopixel_get_time = timer_read_time"

text \<open>The waits read the clock at most \<open>k\<close> times.\<close>

fun neopixel_delay :: "nat \<Rightarrow> u32 \<Rightarrow> u32 \<Rightarrow> ('a board_scheme, unit) fw" where
  "neopixel_delay 0 start ticks = stuck"
| "neopixel_delay (Suc k) start ticks =
    bnd neopixel_get_time (\<lambda>t. if \<not> neopixel_check_elapsed start t ticks then neopixel_delay k start ticks else ret ())"

definition PULSE_LONG_TICKS :: "'a board_scheme \<Rightarrow> u32" where "PULSE_LONG_TICKS = neopixel_nsecs_to_ticks 650"
definition PULSE_SHORT_TICKS :: "'a board_scheme \<Rightarrow> u32" where "PULSE_SHORT_TICKS = neopixel_nsecs_to_ticks 200"
definition BIT_MIN_TICKS :: "'a board_scheme \<Rightarrow> u32" where "BIT_MIN_TICKS = neopixel_nsecs_to_ticks 1250"

section \<open>Sending\<close>

fun reset_wait :: "nat \<Rightarrow> u32 \<Rightarrow> u32 \<Rightarrow> ('a board_scheme, unit) fw" where
  "reset_wait 0 last_req_time rmt = stuck"
| "reset_wait (Suc k) last_req_time rmt =
    bnd timer_read_time (\<lambda>cur. if cur - last_req_time < rmt then reset_wait k last_req_time rmt else ret ())"

text \<open>
  The bits of a byte, of which \<open>n\<close> are left; \<open>last_start\<close> is when the last pulse began.  The result is
  the new one, or \<open>None\<close> when a pulse began too late.
\<close>

fun pixel_bits :: "nat \<Rightarrow> nat \<Rightarrow> u32 \<Rightarrow> u32 \<Rightarrow> u8 \<Rightarrow> u32 \<Rightarrow> ('a neopixel_s_scheme, u32 option) fw" where
  "pixel_bits 0 k pin bit_max_ticks byte last_start = ret (Some last_start)"
| "pixel_bits (Suc n) k pin bit_max_ticks byte last_start =
    (if byte AND 0x80 \<noteq> 0 then
       bnd (gets BIT_MIN_TICKS) (\<lambda>bit_min.
       thn (neopixel_delay k last_start bit_min)
       (bnd neopixel_get_time (\<lambda>start.
       thn (pulse_toggle pin)
       (if neopixel_check_elapsed last_start start bit_max_ticks then ret None
        else
          bnd (gets PULSE_LONG_TICKS) (\<lambda>long.
          thn (neopixel_delay k start long)
          (thn (pulse_toggle pin)
          (bnd neopixel_get_time (\<lambda>t.
          bnd (gets PULSE_SHORT_TICKS) (\<lambda>short.
          thn (neopixel_delay k t short)
          (pixel_bits n k pin bit_max_ticks (push_bit 1 byte) start))))))))))
     else
       bnd (gets BIT_MIN_TICKS) (\<lambda>bit_min.
       thn (neopixel_delay k last_start bit_min)
       (bnd neopixel_get_time (\<lambda>start.
       thn (pulse_toggle pin)
       (bnd (gets PULSE_SHORT_TICKS) (\<lambda>short.
       thn (neopixel_delay k start short)
       (thn (pulse_toggle pin)
       (if neopixel_check_elapsed last_start start bit_max_ticks then ret None
        else pixel_bits n k pin bit_max_ticks (push_bit 1 byte) start))))))))"

text \<open>All the bytes.\<close>

fun pixel_bytes :: "nat \<Rightarrow> u32 \<Rightarrow> u32 \<Rightarrow> u8 list \<Rightarrow> u32 \<Rightarrow> ('a neopixel_s_scheme, u32 option) fw" where
  "pixel_bytes k pin bit_max_ticks [] last_start = ret (Some last_start)"
| "pixel_bytes k pin bit_max_ticks (b # bs) last_start =
    bnd (pixel_bits 8 k pin bit_max_ticks b last_start) (\<lambda>r. case r of
      None \<Rightarrow> ret None
    | Some start \<Rightarrow> pixel_bytes k pin bit_max_ticks bs start)"

text \<open>The result is true for 0, success.\<close>

definition send_data :: "nat \<Rightarrow> nat \<Rightarrow> ('a neopixel_s_scheme, bool) fw" where
  "send_data k i =
    bnd (gets (\<lambda>s. neopixels s i)) (\<lambda>n.
    thn (reset_wait k (np_last_req_time n) (np_reset_min_ticks n))
    (bnd neopixel_get_time (\<lambda>last_start.
    bnd (pixel_bytes k (np_pin n) (np_bit_max_ticks n) (take (unat (np_data_size n)) (np_data n)) last_start) (\<lambda>r.
    thn (if r = None then gpio_out_write (np_pin n) False else ret ())
    (bnd timer_read_time (\<lambda>t.
    thn (neopixel_upd i (\<lambda>n. n\<lparr>np_last_req_time := t\<rparr>))
    (ret (r \<noteq> None))))))))"

section \<open>Commands\<close>

definition command_config_neopixel :: "nat \<Rightarrow> u32 list \<Rightarrow> ('a neopixel_s_scheme, unit) fw" where
  "command_config_neopixel sizeof_n args = (case args of
      [oid, a_pin, a_data_size, bit_max_ticks, reset_min_ticks] \<Rightarrow>
        bnd (gpio_out_setup a_pin False) (\<lambda>pin.
        let data_size = (ucast a_data_size :: u16) in
        thn (shutdown_if (data_size AND 0x8000 \<noteq> 0) ''Invalid neopixel data_size'')
        (bnd (oid_alloc (ucast oid) ''neopixel'' (sizeof_n + unat data_size)) (\<lambda>i.
        neopixel_upd i (\<lambda>_. \<lparr>np_pin = pin, np_bit_max_ticks = bit_max_ticks, np_last_req_time = 0,
          np_reset_min_ticks = reset_min_ticks, np_data_size = data_size, np_data = replicate (unat data_size) 0\<rparr>))))
    | _ \<Rightarrow> stuck)"

definition command_neopixel_update :: "u8 list \<Rightarrow> u32 list \<Rightarrow> ('a neopixel_s_scheme, unit) fw" where
  "command_neopixel_update buf args = (case args of
      [oid, pos, data_len, ptr] \<Rightarrow>
        bnd (oid_lookup (ucast oid) ''neopixel'') (\<lambda>i.
        bnd (gets (\<lambda>s. neopixels s i)) (\<lambda>n.
        thn (shutdown_if (pos AND 0x8000 \<noteq> 0 \<or> pos + data_len > ucast (np_data_size n)) ''Invalid neopixel update command'')
        (bnd (command_decode_ptr buf ptr (unat data_len)) (\<lambda>data.
        if unat pos + unat data_len > length (np_data n) then stuck
        else neopixel_upd i (\<lambda>n. n\<lparr>np_data := take (unat pos) (np_data n) @ data @ drop (unat pos + unat data_len) (np_data n)\<rparr>)))))
    | _ \<Rightarrow> stuck)"

definition command_neopixel_send :: "nat \<Rightarrow> u32 list \<Rightarrow> ('a neopixel_s_scheme, unit) fw" where
  "command_neopixel_send k args = (case args of
      [a_oid] \<Rightarrow>
        let oid = (ucast a_oid :: u8) in
        bnd (oid_lookup oid ''neopixel'') (\<lambda>i.
        bnd (send_data k i) (\<lambda>success.
        sendf ''neopixel_result oid=%c success=%c'' [A_int (ucast oid), A_int (if success then 1 else 0)]))
    | _ \<Rightarrow> stuck)"

text \<open>
  An update stays inside the colour data, whatever position the host sends: with bit 15 clear, the
  position is too small for the sum with the length to wrap.
\<close>

lemma neopixel_update_in_bounds:
  assumes "length (np_data n) = unat (np_data_size n)" and "pos AND 0x8000 = (0 :: u32)"
    and "\<not> pos + data_len > ucast (np_data_size n)" and "data_len < 0x8000"
  shows "unat pos + unat data_len \<le> length (np_data n)"
proof -
  have "(pos AND m) OR (pos AND NOT m) = pos" for m
    by (simp add: bit_eq_iff bit_or_iff bit_and_iff bit_not_iff) blast
  then have "pos AND NOT 0x8000 = pos" using assms(2) by (metis or.left_neutral)
  then have "pos \<le> NOT 0x8000" by (metis word_and_le1)
  then have "unat pos \<le> 0xFFFF7FFF" by (simp add: word_le_nat_alt)
  then have "unat (pos + data_len) = unat pos + unat data_len"
    using assms(4) by (simp add: word_less_nat_alt unat_word_ariths)
  then show ?thesis using assms(1,3) by (simp add: not_less word_le_nat_alt unat_ucast_up)
qed

section \<open>The pulses\<close>

text \<open>Every wait ends within \<open>k\<close> readings of the clock.\<close>

definition waits_end :: "nat \<Rightarrow> neopixel \<Rightarrow> 'a board_scheme \<Rightarrow> bool" where
  "waits_end k n s \<longleftrightarrow>
    (\<forall>ticks\<in>{BIT_MIN_TICKS s, PULSE_LONG_TICKS s, PULSE_SHORT_TICKS s, np_reset_min_ticks n}.
      \<forall>m start. \<exists>j<k. bd_clock s (m + j) - start \<ge> ticks)"

text \<open>Reading \<open>f\<close> of the clock \<open>c\<close> is the first, from number \<open>m\<close>, that is \<open>ticks\<close> after \<open>start\<close>.\<close>

definition first_elapsed :: "(nat \<Rightarrow> u32) \<Rightarrow> nat \<Rightarrow> u32 \<Rightarrow> u32 \<Rightarrow> nat \<Rightarrow> bool" where
  "first_elapsed c m start ticks f \<longleftrightarrow> m \<le> f \<and> c f - start \<ge> ticks \<and> (\<forall>j. m \<le> j \<and> j < f \<longrightarrow> c j - start < ticks)"

text \<open>
  The pulses of some bits, after one that began at \<open>last_start\<close>.  Each begins with the next reading of the clock
  after one that is the minimum time of a bit later than the last pulse.  It ends with the very first reading
  at which the high time has elapsed, the long one for a one, the short one for a zero.
  When a pulse begins \<open>bit_max_ticks\<close> or more after the one before,
  the transmission ends there and fails.  The last argument is the result, the clock at which the last
  pulse began.
\<close>

fun pulses_ok :: "(nat \<Rightarrow> u32) \<Rightarrow> u32 \<times> u32 \<times> u32 \<Rightarrow> u32 \<Rightarrow> u32 \<Rightarrow> bool list \<Rightarrow> (bool \<times> nat) list \<Rightarrow> u32 option \<Rightarrow> bool" where
  "pulses_ok c p bit_max last_start [] log r \<longleftrightarrow> log = [] \<and> r = Some last_start"
| "pulses_ok c p bit_max last_start (b # bs) [] r \<longleftrightarrow> False"
| "pulses_ok c p bit_max last_start (b # bs) ((up, rise) # log) r \<longleftrightarrow>
    up \<and> 0 < rise \<and> c (rise - 1) - last_start \<ge> fst p \<and>
    (if b \<and> c rise - last_start \<ge> bit_max then log = [] \<and> r = None
     else case log of
       (False, fall) # log' \<Rightarrow> first_elapsed c (Suc rise) (c rise) (if b then fst (snd p) else snd (snd p)) fall \<and>
         (if c rise - last_start \<ge> bit_max then log' = [] \<and> r = None else pulses_ok c p bit_max (c rise) bs log' r)
     | _ \<Rightarrow> False)"

definition pulse_times :: "'a board_scheme \<Rightarrow> u32 \<times> u32 \<times> u32" where
  "pulse_times s = (BIT_MIN_TICKS s, PULSE_LONG_TICKS s, PULSE_SHORT_TICKS s)"

text \<open>
  The state after some readings of the clock and some pulses.
\<close>

definition pulsed :: "u32 \<Rightarrow> 'a neopixel_s_scheme \<Rightarrow> (bool \<times> nat) list \<Rightarrow> 'a neopixel_s_scheme \<Rightarrow> bool" where
  "pulsed pin s log s' \<longleftrightarrow> bd_clock s' = bd_clock s \<and> bd_freq s' = bd_freq s \<and> neopixels s' = neopixels s \<and>
    pulse_log s' = pulse_log s @ log \<and> bd_outputs s' pin = (if log = [] then bd_outputs s pin else fst (last log))"

lemma pulsed_refl: "pulsed pin s [] s"
  by (simp add: pulsed_def)

lemma pulsed_trans: "pulsed pin s l1 s1 \<Longrightarrow> pulsed pin s1 l2 s2 \<Longrightarrow> pulsed pin s (l1 @ l2) s2"
  by (auto simp: pulsed_def)

lemma pulsed_ticks:
  "pulsed pin s log s' \<Longrightarrow> BIT_MIN_TICKS s' = BIT_MIN_TICKS s \<and> PULSE_LONG_TICKS s' = PULSE_LONG_TICKS s \<and>
    PULSE_SHORT_TICKS s' = PULSE_SHORT_TICKS s \<and> (waits_end k n s' \<longleftrightarrow> waits_end k n s)"
  by (simp add: pulsed_def BIT_MIN_TICKS_def PULSE_LONG_TICKS_def PULSE_SHORT_TICKS_def neopixel_nsecs_to_ticks_def timer_from_us_def waits_end_def)

lemma first_elapsed_later:
  "c m - start < ticks \<Longrightarrow> first_elapsed c (Suc m) start ticks f \<Longrightarrow> first_elapsed c m start ticks f"
  by (auto simp: first_elapsed_def) (metis le_antisym not_less_eq_eq)

lemma delay_ends:
  "\<exists>j<k. bd_clock s (bd_clock_reads s + j) - start \<ge> ticks \<Longrightarrow>
    \<exists>s'. neopixel_delay k start ticks s = (Inr (), s') \<and> pulsed pin s [] s' \<and>
      bd_clock_reads s' = Suc (last_reading s') \<and> first_elapsed (bd_clock s) (bd_clock_reads s) start ticks (last_reading s')"
proof (induction k arbitrary: s)
  case (Suc k)
  let ?s1 = "s\<lparr>bd_clock_reads := Suc (bd_clock_reads s)\<rparr>"
  show ?case
  proof (cases "bd_clock s (bd_clock_reads s) - start \<ge> ticks")
    case True
    then show ?thesis
      by (intro exI [of _ ?s1])
        (auto simp: fw_simps neopixel_get_time_def neopixel_check_elapsed_def pulsed_def last_reading_def first_elapsed_def)
  next
    case False
    obtain j where j: "j < Suc k" "bd_clock s (bd_clock_reads s + j) - start \<ge> ticks" using Suc.prems by blast
    then obtain j' where "j = Suc j'" using False by (cases j) auto
    then have "\<exists>j<k. bd_clock ?s1 (bd_clock_reads ?s1 + j) - start \<ge> ticks" using j by (intro exI [of _ j']) simp
    from Suc.IH [OF this] obtain s' where s': "neopixel_delay k start ticks ?s1 = (Inr (), s')" "pulsed pin ?s1 [] s'"
        "bd_clock_reads s' = Suc (last_reading s')" "first_elapsed (bd_clock s) (Suc (bd_clock_reads s)) start ticks (last_reading s')"
      by auto
    have "neopixel_delay (Suc k) start ticks s = (Inr (), s')"
      using False s'(1) by (simp add: fw_simps neopixel_get_time_def neopixel_check_elapsed_def)
    then show ?thesis using s'(2,3) first_elapsed_later [OF _ s'(4)] False by (auto simp: pulsed_def)
  qed
qed simp

lemma delay_waits:
  assumes "waits_end k n s" and "ticks \<in> {BIT_MIN_TICKS s, PULSE_LONG_TICKS s, PULSE_SHORT_TICKS s, np_reset_min_ticks n}"
  obtains s' where "neopixel_delay k start ticks s = (Inr (), s')" and "pulsed pin s [] s'"
    and "bd_clock_reads s' = Suc (last_reading s')" and "first_elapsed (bd_clock s) (bd_clock_reads s) start ticks (last_reading s')"
  using delay_ends [where k = k and s = s and start = start and ticks = ticks and pin = pin] assms unfolding waits_end_def by blast

lemma get_time_run:
  "\<exists>s'. neopixel_get_time s = (Inr (last_read s'), s') \<and> pulsed pin s [] s' \<and> last_reading s' = bd_clock_reads s \<and>
    bd_clock_reads s' = Suc (bd_clock_reads s)"
  by (intro exI [of _ "s\<lparr>bd_clock_reads := Suc (bd_clock_reads s)\<rparr>"])
    (simp add: neopixel_get_time_def fw_simps pulsed_def last_read_def last_reading_def)

lemma toggle_run:
  "\<exists>s'. pulse_toggle pin s = (Inr (), s') \<and> pulsed pin s [(\<not> bd_outputs s pin, last_reading s)] s' \<and>
    bd_clock_reads s' = bd_clock_reads s"
  by (simp add: pulse_toggle_def fw_simps gpio_out_toggle_def pulsed_def last_reading_def)

lemma get_time_obtain:
  obtains s' where "neopixel_get_time s = (Inr (last_read s'), s')" and "pulsed pin s [] s'" and "last_reading s' = bd_clock_reads s"
    and "bd_clock_reads s' = Suc (bd_clock_reads s)"
  using get_time_run [of s] by blast

lemma same_reading: "bd_clock_reads s' = bd_clock_reads s \<Longrightarrow> pulsed pin s log s' \<Longrightarrow>
    last_reading s' = last_reading s \<and> last_read s' = last_read s"
  by (simp add: last_reading_def last_read_def pulsed_def)

lemma toggle_obtain:
  obtains s' where "pulse_toggle pin s = (Inr (), s')" and "pulsed pin s [(\<not> bd_outputs s pin, last_reading s)] s'"
    and "last_reading s' = last_reading s" and "last_read s' = last_read s" and "bd_clock_reads s' = bd_clock_reads s"
proof -
  obtain s' where s': "pulse_toggle pin s = (Inr (), s')" "pulsed pin s [(\<not> bd_outputs s pin, last_reading s)] s'"
      "bd_clock_reads s' = bd_clock_reads s"
    using toggle_run [of pin s] by blast
  then show thesis using that same_reading [OF s'(3,2)] by blast
qed

text \<open>The rising edge of a pulse, and its falling edge.\<close>

lemma rising_edge:
  assumes "waits_end k n s" and "\<not> bd_outputs s pin"
  obtains s' where "pulsed pin s [(True, last_reading s')] s'" and "0 < last_reading s'"
    and "bd_clock_reads s' = Suc (last_reading s')"
    and "bd_clock s (last_reading s' - 1) - last_start \<ge> BIT_MIN_TICKS s"
    and "\<And>f. bnd (gets BIT_MIN_TICKS) (\<lambda>bit_min. thn (neopixel_delay k last_start bit_min)
      (bnd neopixel_get_time (\<lambda>start. thn (pulse_toggle pin) (f start)))) s = f (last_read s') s'"
proof -
  obtain s1 where 1: "neopixel_delay k last_start (BIT_MIN_TICKS s) s = (Inr (), s1)" "pulsed pin s [] s1"
    "bd_clock_reads s1 = Suc (last_reading s1)"
    "first_elapsed (bd_clock s) (bd_clock_reads s) last_start (BIT_MIN_TICKS s) (last_reading s1)"
    using delay_waits [OF assms(1), of "BIT_MIN_TICKS s"] by blast
  obtain s2 where 2: "neopixel_get_time s1 = (Inr (last_read s2), s2)" "pulsed pin s1 [] s2"
    "last_reading s2 = bd_clock_reads s1" "bd_clock_reads s2 = Suc (bd_clock_reads s1)"
    using get_time_obtain by blast
  obtain s3 where 3: "pulse_toggle pin s2 = (Inr (), s3)" "pulsed pin s2 [(\<not> bd_outputs s2 pin, last_reading s2)] s3"
    "last_reading s3 = last_reading s2" "last_read s3 = last_read s2" "bd_clock_reads s3 = bd_clock_reads s2"
    using toggle_obtain by blast
  have low: "\<not> bd_outputs s2 pin" using 1(2) 2(2) assms(2) by (simp add: pulsed_def)
  have last: "last_reading s3 = Suc (last_reading s1)" using 1(3) 2(3) 3(3) by simp
  show thesis
  proof (rule that [of s3])
    show "pulsed pin s [(True, last_reading s3)] s3"
      using pulsed_trans [OF pulsed_trans [OF 1(2) 2(2)] 3(2)] low 3(3) by simp
    show "0 < last_reading s3" "bd_clock_reads s3 = Suc (last_reading s3)"
      "bd_clock s (last_reading s3 - 1) - last_start \<ge> BIT_MIN_TICKS s"
      using last 1(3,4) 2(4) 3(5) by (simp_all add: first_elapsed_def)
    show "bnd (gets BIT_MIN_TICKS) (\<lambda>bit_min. thn (neopixel_delay k last_start bit_min)
      (bnd neopixel_get_time (\<lambda>start. thn (pulse_toggle pin) (f start)))) s = f (last_read s3) s3" for f :: "u32 \<Rightarrow> ('a neopixel_s_scheme, 'b) fw"
      using 1(1) 2(1) 3(1,4) by (simp add: fw_simps)
  qed
qed

lemma falling_edge:
  assumes "waits_end k n s" and "bd_outputs s pin" and "ticks \<in> {BIT_MIN_TICKS s, PULSE_LONG_TICKS s, PULSE_SHORT_TICKS s, np_reset_min_ticks n}"
  obtains s' where "pulsed pin s [(False, last_reading s')] s'"
    and "first_elapsed (bd_clock s) (bd_clock_reads s) start ticks (last_reading s')"
    and "\<And>f. thn (neopixel_delay k start ticks) (thn (pulse_toggle pin) f) s = f s'"
proof -
  obtain s1 where 1: "neopixel_delay k start ticks s = (Inr (), s1)" "pulsed pin s [] s1"
    "first_elapsed (bd_clock s) (bd_clock_reads s) start ticks (last_reading s1)"
    using delay_waits [OF assms(1,3)] by blast
  obtain s3 where 3: "pulse_toggle pin s1 = (Inr (), s3)" "pulsed pin s1 [(\<not> bd_outputs s1 pin, last_reading s1)] s3"
    "last_reading s3 = last_reading s1"
    using toggle_obtain by blast
  have high: "bd_outputs s1 pin" using 1(2) assms(2) by (simp add: pulsed_def)
  show thesis
  proof (rule that [of s3])
    show "pulsed pin s [(False, last_reading s3)] s3"
      using pulsed_trans [OF 1(2) 3(2)] high 3(3) by simp
    show "thn (neopixel_delay k start ticks) (thn (pulse_toggle pin) f) s = f s3" for f :: "('a neopixel_s_scheme, 'b) fw"
      using 1(1) 3(1,3) by (simp add: fw_simps)
    show "first_elapsed (bd_clock s) (bd_clock_reads s) start ticks (last_reading s3)" using 1(3) 3(3) by simp
  qed
qed

lemma low_time:
  assumes "waits_end k n s"
  obtains s' where "pulsed pin s [] s'"
    and "\<And>f. bnd neopixel_get_time (\<lambda>t. bnd (gets PULSE_SHORT_TICKS) (\<lambda>short. thn (neopixel_delay k t short) f)) s = f s'"
proof -
  obtain s1 where 1: "neopixel_get_time s = (Inr (last_read s1), s1)" "pulsed pin s [] s1"
    using get_time_obtain by blast
  have w: "waits_end k n s1" using assms pulsed_ticks [OF 1(2)] by simp
  obtain s2 where 2: "neopixel_delay k (last_read s1) (PULSE_SHORT_TICKS s1) s1 = (Inr (), s2)" "pulsed pin s1 [] s2"
    using delay_waits [OF w, of "PULSE_SHORT_TICKS s1"] by blast
  show thesis
  proof (rule that [of s2])
    show "pulsed pin s [] s2" using pulsed_trans [OF 1(2) 2(2)] by simp
    show "bnd neopixel_get_time (\<lambda>t. bnd (gets PULSE_SHORT_TICKS) (\<lambda>short. thn (neopixel_delay k t short) f)) s = f s2"
      for f :: "('a neopixel_s_scheme, 'b) fw"
      using 1(1) 2(1) by (simp add: fw_simps)
  qed
qed

lemma pulses_ok_append:
  "pulses_ok c p mx l bs log (Some l') \<Longrightarrow> pulses_ok c p mx l' bs' log' r \<Longrightarrow> pulses_ok c p mx l (bs @ bs') (log @ log') r"
  by (induction c p mx l bs log "Some l'" rule: pulses_ok.induct)
    (auto split: if_splits list.splits prod.splits bool.splits)

lemma pulses_ok_stopped: "pulses_ok c p mx l bs log None \<Longrightarrow> pulses_ok c p mx l (bs @ bs') log None"
  by (induction c p mx l bs log "None :: u32 option" rule: pulses_ok.induct)
    (auto split: if_splits list.splits prod.splits bool.splits)

definition sends_bits :: "u32 \<Rightarrow> u32 \<Rightarrow> u32 \<Rightarrow> bool list \<Rightarrow> ('a neopixel_s_scheme, u32 option) fw \<Rightarrow> 'a neopixel_s_scheme \<Rightarrow> bool" where
  "sends_bits pin mx l bs m s \<longleftrightarrow> (\<exists>r s' log. m s = (Inr r, s') \<and> pulsed pin s log s' \<and>
    pulses_ok (bd_clock s) (pulse_times s) mx l bs log r \<and> (r \<noteq> None \<longrightarrow> \<not> bd_outputs s' pin))"

lemma gets_bnd: "bnd (gets f) g s = g (f s) s"
  by (simp add: fw_simps)

text \<open>Putting the rest of the bits behind a first pulse.\<close>

lemma sends_bits_cons:
  assumes "sends_bits pin mx (bd_clock s rise) bs m s1" and "pulsed pin s [(True, rise), (False, fall)] s1"
    and "run s = m s1" and "\<not> mx \<le> bd_clock s rise - l" and "0 < rise" and "bd_clock s (rise - 1) - l \<ge> BIT_MIN_TICKS s"
    and "first_elapsed (bd_clock s) (Suc rise) (bd_clock s rise) (if b then PULSE_LONG_TICKS s else PULSE_SHORT_TICKS s) fall"
  shows "sends_bits pin mx l (b # bs) run s"
proof -
  obtain r s' log where r: "m s1 = (Inr r, s')" "pulsed pin s1 log s'"
    "pulses_ok (bd_clock s1) (pulse_times s1) mx (bd_clock s rise) bs log r" "r \<noteq> None \<longrightarrow> \<not> bd_outputs s' pin"
    using assms(1) unfolding sends_bits_def by blast
  have "pulse_times s1 = pulse_times s" "bd_clock s1 = bd_clock s"
    using pulsed_ticks [OF assms(2)] assms(2) by (simp_all add: pulse_times_def) (simp add: pulsed_def)
  then show ?thesis unfolding sends_bits_def using assms(3-7) r pulsed_trans [OF assms(2) r(2)]
    by (intro exI [of _ r] exI [of _ s'] exI [of _ "[(True, rise), (False, fall)] @ log"]) (cases b, simp_all add: pulse_times_def)
qed

lemma pixel_bits_run:
  "waits_end k n s \<Longrightarrow> \<not> bd_outputs s pin \<Longrightarrow> sends_bits pin mx l (top_bits m b) (pixel_bits m k pin mx b l) s"
proof (induction m arbitrary: s b l)
  case 0
  then show ?case by (auto simp: sends_bits_def fw_simps pulsed_refl)
next
  case (Suc m)
  obtain s1 where s1: "pulsed pin s [(True, last_reading s1)] s1"
    and r1: "0 < last_reading s1" "bd_clock_reads s1 = Suc (last_reading s1)"
      "bd_clock s (last_reading s1 - 1) - l \<ge> BIT_MIN_TICKS s"
    and m1: "\<And>f :: u32 \<Rightarrow> (_, u32 option) fw. bnd (gets BIT_MIN_TICKS) (\<lambda>bit_min. thn (neopixel_delay k l bit_min)
      (bnd neopixel_get_time (\<lambda>start. thn (pulse_toggle pin) (f start)))) s = f (last_read s1) s1"
    using rising_edge [OF Suc.prems, of l] by blast
  define i t where "i = last_reading s1" and "t = last_read s1"
  have w1: "waits_end k n s1" and h1: "bd_outputs s1 pin" and c1: "bd_clock s1 = bd_clock s"
    and q1: "PULSE_LONG_TICKS s1 = PULSE_LONG_TICKS s" "PULSE_SHORT_TICKS s1 = PULSE_SHORT_TICKS s"
    using Suc.prems(1) pulsed_ticks [OF s1] s1 by (simp_all add: pulsed_def)
  have t: "t = bd_clock s i" by (simp add: t_def i_def last_read_def c1)
  have i: "0 < i" "bd_clock_reads s1 = Suc i" "bd_clock s (i - 1) - l \<ge> BIT_MIN_TICKS s" using r1 by (simp_all add: i_def)
  show ?case
  proof (cases "b AND 0x80 \<noteq> 0")
    case True
    note run = pixel_bits.simps(2) if_P [OF True] m1 t_def [symmetric]
    show ?thesis
    proof (cases "mx \<le> t - l")
      case late: True
      have "pixel_bits (Suc m) k pin mx b l s = (Inr None, s1)"
        using late by (simp add: run neopixel_check_elapsed_def ret_run)
      then show ?thesis using s1 late True i t unfolding sends_bits_def
        by (intro exI [of _ None] exI [of _ s1] exI [of _ "[(True, i)]"]) (simp add: i_def [symmetric] pulse_times_def)
    next
      case False
      obtain s2 where s2: "pulsed pin s1 [(False, last_reading s2)] s2"
          "first_elapsed (bd_clock s1) (bd_clock_reads s1) t (PULSE_LONG_TICKS s1) (last_reading s2)"
        and m2: "\<And>f :: (_, u32 option) fw. thn (neopixel_delay k t (PULSE_LONG_TICKS s1)) (thn (pulse_toggle pin) f) s1 = f s2"
        using falling_edge [OF w1 h1, of "PULSE_LONG_TICKS s1" t] by blast
      have w2: "waits_end k n s2" using w1 pulsed_ticks [OF s2(1)] by simp
      obtain s3 where s3: "pulsed pin s2 [] s3"
        and m3: "\<And>f :: (_, u32 option) fw. bnd neopixel_get_time (\<lambda>t. bnd (gets PULSE_SHORT_TICKS) (\<lambda>short. thn (neopixel_delay k t short) f)) s2 = f s3"
        using low_time [OF w2] by blast
      have p3: "pulsed pin s [(True, i), (False, last_reading s2)] s3"
        using pulsed_trans [OF pulsed_trans [OF s1 s2(1)] s3] by (simp add: i_def)
      have w3: "waits_end k n s3" and l3: "\<not> bd_outputs s3 pin"
        using w2 pulsed_ticks [OF s3] p3 by (simp_all add: pulsed_def)
      have r3: "pixel_bits (Suc m) k pin mx b l s = pixel_bits m k pin mx (push_bit 1 b) t s3"
        using False by (simp only: run) (simp add: neopixel_check_elapsed_def gets_bnd m2 m3)
      have "sends_bits pin mx l (True # top_bits m (push_bit 1 b)) (pixel_bits (Suc m) k pin mx b l) s"
        by (rule sends_bits_cons [OF Suc.IH [OF w3 l3, of "bd_clock s i"] p3 _ _ i(1,3)])
          (use False r3 t s2(2) i(2) c1 q1 in simp_all)
      then show ?thesis using True by simp
    qed
  next
    case False
    note run = pixel_bits.simps(2) if_not_P [OF False] m1 t_def [symmetric]
    obtain s2 where s2: "pulsed pin s1 [(False, last_reading s2)] s2"
        "first_elapsed (bd_clock s1) (bd_clock_reads s1) t (PULSE_SHORT_TICKS s1) (last_reading s2)"
      and m2: "\<And>f :: (_, u32 option) fw. thn (neopixel_delay k t (PULSE_SHORT_TICKS s1)) (thn (pulse_toggle pin) f) s1 = f s2"
      using falling_edge [OF w1 h1, of "PULSE_SHORT_TICKS s1" t] by blast
    have p2: "pulsed pin s [(True, i), (False, last_reading s2)] s2"
      using pulsed_trans [OF s1 s2(1)] by (simp add: i_def)
    have w2: "waits_end k n s2" and l2: "\<not> bd_outputs s2 pin"
      using w1 pulsed_ticks [OF s2(1)] p2 by (simp_all add: pulsed_def)
    show ?thesis
    proof (cases "mx \<le> t - l")
      case late: True
      have "pixel_bits (Suc m) k pin mx b l s = (Inr None, s2)"
        using late by (simp only: run) (simp add: neopixel_check_elapsed_def ret_run gets_bnd m2)
      then show ?thesis using p2 s2(2) q1 c1 i t late False unfolding sends_bits_def
        by (intro exI [of _ None] exI [of _ s2] exI [of _ "[(True, i), (False, last_reading s2)]"]) (simp add: pulse_times_def)
    next
      case in_time: False
      have r2: "pixel_bits (Suc m) k pin mx b l s = pixel_bits m k pin mx (push_bit 1 b) t s2"
        using in_time by (simp only: run) (simp add: neopixel_check_elapsed_def gets_bnd m2)
      have "sends_bits pin mx l (False # top_bits m (push_bit 1 b)) (pixel_bits (Suc m) k pin mx b l) s"
        by (rule sends_bits_cons [OF Suc.IH [OF w2 l2, of "bd_clock s i"] p2 _ _ i(1,3)])
          (use in_time r2 t s2(2) i(2) c1 q1 in simp_all)
      then show ?thesis using False by simp
    qed
  qed
qed

lemma pixel_bytes_run:
  "waits_end k n s \<Longrightarrow> \<not> bd_outputs s pin \<Longrightarrow> sends_bits pin mx l (bits_of bs) (pixel_bytes k pin mx bs l) s"
proof (induction bs arbitrary: s l)
  case Nil
  then show ?case by (auto simp: sends_bits_def fw_simps pulsed_refl)
next
  case (Cons b bs)
  obtain r s1 log where 1: "pixel_bits 8 k pin mx b l s = (Inr r, s1)" "pulsed pin s log s1"
    "pulses_ok (bd_clock s) (pulse_times s) mx l (byte_bits b) log r" "r \<noteq> None \<longrightarrow> \<not> bd_outputs s1 pin"
    using pixel_bits_run [OF Cons.prems, of mx l 8 b] unfolding sends_bits_def top_bits_8 by blast
  show ?case
  proof (cases r)
    case None
    then show ?thesis using 1 pulses_ok_stopped unfolding sends_bits_def
      by (intro exI [of _ None] exI [of _ s1] exI [of _ log]) (simp add: fw_simps)
  next
    case (Some t)
    have "waits_end k n s1" "pulse_times s1 = pulse_times s"
      using Cons.prems(1) pulsed_ticks [OF 1(2)] by (simp_all add: pulse_times_def)
    moreover have "bd_clock s1 = bd_clock s" using 1(2) by (simp add: pulsed_def)
    ultimately obtain r' s2 log' where 2: "pixel_bytes k pin mx bs t s1 = (Inr r', s2)" "pulsed pin s1 log' s2"
      "pulses_ok (bd_clock s) (pulse_times s) mx t (bits_of bs) log' r'" "r' \<noteq> None \<longrightarrow> \<not> bd_outputs s2 pin"
      using Cons.IH [of s1 t] 1(4) Some unfolding sends_bits_def by auto
    show ?thesis unfolding sends_bits_def
      using 1(1) Some 2 pulsed_trans [OF 1(2) 2(2)] pulses_ok_append [OF 1(3) [unfolded Some] 2(3)]
      by (intro exI [of _ r'] exI [of _ s2] exI [of _ "log @ log'"]) (simp add: fw_simps)
  qed
qed

lemma reset_wait_delay: "reset_wait k last_req_time rmt = neopixel_delay k last_req_time rmt"
  by (induction k) (simp_all add: neopixel_get_time_def neopixel_check_elapsed_def not_le cong: if_cong)

text \<open>
  C24: A transmission always ends, with the pin low.  The pulses are those of the bits of the colour data, the
  highest bit of each byte first: each starts no earlier than the minimum time of a bit after the one before and
  ends with the first reading of the clock at which its high time, long for a one and short for a zero, has
  elapsed; no pulse follows one that came too late, and the result tells whether all of them were sent.
\<close>

theorem neopixel_sends_pulses:
  assumes n: "n = neopixels s i" and "waits_end k n s" and "\<not> bd_outputs s (np_pin n)"
  shows "\<exists>r s' log last_start. send_data k i s = (Inr (r \<noteq> None), s') \<and> pulse_log s' = pulse_log s @ log \<and>
    pulses_ok (bd_clock s) (pulse_times s) (np_bit_max_ticks n) last_start (bits_of (take (unat (np_data_size n)) (np_data n))) log r \<and>
    \<not> bd_outputs s' (np_pin n) \<and> neopixels s' = (neopixels s)(i := n\<lparr>np_last_req_time := last_read s'\<rparr>)"
proof -
  let ?pin = "np_pin n" and ?bytes = "take (unat (np_data_size n)) (np_data n)"
  obtain s1 where 1: "neopixel_delay k (np_last_req_time n) (np_reset_min_ticks n) s = (Inr (), s1)" "pulsed ?pin s [] s1"
    using delay_waits [OF assms(2)] by blast
  obtain s2 where 2: "neopixel_get_time s1 = (Inr (last_read s2), s2)" "pulsed ?pin s1 [] s2"
    using get_time_obtain by blast
  note p2 = pulsed_trans [OF 1(2) 2(2), simplified]
  have "waits_end k n s2" "\<not> bd_outputs s2 ?pin" and t2: "pulse_times s2 = pulse_times s" "bd_clock s2 = bd_clock s"
    using assms(2,3) pulsed_ticks [OF p2] p2 by (simp_all add: pulse_times_def pulsed_def)
  then obtain r s3 log where 3: "pixel_bytes k ?pin (np_bit_max_ticks n) ?bytes (last_read s2) s2 = (Inr r, s3)"
    "pulsed ?pin s2 log s3" "pulses_ok (bd_clock s2) (pulse_times s2) (np_bit_max_ticks n) (last_read s2) (bits_of ?bytes) log r"
    "r \<noteq> None \<longrightarrow> \<not> bd_outputs s3 ?pin"
    using pixel_bytes_run [of k n s2 ?pin] unfolding sends_bits_def by blast
  have p3: "pulsed ?pin s log s3" using pulsed_trans [OF p2 3(2)] by simp
  define s4 where "s4 = (if r = None then s3\<lparr>bd_outputs := (bd_outputs s3)(?pin := False)\<rparr> else s3)"
  define s5 where "s5 = s4\<lparr>bd_clock_reads := Suc (bd_clock_reads s4)\<rparr>"
  define s6 where "s6 = s5\<lparr>neopixels := (neopixels s5)(i := neopixels s5 i\<lparr>np_last_req_time := last_read s5\<rparr>)\<rparr>"
  have "send_data k i s = (Inr (r \<noteq> None), s6)"
    using 1(1) 2(1) 3(1) by (simp add: send_data_def reset_wait_delay n [symmetric] fw_simps s4_def s5_def s6_def last_read_def last_reading_def)
  moreover have "pulse_log s6 = pulse_log s @ log" "\<not> bd_outputs s6 ?pin"
    "neopixels s6 = (neopixels s)(i := n\<lparr>np_last_req_time := last_read s6\<rparr>)"
    using p3 3(4) by (auto simp: s4_def s5_def s6_def pulsed_def n last_read_def last_reading_def)
  ultimately show ?thesis using 3(3) t2 by auto
qed

definition example_neopixel :: neopixel where
  "example_neopixel = \<lparr>np_pin = 4, np_bit_max_ticks = 1000, np_last_req_time = 0, np_reset_min_ticks = 50,
    np_data_size = 1, np_data = [0x80]\<rparr>"

definition example_neopixel_s :: neopixel_s where
  "example_neopixel_s = basecmd_s.extend idle_basecmd_s \<lparr>neopixels = (\<lambda>_. example_neopixel), pulse_log = []\<rparr>"

text \<open>With a clock that advances by 100 at each reading, two readings end every wait.\<close>

lemma example_waits_end: "waits_end 2 example_neopixel example_neopixel_s"
proof -
  have "\<exists>j<2. bd_clock example_neopixel_s (m + j) - start \<ge> ticks" if "ticks \<le> 100" for ticks m and start :: u32
  proof (cases "bd_clock example_neopixel_s m - start \<ge> ticks")
    case True
    then show ?thesis by (intro exI [of _ 0]) simp
  next
    case False
    define d where "d = bd_clock example_neopixel_s m - start"
    have "bd_clock example_neopixel_s (m + 1) - start = d + 100"
      by (simp add: d_def example_neopixel_s_def basecmd_s.defs idle_defs)
    moreover have "ticks \<le> d + 100"
      using False that by (simp add: d_def [symmetric] word_le_nat_alt unat_word_ariths)
    ultimately show ?thesis by (intro exI [of _ 1]) simp
  qed
  then show ?thesis unfolding waits_end_def
    by (simp add: BIT_MIN_TICKS_def PULSE_LONG_TICKS_def PULSE_SHORT_TICKS_def neopixel_nsecs_to_ticks_def timer_from_us_def
        example_neopixel_s_def basecmd_s.defs idle_defs example_neopixel_def)
qed

theorem neopixel_sends_pulses_witness:
  "\<exists>r s' log last_start. send_data 2 0 example_neopixel_s = (Inr (r \<noteq> None), s') \<and>
    pulses_ok (bd_clock example_neopixel_s) (20, 10, 3) 1000 last_start (byte_bits 0x80) log r \<and> \<not> bd_outputs s' 4"
proof -
  have n: "neopixels example_neopixel_s 0 = example_neopixel" "\<not> bd_outputs example_neopixel_s 4"
    "pulse_times example_neopixel_s = (20, 10, 3)"
    by (simp_all add: example_neopixel_s_def basecmd_s.defs idle_defs pulse_times_def BIT_MIN_TICKS_def PULSE_LONG_TICKS_def PULSE_SHORT_TICKS_def
        neopixel_nsecs_to_ticks_def timer_from_us_def)
  show ?thesis
    using neopixel_sends_pulses [OF refl, of 2 example_neopixel_s 0] example_waits_end n
    by (fastforce simp: example_neopixel_def)
qed

end
