(* ===== verification/Sos_filter.thy ===== *)
theory Sos_filter
  imports Stepper
begin

text \<open>
  The fixed point filter of second order sections (\<^verbatim>\<open>src/sos_filter.c\<close> of Kalico).  Coefficients and
  values are \<^verbatim>\<open>int32_t\<close>, here integers in their range: \<open>i32\<close> is \<open>Stuck\<close> where the signed arithmetic of C
  leaves it.
\<close>

section \<open>State\<close>

record sos_filter_section =
  fs_coeff :: "int list"
  fs_state :: "int list"

record sos_filter =
  sf_max_sections :: u8
  sf_n_sections :: u8
  sf_coeff_frac_bits :: u8
  sf_is_active :: u8
  sf_coeff_rounding :: u32
  sf_filter :: "sos_filter_section list"

record sos_s = stepper_s +
  sos_filters :: "nat \<Rightarrow> sos_filter"

definition SECTION_WIDTH :: nat where "SECTION_WIDTH = 5"
definition STATE_WIDTH :: nat where "STATE_WIDTH = 2"

abbreviation sos_upd :: "nat \<Rightarrow> (sos_filter \<Rightarrow> sos_filter) \<Rightarrow> ('a sos_s_scheme, unit) fw" where
  "sos_upd i f \<equiv> upd (\<lambda>s. s\<lparr>sos_filters := (sos_filters s)(i := f (sos_filters s i))\<rparr>)"

section \<open>Fixed point arithmetic\<close>

definition overflows_int32 :: "int \<Rightarrow> bool" where
  "overflows_int32 value \<longleftrightarrow> value > 2 ^ 31 - 1 \<or> value < - (2 ^ 31)"

definition i32 :: "int \<Rightarrow> ('s, int) fw" where
  "i32 v = (if overflows_int32 v then stuck else ret v)"

definition fixed_mul :: "sos_filter \<Rightarrow> int \<Rightarrow> int \<Rightarrow> ('s, int) fw" where
  "fixed_mul sf coeff value =
    (let product = coeff * value + uint (sf_coeff_rounding sf) in
     if sf_coeff_frac_bits sf \<ge> 64 then stuck
     else
       let result = drop_bit (unat (sf_coeff_frac_bits sf)) product in
       thn (shutdown_if (overflows_int32 result) ''fixed_mul: overflow'') (ret result))"

section \<open>Filtering\<close>

text \<open>Changing a section; an index outside the array is \<open>Stuck\<close>.\<close>

definition set_section :: "nat \<Rightarrow> nat \<Rightarrow> (sos_filter_section \<Rightarrow> sos_filter_section) \<Rightarrow> ('a sos_s_scheme, unit) fw" where
  "set_section i k f =
    bnd (gets (\<lambda>s. sos_filters s i)) (\<lambda>sf.
    if k \<ge> length (sf_filter sf) then stuck
    else sos_upd i (\<lambda>sf. sf\<lparr>sf_filter := (sf_filter sf)[k := f (sf_filter sf ! k)]\<rparr>))"

text \<open>The body of the loop over the sections, and the loop from section \<open>k\<close> on.\<close>

definition section_step :: "nat \<Rightarrow> nat \<Rightarrow> int \<Rightarrow> ('a sos_s_scheme, int) fw" where
  "section_step i k cur_val =
    bnd (gets (\<lambda>s. sos_filters s i)) (\<lambda>sf.
    if k \<ge> length (sf_filter sf) then stuck
    else
      let sec = sf_filter sf ! k in
      bnd (fixed_mul sf (fs_coeff sec ! 0) cur_val) (\<lambda>p0.
      bnd (i32 (p0 + fs_state sec ! 0)) (\<lambda>next_val.
      bnd (fixed_mul sf (fs_coeff sec ! 1) cur_val) (\<lambda>p1.
      bnd (fixed_mul sf (fs_coeff sec ! 3) next_val) (\<lambda>p3.
      bnd (i32 (p1 - p3)) (\<lambda>d.
      bnd (i32 (d + fs_state sec ! 1)) (\<lambda>state0.
      thn (set_section i k (\<lambda>sec. sec\<lparr>fs_state := (fs_state sec)[0 := state0]\<rparr>))
      (bnd (fixed_mul sf (fs_coeff sec ! 2) cur_val) (\<lambda>p2.
      bnd (fixed_mul sf (fs_coeff sec ! 4) next_val) (\<lambda>p4.
      bnd (i32 (p2 - p4)) (\<lambda>state1.
      thn (set_section i k (\<lambda>sec. sec\<lparr>fs_state := (fs_state sec)[1 := state1]\<rparr>))
      (ret next_val))))))))))))"

fun sections_loop :: "nat \<Rightarrow> nat \<Rightarrow> nat \<Rightarrow> int \<Rightarrow> ('a sos_s_scheme, int) fw" where
  "sections_loop 0 i k cur_val = ret cur_val"
| "sections_loop (Suc n) i k cur_val =
    bnd (section_step i k cur_val) (\<lambda>next_val. sections_loop n i (Suc k) next_val)"

definition sosfilt :: "nat \<Rightarrow> int \<Rightarrow> ('a sos_s_scheme, int) fw" where
  "sosfilt i unfiltered_value =
    bnd (gets (\<lambda>s. sos_filters s i)) (\<lambda>sf.
    thn (shutdown_if (sf_is_active sf = 0) ''sos_filter not property initialized'')
    (if sf_n_sections sf = 0 then ret unfiltered_value
     else sections_loop (unat (sf_n_sections sf)) i 0 unfiltered_value))"

section \<open>Commands\<close>

definition command_config_sos_filter :: "(nat \<Rightarrow> nat) \<Rightarrow> u32 list \<Rightarrow> ('a sos_s_scheme, unit) fw" where
  "command_config_sos_filter sizeof_sf args = (case args of
      [oid, a_max_sections] \<Rightarrow>
        let max_sections = (ucast a_max_sections :: u8) in
        bnd (oid_alloc (ucast oid) ''sos_filter'' (sizeof_sf (unat max_sections))) (\<lambda>i.
        sos_upd i (\<lambda>_. \<lparr>sf_max_sections = max_sections, sf_n_sections = 0, sf_coeff_frac_bits = 0, sf_is_active = 0,
          sf_coeff_rounding = 0, sf_filter = replicate (unat max_sections)
            \<lparr>fs_coeff = replicate SECTION_WIDTH 0, fs_state = replicate STATE_WIDTH 0\<rparr>\<rparr>))
    | _ \<Rightarrow> stuck)"

definition sos_filter_oid_lookup :: "u8 \<Rightarrow> ('a sos_s_scheme, nat) fw" where
  "sos_filter_oid_lookup oid = oid_lookup oid ''sos_filter''"

definition validate_section_index :: "nat \<Rightarrow> u8 \<Rightarrow> ('a sos_s_scheme, unit) fw" where
  "validate_section_index i section_idx =
    bnd (gets (\<lambda>s. sos_filters s i)) (\<lambda>sf.
    shutdown_if (section_idx > sf_max_sections sf) ''Filter section index larger than max_sections'')"

definition command_sos_filter_set_section :: "u32 list \<Rightarrow> ('a sos_s_scheme, unit) fw" where
  "command_sos_filter_set_section args = (case args of
      [oid, a_section_idx, sos0, sos1, sos2, sos3, sos4] \<Rightarrow>
        bnd (sos_filter_oid_lookup (ucast oid)) (\<lambda>i.
        thn (sos_upd i (\<lambda>sf. sf\<lparr>sf_is_active := 0\<rparr>))
        (let section_idx = (ucast a_section_idx :: u8) in
         thn (validate_section_index i section_idx)
         (set_section i (unat section_idx) (\<lambda>sec. sec\<lparr>fs_coeff := map sint [sos0, sos1, sos2, sos3, sos4]\<rparr>))))
    | _ \<Rightarrow> stuck)"

definition command_sos_filter_set_state :: "u32 list \<Rightarrow> ('a sos_s_scheme, unit) fw" where
  "command_sos_filter_set_state args = (case args of
      [oid, a_section_idx, state0, state1] \<Rightarrow>
        bnd (sos_filter_oid_lookup (ucast oid)) (\<lambda>i.
        thn (sos_upd i (\<lambda>sf. sf\<lparr>sf_is_active := 0\<rparr>))
        (let section_idx = (ucast a_section_idx :: u8) in
         thn (validate_section_index i section_idx)
         (set_section i (unat section_idx) (\<lambda>sec. sec\<lparr>fs_state := map sint [state0, state1]\<rparr>))))
    | _ \<Rightarrow> stuck)"

text \<open>The shift by \<^verbatim>\<open>coeff_frac_bits - 1\<close> is defined for 0 to 30 bits.\<close>

definition command_sos_filter_activate :: "u32 list \<Rightarrow> ('a sos_s_scheme, unit) fw" where
  "command_sos_filter_activate args = (case args of
      [oid, a_n_sections, a_coeff_int_bits] \<Rightarrow>
        bnd (sos_filter_oid_lookup (ucast oid)) (\<lambda>i.
        let n_sections = (ucast a_n_sections :: u8) in
        thn (validate_section_index i n_sections)
        (thn (sos_upd i (\<lambda>sf. sf\<lparr>sf_n_sections := n_sections\<rparr>))
        (let frac_bits = 31 - (ucast a_coeff_int_bits :: u8) in
         thn (sos_upd i (\<lambda>sf. sf\<lparr>sf_coeff_frac_bits := frac_bits\<rparr>))
         (if frac_bits = 0 \<or> frac_bits > 31 then stuck
          else
            thn (sos_upd i (\<lambda>sf. sf\<lparr>sf_coeff_rounding := push_bit (unat frac_bits - 1) 1\<rparr>))
            (sos_upd i (\<lambda>sf. sf\<lparr>sf_is_active := 1\<rparr>))))))
    | _ \<Rightarrow> stuck)"

section \<open>The difference equation\<close>

text \<open>
  A product rounded to the nearest value, and the reference: each output of a section is computed
  from the last three inputs and the last two outputs.
\<close>

definition rounded :: "nat \<Rightarrow> int \<Rightarrow> int" where
  "rounded f p = (p + 2 ^ (f - 1)) div 2 ^ f"

fun difference_equation :: "nat \<Rightarrow> int list \<Rightarrow> int \<times> int \<Rightarrow> int \<times> int \<Rightarrow> int list \<Rightarrow> int list" where
  "difference_equation f c (x1, x2) (y1, y2) [] = []"
| "difference_equation f c (x1, x2) (y1, y2) (x # xs) =
    (let y = rounded f (c ! 0 * x) + rounded f (c ! 1 * x1) - rounded f (c ! 3 * y1)
           + rounded f (c ! 2 * x2) - rounded f (c ! 4 * y2) in
     y # difference_equation f c (x, x1) (y, y1) xs)"

text \<open>The sections one after the other, from rest.\<close>

definition cascade :: "nat \<Rightarrow> int list list \<Rightarrow> int list \<Rightarrow> int list" where
  "cascade f cs xs = fold (\<lambda>c. difference_equation f c (0, 0) (0, 0)) cs xs"

text \<open>The outputs for a sequence of samples.\<close>

fun sosfilt_all :: "nat \<Rightarrow> int list \<Rightarrow> ('a sos_s_scheme, int list) fw" where
  "sosfilt_all i [] = ret []"
| "sosfilt_all i (x # xs) = bnd (sosfilt i x) (\<lambda>y. bnd (sosfilt_all i xs) (\<lambda>ys. ret (y # ys)))"

type_synonym history = "(int \<times> int) \<times> (int \<times> int)"

text \<open>What the two state values of a section stand for, given its last inputs and outputs.\<close>

fun state_of :: "nat \<Rightarrow> int list \<Rightarrow> history \<Rightarrow> int list" where
  "state_of f c ((x1, x2), (y1, y2)) =
    [rounded f (c ! 1 * x1) - rounded f (c ! 3 * y1) + (rounded f (c ! 2 * x2) - rounded f (c ! 4 * y2)),
     rounded f (c ! 2 * x1) - rounded f (c ! 4 * y1)]"

fun section_output :: "nat \<Rightarrow> int list \<Rightarrow> history \<Rightarrow> int \<Rightarrow> int" where
  "section_output f c ((x1, x2), (y1, y2)) x = rounded f (c ! 0 * x) +
    (rounded f (c ! 1 * x1) - rounded f (c ! 3 * y1) + (rounded f (c ! 2 * x2) - rounded f (c ! 4 * y2)))"

fun next_history :: "nat \<Rightarrow> int list \<Rightarrow> history \<Rightarrow> int \<Rightarrow> history" where
  "next_history f c ((x1, x2), (y1, y2)) x = ((x, x1), (section_output f c ((x1, x2), (y1, y2)) x, y1))"

definition configured :: "nat \<Rightarrow> sos_filter \<Rightarrow> bool" where
  "configured f sf \<longleftrightarrow> 0 < f \<and> f < 32 \<and> unat (sf_coeff_frac_bits sf) = f \<and> uint (sf_coeff_rounding sf) = 2 ^ (f - 1)"

lemma fixed_mul_eq:
  "configured f sf \<Longrightarrow> fixed_mul sf c v s =
    (if overflows_int32 (rounded f (c * v)) then (Inl (Shut ''fixed_mul: overflow''), s) else (Inr (rounded f (c * v)), s))"
  by (auto simp: fixed_mul_def configured_def rounded_def fw_unfold drop_bit_eq_div Let_def word_le_nat_alt)

lemma fixed_mul_run:
  "configured f sf \<Longrightarrow> fixed_mul sf c v s = (Inr r, s') \<longleftrightarrow> r = rounded f (c * v) \<and> s' = s \<and> \<not> overflows_int32 (rounded f (c * v))"
  by (auto simp: fixed_mul_eq)

lemma i32_run: "i32 v s = (Inr r, s') \<longleftrightarrow> r = v \<and> s' = s \<and> \<not> overflows_int32 v"
  by (auto simp: i32_def fw_simps)

lemma bnd_Inr_iff:
  "bnd m f s = (Inr r, t) \<longleftrightarrow> (\<exists>x s'. m s = (Inr x, s') \<and> f x s' = (Inr r, t))"
  by (auto simp: bnd_def split: sum.splits prod.splits)

lemma set_section_run:
  "k < length (sf_filter (sos_filters s i)) \<Longrightarrow> set_section i k f s =
    (Inr (), s\<lparr>sos_filters := (sos_filters s)(i := (sos_filters s i)\<lparr>sf_filter := (sf_filter (sos_filters s i))
      [k := f (sf_filter (sos_filters s i) ! k)]\<rparr>)\<rparr>)"
  by (simp add: set_section_def fw_simps)

lemma section_step_run:
  assumes "configured f (sos_filters s i)" and "k < length (sf_filter (sos_filters s i))"
    and "sec = sf_filter (sos_filters s i) ! k" and "fs_state sec = state_of f (fs_coeff sec) h"
    and "section_step i k x s = (Inr y, s')"
  shows "y = section_output f (fs_coeff sec) h x \<and>
    s' = s\<lparr>sos_filters := (sos_filters s)(i := (sos_filters s i)\<lparr>sf_filter := (sf_filter (sos_filters s i))
      [k := sec\<lparr>fs_state := state_of f (fs_coeff sec) (next_history f (fs_coeff sec) h x)\<rparr>]\<rparr>)\<rparr>"
proof -
  obtain x1 x2 y1 y2 where h: "h = ((x1, x2), (y1, y2))" by (metis prod.exhaust)
  show ?thesis
    using assms(2,5) unfolding section_step_def h
    by (clarsimp simp: gets_run thn_run bnd_Inr_iff Let_def assms(3) [symmetric] fixed_mul_run [OF assms(1)] i32_run
      set_section_run ret_run assms(4) h)
qed

text \<open>Without overflow a section returns.\<close>

definition section_fits :: "nat \<Rightarrow> sos_filter_section \<Rightarrow> int \<Rightarrow> bool" where
  "section_fits f sec x \<longleftrightarrow>
    (let c = fs_coeff sec; y = rounded f (c ! 0 * x) + fs_state sec ! 0; d = rounded f (c ! 1 * x) - rounded f (c ! 3 * y) in
     list_all (\<lambda>v. \<not> overflows_int32 v) [rounded f (c ! 0 * x), y, rounded f (c ! 1 * x), rounded f (c ! 3 * y), d,
       d + fs_state sec ! 1, rounded f (c ! 2 * x), rounded f (c ! 4 * y), rounded f (c ! 2 * x) - rounded f (c ! 4 * y)])"

lemma section_step_returns:
  assumes "configured f (sos_filters s i)" and "k < length (sf_filter (sos_filters s i))"
    and "section_fits f (sf_filter (sos_filters s i) ! k) x"
  shows "\<exists>s'. section_step i k x s =
    (Inr (rounded f (fs_coeff (sf_filter (sos_filters s i) ! k) ! 0 * x) + fs_state (sf_filter (sos_filters s i) ! k) ! 0), s')"
  using assms(2,3) unfolding section_step_def section_fits_def
  by (simp add: gets_run thn_run bnd_Inr Let_def fixed_mul_eq [OF assms(1)] i32_def set_section_run ret_run)

text \<open>One sample through all sections, each with its history.\<close>

fun cascade_step :: "nat \<Rightarrow> int list list \<Rightarrow> history list \<Rightarrow> int \<Rightarrow> int \<times> history list" where
  "cascade_step f (c # cs) (h # hs) x =
    (let (z, hs') = cascade_step f cs hs (section_output f c h x) in (z, next_history f c h x # hs'))"
| "cascade_step f cs hs x = (x, [])"

definition at_histories :: "nat \<Rightarrow> nat \<Rightarrow> int list list \<Rightarrow> history list \<Rightarrow> sos_filter \<Rightarrow> bool" where
  "at_histories f k cs hs sf \<longleftrightarrow> length hs = length cs \<and> k + length cs \<le> length (sf_filter sf) \<and>
    (\<forall>j<length cs. fs_coeff (sf_filter sf ! (k + j)) = cs ! j \<and> fs_state (sf_filter sf ! (k + j)) = state_of f (cs ! j) (hs ! j))"

lemma at_histories_Cons:
  "at_histories f k (c # cs) (h # hs) sf \<longleftrightarrow> k < length (sf_filter sf) \<and> fs_coeff (sf_filter sf ! k) = c \<and>
    fs_state (sf_filter sf ! k) = state_of f c h \<and> at_histories f (Suc k) cs hs sf"
  by (auto simp: at_histories_def nth_Cons All_less_Suc2)

definition same_setup :: "sos_filter \<Rightarrow> sos_filter \<Rightarrow> bool" where
  "same_setup sf sf' \<longleftrightarrow> sf_n_sections sf' = sf_n_sections sf \<and> sf_is_active sf' = sf_is_active sf \<and>
    sf_coeff_frac_bits sf' = sf_coeff_frac_bits sf \<and> sf_coeff_rounding sf' = sf_coeff_rounding sf"

lemma same_setup_simps [simp]: "same_setup sf sf" "same_setup sf (sf\<lparr>sf_filter := x\<rparr>)"
  by (simp_all add: same_setup_def)

lemma sections_loop_run:
  "configured f (sos_filters s i) \<Longrightarrow> at_histories f k cs hs (sos_filters s i) \<Longrightarrow>
    sections_loop (length cs) i k x s = (Inr z, s') \<Longrightarrow>
    z = fst (cascade_step f cs hs x) \<and> at_histories f k cs (snd (cascade_step f cs hs x)) (sos_filters s' i) \<and>
    same_setup (sos_filters s i) (sos_filters s' i) \<and>
    (\<forall>j<k. sf_filter (sos_filters s' i) ! j = sf_filter (sos_filters s i) ! j) \<and>
    length (sf_filter (sos_filters s' i)) = length (sf_filter (sos_filters s i))"
proof (induction cs arbitrary: hs k x s)
  case Nil
  then show ?case by (auto simp: ret_run at_histories_def)
next
  case (Cons c cs)
  obtain h hs' where hs: "hs = h # hs'" using Cons.prems(2) by (cases hs) (auto simp: at_histories_def)
  let ?sf = "sos_filters s i"
  have k: "k < length (sf_filter ?sf)" "fs_coeff (sf_filter ?sf ! k) = c" "fs_state (sf_filter ?sf ! k) = state_of f c h"
    "at_histories f (Suc k) cs hs' ?sf"
    using Cons.prems(2) unfolding hs at_histories_Cons by auto
  obtain y s1 where y: "section_step i k x s = (Inr y, s1)" and rest: "sections_loop (length cs) i (Suc k) y s1 = (Inr z, s')"
    using Cons.prems(3) by (auto simp: bnd_Inr_iff)
  define sec where "sec = (sf_filter ?sf ! k)\<lparr>fs_state := state_of f c (next_history f c h x)\<rparr>"
  have s1: "y = section_output f c h x" "sos_filters s1 i = ?sf\<lparr>sf_filter := (sf_filter ?sf)[k := sec]\<rparr>"
    using section_step_run [OF Cons.prems(1) k(1) refl _ y, of h] k(2,3) by (auto simp: sec_def)
  have c1: "configured f (sos_filters s1 i)" using Cons.prems(1) by (simp add: s1(2) configured_def)
  have h1: "at_histories f (Suc k) cs hs' (sos_filters s1 i)" using k(4) by (simp add: s1(2) at_histories_def)
  note r = Cons.IH [OF c1 h1 rest]
  show ?case
    using r s1 k by (auto simp: hs at_histories_Cons split_beta Let_def sec_def same_setup_def)
qed

fun cascade_run :: "nat \<Rightarrow> int list list \<Rightarrow> history list \<Rightarrow> int list \<Rightarrow> int list" where
  "cascade_run f cs hs [] = []"
| "cascade_run f cs hs (x # xs) = (let (z, hs') = cascade_step f cs hs x in z # cascade_run f cs hs' xs)"

lemma cascade_run_Nil: "cascade_run f [] hs xs = xs"
  by (induction xs arbitrary: hs) simp_all

lemma cascade_run_Cons:
  "cascade_run f (c # cs) (h # hs) xs = cascade_run f cs hs (difference_equation f c (fst h) (snd h) xs)"
proof (induction xs arbitrary: h hs)
  case Nil
  show ?case by (cases h; cases "fst h"; cases "snd h") simp
next
  case (Cons x xs)
  obtain x1 x2 y1 y2 where h: "h = ((x1, x2), (y1, y2))" by (metis prod.exhaust)
  have y: "section_output f c ((x1, x2), (y1, y2)) x = rounded f (c ! 0 * x) + rounded f (c ! 1 * x1) - rounded f (c ! 3 * y1)
      + rounded f (c ! 2 * x2) - rounded f (c ! 4 * y2)" by simp
  show ?case using Cons.IH by (simp add: h y split_beta Let_def del: section_output.simps)
qed

lemma cascade_run_rest:
  "cascade_run f cs (replicate (length cs) ((0, 0), (0, 0))) xs = cascade f cs xs"
  unfolding cascade_def by (induction cs arbitrary: xs) (simp_all add: cascade_run_Nil cascade_run_Cons)

lemma state_of_rest: "0 < f \<Longrightarrow> state_of f c ((0, 0), (0, 0)) = [0, 0]"
  by (simp add: rounded_def)

definition filter_ready :: "nat \<Rightarrow> int list list \<Rightarrow> sos_filter \<Rightarrow> bool" where
  "filter_ready f cs sf \<longleftrightarrow> configured f sf \<and> sf_is_active sf \<noteq> 0 \<and> unat (sf_n_sections sf) = length cs"

lemma sosfilt_run:
  assumes "filter_ready f cs (sos_filters s i)" and "at_histories f 0 cs hs (sos_filters s i)"
    and "sosfilt i x s = (Inr z, s')"
  shows "z = fst (cascade_step f cs hs x) \<and> at_histories f 0 cs (snd (cascade_step f cs hs x)) (sos_filters s' i) \<and>
    filter_ready f cs (sos_filters s' i)"
proof (cases cs)
  case Nil
  then have "sf_n_sections (sos_filters s i) = 0" using assms(1) by (simp add: filter_ready_def unat_eq_0)
  then show ?thesis using assms Nil by (auto simp: sosfilt_def filter_ready_def fw_simps at_histories_def)
next
  case (Cons c cs')
  then have "sf_n_sections (sos_filters s i) \<noteq> 0" using assms(1) by (auto simp: filter_ready_def)
  then have run: "sections_loop (length cs) i 0 x s = (Inr z, s')"
    using assms(1,3) by (simp add: sosfilt_def filter_ready_def fw_simps)
  have "configured f (sos_filters s i)" using assms(1) by (simp add: filter_ready_def)
  from sections_loop_run [OF this assms(2) run] assms(1) show ?thesis
    by (simp add: filter_ready_def configured_def same_setup_def)
qed

text \<open>
  C28: The filter computes what its coefficients describe.  Whatever samples a filter at rest accepts,
  its outputs are those of the difference equations of its sections, one after the
  other, with every product rounded to the nearest value.
\<close>

theorem sosfilt_difference_equation:
  assumes "filter_ready f cs (sos_filters s i)"
    and "\<forall>j<length cs. j < length (sf_filter (sos_filters s i)) \<and>
      sf_filter (sos_filters s i) ! j = \<lparr>fs_coeff = cs ! j, fs_state = [0, 0]\<rparr>"
    and "sosfilt_all i xs s = (Inr ys, s')"
  shows "ys = cascade f cs xs"
proof -
  have run: "filter_ready f cs (sos_filters s i) \<Longrightarrow> at_histories f 0 cs hs (sos_filters s i) \<Longrightarrow>
      sosfilt_all i xs s = (Inr ys, s') \<Longrightarrow> ys = cascade_run f cs hs xs" for hs
  proof (induction xs arbitrary: s ys hs)
    case (Cons x xs)
    obtain y s1 zs where y: "sosfilt i x s = (Inr y, s1)" "sosfilt_all i xs s1 = (Inr zs, s')" "ys = y # zs"
      using Cons.prems(3) by (auto simp: bnd_Inr_iff ret_run)
    from sosfilt_run [OF Cons.prems(1,2) y(1)] Cons.IH [OF _ _ y(2)] y(3) show ?case
      by (simp add: split_beta Let_def)
  qed (simp add: ret_run)
  have "0 < f" using assms(1) by (simp add: filter_ready_def configured_def)
  moreover have "length cs \<le> length (sf_filter (sos_filters s i))"
    using assms(2) by (cases cs) (auto simp: Suc_le_eq)
  ultimately have "at_histories f 0 cs (replicate (length cs) ((0, 0), (0, 0))) (sos_filters s i)"
    using assms(2) by (simp add: at_histories_def state_of_rest del: state_of.simps)
  from run [OF assms(1) this assms(3)] show ?thesis by (simp add: cascade_run_rest)
qed

text \<open>Each rounded product is within half a unit of the exact one.\<close>

lemma rounded_error:
  assumes "0 < f"
  shows "2 * \<bar>rounded f p * 2 ^ f - p\<bar> \<le> 2 ^ f"
proof -
  define h :: int where "h = 2 ^ (f - 1)"
  define m where "m = (p + h) mod 2 ^ f"
  have f: "2 ^ f = 2 * h" using assms by (simp add: h_def flip: power_Suc)
  have "rounded f p * 2 ^ f = p + h - m"
    by (simp add: rounded_def h_def m_def minus_mod_eq_div_mult)
  then have q: "rounded f p * 2 ^ f - p = h - m" by simp
  have "0 \<le> m" "m < 2 * h" by (simp_all add: m_def flip: f)
  then show ?thesis unfolding q unfolding f by (simp add: abs_if)
qed

definition example_sos_filter :: sos_filter where
  "example_sos_filter = \<lparr>sf_max_sections = 1, sf_n_sections = 1, sf_coeff_frac_bits = 30, sf_is_active = 1,
    sf_coeff_rounding = 0x20000000, sf_filter = [\<lparr>fs_coeff = [0x20000000, 0x20000000, 0, 0, 0], fs_state = [0, 0]\<rparr>]\<rparr>"

definition example_sos_s :: sos_s where
  "example_sos_s = stepper_s.extend (queued_stepper_s True SF_SINGLE_SCHED) \<lparr>sos_filters = (\<lambda>_. example_sos_filter)\<rparr>"

lemma one_section:
  assumes "filter_ready f [c] (sos_filters s i)" and "sf_filter (sos_filters s i) = [\<lparr>fs_coeff = c, fs_state = state_of f c h\<rparr>]"
    and "section_fits f \<lparr>fs_coeff = c, fs_state = state_of f c h\<rparr> x"
  shows "\<exists>z s'. sosfilt i x s = (Inr z, s') \<and> filter_ready f [c] (sos_filters s' i) \<and>
    sf_filter (sos_filters s' i) = [\<lparr>fs_coeff = c, fs_state = state_of f c (next_history f c h x)\<rparr>]"
proof -
  have conf: "configured f (sos_filters s i)" and n: "sf_is_active (sos_filters s i) \<noteq> 0"
      "unat (sf_n_sections (sos_filters s i)) = 1" "sf_n_sections (sos_filters s i) \<noteq> 0"
    using assms(1) by (auto simp: filter_ready_def)
  obtain z s' where z: "section_step i 0 x s = (Inr z, s')"
    using section_step_returns [OF conf, of 0 x] assms(2,3) by auto
  have "sosfilt i x s = (Inr z, s')"
    using n z by (simp add: sosfilt_def fw_simps)
  moreover have "sos_filters s' i = (sos_filters s i)\<lparr>sf_filter := [\<lparr>fs_coeff = c, fs_state = state_of f c (next_history f c h x)\<rparr>]\<rparr>"
    using section_step_run [OF conf _ refl _ z, of h] assms(2) by simp
  ultimately show ?thesis using assms(1) by (simp add: filter_ready_def configured_def)
qed

theorem sosfilt_difference_equation_witness:
  "\<exists>s'. sosfilt_all 0 [10, 20] example_sos_s = (Inr (cascade 30 [[0x20000000, 0x20000000, 0, 0, 0]] [10, 20]), s') \<and>
    cascade 30 [[0x20000000, 0x20000000, 0, 0, 0]] [10, 20] = [5, 15]"
proof -
  let ?c = "[0x20000000, 0x20000000, 0, 0, 0] :: int list"
  have f: "sos_filters example_sos_s 0 = example_sos_filter"
    by (simp add: example_sos_s_def stepper_s.defs)
  have ready: "filter_ready 30 [?c] (sos_filters example_sos_s 0)"
    by (simp add: f filter_ready_def configured_def example_sos_filter_def)
  have sec: "sf_filter (sos_filters example_sos_s 0) = [\<lparr>fs_coeff = ?c, fs_state = state_of 30 ?c ((0, 0), (0, 0))\<rparr>]"
    by (simp add: f example_sos_filter_def rounded_def)
  have secs: "\<forall>j<length [?c]. j < length (sf_filter (sos_filters example_sos_s 0)) \<and>
      sf_filter (sos_filters example_sos_s 0) ! j = \<lparr>fs_coeff = [?c] ! j, fs_state = [0, 0]\<rparr>"
    by (simp add: f example_sos_filter_def)
  have "section_fits 30 \<lparr>fs_coeff = ?c, fs_state = state_of 30 ?c ((0, 0), (0, 0))\<rparr> 10"
    by (simp add: section_fits_def Let_def rounded_def overflows_int32_def)
  from one_section [OF ready sec this] obtain z1 s1 where 1: "sosfilt 0 10 example_sos_s = (Inr z1, s1)"
    "filter_ready 30 [?c] (sos_filters s1 0)"
    "sf_filter (sos_filters s1 0) = [\<lparr>fs_coeff = ?c, fs_state = state_of 30 ?c (next_history 30 ?c ((0, 0), (0, 0)) 10)\<rparr>]"
    by blast
  have "section_fits 30 \<lparr>fs_coeff = ?c, fs_state = state_of 30 ?c (next_history 30 ?c ((0, 0), (0, 0)) 10)\<rparr> 20"
    by (simp add: section_fits_def Let_def rounded_def overflows_int32_def)
  from one_section [OF 1(2,3) this] obtain z2 s2 where 2: "sosfilt 0 20 s1 = (Inr z2, s2)" by blast
  have "sosfilt_all 0 [10, 20] example_sos_s = (Inr [z1, z2], s2)" using 1(1) 2 by (simp add: fw_simps)
  moreover note sosfilt_difference_equation [OF ready secs this]
  ultimately show ?thesis by (simp add: cascade_def rounded_def)
qed

text \<open>
  The check of the section index lets the index \<open>max_sections\<close> pass, for which there is no room: setting
  it is a write behind the filter.
\<close>

lemma set_section_overruns:
  assumes "oid_lookup (ucast oid) ''sos_filter'' s = (Inr i, s)"
    and "length (sf_filter (sos_filters s i)) = unat (sf_max_sections (sos_filters s i))"
    and "ucast idx = sf_max_sections (sos_filters s i)"
  shows "fst (command_sos_filter_set_section [oid, idx, c0, c1, c2, c3, c4] s) = Inl Stuck"
  using assms by (simp add: command_sos_filter_set_section_def sos_filter_oid_lookup_def validate_section_index_def
      set_section_def fw_simps Let_def)

text \<open>The products are checked for overflow, but their sum with the state is not.\<close>

lemma sum_overflows:
  assumes "configured f (sos_filters s i)" and "k < length (sf_filter (sos_filters s i))"
    and "fs_coeff (sf_filter (sos_filters s i) ! k) ! 0 = 2 ^ f" and "fs_state (sf_filter (sos_filters s i) ! k) ! 0 = 1"
  shows "section_step i k (2 ^ 31 - 1) s = (Inl Stuck, s)"
proof -
  have "0 < f" using assms(1) by (simp add: configured_def)
  then have "(2 :: int) ^ (f - 1) < 2 ^ f" by simp
  then have "rounded f (2 ^ f * (2 ^ 31 - 1)) = 2 ^ 31 - 1" by (simp add: rounded_def div_pos_pos_trivial)
  then show ?thesis using assms by (simp add: section_step_def fw_simps Let_def fixed_mul_eq [OF assms(1)] overflows_int32_def i32_def)
qed

end
