(* ===== verification/Load_cell_probe.thy ===== *)
theory Load_cell_probe
  imports Sos_filter
begin

text \<open>
  End stops on a load cell (\<^verbatim>\<open>src/load_cell_probe.c\<close> of Kalico): each sample of the force is checked
  against a safety range, converted to grams, filtered, and compared with the trigger force; a
  watchdog timer checks that samples keep arriving.  The timer of the probe with id \<open>oid\<close> is
  \<open>T_obj oid 0\<close>.  The trigger is the one of theory Trsync, whose code both firmwares share.
\<close>

section \<open>State\<close>

definition FIXEDQ2 :: nat where "FIXEDQ2 = 2"
definition FIXEDQ2_FRAC_BITS :: nat where "FIXEDQ2_FRAC_BITS = (32 - FIXEDQ2) - 1"
definition FIXEDQ32_FRAC_BITS :: nat where "FIXEDQ32_FRAC_BITS = FIXEDQ2_FRAC_BITS"
definition FIXEDQ16 :: nat where "FIXEDQ16 = 16"
definition FIXEDQ16_FRAC_BITS :: nat where "FIXEDQ16_FRAC_BITS = (32 - FIXEDQ16) - 1"
definition FIXEDQ48_FRAC_BITS :: nat where "FIXEDQ48_FRAC_BITS = FIXEDQ16_FRAC_BITS"

definition MAX_TRIGGER_GRAMS :: u32 where "MAX_TRIGGER_GRAMS = push_bit FIXEDQ16 1 - 1"
definition ERROR_SAFETY_RANGE :: u8 where "ERROR_SAFETY_RANGE = 0"
definition ERROR_OVERFLOW :: u8 where "ERROR_OVERFLOW = 1"
definition ERROR_WATCHDOG :: u8 where "ERROR_WATCHDOG = 2"

definition FLAG_IS_HOMING :: u8 where "FLAG_IS_HOMING = 1"
definition FLAG_IS_HOMING_TRIGGER :: u8 where "FLAG_IS_HOMING_TRIGGER = 2"
definition FLAG_AWAIT_HOMING :: u8 where "FLAG_AWAIT_HOMING = 4"

record load_cell_probe =
  lp_trigger_grams :: u32
  lp_trigger_ticks :: u32
  lp_last_sample_ticks :: u32
  lp_rest_ticks :: u32
  lp_homing_start_time :: u32
  lp_ts :: "nat option"
  lp_safety_counts_min :: int
  lp_safety_counts_max :: int
  lp_tare_counts :: int
  lp_flags :: u8
  lp_trigger_reason :: u8
  lp_error_reason :: u8
  lp_watchdog_max :: u8
  lp_watchdog_count :: u8
  lp_trigger_grams_fixed :: int
  lp_grams_per_count :: int
  lp_sf :: nat

definition zero_load_cell_probe :: load_cell_probe where
  "zero_load_cell_probe = \<lparr>lp_trigger_grams = 0, lp_trigger_ticks = 0, lp_last_sample_ticks = 0, lp_rest_ticks = 0,
    lp_homing_start_time = 0, lp_ts = None, lp_safety_counts_min = 0, lp_safety_counts_max = 0, lp_tare_counts = 0,
    lp_flags = 0, lp_trigger_reason = 0, lp_error_reason = 0, lp_watchdog_max = 0, lp_watchdog_count = 0,
    lp_trigger_grams_fixed = 0, lp_grams_per_count = 0, lp_sf = 0\<rparr>"

record load_cell_s = sos_s +
  load_cells :: "nat \<Rightarrow> load_cell_probe"

abbreviation lcp_upd :: "nat \<Rightarrow> (load_cell_probe \<Rightarrow> load_cell_probe) \<Rightarrow> ('a load_cell_s_scheme, unit) fw" where
  "lcp_upd p f \<equiv> upd (\<lambda>s. s\<lparr>load_cells := (load_cells s)(p := f (load_cells s p))\<rparr>)"

abbreviation lcp_time :: "nat \<Rightarrow> timer_id" where "lcp_time p \<equiv> T_obj p 0"

section \<open>Samples\<close>

text \<open>The conversion to grams; the subtraction is one of \<^verbatim>\<open>int32_t\<close>.\<close>

definition counts_to_grams :: "load_cell_probe \<Rightarrow> int \<Rightarrow> ('s, int) fw" where
  "counts_to_grams lcp counts =
    bnd (i32 (counts - lp_tare_counts lcp)) (\<lambda>delta.
    let product = delta * lp_grams_per_count lcp in
    ret (drop_bit (FIXEDQ32_FRAC_BITS - FIXEDQ48_FRAC_BITS) product))"

definition is_flag_set :: "u8 \<Rightarrow> load_cell_probe \<Rightarrow> bool" where
  "is_flag_set msk lcp \<longleftrightarrow> msk AND lp_flags lcp \<noteq> 0"

definition set_flag :: "u8 \<Rightarrow> nat \<Rightarrow> ('a load_cell_s_scheme, unit) fw" where
  "set_flag msk p = lcp_upd p (\<lambda>l. l\<lparr>lp_flags := lp_flags l OR msk\<rparr>)"

definition clear_flag :: "u8 \<Rightarrow> nat \<Rightarrow> ('a load_cell_s_scheme, unit) fw" where
  "clear_flag msk p = lcp_upd p (\<lambda>l. l\<lparr>lp_flags := lp_flags l AND NOT msk\<rparr>)"

definition do_trigger :: "nat \<Rightarrow> u8 \<Rightarrow> ('a load_cell_s_scheme, unit) fw" where
  "do_trigger p reason =
    bnd (gets (\<lambda>s. lp_ts (load_cells s p))) (\<lambda>ts. case ts of
      None \<Rightarrow> stuck
    | Some ts \<Rightarrow> trsync_do_trigger trsync_callback ts reason)"

definition try_trigger :: "nat \<Rightarrow> u32 \<Rightarrow> ('a load_cell_s_scheme, unit) fw" where
  "try_trigger p ticks =
    bnd (gets (\<lambda>s. is_flag_set FLAG_IS_HOMING_TRIGGER (load_cells s p))) (\<lambda>is_homing_triggered.
    if \<not> is_homing_triggered then
      thn (lcp_upd p (\<lambda>l. l\<lparr>lp_trigger_ticks := ticks\<rparr>))
      (thn (set_flag FLAG_IS_HOMING_TRIGGER p)
      (bnd (gets (\<lambda>s. lp_trigger_reason (load_cells s p))) (\<lambda>reason. do_trigger p reason)))
    else ret ())"

definition trigger_error :: "nat \<Rightarrow> u8 \<Rightarrow> ('a load_cell_s_scheme, unit) fw" where
  "trigger_error p error_code =
    bnd (gets (\<lambda>s. lp_error_reason (load_cells s p))) (\<lambda>error_reason. do_trigger p (error_reason + error_code))"

text \<open>\<^verbatim>\<open>abs\<close> of the least \<^verbatim>\<open>int32_t\<close> is undefined.\<close>

definition load_cell_probe_report_sample :: "nat \<Rightarrow> int \<Rightarrow> ('a load_cell_s_scheme, unit) fw" where
  "load_cell_probe_report_sample p sample =
    bnd (gets (\<lambda>s. is_flag_set FLAG_IS_HOMING (load_cells s p))) (\<lambda>is_homing.
    if \<not> is_homing then ret ()
    else
      bnd timer_read_time (\<lambda>ticks.
      thn (lcp_upd p (\<lambda>l. l\<lparr>lp_last_sample_ticks := ticks\<rparr>))
      (thn (lcp_upd p (\<lambda>l. l\<lparr>lp_watchdog_count := 0\<rparr>))
      (bnd (gets (\<lambda>s. load_cells s p)) (\<lambda>lcp.
      if is_flag_set FLAG_AWAIT_HOMING lcp \<and> timer_is_before ticks (lp_homing_start_time lcp) then ret ()
      else
        thn (clear_flag FLAG_AWAIT_HOMING p)
        (if sample \<le> lp_safety_counts_min lcp \<or> sample \<ge> lp_safety_counts_max lcp
         then trigger_error p ERROR_SAFETY_RANGE
         else
           bnd (counts_to_grams lcp sample) (\<lambda>raw_grams.
           if overflows_int32 raw_grams then trigger_error p ERROR_OVERFLOW
           else
             bnd (sosfilt (lp_sf lcp) raw_grams) (\<lambda>filtered_grams.
             if filtered_grams = - (2 ^ 31) then stuck
             else if \<bar>filtered_grams\<bar> \<ge> lp_trigger_grams_fixed lcp
             then bnd (gets (\<lambda>s. lp_last_sample_ticks (load_cells s p))) (\<lambda>last_ticks. try_trigger p last_ticks)
             else ret ()))))))))"

section \<open>The watchdog\<close>

definition watchdog_event :: "nat \<Rightarrow> ('a load_cell_s_scheme, sf) fw" where
  "watchdog_event p =
    bnd (gets (\<lambda>s. load_cells s p)) (\<lambda>lcp.
    if \<not> is_flag_set FLAG_IS_HOMING lcp \<or> is_flag_set FLAG_IS_HOMING_TRIGGER lcp then ret SF_DONE
    else
      thn (if lp_watchdog_count lcp > lp_watchdog_max lcp then trigger_error p ERROR_WATCHDOG else ret ())
      (thn (lcp_upd p (\<lambda>l. l\<lparr>lp_watchdog_count := lp_watchdog_count l + 1\<rparr>))
      (thn (upd (\<lambda>s. set_wake (lcp_time p) (tm_wake s (lcp_time p) + lp_rest_ticks lcp) s))
      (ret SF_RESCHEDULE))))"

section \<open>Commands\<close>

definition set_endstop_range :: "nat \<Rightarrow> int \<Rightarrow> int \<Rightarrow> int \<Rightarrow> u32 \<Rightarrow> int \<Rightarrow> ('a load_cell_s_scheme, unit) fw" where
  "set_endstop_range p safety_counts_min safety_counts_max tare_counts trigger_grams grams_per_count =
    thn (shutdown_if (\<not> safety_counts_max \<ge> safety_counts_min) ''Safety range reversed'')
    (thn (shutdown_if (trigger_grams > MAX_TRIGGER_GRAMS) ''trigger_grams too large'')
    (let one = 2 ^ FIXEDQ2_FRAC_BITS in
     thn (shutdown_if (grams_per_count < 0 \<or> grams_per_count \<ge> one) ''grams_per_count is invalid'')
     (lcp_upd p (\<lambda>l. l\<lparr>lp_safety_counts_min := safety_counts_min, lp_safety_counts_max := safety_counts_max,
        lp_tare_counts := tare_counts, lp_trigger_grams := trigger_grams,
        lp_trigger_grams_fixed := sint (push_bit FIXEDQ16_FRAC_BITS trigger_grams),
        lp_grams_per_count := grams_per_count\<rparr>))))"

definition command_config_load_cell_probe :: "nat \<Rightarrow> u32 list \<Rightarrow> ('a load_cell_s_scheme, unit) fw" where
  "command_config_load_cell_probe sizeof_lcp args = (case args of
      [oid, sos_filter_oid] \<Rightarrow>
        bnd (oid_alloc (ucast oid) ''load_cell_probe'' sizeof_lcp) (\<lambda>p.
        thn (lcp_upd p (\<lambda>_. zero_load_cell_probe))
        (bnd (sos_filter_oid_lookup (ucast sos_filter_oid)) (\<lambda>sf.
        thn (lcp_upd p (\<lambda>l. l\<lparr>lp_sf := sf\<rparr>))
        (set_endstop_range p 0 0 0 0 0))))
    | _ \<Rightarrow> stuck)"

definition load_cell_probe_oid_lookup :: "u8 \<Rightarrow> ('a load_cell_s_scheme, nat) fw" where
  "load_cell_probe_oid_lookup oid = oid_lookup oid ''load_cell_probe''"

definition command_load_cell_probe_set_range :: "u32 list \<Rightarrow> ('a load_cell_s_scheme, unit) fw" where
  "command_load_cell_probe_set_range args = (case args of
      [oid, safety_counts_min, safety_counts_max, tare_counts, trigger_grams, grams_per_count] \<Rightarrow>
        bnd (load_cell_probe_oid_lookup (ucast oid)) (\<lambda>p.
        set_endstop_range p (sint safety_counts_min) (sint safety_counts_max) (sint tare_counts) trigger_grams
          (sint grams_per_count))
    | _ \<Rightarrow> stuck)"

definition command_load_cell_probe_home :: "u32 list \<Rightarrow> ('a load_cell_s_scheme, unit) fw" where
  "command_load_cell_probe_home args = (case args of
      [oid, trsync_oid, trigger_reason, error_reason, clock, rest_ticks, timeout] \<Rightarrow>
        bnd (load_cell_probe_oid_lookup (ucast oid)) (\<lambda>p.
        thn (sched_del_timer (lcp_time p))
        (thn (clear_flag FLAG_IS_HOMING_TRIGGER p)
        (thn (clear_flag FLAG_IS_HOMING p)
        (thn (lcp_upd p (\<lambda>l. l\<lparr>lp_trigger_ticks := 0, lp_ts := None\<rparr>))
        (if error_reason = 0 then ret ()
         else
           bnd (trsync_oid_lookup (ucast trsync_oid)) (\<lambda>ts.
           thn (lcp_upd p (\<lambda>l. l\<lparr>lp_ts := Some ts, lp_trigger_reason := ucast trigger_reason,
             lp_error_reason := ucast error_reason\<rparr>))
           (thn (upd (set_wake (lcp_time p) clock))
           (thn (lcp_upd p (\<lambda>l. l\<lparr>lp_homing_start_time := clock, lp_rest_ticks := rest_ticks,
             lp_watchdog_max := ucast timeout, lp_watchdog_count := 0\<rparr>))
           (thn (set_flag FLAG_IS_HOMING p)
           (thn (set_flag FLAG_AWAIT_HOMING p)
           (sched_add_timer (lcp_time p)))))))))))) 
    | _ \<Rightarrow> stuck)"

definition command_load_cell_probe_query_state :: "u32 list \<Rightarrow> ('a load_cell_s_scheme, unit) fw" where
  "command_load_cell_probe_query_state args = (case args of
      [a_oid] \<Rightarrow>
        let oid = (ucast a_oid :: u8) in
        bnd (load_cell_probe_oid_lookup oid) (\<lambda>p.
        bnd (gets (\<lambda>s. load_cells s p)) (\<lambda>lcp.
        sendf ''load_cell_probe_state oid=%c is_homing_trigger=%c trigger_ticks=%u''
          [A_int (ucast oid), A_int (of_bool (is_flag_set FLAG_IS_HOMING_TRIGGER lcp)), A_int (lp_trigger_ticks lcp)]))
    | _ \<Rightarrow> stuck)"

section \<open>Triggering\<close>

text \<open>A probe whose trigger can fire and stops the steppers \<open>ls\<close>, and the state after it did.\<close>

definition armed :: "u32 \<Rightarrow> timer_id option \<Rightarrow> nat \<Rightarrow> nat \<Rightarrow> nat list \<Rightarrow> 'a load_cell_s_scheme \<Rightarrow> bool" where
  "armed b h p ts ls s \<longleftrightarrow> lp_ts (load_cells s p) = Some ts \<and> stop_inv b h s \<and> sig_rep s ts ls \<and> length ls \<le> 255 \<and>
    (\<forall>x\<in>set ls. h \<noteq> Some (step_time x)) \<and> ts_flags (trsyncs s ts) AND TSF_CAN_TRIGGER \<noteq> 0"

definition fired :: "u32 \<Rightarrow> nat \<Rightarrow> nat list \<Rightarrow> u8 \<Rightarrow> 'a load_cell_s_scheme \<Rightarrow> bool" where
  "fired b ts ls r s \<longleftrightarrow> (\<forall>st\<in>set ls. stopped b st s) \<and> ts_trigger_reason (trsyncs s ts) = r \<and>
    ts_flags (trsyncs s ts) AND TSF_CAN_TRIGGER = 0 \<and> task_wakes s ''trsync_wake'' = 1"

text \<open>Stopping the steppers does not touch the probes.\<close>

abbreviation same_probes :: "(nat \<Rightarrow> load_cell_probe) \<Rightarrow> 'a load_cell_s_scheme \<Rightarrow> bool" where
  "same_probes lc \<equiv> \<lambda>s. load_cells s = lc"

lemma free_moves_keeps: "keeps (same_probes lc) (free_moves n st)"
proof (induction n)
  case 0
  show ?case by (subst free_moves.simps) (auto intro!: fw_keeps)
next
  case (Suc n)
  show ?case
    by (subst free_moves.simps)
      (auto simp: move_queue_pop_def move_free_def intro!: fw_keeps keeps_upd Suc split: prod.split)
qed

lemma stepper_stop_keeps: "keeps (same_probes lc) (stepper_stop st r)"
  unfolding stepper_stop_def sched_del_timer_def gpio_out_write_def
  by (auto intro!: fw_keeps keeps_upd free_moves_keeps)

lemma callback_keeps: "keeps (same_probes lc) (trsync_callback f st r)"
  by (cases f) (simp add: stepper_stop_keeps)

lemma signal_loop_keeps: "keeps (same_probes lc) (signal_loop n trsync_callback ts r)"
proof (induction n)
  case 0
  show ?case by (subst signal_loop.simps) (auto intro!: fw_keeps)
next
  case (Suc n)
  show ?case
    by (subst signal_loop.simps) (auto simp del: trsync_callback.simps intro!: fw_keeps keeps_upd callback_keeps Suc)
qed

lemma do_trigger_keeps: "keeps (same_probes lc) (do_trigger p r)"
  unfolding do_trigger_def trsync_do_trigger_def sched_wake_task_def sched_wake_tasks_def
  by (auto intro!: fw_keeps keeps_upd signal_loop_keeps)

lemma do_trigger_fires:
  assumes "armed b h p ts ls s"
  shows "\<exists>s'. do_trigger p r s = (Inr (), s') \<and> fired b ts ls r s' \<and> load_cells s' = load_cells s"
proof -
  obtain s' where s': "do_trigger p r s = (Inr (), s')" "fired b ts ls r s'"
    using assms stop.do_trigger_run [of b h s ts ls r]
    by (auto simp: armed_def fired_def do_trigger_def fw_simps trigger_flags)
  then show ?thesis using keepsD [OF do_trigger_keeps [of "load_cells s"] refl, of p r] by auto
qed

lemma armed_frames:
  "lp_ts (lc p) = lp_ts (load_cells s p) \<Longrightarrow> armed b h p ts ls (s\<lparr>bd_clock_reads := n, load_cells := lc\<rparr>) = armed b h p ts ls s"
  "lp_ts (lc p) = lp_ts (load_cells s p) \<Longrightarrow> armed b h p ts ls (s\<lparr>load_cells := lc\<rparr>) = armed b h p ts ls s"
  "armed b h p ts ls (s\<lparr>sos_filters := sf\<rparr>) = armed b h p ts ls s"
proof -
  have t: "timers b us (s\<lparr>bd_clock_reads := n, load_cells := lc\<rparr>) = timers b us s"
    "timers b us (s\<lparr>load_cells := lc\<rparr>) = timers b us s" "timers b us (s\<lparr>sos_filters := sf\<rparr>) = timers b us s" for us
    by (rule timers_cong; simp)+
  show "lp_ts (lc p) = lp_ts (load_cells s p) \<Longrightarrow> armed b h p ts ls (s\<lparr>bd_clock_reads := n, load_cells := lc\<rparr>) = armed b h p ts ls s"
    "lp_ts (lc p) = lp_ts (load_cells s p) \<Longrightarrow> armed b h p ts ls (s\<lparr>load_cells := lc\<rparr>) = armed b h p ts ls s"
    "armed b h p ts ls (s\<lparr>sos_filters := sf\<rparr>) = armed b h p ts ls s"
    by (simp_all add: armed_def stop_inv_def shared_out_def free_rep_def mq_rep_def sig_rep_def t cong: if_cong)
qed

text \<open>Filtering changes only the filters.\<close>

lemma fixed_mul_keeps [fw_keeps]: "keeps P (fixed_mul sf c v)" and i32_keeps [fw_keeps]: "keeps P (i32 v)"
  unfolding fixed_mul_def i32_def Let_def by (auto intro!: fw_keeps)

lemma sections_loop_keeps:
  "keeps (\<lambda>t. \<exists>f. t = s\<lparr>sos_filters := f\<rparr>) (sections_loop n i k x)"
proof (induction n arbitrary: k x)
  case (Suc n)
  have "keeps (\<lambda>t. \<exists>f. t = s\<lparr>sos_filters := f\<rparr>) (sos_upd i f)" for f
    by (auto simp: keeps_def upd_def)
  then show ?case
    unfolding sections_loop.simps section_step_def set_section_def Let_def
    by (auto intro!: fw_keeps Suc)
qed (auto intro!: fw_keeps)

lemma sosfilt_frame: "sosfilt i x s = (r, s') \<Longrightarrow> s' = s\<lparr>sos_filters := sos_filters s'\<rparr>"
proof -
  assume r: "sosfilt i x s = (r, s')"
  have "keeps (\<lambda>t. \<exists>f. t = s\<lparr>sos_filters := f\<rparr>) (sosfilt i x)"
    unfolding sosfilt_def by (auto intro!: fw_keeps sections_loop_keeps)
  moreover have "\<exists>f. s = s\<lparr>sos_filters := f\<rparr>" by (intro exI [of _ "sos_filters s"]) simp
  ultimately have "\<exists>f. snd (sosfilt i x s) = s\<lparr>sos_filters := f\<rparr>" by (rule keepsD)
  then obtain f where "s' = s\<lparr>sos_filters := f\<rparr>" using r by auto
  then show ?thesis by simp
qed

section \<open>Properties\<close>

definition grams :: "load_cell_probe \<Rightarrow> int \<Rightarrow> int" where
  "grams lcp sample = (sample - lp_tare_counts lcp) * lp_grams_per_count lcp div 2 ^ 14"

definition unsafe :: "load_cell_probe \<Rightarrow> int \<Rightarrow> bool" where
  "unsafe lcp sample \<longleftrightarrow> sample \<le> lp_safety_counts_min lcp \<or> sample \<ge> lp_safety_counts_max lcp"

text \<open>What a sample should do, given its filtered value: the reason of the trigger, if any.\<close>

definition verdict :: "load_cell_probe \<Rightarrow> int \<Rightarrow> int \<Rightarrow> u8 option" where
  "verdict lcp sample filtered =
    (if unsafe lcp sample then Some (lp_error_reason lcp + ERROR_SAFETY_RANGE)
     else if overflows_int32 (grams lcp sample) then Some (lp_error_reason lcp + ERROR_OVERFLOW)
     else if \<bar>filtered\<bar> \<ge> lp_trigger_grams_fixed lcp \<and> \<not> is_flag_set FLAG_IS_HOMING_TRIGGER lcp
     then Some (lp_trigger_reason lcp)
     else None)"

lemma flag_kept:
  "FLAG_IS_HOMING_TRIGGER AND (x AND NOT FLAG_AWAIT_HOMING) = FLAG_IS_HOMING_TRIGGER AND x"
proof -
  have "FLAG_IS_HOMING_TRIGGER AND (x AND NOT FLAG_AWAIT_HOMING) = (FLAG_IS_HOMING_TRIGGER AND NOT FLAG_AWAIT_HOMING) AND x"
    by (simp only: ac_simps)
  also have "FLAG_IS_HOMING_TRIGGER AND NOT FLAG_AWAIT_HOMING = FLAG_IS_HOMING_TRIGGER"
    by (simp add: FLAG_IS_HOMING_TRIGGER_def FLAG_AWAIT_HOMING_def)
  finally show ?thesis .
qed

text \<open>
  The probe after the sample: the clock of the sample is noted, the watchdog count cleared, and the
  first sample whose force reaches the limit latches the trigger and its clock.
\<close>

definition judged :: "load_cell_probe \<Rightarrow> int \<Rightarrow> int \<Rightarrow> u32 \<Rightarrow> load_cell_probe" where
  "judged lcp sample filtered ticks =
    (let l1 = lcp\<lparr>lp_last_sample_ticks := ticks, lp_watchdog_count := 0,
       lp_flags := lp_flags lcp AND NOT FLAG_AWAIT_HOMING\<rparr>
     in if \<not> unsafe lcp sample \<and> \<not> overflows_int32 (grams lcp sample) \<and>
         \<bar>filtered\<bar> \<ge> lp_trigger_grams_fixed lcp \<and> \<not> is_flag_set FLAG_IS_HOMING_TRIGGER lcp
       then l1\<lparr>lp_trigger_ticks := ticks, lp_flags := lp_flags l1 OR FLAG_IS_HOMING_TRIGGER\<rparr>
       else l1)"

text \<open>The latch: a judged probe that fired for the force has the flag, and a later sample does not fire for it.\<close>

lemma judged_latched:
  "is_flag_set FLAG_IS_HOMING_TRIGGER (judged lcp sample filtered ticks) \<longleftrightarrow>
    is_flag_set FLAG_IS_HOMING_TRIGGER lcp \<or>
    \<not> unsafe lcp sample \<and> \<not> overflows_int32 (grams lcp sample) \<and> \<bar>filtered\<bar> \<ge> lp_trigger_grams_fixed lcp"
proof -
  have t: "FLAG_IS_HOMING_TRIGGER AND (x OR FLAG_IS_HOMING_TRIGGER) = FLAG_IS_HOMING_TRIGGER" "FLAG_IS_HOMING_TRIGGER \<noteq> 0" for x
    by (simp_all add: FLAG_IS_HOMING_TRIGGER_def bit.conj_disj_distrib)
  have k: "FLAG_IS_HOMING_TRIGGER AND (x AND NOT FLAG_AWAIT_HOMING) = FLAG_IS_HOMING_TRIGGER AND x" for x
    by (rule flag_kept)
  show ?thesis
    by (cases "is_flag_set FLAG_IS_HOMING_TRIGGER lcp") (auto simp: judged_def is_flag_set_def Let_def t k)
qed

text \<open>The state in which a sample is judged.\<close>

definition sampled :: "nat \<Rightarrow> 'a load_cell_s_scheme \<Rightarrow> 'a load_cell_s_scheme" where
  "sampled p s = s\<lparr>bd_clock_reads := Suc (bd_clock_reads s), load_cells := (load_cells s)(p := (load_cells s p)
    \<lparr>lp_last_sample_ticks := bd_clock s (bd_clock_reads s), lp_watchdog_count := 0,
     lp_flags := lp_flags (load_cells s p) AND NOT FLAG_AWAIT_HOMING\<rparr>)\<rparr>"

lemma counts_to_grams_run:
  "\<not> overflows_int32 (counts - lp_tare_counts lcp) \<Longrightarrow> counts_to_grams lcp counts s = (Inr (grams lcp counts), s)"
  by (simp add: counts_to_grams_def i32_def fw_simps Let_def grams_def drop_bit_eq_div FIXEDQ32_FRAC_BITS_def
      FIXEDQ48_FRAC_BITS_def FIXEDQ16_FRAC_BITS_def FIXEDQ2_FRAC_BITS_def FIXEDQ2_def FIXEDQ16_def)

text \<open>The sample up to the check of the safety range.\<close>

lemma report_sample_start:
  assumes "is_flag_set FLAG_IS_HOMING (load_cells s p)"
    and "\<not> (is_flag_set FLAG_AWAIT_HOMING (load_cells s p) \<and>
      timer_is_before (bd_clock s (bd_clock_reads s)) (lp_homing_start_time (load_cells s p)))"
  shows "load_cell_probe_report_sample p sample s =
    (if unsafe (load_cells s p) sample then trigger_error p ERROR_SAFETY_RANGE
     else
       bnd (counts_to_grams (load_cells s p) sample) (\<lambda>raw_grams.
       if overflows_int32 raw_grams then trigger_error p ERROR_OVERFLOW
       else
         bnd (sosfilt (lp_sf (load_cells s p)) raw_grams) (\<lambda>filtered_grams.
         if filtered_grams = - (2 ^ 31) then stuck
         else if \<bar>filtered_grams\<bar> \<ge> lp_trigger_grams_fixed (load_cells s p)
         then bnd (gets (\<lambda>s. lp_last_sample_ticks (load_cells s p))) (\<lambda>last_ticks. try_trigger p last_ticks)
         else ret ()))) (sampled p s)"
  using assms unfolding load_cell_probe_report_sample_def sampled_def
  by (simp add: gets_run timer_read_time_run thn_run bnd_Inr upd_run clear_flag_def unsafe_def is_flag_set_def
      counts_to_grams_def fun_upd_def cong: if_cong) blast

lemma trigger_error_fires:
  "armed b h p ts ls s \<Longrightarrow> \<exists>s'. trigger_error p e s = (Inr (), s') \<and>
    fired b ts ls (lp_error_reason (load_cells s p) + e) s' \<and> load_cells s' = load_cells s"
  using do_trigger_fires by (auto simp: trigger_error_def fw_simps)

text \<open>
  C26: A sample of a homing probe triggers exactly when it should, and latches.  A sample outside the
  safety range, or too large for the fixed point format, or whose filtered force reaches the limit for the
  first time, fires the trigger with the reason for that, and every registered stepper is stopped when the
  report returns; any other sample leaves the trigger as it is.  Afterwards the probe is the judged
  one: its watchdog count is cleared, and a sample that fired for the force has set the latch and noted its
  clock, so that no later sample fires for the force or changes that clock.
\<close>

theorem sample_decides:
  assumes "l = load_cells s p" and "is_flag_set FLAG_IS_HOMING l"
    and "\<not> (is_flag_set FLAG_AWAIT_HOMING l \<and> timer_is_before (bd_clock s (bd_clock_reads s)) (lp_homing_start_time l))"
    and "armed b h p ts ls s" and "\<not> overflows_int32 (sample - lp_tare_counts l)"
    and "unsafe l sample \<or> overflows_int32 (grams l sample) \<or>
      fst (sosfilt (lp_sf l) (grams l sample) (sampled p s)) = Inr v \<and> v \<noteq> - (2 ^ 31)"
  shows "\<exists>s'. load_cell_probe_report_sample p sample s = (Inr (), s') \<and>
    (case verdict l sample v of
       Some r \<Rightarrow> fired b ts ls r s'
     | None \<Rightarrow> trsyncs s' = trsyncs s \<and> steppers s' = steppers s \<and> armed b h p ts ls s') \<and>
    load_cells s' = (load_cells s)(p := judged l sample v (bd_clock s (bd_clock_reads s)))"
proof -
  let ?s = "sampled p s"
  have a: "armed b h p ts ls ?s"
    using assms(4) unfolding sampled_def by (subst armed_frames) simp_all
  have l: "lp_error_reason (load_cells ?s p) = lp_error_reason l" "lp_trigger_reason (load_cells ?s p) = lp_trigger_reason l"
    "is_flag_set FLAG_IS_HOMING_TRIGGER (load_cells ?s p) = is_flag_set FLAG_IS_HOMING_TRIGGER l"
    "trsyncs ?s = trsyncs s" "steppers ?s = steppers s"
    using assms(1) by (simp_all add: sampled_def is_flag_set_def flag_kept)
  note start = report_sample_start [OF assms(2,3) [unfolded assms(1)], of sample, folded assms(1)]
  have lc: "load_cells ?s = (load_cells s)(p := l\<lparr>lp_last_sample_ticks := bd_clock s (bd_clock_reads s), lp_watchdog_count := 0,
      lp_flags := lp_flags l AND NOT FLAG_AWAIT_HOMING\<rparr>)"
    by (simp add: sampled_def assms(1))
  note counts = counts_to_grams_run [OF assms(5), of ?s]
  show ?thesis
  proof (cases "unsafe l sample \<or> overflows_int32 (grams l sample)")
    case True
    obtain e where e: "load_cell_probe_report_sample p sample s = trigger_error p e ?s"
        "verdict l sample v = Some (lp_error_reason l + e)"
      using True unfolding start by (cases "unsafe l sample") (auto simp: verdict_def counts bnd_Inr)
    obtain s' where "trigger_error p e ?s = (Inr (), s')" "fired b ts ls (lp_error_reason l + e) s'" "load_cells s' = load_cells ?s"
      using trigger_error_fires [OF a, of e] by (auto simp: l)
    then show ?thesis using True e lc by (auto simp: judged_def Let_def)
  next
    case False
    then have f: "fst (sosfilt (lp_sf l) (grams l sample) ?s) = Inr v" "v \<noteq> - (2 ^ 31)" using assms(6) by auto
    obtain s2 where s2: "sosfilt (lp_sf l) (grams l sample) ?s = (Inr v, s2)" "s2 = ?s\<lparr>sos_filters := sos_filters s2\<rparr>"
      using f(1) sosfilt_frame by (metis prod.collapse)
    have a2: "armed b h p ts ls s2" using a armed_frames(3) s2(2) by metis
    have f2: "load_cells s2 = load_cells ?s" "trsyncs s2 = trsyncs s" "steppers s2 = steppers s"
      by (subst s2(2); simp add: l)+
    let ?ticks = "lp_last_sample_ticks (load_cells s2 p)"
    have ticks: "?ticks = bd_clock s (bd_clock_reads s)" by (simp add: f2 lc)
    have run: "load_cell_probe_report_sample p sample s =
        (if \<bar>v\<bar> \<ge> lp_trigger_grams_fixed l then try_trigger p ?ticks s2 else (Inr (), s2))"
      using False f(2) by (simp add: start counts s2(1) gets_run bnd_Inr ret_run)
    show ?thesis
    proof (cases "\<bar>v\<bar> \<ge> lp_trigger_grams_fixed l \<and> \<not> is_flag_set FLAG_IS_HOMING_TRIGGER l")
      case hit: True
      define s3 where "s3 = s2\<lparr>load_cells := (load_cells s2)(p := (load_cells s2 p)
        \<lparr>lp_trigger_ticks := ?ticks, lp_flags := lp_flags (load_cells s2 p) OR FLAG_IS_HOMING_TRIGGER\<rparr>)\<rparr>"
      have a3: "armed b h p ts ls s3" unfolding s3_def by (subst armed_frames(2)) (simp_all add: a2)
      obtain s4 where s4: "do_trigger p (lp_trigger_reason l) s3 = (Inr (), s4)" "fired b ts ls (lp_trigger_reason l) s4"
          "load_cells s4 = load_cells s3"
        using do_trigger_fires [OF a3] by blast
      have "lp_trigger_reason (load_cells s3 p) = lp_trigger_reason l" by (simp add: s3_def f2 l)
      moreover have "try_trigger p ?ticks s2 =
          bnd (gets (\<lambda>s. lp_trigger_reason (load_cells s p))) (\<lambda>reason. do_trigger p reason) s3"
        using conjunct2 [OF hit] by (simp add: try_trigger_def f2 l gets_run bnd_Inr thn_run upd_run set_flag_def s3_def)
      ultimately have "try_trigger p ?ticks s2 = (Inr (), s4)" using s4(1) by (simp add: gets_run bnd_Inr)
      moreover have "load_cells s4 = (load_cells s)(p := judged l sample v (bd_clock s (bd_clock_reads s)))"
        using False hit by (simp add: s4(3) s3_def f2 lc judged_def Let_def)
      ultimately show ?thesis using hit False s4(2) by (simp add: run verdict_def)
    next
      case quiet: False
      have "load_cell_probe_report_sample p sample s = (Inr (), s2)"
        using quiet by (auto simp: run try_trigger_def f2 l gets_run bnd_Inr ret_run)
      moreover have "load_cells s2 = (load_cells s)(p := judged l sample v (bd_clock s (bd_clock_reads s)))"
        using quiet by (auto simp: f2 lc judged_def Let_def)
      ultimately show ?thesis using quiet False a2 f2 by (auto simp: verdict_def)
    qed
  qed
qed

text \<open>A homing probe with a range of 1000 counts, half a gram per count, and a limit of 10 grams.\<close>

definition example_probe :: load_cell_probe where
  "example_probe = zero_load_cell_probe\<lparr>lp_ts := Some 5, lp_safety_counts_min := - 1000, lp_safety_counts_max := 1000,
    lp_flags := FLAG_IS_HOMING, lp_trigger_reason := 1, lp_error_reason := 4, lp_watchdog_max := 1,
    lp_trigger_grams_fixed := 327680, lp_grams_per_count := 2 ^ 28\<rparr>"

definition example_load_cell_s :: load_cell_s where
  "example_load_cell_s = sos_s.extend (stepper_s.extend (queued_stepper_s True SF_SINGLE_SCHED)
      \<lparr>sos_filters = (\<lambda>_. example_sos_filter\<lparr>sf_n_sections := 0\<rparr>)\<rparr>) \<lparr>load_cells = (\<lambda>_. example_probe)\<rparr>
    \<lparr>trsyncs := (\<lambda>_. zero_trsync\<lparr>ts_flags := TSF_CAN_TRIGGER, ts_signals := Some 2\<rparr>),
     sig_func := (\<lambda>_. Some CB_stepper_stop), timer_list := lcp_time 7,
     tm_next := (\<lambda>_. None)(lcp_time 7 := Some T_periodic, T_periodic := Some T_sentinel)\<rparr>"

lemmas example_load_cell_defs = example_load_cell_s_def queued_defs stepper_s.defs sos_s.defs

lemma example_armed: "armed 0 (Some (lcp_time 7)) 7 5 [2] example_load_cell_s"
proof -
  let ?s = example_load_cell_s
  have tm: "timers 0 [lcp_time 7, T_periodic, T_sentinel] ?s"
    by (simp add: timers_def queue_ok_def far_ok_def key_def off_def example_load_cell_defs)
  have "shared_out [] ((\<lambda>_. [])(2 := [8, 24])) ?s"
    by (auto simp: shared_out_def free_rep_def mq_rep_def example_load_cell_defs)
  moreover have "timer_list ?s = lcp_time 7" by (simp add: example_load_cell_defs)
  ultimately have "stop_inv 0 (Some (lcp_time 7)) ?s" using tm unfolding stop_inv_def by auto
  moreover have "sig_rep ?s 5 [2]" "ts_flags (trsyncs ?s 5) AND TSF_CAN_TRIGGER \<noteq> 0"
    by (simp_all add: sig_rep_def example_load_cell_defs TSF_CAN_TRIGGER_def)
  moreover have "lp_ts (load_cells ?s 7) = Some 5" by (simp add: example_load_cell_s_def sos_s.defs example_probe_def)
  ultimately show ?thesis by (simp add: armed_def)
qed

lemma example_probe_flags:
  "load_cells example_load_cell_s 7 = example_probe" "is_flag_set FLAG_IS_HOMING example_probe"
  "\<not> is_flag_set FLAG_AWAIT_HOMING example_probe" "\<not> is_flag_set FLAG_IS_HOMING_TRIGGER example_probe"
  by (simp_all add: example_load_cell_s_def sos_s.defs example_probe_def is_flag_set_def FLAG_IS_HOMING_def
      FLAG_AWAIT_HOMING_def FLAG_IS_HOMING_TRIGGER_def)

theorem sample_decides_witness:
  "\<exists>s'. load_cell_probe_report_sample 7 40 example_load_cell_s = (Inr (), s') \<and> fired 0 5 [2] 1 s' \<and>
    is_flag_set FLAG_IS_HOMING_TRIGGER (load_cells s' 7)"
proof -
  have g: "grams example_probe 40 = 655360" "lp_tare_counts example_probe = 0" "lp_sf example_probe = 0"
    by (simp_all add: grams_def example_probe_def zero_load_cell_probe_def)
  have f: "sos_filters (sampled 7 example_load_cell_s) 0 = example_sos_filter\<lparr>sf_n_sections := 0\<rparr>"
    by (simp add: sampled_def example_load_cell_s_def stepper_s.defs sos_s.defs)
  have v: "fst (sosfilt (lp_sf example_probe) (grams example_probe 40) (sampled 7 example_load_cell_s)) = Inr 655360"
    by (simp add: g sosfilt_def fw_simps f) (simp add: example_sos_filter_def fw_simps)
  have "verdict example_probe 40 655360 = Some 1 \<and>
      is_flag_set FLAG_IS_HOMING_TRIGGER (judged example_probe 40 655360 t)" for t
    unfolding judged_latched using example_probe_flags(4) by (simp add: verdict_def unsafe_def g overflows_int32_def) (simp add: example_probe_def zero_load_cell_probe_def)
  then show ?thesis
    using sample_decides [OF example_probe_flags(1) [symmetric] example_probe_flags(2) _ example_armed _ disjI2 [OF disjI2 [OF conjI [OF v]]]]
      example_probe_flags(3)
    by (fastforce simp: g overflows_int32_def)
qed

text \<open>
  The watchdog.  \<open>unsampled p n s s'\<close>: from \<open>s\<close> to \<open>s'\<close> the watchdog of probe \<open>p\<close> ran \<open>n\<close> times and
  no sample arrived, whatever else happened.
\<close>

inductive unsampled :: "nat \<Rightarrow> nat \<Rightarrow> 'a load_cell_s_scheme \<Rightarrow> 'a load_cell_s_scheme \<Rightarrow> bool" for p where
  start: "unsampled p 0 s s"
| watch: "unsampled p n s s1 \<Longrightarrow> watchdog_event p s1 = (Inr r, s2) \<Longrightarrow> unsampled p (Suc n) s s2"
| other: "unsampled p n s s1 \<Longrightarrow> load_cells s2 p = load_cells s1 p \<Longrightarrow> unsampled p n s s2"

text \<open>A run of the watchdog of a homing probe.\<close>

lemma watchdog_run:
  assumes "is_flag_set FLAG_IS_HOMING (load_cells s p)" and "\<not> is_flag_set FLAG_IS_HOMING_TRIGGER (load_cells s p)"
  shows "watchdog_event p s =
    bnd (if lp_watchdog_count (load_cells s p) > lp_watchdog_max (load_cells s p) then trigger_error p ERROR_WATCHDOG else ret ())
      (\<lambda>_ s'. (Inr SF_RESCHEDULE, set_wake (lcp_time p) (tm_wake s' (lcp_time p) + lp_rest_ticks (load_cells s p))
        (s'\<lparr>load_cells := (load_cells s')(p := (load_cells s' p)\<lparr>lp_watchdog_count := lp_watchdog_count (load_cells s' p) + 1\<rparr>)\<rparr>))) s"
  using assms by (simp add: watchdog_event_def gets_run bnd_Inr thn_run)
    (auto simp: thn_def bnd_def upd_def ret_def split: sum.splits prod.splits)

lemma unat_byte: "unat (x :: u8) < 256"
proof -
  have "unat x < 2 ^ LENGTH(8)" by (rule unsigned_less)
  then show ?thesis by simp
qed

lemma unsampled_count:
  assumes "unsampled p n s s1" and "is_flag_set FLAG_IS_HOMING (load_cells s p)"
    and "\<not> is_flag_set FLAG_IS_HOMING_TRIGGER (load_cells s p)" and "lp_watchdog_count (load_cells s p) = 0"
    and "n \<le> unat (lp_watchdog_max (load_cells s p)) + 1"
  shows "load_cells s1 p = (load_cells s p)\<lparr>lp_watchdog_count := of_nat n\<rparr>"
  using assms
proof (induction rule: unsampled.induct)
  case (start s)
  have "(load_cells s p)\<lparr>lp_watchdog_count := lp_watchdog_count (load_cells s p)\<rparr> = load_cells s p" by simp
  then show ?case using start(3) by simp
next
  case (watch n s s1 r s2)
  then have l: "load_cells s1 p = (load_cells s p)\<lparr>lp_watchdog_count := of_nat n\<rparr>" by simp
  have "n < 256" using watch.prems(4) unat_byte [of "lp_watchdog_max (load_cells s p)"] by simp
  then have "unat (of_nat n :: u8) = n" by (simp add: unat_of_nat_small)
  then have "\<not> of_nat n > lp_watchdog_max (load_cells s p)" using watch.prems(4) by (simp add: word_less_nat_alt)
  then have "s2 = set_wake (lcp_time p) (tm_wake s1 (lcp_time p) + lp_rest_ticks (load_cells s p))
    (s1\<lparr>load_cells := (load_cells s1)(p := (load_cells s1 p)\<lparr>lp_watchdog_count := of_nat (Suc n)\<rparr>)\<rparr>)"
    using watch.hyps(2) watchdog_run [of s1 p] watch.prems by (simp add: l is_flag_set_def fw_simps add.commute)
  then show ?case by (simp add: l )
qed simp_all

lemma watchdog_waits:
  assumes "unsampled p n s s'" and "is_flag_set FLAG_IS_HOMING (load_cells s p)"
    and "\<not> is_flag_set FLAG_IS_HOMING_TRIGGER (load_cells s p)" and "lp_watchdog_count (load_cells s p) = 0"
    and "n \<le> unat (lp_watchdog_max (load_cells s p))"
  shows "\<exists>s''. watchdog_event p s' = (Inr SF_RESCHEDULE, s'') \<and> trsyncs s'' = trsyncs s' \<and> steppers s'' = steppers s'"
proof -
  have l: "load_cells s' p = (load_cells s p)\<lparr>lp_watchdog_count := of_nat n\<rparr>"
    using unsampled_count [OF assms(1-4)] assms(5) by simp
  have "n < 256" using assms(5) unat_byte [of "lp_watchdog_max (load_cells s p)"] by simp
  then have "unat (of_nat n :: u8) = n" by (simp add: unat_of_nat_small)
  then have "\<not> of_nat n > lp_watchdog_max (load_cells s p)" using assms(5) by (simp add: word_less_nat_alt)
  then show ?thesis using watchdog_run [of s' p] assms(2,3) by (simp add: l is_flag_set_def fw_simps)
qed



text \<open>With the largest \<open>watchdog_max\<close> the 8-bit count cannot exceed it, and the watchdog never fires.\<close>

lemma watchdog_255_never:
  assumes "lp_watchdog_max (load_cells s p) = 255"
  shows "\<exists>r s'. watchdog_event p s = (Inr r, s') \<and> trsyncs s' = trsyncs s \<and> steppers s' = steppers s \<and>
    lp_watchdog_max (load_cells s' p) = 255"
proof -
  have "\<not> lp_watchdog_count (load_cells s p) > 255" using unat_byte [of "lp_watchdog_count (load_cells s p)"] by (simp add: word_less_nat_alt)
  then show ?thesis using assms by (simp add: watchdog_event_def fw_simps )
qed

end
