(* ===== verification/Sensor_bulk.thy ===== *)
theory Sensor_bulk
  imports Dispatch
begin

text \<open>
  Collecting and sending bulk measurements (\<^verbatim>\<open>src/sensor_bulk.c\<close>): samples gather in a buffer of 51
  bytes, which is sent with a sequence number whenever there is no room for another one.
\<close>

record sensor_bulk =
  sb_sequence :: u16
  sb_possible_overflows :: u16
  sb_data_count :: u8
  sb_data :: "u8 list"

definition zero_sensor_bulk :: sensor_bulk where
  "zero_sensor_bulk = \<lparr>sb_sequence = 0, sb_possible_overflows = 0, sb_data_count = 0, sb_data = replicate 51 0\<rparr>"

definition sensor_bulk_reset :: "sensor_bulk \<Rightarrow> sensor_bulk" where
  "sensor_bulk_reset sb = sb\<lparr>sb_sequence := 0, sb_possible_overflows := 0, sb_data_count := 0\<rparr>"

definition bulk_message :: "u8 \<Rightarrow> u16 \<Rightarrow> u8 list \<Rightarrow> message" where
  "bulk_message oid seqno data =
    (''sensor_bulk_data oid=%c sequence=%hu data=%*s'', [A_int (ucast oid), A_int (ucast seqno), A_bytes data])"

definition sensor_bulk_report :: "sensor_bulk \<Rightarrow> u8 \<Rightarrow> ('a board_scheme, sensor_bulk) fw" where
  "sensor_bulk_report sb oid =
    (let msg = bulk_message oid (sb_sequence sb) (take (unat (sb_data_count sb)) (sb_data sb)) in
     if unat (sb_data_count sb) > length (sb_data sb) then stuck
     else thn (sendf (fst msg) (snd msg)) (ret (sb\<lparr>sb_data_count := 0, sb_sequence := sb_sequence sb + 1\<rparr>)))"

definition sensor_bulk_status :: "sensor_bulk \<Rightarrow> u8 \<Rightarrow> u32 \<Rightarrow> u32 \<Rightarrow> u32 \<Rightarrow> ('a board_scheme, unit) fw" where
  "sensor_bulk_status sb oid time1 query_ticks fifo_len =
    sendf ''sensor_bulk_status oid=%c clock=%u query_ticks=%u next_sequence=%hu buffered=%u possible_overflows=%hu''
      [A_int (ucast oid), A_int time1, A_int query_ticks, A_int (ucast (sb_sequence sb)),
       A_int (ucast (sb_data_count sb) + fifo_len), A_int (ucast (sb_possible_overflows sb))]"

text \<open>
  How a sensor stores a sample of \<open>n\<close> bytes: it writes at the end of the data and reports when another
  sample would not fit.  A write outside the buffer is \<open>Stuck\<close>.
\<close>

definition bulk_store :: "nat \<Rightarrow> u8 list \<Rightarrow> sensor_bulk \<Rightarrow> u8 \<Rightarrow> ('a board_scheme, sensor_bulk) fw" where
  "bulk_store n d sb oid =
    (let pos = unat (sb_data_count sb) in
     if pos + length d > length (sb_data sb) then stuck
     else
       let sb' = sb\<lparr>sb_data := take pos (sb_data sb) @ d @ drop (pos + length d) (sb_data sb),
         sb_data_count := sb_data_count sb + of_nat n\<rparr> in
       if unat (sb_data_count sb') + n > length (sb_data sb') then sensor_bulk_report sb' oid else ret sb')"

section \<open>The stream of reports\<close>

fun store_all :: "nat \<Rightarrow> u8 \<Rightarrow> u8 list list \<Rightarrow> sensor_bulk \<Rightarrow> ('a board_scheme, sensor_bulk) fw" where
  "store_all n oid [] sb = ret sb"
| "store_all n oid (d # ds) sb = bnd (bulk_store n d sb oid) (\<lambda>sb. store_all n oid ds sb)"

text \<open>The samples of report \<open>k\<close>, with \<open>c\<close> in each, and all the reports.\<close>

definition chunk :: "nat \<Rightarrow> u8 list list \<Rightarrow> nat \<Rightarrow> u8 list" where
  "chunk c ds k = concat (take c (drop (k * c) ds))"

definition reports :: "nat \<Rightarrow> u8 \<Rightarrow> u8 list list \<Rightarrow> message list" where
  "reports c oid ds = map (\<lambda>k. bulk_message oid (of_nat k) (chunk c ds k)) [0..<length ds div c]"

lemma store_all_snoc: "store_all n oid (ds @ [d]) sb = bnd (store_all n oid ds sb) (\<lambda>sb. bulk_store n d sb oid)"
proof (induction ds arbitrary: sb)
  case Nil
  show ?case by (rule ext) (auto simp: bnd_def ret_def split: sum.splits prod.splits)
next
  case (Cons x ds)
  then show ?case by (intro ext) (simp add: bnd_def split: sum.splits prod.splits)
qed

lemma chunk_append: "k < length ds div c \<Longrightarrow> chunk c (ds @ [d]) k = chunk c ds k"
proof -
  assume k: "k < length ds div c"
  then have "Suc k * c \<le> length ds" by (metis Suc_leI div_times_less_eq_dividend le_trans mult_le_mono1)
  then show ?thesis by (simp add: chunk_def)
qed

definition bulk_ok :: "nat \<Rightarrow> u8 list list \<Rightarrow> sensor_bulk \<Rightarrow> bool" where
  "bulk_ok n ds sb \<longleftrightarrow> length (sb_data sb) = 51 \<and> unat (sb_data_count sb) = length ds mod (51 div n) * n \<and>
    sb_sequence sb = of_nat (length ds div (51 div n)) \<and>
    take (unat (sb_data_count sb)) (sb_data sb) = chunk (51 div n) ds (length ds div (51 div n))"

lemma reports_append:
  "0 < c \<Longrightarrow> reports c oid (ds @ [d]) = reports c oid ds @
    (if Suc (length ds) mod c = 0 then [bulk_message oid (of_nat (length ds div c)) (chunk c (ds @ [d]) (length ds div c))] else [])"
proof -
  assume c: "0 < c"
  have m: "map (\<lambda>k. bulk_message oid (of_nat k) (chunk c (ds @ [d]) k)) [0..<length ds div c] = reports c oid ds"
    by (simp add: reports_def chunk_append)
  show ?thesis
    using c m by (simp add: reports_def div_Suc)
qed

text \<open>The last, incomplete chunk.\<close>

lemma last_chunk:
  assumes "0 < c"
  shows "chunk c ds (length ds div c) = concat (drop (length ds div c * c) ds)"
    and "chunk c (ds @ [d]) (length ds div c) = chunk c ds (length ds div c) @ d"
    and "\<forall>x\<in>set ds. length x = n \<Longrightarrow> length (chunk c ds (length ds div c)) = length ds mod c * n"
proof -
  have r: "length ds - length ds div c * c = length ds mod c" by (simp add: minus_div_mult_eq_mod)
  have m: "length ds mod c < c" using assms by simp
  have q: "length ds div c * c \<le> length ds" by simp
  show "chunk c ds (length ds div c) = concat (drop (length ds div c * c) ds)"
    using r m by (simp add: chunk_def)
  show "chunk c (ds @ [d]) (length ds div c) = chunk c ds (length ds div c) @ d"
    using r m q by (simp add: chunk_def)
  show "length (chunk c ds (length ds div c)) = length ds mod c * n" if "\<forall>x\<in>set ds. length x = n"
  proof -
    have "length (concat xs) = length xs * n" if "\<forall>x\<in>set xs. length x = n" for xs :: "u8 list list"
      using that by (induction xs) auto
    moreover have "\<forall>x\<in>set (take c (drop (length ds div c * c) ds)). length x = n"
      using that by (meson in_set_dropD in_set_takeD)
    ultimately show ?thesis using r m by (simp add: chunk_def)
  qed
qed

lemma bulk_store_step:
  assumes n: "0 < n" "n \<le> 51" and ok: "bulk_ok n ds sb" and d: "length d = n" "\<forall>x\<in>set ds. length x = n"
    and idle: "bd_in_sendf s = 0" and con: "bd_console s = con @ reports (51 div n) oid ds"
  shows "\<exists>sb' s'. bulk_store n d sb oid s = (Inr sb', s') \<and> bulk_ok n (ds @ [d]) sb' \<and> bd_in_sendf s' = 0 \<and>
    bd_console s' = con @ reports (51 div n) oid (ds @ [d])"
proof -
  define c where "c = 51 div n"
  have c: "0 < c" "c * n \<le> 51" "51 < c * n + n"
    using n div_times_less_eq_dividend [of 51 n] dividend_less_div_times [OF n(1), of 51]
    by (simp_all add: c_def div_greater_zero_iff n)
  define r q where "r = length ds mod c" and "q = length ds div c"
  have sb: "length (sb_data sb) = 51" "unat (sb_data_count sb) = r * n" "sb_sequence sb = of_nat q"
    "take (r * n) (sb_data sb) = chunk c ds q"
    using ok unfolding bulk_ok_def c_def r_def q_def by metis+
  have "r < c" using c(1) by (simp add: r_def)
  then have fit: "r * n + n \<le> 51" "Suc r \<le> c" using c(2) mult_le_mono1 [of "Suc r" c n] by simp_all
  define sb1 where "sb1 = sb\<lparr>sb_data := take (r * n) (sb_data sb) @ d @ drop (r * n + n) (sb_data sb),
    sb_data_count := sb_data_count sb + of_nat n\<rparr>"
  have "unat (sb_data_count sb + of_nat n) = r * n + n"
    using sb(2) fit(1) n(2) by (simp add: unat_word_ariths unat_of_nat)
  moreover have "length (chunk c ds q) = r * n" using last_chunk(3) [OF c(1) d(2)] by (simp add: r_def q_def)
  ultimately have sb1: "length (sb_data sb1) = 51" "unat (sb_data_count sb1) = r * n + n" "sb_sequence sb1 = of_nat q"
    "take (r * n + n) (sb_data sb1) = chunk c (ds @ [d]) q"
    using sb fit(1) d(1) last_chunk(2) [OF c(1), of ds d] by (simp_all add: sb1_def q_def)
  have full: "r * n + n + n > 51 \<longleftrightarrow> Suc r = c"
  proof
    assume "r * n + n + n > 51"
    then have "c * n < (r + 2) * n" using c(2) by (simp add: algebra_simps)
    then have "c < r + 2" by (simp only: mult_less_cancel2)
    then show "Suc r = c" using fit(2) by simp
  qed (use c(3) in \<open>auto simp: algebra_simps\<close>)
  have store: "bulk_store n d sb oid s = (if Suc r = c then sensor_bulk_report sb1 oid s else (Inr sb1, s))"
    using sb fit(1) d(1) sb1(1,2) full by (simp add: bulk_store_def Let_def sb1_def ret_run)
  have mod: "Suc (length ds) mod c = (if Suc r = c then 0 else Suc r)" "Suc (length ds) div c = (if Suc r = c then Suc q else q)"
    by (simp_all add: r_def q_def mod_Suc div_Suc)
  show ?thesis
  proof (cases "Suc r = c")
    case True
    let ?msg = "bulk_message oid (of_nat q) (chunk c (ds @ [d]) q)"
    have "sensor_bulk_report sb1 oid s = (Inr (sb1\<lparr>sb_data_count := 0, sb_sequence := of_nat q + 1\<rparr>),
        s\<lparr>bd_console := bd_console s @ [?msg]\<rparr>)"
      using sb1 fit(1) idle by (simp add: sensor_bulk_report_def Let_def fw_simps sendf_def command_sendf_idle)
    moreover have "bulk_ok n (ds @ [d]) (sb1\<lparr>sb_data_count := 0, sb_sequence := of_nat q + 1\<rparr>)"
      using True sb1(1) mod last_chunk(3) [OF c(1), of "ds @ [d]" n] d
      by (simp add: bulk_ok_def c_def [symmetric] add.commute)
    ultimately show ?thesis
      using True store con idle mod reports_append [OF c(1), of oid ds d] by (simp add: c_def [symmetric] q_def)
  next
    case False
    have "bulk_ok n (ds @ [d]) sb1"
      using False sb1 mod by (simp add: bulk_ok_def c_def [symmetric] add.commute)
    then show ?thesis using False store con idle mod reports_append [OF c(1), of oid ds d] by (simp add: c_def [symmetric])
  qed
qed

text \<open>
  C30: The samples arrive as they were taken.  Whatever samples a sensor stores after a reset, no
  byte is written outside the buffer, the reports carry consecutive sequence numbers and as
  many samples as the buffer holds, and the data of all reports with what is still buffered
  are the samples, in order.
\<close>

theorem bulk_reports_samples:
  assumes "0 < n" and "n \<le> 51" and "\<forall>d\<in>set ds. length d = n" and "length (sb_data sb) = 51" and "bd_in_sendf s = 0"
  shows "\<exists>sb' s'. store_all n oid ds (sensor_bulk_reset sb) s = (Inr sb', s') \<and>
    bd_console s' = bd_console s @ reports (51 div n) oid ds \<and>
    take (unat (sb_data_count sb')) (sb_data sb') = chunk (51 div n) ds (length ds div (51 div n)) \<and>
    concat (map (chunk (51 div n) ds) [0..<Suc (length ds div (51 div n))]) = concat ds"
proof -
  have c: "0 < 51 div n" using assms(1,2) by (simp add: div_greater_zero_iff)
  have run: "\<exists>sb' s'. store_all n oid ds (sensor_bulk_reset sb) s = (Inr sb', s') \<and> bulk_ok n ds sb' \<and> bd_in_sendf s' = 0 \<and>
      bd_console s' = bd_console s @ reports (51 div n) oid ds"
    using assms(3)
  proof (induction ds rule: rev_induct)
    case Nil
    then show ?case using assms(4,5) by (simp add: ret_run bulk_ok_def sensor_bulk_reset_def reports_def chunk_def)
  next
    case (snoc d ds)
    then obtain sb1 s1 where 1: "store_all n oid ds (sensor_bulk_reset sb) s = (Inr sb1, s1)" "bulk_ok n ds sb1"
      "bd_in_sendf s1 = 0" "bd_console s1 = bd_console s @ reports (51 div n) oid ds" by auto
    from bulk_store_step [OF assms(1,2) 1(2) _ _ 1(3,4), of d] snoc.prems 1(1) show ?case
      by (simp add: store_all_snoc bnd_Inr)
  qed
  have cat: "concat (map (chunk c ds) [0..<k]) = concat (take (k * c) ds)" for k c
  proof (induction k)
    case (Suc k)
    have "take (k * c + c) ds = take (k * c) ds @ take c (drop (k * c) ds)" by (rule take_add)
    then show ?case using Suc by (simp add: chunk_def add.commute)
  qed simp
  have "concat (map (chunk (51 div n) ds) [0..<Suc (length ds div (51 div n))]) = concat ds"
    unfolding cat using c by (simp add: div_times_less_eq_dividend) (metis dividend_less_div_times less_imp_le take_all add.commute)
  then show ?thesis using run by (auto simp: bulk_ok_def)
qed

theorem bulk_reports_samples_witness:
  "\<exists>sb' s'. store_all 5 3 (replicate 11 [1, 2, 3, 4, 5]) (sensor_bulk_reset zero_sensor_bulk) idle_board = (Inr sb', s') \<and>
    bd_console s' = [bulk_message 3 0 (concat (replicate 10 [1, 2, 3, 4, 5]))] \<and>
    take (unat (sb_data_count sb')) (sb_data sb') = [1, 2, 3, 4, 5]"
proof -
  have "reports 10 3 (replicate 11 [1, 2, 3, 4, 5 :: u8]) = [bulk_message 3 0 (concat (replicate 10 [1, 2, 3, 4, 5]))]"
    "chunk 10 (replicate 11 [1, 2, 3, 4, 5 :: u8]) 1 = [1, 2, 3, 4, 5]"
    by (simp_all add: reports_def chunk_def)
  then show ?thesis
    using bulk_reports_samples [of 5 "replicate 11 [1, 2, 3, 4, 5]" zero_sensor_bulk idle_board 3]
    by (auto simp: zero_sensor_bulk_def idle_board_def)
qed

end
