(* ===== verification/Adxl345.thy ===== *)
theory Adxl345
  imports Spi Sensor_bulk
begin

text \<open>
  The accelerometer ADXL345 (\<^verbatim>\<open>src/sensor_adxl345.c\<close>), read over SPI.  The timer of the sensor with
  id \<open>oid\<close> is \<open>T_obj oid 0\<close>.
\<close>

section \<open>State\<close>

record adxl345 =
  ax_rest_ticks :: u32
  ax_spi :: nat
  ax_flags :: u8
  ax_sb :: sensor_bulk

definition zero_adxl345 :: adxl345 where
  "zero_adxl345 = \<lparr>ax_rest_ticks = 0, ax_spi = 0, ax_flags = 0, ax_sb = zero_sensor_bulk\<rparr>"

record adxl345_s = spi_s +
  adxl345s :: "nat \<Rightarrow> adxl345"

definition AX_PENDING :: u8 where "AX_PENDING = 1"

definition AR_DATAX0 :: u8 where "AR_DATAX0 = 0x32"
definition AR_FIFO_STATUS :: u8 where "AR_FIFO_STATUS = 0x39"
definition AM_READ :: u8 where "AM_READ = 0x80"
definition AM_MULTI :: u8 where "AM_MULTI = 0x40"
definition SET_FIFO_CTL :: u8 where "SET_FIFO_CTL = 0x90"
definition BYTES_PER_SAMPLE :: nat where "BYTES_PER_SAMPLE = 5"

abbreviation adxl_upd :: "nat \<Rightarrow> (adxl345 \<Rightarrow> adxl345) \<Rightarrow> ('a adxl345_s_scheme, unit) fw" where
  "adxl_upd i f \<equiv> upd (\<lambda>s. s\<lparr>adxl345s := (adxl345s s)(i := f (adxl345s s i))\<rparr>)"

abbreviation adxl_time :: "nat \<Rightarrow> timer_id" where "adxl_time i \<equiv> T_obj i 0"

section \<open>Timer and query\<close>

definition adxl345_event :: "nat \<Rightarrow> ('a adxl345_s_scheme, sf) fw" where
  "adxl345_event i =
    thn (adxl_upd i (\<lambda>a. a\<lparr>ax_flags := ax_flags a OR AX_PENDING\<rparr>))
    (thn (sched_wake_task ''adxl345_wake'')
    (ret SF_DONE))"

definition command_config_adxl345 :: "nat \<Rightarrow> u32 list \<Rightarrow> ('a adxl345_s_scheme, unit) fw" where
  "command_config_adxl345 sizeof_ax args = (case args of
      [oid, spi_oid] \<Rightarrow>
        bnd (oid_alloc (ucast oid) ''adxl345'' sizeof_ax) (\<lambda>i.
        thn (adxl_upd i (\<lambda>_. zero_adxl345))
        (bnd (spidev_oid_lookup (ucast spi_oid)) (\<lambda>spi.
        adxl_upd i (\<lambda>a. a\<lparr>ax_spi := spi\<rparr>))))
    | _ \<Rightarrow> stuck)"

definition adxl_reschedule_timer :: "nat \<Rightarrow> ('a adxl345_s_scheme, unit) fw" where
  "adxl_reschedule_timer i =
    bnd timer_read_time (\<lambda>now.
    thn (upd (\<lambda>s. set_wake (adxl_time i) (now + ax_rest_ticks (adxl345s s i)) s))
    (sched_add_timer (adxl_time i)))"

text \<open>
  The checks of a reading and the packing of its 13-bit values into 5 bytes; the result has the status
  of the chip's own buffer.
\<close>

definition adxl_glitch :: "u8 list \<Rightarrow> u8 \<Rightarrow> bool" where
  "adxl_glitch msg fifo_status \<longleftrightarrow>
    (msg ! 2 AND 0xf0 \<noteq> 0 \<and> msg ! 2 AND 0xf0 \<noteq> 0xf0) \<or> (msg ! 4 AND 0xf0 \<noteq> 0 \<and> msg ! 4 AND 0xf0 \<noteq> 0xf0) \<or>
    (msg ! 6 AND 0xf0 \<noteq> 0 \<and> msg ! 6 AND 0xf0 \<noteq> 0xf0) \<or> msg ! 7 \<noteq> SET_FIFO_CTL \<or> fifo_status > 32"

definition adxl_pack :: "u8 list \<Rightarrow> u8 list \<times> u8" where
  "adxl_pack msg =
    (let fifo_status = msg ! 8 AND NOT 0x80 in
     if adxl_glitch msg fifo_status then ([0xff, 0xff, 0xff, 0xff, 0xff], 0)
     else ([msg ! 1, msg ! 3, msg ! 5, (msg ! 2 AND 0x1f) OR push_bit 5 (msg ! 6),
            (msg ! 4 AND 0x1f) OR (push_bit 2 (msg ! 6) AND 0x60)], fifo_status))"

definition adxl_query :: "'a adxl345_s_scheme spi_hw \<Rightarrow> nat \<Rightarrow> ('a adxl345_s_scheme, unit) fw" where
  "adxl_query hw i =
    bnd (gets (\<lambda>s. ax_spi (adxl345s s i))) (\<lambda>spi.
    bnd (spidev_transfer hw spi True [AR_DATAX0 OR AM_READ OR AM_MULTI, 0, 0, 0, 0, 0, 0, 0, 0]) (\<lambda>msg.
    let (d, fifo_status) = adxl_pack msg in
    bnd (gets (\<lambda>s. ax_sb (adxl345s s i))) (\<lambda>sb.
    bnd (bulk_store BYTES_PER_SAMPLE d sb (of_nat i)) (\<lambda>sb.
    thn (adxl_upd i (\<lambda>a. a\<lparr>ax_sb := (if fifo_status \<ge> 31 then sb\<lparr>sb_possible_overflows := sb_possible_overflows sb + 1\<rparr> else sb)\<rparr>))
    (if fifo_status > 1 then sched_wake_task ''adxl345_wake''
     else
       thn (adxl_upd i (\<lambda>a. a\<lparr>ax_flags := ax_flags a AND NOT AX_PENDING\<rparr>))
       (adxl_reschedule_timer i))))))"

definition command_query_adxl345 :: "u32 list \<Rightarrow> ('a adxl345_s_scheme, unit) fw" where
  "command_query_adxl345 args = (case args of
      [oid, rest_ticks] \<Rightarrow>
        bnd (oid_lookup (ucast oid) ''adxl345'') (\<lambda>i.
        thn (sched_del_timer (adxl_time i))
        (thn (adxl_upd i (\<lambda>a. a\<lparr>ax_flags := 0\<rparr>))
        (if rest_ticks = 0 then ret ()
         else
           thn (adxl_upd i (\<lambda>a. a\<lparr>ax_rest_ticks := rest_ticks, ax_sb := sensor_bulk_reset (ax_sb a)\<rparr>))
           (adxl_reschedule_timer i))))
    | _ \<Rightarrow> stuck)"

definition command_query_adxl345_status :: "'a adxl345_s_scheme spi_hw \<Rightarrow> u32 list \<Rightarrow> ('a adxl345_s_scheme, unit) fw" where
  "command_query_adxl345_status hw args = (case args of
      [oid] \<Rightarrow>
        bnd (oid_lookup (ucast oid) ''adxl345'') (\<lambda>i.
        bnd (gets (\<lambda>s. ax_spi (adxl345s s i))) (\<lambda>spi.
        bnd timer_read_time (\<lambda>time1.
        bnd (spidev_transfer hw spi True [AR_FIFO_STATUS OR AM_READ, 0]) (\<lambda>msg.
        bnd timer_read_time (\<lambda>time2.
        let fifo_status = msg ! 1 AND NOT 0x80 in
        if fifo_status > 32 then ret ()
        else
          bnd (gets (\<lambda>s. ax_sb (adxl345s s i))) (\<lambda>sb.
          sensor_bulk_status sb (ucast oid) time1 (time2 - time1) (ucast fifo_status * of_nat BYTES_PER_SAMPLE)))))))
    | _ \<Rightarrow> stuck)"

definition adxl345_task :: "'a adxl345_s_scheme spi_hw \<Rightarrow> ('a adxl345_s_scheme, unit) fw" where
  "adxl345_task hw =
    bnd (sched_check_wake ''adxl345_wake'') (\<lambda>w.
    if \<not> w then ret ()
    else foreach_oid ''adxl345'' (\<lambda>i.
      bnd (gets (\<lambda>s. ax_flags (adxl345s s i))) (\<lambda>flags.
      if flags AND AX_PENDING \<noteq> 0 then adxl_query hw i else ret ())))"

section \<open>The values\<close>

text \<open>
  What the host makes of five bytes (\<^verbatim>\<open>_convert_samples\<close> of \<^verbatim>\<open>klippy/extras/adxl345.py\<close>); bit 7 of the
  last one marks an error.  The host then maps and scales the axes; these are the raw values.
\<close>

definition convert_sample :: "u8 list \<Rightarrow> (int \<times> int \<times> int) option" where
  "convert_sample d =
    (let xlow = uint (d ! 0); ylow = uint (d ! 1); zlow = uint (d ! 2); xzhigh = uint (d ! 3); yzhigh = uint (d ! 4) in
     if yzhigh AND 0x80 \<noteq> 0 then None
     else
       let rx = (xlow OR push_bit 8 (xzhigh AND 0x1f)) - push_bit 9 (xzhigh AND 0x10);
           ry = (ylow OR push_bit 8 (yzhigh AND 0x1f)) - push_bit 9 (yzhigh AND 0x10);
           rz = (zlow OR push_bit 3 (xzhigh AND 0xe0) OR push_bit 6 (yzhigh AND 0xe0)) - push_bit 7 (yzhigh AND 0x40) in
       Some (rx, ry, rz))"

text \<open>A value of the chip: two bytes, the low one first.\<close>

definition chip_value :: "u8 \<Rightarrow> u8 \<Rightarrow> int" where
  "chip_value lo hi = sint (word_cat hi lo :: 16 word)"

lemma high_nibble:
  assumes "hi AND 0xf0 = (0 :: u8) \<or> hi AND 0xf0 = 0xf0"
  shows "bit hi 5 = bit hi 4" "bit hi 6 = bit hi 4" "bit hi 7 = bit hi 4"
proof -
  have n: "bit (0xf0 :: u8) 4" "bit (0xf0 :: u8) 5" "bit (0xf0 :: u8) 6" "bit (0xf0 :: u8) 7"
    by (simp_all add: bit_iff_odd)
  have "bit (hi AND 0xf0) k = (bit hi k \<and> bit (0xf0 :: u8) k)" for k by (rule bit_and_iff)
  with n assms show "bit hi 5 = bit hi 4" "bit hi 6 = bit hi 4" "bit hi 7 = bit hi 4"
    by (metis bit_0_eq bot_apply bot_bool_def)+
qed

lemma no_bit: "8 \<le> k \<Longrightarrow> \<not> bit (x :: u8) k"
  by (auto dest: bit_imp_le_length)

lemma value_13:
  assumes "hi AND 0xf0 = (0 :: u8) \<or> hi AND 0xf0 = 0xf0"
  shows "chip_value lo hi = signed_take_bit 12 (uint lo OR push_bit 8 (uint hi AND 0x1f))"
proof (rule bit_eqI)
  fix n :: nat
  have m: "(0x1f :: int) = mask 5" by (simp add: mask_numeral)
  show "bit (chip_value lo hi) n = bit (signed_take_bit 12 (uint lo OR push_bit 8 (uint hi AND 0x1f))) n"
  proof -
    consider "n < 8" | "n = 8" | "n = 9" | "n = 10" | "n = 11" | "n = 12" | "n = 13" | "n = 14" | "15 \<le> n" by linarith
    then show ?thesis
      unfolding chip_value_def m by cases (simp_all add: bit_simps min_def high_nibble [OF assms] no_bit)
  qed
qed

text \<open>The host's sign correction is a 13-bit sign extension.\<close>

lemma sign_13:
  "signed_take_bit 12 (uint lo OR push_bit 8 (uint hi AND 0x1f)) =
    (uint (lo :: u8) OR push_bit 8 (uint (hi :: u8) AND 0x1f)) - 2 ^ 13 * of_bool (bit hi 4)"
proof -
  let ?v = "uint lo OR push_bit 8 (uint hi AND 0x1f)"
  have m: "(0x1f :: int) = mask 5" by (simp add: mask_numeral)
  have "take_bit 13 ?v = ?v"
    by (rule bit_eqI) (auto simp: m bit_simps no_bit dest: bit_imp_le_length)
  moreover have "bit ?v 12 = bit hi 4" by (simp add: m bit_simps no_bit)
  ultimately show ?thesis by (simp add: signed_take_bit_eq_take_bit_minus)
qed

lemma and_one_bit: "(a :: int) AND 2 ^ n = 2 ^ n * of_bool (bit a n)"
proof -
  have "a AND 2 ^ n = push_bit n (of_bool (bit a n))"
    by (rule bit_eqI) (auto simp: bit_simps)
  then show ?thesis by (simp add: push_bit_eq_mult)
qed

lemma convert_list:
  "convert_sample [a, b, c, d, e] = (if uint e AND 0x80 \<noteq> 0 then None
    else Some ((uint a OR push_bit 8 (uint d AND 0x1f)) - push_bit 9 (uint d AND 0x10),
      (uint b OR push_bit 8 (uint e AND 0x1f)) - push_bit 9 (uint e AND 0x10),
      (uint c OR push_bit 3 (uint d AND 0xe0) OR push_bit 6 (uint e AND 0xe0)) - push_bit 7 (uint e AND 0x40)))"
  by (simp add: convert_sample_def Let_def)

lemma sign_bits:
  "push_bit 9 (uint ((xh AND 0x1f) OR push_bit 5 zh :: u8) AND 0x10) = 2 ^ 13 * of_bool (bit xh 4)"
  "push_bit 9 (uint ((yh AND 0x1f) OR (push_bit 2 zh AND 0x60) :: u8) AND 0x10) = 2 ^ 13 * of_bool (bit yh 4)"
  "push_bit 7 (uint ((yh AND 0x1f) OR (push_bit 2 zh AND 0x60) :: u8) AND 0x40) = 2 ^ 13 * of_bool (bit zh 4)"
proof -
  have m: "(0x10 :: int) = 2 ^ 4" "(0x40 :: int) = 2 ^ 6" "(0x1f :: u8) = mask 5" "(0x60 :: u8) = push_bit 5 (mask 2)"
    by (simp_all add: mask_numeral)
  have b: "bit ((xh AND mask 5) OR push_bit 5 zh) 4 = bit xh 4"
      "bit ((yh AND mask 5) OR (push_bit 2 zh AND push_bit 5 (mask 2))) 4 = bit yh 4"
      "bit ((yh AND mask 5) OR (push_bit 2 zh AND push_bit 5 (mask 2))) 6 = bit zh 4"
      by (simp_all add: bit_simps)
  show "push_bit 9 (uint ((xh AND 0x1f) OR push_bit 5 zh :: u8) AND 0x10) = 2 ^ 13 * of_bool (bit xh 4)"
      "push_bit 9 (uint ((yh AND 0x1f) OR (push_bit 2 zh AND 0x60) :: u8) AND 0x10) = 2 ^ 13 * of_bool (bit yh 4)"
      "push_bit 7 (uint ((yh AND 0x1f) OR (push_bit 2 zh AND 0x60) :: u8) AND 0x40) = 2 ^ 13 * of_bool (bit zh 4)"
      unfolding m and_one_bit bit_uint_iff b by (simp_all add: push_bit_eq_mult)
qed

lemma error_bit:
  "uint ((yh AND 0x1f) OR (push_bit 2 zh AND 0x60) :: u8) AND 0x80 = 0"
proof -
  have m: "(0x80 :: int) = 2 ^ 7" "(0x1f :: u8) = mask 5" "(0x60 :: u8) = push_bit 5 (mask 2)"
    by (simp_all add: mask_numeral)
  show ?thesis unfolding m and_one_bit by (simp add: bit_simps)
qed

lemma fields_x:
  "uint ((xh AND 0x1f) OR push_bit 5 zh :: u8) AND 0x1f = uint xh AND 0x1f"
proof (rule bit_eqI)
  fix n
  have m: "(0x1f :: int) = mask 5" "(0x1f :: u8) = mask 5" by (simp_all add: mask_numeral)
  show "bit (uint ((xh AND 0x1f) OR push_bit 5 zh :: u8) AND 0x1f) n = bit (uint xh AND 0x1f) n"
    unfolding m by (auto simp add: bit_simps)
qed

lemma fields_y:
  "uint ((yh AND 0x1f) OR (push_bit 2 zh AND 0x60) :: u8) AND 0x1f = uint yh AND 0x1f"
proof (rule bit_eqI)
  fix n
  have m: "(0x1f :: int) = mask 5" "(0x1f :: u8) = mask 5" "(0x60 :: u8) = push_bit 5 (mask 2)" by (simp_all add: mask_numeral)
  show "bit (uint ((yh AND 0x1f) OR (push_bit 2 zh AND 0x60) :: u8) AND 0x1f) n = bit (uint yh AND 0x1f) n"
    unfolding m by (auto simp add: bit_simps)
qed

lemma fields_z:
  "uint lo OR push_bit 3 (uint ((xh AND 0x1f) OR push_bit 5 zh :: u8) AND 0xe0) OR
    push_bit 6 (uint ((yh AND 0x1f) OR (push_bit 2 zh AND 0x60) :: u8) AND 0xe0) = uint (lo :: u8) OR push_bit 8 (uint zh AND 0x1f)"
proof (rule bit_eqI)
  fix n :: nat
  have m: "(0x1f :: int) = mask 5" "(0x1f :: u8) = mask 5" "(0x60 :: u8) = push_bit 5 (mask 2)" "(0xe0 :: int) = push_bit 5 (mask 3)"
    by (simp_all add: mask_numeral)
  consider "n < 8" | "n = 8" | "n = 9" | "n = 10" | "n = 11" | "n = 12" | "n = 13" | "14 \<le> n" by linarith
  then show "bit (uint lo OR push_bit 3 (uint ((xh AND 0x1f) OR push_bit 5 zh :: u8) AND 0xe0) OR
    push_bit 6 (uint ((yh AND 0x1f) OR (push_bit 2 zh AND 0x60) :: u8) AND 0xe0)) n = bit (uint lo OR push_bit 8 (uint zh AND 0x1f)) n"
    unfolding m by cases (auto simp add: bit_simps no_bit)
qed

text \<open>
  C29: The host reads back what the chip measured.  A reading that shows no glitch is packed into five
  bytes from which the host's conversion recovers the three signed values; any other reading is
  packed so that the host skips it.
\<close>

theorem adxl_sample_roundtrip:
  "convert_sample (fst (adxl_pack msg)) =
    (if adxl_glitch msg (msg ! 8 AND NOT 0x80) then None
     else Some (chip_value (msg ! 1) (msg ! 2), chip_value (msg ! 3) (msg ! 4), chip_value (msg ! 5) (msg ! 6)))"
proof (cases "adxl_glitch msg (msg ! 8 AND NOT 0x80)")
  case True
  then show ?thesis by (simp add: adxl_pack_def convert_sample_def Let_def)
next
  case False
  then have h: "msg ! 2 AND 0xf0 = 0 \<or> msg ! 2 AND 0xf0 = 0xf0" "msg ! 4 AND 0xf0 = 0 \<or> msg ! 4 AND 0xf0 = 0xf0"
    "msg ! 6 AND 0xf0 = 0 \<or> msg ! 6 AND 0xf0 = 0xf0"
    by (auto simp: adxl_glitch_def)
  have d: "fst (adxl_pack msg) = [msg ! 1, msg ! 3, msg ! 5, (msg ! 2 AND 0x1f) OR push_bit 5 (msg ! 6),
      (msg ! 4 AND 0x1f) OR (push_bit 2 (msg ! 6) AND 0x60)]"
    using False by (simp add: adxl_pack_def Let_def)
  show ?thesis
    unfolding d convert_list error_bit fields_x fields_y fields_z sign_bits h [THEN value_13] sign_13
    using False by simp
qed

text \<open>A reading is stored as one sample of the stream that theory Sensor_bulk describes.\<close>

lemma length_adxl_pack: "length (fst (adxl_pack msg)) = BYTES_PER_SAMPLE"
  by (simp add: adxl_pack_def Let_def BYTES_PER_SAMPLE_def)

end
