(* ===== verification/Spec2Isabelle.thy ===== *)
theory Spec2Isabelle
  imports Msgblock Endstop Gpiocmds Pwmcmds Adccmds Buttons Pulse_counter Steppersync Link Trdispatch Tmcuart Serial_irq Usb_cdc Timer_irq Spi I2c Thermocouple Canserial Neopixel Load_cell_probe Adxl345
begin

text \<open>
  Verification of the Klipper engine bundled with the application: the firmware of the
  micro-controller (\<^verbatim>\<open>src/app/src/main/klipper/src\<close>) and the C helpers of the host process
  (\<^verbatim>\<open>src/app/src/main/klipper/klippy/chelper\<close>), and the load cell probe of the fork Kalico
  (\<^verbatim>\<open>src/app/src/main/kalico/src\<close>).  Paths below are relative to \<^verbatim>\<open>src/app/src/main/klipper\<close>
  where they are not of Kalico.

  \<^bold>\<open>The program.\<close>  The host computes step times, compresses them to commands, merges the commands
  of all steppers and sends them in numbered blocks over a serial line.  The micro-controller
  collects the bytes, checks each block, dispatches its commands to the modules, and runs the
  modules' timers: steppers toggle pins, end stops sample pins and fire triggers, outputs follow
  their schedules, inputs report back to the host.  A trigger stops the steppers registered with
  it.  An error is a shutdown, after which only few commands run.

  \<^bold>\<open>How C is modelled.\<close>  An integer of \<open>w\<close> bits is a \<open>w word\<close>, and its arithmetic wraps; where C
  leaves signed overflow undefined, the integers are \<open>int\<close> and leaving the range is the result
  \<open>None\<close> or \<open>Stuck\<close>.  A \<^verbatim>\<open>struct\<close> is a record, an object with an oid or a statically allocated
  object is an entry of a function from its number, a linked list is a map from node to next
  node (Sched, Basecmd, Trsync) or, where only its order matters, a list (Serialqueue).  A byte
  buffer is a list of bytes; an access outside is \<open>None\<close> or \<open>Stuck\<close>.  Stateful code is a function
  \<open>('s, 'a) fw\<close> from a state to a result and a state (theory Prelude): \<open>Inr\<close> is a return, \<open>Inl\<close>
  the \<^verbatim>\<open>longjmp\<close> of a shutdown with its reason, or \<open>Stuck\<close> for what C leaves undefined.  The
  records of the firmware modules extend each other, so that all modules share one state:
  board, scheduler, basic commands, triggers, steppers, end stops and so on.

  \<^bold>\<open>Theories.\<close>
  \<^item> Prelude: machine types, clock comparison, computations with shutdown, shared lemmas.
  \<^item> Codec: the interfaces \<open>codec\<close> and \<open>checksum\<close> as locales; Vlq and Crc16 give the coder of
    \<^verbatim>\<open>src/command.c\<close> and the checksums of \<^verbatim>\<open>src/generic/crc16_ccitt.c\<close> and
    \<^verbatim>\<open>klippy/chelper/msgblock.c\<close>, and interpret the locales: decoding undoes encoding, the
    checksum detects a burst of up to 16 bits.
  \<^item> Board: what the modules use of a board (clock, pins, analog converter, console, reset),
    with the inputs of each pin as a stream of readings.
  \<^item> Command: \<^verbatim>\<open>src/command.c\<close>, encoding, framing, parsing of parameters and
    \<^verbatim>\<open>command_find_block\<close>.  Msgblock: \<^verbatim>\<open>klippy/chelper/msgblock.c\<close>, the same on the host.
  \<^item> Sched: \<^verbatim>\<open>src/sched.c\<close>, the timer list with its sentinel, the dispatcher, tasks, shutdown.  The
    list is sorted by the wrap-around order relative to a base clock; the locale
    \<open>timer_callbacks\<close> says what an event function must keep.
  \<^item> Basecmd: \<^verbatim>\<open>src/basecmd.c\<close> and \<^verbatim>\<open>src/generic/alloc.c\<close>, allocation, the pool of move nodes,
    move queues (locale \<open>fifo\<close>), object ids, configuration, statistics.
  \<^item> Dispatch: command dispatch of \<^verbatim>\<open>src/command.c\<close> and the main loop of \<^verbatim>\<open>src/sched.c\<close>.
  \<^item> Trsync, Stepper, Endstop: \<^verbatim>\<open>src/trsync.c\<close>, \<^verbatim>\<open>src/stepper.c\<close>, \<^verbatim>\<open>src/endstop.c\<close>.  The locale
    \<open>trsync_signals\<close> states what a trigger expects of its callbacks and is interpreted on
    \<^verbatim>\<open>stepper_stop\<close>; \<open>timer_callbacks\<close> is interpreted on the events of a homing move.
  \<^item> Gpiocmds, Pwmcmds, Adccmds, Buttons, Pulse_counter: the files of these names under
    \<^verbatim>\<open>src\<close>, with all their commands, events and tasks.
  \<^item> Stepcompress and Steppersync: \<^verbatim>\<open>klippy/chelper/stepcompress.c\<close>, the compression of one
    stepper and the merge of all steppers with the heap of move queue clocks (locale
    \<open>release_pool\<close>).
  \<^item> Serialqueue: \<^verbatim>\<open>klippy/chelper/serialqueue.c\<close>.  Link: the serial queue, \<^verbatim>\<open>command_find_block\<close>
    and a wire that loses blocks, as a step relation.
  \<^item> Trdispatch: \<^verbatim>\<open>klippy/chelper/trdispatch.c\<close>, the host's fast path between the triggers of
    several micro-controllers: a reported trigger stops all of them, status reports extend their
    timeouts.
  \<^item> Tmcuart: \<^verbatim>\<open>src/tmcuart.c\<close>, the single wire bus to stepper drivers, bit by bit.
  \<^item> Timer_irq: \<^verbatim>\<open>src/generic/timer_irq.c\<close>, the dispatch of timers from the timer interrupt.
  \<^item> Rx_queue: the receive buffer that both consoles have, with the locale \<open>rx_interrupt\<close> for the
    interrupt that fills it; Serial_irq (\<^verbatim>\<open>src/generic/serial_irq.c\<close>) and Canserial
    (\<^verbatim>\<open>src/generic/canserial.c\<close>, \<^verbatim>\<open>src/generic/canbus.c\<close>) interpret it for bytes and for CAN frames.
    Canserial also has the assignment of node ids and the ring of admin messages.
  \<^item> Usb_cdc: \<^verbatim>\<open>src/generic/usb_cdc.c\<close>, the console over USB: the bulk endpoints, and the descriptors and
    requests of endpoint 0, whose transfers continue after a refused packet.
  \<^item> Bus: pins with a record of their accesses, and the locale \<open>bus_device\<close> for a device that watches
    them.  Spi (\<^verbatim>\<open>src/spicmds.c\<close>, \<^verbatim>\<open>src/spi_software.c\<close>) and I2c (\<^verbatim>\<open>src/i2ccmds.c\<close>,
    \<^verbatim>\<open>src/i2c_software.c\<close>) interpret it with devices as the bus specifications have them; Thermocouple
    (\<^verbatim>\<open>src/thermocouple.c\<close>) reads its chips over Spi;
    Adxl345 (\<^verbatim>\<open>src/sensor_adxl345.c\<close>) packs its samples for Sensor_bulk (\<^verbatim>\<open>src/sensor_bulk.c\<close>), and the
    host side of the packing is that of \<^verbatim>\<open>klippy/extras/adxl345.py\<close>; Neopixel (\<^verbatim>\<open>src/neopixel.c\<close>) records the time of
    every edge.
  \<^item> Sos_filter and Load_cell_probe (\<^verbatim>\<open>src/sos_filter.c\<close> and \<^verbatim>\<open>src/load_cell_probe.c\<close> of Kalico): the fixed
    point filter, with a proof that it computes its difference equations, and the probe that filters each
    sample of force and fires a trigger.
  \<^item> This theory: properties that span components.

  \<^bold>\<open>What is shown.\<close>  From end to end: a message framed by the micro-controller is decoded by the
  host to the identifier of its format and the same integers, a block with a damaged byte, or two adjacent
  ones, in its number and payload is refused by both sides (a damage that straddles the checksum need not be,
  lemma \<open>straddling_damage_accepted\<close>), and commands encoded by
  the host are executed in order by the dispatcher.  Over a wire that loses blocks and
  acknowledgements, the micro-controller accepts exactly the blocks the host built, in order and
  once each, and from every reachable state one retransmission and the undisturbed delivery of what it
  puts on the wire, in any order of the two directions, leave everything accepted and acknowledged.  The compressor's commands make
  the micro-controller step within the error limit of each requested clock, and the merge sends
  every due command in the order of the clocks and never has more moves under way than the
  micro-controller has room for.  On the micro-controller, the
  timer list stays sorted whatever event of a homing move runs; queued moves give steps at their
  closed-form times; an end stop fires only after enough matching samples, and then every
  registered stepper is stopped.  On the buses, a device
  sees exactly the bits of a transfer, and the code returns the bits it answers; on both consoles
  the messages leave in order and no byte that arrives is lost; the samples of a
  bulk sensor reach the host in order.  The load cell probe stops the steppers exactly when a sample says so,
  and its watchdog when samples stop arriving.  Lemmas on every operation support these: invariants,
  behaviour on each branch, bounds of every buffer access, conservation of move nodes.

  \<^bold>\<open>Loops and fuel.\<close>  A loop over a list or with a decreasing measure is a total function.  The
  walks along the timer list are \<^verbatim>\<open>partial_function (option)\<close>, shown to return on a well-formed
  list; so is the bisection of the compressor, shown to end.  Loops over linked callbacks and
  moves carry fuel (255 signals for 8-bit object ids, 1024 moves, the most that
  \<^verbatim>\<open>move_finalize\<close> allocates), and the theorems show that the result is reached within it; \<^verbatim>\<open>command_event\<close> needs one
  pass more than \<^verbatim>\<open>MAX_PENDING_BLOCKS\<close>.

  \<^bold>\<open>Not modelled.\<close>  Arithmetic in \<^verbatim>\<open>double\<close> (round trip estimate, conversion of print time to
  clock, kinematics, trapezoid queue): clocks computed this way are arguments.  Threads and
  mutexes of the host: each function that holds the lock is one step.  Hardware registers of the
  boards (the hardware SPI and I2C are parameters), the USB and CAN controllers, displays, the
  sensors other than the thermocouples and the ADXL345, vendored libraries, the Python and Kotlin code.  The memory
  barrier and volatile accesses of the firmware: an interrupt runs between two functions, not inside
  one, but for the consoles and the timer interrupt, where what arrives during a function is an argument of it.
  Interrupts in the wait of the timer interrupt and the polling of interrupts in wait loops are left out.
  Kalico is a fork whose C files are mostly the same text: of it only the filter and the load cell probe, which
  Klipper's copy does not have, are mapped.
\<close>

section \<open>The link between host and micro-controller\<close>

lemma parse_loop_append:
  "parse_loop c v p = Some (w, q) \<Longrightarrow> parse_loop c v (p @ r) = Some (w, q @ r)"
proof (induction p arbitrary: c v)
  case Nil
  then show ?case by (simp add: parse_loop.simps split: if_splits)
next
  case (Cons d p)
  then show ?case by (simp add: parse_loop.simps [of c] split: if_splits)
qed

lemma parse_int_append: "parse_int p = Some (w, q) \<Longrightarrow> parse_int (p @ r) = Some (w, q @ r)"
  by (cases p) (auto simp: parse_int.simps Let_def dest: parse_loop_append)

lemma decode_msgid_frame:
  assumes "parse_int (encode_msgid m) = Some (mid, [])"
  shows "msgblock_decode (Suc (length vs)) (mk_frame seq (encode_msgid m @ encode_ints vs))
    (length (encode_msgid m @ encode_ints vs) + 5) = Some (0, mid # vs)"
proof -
  let ?p = "encode_msgid m @ encode_ints vs"
  let ?f = "mk_frame seq ?p" and ?q = "2 + length (encode_msgid m)"
  let ?e = "2 + length ?p"
  have d: "drop 2 ?f = encode_msgid m @ encode_ints vs @ drop ?e ?f"
    by (simp add: mk_frame_def frame_body_def)
  have "parse_int (drop 2 ?f) = Some (mid, encode_ints vs @ drop ?e ?f)"
    unfolding d using parse_int_append [OF assms] by simp
  then have at: "host_parse_int ?f 2 = Some (mid, ?q)"
    by (simp add: host_parse_int_eq)
  have "drop ?q ?f = drop (length (encode_msgid m)) (drop 2 ?f)" by (simp add: add.commute)
  also have "\<dots> = encode_ints vs @ drop ?e ?f" unfolding d by simp
  finally have "decode_loop (length vs) ?q ?e ?f = Some (Inr (vs, ?e))"
    by (intro decode_loop_ints) simp_all
  moreover have "2 < ?e" by (simp add: encode_msgid_def)
  ultimately show ?thesis
    using at by (simp add: msgblock_decode_def message_consts Let_def)
qed

text \<open>
  C1: a message sent by the firmware is received by the host.  The frame that
  \<open>command_encode_and_frame\<close> writes for an integer message passes the host's block check,
  whatever bytes follow it, and \<open>msgblock_decode\<close> returns the id under which the data
  dictionary lists the message (\<open>dictionary_msgid\<close>, a closed form of the message's number),
  followed by exactly the integers that were sent.  The number is below \<open>1 << 14\<close>, which the
  build checks.
\<close>

theorem mcu_message_reaches_host:
  assumes "list_all is_int_ptype (ce_param_types ce)" and "length (ce_param_types ce) = length vs"
    and "length (encode_msgid (ce_encoded_msgid ce) @ encode_ints vs) + MESSAGE_MIN
      \<le> ce_max_size ce"
    and "ce_max_size ce \<le> MESSAGE_MAX" and "length buf = MESSAGE_MAX" and "seq_ok seq"
    and "ce_encoded_msgid ce < 0x4000"
  shows "\<exists>out msglen. command_encode_and_frame seq buf ce (map VA_int vs)
        = Some (Inr (out, msglen)) \<and>
      msgblock_check 0 (take msglen out @ rest) = (int msglen, 0) \<and>
      msgblock_decode (Suc (length vs)) (take msglen out) msglen
        = Some (0, dictionary_msgid (ce_encoded_msgid ce) # vs)"
proof -
  let ?p = "encode_msgid (ce_encoded_msgid ce) @ encode_ints vs"
  note mid = parse_dictionary_msgid [OF assms(7)]
  have len: "length ?p \<le> 59" "length ?p + 5 \<le> ce_max_size ce" "ce_max_size ce \<le> length buf"
    using assms(3-5) by (simp_all add: message_consts)
  have enc: "command_encode_and_frame seq buf ce (map VA_int vs) =
    Some (Inr (mk_frame seq ?p @ drop (length ?p + 5) buf, length ?p + 5))"
    using encode_and_frame_ints [OF assms(1,2) refl len(2,3)] .
  have ok: "block_ok (mk_frame seq ?p @ rest) (length ?p + 5)"
    using frame_prefix [OF len(1)] assms(6) by blast
  have t: "take (length ?p + 5) (mk_frame seq ?p @ drop (length ?p + 5) buf) = mk_frame seq ?p"
    by (simp del: length_append)
  show ?thesis
    using enc check_value [OF ok] decode_msgid_frame [OF mid, of vs seq] t
    by (intro exI conjI) (assumption | simp only: t)+
qed

theorem mcu_message_reaches_host_witness:
  "\<exists>out msglen. command_encode_and_frame 0x13 (replicate 64 0) (example_encoder\<lparr>ce_encoded_msgid := 0x3085\<rparr>)
        (map VA_int [1, 1000000]) = Some (Inr (out, msglen)) \<and>
      msgblock_check 0 (take msglen out @ [1, 2, 3]) = (int msglen, 0) \<and>
      msgblock_decode (Suc (length [1, 1000000 :: u32])) (take msglen out) msglen
        = Some (0, dictionary_msgid (ce_encoded_msgid (example_encoder\<lparr>ce_encoded_msgid := 0x3085\<rparr>)) # [1, 1000000])"
  by (rule mcu_message_reaches_host)
    (simp_all add: example_encoder_def message_consts seq_ok_def encode_msgid_def encode_int_def)

lemma crc_burst2:
  assumes "crc16_ccitt (xs @ w' @ ys) = crc16_ccitt (xs @ w @ ys)" and "xs \<noteq> []"
    and "length w' = length w" and "length w \<le> 2"
  shows "w' = w"
proof -
  consider "w = []" | a where "w = [a]" | a b where "w = [a, b]"
    using assms(4) by (cases w; cases "tl w"; cases "tl (tl w)") auto
  then show ?thesis
  proof cases
    case 1
    then show ?thesis using assms(3) by simp
  next
    case (2 a)
    then obtain a' where w': "w' = [a']" using assms(3) by (cases w') auto
    obtain zs z where xs: "xs = zs @ [z]" using assms(2) by (cases xs rule: rev_cases) auto
    have "crc16_ccitt (zs @ [z, a'] @ ys) = crc16_ccitt (zs @ [z, a] @ ys)" using assms(1) by (simp add: 2 w' xs)
    then show ?thesis using crc_burst_detected 2 w' by blast
  next
    case (3 a b)
    then obtain a' b' where w': "w' = [a', b']" using assms(3) by (cases w'; cases "tl w'") auto
    then show ?thesis using crc_burst_detected [of xs a' b' ys a b] assms(1) 3 by simp
  qed
qed

lemma crc_bytes_eq:
  assumes "ucast (drop_bit 8 d) = (ucast (drop_bit 8 c) :: u8)" and "ucast d = (ucast c :: u8)"
  shows "(c :: u16) = d"
  using crc_bytes_iff [of c "ucast (drop_bit 8 c)" "ucast c"] crc_bytes_iff [of d "ucast (drop_bit 8 d)" "ucast d"]
  by (simp add: assms)

lemma trailer_frame:
  "mk_frame seq payload = frame_body seq payload @
    [ucast (drop_bit 8 (crc16_ccitt (frame_body seq payload))), ucast (crc16_ccitt (frame_body seq payload)), MESSAGE_SYNC]"
  by (simp add: mk_frame_def Let_def)

lemma damaged_frame:
  assumes "block_ok (body @ t @ rest) (unat ((body @ t @ rest) ! 0))"
    and "length body = length payload + 2" and "length t = 3" and "length payload \<le> 59"
    and "body ! 0 = frame_body seq payload ! 0"
  shows "t = [ucast (drop_bit 8 (crc16_ccitt body)), ucast (crc16_ccitt body), MESSAGE_SYNC]"
proof -
  let ?n = "length payload + 2" and ?buf = "body @ t @ rest"
  obtain t0 t1 t2 where t: "t = [t0, t1, t2]"
    using assms(3) by (cases t; cases "tl t"; cases "tl (tl t)") auto
  have "?buf ! 0 = of_nat (length payload + 5)" using assms(2,5) by (simp add: nth_append frame_body_def)
  then have n: "unat (?buf ! 0) = length payload + 5"
    using assms(4) unat_of_nat_small [of "length payload + 5", where 'a = 8] by simp
  have at: "take ?n ?buf = body" "?buf ! ?n = t0" "?buf ! (?n + 1) = t1" "?buf ! (?n + 2) = t2"
    unfolding t assms(2) [symmetric] by (simp_all add: nth_append)
  have i: "unat (?buf ! 0) - 3 = ?n" "unat (?buf ! 0) - 1 = ?n + 2" using n by simp_all
  have "?buf ! (?n + 2) = MESSAGE_SYNC \<and> crc16_ccitt (take ?n ?buf) = push_bit 8 (ucast (?buf ! ?n)) OR ucast (?buf ! (?n + 1))"
    using assms(1) unfolding block_ok_def i by blast
  then show ?thesis unfolding at unfolding crc_bytes_iff t by simp
qed

text \<open>
  C13: damage is detected on both sides.  Take a frame and change one or two adjacent bytes of what the
  CRC protects, the number and the payload, in any way, or change the three bytes of the trailer, the CRC
  and the sync byte, in any way: neither the firmware's block search nor the host's block check accepts
  the damaged block.  Not covered are a changed length byte, which moves the end of the block, and damage to
  payload and trailer at once, which can pass the check (\<open>straddling_damage_accepted\<close>).
\<close>

theorem corrupted_block_rejected:
  assumes "length payload \<le> MESSAGE_PAYLOAD_MAX"
    and "(\<exists>xs w w' ys. xs \<noteq> [] \<and> frame_body seq payload = xs @ w @ ys \<and> length w \<le> 2 \<and> length w' = length w \<and> w' \<noteq> w \<and>
        damaged = xs @ w' @ ys @ drop (length payload + 2) (mk_frame seq payload)) \<or>
      (\<exists>t. length t = 3 \<and> t \<noteq> drop (length payload + 2) (mk_frame seq payload) \<and> damaged = frame_body seq payload @ t)"
  shows "fst (command_find_block (damaged @ rest) s) \<noteq> 1 \<and> \<not> fst (msgblock_check need_sync (damaged @ rest)) > 0"
proof -
  let ?body = "frame_body seq payload"
  have body: "length ?body = length payload + 2" by (simp add: frame_body_def)
  have tr: "drop (length payload + 2) (mk_frame seq payload) =
      [ucast (drop_bit 8 (crc16_ccitt ?body)), ucast (crc16_ccitt ?body), MESSAGE_SYNC]"
    unfolding trailer_frame body [symmetric] by simp
  have len: "length payload \<le> 59" using assms(1) by (simp add: message_consts)
  have "\<not> block_ok (damaged @ rest) (unat ((damaged @ rest) ! 0))"
  proof
    assume ok: "block_ok (damaged @ rest) (unat ((damaged @ rest) ! 0))"
    from assms(2) show False
    proof (elim disjE exE conjE)
      fix xs w w' ys
      assume d: "xs \<noteq> []" "?body = xs @ w @ ys" "length w \<le> 2" "length w' = length w" "w' \<noteq> w"
        and e: "damaged = xs @ w' @ ys @ drop (length payload + 2) (mk_frame seq payload)"
      have b: "length (xs @ w' @ ys) = length payload + 2" "(xs @ w' @ ys) ! 0 = ?body ! 0"
        using d body by (simp_all add: nth_append)
      have "[ucast (drop_bit 8 (crc16_ccitt ?body)), ucast (crc16_ccitt ?body), MESSAGE_SYNC] =
          [ucast (drop_bit 8 (crc16_ccitt (xs @ w' @ ys))), ucast (crc16_ccitt (xs @ w' @ ys)), MESSAGE_SYNC]"
        by (rule damaged_frame [OF _ b(1) _ len b(2), where rest = rest]) (use ok e tr in simp_all)
      then have "ucast (drop_bit 8 (crc16_ccitt ?body)) = (ucast (drop_bit 8 (crc16_ccitt (xs @ w' @ ys))) :: u8)"
        "ucast (crc16_ccitt ?body) = (ucast (crc16_ccitt (xs @ w' @ ys)) :: u8)"
        by simp_all
      then have "crc16_ccitt (xs @ w' @ ys) = crc16_ccitt ?body"
        by (rule crc_bytes_eq)
      then show False using crc_burst2 [of xs w' ys w] d by simp
    next
      fix t assume t: "length t = 3" "t \<noteq> drop (length payload + 2) (mk_frame seq payload)" "damaged = ?body @ t"
      have "t = [ucast (drop_bit 8 (crc16_ccitt ?body)), ucast (crc16_ccitt ?body), MESSAGE_SYNC]"
        by (rule damaged_frame [OF _ body t(1) len refl, where rest = rest]) (use ok t(3) in simp)
      then show False using t(2) tr by simp
    qed
  qed
  then show ?thesis using find_block_accept [of "damaged @ rest" s] check_valid [of need_sync "damaged @ rest"] by simp
qed

lemma straddling_damage_accepted:
  "mk_frame 0x13 [1, 2, 3] = [8, 0x13, 1, 2, 3, 0xd7, 0x33, 0x7e] \<and> block_ok [8, 0x13, 1, 2, 0x92, 0x52, 0x33, 0x7e] 8"
  by code_simp

theorem corrupted_block_rejected_witness:
  "fst (command_find_block (([7, 0x10, 0xf0, 0x22] @ drop (length [1, 2 :: u8] + 2) (mk_frame 0x10 [1, 2])) @ []) idle_command_s) \<noteq> 1 \<and>
    \<not> fst (msgblock_check 0 (([7, 0x10, 0xf0, 0x22] @ drop (length [1, 2 :: u8] + 2) (mk_frame 0x10 [1, 2])) @ [])) > 0"
  by (rule corrupted_block_rejected [where payload = "[1, 2]" and seq = "0x10"])
    (simp add: message_consts, rule disjI1, rule exI [of _ "[7, 0x10]"], rule exI [of _ "[1, 2]"],
     rule exI [of _ "[0xf0, 0x22]"], rule exI [of _ "[]"], simp add: frame_body_def)

text \<open>
  C37: the truncation of an over-long buffer argument is off by one.  When the data of a
  \<^verbatim>\<open>%*s\<close> argument does not fit, the encoder writes one byte more than the maximum size
  of the message, so that at the protocol limit the block is longer than \<open>MESSAGE_MAX\<close> and
  its length is not one the host accepts.
\<close>

theorem encodef_truncation_overruns:
  assumes "ce_param_types ce = [PT_buffer]"
    and "MESSAGE_MIN + length (encode_msgid (ce_encoded_msgid ce)) \<le> ce_max_size ce"
    and "ce_max_size ce < length buf" and "unat n = length data"
    and "ce_max_size ce \<le> MESSAGE_MIN + length (encode_msgid (ce_encoded_msgid ce)) + length data"
  shows "\<exists>out. command_encodef buf ce [VA_buf n data] = Some (Inr (out, ce_max_size ce + 1))"
  using assms
  by (auto simp: command_encodef_def buf_put_def message_consts encode_msgid_def Let_def)

theorem encodef_truncation_overruns_witness:
  "\<exists>out. command_encodef (replicate 96 0)
      \<lparr>ce_encoded_msgid = 5, ce_max_size = 64, ce_param_types = [PT_buffer]\<rparr>
      [VA_buf 60 (replicate 60 1)] = Some (Inr (out, 64 + 1))"
  using encodef_truncation_overruns [of
      "\<lparr>ce_encoded_msgid = 5, ce_max_size = 64, ce_param_types = [PT_buffer]\<rparr>"
      "replicate 96 0" 60 "replicate 60 1"]
  by (simp add: message_consts encode_msgid_def)

end
